(* ===== verification/VmmPrelude.thy ===== *)
theory VmmPrelude
  imports Main "HOL-Library.Word"
begin

text \<open>
  Shared vocabulary of the development: the machine integers of the C sources, results that
  may be a fault, byte buffers with C bounds, and the little-endian accessors both monitors
  use on guest memory.  The named collections \<open>res_simps\<close>, \<open>buf_simps\<close> and
  \<open>bit_tests\<close> carry the component proofs.
\<close>

unbundle bit_operations_syntax

type_synonym u8 = "8 word"
type_synonym u16 = "16 word"
type_synonym u32 = "32 word"
type_synonym u64 = "64 word"

named_theorems res_simps \<open>sequencing of computations that may fault\<close>
named_theorems buf_simps \<open>reads and writes of byte buffers\<close>
named_theorems bit_tests \<open>mask tests against a single bit\<close>

section \<open>Faults\<close>

text \<open>
  C code may leave the object it indexes (\<open>OutOfBounds\<close>: undefined behaviour, in practice a
  crash or a corrupted neighbour), run a loop for ever (\<open>Diverges\<close>), divide by zero (\<open>DivByZero\<close>), free
  what is not allocated (\<open>BadFree\<close>), use an object after it was freed (\<open>UseAfterFree\<close>) or read a variable
  nothing was stored in (\<open>Uninit\<close>); kernel code may also execute an instruction the processor rejects
  (\<open>InvalidOpcode\<close>) or wait for another CPU with interrupts disabled (\<open>Deadlock\<close>).  These are values of
  the model, so that a theorem can say when they happen and when they do not.
\<close>

datatype fault =
  OutOfBounds | Diverges | DivByZero | BadFree | UseAfterFree | Uninit | InvalidOpcode | Deadlock

type_synonym 'a res = "fault + 'a"

definition rbind :: "'e + 'a \<Rightarrow> ('a \<Rightarrow> 'e + 'b) \<Rightarrow> 'e + 'b" where
  "rbind r f = (case r of Inl e \<Rightarrow> Inl e | Inr x \<Rightarrow> f x)"

lemma rbind_Inl [simp, res_simps]: "rbind (Inl e) f = Inl e"
  by (simp add: rbind_def)

lemma rbind_Inr [simp, res_simps]: "rbind (Inr x) f = f x"
  by (simp add: rbind_def)

lemma rbind_eq_Inr [res_simps]: "rbind r f = Inr y \<longleftrightarrow> (\<exists>x. r = Inr x \<and> f x = Inr y)"
  by (cases r) auto

lemma rbind_eq_Inl [res_simps]:
  "rbind r f = Inl e \<longleftrightarrow> r = Inl e \<or> (\<exists>x. r = Inr x \<and> f x = Inl e)"
  by (cases r) auto

lemma rbind_cong [fundef_cong]:
  "r = r' \<Longrightarrow> (\<And>x. r' = Inr x \<Longrightarrow> f x = g x) \<Longrightarrow> rbind r f = rbind r' g"
  by (cases r') auto

section \<open>Byte buffers\<close>

text \<open>
  A buffer is an allocation of \<open>bsize\<close> bytes: guest RAM as the monitor maps it, or a file
  read into memory.  An access outside it is a fault.
\<close>

record cbuf =
  bsize :: nat
  bdata :: "nat \<Rightarrow> u8"

definition buf_read :: "cbuf \<Rightarrow> nat \<Rightarrow> nat \<Rightarrow> u8 list res" where
  "buf_read b off n =
     (if off + n \<le> bsize b then Inr (map (\<lambda>i. bdata b (off + i)) [0..<n])
      else Inl OutOfBounds)"

definition bytes_upd :: "(nat \<Rightarrow> u8) \<Rightarrow> nat \<Rightarrow> u8 list \<Rightarrow> nat \<Rightarrow> u8" where
  "bytes_upd d off xs = (\<lambda>a. if off \<le> a \<and> a < off + length xs then xs ! (a - off) else d a)"

definition buf_write :: "cbuf \<Rightarrow> nat \<Rightarrow> u8 list \<Rightarrow> cbuf res" where
  "buf_write b off xs =
     (if off + length xs \<le> bsize b then Inr (b\<lparr>bdata := bytes_upd (bdata b) off xs\<rparr>)
      else Inl OutOfBounds)"

lemma buf_read_Inr [buf_simps]:
  "buf_read b off n = Inr xs \<longleftrightarrow>
     off + n \<le> bsize b \<and> xs = map (\<lambda>i. bdata b (off + i)) [0..<n]"
  by (auto simp: buf_read_def)

lemma buf_read_Inl [buf_simps]:
  "buf_read b off n = Inl e \<longleftrightarrow> bsize b < off + n \<and> e = OutOfBounds"
  by (auto simp: buf_read_def)

lemma buf_write_Inr [buf_simps]:
  "buf_write b off xs = Inr b' \<longleftrightarrow>
     off + length xs \<le> bsize b \<and> b' = b\<lparr>bdata := bytes_upd (bdata b) off xs\<rparr>"
  by (auto simp: buf_write_def)

lemma buf_write_Inl [buf_simps]:
  "buf_write b off xs = Inl e \<longleftrightarrow> bsize b < off + length xs \<and> e = OutOfBounds"
  by (auto simp: buf_write_def)

lemma bytes_upd_in [simp]:
  "i < length xs \<Longrightarrow> bytes_upd d off xs (off + i) = xs ! i"
  by (simp add: bytes_upd_def)

lemma bytes_upd_out [simp]:
  "a < off \<or> off + length xs \<le> a \<Longrightarrow> bytes_upd d off xs a = d a"
  by (auto simp: bytes_upd_def)

lemma buf_write_size: "buf_write b off xs = Inr b' \<Longrightarrow> bsize b' = bsize b"
  by (auto simp: buf_simps)

lemma buf_write_ok:
  "off + length xs \<le> bsize b \<Longrightarrow> \<exists>b'. buf_write b off xs = Inr b' \<and> bsize b' = bsize b"
  by (simp add: buf_write_def)

lemma buf_write_frame:
  "buf_write b off xs = Inr b' \<Longrightarrow> a < off \<or> off + length xs \<le> a \<Longrightarrow> bdata b' a = bdata b a"
  by (auto simp: buf_simps)

lemma buf_read_write_same:
  "buf_write b off xs = Inr b' \<Longrightarrow> buf_read b' off (length xs) = Inr xs"
  by (auto simp: buf_simps intro: nth_equalityI)

section \<open>Little-endian values\<close>

fun le_val :: "u8 list \<Rightarrow> 'a::len word" where
  "le_val [] = 0"
| "le_val (b # bs) = ucast b OR push_bit 8 (le_val bs)"

fun le_bytes :: "nat \<Rightarrow> 'a::len word \<Rightarrow> u8 list" where
  "le_bytes 0 w = []"
| "le_bytes (Suc n) w = ucast w # le_bytes n (drop_bit 8 w)"

lemma length_le_bytes [simp]: "length (le_bytes n w) = n"
  by (induction n arbitrary: w) auto

lemma le_val_le_bytes: "le_val (le_bytes n w) = take_bit (8 * n) w"
proof (induction n arbitrary: w)
  case 0
  then show ?case by simp
next
  case (Suc n)
  have "ucast (ucast w :: u8) OR push_bit 8 (take_bit (8 * n) (drop_bit 8 w)) =
        take_bit (8 + 8 * n) w"
    by (rule bit_word_eqI) (auto simp: bit_simps)
  with Suc show ?case by simp
qed

lemma le_val_le_bytes_full:
  fixes w :: "'a::len word"
  shows "LENGTH('a) \<le> 8 * n \<Longrightarrow> le_val (le_bytes n w) = w"
  by (simp add: le_val_le_bytes take_bit_word_eq_self)

definition ld16 :: "cbuf \<Rightarrow> nat \<Rightarrow> u16 res" where
  "ld16 b off = rbind (buf_read b off 2) (\<lambda>bs. Inr (le_val bs))"

definition ld32 :: "cbuf \<Rightarrow> nat \<Rightarrow> u32 res" where
  "ld32 b off = rbind (buf_read b off 4) (\<lambda>bs. Inr (le_val bs))"

definition ld64 :: "cbuf \<Rightarrow> nat \<Rightarrow> u64 res" where
  "ld64 b off = rbind (buf_read b off 8) (\<lambda>bs. Inr (le_val bs))"

definition st16 :: "cbuf \<Rightarrow> nat \<Rightarrow> u16 \<Rightarrow> cbuf res" where
  "st16 b off v = buf_write b off (le_bytes 2 v)"

definition st32 :: "cbuf \<Rightarrow> nat \<Rightarrow> u32 \<Rightarrow> cbuf res" where
  "st32 b off v = buf_write b off (le_bytes 4 v)"

definition st64 :: "cbuf \<Rightarrow> nat \<Rightarrow> u64 \<Rightarrow> cbuf res" where
  "st64 b off v = buf_write b off (le_bytes 8 v)"

lemma ld_st16: "st16 b off v = Inr b' \<Longrightarrow> ld16 b' off = Inr v"
  using buf_read_write_same [of b off "le_bytes 2 v" b']
  by (simp add: st16_def ld16_def le_val_le_bytes_full)

lemma ld_st32: "st32 b off v = Inr b' \<Longrightarrow> ld32 b' off = Inr v"
  using buf_read_write_same [of b off "le_bytes 4 v" b']
  by (simp add: st32_def ld32_def le_val_le_bytes_full)

lemma ld_st64: "st64 b off v = Inr b' \<Longrightarrow> ld64 b' off = Inr v"
  using buf_read_write_same [of b off "le_bytes 8 v" b']
  by (simp add: st64_def ld64_def le_val_le_bytes_full)

lemma ld16_Inr_iff: "(\<exists>v. ld16 b off = Inr v) \<longleftrightarrow> off + 2 \<le> bsize b"
  by (auto simp: ld16_def buf_simps rbind_eq_Inr)

lemma buf_read_cong:
  assumes "bsize b' = bsize b" "\<And>a. off \<le> a \<Longrightarrow> a < off + n \<Longrightarrow> bdata b' a = bdata b a"
  shows "buf_read b' off n = buf_read b off n"
  using assms by (simp add: buf_read_def)

lemma ld16_cong:
  "bsize b' = bsize b \<Longrightarrow> (\<And>a. off \<le> a \<Longrightarrow> a < off + 2 \<Longrightarrow> bdata b' a = bdata b a) \<Longrightarrow>
     ld16 b' off = ld16 b off"
  unfolding ld16_def by (subst buf_read_cong [of b' b]) auto

lemma ld32_cong:
  "bsize b' = bsize b \<Longrightarrow> (\<And>a. off \<le> a \<Longrightarrow> a < off + 4 \<Longrightarrow> bdata b' a = bdata b a) \<Longrightarrow>
     ld32 b' off = ld32 b off"
  unfolding ld32_def by (subst buf_read_cong [of b' b]) auto

lemma st16_Inr: "off + 2 \<le> bsize b \<Longrightarrow> \<exists>b'. st16 b off v = Inr b'"
  by (simp add: st16_def buf_write_def)

lemma st32_Inr: "off + 4 \<le> bsize b \<Longrightarrow> \<exists>b'. st32 b off v = Inr b'"
  by (simp add: st32_def buf_write_def)

lemma st16_frame:
  "st16 b off v = Inr b' \<Longrightarrow>
     bsize b' = bsize b \<and> (\<forall>a. a < off \<or> off + 2 \<le> a \<longrightarrow> bdata b' a = bdata b a)"
  by (auto simp: st16_def buf_simps)

lemma st32_frame:
  "st32 b off v = Inr b' \<Longrightarrow>
     bsize b' = bsize b \<and> (\<forall>a. a < off \<or> off + 4 \<le> a \<longrightarrow> bdata b' a = bdata b a)"
  by (auto simp: st32_def buf_simps)

section \<open>Word values as numbers\<close>

lemma unat_lt32: "unat (w :: u32) < 2 ^ 32"
  using unsigned_less [of w] by simp

lemma unat_lt64: "unat (w :: u64) < 2 ^ 64"
  using unsigned_less [of w] by simp

lemma unat_ucast32: "unat (ucast (w :: u32) :: u64) = unat w"
  using unat_lt32 [of w] by (simp add: unsigned_ucast_eq take_bit_nat_eq_self)

lemma unat_sub_le: "y \<le> x \<Longrightarrow> unat (x - y) = unat x - unat y" for x y :: "'a::len word"
  by (simp add: unat_sub word_le_nat_alt)

section \<open>Tests of a single bit\<close>

lemma and_pow_eq_0: "(w AND 2 ^ n = 0) \<longleftrightarrow> \<not> bit w n" for w :: "'a::len word"
  by (rule and_exp_eq_0_iff_not_bit)

lemma and_bit_tests [bit_tests]:
  fixes w :: "'a::len word"
  shows "(w AND 1 = 0) \<longleftrightarrow> \<not> bit w 0" "(w AND 2 = 0) \<longleftrightarrow> \<not> bit w 1"
    "(w AND 4 = 0) \<longleftrightarrow> \<not> bit w 2" "(w AND 8 = 0) \<longleftrightarrow> \<not> bit w 3"
    "(w AND 16 = 0) \<longleftrightarrow> \<not> bit w 4" "(w AND 32 = 0) \<longleftrightarrow> \<not> bit w 5"
    "(w AND 64 = 0) \<longleftrightarrow> \<not> bit w 6" "(w AND 128 = 0) \<longleftrightarrow> \<not> bit w 7"
  using and_pow_eq_0 [of w 0] and_pow_eq_0 [of w 1] and_pow_eq_0 [of w 2] and_pow_eq_0 [of w 3]
    and_pow_eq_0 [of w 4] and_pow_eq_0 [of w 5] and_pow_eq_0 [of w 6] and_pow_eq_0 [of w 7]
  by simp_all

section \<open>Interrupt lines\<close>

text \<open>
  The monitors drive level-triggered interrupt lines with a sequence of calls
  \<open>(gsi, level)\<close>.  The level of a line is that of its last call, low at the start; a call is
  a real edge when it changes the level.
\<close>

type_synonym irq_call = "u32 \<times> bool"

fun line_after :: "u32 \<Rightarrow> bool \<Rightarrow> irq_call list \<Rightarrow> bool" where
  "line_after g cur [] = cur"
| "line_after g cur ((g', l) # cs) = line_after g (if g' = g then l else cur) cs"

definition line_level :: "u32 \<Rightarrow> irq_call list \<Rightarrow> bool" where
  "line_level g cs = line_after g False cs"

fun real_edges :: "u32 \<Rightarrow> bool \<Rightarrow> irq_call list \<Rightarrow> bool" where
  "real_edges g cur [] = True"
| "real_edges g cur ((g', l) # cs) =
     (if g' = g then l \<noteq> cur \<and> real_edges g l cs else real_edges g cur cs)"

lemma line_after_append:
  "line_after g cur (cs @ ds) = line_after g (line_after g cur cs) ds"
  by (induction cs arbitrary: cur) auto

lemma line_level_snoc [simp]:
  "line_level g (cs @ [(g', l)]) = (if g' = g then l else line_level g cs)"
  by (simp add: line_level_def line_after_append)

lemma line_level_Nil [simp]: "line_level g [] = False"
  by (simp add: line_level_def)

lemma real_edges_append:
  "real_edges g cur (cs @ ds) \<longleftrightarrow>
     real_edges g cur cs \<and> real_edges g (line_after g cur cs) ds"
  by (induction cs arbitrary: cur) auto

lemma real_edges_snoc [simp]:
  "real_edges g False (cs @ [(g, l)]) \<longleftrightarrow> real_edges g False cs \<and> l \<noteq> line_level g cs"
  by (simp add: real_edges_append line_level_def)

section \<open>Ring buffers\<close>

text \<open>
  Both byte rings of the monitor keep free-running 32-bit counters and reduce them modulo a
  power of two when they index.  Slots at distance below the ring size are distinct, also
  when the counters wrap.
\<close>

lemma word_take_bit_add:
  fixes a b :: "'a::len word"
  shows "take_bit k (take_bit k a + take_bit k b) = take_bit k (a + b)"
  by (transfer fixing: k) (metis (no_types) take_bit_add take_bit_take_bit min.commute)

lemma take_bit_plus_left_cancel:
  fixes t x y :: "'a::len word"
  shows "take_bit k (t + x) = take_bit k (t + y) \<longleftrightarrow> take_bit k x = take_bit k y"
proof
  assume eq: "take_bit k (t + x) = take_bit k (t + y)"
  have "take_bit k (- t + (t + x)) = take_bit k (take_bit k (- t) + take_bit k (t + x))"
    by (simp only: word_take_bit_add)
  also have "\<dots> = take_bit k (- t + (t + y))"
    unfolding eq by (simp only: word_take_bit_add)
  finally show "take_bit k x = take_bit k y" by simp
next
  assume eq: "take_bit k x = take_bit k y"
  have "take_bit k (t + x) = take_bit k (take_bit k t + take_bit k x)"
    by (simp add: word_take_bit_add)
  also have "\<dots> = take_bit k (t + y)"
    unfolding eq by (simp add: word_take_bit_add)
  finally show "take_bit k (t + x) = take_bit k (t + y)" .
qed

lemma ring_slots_distinct:
  fixes t :: u32
  assumes "i < 2 ^ k" "j < 2 ^ k" "k \<le> 32"
    and "take_bit k (t + of_nat i) = take_bit k (t + of_nat j)"
  shows "i = j"
proof -
  have le: "(2::nat) ^ k \<le> 2 ^ 32" using assms(3) by (intro power_increasing) auto
  have tb: "take_bit k (of_nat n :: u32) = of_nat n" if "n < 2 ^ k" for n
    using that by (simp add: take_bit_of_nat take_bit_nat_eq_self)
  have "(of_nat i :: u32) = of_nat j"
    using assms(4) tb [OF assms(1)] tb [OF assms(2)] by (simp add: take_bit_plus_left_cancel)
  then have "unat (of_nat i :: u32) = unat (of_nat j :: u32)" by simp
  then show ?thesis using assms(1,2) le by (simp add: unat_of_nat)
qed

text \<open>
  The contract of a bounded byte queue, as its clients use it: \<open>push\<close> appends while there is
  room, \<open>pop\<close> takes the oldest element.  What is proved in it holds for the serial receive
  ring and for the console echo ring.
\<close>

fun pops :: "('q \<Rightarrow> 'a \<times> 'q) \<Rightarrow> nat \<Rightarrow> 'q \<Rightarrow> 'a list \<times> 'q" where
  "pops pop 0 q = ([], q)"
| "pops pop (Suc n) q =
     (let (x, q1) = pop q; (xs, q2) = pops pop n q1 in (x # xs, q2))"

locale fifo =
  fixes push :: "'a \<Rightarrow> 'q \<Rightarrow> 'q"
    and pop :: "'q \<Rightarrow> 'a \<times> 'q"
    and contents :: "'q \<Rightarrow> 'a list"
    and invar :: "'q \<Rightarrow> bool"
    and cap :: nat
  assumes push_invar: "invar q \<Longrightarrow> invar (push x q)"
    and push_contents:
      "invar q \<Longrightarrow> length (contents q) < cap \<Longrightarrow> contents (push x q) = contents q @ [x]"
    and pop_invar: "invar q \<Longrightarrow> invar (snd (pop q))"
    and pop_contents:
      "invar q \<Longrightarrow> contents q = x # xs \<Longrightarrow> fst (pop q) = x \<and> contents (snd (pop q)) = xs"
begin

lemma pushes_invar: "invar q \<Longrightarrow> invar (fold push xs q)"
  by (induction xs arbitrary: q) (auto simp: push_invar)

lemma pushes_contents:
  "invar q \<Longrightarrow> length (contents q) + length xs \<le> cap \<Longrightarrow>
     contents (fold push xs q) = contents q @ xs"
proof (induction xs arbitrary: q)
  case Nil
  then show ?case by simp
next
  case (Cons x xs)
  then have "contents (push x q) = contents q @ [x]"
    by (intro push_contents) auto
  with Cons push_invar [of q x] show ?case by simp
qed

lemma pops_contents:
  "invar q \<Longrightarrow> contents q = xs @ ys \<Longrightarrow>
     fst (pops pop (length xs) q) = xs \<and> contents (snd (pops pop (length xs) q)) = ys"
proof (induction xs arbitrary: q)
  case Nil
  then show ?case by simp
next
  case (Cons x xs)
  then have p: "fst (pop q) = x" "contents (snd (pop q)) = xs @ ys"
    using pop_contents [of q x "xs @ ys"] by auto
  have "fst (pops pop (length xs) (snd (pop q))) = xs \<and>
        contents (snd (pops pop (length xs) (snd (pop q)))) = ys"
    using Cons.IH [OF pop_invar [OF Cons.prems(1)] p(2)] .
  with p show ?case by (auto simp: split_beta Let_def)
qed

lemma in_order:
  assumes "invar q" "contents q = []" "length xs \<le> cap"
  shows "fst (pops pop (length xs) (fold push xs q)) = xs"
proof -
  have "contents (fold push xs q) = xs @ []"
    using pushes_contents [of q xs] assms by simp
  then show ?thesis using pops_contents [OF pushes_invar [OF assms(1)]] by blast
qed

end

section \<open>Demand-filled maps\<close>

text \<open>
  The contract of a table that is filled on faults: handling a fault at \<open>a\<close> either maps the
  keys alike to \<open>a\<close> to their fixed values, or changes no entry.  Whatever the sequence of faults,
  the table then never disagrees with those values.
\<close>

locale demand_map =
  fixes lookup :: "'s \<Rightarrow> 'a \<Rightarrow> 'v option"
    and handle :: "'a \<Rightarrow> 's \<Rightarrow> bool \<times> 's"
    and alike :: "'a \<Rightarrow> 'a \<Rightarrow> bool"
    and backing :: "'a \<Rightarrow> 'v option"
    and ok :: "'s \<Rightarrow> bool"
  assumes handle_ok: "ok s \<Longrightarrow> ok (snd (handle a s))"
    and handle_hit: "ok s \<Longrightarrow> fst (handle a s) \<Longrightarrow>
      backing a \<noteq> None \<and> lookup (snd (handle a s)) b = (if alike b a then backing b else lookup s b)"
    and handle_miss: "ok s \<Longrightarrow> \<not> fst (handle a s) \<Longrightarrow> lookup (snd (handle a s)) b = lookup s b"
begin

definition faults :: "'a list \<Rightarrow> 's \<Rightarrow> 's" where
  "faults as s = fold (\<lambda>a s. snd (handle a s)) as s"

lemma faults_ok: "ok s \<Longrightarrow> ok (faults as s)"
  unfolding faults_def by (induction as arbitrary: s) (auto intro: handle_ok)

lemma handle_lookup:
  "ok s \<Longrightarrow> lookup (snd (handle a s)) b =
     (if fst (handle a s) \<and> alike b a then backing b else lookup s b)"
  using handle_hit [of s a b] handle_miss [of s a b] by (cases "fst (handle a s)") auto

text \<open>No sequence of faults maps anything but the backing.\<close>

lemma faults_agree:
  assumes "ok s" "\<And>b v. lookup s b = Some v \<Longrightarrow> backing b = Some v" "lookup (faults as s) b = Some v"
  shows "backing b = Some v"
  using assms
proof (induction as arbitrary: s)
  case Nil
  then show ?case by (simp add: faults_def)
next
  case (Cons a as)
  have "backing b = Some v" if "lookup (snd (handle a s)) b = Some v" for b v
    using that Cons.prems(1,2) by (auto simp: handle_lookup split: if_splits)
  then show ?case
    using Cons.IH [of "snd (handle a s)"] Cons.prems handle_ok by (auto simp: faults_def)
qed

text \<open>What was mapped stays mapped, to the same value if it agreed.\<close>

lemma faults_keep:
  assumes "ok s" "lookup s b = Some v" "backing b = Some v"
  shows "lookup (faults as s) b = Some v"
  using assms
proof (induction as arbitrary: s)
  case Nil
  then show ?case by (simp add: faults_def)
next
  case (Cons a as)
  have "lookup (snd (handle a s)) b = Some v" using Cons.prems by (auto simp: handle_lookup)
  then show ?case using Cons.IH [of "snd (handle a s)"] Cons.prems handle_ok by (auto simp: faults_def)
qed

end

section \<open>Buffers written in pieces\<close>

lemma bytes_upd_adjacent:
  "bytes_upd (bytes_upd d off xs) (off + length xs) ys = bytes_upd d off (xs @ ys)"
  by (auto simp: bytes_upd_def nth_append fun_eq_iff)

lemma bytes_upd_inside:
  assumes "k + length ys \<le> length xs"
  shows "bytes_upd (bytes_upd d off xs) (off + k) ys = bytes_upd d off (take k xs @ ys @ drop (k + length ys) xs)"
proof
  fix a
  show "bytes_upd (bytes_upd d off xs) (off + k) ys a = bytes_upd d off (take k xs @ ys @ drop (k + length ys) xs) a"
    using assms by (auto simp: bytes_upd_def nth_append)
qed

lemma buf_write_adjacent:
  "rbind (buf_write b off xs) (\<lambda>b1. buf_write b1 (off + length xs) ys) = buf_write b off (xs @ ys)"
  by (auto simp: buf_write_def bytes_upd_adjacent)

lemma buf_read_frame:
  "buf_write b off xs = Inr b' \<Longrightarrow> a + n \<le> off \<or> off + length xs \<le> a \<Longrightarrow> buf_read b' a n = buf_read b a n"
  by (rule buf_read_cong) (auto simp: buf_simps)

end
