(* ===== verification/Serial.thy ===== *)
theory Serial
  imports VmmPrelude
begin

text \<open>
  The 16550A serial port of \<open>minivmm.c\<close> (register file, receive ring, interrupt line),
  the console output with its readiness marker, the reset ports and the catch-all port read.
  Each locked section of the C code is one operation here: the mutex makes it atomic.
\<close>

section \<open>Registers\<close>

abbreviation (input) COM1_BASE :: u16 where "COM1_BASE \<equiv> 0x3f8"
abbreviation (input) SERIAL_IRQ_GSI :: u32 where "SERIAL_IRQ_GSI \<equiv> 4"
abbreviation (input) SER_RX_SZ :: u32 where "SER_RX_SZ \<equiv> 1024"

abbreviation (input) UART_RX :: u8 where "UART_RX \<equiv> 0"
abbreviation (input) UART_IER :: u8 where "UART_IER \<equiv> 1"
abbreviation (input) UART_IIR :: u8 where "UART_IIR \<equiv> 2"
abbreviation (input) UART_FCR :: u8 where "UART_FCR \<equiv> 2"
abbreviation (input) UART_LCR :: u8 where "UART_LCR \<equiv> 3"
abbreviation (input) UART_MCR :: u8 where "UART_MCR \<equiv> 4"
abbreviation (input) UART_LSR :: u8 where "UART_LSR \<equiv> 5"
abbreviation (input) UART_MSR :: u8 where "UART_MSR \<equiv> 6"
abbreviation (input) UART_SCR :: u8 where "UART_SCR \<equiv> 7"

abbreviation (input) UART_IER_RDI :: u8 where "UART_IER_RDI \<equiv> 0x01"
abbreviation (input) UART_IER_THRI :: u8 where "UART_IER_THRI \<equiv> 0x02"
abbreviation (input) UART_IER_RLSI :: u8 where "UART_IER_RLSI \<equiv> 0x04"
abbreviation (input) UART_IER_MSI :: u8 where "UART_IER_MSI \<equiv> 0x08"
abbreviation (input) UART_IER_ALL_INTR :: u8 where "UART_IER_ALL_INTR \<equiv> 0x0f"

abbreviation (input) UART_IIR_MSI :: u8 where "UART_IIR_MSI \<equiv> 0x00"
abbreviation (input) UART_IIR_THRI :: u8 where "UART_IIR_THRI \<equiv> 0x02"
abbreviation (input) UART_IIR_RDI :: u8 where "UART_IIR_RDI \<equiv> 0x04"
abbreviation (input) UART_IIR_RLSI :: u8 where "UART_IIR_RLSI \<equiv> 0x06"
abbreviation (input) UART_IIR_NO_INT :: u8 where "UART_IIR_NO_INT \<equiv> 0x01"
abbreviation (input) UART_IIR_ID :: u8 where "UART_IIR_ID \<equiv> 0x0e"
abbreviation (input) UART_IIR_FIFO_ENABLED :: u8 where "UART_IIR_FIFO_ENABLED \<equiv> 0xc0"

abbreviation (input) UART_FCR_ENABLE_FIFO :: u8 where "UART_FCR_ENABLE_FIFO \<equiv> 0x01"
abbreviation (input) UART_FCR_CLEAR_RCVR :: u8 where "UART_FCR_CLEAR_RCVR \<equiv> 0x02"
abbreviation (input) UART_FCR_CLEAR_XMIT :: u8 where "UART_FCR_CLEAR_XMIT \<equiv> 0x04"
abbreviation (input) UART_FCR_DMA_SELECT :: u8 where "UART_FCR_DMA_SELECT \<equiv> 0x08"
abbreviation (input) UART_FCR_TRIGGER_MASK :: u8 where "UART_FCR_TRIGGER_MASK \<equiv> 0xc0"
abbreviation (input) UART_LCR_DLAB :: u8 where "UART_LCR_DLAB \<equiv> 0x80"

abbreviation (input) UART_MCR_DTR :: u8 where "UART_MCR_DTR \<equiv> 0x01"
abbreviation (input) UART_MCR_RTS :: u8 where "UART_MCR_RTS \<equiv> 0x02"
abbreviation (input) UART_MCR_OUT1 :: u8 where "UART_MCR_OUT1 \<equiv> 0x04"
abbreviation (input) UART_MCR_OUT2 :: u8 where "UART_MCR_OUT2 \<equiv> 0x08"
abbreviation (input) UART_MCR_LOOP :: u8 where "UART_MCR_LOOP \<equiv> 0x10"
abbreviation (input) UART_MSR_DCD :: u8 where "UART_MSR_DCD \<equiv> 0x80"
abbreviation (input) UART_MSR_DSR :: u8 where "UART_MSR_DSR \<equiv> 0x20"
abbreviation (input) UART_MSR_CTS :: u8 where "UART_MSR_CTS \<equiv> 0x10"
abbreviation (input) UART_MSR_ANY_DELTA :: u8 where "UART_MSR_ANY_DELTA \<equiv> 0x0f"

abbreviation (input) UART_LSR_DR :: u8 where "UART_LSR_DR \<equiv> 0x01"
abbreviation (input) UART_LSR_OE :: u8 where "UART_LSR_OE \<equiv> 0x02"
abbreviation (input) UART_LSR_PE :: u8 where "UART_LSR_PE \<equiv> 0x04"
abbreviation (input) UART_LSR_FE :: u8 where "UART_LSR_FE \<equiv> 0x08"
abbreviation (input) UART_LSR_BI :: u8 where "UART_LSR_BI \<equiv> 0x10"
abbreviation (input) UART_LSR_THRE :: u8 where "UART_LSR_THRE \<equiv> 0x20"
abbreviation (input) UART_LSR_TEMT :: u8 where "UART_LSR_TEMT \<equiv> 0x40"

section \<open>State\<close>

record serial_state =
  ier :: u8
  fcr :: u8
  lcr :: u8
  mcr :: u8
  scr :: u8
  lsr :: u8
  msr :: u8
  iir :: u8
  thr_ipending :: bool
  divider :: u16
  rx_ring :: "u32 \<Rightarrow> u8"
  rx_head :: u32
  rx_tail :: u32
  irq_level :: bool

text \<open>
  What the port does to the rest of the monitor: bytes written to standard output, the last
  thirteen of them (\<open>hist\<close>, for the readiness marker), the \<open>running\<close> flag of the
  main loop, whether the first output byte was timed, and the \<open>KVM_IRQ_LINE\<close> calls.
\<close>

record serial_vm = serial_state +
  t_first_byte :: bool
  hist :: "u8 list"
  tty :: "u8 list"
  running :: bool
  irq_calls :: "irq_call list"

definition serial_init :: serial_vm where
  "serial_init = \<lparr>ier = 0, fcr = 0, lcr = 0, mcr = 0, scr = 0,
     lsr = UART_LSR_THRE OR UART_LSR_TEMT,
     msr = UART_MSR_DCD OR UART_MSR_DSR OR UART_MSR_CTS,
     iir = UART_IIR_NO_INT, thr_ipending = False, divider = 0,
     rx_ring = (\<lambda>_. 0), rx_head = 0, rx_tail = 0, irq_level = False,
     t_first_byte = False, hist = replicate 13 0, tty = [], running = True, irq_calls = []\<rparr>"

section \<open>Console output\<close>

text \<open>The marker is the string \<open>MINIVMM_READY\<close>, thirteen ASCII codes.\<close>

definition ready_marker :: "u8 list" where
  "ready_marker = [0x4d, 0x49, 0x4e, 0x49, 0x56, 0x4d, 0x4d, 0x5f, 0x52, 0x45, 0x41, 0x44, 0x59]"

definition console_output :: "u8 \<Rightarrow> serial_vm \<Rightarrow> serial_vm" where
  "console_output ch s =
     (let s1 = s\<lparr>t_first_byte := True, tty := tty s @ [ch], hist := tl (hist s) @ [ch]\<rparr>
      in if hist s1 = ready_marker then s1\<lparr>running := False\<rparr> else s1)"

section \<open>The interrupt line\<close>

definition kvm_irq_line :: "u32 \<Rightarrow> bool \<Rightarrow> serial_vm \<Rightarrow> serial_vm" where
  "kvm_irq_line gsi level s = s\<lparr>irq_calls := irq_calls s @ [(gsi, level)]\<rparr>"

definition rx_count_locked :: "('a) serial_state_scheme \<Rightarrow> u32" where
  "rx_count_locked s = rx_head s - rx_tail s"

definition serial_irq_source :: "('a) serial_state_scheme \<Rightarrow> u8" where
  "serial_irq_source s =
     (let err = lsr s AND (UART_LSR_OE OR UART_LSR_PE OR UART_LSR_FE OR UART_LSR_BI)
      in if ier s AND UART_IER_RLSI \<noteq> 0 \<and> err \<noteq> 0 then UART_IIR_RLSI
         else if ier s AND UART_IER_RDI \<noteq> 0 \<and> lsr s AND UART_LSR_DR \<noteq> 0 then UART_IIR_RDI
         else if ier s AND UART_IER_THRI \<noteq> 0 \<and> thr_ipending s then UART_IIR_THRI
         else if ier s AND UART_IER_MSI \<noteq> 0 \<and> msr s AND UART_MSR_ANY_DELTA \<noteq> 0
           then UART_IIR_MSI
         else UART_IIR_NO_INT)"

definition serial_update_irq_locked :: "serial_vm \<Rightarrow> serial_vm" where
  "serial_update_irq_locked s =
     (let tmp = serial_irq_source s;
          s1 = s\<lparr>iir := tmp OR (iir s AND UART_IIR_FIFO_ENABLED)\<rparr>;
          level = (tmp \<noteq> UART_IIR_NO_INT)
      in if level = irq_level s1 then s1
         else kvm_irq_line SERIAL_IRQ_GSI level (s1\<lparr>irq_level := level\<rparr>))"

section \<open>Receive, write, read\<close>

definition serial_recv_locked :: "u8 \<Rightarrow> serial_vm \<Rightarrow> serial_vm" where
  "serial_recv_locked c s =
     serial_update_irq_locked
       (if rx_count_locked s \<ge> SER_RX_SZ - 1 then s\<lparr>lsr := lsr s OR UART_LSR_OE\<rparr>
        else s\<lparr>rx_ring := (rx_ring s)(rx_head s mod SER_RX_SZ := c),
               rx_head := rx_head s + 1,
               lsr := lsr s OR UART_LSR_DR\<rparr>)"

definition write_thr :: "u8 \<Rightarrow> serial_vm \<Rightarrow> serial_vm" where
  "write_thr val s =
     (let s1 = s\<lparr>thr_ipending := False,
                  lsr := lsr s AND NOT (UART_LSR_THRE OR UART_LSR_TEMT)\<rparr>;
          s2 = (if mcr s1 AND UART_MCR_LOOP \<noteq> 0 then serial_recv_locked val s1
                else console_output val s1)
      in serial_update_irq_locked
           (s2\<lparr>lsr := lsr s2 OR (UART_LSR_THRE OR UART_LSR_TEMT), thr_ipending := True\<rparr>))"

definition write_ier :: "u8 \<Rightarrow> serial_vm \<Rightarrow> serial_vm" where
  "write_ier val s =
     (let s1 = s\<lparr>ier := val AND UART_IER_ALL_INTR\<rparr>;
          s2 = (if ier s1 AND UART_IER_THRI \<noteq> 0 \<and> lsr s1 AND UART_LSR_THRE \<noteq> 0
                then s1\<lparr>thr_ipending := True\<rparr> else s1)
      in serial_update_irq_locked s2)"

definition write_fcr :: "u8 \<Rightarrow> serial_vm \<Rightarrow> serial_vm" where
  "write_fcr val0 s =
     (let val = (if (val0 XOR fcr s) AND UART_FCR_ENABLE_FIFO \<noteq> 0
                 then val0 OR (UART_FCR_CLEAR_RCVR OR UART_FCR_CLEAR_XMIT) else val0);
          s1 = (if val AND UART_FCR_CLEAR_RCVR \<noteq> 0
                then s\<lparr>rx_head := 0, rx_tail := 0,
                       lsr := lsr s AND NOT (UART_LSR_DR OR UART_LSR_BI)\<rparr>
                else s);
          s2 = (if val AND UART_FCR_CLEAR_XMIT \<noteq> 0
                then s1\<lparr>lsr := lsr s1 OR UART_LSR_THRE, thr_ipending := True\<rparr>
                else s1);
          s3 = s2\<lparr>fcr := val AND (UART_FCR_ENABLE_FIFO OR UART_FCR_DMA_SELECT
                                   OR UART_FCR_TRIGGER_MASK)\<rparr>;
          s4 = (if fcr s3 AND UART_FCR_ENABLE_FIFO \<noteq> 0
                then s3\<lparr>iir := iir s3 OR UART_IIR_FIFO_ENABLED\<rparr>
                else s3\<lparr>iir := iir s3 AND NOT UART_IIR_FIFO_ENABLED\<rparr>)
      in serial_update_irq_locked s4)"

definition serial_write_reg :: "u8 \<Rightarrow> u8 \<Rightarrow> serial_vm \<Rightarrow> serial_vm" where
  "serial_write_reg reg val s =
     (if reg = UART_RX then
        (if lcr s AND UART_LCR_DLAB \<noteq> 0
         then s\<lparr>divider := (divider s AND 0xff00) OR ucast val\<rparr> else write_thr val s)
      else if reg = UART_IER then
        (if lcr s AND UART_LCR_DLAB \<noteq> 0
         then s\<lparr>divider := (divider s AND 0x00ff) OR push_bit 8 (ucast val)\<rparr>
         else write_ier val s)
      else if reg = UART_FCR then write_fcr val s
      else if reg = UART_LCR then s\<lparr>lcr := val\<rparr>
      else if reg = UART_MCR then s\<lparr>mcr := val\<rparr>
      else if reg = UART_SCR then s\<lparr>scr := val\<rparr>
      else s)"

definition read_rbr :: "serial_vm \<Rightarrow> u8 \<times> serial_vm" where
  "read_rbr s =
     (let (val, s1) =
            (if rx_count_locked s \<noteq> 0
             then (rx_ring s (rx_tail s mod SER_RX_SZ), s\<lparr>rx_tail := rx_tail s + 1\<rparr>)
             else (0, s));
          s2 = (if rx_count_locked s1 = 0
                then s1\<lparr>lsr := lsr s1 AND NOT (UART_LSR_DR OR UART_LSR_BI)\<rparr> else s1)
      in (val, serial_update_irq_locked s2))"

definition read_iir :: "serial_vm \<Rightarrow> u8 \<times> serial_vm" where
  "read_iir s =
     (if iir s AND UART_IIR_ID = UART_IIR_THRI
      then (iir s, serial_update_irq_locked (s\<lparr>thr_ipending := False\<rparr>))
      else (iir s, s))"

definition read_lsr :: "serial_vm \<Rightarrow> u8 \<times> serial_vm" where
  "read_lsr s =
     (if lsr s AND (UART_LSR_BI OR UART_LSR_OE) \<noteq> 0
      then (lsr s, serial_update_irq_locked
                     (s\<lparr>lsr := lsr s AND NOT (UART_LSR_BI OR UART_LSR_OE)\<rparr>))
      else (lsr s, s))"

definition read_msr :: "serial_vm \<Rightarrow> u8 \<times> serial_vm" where
  "read_msr s =
     (if mcr s AND UART_MCR_LOOP \<noteq> 0
      then (push_bit 4 (mcr s AND (UART_MCR_OUT1 OR UART_MCR_OUT2)) OR
            push_bit 3 (mcr s AND UART_MCR_RTS) OR push_bit 5 (mcr s AND UART_MCR_DTR), s)
      else if msr s AND UART_MSR_ANY_DELTA \<noteq> 0
      then (msr s, serial_update_irq_locked (s\<lparr>msr := msr s AND 0xf0\<rparr>))
      else (msr s, s))"

definition serial_read_reg :: "u8 \<Rightarrow> serial_vm \<Rightarrow> u8 \<times> serial_vm" where
  "serial_read_reg reg s =
     (if reg = UART_RX then
        (if lcr s AND UART_LCR_DLAB \<noteq> 0 then (ucast (divider s AND 0xff), s) else read_rbr s)
      else if reg = UART_IER then
        (if lcr s AND UART_LCR_DLAB \<noteq> 0 then ucast (drop_bit 8 (divider s)) else ier s, s)
      else if reg = UART_IIR then read_iir s
      else if reg = UART_LCR then (lcr s, s)
      else if reg = UART_MCR then (mcr s, s)
      else if reg = UART_LSR then read_lsr s
      else if reg = UART_MSR then read_msr s
      else (scr s, s))"

text \<open>
  \<open>serial_io\<close> claims COM1 and answers for the absent COM2, COM3 and COM4; the result says
  whether the port was handled, with the value read (or the value passed in, on a write).
\<close>

definition serial_io :: "u16 \<Rightarrow> bool \<Rightarrow> u8 \<Rightarrow> serial_vm \<Rightarrow> bool \<times> u8 \<times> serial_vm" where
  "serial_io port is_write val s =
     (if port \<ge> COM1_BASE \<and> port < COM1_BASE + 8 then
        (let reg = ucast (port - COM1_BASE)
         in if is_write then (True, val, serial_write_reg reg val s)
            else (let (v, s1) = serial_read_reg reg s in (True, v, s1)))
      else if (port \<ge> 0x2e8 \<and> port < 0x2f0) \<or> (port \<ge> 0x2f8 \<and> port < 0x300) \<or>
              (port \<ge> 0x3e8 \<and> port < 0x3f0) then
        (True, if is_write then val else 0xff, s)
      else (False, val, s))"

definition power_io :: "u16 \<Rightarrow> bool \<Rightarrow> u8 \<Rightarrow> serial_vm \<Rightarrow> bool \<times> u8 \<times> serial_vm" where
  "power_io port is_write val s =
     (if port \<noteq> 0x64 \<and> port \<noteq> 0xcf9 then (False, val, s)
      else if \<not> is_write then (True, 0x00, s)
      else if (port = 0x64 \<and> val = 0xfe) \<or> (port = 0xcf9 \<and> val AND 0x02 \<noteq> 0)
      then (True, val, s\<lparr>running := False\<rparr>)
      else (True, val, s))"

definition generic_io_in :: "u16 \<Rightarrow> nat \<Rightarrow> u32" where
  "generic_io_in port sz = (if sz = 4 then 0xffffffff else if sz = 2 then 0xffff else 0xff)"

text \<open>
  The input thread: one list per successful \<open>read\<close> of standard input; an empty one is end of
  file or an error, where the thread returns.
\<close>

fun input_thread :: "u8 list list \<Rightarrow> serial_vm \<Rightarrow> serial_vm" where
  "input_thread [] s = s"
| "input_thread (buf # reads) s =
     (if buf = [] then s else input_thread reads (fold serial_recv_locked buf s))"

section \<open>The invariant\<close>

text \<open>
  \<open>irq_wf\<close>: the identification register names the highest-priority pending source, the line
  is high exactly when there is one, the level recorded in the state is the level of the last
  call, and every call was an edge.  \<open>rx_wf\<close>: the ring holds at most 1023 bytes and DR says
  whether it is empty.  \<open>reg_wf\<close>: the implemented bits of IER and LSR.
\<close>

definition fifo_bits :: "('a) serial_state_scheme \<Rightarrow> u8" where
  "fifo_bits s = (if bit (fcr s) 0 then UART_IIR_FIFO_ENABLED else 0)"

definition lines_wf :: "serial_vm \<Rightarrow> bool" where
  "lines_wf s \<longleftrightarrow> line_level SERIAL_IRQ_GSI (irq_calls s) = irq_level s \<and>
     real_edges SERIAL_IRQ_GSI False (irq_calls s)"

definition irq_wf :: "serial_vm \<Rightarrow> bool" where
  "irq_wf s \<longleftrightarrow> iir s = serial_irq_source s OR fifo_bits s \<and>
     (irq_level s \<longleftrightarrow> serial_irq_source s \<noteq> UART_IIR_NO_INT) \<and> lines_wf s"

definition rx_wf :: "('a) serial_state_scheme \<Rightarrow> bool" where
  "rx_wf s \<longleftrightarrow> rx_count_locked s \<le> 1023 \<and> (bit (lsr s) 0 \<longleftrightarrow> rx_count_locked s \<noteq> 0)"

definition reg_wf :: "('a) serial_state_scheme \<Rightarrow> bool" where
  "reg_wf s \<longleftrightarrow> ier s AND 0xf0 = 0 \<and> bit (lsr s) 5 \<and> bit (lsr s) 6 \<and>
     \<not> bit (lsr s) 2 \<and> \<not> bit (lsr s) 3 \<and> \<not> bit (lsr s) 4"

definition serial_inv :: "serial_vm \<Rightarrow> bool" where
  "serial_inv s \<longleftrightarrow> irq_wf s \<and> rx_wf s \<and> reg_wf s"

text \<open>What the interrupt update needs: the FIFO bits of IIR are current.\<close>

definition irq_pre :: "serial_vm \<Rightarrow> bool" where
  "irq_pre s \<longleftrightarrow> iir s AND UART_IIR_FIFO_ENABLED = fifo_bits s \<and> lines_wf s"

lemma serial_irq_source_cases:
  "serial_irq_source s \<in> {UART_IIR_MSI, UART_IIR_NO_INT, UART_IIR_THRI, UART_IIR_RDI, UART_IIR_RLSI}"
  by (simp add: serial_irq_source_def Let_def)

lemma fifo_bits_cases: "fifo_bits s = 0 \<or> fifo_bits s = 0xc0"
  by (simp add: fifo_bits_def)

lemma irq_wf_pre: "irq_wf s \<Longrightarrow> irq_pre s"
  using serial_irq_source_cases [of s] fifo_bits_cases [of s]
  by (auto simp: irq_wf_def irq_pre_def)

lemma update_fields [simp]:
  "ier (serial_update_irq_locked s) = ier s" "fcr (serial_update_irq_locked s) = fcr s"
  "lcr (serial_update_irq_locked s) = lcr s" "mcr (serial_update_irq_locked s) = mcr s"
  "scr (serial_update_irq_locked s) = scr s" "lsr (serial_update_irq_locked s) = lsr s"
  "msr (serial_update_irq_locked s) = msr s"
  "thr_ipending (serial_update_irq_locked s) = thr_ipending s"
  "divider (serial_update_irq_locked s) = divider s"
  "rx_ring (serial_update_irq_locked s) = rx_ring s"
  "rx_head (serial_update_irq_locked s) = rx_head s"
  "rx_tail (serial_update_irq_locked s) = rx_tail s"
  "tty (serial_update_irq_locked s) = tty s"
  "hist (serial_update_irq_locked s) = hist s"
  "running (serial_update_irq_locked s) = running s"
  "iir (serial_update_irq_locked s) = serial_irq_source s OR (iir s AND UART_IIR_FIFO_ENABLED)"
  "irq_level (serial_update_irq_locked s) = (serial_irq_source s \<noteq> UART_IIR_NO_INT)"
  by (simp_all add: serial_update_irq_locked_def Let_def kvm_irq_line_def)

lemma update_source [simp]: "serial_irq_source (serial_update_irq_locked s) = serial_irq_source s"
  by (simp add: serial_irq_source_def)

lemma update_lines: "lines_wf s \<Longrightarrow> lines_wf (serial_update_irq_locked s)"
  by (auto simp: lines_wf_def serial_update_irq_locked_def Let_def kvm_irq_line_def)

lemma update_irq_wf: "irq_pre s \<Longrightarrow> irq_wf (serial_update_irq_locked s)"
  by (auto simp: irq_wf_def irq_pre_def fifo_bits_def update_lines)

lemma update_rx_reg_wf [simp]:
  "rx_wf (serial_update_irq_locked s) = rx_wf s" "reg_wf (serial_update_irq_locked s) = reg_wf s"
  by (simp_all add: rx_wf_def reg_wf_def rx_count_locked_def)

lemma update_inv: "irq_pre s \<Longrightarrow> rx_wf s \<Longrightarrow> reg_wf s \<Longrightarrow> serial_inv (serial_update_irq_locked s)"
  by (simp add: serial_inv_def update_irq_wf)

lemma serial_init_inv: "serial_inv serial_init"
  by (simp add: serial_inv_def irq_wf_def rx_wf_def reg_wf_def lines_wf_def serial_init_def
      rx_count_locked_def serial_irq_source_def fifo_bits_def bit_simps)

section \<open>Every operation keeps the invariant\<close>

lemma inv_parts:
  assumes "serial_inv s"
  shows "irq_pre s" "rx_wf s" "reg_wf s" "irq_wf s"
  using assms irq_wf_pre by (auto simp: serial_inv_def)

lemma u32_count_room:
  "x \<le> 1023 \<Longrightarrow> \<not> (1023 \<le> x) \<Longrightarrow> x + 1 \<le> 1023 \<and> x + 1 \<noteq> 0" for x :: u32
  by (auto simp: word_le_nat_alt unat_word_ariths unat_eq_0 [symmetric] simp del: unat_eq_0)

lemma u32_count_drop: "x \<le> 1023 \<Longrightarrow> x \<noteq> 0 \<Longrightarrow> x - 1 \<le> 1023" for x :: u32
proof -
  assume x: "x \<le> 1023" "x \<noteq> 0"
  then have "unat (x - 1) = unat x - 1" by (simp add: unat_minus_one)
  with x show ?thesis by (simp add: word_le_nat_alt)
qed

lemma count_Suc_head: "(h + 1) - t = (h - t) + (1::u32)"
  by simp

text \<open>The receive path needs less than the invariant: the transmitter is busy during a loopback.\<close>

definition recv_wf :: "serial_vm \<Rightarrow> bool" where
  "recv_wf s \<longleftrightarrow> irq_pre s \<and> rx_wf s"

lemma recv_fields [simp]:
  "ier (serial_recv_locked c s) = ier s" "fcr (serial_recv_locked c s) = fcr s"
  "lcr (serial_recv_locked c s) = lcr s" "mcr (serial_recv_locked c s) = mcr s"
  "scr (serial_recv_locked c s) = scr s" "msr (serial_recv_locked c s) = msr s"
  "thr_ipending (serial_recv_locked c s) = thr_ipending s"
  "divider (serial_recv_locked c s) = divider s"
  "rx_tail (serial_recv_locked c s) = rx_tail s"
  "tty (serial_recv_locked c s) = tty s" "running (serial_recv_locked c s) = running s"
  "n \<noteq> 0 \<Longrightarrow> n \<noteq> 1 \<Longrightarrow> bit (lsr (serial_recv_locked c s)) n = bit (lsr s) n"
  by (auto simp: serial_recv_locked_def bit_simps bit_1_iff)

lemma recv_rx_wf: "rx_wf s \<Longrightarrow> rx_wf (serial_recv_locked c s)"
proof (cases "rx_count_locked s \<ge> 1023")
  case True
  then show "rx_wf s \<Longrightarrow> ?thesis"
    by (auto simp: serial_recv_locked_def rx_wf_def rx_count_locked_def bit_simps)
next
  case False
  assume "rx_wf s"
  then have "rx_count_locked s + 1 \<le> 1023 \<and> rx_count_locked s + 1 \<noteq> 0"
    using False by (intro u32_count_room) (auto simp: rx_wf_def)
  with False show ?thesis
    by (simp add: serial_recv_locked_def rx_wf_def rx_count_locked_def count_Suc_head bit_simps)
qed

lemma recv_irq_wf: "irq_pre s \<Longrightarrow> irq_wf (serial_recv_locked c s)"
  unfolding serial_recv_locked_def
  by (intro update_irq_wf) (auto simp: irq_pre_def fifo_bits_def lines_wf_def)

lemma recv_reg_wf: "reg_wf s \<Longrightarrow> reg_wf (serial_recv_locked c s)"
  by (simp add: reg_wf_def)

lemma recv_inv: "serial_inv s \<Longrightarrow> serial_inv (serial_recv_locked c s)"
  using recv_irq_wf recv_rx_wf recv_reg_wf by (simp add: serial_inv_def irq_wf_pre)

lemma console_output_fields [simp]:
  "ier (console_output c s) = ier s" "fcr (console_output c s) = fcr s"
  "lcr (console_output c s) = lcr s" "mcr (console_output c s) = mcr s"
  "scr (console_output c s) = scr s" "lsr (console_output c s) = lsr s"
  "msr (console_output c s) = msr s" "iir (console_output c s) = iir s"
  "thr_ipending (console_output c s) = thr_ipending s"
  "divider (console_output c s) = divider s"
  "rx_ring (console_output c s) = rx_ring s" "rx_head (console_output c s) = rx_head s"
  "rx_tail (console_output c s) = rx_tail s" "irq_level (console_output c s) = irq_level s"
  "irq_calls (console_output c s) = irq_calls s" "tty (console_output c s) = tty s @ [c]"
  by (simp_all add: console_output_def Let_def)

lemma write_thr_inv:
  assumes "serial_inv s"
  shows "serial_inv (write_thr val s)"
proof -
  let ?s1 = "s\<lparr>thr_ipending := False, lsr := lsr s AND NOT (UART_LSR_THRE OR UART_LSR_TEMT)\<rparr>"
  let ?s2 = "if mcr ?s1 AND UART_MCR_LOOP \<noteq> 0 then serial_recv_locked val ?s1
             else console_output val ?s1"
  have wf1: "irq_pre ?s1" "rx_wf ?s1"
    using inv_parts [OF assms]
    by (auto simp: irq_pre_def fifo_bits_def lines_wf_def rx_wf_def rx_count_locked_def bit_simps)
  have wf2: "irq_pre ?s2" "rx_wf ?s2"
    using recv_irq_wf [OF wf1(1)] recv_rx_wf [OF wf1(2)] wf1
    by (auto simp: irq_wf_pre) (auto simp: irq_pre_def fifo_bits_def lines_wf_def rx_wf_def
        rx_count_locked_def)
  show ?thesis
    unfolding write_thr_def Let_def
    using inv_parts [OF assms] wf2
    by (intro update_inv)
      (auto simp: irq_pre_def fifo_bits_def lines_wf_def rx_wf_def rx_count_locked_def reg_wf_def
        bit_simps)
qed

lemma write_ier_inv:
  assumes "serial_inv s"
  shows "serial_inv (write_ier val s)"
  unfolding write_ier_def Let_def
  using inv_parts [OF assms]
  by (intro update_inv)
    (auto simp: irq_pre_def fifo_bits_def lines_wf_def rx_wf_def rx_count_locked_def reg_wf_def
      and.assoc)

lemma write_fcr_inv:
  assumes "serial_inv s"
  shows "serial_inv (write_fcr val s)"
  unfolding write_fcr_def Let_def
  using inv_parts [OF assms]
  by (intro update_inv)
    (auto simp: irq_pre_def fifo_bits_def lines_wf_def rx_wf_def rx_count_locked_def reg_wf_def
      bit_simps bit_tests and.assoc bit.conj_disj_distrib2)

lemma rx_count_step:
  "rx_wf s \<Longrightarrow> rx_count_locked s \<noteq> 0 \<Longrightarrow> rx_head s - (rx_tail s + 1) \<le> 1023"
  using u32_count_drop [of "rx_head s - rx_tail s"]
  by (simp add: rx_wf_def rx_count_locked_def algebra_simps)

lemma read_rbr_inv:
  assumes "serial_inv s"
  shows "serial_inv (snd (read_rbr s))"
proof (cases "rx_count_locked s = 0")
  case True
  then show ?thesis
    unfolding read_rbr_def Let_def using inv_parts [OF assms]
    by (auto intro!: update_inv simp: irq_pre_def fifo_bits_def lines_wf_def rx_wf_def
        rx_count_locked_def reg_wf_def bit_simps)
next
  case False
  then show ?thesis
    unfolding read_rbr_def Let_def
    using inv_parts [OF assms] rx_count_step [OF inv_parts(2) [OF assms]]
    by (auto intro!: update_inv simp: irq_pre_def fifo_bits_def lines_wf_def rx_wf_def
        rx_count_locked_def reg_wf_def bit_simps)
qed

lemma read_iir_inv: "serial_inv s \<Longrightarrow> serial_inv (snd (read_iir s))"
  using inv_parts [of s]
  by (auto simp: read_iir_def irq_pre_def fifo_bits_def lines_wf_def rx_wf_def
      rx_count_locked_def reg_wf_def intro!: update_inv)

lemma read_lsr_inv: "serial_inv s \<Longrightarrow> serial_inv (snd (read_lsr s))"
  using inv_parts [of s]
  by (auto simp: read_lsr_def irq_pre_def fifo_bits_def lines_wf_def rx_wf_def
      rx_count_locked_def reg_wf_def bit_simps intro!: update_inv)

lemma read_msr_inv: "serial_inv s \<Longrightarrow> serial_inv (snd (read_msr s))"
  using inv_parts [of s]
  by (auto simp: read_msr_def irq_pre_def fifo_bits_def lines_wf_def rx_wf_def
      rx_count_locked_def reg_wf_def intro!: update_inv)

lemma inv_indep:
  "serial_inv (s\<lparr>divider := d\<rparr>) = serial_inv s" "serial_inv (s\<lparr>lcr := v\<rparr>) = serial_inv s"
  "serial_inv (s\<lparr>mcr := v\<rparr>) = serial_inv s" "serial_inv (s\<lparr>scr := v\<rparr>) = serial_inv s"
  "serial_inv (s\<lparr>running := b\<rparr>) = serial_inv s"
  by (simp_all add: serial_inv_def irq_wf_def fifo_bits_def lines_wf_def rx_wf_def
      rx_count_locked_def reg_wf_def serial_irq_source_def)

lemma serial_write_reg_inv: "serial_inv s \<Longrightarrow> serial_inv (serial_write_reg reg val s)"
  by (simp add: serial_write_reg_def inv_indep write_thr_inv write_ier_inv write_fcr_inv)

lemma serial_read_reg_inv: "serial_inv s \<Longrightarrow> serial_inv (snd (serial_read_reg reg s))"
  by (simp add: serial_read_reg_def read_rbr_inv read_iir_inv read_lsr_inv read_msr_inv)

lemma serial_io_inv: "serial_inv s \<Longrightarrow> serial_inv (snd (snd (serial_io port w val s)))"
  using serial_read_reg_inv [of s "ucast (port - COM1_BASE)"]
  by (simp add: serial_io_def Let_def serial_write_reg_inv split_beta)

lemma power_io_inv: "serial_inv s \<Longrightarrow> serial_inv (snd (snd (power_io port w val s)))"
  by (simp add: power_io_def inv_indep)

lemma recv_fold_inv: "serial_inv s \<Longrightarrow> serial_inv (fold serial_recv_locked buf s)"
  by (induction buf arbitrary: s) (auto simp: recv_inv)

lemma input_thread_inv: "serial_inv s \<Longrightarrow> serial_inv (input_thread reads s)"
  by (induction reads s rule: input_thread.induct) (auto simp: recv_fold_inv)

section \<open>The port as a state machine\<close>

text \<open>
  The threads that touch the port: the vCPU thread performs port reads and writes, the input
  thread delivers host bytes.  The lock makes each of them one step, in any order.
\<close>

inductive serial_step :: "serial_vm \<Rightarrow> serial_vm \<Rightarrow> bool" where
  io: "serial_io port w val s = (h, v, s') \<Longrightarrow> serial_step s s'"
| power: "power_io port w val s = (h, v, s') \<Longrightarrow> serial_step s s'"
| input: "serial_step s (fold serial_recv_locked buf s)"

inductive serial_reach :: "serial_vm \<Rightarrow> bool" where
  init: "serial_reach serial_init"
| step: "serial_reach s \<Longrightarrow> serial_step s s' \<Longrightarrow> serial_reach s'"

lemma serial_step_inv: "serial_step s s' \<Longrightarrow> serial_inv s \<Longrightarrow> serial_inv s'"
  by (induction rule: serial_step.induct)
    (metis serial_io_inv snd_conv, metis power_io_inv snd_conv, rule recv_fold_inv)

lemma serial_reach_inv: "serial_reach s \<Longrightarrow> serial_inv s"
  by (induction rule: serial_reach.induct) (auto simp: serial_init_inv serial_step_inv)

section \<open>The receive ring is a bounded queue\<close>

definition rx_list :: "('a) serial_state_scheme \<Rightarrow> u8 list" where
  "rx_list s = map (\<lambda>i. rx_ring s ((rx_tail s + of_nat i) mod SER_RX_SZ))
                   [0..<unat (rx_count_locked s)]"

lemma length_rx_list [simp]: "length (rx_list s) = unat (rx_count_locked s)"
  by (simp add: rx_list_def)

lemma mod_1024_take_bit: "w mod 1024 = take_bit 10 w" for w :: u32
  by (simp add: take_bit_eq_mod)

lemma rx_slot_free:
  fixes t h :: u32
  assumes "i < unat (h - t)" "unat (h - t) < 1024"
  shows "(t + of_nat i) mod 1024 \<noteq> h mod 1024"
proof
  assume "(t + of_nat i) mod 1024 = h mod 1024"
  then have "take_bit 10 (t + of_nat i) = take_bit 10 (t + of_nat (unat (h - t)))"
    by (simp add: mod_1024_take_bit)
  then have "i = unat (h - t)"
    using assms by (intro ring_slots_distinct [of i 10 "unat (h - t)" t]) auto
  with assms(1) show False by simp
qed

lemma update_rx_list [simp]: "rx_list (serial_update_irq_locked s) = rx_list s"
  by (simp add: rx_list_def rx_count_locked_def)

lemma recv_push:
  assumes "rx_count_locked s < 1023"
  shows "rx_list (serial_recv_locked c s) = rx_list s @ [c]"
proof -
  let ?n = "unat (rx_count_locked s)"
  let ?s1 = "s\<lparr>rx_ring := (rx_ring s)(rx_head s mod 1024 := c), rx_head := rx_head s + 1,
               lsr := lsr s OR UART_LSR_DR\<rparr>"
  have n: "?n < 1023" using assms by (simp add: word_less_nat_alt)
  have n1: "unat (rx_count_locked ?s1) = Suc ?n"
    using n by (simp add: rx_count_locked_def count_Suc_head unat_word_ariths)
  have h: "rx_tail s + of_nat ?n = rx_head s"
    by (simp add: rx_count_locked_def)
  have "rx_list ?s1 = rx_list s @ [c]"
    unfolding rx_list_def n1
    using rx_slot_free [of _ "rx_head s" "rx_tail s"] n h
    by (auto simp: rx_count_locked_def)
  moreover have "serial_recv_locked c s = serial_update_irq_locked ?s1"
    using assms by (simp add: serial_recv_locked_def word_le_nat_alt word_less_nat_alt)
  ultimately show ?thesis by simp
qed

lemma recv_full:
  assumes "rx_count_locked s \<ge> 1023"
  shows "rx_list (serial_recv_locked c s) = rx_list s" "bit (lsr (serial_recv_locked c s)) 1"
  using assms by (simp_all add: serial_recv_locked_def rx_list_def rx_count_locked_def bit_simps)

lemma read_rbr_rx_wf: "rx_wf s \<Longrightarrow> rx_wf (snd (read_rbr s))"
  using rx_count_step [of s]
  by (auto simp: read_rbr_def Let_def rx_wf_def rx_count_locked_def bit_simps)

lemma read_rbr_pop:
  assumes "rx_list s = x # xs"
  shows "fst (read_rbr s) = x" "rx_list (snd (read_rbr s)) = xs"
proof -
  let ?s1 = "s\<lparr>rx_tail := rx_tail s + 1\<rparr>"
  have len: "unat (rx_count_locked s) = Suc (length xs)"
    using assms length_rx_list [of s] by simp
  then have nz: "rx_count_locked s \<noteq> 0" by auto
  have c1: "rx_count_locked ?s1 = rx_count_locked s - 1"
    by (simp add: rx_count_locked_def)
  then have n1: "unat (rx_count_locked ?s1) = length xs"
    using len nz by (simp add: unat_minus_one)
  have eq: "rx_list s = rx_ring s (rx_tail s mod 1024) # rx_list ?s1"
    unfolding rx_list_def n1 len
    by (simp add: upt_conv_Cons map_Suc_upt [symmetric] add.assoc del: upt_Suc)
  have "rx_list (?s1\<lparr>lsr := v\<rparr>) = rx_list ?s1" for v
    by (simp add: rx_list_def rx_count_locked_def)
  with eq nz assms show "fst (read_rbr s) = x" "rx_list (snd (read_rbr s)) = xs"
    by (auto simp: read_rbr_def Let_def)
qed

lemma rx_empty_iff: "rx_list s = [] \<longleftrightarrow> rx_count_locked s = 0"
  by (metis length_0_conv length_rx_list unat_eq_0)

interpretation rx: fifo serial_recv_locked read_rbr rx_list "rx_wf :: serial_vm \<Rightarrow> bool" 1023
proof unfold_locales
  fix s :: serial_vm and c
  show "rx_wf s \<Longrightarrow> length (rx_list s) < 1023 \<Longrightarrow>
      rx_list (serial_recv_locked c s) = rx_list s @ [c]"
    by (intro recv_push) (simp add: word_less_nat_alt)
qed (auto simp: recv_rx_wf read_rbr_rx_wf read_rbr_pop)

section \<open>Properties of the port\<close>

text \<open>
  C1. In every reachable state of the port, under any interleaving of guest port accesses and
  host input, the level of GSI 4 that the calls have built up is high exactly when some enabled
  source is pending, IIR reports that source (the highest-priority one) and the FIFO bits, and
  no call ever repeated the level the line already had.
\<close>

theorem serial_line_tracks_source:
  assumes "serial_reach s"
  shows "(line_level SERIAL_IRQ_GSI (irq_calls s) \<longleftrightarrow> serial_irq_source s \<noteq> UART_IIR_NO_INT) \<and>
    iir s = serial_irq_source s OR (if bit (fcr s) 0 then UART_IIR_FIFO_ENABLED else 0) \<and>
    real_edges SERIAL_IRQ_GSI False (irq_calls s)"
  using serial_reach_inv [OF assms]
  by (auto simp: serial_inv_def irq_wf_def lines_wf_def fifo_bits_def)

lemma serial_reach_write:
  assumes "serial_reach s" "COM1_BASE \<le> p" "p < COM1_BASE + 8"
  shows "serial_reach (serial_write_reg (ucast (p - COM1_BASE)) val s)"
proof -
  have "serial_io p True val s = (True, val, serial_write_reg (ucast (p - COM1_BASE)) val s)"
    using assms by (simp add: serial_io_def Let_def)
  then show ?thesis by (rule serial_reach.step [OF assms(1) serial_step.io])
qed

theorem serial_line_tracks_source_witness:
  "line_level 4 (irq_calls (serial_write_reg 1 2 serial_init)) \<and>
   iir (serial_write_reg 1 2 serial_init) = 2"
proof -
  have r: "serial_reach (serial_write_reg 1 2 serial_init)"
    using serial_reach_write [OF serial_reach.init, where p = "0x3f9" and val = "2"] by simp
  have "serial_irq_source (serial_write_reg 1 2 serial_init) = 2 \<and>
        \<not> bit (fcr (serial_write_reg 1 2 serial_init)) 0"
    by (simp add: serial_write_reg_def write_ier_def Let_def serial_init_def serial_irq_source_def)
  then show ?thesis using serial_line_tracks_source [OF r] by simp
qed

text \<open>
  C9. Host input is delivered to the guest in order and without loss up to the ring's
  capacity: from an empty ring, 1023 bytes or fewer received from the host come back from that
  many reads of the receive register, whatever the counters' values (they wrap).
\<close>

theorem serial_rx_in_order:
  assumes "serial_reach s" "rx_list s = []" "length bs \<le> 1023"
  shows "fst (pops read_rbr (length bs) (fold serial_recv_locked bs s)) = bs"
  using rx.in_order assms serial_reach_inv [OF assms(1)] by (simp add: serial_inv_def)

theorem serial_rx_in_order_witness:
  "fst (pops read_rbr 3 (fold serial_recv_locked [0x68, 0x69, 0x0a] serial_init)) = [0x68, 0x69, 0x0a]"
  using serial_rx_in_order [OF serial_reach.init, of "[0x68, 0x69, 0x0a]"]
  by (simp add: rx_empty_iff rx_count_locked_def serial_init_def numeral_3_eq_3)

text \<open>
  A byte that arrives when the ring holds 1023 bytes is dropped and the overrun bit is
  raised: what was queued is still there in order, and the ring never holds more.
\<close>

theorem serial_rx_overrun:
  assumes "serial_reach s"
  shows "unat (rx_count_locked s) \<le> 1023 \<and>
    (unat (rx_count_locked s) = 1023 \<longrightarrow>
       rx_list (serial_recv_locked c s) = rx_list s \<and> bit (lsr (serial_recv_locked c s)) 1) \<and>
    (unat (rx_count_locked s) < 1023 \<longrightarrow>
       rx_list (serial_recv_locked c s) = rx_list s @ [c] \<and>
       bit (lsr (serial_recv_locked c s)) 1 = bit (lsr s) 1)"
proof -
  have "rx_wf s" using serial_reach_inv [OF assms] by (simp add: serial_inv_def)
  moreover have "bit (lsr (serial_recv_locked c s)) 1 = bit (lsr s) 1"
    if "unat (rx_count_locked s) < 1023"
    using that by (auto simp: serial_recv_locked_def word_le_nat_alt bit_simps)
  ultimately show ?thesis
    using recv_full [of s c] recv_push [of s c]
    by (auto simp: rx_wf_def word_le_nat_alt word_less_nat_alt)
qed

theorem serial_rx_overrun_witness:
  "rx_list (serial_recv_locked 7 serial_init) = rx_list serial_init @ [7]"
  using serial_rx_overrun [OF serial_reach.init, of 7]
  by (simp add: rx_count_locked_def serial_init_def)

text \<open>
  The transmitter-empty interrupt is a latch, not a storm: in any reachable state with
  the divisor latch closed, loopback off and THRI the one enabled interrupt, writing a byte
  sends it to the console, raises the line and makes IIR report THRI; one read of IIR
  acknowledges it and drops the line.
\<close>

theorem serial_thri_latch:
  assumes "serial_reach s" "lcr s AND UART_LCR_DLAB = 0" "mcr s AND UART_MCR_LOOP = 0"
    and "bit (ier s) 1" "\<not> bit (ier s) 2" "\<not> bit (ier s) 0" "\<not> bit (ier s) 3"
  shows "let s1 = serial_write_reg UART_RX val s; (v, s2) = serial_read_reg UART_IIR s1
    in line_level SERIAL_IRQ_GSI (irq_calls s1) \<and> v AND UART_IIR_ID = UART_IIR_THRI \<and>
       \<not> line_level SERIAL_IRQ_GSI (irq_calls s2) \<and> tty s2 = tty s @ [val]"
proof -
  let ?s1 = "serial_write_reg UART_RX val s"
  have w: "?s1 = write_thr val s"
    using assms(2) by (simp add: serial_write_reg_def)
  have inv1: "serial_inv ?s1"
    using serial_reach_inv [OF assms(1)] by (rule serial_write_reg_inv)
  have f: "ier ?s1 = ier s" "thr_ipending ?s1" "tty ?s1 = tty s @ [val]"
    using assms(3) by (simp_all add: w write_thr_def Let_def)
  have src: "serial_irq_source ?s1 = UART_IIR_THRI"
    using f assms(4-7) by (simp add: serial_irq_source_def bit_tests)
  have iir: "iir ?s1 = 2 \<or> iir ?s1 = 0xc2"
    using inv1 src by (auto simp: serial_inv_def irq_wf_def fifo_bits_def)
  let ?s2 = "serial_update_irq_locked (?s1\<lparr>thr_ipending := False\<rparr>)"
  have r: "serial_read_reg UART_IIR ?s1 = (iir ?s1, ?s2)"
    using iir by (auto simp: serial_read_reg_def read_iir_def)
  have inv2: "serial_inv ?s2"
    using serial_read_reg_inv [OF inv1, of UART_IIR] r by simp
  have "serial_irq_source ?s2 = UART_IIR_NO_INT"
    using f assms(4-7) by (simp add: serial_irq_source_def bit_tests)
  then show ?thesis
    using inv1 inv2 iir src r f by (auto simp: serial_inv_def irq_wf_def lines_wf_def Let_def)
qed

theorem serial_thri_latch_witness:
  "let s1 = serial_write_reg UART_RX 0x41 (serial_write_reg 1 2 serial_init);
       (v, s2) = serial_read_reg UART_IIR s1
   in line_level 4 (irq_calls s1) \<and> v AND UART_IIR_ID = UART_IIR_THRI \<and>
      \<not> line_level 4 (irq_calls s2)"
proof -
  have r: "serial_reach (serial_write_reg 1 2 serial_init)"
    using serial_reach_write [OF serial_reach.init, where p = "0x3f9" and val = "2"] by simp
  have "lcr (serial_write_reg 1 2 serial_init) = 0 \<and> mcr (serial_write_reg 1 2 serial_init) = 0 \<and>
        ier (serial_write_reg 1 2 serial_init) = 2"
    by (simp add: serial_write_reg_def write_ier_def Let_def serial_init_def)
  then show ?thesis using serial_thri_latch [OF r, of "0x41"] by (auto simp: Let_def split_beta)
qed

text \<open>
  What the guest driver's autoconfiguration looks for: in every reachable state, after
  enabling the FIFO the identification register has both FIFO bits (a 16550A), after disabling it
  neither; IER reads back only the low four bits; the scratch register reads back; and in loopback
  with OUT2 and RTS the modem status is DCD and CTS.
\<close>

theorem serial_autoconfig:
  assumes "serial_reach s" "lcr s AND UART_LCR_DLAB = 0"
  shows "fst (serial_read_reg UART_IIR (serial_write_reg UART_FCR 0x01 s)) AND 0xc0 = 0xc0 \<and>
    fst (serial_read_reg UART_IIR (serial_write_reg UART_FCR 0x00 s)) AND 0xc0 = 0 \<and>
    fst (serial_read_reg UART_IER (serial_write_reg UART_IER v s)) = v AND 0x0f \<and>
    fst (serial_read_reg UART_SCR (serial_write_reg UART_SCR v s)) = v \<and>
    fst (serial_read_reg UART_MSR (serial_write_reg UART_MCR 0x1a s)) = UART_MSR_DCD OR UART_MSR_CTS"
proof -
  have "fst (serial_read_reg UART_IIR s') AND 0xc0 = fifo_bits s'" if "serial_inv s'" for s'
    using irq_wf_pre [of s'] that
    by (auto simp: serial_read_reg_def read_iir_def serial_inv_def irq_pre_def)
  note iir = this [OF serial_write_reg_inv [OF serial_reach_inv [OF assms(1)]]]
  have "fifo_bits (serial_write_reg UART_FCR 0x01 s) = 0xc0"
    "fifo_bits (serial_write_reg UART_FCR 0x00 s) = 0"
    by (simp_all add: serial_write_reg_def write_fcr_def Let_def fifo_bits_def)
  then show ?thesis
    using assms(2)
    by (auto simp: iir) (auto simp: serial_read_reg_def serial_write_reg_def write_ier_def
        Let_def read_msr_def)
qed

theorem serial_autoconfig_witness:
  "fst (serial_read_reg UART_IIR (serial_write_reg UART_FCR 0x01 serial_init)) AND 0xc0 = 0xc0"
  using serial_autoconfig [OF serial_reach.init] by (simp add: serial_init_def)

text \<open>
  The divisor latch: with DLAB set, the two bytes written to offsets 0 and 1 are the bytes
  read back from them, in either order of writing, and neither write transmits a byte, changes
  the interrupt enables or touches the interrupt line.
\<close>

lemma divider_halves:
  "ucast (((d AND 0xff00) OR ucast lo) AND 0xff) = (lo::u8)"
  "ucast (drop_bit 8 ((d AND 0x00ff) OR push_bit 8 (ucast hi :: u16))) = (hi::u8)"
  "(((d AND 0xff00) OR ucast lo) AND 0x00ff) OR push_bit 8 (ucast hi) =
   (((d AND 0x00ff) OR push_bit 8 (ucast hi)) AND 0xff00) OR (ucast lo :: u16)" for d :: u16
proof -
  have ff: "(0xff::u16) = mask 8" "(0xff00::u16) = NOT (mask 8)"
    by (simp_all add: mask_eq_exp_minus_1)
  show "ucast (((d AND 0xff00) OR ucast lo) AND 0xff) = lo"
    "ucast (drop_bit 8 ((d AND 0x00ff) OR push_bit 8 (ucast hi :: u16))) = hi"
    "(((d AND 0xff00) OR ucast lo) AND 0x00ff) OR push_bit 8 (ucast hi) =
     (((d AND 0x00ff) OR push_bit 8 (ucast hi)) AND 0xff00) OR (ucast lo :: u16)"
    unfolding ff by (rule bit_word_eqI; auto simp: bit_simps dest: bit_imp_le_length)+
qed

theorem serial_divider_roundtrip:
  assumes "lcr s AND UART_LCR_DLAB \<noteq> 0"
  shows "let s1 = serial_write_reg 1 hi (serial_write_reg 0 lo s);
             s2 = serial_write_reg 0 lo (serial_write_reg 1 hi s)
    in s1 = s2 \<and> fst (serial_read_reg 0 s1) = lo \<and> fst (serial_read_reg 1 s1) = hi \<and>
       tty s1 = tty s \<and> ier s1 = ier s \<and> irq_calls s1 = irq_calls s"
  using assms divider_halves(1) [of "(divider s AND 0xff) OR push_bit 8 (ucast hi)" lo]
    divider_halves(2) [of "(divider s AND 0xff00) OR ucast lo" hi]
  by (simp add: serial_write_reg_def serial_read_reg_def Let_def divider_halves(3))

theorem serial_divider_roundtrip_witness:
  "fst (serial_read_reg 0 (serial_write_reg 1 0x01 (serial_write_reg 0 0x0c
     (serial_write_reg UART_LCR 0x83 serial_init)))) = 0x0c"
proof -
  have "lcr (serial_write_reg UART_LCR 0x83 serial_init) AND UART_LCR_DLAB \<noteq> 0"
    by (simp add: serial_write_reg_def)
  from serial_divider_roundtrip [OF this, of 1 "0x0c"] show ?thesis
    unfolding Let_def by (elim conjE)
qed

text \<open>
  The monitor leaves its main loop exactly when the guest has printed the readiness
  marker: after any run of console bytes, the loop is still enabled if and only if no thirteen
  consecutive output bytes spell it, and every byte reached standard output in order.
\<close>

lemma tl_drop_snoc: "n < length xs \<Longrightarrow> tl (drop n xs) @ [x] = drop (Suc n) (xs @ [x])"
  by (simp add: drop_Suc tl_drop)

lemma console_fold_hist:
  "length (hist s) = 13 \<Longrightarrow> hist (fold console_output bs s) = drop (length bs) (hist s @ bs)"
proof (induction bs rule: rev_induct)
  case Nil
  then show ?case by simp
next
  case (snoc b bs)
  have "tl (drop (length bs) (hist s @ bs)) @ [b] = drop (Suc (length bs)) (hist s @ bs @ [b])"
    using snoc.prems tl_drop_snoc [of "length bs" "hist s @ bs" b] by simp
  then show ?case using snoc by (simp add: console_output_def Let_def)
qed

theorem console_stops_at_marker:
  assumes "length (hist s) = 13" "running s"
  shows "(running (fold console_output bs s) \<longleftrightarrow>
      (\<forall>k < length bs. take 13 (drop (Suc k) (hist s @ bs)) \<noteq> ready_marker)) \<and>
    tty (fold console_output bs s) = tty s @ bs"
proof (induction bs rule: rev_induct)
  case Nil
  then show ?case using assms by simp
next
  case (snoc b bs)
  have pre: "take 13 (drop (Suc k) (hist s @ bs @ [b])) = take 13 (drop (Suc k) (hist s @ bs))"
    if "k < length bs" for k
    using that assms(1) by simp
  have last: "take 13 (drop (Suc (length bs)) (hist s @ bs @ [b])) =
      hist (fold console_output (bs @ [b]) s)"
    using console_fold_hist [OF assms(1), of "bs @ [b]"] assms(1) by simp
  have "running (fold console_output (bs @ [b]) s) \<longleftrightarrow>
      running (fold console_output bs s) \<and> hist (fold console_output (bs @ [b]) s) \<noteq> ready_marker"
    by (simp add: console_output_def Let_def)
  then show ?case using snoc pre last by (auto simp: less_Suc_eq)
qed

theorem console_stops_at_marker_witness:
  "\<not> running (fold console_output (0x0a # ready_marker) serial_init)"
proof -
  have h: "length (hist serial_init) = 13" "running serial_init"
    by (simp_all add: serial_init_def)
  have "take 13 (drop (Suc 13) (hist serial_init @ 0x0a # ready_marker)) = ready_marker"
    by (simp add: serial_init_def ready_marker_def)
  moreover have "13 < length (0x0a # ready_marker)" by (simp add: ready_marker_def)
  ultimately show ?thesis
    using console_stops_at_marker [OF h, of "0x0a # ready_marker"] by blast
qed

end
