(* ===== verification/Virtqueue.thy ===== *)
theory Virtqueue
  imports VmmPrelude
begin

text \<open>
  The split virtqueue of \<open>minivmm.c\<close>: address translation into guest RAM, the walk of a
  descriptor chain, the copy out of a chain, the used ring, and the console's echo queue.
  Guest RAM is one buffer that starts at guest-physical address 0; a host pointer into it is
  the offset of the byte.
\<close>

section \<open>Guest addresses\<close>

definition mem_wf :: "cbuf \<Rightarrow> bool" where
  "mem_wf m \<longleftrightarrow> bsize m < 2 ^ 64"

definition gpa2hva :: "cbuf \<Rightarrow> u64 \<Rightarrow> u64 \<Rightarrow> nat option" where
  "gpa2hva m gpa len =
     (if gpa + len < gpa \<or> gpa + len > of_nat (bsize m) then None else Some (unat gpa))"

lemma gpa2hva_Some:
  assumes "mem_wf m"
  shows "gpa2hva m gpa len = Some p \<longleftrightarrow> p = unat gpa \<and> unat gpa + unat len \<le> bsize m"
proof -
  have b: "bsize m < 18446744073709551616" using assms by (simp add: mem_wf_def)
  then have s: "unat (of_nat (bsize m) :: u64) = bsize m"
    by (simp add: unat_of_nat)
  have u: "unat gpa < 18446744073709551616" "unat len < 18446744073709551616"
    using unsigned_less [of gpa] unsigned_less [of len] by simp_all
  have "unat (gpa + len) = (if unat gpa + unat len < 18446744073709551616 then unat gpa + unat len
           else unat gpa + unat len - 18446744073709551616)"
    using unat_plus_if' [of gpa len] by simp
  then have "(gpa + len < gpa \<or> gpa + len > of_nat (bsize m)) \<longleftrightarrow> \<not> unat gpa + unat len \<le> bsize m"
    unfolding word_less_nat_alt s using b u by (simp split: if_splits; linarith)
  then show ?thesis by (auto simp: gpa2hva_def)
qed

lemma gpa2hva_size: "bsize m = bsize m' \<Longrightarrow> gpa2hva m = gpa2hva m'"
  by (simp add: gpa2hva_def fun_eq_iff)

section \<open>Descriptors\<close>

record vring_desc =
  d_addr :: u64
  d_len :: u32
  d_flags :: u16
  d_next :: u16

abbreviation (input) VRING_DESC_F_NEXT :: u16 where "VRING_DESC_F_NEXT \<equiv> 1"
abbreviation (input) VRING_DESC_F_WRITE :: u16 where "VRING_DESC_F_WRITE \<equiv> 2"
abbreviation (input) VQ_MAX_SEGS :: nat where "VQ_MAX_SEGS \<equiv> 64"

definition read_desc :: "cbuf \<Rightarrow> nat \<Rightarrow> vring_desc res" where
  "read_desc m p =
     rbind (ld64 m p) (\<lambda>a. rbind (ld32 m (p + 8)) (\<lambda>l.
     rbind (ld16 m (p + 12)) (\<lambda>f. rbind (ld16 m (p + 14)) (\<lambda>n.
       Inr \<lparr>d_addr = a, d_len = l, d_flags = f, d_next = n\<rparr>))))"

record vq =
  vq_num :: u32
  vq_desc :: u64
  vq_avail :: u64
  vq_used :: u64
  vq_ready :: u32
  vq_last :: u16

record seg =
  hva :: nat
  slen :: u32
  writable :: bool

definition seg_of :: "vring_desc \<Rightarrow> seg" where
  "seg_of d = \<lparr>hva = unat (d_addr d), slen = d_len d,
               writable = (d_flags d AND VRING_DESC_F_WRITE \<noteq> 0)\<rparr>"

section \<open>Walking a chain\<close>

text \<open>
  One unit of fuel per descriptor visited.  The C loop has no other bound than its \<open>guard\<close>
  counter, kept here at its 32 bits: \<open>gather_enough_fuel\<close> shows that running out of fuel does
  not happen for any queue size but \<open>0xffffffff\<close>, where the guard can never exceed the size.
\<close>

fun gather_loop ::
  "nat \<Rightarrow> cbuf \<Rightarrow> nat \<Rightarrow> u32 \<Rightarrow> u16 \<Rightarrow> u32 \<Rightarrow> seg list \<Rightarrow> seg list option res" where
  "gather_loop 0 m dt num idx guard segs = Inl Diverges"
| "gather_loop (Suc fuel) m dt num idx guard segs =
     (if ucast idx \<ge> num \<or> guard > num then Inr None
      else rbind (read_desc m (dt + 16 * unat idx)) (\<lambda>d.
        case gpa2hva m (d_addr d) (ucast (d_len d)) of
          None \<Rightarrow> Inr None
        | Some p \<Rightarrow>
            let segs1 = (if length segs < VQ_MAX_SEGS
                         then segs @ [\<lparr>hva = p, slen = d_len d,
                                       writable = (d_flags d AND VRING_DESC_F_WRITE \<noteq> 0)\<rparr>]
                         else segs)
            in if d_flags d AND VRING_DESC_F_NEXT = 0 then Inr (Some segs1)
               else gather_loop fuel m dt num (d_next d) (guard + 1) segs1))"

definition gather_chain :: "cbuf \<Rightarrow> vq \<Rightarrow> u16 \<Rightarrow> seg list option res" where
  "gather_chain m q head =
     (case gpa2hva m (vq_desc q) (16 * ucast (vq_num q)) of
        None \<Rightarrow> Inr None
      | Some dt \<Rightarrow> gather_loop (unat (vq_num q) + 2) m dt (vq_num q) head 0 [])"

section \<open>Copying out of a chain\<close>

fun chain_read :: "cbuf \<Rightarrow> seg list \<Rightarrow> nat \<Rightarrow> nat \<Rightarrow> u8 list res" where
  "chain_read m [] off n = Inr []"
| "chain_read m (s # ss) off n =
     (if n = 0 then Inr []
      else if off \<ge> unat (slen s) then chain_read m ss (off - unat (slen s)) n
      else let tk = min (unat (slen s) - off) n
           in rbind (buf_read m (hva s + off) tk) (\<lambda>b.
              rbind (chain_read m ss 0 (n - tk)) (\<lambda>r. Inr (b @ r))))"

section \<open>The used ring\<close>

definition push_used :: "cbuf \<Rightarrow> vq \<Rightarrow> u16 \<Rightarrow> u32 \<Rightarrow> cbuf res" where
  "push_used m q head len =
     (case (gpa2hva m (vq_used q + 2) 2, gpa2hva m (vq_used q + 4) (8 * ucast (vq_num q))) of
        (Some used_idx, Some uring) \<Rightarrow>
          rbind (ld16 m used_idx) (\<lambda>u.
            if vq_num q = 0 then Inl DivByZero
            else let e = uring + 8 * unat (ucast u mod vq_num q)
                 in rbind (st32 m e (ucast head)) (\<lambda>m1.
                    rbind (st32 m1 (e + 4) len) (\<lambda>m2.
                      st16 m2 used_idx (u + 1))))
      | _ \<Rightarrow> Inr m)"

section \<open>The console's echo queue\<close>

abbreviation (input) CON_IN_SZ :: u32 where "CON_IN_SZ \<equiv> 8192"

record con_in =
  cbuffer :: "u32 \<Rightarrow> u8"
  chead :: u32
  ctail :: u32

definition con_in_push1 :: "u8 \<Rightarrow> con_in \<Rightarrow> con_in" where
  "con_in_push1 b c = c\<lparr>cbuffer := (cbuffer c)(chead c mod CON_IN_SZ := b), chead := chead c + 1\<rparr>"

definition con_in_push :: "u8 list \<Rightarrow> con_in \<Rightarrow> con_in" where
  "con_in_push bs c = fold con_in_push1 bs c"

definition con_in_pop :: "con_in \<Rightarrow> (u8 \<times> con_in) option" where
  "con_in_pop c =
     (if ctail c = chead c then None
      else Some (cbuffer c (ctail c mod CON_IN_SZ), c\<lparr>ctail := ctail c + 1\<rparr>))"

definition con_in_count :: "con_in \<Rightarrow> u32" where
  "con_in_count c = chead c - ctail c"

section \<open>Guest tables\<close>

lemma unat_ucast16_32 [simp]: "unat (ucast (x :: u16) :: u32) = unat x"
  using unsigned_less [where 'a = nat, of x] by (simp add: unsigned_ucast_eq take_bit_nat_eq_self)

lemma unat_ucast32_64 [simp]: "unat (ucast (x :: u32) :: u64) = unat x"
  using unsigned_less [where 'a = nat, of x] by (simp add: unsigned_ucast_eq take_bit_nat_eq_self)

lemma unat_scaled:
  fixes n :: u32
  assumes "k \<le> 16"
  shows "unat (of_nat k * ucast n :: u64) = k * unat n"
proof -
  have n: "unat n < 4294967296" using unsigned_less [of n] by simp
  have u: "unat (ucast n :: u64) = unat n"
    using n by (simp add: unsigned_ucast_eq take_bit_nat_eq_self)
  have "unat (of_nat k :: u64) = k" using assms by (simp add: unat_of_nat)
  moreover have "k * unat n < 18446744073709551616"
    using mult_le_mono [OF assms less_imp_le [OF n]] by simp
  ultimately show ?thesis by (simp add: unat_word_ariths u)
qed

lemma table_in_memory:
  fixes n :: u32
  assumes "mem_wf m" "gpa2hva m a (of_nat k * ucast n) = Some p" "k \<le> 16"
  shows "p + k * unat n \<le> bsize m"
  using assms(2) gpa2hva_Some [OF assms(1)] unat_scaled [OF assms(3), of n] by auto

lemma read_desc_ok: "p + 16 \<le> bsize m \<Longrightarrow> \<exists>d. read_desc m p = Inr d"
  by (auto simp: read_desc_def ld64_def ld32_def ld16_def res_simps buf_simps)

lemma read_desc_in_table:
  assumes "dt + 16 * unat num \<le> bsize m" "ucast idx < (num :: u32)"
  obtains d where "read_desc m (dt + 16 * unat (idx :: u16)) = Inr d"
proof -
  have "unat idx < unat num" using assms(2) by (simp add: word_less_nat_alt)
  with assms(1) have "dt + 16 * unat idx + 16 \<le> bsize m" by simp
  from read_desc_ok [OF this] show thesis using that by blast
qed

section \<open>Descriptor chains as the device sees them\<close>

text \<open>
  \<open>desc_chain m dt num idx ps\<close>: following \<open>next\<close> from \<open>idx\<close> visits exactly the descriptors
  \<open>ps\<close> (with their indices), each inside the table and pointing into guest RAM, and the
  last one has no \<open>NEXT\<close> flag.
\<close>

inductive desc_chain ::
  "cbuf \<Rightarrow> nat \<Rightarrow> u32 \<Rightarrow> u16 \<Rightarrow> (u16 \<times> vring_desc) list \<Rightarrow> bool"
  for m :: cbuf and dt :: nat and num :: u32 where
  chain_last: "ucast idx < num \<Longrightarrow> read_desc m (dt + 16 * unat idx) = Inr d \<Longrightarrow>
     gpa2hva m (d_addr d) (ucast (d_len d)) \<noteq> None \<Longrightarrow> d_flags d AND VRING_DESC_F_NEXT = 0 \<Longrightarrow>
     desc_chain m dt num idx [(idx, d)]"
| chain_next: "ucast idx < num \<Longrightarrow> read_desc m (dt + 16 * unat idx) = Inr d \<Longrightarrow>
     gpa2hva m (d_addr d) (ucast (d_len d)) \<noteq> None \<Longrightarrow> d_flags d AND VRING_DESC_F_NEXT \<noteq> 0 \<Longrightarrow>
     desc_chain m dt num (d_next d) ps \<Longrightarrow> desc_chain m dt num idx ((idx, d) # ps)"

inductive_simps desc_chain_simps: "desc_chain m dt num idx ps"

lemma desc_chain_nonempty: "desc_chain m dt num idx ps \<Longrightarrow> ps \<noteq> []"
  by (induction rule: desc_chain.induct) auto

lemma desc_chain_indices: "desc_chain m dt num idx ps \<Longrightarrow> \<forall>x \<in> fst ` set ps. unat x < unat num"
  by (induction rule: desc_chain.induct) (auto simp: word_less_nat_alt)

lemma gpa2hva_is: "gpa2hva m a l = Some p \<Longrightarrow> p = unat a"
  by (auto simp: gpa2hva_def split: if_splits)

lemma gather_loop_iff:
  assumes tab: "dt + 16 * unat num \<le> bsize m" and nmax: "num \<noteq> 0xffffffff"
  shows "unat num + 2 \<le> fuel + unat guard \<Longrightarrow> unat guard \<le> unat num + 1 \<Longrightarrow>
    length segs \<le> VQ_MAX_SEGS \<Longrightarrow>
    (\<exists>r. gather_loop fuel m dt num idx guard segs = Inr r \<and>
     (\<forall>out. r = Some out \<longleftrightarrow>
       (\<exists>ps. desc_chain m dt num idx ps \<and> unat guard + length ps \<le> unat num + 1 \<and>
             out = take VQ_MAX_SEGS (segs @ map (seg_of \<circ> snd) ps))))"
proof (induction fuel arbitrary: idx guard segs)
  case 0
  then show ?case by simp
next
  case (Suc fuel)
  let ?ok = "\<lambda>out. \<exists>ps. desc_chain m dt num idx ps \<and> unat guard + length ps \<le> unat num + 1 \<and>
             out = take VQ_MAX_SEGS (segs @ map (seg_of \<circ> snd) ps)"
  show ?case
  proof (cases "ucast idx < num \<and> guard \<le> num")
    case False
    have "\<not> ?ok out" for out
    proof
      assume "?ok out"
      then obtain ps where c: "desc_chain m dt num idx ps" "unat guard + length ps \<le> unat num + 1"
        by blast
      have "ucast idx < num" using c(1) by cases auto
      then show False using False c(2) desc_chain_nonempty [OF c(1)]
        by (cases ps) (auto simp: word_le_nat_alt)
    qed
    moreover have "gather_loop (Suc fuel) m dt num idx guard segs = Inr None"
      using False by auto
    ultimately show ?thesis by blast
  next
    case True
    then have g: "ucast idx < num" "unat guard \<le> unat num"
      and step: "gather_loop (Suc fuel) m dt num idx guard segs =
        rbind (read_desc m (dt + 16 * unat idx)) (\<lambda>d.
        case gpa2hva m (d_addr d) (ucast (d_len d)) of
          None \<Rightarrow> Inr None
        | Some p \<Rightarrow>
            let segs1 = (if length segs < VQ_MAX_SEGS
                         then segs @ [\<lparr>hva = p, slen = d_len d,
                                       writable = (d_flags d AND VRING_DESC_F_WRITE \<noteq> 0)\<rparr>]
                         else segs)
            in if d_flags d AND VRING_DESC_F_NEXT = 0 then Inr (Some segs1)
               else gather_loop fuel m dt num (d_next d) (guard + 1) segs1)"
      by (auto simp: word_le_nat_alt word_less_nat_alt)
    obtain d where d: "read_desc m (dt + 16 * unat idx) = Inr d"
      using read_desc_in_table [OF tab g(1)] .
    show ?thesis
    proof (cases "gpa2hva m (d_addr d) (ucast (d_len d))")
      case None
      have "\<not> desc_chain m dt num idx ps" for ps
        using d None by (subst desc_chain_simps) auto
      then show ?thesis using step d None by simp
    next
      case (Some p)
      define segs1 where "segs1 = (if length segs < VQ_MAX_SEGS then segs @ [seg_of d] else segs)"
      have t1: "take VQ_MAX_SEGS (segs1 @ xs) = take VQ_MAX_SEGS (segs @ seg_of d # xs)" for xs
        using Suc.prems(3) by (auto simp: segs1_def take_Cons')
      have l1: "length segs1 \<le> VQ_MAX_SEGS" using Suc.prems(3) by (auto simp: segs1_def)
      have st: "gather_loop (Suc fuel) m dt num idx guard segs =
          (if d_flags d AND VRING_DESC_F_NEXT = 0 then Inr (Some segs1)
           else gather_loop fuel m dt num (d_next d) (guard + 1) segs1)"
        using step d Some gpa2hva_is [OF Some] by (simp add: segs1_def seg_of_def)
      show ?thesis
      proof (cases "d_flags d AND VRING_DESC_F_NEXT = 0")
        case True
        have "desc_chain m dt num idx ps \<longleftrightarrow> ps = [(idx, d)]" for ps
          using d Some True g(1) by (subst desc_chain_simps) auto
        then show ?thesis using st True g(2) t1 [of "[]"] l1 by auto
      next
        case False
        have ch: "desc_chain m dt num idx ps \<longleftrightarrow>
            (\<exists>qs. ps = (idx, d) # qs \<and> desc_chain m dt num (d_next d) qs)" for ps
          using d Some False g(1) by (subst desc_chain_simps) auto
        have "unat num < 4294967295"
          using nmax unsigned_less [where 'a = nat, of num] word_unat_eq_iff [of num "0xffffffff"] by simp
        then have gs: "unat (guard + 1) = unat guard + 1"
          using g(2) unat_plus_if' [of guard 1] by simp
        have p: "unat num + 2 \<le> fuel + unat (guard + 1)" "unat (guard + 1) \<le> unat num + 1"
          using Suc.prems(1) g(2) gs by simp_all
        obtain r where r: "gather_loop fuel m dt num (d_next d) (guard + 1) segs1 = Inr r"
          "\<And>out. r = Some out \<longleftrightarrow> (\<exists>ps. desc_chain m dt num (d_next d) ps \<and>
             unat (guard + 1) + length ps \<le> unat num + 1 \<and>
             out = take VQ_MAX_SEGS (segs1 @ map (seg_of \<circ> snd) ps))"
          using Suc.IH [OF p l1, of "d_next d"] by blast
        have "r = Some out \<longleftrightarrow> ?ok out" for out
          unfolding r(2) ch gs t1 by auto
        moreover have "gather_loop (Suc fuel) m dt num idx guard segs = Inr r"
          unfolding st r(1) using False by (simp only: if_False)
        ultimately show ?thesis by blast
      qed
    qed
  qed
qed

lemma gather_chain_iff:
  assumes "mem_wf m" "vq_num q \<noteq> 0xffffffff"
  shows "\<exists>r. gather_chain m q head = Inr r \<and>
    (\<forall>out. r = Some out \<longleftrightarrow>
      (\<exists>dt ps. gpa2hva m (vq_desc q) (16 * ucast (vq_num q)) = Some dt \<and>
        desc_chain m dt (vq_num q) head ps \<and> length ps \<le> unat (vq_num q) + 1 \<and>
        out = map (seg_of \<circ> snd) (take VQ_MAX_SEGS ps)))"
proof (cases "gpa2hva m (vq_desc q) (16 * ucast (vq_num q))")
  case None
  then show ?thesis by (simp add: gather_chain_def)
next
  case (Some dt)
  have tab: "dt + 16 * unat (vq_num q) \<le> bsize m"
    using table_in_memory [OF assms(1), of "vq_desc q" 16 "vq_num q" dt] Some by simp
  show ?thesis
    using gather_loop_iff [OF tab assms(2), of "unat (vq_num q) + 2" 0 "[]" head] Some
    by (simp add: gather_chain_def take_map)
qed

text \<open>C8. A descriptor chain that visits no descriptor twice, inside a table in guest RAM, is
  always gathered: the result is its first 64 descriptors in order; \<open>gather_chain\<close> neither
  leaves guest RAM nor loops on it, whatever its length.\<close>

theorem gather_acyclic_chain:
  assumes wf: "mem_wf m" and num: "vq_num q \<noteq> 0xffffffff"
    and tab: "gpa2hva m (vq_desc q) (16 * ucast (vq_num q)) = Some dt"
    and ch: "desc_chain m dt (vq_num q) head ps" and dist: "distinct (map fst ps)"
  shows "gather_chain m q head = Inr (Some (map (seg_of \<circ> snd) (take VQ_MAX_SEGS ps)))"
proof -
  have "unat ` fst ` set ps \<subseteq> {..<unat (vq_num q)}"
    using desc_chain_indices [OF ch] by auto
  then have "card (unat ` fst ` set ps) \<le> unat (vq_num q)"
    using card_mono [of "{..<unat (vq_num q)}"] by simp
  moreover have inj: "inj_on unat (fst ` set ps)"
    by (simp add: inj_on_def word_unat_eq_iff)
  have "card (unat ` fst ` set ps) = length ps"
    using distinct_card [OF dist] card_image [OF inj] by simp
  ultimately have "length ps \<le> unat (vq_num q) + 1" by simp
  then show ?thesis using gather_chain_iff [OF wf num, of head] tab ch by auto
qed

lemma desc_chain_in_memory:
  assumes "mem_wf m"
  shows "desc_chain m dt num idx ps \<Longrightarrow>
     \<forall>s \<in> set (map (seg_of \<circ> snd) ps). hva s + unat (slen s) \<le> bsize m"
proof (induction rule: desc_chain.induct)
  case (chain_last idx d)
  then show ?case
    using gpa2hva_Some [OF assms, of "d_addr d" "ucast (d_len d)"] by (auto simp: seg_of_def)
next
  case (chain_next idx d ps)
  then show ?case
    using gpa2hva_Some [OF assms, of "d_addr d" "ucast (d_len d)"] by (auto simp: seg_of_def)
qed

definition segs_ok :: "cbuf \<Rightarrow> seg list \<Rightarrow> bool" where
  "segs_ok m segs \<longleftrightarrow>
     segs \<noteq> [] \<and> length segs \<le> VQ_MAX_SEGS \<and>
     (\<forall>s \<in> set segs. hva s + unat (slen s) \<le> bsize m)"

lemma gather_chain_segs_ok:
  assumes "mem_wf m" "vq_num q \<noteq> 0xffffffff" "gather_chain m q head = Inr (Some segs)"
  shows "segs_ok m segs"
proof -
  obtain dt ps where c: "desc_chain m dt (vq_num q) head ps"
    "segs = map (seg_of \<circ> snd) (take VQ_MAX_SEGS ps)"
    using gather_chain_iff [OF assms(1,2), of head] assms(3) by (metis Inr_inject)
  show ?thesis
    using desc_chain_in_memory [OF assms(1) c(1)] desc_chain_nonempty [OF c(1)] c(2)
    by (auto simp: segs_ok_def dest: in_set_takeD)
qed

section \<open>Chain contents\<close>

definition seg_bytes :: "cbuf \<Rightarrow> seg \<Rightarrow> u8 list" where
  "seg_bytes m s = map (\<lambda>i. bdata m (hva s + i)) [0..<unat (slen s)]"

lemma length_seg_bytes [simp]: "length (seg_bytes m s) = unat (slen s)"
  by (simp add: seg_bytes_def)

lemma buf_read_seg:
  assumes "hva s + unat (slen s) \<le> bsize m" "off + n \<le> unat (slen s)"
  shows "buf_read m (hva s + off) n = Inr (take n (drop off (seg_bytes m s)))"
  using assms by (auto simp: buf_read_def seg_bytes_def add.assoc intro!: nth_equalityI)

lemma chain_read_concat:
  assumes "\<forall>s \<in> set segs. hva s + unat (slen s) \<le> bsize m"
  shows "chain_read m segs off n = Inr (take n (drop off (concat (map (seg_bytes m) segs))))"
  using assms
proof (induction segs arbitrary: off n)
  case Nil
  then show ?case by simp
next
  case (Cons s ss)
  let ?tk = "min (unat (slen s) - off) n"
  show ?case
  proof (cases "off \<ge> unat (slen s)")
    case True
    then show ?thesis using Cons by simp
  next
    case False
    then have "buf_read m (hva s + off) ?tk = Inr (take ?tk (drop off (seg_bytes m s)))"
      using Cons.prems by (intro buf_read_seg) auto
    with False Cons show ?thesis by (auto simp: min_def)
  qed
qed


section \<open>Publishing used elements\<close>

lemma used_ring_base:
  assumes wf: "mem_wf m" and p: "gpa2hva m (vq_used q + 2) 2 = Some p"
    and r: "gpa2hva m (vq_used q + 4) (8 * ucast (vq_num q)) = Some rg"
  shows "rg = p + 2" "p + 2 \<le> bsize m" "rg + 8 * unat (vq_num q) \<le> bsize m"
proof -
  have p1: "p = unat (vq_used q + 2)" "unat (vq_used q + 2) + 2 \<le> bsize m"
    using p gpa2hva_Some [OF wf] by auto
  have "bsize m < 18446744073709551616" using wf by (simp add: mem_wf_def)
  then have "unat ((vq_used q + 2) + 2) = p + 2"
    using p1 unat_plus_if' [of "vq_used q + 2" 2] by simp
  then show "rg = p + 2" using gpa2hva_is [OF r] by (simp add: add.assoc)
  show "p + 2 \<le> bsize m" using p1 by simp
  show "rg + 8 * unat (vq_num q) \<le> bsize m"
    using table_in_memory [OF wf, of "vq_used q + 4" 8 "vq_num q" rg] r by simp
qed

definition used_elem :: "cbuf \<Rightarrow> vq \<Rightarrow> nat \<Rightarrow> u16 \<Rightarrow> (u32 \<times> u32) res" where
  "used_elem m q rg u =
     (let e = rg + 8 * unat (ucast u mod vq_num q) in
      rbind (ld32 m e) (\<lambda>i. rbind (ld32 m (e + 4)) (\<lambda>l. Inr (i, l))))"

lemma used_slot_less:
  assumes "(num :: u32) \<noteq> 0"
  shows "unat (ucast (u :: u16) mod num) < unat num"
    "unat (ucast u mod num) = unat u mod unat num"
  using assms by (auto simp: unat_mod_distrib word_unat_eq_iff intro: mod_less_divisor)

lemma push_used_effect:
  assumes wf: "mem_wf m" and num: "vq_num q \<noteq> 0"
    and p: "gpa2hva m (vq_used q + 2) 2 = Some p"
    and r: "gpa2hva m (vq_used q + 4) (8 * ucast (vq_num q)) = Some rg"
    and u: "ld16 m p = Inr u"
  obtains m' where "push_used m q head len = Inr m'" "bsize m' = bsize m"
    "ld16 m' p = Inr (u + 1)" "used_elem m' q rg u = Inr (ucast head, len)"
    "\<And>a. a < p \<or> p + 2 \<le> a \<Longrightarrow>
       a < rg + 8 * unat (ucast u mod vq_num q) \<or> rg + 8 * unat (ucast u mod vq_num q) + 8 \<le> a \<Longrightarrow>
       bdata m' a = bdata m a"
proof -
  note b = used_ring_base [OF wf p r]
  define e where "e = rg + 8 * unat (ucast u mod vq_num q)"
  have e: "p + 2 \<le> e" "e + 8 \<le> bsize m"
    using used_slot_less(1) [OF num, of u] b by (auto simp: e_def)
  obtain m1 where m1: "st32 m e (ucast head) = Inr m1"
    using st32_Inr [of e m "ucast head"] e by auto
  note f1 = st32_frame [OF m1]
  obtain m2 where m2: "st32 m1 (e + 4) len = Inr m2"
    using st32_Inr [of "e + 4" m1 len] e f1 by auto
  note f2 = st32_frame [OF m2]
  obtain m3 where m3: "st16 m2 p (u + 1) = Inr m3"
    using st16_Inr [of p m2 "u + 1"] e f1 f2 by auto
  note f3 = st16_frame [OF m3]
  have "ld32 m3 e = ld32 m1 e"
    by (intro ld32_cong) (use f2 f3 e in auto)
  moreover have "ld32 m3 (e + 4) = ld32 m2 (e + 4)"
    by (intro ld32_cong) (use f3 e in auto)
  ultimately have el: "used_elem m3 q rg u = Inr (ucast head, len)"
    using ld_st32 [OF m1] ld_st32 [OF m2] by (simp add: used_elem_def e_def [symmetric])
  show thesis
  proof (rule that)
    show "push_used m q head len = Inr m3"
      using p r u num m1 m2 m3 by (simp add: push_used_def e_def)
    show "bsize m3 = bsize m" using f1 f2 f3 by simp
    show "ld16 m3 p = Inr (u + 1)" by (rule ld_st16 [OF m3])
    show "used_elem m3 q rg u = Inr (ucast head, len)" by (rule el)
    show "bdata m3 a = bdata m a" if "a < p \<or> p + 2 \<le> a"
      "a < rg + 8 * unat (ucast u mod vq_num q) \<or> rg + 8 * unat (ucast u mod vq_num q) + 8 \<le> a" for a
      using that f1 f2 f3 e by (auto simp: e_def)
  qed
qed

lemma push_used_total:
  assumes "mem_wf m" "vq_num q \<noteq> 0"
  obtains m' where "push_used m q head len = Inr m'" "bsize m' = bsize m"
proof (cases "gpa2hva m (vq_used q + 2) 2")
  case None
  then show thesis using that [of m] by (simp add: push_used_def)
next
  case (Some p)
  show thesis
  proof (cases "gpa2hva m (vq_used q + 4) (8 * ucast (vq_num q))")
    case None
    then show thesis using that [of m] by (simp add: push_used_def split: option.splits)
  next
    case (Some rg)
    have "p + 2 \<le> bsize m"
      by (rule used_ring_base(2) [OF assms(1) \<open>gpa2hva m (vq_used q + 2) 2 = Some p\<close> Some])
    then obtain u where "ld16 m p = Inr u" using ld16_Inr_iff [of m p] by auto
    from push_used_effect [OF assms \<open>gpa2hva m (vq_used q + 2) 2 = Some p\<close> Some this]
    show thesis using that by blast
  qed
qed

fun push_all :: "cbuf \<Rightarrow> vq \<Rightarrow> (u16 \<times> u32) list \<Rightarrow> cbuf res" where
  "push_all m q [] = Inr m"
| "push_all m q ((h, l) # xs) = rbind (push_used m q h l) (\<lambda>m1. push_all m1 q xs)"

lemma used_elem_frame:
  assumes "bsize m' = bsize m" "vq_num q \<noteq> 0" "p + 2 = rg"
    and fr: "\<And>a. a < p \<or> p + 2 \<le> a \<Longrightarrow>
       a < rg + 8 * unat (ucast u mod vq_num q) \<or> rg + 8 * unat (ucast u mod vq_num q) + 8 \<le> a \<Longrightarrow>
       bdata m' a = bdata m a"
    and ne: "unat (ucast v mod vq_num q) \<noteq> unat (ucast (u :: u16) mod vq_num q)"
  shows "used_elem m' q rg v = used_elem m q rg v"
proof -
  define i j where "i = unat (ucast v mod vq_num q)" and "j = unat (ucast u mod vq_num q)"
  have fr': "bdata m' a = bdata m a" if "rg + 8 * i \<le> a" "a < rg + 8 * i + 8" for a
  proof (rule fr)
    show "a < p \<or> p + 2 \<le> a" using that assms(3) by simp
    have "i < j \<or> j < i" using ne by (auto simp: i_def j_def)
    then show "a < rg + 8 * unat (ucast u mod vq_num q) \<or> rg + 8 * unat (ucast u mod vq_num q) + 8 \<le> a"
      using that unfolding j_def [symmetric] by linarith
  qed
  have "ld32 m' (rg + 8 * i) = ld32 m (rg + 8 * i)"
    by (intro ld32_cong) (use assms(1) fr' in auto)
  moreover have "ld32 m' (rg + 8 * i + 4) = ld32 m (rg + 8 * i + 4)"
    by (intro ld32_cong) (use assms(1) fr' in auto)
  ultimately show ?thesis by (simp add: used_elem_def i_def)
qed

lemma used_slots_distinct:
  assumes dv: "unat (num :: u32) dvd 65536" and ij: "i < j" "j < unat num"
  shows "unat (ucast (u + of_nat i :: u16) mod num) \<noteq> unat (ucast (u + of_nat j :: u16) mod num)"
proof -
  have n0: "num \<noteq> 0" using ij by auto
  have sl: "unat (ucast (u + of_nat k :: u16) mod num) = (unat u + k) mod unat num" for k
    using dv unfolding used_slot_less(2) [OF n0]
    by (simp add: unat_word_ariths unat_of_nat mod_mod_cancel mod_add_right_eq)
  show ?thesis
  proof
    assume "unat (ucast (u + of_nat i :: u16) mod num) = unat (ucast (u + of_nat j :: u16) mod num)"
    then have "unat num dvd (unat u + j) - (unat u + i)"
      unfolding sl by (metis mod_eq_dvd_iff_nat ij(1) add_le_cancel_left less_imp_le)
    with ij show False by (auto dest: dvd_imp_le)
  qed
qed

lemma push_all_append:
  "push_all m q (xs @ ys) = rbind (push_all m q xs) (\<lambda>m1. push_all m1 q ys)"
proof (induction xs arbitrary: m)
  case Nil
  then show ?case by simp
next
  case (Cons x xs)
  then show ?case by (cases x, cases "push_used m q (fst x) (snd x)") auto
qed

lemma push_all_snoc:
  "push_all m q (xs @ [x]) = rbind (push_all m q xs) (\<lambda>m1. push_used m1 q (fst x) (snd x))"
proof -
  have "rbind r Inr = r" for r :: "cbuf res" by (cases r) auto
  then show ?thesis by (cases x) (simp add: push_all_append)
qed

text \<open>C8. Publishing: after any sequence of at most \<open>num\<close> pushes into a used ring whose size divides
  65536, every element of the sequence is readable in the slot of its index, in order, and the
  index in guest memory has advanced by their number modulo 65536.\<close>

theorem used_ring_in_order:
  assumes wf: "mem_wf m" and num: "vq_num q \<noteq> 0" and dv: "unat (vq_num q) dvd 65536"
    and p: "gpa2hva m (vq_used q + 2) 2 = Some p"
    and r: "gpa2hva m (vq_used q + 4) (8 * ucast (vq_num q)) = Some rg"
    and u: "ld16 m p = Inr u"
  shows "length xs \<le> unat (vq_num q) \<Longrightarrow>
    \<exists>m'. push_all m q xs = Inr m' \<and> bsize m' = bsize m \<and>
      ld16 m' p = Inr (u + of_nat (length xs)) \<and>
      (\<forall>i < length xs. used_elem m' q rg (u + of_nat i) =
         Inr (ucast (fst (xs ! i)), snd (xs ! i)))"
proof (induction xs rule: rev_induct)
  case Nil
  then show ?case using u by simp
next
  case (snoc x xs)
  then obtain m1 where m1: "push_all m q xs = Inr m1" "bsize m1 = bsize m"
    "ld16 m1 p = Inr (u + of_nat (length xs))"
    "\<And>i. i < length xs \<Longrightarrow> used_elem m1 q rg (u + of_nat i) = Inr (ucast (fst (xs ! i)), snd (xs ! i))"
    by auto
  have pr: "mem_wf m1" "gpa2hva m1 (vq_used q + 2) 2 = Some p"
    "gpa2hva m1 (vq_used q + 4) (8 * ucast (vq_num q)) = Some rg"
    using wf p r gpa2hva_size [OF m1(2)] m1(2) by (simp_all add: mem_wf_def)
  obtain m2 where m2: "push_used m1 q (fst x) (snd x) = Inr m2" "bsize m2 = bsize m1"
    "ld16 m2 p = Inr (u + of_nat (length xs) + 1)"
    "used_elem m2 q rg (u + of_nat (length xs)) = Inr (ucast (fst x), snd x)"
    "\<And>a. a < p \<or> p + 2 \<le> a \<Longrightarrow>
       a < rg + 8 * unat (ucast (u + of_nat (length xs)) mod vq_num q) \<or>
       rg + 8 * unat (ucast (u + of_nat (length xs)) mod vq_num q) + 8 \<le> a \<Longrightarrow>
       bdata m2 a = bdata m1 a"
    using push_used_effect [OF pr(1) num pr(2,3) m1(3), of "fst x" "snd x"] by blast
  have old: "used_elem m2 q rg (u + of_nat i) = used_elem m1 q rg (u + of_nat i)"
    if "i < length xs" for i
    using used_elem_frame [OF m2(2) num _ m2(5), where v = "u + of_nat i" and rg = rg and p = p]
      used_slots_distinct [OF dv that, of u] used_ring_base(1) [OF wf p r] snoc.prems by auto
  have all: "push_all m q (xs @ [x]) = Inr m2"
    using m1(1) m2(1) push_all_snoc [of m q xs x] by simp
  show ?case
    using all m1 m2 old by (auto simp: nth_append less_Suc_eq add.assoc)
qed

section \<open>The console queue is a bounded FIFO\<close>

definition con_list :: "con_in \<Rightarrow> u8 list" where
  "con_list c = map (\<lambda>i. cbuffer c ((ctail c + of_nat i) mod CON_IN_SZ)) [0..<unat (con_in_count c)]"

lemma mod_8192_take_bit: "(w :: u32) mod 8192 = take_bit 13 w"
  by (simp add: take_bit_eq_mod)

lemma con_slot_free:
  fixes t h :: u32
  assumes "i < unat (h - t)" "unat (h - t) < 8192"
  shows "(t + of_nat i) mod 8192 \<noteq> h mod 8192"
proof
  assume "(t + of_nat i) mod 8192 = h mod 8192"
  then have "take_bit 13 (t + of_nat i) = take_bit 13 (t + of_nat (unat (h - t)))"
    by (simp add: mod_8192_take_bit)
  then have "i = unat (h - t)"
    using assms by (intro ring_slots_distinct [of i 13 "unat (h - t)" t]) auto
  with assms(1) show False by simp
qed

lemma con_push_list:
  assumes "length (con_list c) < 8192"
  shows "con_list (con_in_push1 b c) = con_list c @ [b]"
proof -
  have n: "unat (chead c - ctail c) < 8192"
    using assms by (simp add: con_list_def con_in_count_def)
  have n1: "unat (con_in_count (con_in_push1 b c)) = Suc (unat (chead c - ctail c))"
    using n by (simp add: con_in_count_def con_in_push1_def diff_add_eq [symmetric] unat_word_ariths)
  have h: "ctail c + of_nat (unat (chead c - ctail c)) = chead c" by simp
  show ?thesis
    unfolding con_list_def n1
    using con_slot_free [of _ "chead c" "ctail c"] n h
    by (auto simp: con_in_push1_def con_in_count_def)
qed

definition con_pop :: "con_in \<Rightarrow> u8 \<times> con_in" where
  "con_pop c = (case con_in_pop c of None \<Rightarrow> (0, c) | Some r \<Rightarrow> r)"

lemma con_pop_list:
  assumes "con_list c = x # xs"
  shows "con_in_pop c = Some (x, c\<lparr>ctail := ctail c + 1\<rparr>)" "con_list (c\<lparr>ctail := ctail c + 1\<rparr>) = xs"
proof -
  let ?c1 = "c\<lparr>ctail := ctail c + 1\<rparr>"
  have len: "unat (con_in_count c) = Suc (length xs)"
    using arg_cong [OF assms, of length] by (simp add: con_list_def)
  then have nz: "con_in_count c \<noteq> 0" by auto
  have "con_in_count ?c1 = con_in_count c - 1" by (simp add: con_in_count_def)
  then have n1: "unat (con_in_count ?c1) = length xs"
    using len nz by (simp add: unat_minus_one)
  have eq: "con_list c = cbuffer c (ctail c mod 8192) # con_list ?c1"
    unfolding con_list_def n1 len
    by (simp add: upt_conv_Cons map_Suc_upt [symmetric] add.assoc del: upt_Suc)
  have "ctail c \<noteq> chead c" using nz by (auto simp: con_in_count_def)
  with eq assms show "con_in_pop c = Some (x, ?c1)" "con_list ?c1 = xs"
    by (auto simp: con_in_pop_def)
qed

interpretation echo: fifo con_in_push1 con_pop con_list "\<lambda>c :: con_in. True" 8192
  by unfold_locales (auto simp: con_push_list con_pop_list con_pop_def)

section \<open>A concrete queue\<close>

definition ex_mem :: cbuf where
  "ex_mem = \<lparr>bsize = 128, bdata = (\<lambda>a.
     if a = 8 then 16 else if a = 12 then 1 else if a = 14 then 1
     else if a = 16 then 32 else if a = 24 then 8 else if a = 28 then 2 else 0)\<rparr>"

definition ex_vq :: vq where
  "ex_vq = \<lparr>vq_num = 2, vq_desc = 0, vq_avail = 64, vq_used = 96, vq_ready = 1, vq_last = 0\<rparr>"

definition ex_d0 :: vring_desc where
  "ex_d0 = \<lparr>d_addr = 0, d_len = 16, d_flags = 1, d_next = 1\<rparr>"

definition ex_d1 :: vring_desc where
  "ex_d1 = \<lparr>d_addr = 32, d_len = 8, d_flags = 2, d_next = 0\<rparr>"

lemma ex_descs:
  "read_desc ex_mem 0 = Inr ex_d0" "read_desc ex_mem 16 = Inr ex_d1"
  by code_simp+

lemma ex_wf: "mem_wf ex_mem" "vq_num ex_vq = 2" "vq_num ex_vq \<noteq> 0xffffffff" "vq_num ex_vq \<noteq> 0"
  by (simp_all add: mem_wf_def ex_mem_def ex_vq_def)

lemma ex_table: "gpa2hva ex_mem (vq_desc ex_vq) (16 * ucast (vq_num ex_vq)) = Some 0"
  "gpa2hva ex_mem (vq_used ex_vq + 2) 2 = Some 98"
  "gpa2hva ex_mem (vq_used ex_vq + 4) (8 * ucast (vq_num ex_vq)) = Some 100"
  by code_simp+

lemma ex_chain: "desc_chain ex_mem 0 (vq_num ex_vq) 0 [(0, ex_d0), (1, ex_d1)]"
proof (rule chain_next)
  show "desc_chain ex_mem 0 (vq_num ex_vq) (d_next ex_d0) [(1, ex_d1)]"
    unfolding ex_wf by (simp add: ex_d0_def, rule chain_last)
      (simp_all add: ex_descs, (simp add: gpa2hva_def ex_mem_def ex_d1_def)+)
qed (simp_all add: ex_descs ex_wf, (simp add: gpa2hva_def ex_mem_def ex_d0_def)+)

theorem gather_acyclic_chain_witness:
  "gather_chain ex_mem ex_vq 0 = Inr (Some [\<lparr>hva = 0, slen = 16, writable = False\<rparr>,
     \<lparr>hva = 32, slen = 8, writable = True\<rparr>])"
  using gather_acyclic_chain [OF ex_wf(1,3) ex_table(1) ex_chain]
  by (simp add: seg_of_def ex_d0_def ex_d1_def)

lemma ex_used_idx: "ld16 ex_mem 98 = Inr 0"
  by code_simp

theorem used_ring_in_order_witness:
  "\<exists>m'. push_all ex_mem ex_vq [(1, 8), (0, 24)] = Inr m' \<and> ld16 m' 98 = Inr 2 \<and>
     used_elem m' ex_vq 100 0 = Inr (1, 8) \<and> used_elem m' ex_vq 100 1 = Inr (0, 24)"
proof -
  let ?xs = "[(1, 8), (0, 24)] :: (u16 \<times> u32) list"
  have "unat (vq_num ex_vq) dvd 65536" "length ?xs \<le> unat (vq_num ex_vq)"
    by (simp_all add: ex_wf)
  from used_ring_in_order [OF ex_wf(1,4) this(1) ex_table(2,3) ex_used_idx this(2)]
  obtain m' where m': "push_all ex_mem ex_vq ?xs = Inr m'" "ld16 m' 98 = Inr (0 + of_nat (length ?xs))"
    "\<And>i. i < length ?xs \<Longrightarrow>
       used_elem m' ex_vq 100 (0 + of_nat i) = Inr (ucast (fst (?xs ! i)), snd (?xs ! i))"
    by blast
  then show ?thesis using m'(3) [of 0] m'(3) [of 1] by (intro exI [of _ m']) (simp del: push_all.simps)
qed

text \<open>C10. The loop guard is a 32-bit counter tested with \<open>guard > num\<close>: a queue of size
  \<open>0xffffffff\<close> and a descriptor that names itself as its successor keep \<open>gather_chain\<close> in its
  loop for ever (no number of iterations ends it).\<close>

theorem gather_guard_saturates:
  assumes d: "read_desc m (dt + 16 * unat idx) = Inr d"
    and n: "d_flags d AND VRING_DESC_F_NEXT \<noteq> 0" "d_next d = idx"
    and a: "gpa2hva m (d_addr d) (ucast (d_len d)) \<noteq> None"
  shows "gather_loop fuel m dt 0xffffffff idx guard segs = Inl Diverges"
proof (induction fuel arbitrary: guard segs)
  case 0
  then show ?case by simp
next
  case (Suc fuel)
  have "unat idx < 65536" using unsigned_less [where 'a = nat, of idx] by simp
  moreover have "unat guard \<le> 4294967295" using unsigned_less [where 'a = nat, of guard] by simp
  ultimately show ?case
    using d n a Suc.IH by (auto simp: word_le_nat_alt word_less_nat_alt)
qed

definition ex_loop_mem :: cbuf where
  "ex_loop_mem = \<lparr>bsize = 0x1000000000, bdata = (\<lambda>a. if a = 12 then 1 else 0)\<rparr>"

theorem gather_guard_saturates_witness:
  "gather_loop 0x100000001 ex_loop_mem 0 0xffffffff 0 0 [] = Inl Diverges"
proof -
  have "read_desc ex_loop_mem (0 + 16 * unat (0 :: u16)) = Inr \<lparr>d_addr = 0, d_len = 0, d_flags = 1, d_next = 0\<rparr>"
    by (simp add: read_desc_def ld64_def ld32_def ld16_def buf_read_def ex_loop_mem_def upt_rec)
  then show ?thesis
    by (rule gather_guard_saturates) (simp_all add: gpa2hva_def)
qed

text \<open>The echo queue returns what was pushed, in order, as long as at most 8192 bytes are
  waiting.\<close>

theorem echo_in_order:
  assumes "con_list c = []" "length bs \<le> 8192"
  shows "fst (pops con_pop (length bs) (con_in_push bs c)) = bs"
  unfolding con_in_push_def by (rule echo.in_order [OF TrueI assms])

theorem echo_in_order_witness:
  "fst (pops con_pop 2 (con_in_push [65, 66] \<lparr>cbuffer = (\<lambda>_. 0), chead = 7, ctail = 7\<rparr>)) = [65, 66]"
  using echo_in_order [of "\<lparr>cbuffer = (\<lambda>_. 0), chead = 7, ctail = 7\<rparr>" "[65, 66]"]
  by (simp add: con_list_def con_in_count_def numeral_2_eq_2)

text \<open>Nothing stops a longer transmit: pushing 8193 bytes into an empty queue overwrites
  the oldest one, and the first byte echoed is the last byte sent.\<close>

theorem echo_overflow:
  assumes "con_list c = []" "length bs = 8192"
  shows "fst (con_pop (con_in_push (bs @ [b]) c)) = b"
proof -
  let ?c = "con_in_push bs c"
  have l: "con_list ?c = bs"
    using echo.pushes_contents [OF TrueI, of c bs] assms by (simp add: con_in_push_def)
  have "unat (chead ?c - ctail ?c) = 8192"
    using arg_cong [OF l, of length] assms(2) by (simp add: con_list_def con_in_count_def)
  then have "chead ?c - ctail ?c = 8192"
    by (simp add: word_unat_eq_iff)
  then have h: "chead ?c = ctail ?c + 8192" by (simp add: algebra_simps)
  have "(ctail ?c + 8192) mod 8192 = ctail ?c mod 8192"
    unfolding mod_8192_take_bit
    using take_bit_plus_left_cancel [of 13 "ctail ?c" 8192 0] by simp
  with h show ?thesis
    by (simp add: con_in_push_def [of "_ @ _"] con_in_push_def [symmetric] con_in_push1_def
        con_pop_def con_in_pop_def)
qed

theorem echo_overflow_witness:
  "fst (con_pop (con_in_push (replicate 8192 65 @ [66]) \<lparr>cbuffer = (\<lambda>_. 0), chead = 0, ctail = 0\<rparr>)) = 66"
  using echo_overflow [of "\<lparr>cbuffer = (\<lambda>_. 0), chead = 0, ctail = 0\<rparr>" "replicate 8192 65" 66]
  by (simp add: con_list_def con_in_count_def)

end
