(* ===== verification/VirtioDev.thy ===== *)
theory VirtioDev
  imports Virtqueue
begin

text \<open>
  The two virtio back ends of \<open>minivmm.c\<close> and the loop that serves a queue.  A handler takes
  the device and the rest of the monitor (guest RAM, the echo queue, standard output, the disk
  image, interrupt calls) and returns the number of bytes it wrote with both updated.  The
  operations on the open disk image are a record of functions: they belong to the operating
  system, and what is assumed of them is the locale \<open>disk_image\<close>.
\<close>

section \<open>The disk image\<close>

record 'f file_ops =
  f_pread :: "'f \<Rightarrow> nat \<Rightarrow> u64 \<Rightarrow> u8 list option"
  f_pwrite :: "'f \<Rightarrow> u8 list \<Rightarrow> u64 \<Rightarrow> nat option \<times> 'f"
  f_sync :: "'f \<Rightarrow> 'f"

section \<open>Devices\<close>

record virtio_dev =
  vbase :: u64
  vgsi :: u32
  device_id :: u32
  status :: u32
  int_status :: u32
  dev_features :: u64
  drv_features :: u64
  dev_feat_sel :: u32
  drv_feat_sel :: u32
  queue_sel :: u32
  nqueues :: int
  vqs :: "vq list"
  config :: "u8 list"
  config_len :: nat

text \<open>
  \<open>hdr_stack\<close> is what the 16 bytes of the request header hold before they are filled (the C
  declares \<open>hdr\<close> without an initialiser).
\<close>

record 'f vsys =
  mem :: cbuf
  con :: con_in
  vtty :: "u8 list"
  disk :: 'f
  fops :: "'f file_ops"
  hdr_stack :: "u8 list"
  use_eventfd :: bool
  virq_calls :: "irq_call list"
  pulses :: "u32 list"

abbreviation (input) VMMIO_INT_VRING :: u32 where "VMMIO_INT_VRING \<equiv> 1"
abbreviation (input) VIRTIO_ID_BLK :: u32 where "VIRTIO_ID_BLK \<equiv> 2"
abbreviation (input) VIRTIO_ID_CONSOLE :: u32 where "VIRTIO_ID_CONSOLE \<equiv> 3"
abbreviation (input) VIRTIO_BLK_T_IN :: u32 where "VIRTIO_BLK_T_IN \<equiv> 0"
abbreviation (input) VIRTIO_BLK_T_OUT :: u32 where "VIRTIO_BLK_T_OUT \<equiv> 1"
abbreviation (input) VIRTIO_BLK_T_FLUSH :: u32 where "VIRTIO_BLK_T_FLUSH \<equiv> 4"
abbreviation (input) VIRTIO_BLK_S_OK :: u8 where "VIRTIO_BLK_S_OK \<equiv> 0"
abbreviation (input) VIRTIO_BLK_S_IOERR :: u8 where "VIRTIO_BLK_S_IOERR \<equiv> 1"
abbreviation (input) VIRTIO_BLK_S_UNSUPP :: u8 where "VIRTIO_BLK_S_UNSUPP \<equiv> 2"

definition virtio_raise_irq :: "virtio_dev \<Rightarrow> 'f vsys \<Rightarrow> virtio_dev \<times> 'f vsys" where
  "virtio_raise_irq d w =
     (let d1 = d\<lparr>int_status := int_status d OR VMMIO_INT_VRING\<rparr>
      in if use_eventfd w then (d1, w\<lparr>pulses := pulses w @ [vgsi d]\<rparr>)
         else (d1, w\<lparr>virq_calls := virq_calls w @ [(vgsi d, True)]\<rparr>))"

definition virtio_lower_irq :: "virtio_dev \<Rightarrow> 'f vsys \<Rightarrow> 'f vsys" where
  "virtio_lower_irq d w =
     (if use_eventfd w then w
      else if int_status d = 0 then w\<lparr>virq_calls := virq_calls w @ [(vgsi d, False)]\<rparr>
      else w)"

section \<open>Serving a queue\<close>

type_synonym 'f handler =
  "seg list \<Rightarrow> virtio_dev \<Rightarrow> 'f vsys \<Rightarrow> (u32 \<times> virtio_dev \<times> 'f vsys) res"

definition dev_can_consume :: "virtio_dev \<Rightarrow> int \<Rightarrow> 'f vsys \<Rightarrow> bool" where
  "dev_can_consume d qi w =
     (if device_id d = VIRTIO_ID_CONSOLE \<and> qi = 0 then con_in_count (con w) > 0 else True)"

definition bump_last :: "nat \<Rightarrow> virtio_dev \<Rightarrow> virtio_dev" where
  "bump_last i d = d\<lparr>vqs := (vqs d)[i := (vqs d ! i)\<lparr>vq_last := vq_last (vqs d ! i) + 1\<rparr>]\<rparr>"

text \<open>One turn of the loop: the head from the available ring, its chain, the handler, the used
  element, the cursor.  \<open>did\<close> records that some chain was completed.\<close>

definition svc_turn ::
  "'f handler \<Rightarrow> nat \<Rightarrow> nat \<Rightarrow> bool \<times> virtio_dev \<times> 'f vsys \<Rightarrow> (bool \<times> virtio_dev \<times> 'f vsys) res" where
  "svc_turn h i aring = (\<lambda>(did, d, w).
     let q = vqs d ! i in
     if vq_num q = 0 then Inl DivByZero
     else rbind (ld16 (mem w) (aring + 2 * unat (ucast (vq_last q) mod vq_num q))) (\<lambda>head.
       rbind (gather_chain (mem w) q head) (\<lambda>g.
         case g of
           None \<Rightarrow> Inr (did, bump_last i d, w)
         | Some segs \<Rightarrow>
             rbind (h segs d w) (\<lambda>(used_len, d1, w1).
               rbind (push_used (mem w1) (vqs d1 ! i) head used_len) (\<lambda>m.
                 Inr (True, bump_last i d1, w1\<lparr>mem := m\<rparr>))))))"

text \<open>The loop condition and the early \<open>break\<close>.\<close>

definition svc_stop :: "int \<Rightarrow> u16 \<Rightarrow> virtio_dev \<Rightarrow> 'f vsys \<Rightarrow> bool" where
  "svc_stop qi idx d w \<longleftrightarrow> vq_last (vqs d ! nat qi) = idx \<or> \<not> dev_can_consume d qi w"

fun svc_loop ::
  "nat \<Rightarrow> 'f handler \<Rightarrow> int \<Rightarrow> u16 \<Rightarrow> nat \<Rightarrow> bool \<times> virtio_dev \<times> 'f vsys \<Rightarrow>
   (bool \<times> virtio_dev \<times> 'f vsys) res" where
  "svc_loop 0 h qi idx aring (did, d, w) =
     (if svc_stop qi idx d w then Inr (did, d, w) else Inl Diverges)"
| "svc_loop (Suc fuel) h qi idx aring (did, d, w) =
     (if svc_stop qi idx d w then Inr (did, d, w)
      else rbind (svc_turn h (nat qi) aring (did, d, w)) (svc_loop fuel h qi idx aring))"

text \<open>
  \<open>service_with\<close> is the body of \<open>service_vq\<close> with the handler left open: the console's transmit
  handler calls \<open>service_vq(dev, 0)\<close>, whose handler is the receive one, so the recursion of the
  C functions is at most two deep.  The fuel is the number of entries to consume.
\<close>

definition service_with ::
  "'f handler \<Rightarrow> int \<Rightarrow> virtio_dev \<Rightarrow> 'f vsys \<Rightarrow> (virtio_dev \<times> 'f vsys) res" where
  "service_with h qi d w =
     (if qi < 0 \<or> qi \<ge> nqueues d then Inr (d, w)
      else let q = vqs d ! nat qi in
        if vq_ready q = 0 \<or> vq_num q = 0 then Inr (d, w)
        else case (gpa2hva (mem w) (vq_avail q + 2) 2,
                   gpa2hva (mem w) (vq_avail q + 4) (2 * ucast (vq_num q))) of
          (Some avail_idx, Some avail_ring) \<Rightarrow>
            rbind (ld16 (mem w) avail_idx) (\<lambda>idx.
            rbind (svc_loop (unat (idx - vq_last q)) h qi idx avail_ring (False, d, w))
              (\<lambda>(did, d1, w1). Inr (if did then virtio_raise_irq d1 w1 else (d1, w1))))
        | _ \<Rightarrow> Inr (d, w))"

section \<open>Console\<close>

fun con_fill ::
  "nat \<Rightarrow> nat \<Rightarrow> u32 \<Rightarrow> con_in \<Rightarrow> cbuf \<Rightarrow> (bool \<times> u32 \<times> con_in \<times> cbuf) res" where
  "con_fill p 0 written c m = Inr (False, written, c, m)"
| "con_fill p (Suc k) written c m =
     (case con_in_pop c of
        None \<Rightarrow> Inr (True, written, c, m)
      | Some (b, c1) \<Rightarrow>
          rbind (buf_write m p [b]) (\<lambda>m1. con_fill (p + 1) k (written + 1) c1 m1))"

fun con_rx :: "seg list \<Rightarrow> u32 \<Rightarrow> con_in \<Rightarrow> cbuf \<Rightarrow> (u32 \<times> con_in \<times> cbuf) res" where
  "con_rx [] written c m = Inr (written, c, m)"
| "con_rx (s # ss) written c m =
     rbind (con_fill (hva s) (unat (slen s)) written c m) (\<lambda>(stop, wr, c1, m1).
       if stop then Inr (wr, c1, m1) else con_rx ss wr c1 m1)"

definition console_receive :: "'f handler" where
  "console_receive segs d w =
     rbind (con_rx segs 0 (con w) (mem w)) (\<lambda>(written, c, m).
       Inr (written, d, w\<lparr>con := c, mem := m\<rparr>))"

fun con_tx :: "seg list \<Rightarrow> 'f vsys \<Rightarrow> ('f vsys) res" where
  "con_tx [] w = Inr w"
| "con_tx (s # ss) w =
     rbind (buf_read (mem w) (hva s) (unat (slen s))) (\<lambda>bs.
       con_tx ss (w\<lparr>vtty := vtty w @ bs, con := con_in_push bs (con w)\<rparr>))"

definition console_handle :: "int \<Rightarrow> 'f handler" where
  "console_handle qi segs d w =
     (if qi = 1 then
        rbind (con_tx segs w) (\<lambda>w1.
        rbind (service_with console_receive 0 d w1) (\<lambda>(d2, w2). Inr (0, d2, w2)))
      else console_receive segs d w)"

section \<open>Block device\<close>

fun blk_in ::
  "'f file_ops \<Rightarrow> 'f \<Rightarrow> seg list \<Rightarrow> u64 \<Rightarrow> u32 \<Rightarrow> cbuf \<Rightarrow> (bool \<times> u32 \<times> cbuf) res" where
  "blk_in fo f [] off tot m = Inr (False, tot, m)"
| "blk_in fo f (s # ss) off tot m =
     (case f_pread fo f (unat (slen s)) off of
        None \<Rightarrow> Inr (True, tot, m)
      | Some bs \<Rightarrow>
          rbind (buf_write m (hva s) bs) (\<lambda>m1.
            if length bs < unat (slen s) then Inr (False, tot + of_nat (length bs), m1)
            else blk_in fo f ss (off + of_nat (length bs)) (tot + of_nat (length bs)) m1))"

fun blk_out ::
  "'f file_ops \<Rightarrow> seg list \<Rightarrow> u64 \<Rightarrow> cbuf \<Rightarrow> 'f \<Rightarrow> (bool \<times> 'f) res" where
  "blk_out fo [] off m f = Inr (False, f)"
| "blk_out fo (s # ss) off m f =
     rbind (buf_read m (hva s) (unat (slen s))) (\<lambda>bs.
       case f_pwrite fo f bs off of
         (None, f1) \<Rightarrow> Inr (True, f1)
       | (Some n, f1) \<Rightarrow>
           if n < unat (slen s) then Inr (False, f1)
           else blk_out fo ss (off + of_nat n) m f1)"

definition blk_request :: "u8 list \<Rightarrow> u32 \<times> u64" where
  "blk_request hdr = (le_val (take 4 hdr), le_val (take 8 (drop 8 hdr)))"

definition blk_handle :: "'f handler" where
  "blk_handle segs d w =
     (if length segs < 2 then Inr (0, d, w)
      else
        rbind (chain_read (mem w) segs 0 16) (\<lambda>got.
        let (type, sector) = blk_request (got @ drop (length got) (hdr_stack w));
            off = sector * 512;
            st = hva (last segs);
            data = butlast (tl segs)
        in rbind (buf_write (mem w) st [VIRTIO_BLK_S_OK]) (\<lambda>m0.
           if type = VIRTIO_BLK_T_IN then
             rbind (blk_in (fops w) (disk w) data off 0 m0) (\<lambda>(err, tot, m1).
             rbind (if err then buf_write m1 st [VIRTIO_BLK_S_IOERR] else Inr m1) (\<lambda>m2.
               Inr (tot + 1, d, w\<lparr>mem := m2\<rparr>)))
           else if type = VIRTIO_BLK_T_OUT then
             rbind (blk_out (fops w) data off m0 (disk w)) (\<lambda>(err, f1).
             rbind (if err then buf_write m0 st [VIRTIO_BLK_S_IOERR] else Inr m0) (\<lambda>m2.
               Inr (1, d, w\<lparr>mem := m2, disk := f1\<rparr>)))
           else if type = VIRTIO_BLK_T_FLUSH then
             Inr (1, d, w\<lparr>mem := m0, disk := f_sync (fops w) (disk w)\<rparr>)
           else
             rbind (buf_write m0 st [VIRTIO_BLK_S_UNSUPP]) (\<lambda>m2. Inr (1, d, w\<lparr>mem := m2\<rparr>)))))"

definition dev_handle :: "virtio_dev \<Rightarrow> int \<Rightarrow> 'f handler" where
  "dev_handle dev qi = (if device_id dev = VIRTIO_ID_CONSOLE then console_handle qi else blk_handle)"

definition service_vq :: "int \<Rightarrow> virtio_dev \<Rightarrow> 'f vsys \<Rightarrow> (virtio_dev \<times> 'f vsys) res" where
  "service_vq qi d w = service_with (dev_handle d qi) qi d w"


section \<open>What serving a queue preserves\<close>

definition line_ok :: "virtio_dev \<Rightarrow> 'f vsys \<Rightarrow> bool" where
  "line_ok d w \<longleftrightarrow>
     (\<not> use_eventfd w \<longrightarrow> line_level (vgsi d) (virq_calls w) = (int_status d \<noteq> 0))"

definition dev_ok :: "virtio_dev \<Rightarrow> 'f vsys \<Rightarrow> bool" where
  "dev_ok d w \<longleftrightarrow> mem_wf (mem w) \<and> nqueues d \<le> int (length (vqs d)) \<and>
     (\<forall>q \<in> set (vqs d). vq_num q \<noteq> 0xffffffff) \<and> line_ok d w"

definition vq_geom :: "vq \<Rightarrow> u32 \<times> u64 \<times> u64 \<times> u64 \<times> u32" where
  "vq_geom q = (vq_num q, vq_desc q, vq_avail q, vq_used q, vq_ready q)"

text \<open>
  \<open>serves i d w d' w'\<close>: what may change while queue \<open>i\<close> of a device is served.  The registers
  the driver programs, the size of guest RAM and the lines of the other devices do not.
\<close>

definition serves :: "virtio_dev \<Rightarrow> 'f vsys \<Rightarrow> virtio_dev \<Rightarrow> 'f vsys \<Rightarrow> bool" where
  "serves d w d' w' \<longleftrightarrow>
     map vq_geom (vqs d') = map vq_geom (vqs d) \<and> nqueues d' = nqueues d \<and>
     device_id d' = device_id d \<and> vgsi d' = vgsi d \<and> vbase d' = vbase d \<and>
     queue_sel d' = queue_sel d \<and> status d' = status d \<and>
     config d' = config d \<and> config_len d' = config_len d \<and>
     bsize (mem w') = bsize (mem w) \<and> use_eventfd w' = use_eventfd w \<and> fops w' = fops w \<and>
     (\<forall>g. g \<noteq> vgsi d \<longrightarrow> line_level g (virq_calls w') = line_level g (virq_calls w))"

lemma serves_refl [simp]: "serves d w d w"
  by (simp add: serves_def)

lemma serves_trans: "serves d w d1 w1 \<Longrightarrow> serves d1 w1 d2 w2 \<Longrightarrow> serves d w d2 w2"
  by (auto simp: serves_def)

lemma serves_geom:
  assumes "serves d w d' w'" "i < length (vqs d)"
  shows "i < length (vqs d')" "vq_geom (vqs d' ! i) = vq_geom (vqs d ! i)"
proof -
  have m: "map vq_geom (vqs d') = map vq_geom (vqs d)" using assms(1) by (simp add: serves_def)
  show "i < length (vqs d')" using assms(2) map_eq_imp_length_eq [OF m] by simp
  then show "vq_geom (vqs d' ! i) = vq_geom (vqs d ! i)"
    using arg_cong [OF m, of "\<lambda>xs. xs ! i"] assms(2) by simp
qed

lemma serves_nums:
  "serves d w d' w' \<Longrightarrow> \<forall>q \<in> set (vqs d). vq_num q \<noteq> n \<Longrightarrow> \<forall>q \<in> set (vqs d'). vq_num q \<noteq> n"
proof -
  assume s: "serves d w d' w'" and n: "\<forall>q \<in> set (vqs d). vq_num q \<noteq> n"
  have "map vq_geom (vqs d') = map vq_geom (vqs d)" using s by (simp add: serves_def)
  then have "map fst (map vq_geom (vqs d')) = map fst (map vq_geom (vqs d))" by simp
  then have "map vq_num (vqs d') = map vq_num (vqs d)"
    by (simp add: vq_geom_def o_def)
  then have "vq_num ` set (vqs d') = vq_num ` set (vqs d)" by (metis set_map)
  with n show ?thesis by (metis imageE imageI)
qed

lemma serves_dev_ok:
  assumes "serves d w d' w'" "dev_ok d w" "line_ok d' w'"
  shows "dev_ok d' w'"
proof -
  have "length (vqs d') = length (vqs d)"
    using assms(1) map_eq_imp_length_eq by (auto simp: serves_def)
  with assms serves_nums [OF assms(1), of "0xffffffff"] show ?thesis
    by (auto simp: dev_ok_def serves_def mem_wf_def)
qed

lemma bump_last_geom [simp]:
  "map vq_geom (vqs (bump_last i d)) = map vq_geom (vqs d)" "nqueues (bump_last i d) = nqueues d"
  "device_id (bump_last i d) = device_id d" "vgsi (bump_last i d) = vgsi d"
  "int_status (bump_last i d) = int_status d" "length (vqs (bump_last i d)) = length (vqs d)"
  "vbase (bump_last i d) = vbase d" "queue_sel (bump_last i d) = queue_sel d"
  "status (bump_last i d) = status d" "config (bump_last i d) = config d"
  "config_len (bump_last i d) = config_len d"
proof -
  have "map vq_geom ((vqs d)[i := (vqs d ! i)\<lparr>vq_last := v\<rparr>]) = map vq_geom (vqs d)" for v
  proof (cases "i < length (vqs d)")
    case True
    have "vq_geom ((vqs d ! i)\<lparr>vq_last := v\<rparr>) = map vq_geom (vqs d) ! i"
      using True by (simp add: vq_geom_def)
    then show ?thesis by (simp add: map_update del: nth_map)
  qed (simp add: list_update_beyond)
  then show "map vq_geom (vqs (bump_last i d)) = map vq_geom (vqs d)"
    by (simp add: bump_last_def)
qed (simp_all add: bump_last_def)

lemma bump_last_serves:
  "serves d w d' w' \<Longrightarrow> bsize m = bsize (mem w') \<Longrightarrow> serves d w (bump_last i d') (w'\<lparr>mem := m\<rparr>)"
  by (simp add: serves_def)

lemma bump_last_line [simp]: "line_ok d (w\<lparr>mem := m\<rparr>) = line_ok d w"
  "line_ok (bump_last i d) w = line_ok d w"
  by (simp_all add: line_ok_def)

lemma bump_last_last: "i < length (vqs d) \<Longrightarrow> vq_last (vqs (bump_last i d) ! i) = vq_last (vqs d ! i) + 1"
  by (simp add: bump_last_def)

lemma bump_last_other: "j \<noteq> i \<Longrightarrow> vq_last (vqs (bump_last i d) ! j) = vq_last (vqs d ! j)"
  by (simp add: bump_last_def)

lemma raise_ok:
  assumes "virtio_raise_irq d w = (d', w')"
  shows "line_ok d' w'" "serves d w d' w'" "vqs d' = vqs d" "mem w' = mem w" "disk w' = disk w"
    "con w' = con w" "vtty w' = vtty w"
proof -
  have "int_status d OR 1 \<noteq> 0"
    by (metis and_bit_tests(1) bit_0 bit_or_iff odd_one zero_and_eq)
  then show "line_ok d' w'" using assms
    by (auto simp: virtio_raise_irq_def Let_def line_ok_def split: if_splits)
qed (use assms in \<open>auto simp: virtio_raise_irq_def Let_def serves_def split: if_splits\<close>)


section \<open>The contract of a handler\<close>

text \<open>
  A handler that keeps its contract lets \<open>service_vq\<close> terminate, keep every access inside guest
  RAM and keep the interrupt line in step with \<open>int_status\<close>.  \<open>faults\<close> is what the handler
  itself may do wrong; \<open>touch\<close> are the other queues it may serve on the way.
\<close>

locale queue_handler =
  fixes h :: "'f handler" and i :: nat and touch :: "nat set" and faults :: "fault set" and enabled :: "virtio_dev \<Rightarrow> bool"
  assumes handles: "dev_ok d w \<Longrightarrow> enabled d \<Longrightarrow> segs_ok (mem w) segs \<Longrightarrow> i < length (vqs d) \<Longrightarrow>
      (\<exists>e \<in> faults. h segs d w = Inl e) \<or>
      (\<exists>u d' w'. h segs d w = Inr (u, d', w') \<and> serves d w d' w' \<and> line_ok d' w' \<and>
         (\<forall>j. j \<notin> touch \<longrightarrow> vq_last (vqs d' ! j) = vq_last (vqs d ! j)))"
    and own: "i \<notin> touch"
    and enabled_serves: "serves d w d' w' \<Longrightarrow> enabled d \<Longrightarrow> enabled d'"
begin

lemma turn_ok:
  assumes ok: "dev_ok d w" and en: "enabled d" and i: "i < length (vqs d)"
    and num: "vq_num (vqs d ! i) \<noteq> 0"
    and ar: "aring + 2 * unat (vq_num (vqs d ! i)) \<le> bsize (mem w)"
  shows "(\<exists>e \<in> faults. svc_turn h i aring (did, d, w) = Inl e) \<or>
    (\<exists>did' d' w'. svc_turn h i aring (did, d, w) = Inr (did', d', w') \<and> serves d w d' w' \<and>
       line_ok d' w' \<and> vq_last (vqs d' ! i) = vq_last (vqs d ! i) + 1 \<and>
       (\<forall>j. j \<notin> insert i touch \<longrightarrow> vq_last (vqs d' ! j) = vq_last (vqs d ! j)))"
proof -
  define q where "q = vqs d ! i"
  have wf: "mem_wf (mem w)" and ln: "line_ok d w" and nmax: "vq_num q \<noteq> 0xffffffff"
    using ok i by (auto simp: dev_ok_def q_def)
  have "unat (ucast (vq_last q) mod vq_num q) < unat (vq_num q)"
    using used_slot_less(1) num by (simp add: q_def)
  then have "aring + 2 * unat (ucast (vq_last q) mod vq_num q) + 2 \<le> bsize (mem w)"
    using ar by (simp add: q_def)
  then obtain head where hd: "ld16 (mem w) (aring + 2 * unat (ucast (vq_last q) mod vq_num q)) = Inr head"
    using ld16_Inr_iff [of "mem w"] by blast
  obtain g where g: "gather_chain (mem w) q head = Inr g"
    using gather_chain_iff [OF wf nmax, of head] by blast
  have st: "svc_turn h i aring (did, d, w) =
      (case g of None \<Rightarrow> Inr (did, bump_last i d, w)
       | Some segs \<Rightarrow> rbind (h segs d w) (\<lambda>(used_len, d1, w1).
           rbind (push_used (mem w1) (vqs d1 ! i) head used_len) (\<lambda>m.
             Inr (True, bump_last i d1, w1\<lparr>mem := m\<rparr>))))"
    using hd g num by (simp add: svc_turn_def q_def [symmetric] Let_def)
  show ?thesis
  proof (cases g)
    case None
    have "serves d w (bump_last i d) w" by (simp add: serves_def)
    with None st ln show ?thesis using bump_last_last [OF i] by (auto simp: bump_last_other)
  next
    case (Some segs)
    have "segs_ok (mem w) segs"
      using gather_chain_segs_ok [OF wf nmax] g Some by blast
    from handles [OF ok en this i] show ?thesis
    proof (elim disjE exE conjE bexE)
      fix e assume "e \<in> faults" "h segs d w = Inl e"
      then show ?thesis using st Some by auto
    next
      fix u d1 w1
      assume hr: "h segs d w = Inr (u, d1, w1)" and sv: "serves d w d1 w1" and l1: "line_ok d1 w1"
        and lo: "\<forall>j. j \<notin> touch \<longrightarrow> vq_last (vqs d1 ! j) = vq_last (vqs d ! j)"
      have n1: "vq_num (vqs d1 ! i) \<noteq> 0"
        using serves_geom(2) [OF sv i] num by (simp add: vq_geom_def)
      have "mem_wf (mem w1)" using sv wf by (simp add: serves_def mem_wf_def)
      from push_used_total [OF this n1] obtain m where
        m: "push_used (mem w1) (vqs d1 ! i) head u = Inr m" "bsize m = bsize (mem w1)" .
      have "svc_turn h i aring (did, d, w) = Inr (True, bump_last i d1, w1\<lparr>mem := m\<rparr>)"
        using st Some hr m by simp
      with bump_last_serves [OF sv m(2)] l1 lo own bump_last_last [OF serves_geom(1) [OF sv i]]
      show ?thesis by (auto simp: bump_last_other)
    qed
  qed
qed

lemma loop_ok:
  assumes "nat qi = i"
  shows "dev_ok d w \<Longrightarrow> enabled d \<Longrightarrow> i < length (vqs d) \<Longrightarrow> vq_num (vqs d ! i) \<noteq> 0 \<Longrightarrow>
    aring + 2 * unat (vq_num (vqs d ! i)) \<le> bsize (mem w) \<Longrightarrow>
    unat (idx - vq_last (vqs d ! i)) = fuel \<Longrightarrow>
    (\<exists>e \<in> faults. svc_loop fuel h qi idx aring (did, d, w) = Inl e) \<or>
    (\<exists>did' d' w'. svc_loop fuel h qi idx aring (did, d, w) = Inr (did', d', w') \<and>
       serves d w d' w' \<and> line_ok d' w' \<and> svc_stop qi idx d' w' \<and>
       (\<forall>j. j \<notin> insert i touch \<longrightarrow> vq_last (vqs d' ! j) = vq_last (vqs d ! j)))"
proof (induction fuel arbitrary: did d w)
  case 0
  from 0(6) have "idx - vq_last (vqs d ! i) = 0" by (simp only: unat_eq_0)
  then have "idx = vq_last (vqs d ! i)" by simp
  with 0(1) assms show ?case by (auto simp: svc_stop_def dev_ok_def)
next
  case (Suc fuel)
  show ?case
  proof (cases "svc_stop qi idx d w")
    case True
    with Suc.prems show ?thesis by (auto simp: dev_ok_def)
  next
    case False
    then have lp: "svc_loop (Suc fuel) h qi idx aring (did, d, w) =
        rbind (svc_turn h i aring (did, d, w)) (svc_loop fuel h qi idx aring)"
      using assms by simp
    from turn_ok [OF Suc.prems(1-5), of did] show ?thesis
    proof (elim disjE exE conjE bexE)
      fix e assume "e \<in> faults" "svc_turn h i aring (did, d, w) = Inl e"
      then show ?thesis using lp by auto
    next
      fix did1 d1 w1
      assume t: "svc_turn h i aring (did, d, w) = Inr (did1, d1, w1)" and sv: "serves d w d1 w1"
        and l1: "line_ok d1 w1" and la: "vq_last (vqs d1 ! i) = vq_last (vqs d ! i) + 1"
        and lo: "\<forall>j. j \<notin> insert i touch \<longrightarrow> vq_last (vqs d1 ! j) = vq_last (vqs d ! j)"
      have g: "vq_geom (vqs d1 ! i) = vq_geom (vqs d ! i)" "i < length (vqs d1)"
        using serves_geom [OF sv Suc.prems(3)] by auto
      have "idx - vq_last (vqs d ! i) \<noteq> 0" using Suc.prems(6) by (metis nat.distinct(1) unat_0)
      then have fu: "unat (idx - vq_last (vqs d1 ! i)) = fuel"
        using Suc.prems(6) unat_minus_one [of "idx - vq_last (vqs d ! i)"]
        unfolding la by (simp add: algebra_simps)
      have "dev_ok d1 w1" by (rule serves_dev_ok [OF sv Suc.prems(1) l1])
      moreover have "vq_num (vqs d1 ! i) = vq_num (vqs d ! i)" "bsize (mem w1) = bsize (mem w)"
        using g(1) sv by (auto simp: vq_geom_def serves_def)
      ultimately have "(\<exists>e \<in> faults. svc_loop fuel h qi idx aring (did1, d1, w1) = Inl e) \<or>
        (\<exists>did' d' w'. svc_loop fuel h qi idx aring (did1, d1, w1) = Inr (did', d', w') \<and>
           serves d1 w1 d' w' \<and> line_ok d' w' \<and> svc_stop qi idx d' w' \<and>
           (\<forall>j. j \<notin> insert i touch \<longrightarrow> vq_last (vqs d' ! j) = vq_last (vqs d1 ! j)))"
        using Suc.IH [of d1 w1 did1] enabled_serves [OF sv Suc.prems(2)] g(2) Suc.prems(4,5) fu
        by simp
      then show ?thesis using lp t lo serves_trans [OF sv] by auto
    qed
  qed
qed

text \<open>What \<open>service_vq\<close> does with a handler that keeps its contract: the registers stay, the
  line follows \<open>int_status\<close>, and unless the device stopped it the cursor has caught up.\<close>

lemma service_ok:
  assumes ok: "dev_ok d w" and en: "enabled d" and i: "nat qi = i"
  shows "(\<exists>e \<in> faults. service_with h qi d w = Inl e) \<or>
    (\<exists>d' w'. service_with h qi d w = Inr (d', w') \<and> serves d w d' w' \<and> line_ok d' w' \<and>
       (\<forall>j. j \<notin> insert i touch \<longrightarrow> vq_last (vqs d' ! j) = vq_last (vqs d ! j)) \<and>
       (\<forall>p rg idx. 0 \<le> qi \<and> qi < nqueues d \<and> vq_ready (vqs d ! i) \<noteq> 0 \<and> vq_num (vqs d ! i) \<noteq> 0 \<and>
          gpa2hva (mem w) (vq_avail (vqs d ! i) + 2) 2 = Some p \<and>
          gpa2hva (mem w) (vq_avail (vqs d ! i) + 4) (2 * ucast (vq_num (vqs d ! i))) = Some rg \<and>
          ld16 (mem w) p = Inr idx \<longrightarrow> svc_stop qi idx d' w'))"
proof (cases "0 \<le> qi \<and> qi < nqueues d \<and> vq_ready (vqs d ! i) \<noteq> 0 \<and> vq_num (vqs d ! i) \<noteq> 0")
  case False
  then have "service_with h qi d w = Inr (d, w)"
    using i by (auto simp: service_with_def Let_def)
  with False ok show ?thesis by (auto simp: dev_ok_def)
next
  case True
  have wf: "mem_wf (mem w)" and il: "i < length (vqs d)"
    using ok True i by (auto simp: dev_ok_def)
  show ?thesis
  proof (cases "\<exists>p rg. gpa2hva (mem w) (vq_avail (vqs d ! i) + 2) 2 = Some p \<and>
      gpa2hva (mem w) (vq_avail (vqs d ! i) + 4) (2 * ucast (vq_num (vqs d ! i))) = Some rg")
    case False
    then have "service_with h qi d w = Inr (d, w)"
      using i True by (auto simp: service_with_def Let_def split: option.splits)
    with False ok show ?thesis by (auto simp: dev_ok_def)
  next
    case in_mem: True
    then obtain p rg where p: "gpa2hva (mem w) (vq_avail (vqs d ! i) + 2) 2 = Some p"
      and r: "gpa2hva (mem w) (vq_avail (vqs d ! i) + 4) (2 * ucast (vq_num (vqs d ! i))) = Some rg"
      by blast
    have "p + 2 \<le> bsize (mem w)"
      using p gpa2hva_Some [OF wf, of "vq_avail (vqs d ! i) + 2" 2 p] by auto
    then obtain idx where idx: "ld16 (mem w) p = Inr idx" using ld16_Inr_iff [of "mem w" p] by auto
    have ar: "rg + 2 * unat (vq_num (vqs d ! i)) \<le> bsize (mem w)"
      using table_in_memory [OF wf, of "vq_avail (vqs d ! i) + 4" 2 "vq_num (vqs d ! i)" rg] r by simp
    have sv: "service_with h qi d w =
        rbind (svc_loop (unat (idx - vq_last (vqs d ! i))) h qi idx rg (False, d, w))
          (\<lambda>(did, d1, w1). Inr (if did then virtio_raise_irq d1 w1 else (d1, w1)))"
      using True i p r idx by (simp add: service_with_def Let_def)
    have num: "vq_num (vqs d ! i) \<noteq> 0" using True by simp
    from loop_ok [OF i ok en il num ar refl, of idx False] show ?thesis
    proof (elim disjE exE conjE bexE)
      fix e assume "e \<in> faults"
        "svc_loop (unat (idx - vq_last (vqs d ! i))) h qi idx rg (False, d, w) = Inl e"
      then show ?thesis using sv by auto
    next
      fix did' d' w'
      assume l: "svc_loop (unat (idx - vq_last (vqs d ! i))) h qi idx rg (False, d, w) = Inr (did', d', w')"
        and s: "serves d w d' w'" and ln: "line_ok d' w'" and stp: "svc_stop qi idx d' w'"
        and lo: "\<forall>j. j \<notin> insert i touch \<longrightarrow> vq_last (vqs d' ! j) = vq_last (vqs d ! j)"
      obtain d2 w2 where r2: "(if did' then virtio_raise_irq d' w' else (d', w')) = (d2, w2)"
        by (cases "if did' then virtio_raise_irq d' w' else (d', w')")
      have s2: "serves d w d2 w2 \<and> line_ok d2 w2 \<and> vqs d2 = vqs d' \<and> con w2 = con w' \<and>
          device_id d2 = device_id d'"
        using r2 s ln raise_ok [of d' w' d2 w2] serves_trans [OF s, of d2 w2]
        by (auto simp: serves_def split: if_splits)
      then have "svc_stop qi idx d2 w2"
        using stp by (auto simp: svc_stop_def dev_can_consume_def split: if_splits)
      then show ?thesis using sv l r2 s2 p r idx lo by simp
    qed
  qed
qed

end


section \<open>The console keeps the contract\<close>

lemma con_fill_ok:
  "p + k \<le> bsize m \<Longrightarrow>
     \<exists>r. con_fill p k written c m = Inr r \<and> bsize (snd (snd (snd r))) = bsize m"
proof (induction k arbitrary: p written c m)
  case 0
  then show ?case by simp
next
  case (Suc k)
  show ?case
  proof (cases "con_in_pop c")
    case None
    then show ?thesis by simp
  next
    case (Some bc)
    obtain b c1 where bc: "bc = (b, c1)" by (cases bc)
    obtain m1 where m1: "buf_write m p [b] = Inr m1" "bsize m1 = bsize m"
      using buf_write_ok [of p "[b]" m] Suc.prems by auto
    have "p + 1 + k \<le> bsize m1" using Suc.prems m1(2) by simp
    then obtain r where r: "con_fill (p + 1) k (written + 1) c1 m1 = Inr r"
      "bsize (snd (snd (snd r))) = bsize m1"
      using Suc.IH by blast
    have "con_fill p (Suc k) written c m = Inr r"
      unfolding con_fill.simps Some bc using m1(1) r(1) by simp
    with r(2) m1(2) show ?thesis by simp
  qed
qed

lemma con_rx_ok:
  "\<forall>s \<in> set segs. hva s + unat (slen s) \<le> bsize m \<Longrightarrow>
     \<exists>wr c' m'. con_rx segs written c m = Inr (wr, c', m') \<and> bsize m' = bsize m"
proof (induction segs arbitrary: written c m)
  case Nil
  then show ?case by simp
next
  case (Cons s ss)
  obtain stop wr c1 m1 where
    f: "con_fill (hva s) (unat (slen s)) written c m = Inr (stop, wr, c1, m1)" "bsize m1 = bsize m"
    using con_fill_ok [of "hva s" "unat (slen s)" m written c] Cons.prems by fastforce
  have "\<exists>wr' c' m'. con_rx ss wr c1 m1 = Inr (wr', c', m') \<and> bsize m' = bsize m1"
    using Cons.prems f(2) by (intro Cons.IH) simp
  with f show ?case by auto
qed

lemma con_tx_ok:
  "\<forall>s \<in> set segs. hva s + unat (slen s) \<le> bsize (mem w) \<Longrightarrow>
     con_tx segs w = Inr (w\<lparr>vtty := vtty w @ concat (map (seg_bytes (mem w)) segs),
                            con := con_in_push (concat (map (seg_bytes (mem w)) segs)) (con w)\<rparr>)"
proof (induction segs arbitrary: w)
  case Nil
  then show ?case by (simp add: con_in_push_def)
next
  case (Cons s ss)
  have "buf_read (mem w) (hva s) (unat (slen s)) = Inr (seg_bytes (mem w) s)"
    using Cons.prems buf_read_seg [of s "mem w" 0 "unat (slen s)"] by simp
  then show ?case
    using Cons.prems Cons.IH [of "w\<lparr>vtty := vtty w @ seg_bytes (mem w) s,
        con := con_in_push (seg_bytes (mem w) s) (con w)\<rparr>"]
    by (simp add: con_in_push_def)
qed

interpretation con_rx: queue_handler "console_receive :: 'f handler" 0 "{}" "{}" "\<lambda>d :: virtio_dev. True"
proof unfold_locales
  fix d w and segs :: "seg list"
  assume "dev_ok d w" "segs_ok (mem w) segs"
  then obtain wr c m where r: "con_rx segs 0 (con w) (mem w) = Inr (wr, c, m)" "bsize m = bsize (mem w)"
    using con_rx_ok [of segs "mem w" 0 "con w"] by (auto simp: segs_ok_def)
  have "line_ok d (w\<lparr>con := c, mem := m\<rparr>)" "serves d w d (w\<lparr>con := c, mem := m\<rparr>)"
    using \<open>dev_ok d w\<close> r(2) by (auto simp: dev_ok_def line_ok_def serves_def)
  with r show "(\<exists>e \<in> {}. console_receive segs d w = Inl e) \<or>
      (\<exists>u d' w'. console_receive segs d w = Inr (u, d', w') \<and> serves d w d' w' \<and> line_ok d' w' \<and>
        (\<forall>j. j \<notin> {} \<longrightarrow> vq_last (vqs d' ! j) = vq_last (vqs d ! j)))"
    by (auto simp: console_receive_def)
qed simp_all

interpretation con_tx: queue_handler "console_handle 1 :: 'f handler" 1 "{0}" "{}" "\<lambda>d :: virtio_dev. True"
proof unfold_locales
  fix d w and segs :: "seg list"
  assume ok: "dev_ok d w" "segs_ok (mem w) segs"
  define w1 where "w1 = w\<lparr>vtty := vtty w @ concat (map (seg_bytes (mem w)) segs),
                         con := con_in_push (concat (map (seg_bytes (mem w)) segs)) (con w)\<rparr>"
  have t: "con_tx segs w = Inr w1" using con_tx_ok [of segs w] ok(2) by (simp add: segs_ok_def w1_def)
  have ok1: "dev_ok d w1" "serves d w d w1"
    using ok(1) by (auto simp: w1_def dev_ok_def line_ok_def serves_def)
  obtain d2 w2 where s: "service_with console_receive 0 d w1 = Inr (d2, w2)" "serves d w1 d2 w2"
    "line_ok d2 w2" "\<forall>j. j \<notin> {0} \<longrightarrow> vq_last (vqs d2 ! j) = vq_last (vqs d ! j)"
    using con_rx.service_ok [OF ok1(1), of 0] by auto
  show "(\<exists>e \<in> {}. console_handle 1 segs d w = Inl e) \<or>
      (\<exists>u d' w'. console_handle 1 segs d w = Inr (u, d', w') \<and> serves d w d' w' \<and> line_ok d' w' \<and>
        (\<forall>j. j \<notin> {0} \<longrightarrow> vq_last (vqs d' ! j) = vq_last (vqs d ! j)))"
    using t s serves_trans [OF ok1(2) s(2)] by (auto simp: console_handle_def)
qed simp_all


section \<open>Disk images\<close>

text \<open>
  What the block device relies on, from the manual pages of \<open>pread\<close> and \<open>pwrite\<close> for a
  regular file: a transfer is never longer than asked for, and one that lies inside the file
  and under the kernel's limit per call is complete.  \<open>contents\<close> is the file as a list of bytes.
\<close>

abbreviation (input) MAX_RW_COUNT :: nat where "MAX_RW_COUNT \<equiv> 0x7ffff000"

locale disk_image =
  fixes fo :: "'f file_ops" and contents :: "'f \<Rightarrow> u8 list"
  assumes contents_size: "length (contents f) < 2 ^ 63"
    and pread_short: "f_pread fo f n off = Some bs \<Longrightarrow> length bs \<le> n"
    and pread_inside: "unat off + n \<le> length (contents f) \<Longrightarrow> n \<le> MAX_RW_COUNT \<Longrightarrow>
      f_pread fo f n off = Some (take n (drop (unat off) (contents f)))"
    and pwrite_inside: "unat off + length bs \<le> length (contents f) \<Longrightarrow> length bs \<le> MAX_RW_COUNT \<Longrightarrow>
      \<exists>f'. f_pwrite fo f bs off = (Some (length bs), f') \<and>
        contents f' = take (unat off) (contents f) @ bs @ drop (unat off + length bs) (contents f)"

definition seg_range :: "seg \<Rightarrow> nat set" where
  "seg_range s = {hva s ..< hva s + unat (slen s)}"

fun disj_segs :: "seg list \<Rightarrow> bool" where
  "disj_segs [] = True"
| "disj_segs (s # ss) = ((\<forall>t \<in> set ss. seg_range s \<inter> seg_range t = {}) \<and> disj_segs ss)"

definition segs_len :: "seg list \<Rightarrow> nat" where
  "segs_len ss = sum_list (map (unat \<circ> slen) ss)"

lemma segs_len_simps [simp]: "segs_len [] = 0" "segs_len (s # ss) = unat (slen s) + segs_len ss"
  by (simp_all add: segs_len_def)

lemma length_concat_segs: "length (concat (map (seg_bytes m) ss)) = segs_len ss"
  by (induction ss) auto

lemma seg_bytes_frame:
  "(\<And>a. a \<in> seg_range s \<Longrightarrow> bdata m' a = bdata m a) \<Longrightarrow> seg_bytes m' s = seg_bytes m s"
  by (auto simp: seg_bytes_def seg_range_def)

lemma seg_bytes_written:
  "length bs = unat (slen s) \<Longrightarrow> buf_write m (hva s) bs = Inr m' \<Longrightarrow> seg_bytes m' s = bs"
  by (auto simp: seg_bytes_def buf_simps intro: nth_equalityI)

lemma seg_write_frame:
  "length bs = unat (slen s) \<Longrightarrow> buf_write m (hva s) bs = Inr m' \<Longrightarrow>
     bsize m' = bsize m \<and> (\<forall>a. a \<notin> seg_range s \<longrightarrow> bdata m' a = bdata m a)"
  by (auto simp: seg_range_def buf_simps)

lemma off_step:
  "unat (off :: u64) + n < 2 ^ 63 \<Longrightarrow> unat (off + of_nat n) = unat off + n"
  by (simp add: unat_word_ariths unat_of_nat)

context disk_image
begin

lemma blk_in_effect:
  "disj_segs ss \<Longrightarrow> \<forall>s \<in> set ss. hva s + unat (slen s) \<le> bsize m \<and> unat (slen s) \<le> MAX_RW_COUNT \<Longrightarrow>
   unat off + segs_len ss \<le> length (contents f) \<Longrightarrow>
   \<exists>m'. blk_in fo f ss off tot m = Inr (False, tot + of_nat (segs_len ss), m') \<and>
     bsize m' = bsize m \<and>
     concat (map (seg_bytes m') ss) = take (segs_len ss) (drop (unat off) (contents f)) \<and>
     (\<forall>a. (\<forall>s \<in> set ss. a \<notin> seg_range s) \<longrightarrow> bdata m' a = bdata m a)"
proof (induction ss arbitrary: off tot m)
  case Nil
  then show ?case by simp
next
  case (Cons s ss)
  let ?n = "unat (slen s)" and ?c = "contents f"
  define bs where "bs = take ?n (drop (unat off) ?c)"
  have pr: "f_pread fo f ?n off = Some bs" and lb: "length bs = ?n"
    using Cons.prems by (auto simp: bs_def intro: pread_inside)
  obtain m1 where m1: "buf_write m (hva s) bs = Inr m1"
    using Cons.prems lb by (simp add: buf_write_def)
  note fr = seg_write_frame [OF lb m1]
  have off1: "unat (off + of_nat ?n) = unat off + ?n"
    using Cons.prems(3) contents_size [of f] by (intro off_step) simp
  obtain m' where m': "blk_in fo f ss (off + of_nat ?n) (tot + of_nat ?n) m1 =
      Inr (False, tot + of_nat ?n + of_nat (segs_len ss), m')" "bsize m' = bsize m1"
    "concat (map (seg_bytes m') ss) = take (segs_len ss) (drop (unat off + ?n) ?c)"
    "\<forall>a. (\<forall>s \<in> set ss. a \<notin> seg_range s) \<longrightarrow> bdata m' a = bdata m1 a"
    using Cons.IH [of m1 "off + of_nat ?n" "tot + of_nat ?n"] Cons.prems fr off1 by auto
  have "seg_bytes m' s = seg_bytes m1 s"
    using m'(4) Cons.prems(1) by (intro seg_bytes_frame) auto
  then have "seg_bytes m' s = bs" using seg_bytes_written [OF lb m1] by simp
  moreover have "bs @ take (segs_len ss) (drop (unat off + ?n) ?c) =
      take (?n + segs_len ss) (drop (unat off) ?c)"
    by (simp add: bs_def take_add add.commute [of "unat off"])
  moreover have "blk_in fo f (s # ss) off tot m = Inr (False, tot + of_nat (segs_len (s # ss)), m')"
    using pr m1 lb m'(1) by (simp add: add.assoc)
  ultimately show ?case using m'(2-4) fr by auto
qed

lemma blk_out_effect:
  "\<forall>s \<in> set ss. hva s + unat (slen s) \<le> bsize m \<and> unat (slen s) \<le> MAX_RW_COUNT \<Longrightarrow>
   unat off + segs_len ss \<le> length (contents f) \<Longrightarrow>
   \<exists>f'. blk_out fo ss off m f = Inr (False, f') \<and>
     contents f' = take (unat off) (contents f) @ concat (map (seg_bytes m) ss) @
       drop (unat off + segs_len ss) (contents f)"
proof (induction ss arbitrary: off f)
  case Nil
  then show ?case by simp
next
  case (Cons s ss)
  let ?n = "unat (slen s)" and ?c = "contents f" and ?b = "seg_bytes m s"
  have rd: "buf_read m (hva s) ?n = Inr ?b"
    using Cons.prems(1) buf_read_seg [of s m 0 ?n] by simp
  obtain f1 where f1: "f_pwrite fo f ?b off = (Some ?n, f1)"
    "contents f1 = take (unat off) ?c @ ?b @ drop (unat off + ?n) ?c"
    using pwrite_inside [of off ?b f] Cons.prems by auto
  have off1: "unat (off + of_nat ?n) = unat off + ?n"
    using Cons.prems(2) contents_size [of f] by (intro off_step) simp
  have "length (contents f1) = length ?c" using f1(2) Cons.prems(2) by simp
  then obtain f' where f': "blk_out fo ss (off + of_nat ?n) m f1 = Inr (False, f')"
    "contents f' = take (unat off + ?n) (contents f1) @ concat (map (seg_bytes m) ss) @
       drop (unat off + ?n + segs_len ss) (contents f1)"
    using Cons.IH [of "off + of_nat ?n" f1] Cons.prems off1 by auto
  have "take (unat off + ?n) (contents f1) = take (unat off) ?c @ ?b"
    "drop (unat off + ?n + segs_len ss) (contents f1) = drop (unat off + (?n + segs_len ss)) ?c"
    using Cons.prems(2) unfolding f1(2) by (simp_all add: add.commute add.left_commute)
  with rd f1(1) f' show ?case by simp
qed

end


section \<open>Block requests\<close>

definition put_bytes :: "u8 list \<Rightarrow> nat \<Rightarrow> u8 list \<Rightarrow> u8 list" where
  "put_bytes c off bs = take off c @ bs @ drop (off + length bs) c"

definition get_bytes :: "u8 list \<Rightarrow> nat \<Rightarrow> nat \<Rightarrow> u8 list" where
  "get_bytes c off n = take n (drop off c)"

lemma get_put_bytes:
  "off + length bs \<le> length c \<Longrightarrow> get_bytes (put_bytes c off bs) off (length bs) = bs"
  by (simp add: get_bytes_def put_bytes_def)

text \<open>
  A well-formed block request: a header descriptor of at least 16 bytes, data descriptors, and
  a status descriptor of at least one byte, in guest RAM, with the data and status areas
  pairwise disjoint, and a range of sectors inside the image.
\<close>

definition blk_request_ok ::
  "('f \<Rightarrow> u8 list) \<Rightarrow> 'f vsys \<Rightarrow> seg \<Rightarrow> seg list \<Rightarrow> seg \<Rightarrow> u32 \<Rightarrow> u64 \<Rightarrow> bool" where
  "blk_request_ok contents w hs data st type sector \<longleftrightarrow>
     segs_ok (mem w) (hs # data @ [st]) \<and> 16 \<le> unat (slen hs) \<and> 1 \<le> unat (slen st) \<and>
     disj_segs (data @ [st]) \<and> (\<forall>s \<in> set data. unat (slen s) \<le> MAX_RW_COUNT) \<and>
     blk_request (take 16 (seg_bytes (mem w) hs)) = (type, sector) \<and>
     unat (sector * 512) + segs_len data \<le> length (contents (disk w))"

lemma disj_segs_append:
  "disj_segs (xs @ ys) \<longleftrightarrow> disj_segs xs \<and> disj_segs ys \<and>
     (\<forall>s \<in> set xs. \<forall>t \<in> set ys. seg_range s \<inter> seg_range t = {})"
  by (induction xs) auto

lemma request_header:
  assumes "segs_ok (mem w) (hs # rest)" "16 \<le> unat (slen hs)"
  shows "chain_read (mem w) (hs # rest) 0 16 = Inr (take 16 (seg_bytes (mem w) hs))"
  using assms chain_read_concat [of "hs # rest" "mem w" 0 16] by (simp add: segs_ok_def)

lemma blk_request_append: "length xs = 16 \<Longrightarrow> blk_request (xs @ ys) = blk_request xs"
  by (simp add: blk_request_def)

lemma blk_handle_shape:
  assumes ok: "blk_request_ok contents w hs data st type sector"
  obtains m0 where "buf_write (mem w) (hva st) [VIRTIO_BLK_S_OK] = Inr m0" "bsize m0 = bsize (mem w)"
    "\<And>a. a \<noteq> hva st \<Longrightarrow> bdata m0 a = bdata (mem w) a" "bdata m0 (hva st) = VIRTIO_BLK_S_OK"
    "blk_handle (hs # data @ [st]) d w =
       (if type = VIRTIO_BLK_T_IN then
          rbind (blk_in (fops w) (disk w) data (sector * 512) 0 m0) (\<lambda>(err, tot, m1).
          rbind (if err then buf_write m1 (hva st) [VIRTIO_BLK_S_IOERR] else Inr m1) (\<lambda>m2.
            Inr (tot + 1, d, w\<lparr>mem := m2\<rparr>)))
        else if type = VIRTIO_BLK_T_OUT then
          rbind (blk_out (fops w) data (sector * 512) m0 (disk w)) (\<lambda>(err, f1).
          rbind (if err then buf_write m0 (hva st) [VIRTIO_BLK_S_IOERR] else Inr m0) (\<lambda>m2.
            Inr (1, d, w\<lparr>mem := m2, disk := f1\<rparr>)))
        else if type = VIRTIO_BLK_T_FLUSH then
          Inr (1, d, w\<lparr>mem := m0, disk := f_sync (fops w) (disk w)\<rparr>)
        else
          rbind (buf_write m0 (hva st) [VIRTIO_BLK_S_UNSUPP]) (\<lambda>m2. Inr (1, d, w\<lparr>mem := m2\<rparr>)))"
proof -
  have st: "hva st + 1 \<le> bsize (mem w)" and so: "segs_ok (mem w) (hs # data @ [st])"
    and l16: "16 \<le> unat (slen hs)"
    and rq: "blk_request (take 16 (seg_bytes (mem w) hs)) = (type, sector)"
    using ok by (auto simp: blk_request_ok_def segs_ok_def)
  obtain m0 where m0: "buf_write (mem w) (hva st) [VIRTIO_BLK_S_OK] = Inr m0"
    using st by (auto simp: buf_write_def)
  have "length (take 16 (seg_bytes (mem w) hs)) = 16" using l16 by simp
  from rq blk_request_append [OF this]
  have rq': "blk_request (take 16 (seg_bytes (mem w) hs) @ xs) = (type, sector)" for xs by simp
  show thesis
  proof (rule that)
    show "buf_write (mem w) (hva st) [VIRTIO_BLK_S_OK] = Inr m0" by (rule m0)
    show "bsize m0 = bsize (mem w)" by (rule buf_write_size [OF m0])
    show "bdata m0 a = bdata (mem w) a" if "a \<noteq> hva st" for a
      using that buf_write_frame [OF m0, of a] by simp linarith
    show "bdata m0 (hva st) = VIRTIO_BLK_S_OK"
      using m0 by (auto simp: buf_simps bytes_upd_def)
  qed (use m0 rq' request_header [OF so l16] in
      \<open>simp add: blk_handle_def Let_def del: chain_read.simps append_take_drop_id\<close>)
qed

lemma sector_offset:
  assumes "unat (sector :: u64) * 512 + n < 2 ^ 63"
  shows "unat (sector * 512) = unat sector * 512"
  using assms by (simp add: unat_word_ariths)

context disk_image
begin

lemma blk_read_request:
  assumes ok: "blk_request_ok contents w hs data st VIRTIO_BLK_T_IN sector" and fo: "fops w = fo"
  shows "\<exists>m'. blk_handle (hs # data @ [st]) d w =
      Inr (of_nat (segs_len data) + 1, d, w\<lparr>mem := m'\<rparr>) \<and> bsize m' = bsize (mem w) \<and>
    concat (map (seg_bytes m') data) =
      get_bytes (contents (disk w)) (unat (sector * 512)) (segs_len data) \<and>
    bdata m' (hva st) = VIRTIO_BLK_S_OK \<and>
    (\<forall>a. a \<noteq> hva st \<and> (\<forall>s \<in> set data. a \<notin> seg_range s) \<longrightarrow> bdata m' a = bdata (mem w) a)"
proof -
  obtain m0 where m0: "bsize m0 = bsize (mem w)"
    "\<And>a. a \<noteq> hva st \<Longrightarrow> bdata m0 a = bdata (mem w) a" "bdata m0 (hva st) = VIRTIO_BLK_S_OK"
    and bh: "blk_handle (hs # data @ [st]) d w =
        rbind (blk_in (fops w) (disk w) data (sector * 512) 0 m0) (\<lambda>(err, tot, m1).
        rbind (if err then buf_write m1 (hva st) [VIRTIO_BLK_S_IOERR] else Inr m1) (\<lambda>m2.
          Inr (tot + 1, d, w\<lparr>mem := m2\<rparr>)))"
    using blk_handle_shape [OF ok, of d] by auto
  have rng: "unat (sector * 512) + segs_len data \<le> length (contents (disk w))"
    and dj: "disj_segs data" "\<forall>s \<in> set data. seg_range s \<inter> seg_range st = {}"
    and lst: "hva st \<in> seg_range st"
    and ins: "\<forall>s \<in> set data. hva s + unat (slen s) \<le> bsize m0 \<and> unat (slen s) \<le> MAX_RW_COUNT"
    using ok m0(1) by (auto simp: blk_request_ok_def segs_ok_def disj_segs_append seg_range_def)
  obtain m' where m': "blk_in fo (disk w) data (sector * 512) 0 m0 = Inr (False, of_nat (segs_len data), m')"
    "bsize m' = bsize m0"
    "concat (map (seg_bytes m') data) = take (segs_len data) (drop (unat (sector * 512)) (contents (disk w)))"
    "\<forall>a. (\<forall>s \<in> set data. a \<notin> seg_range s) \<longrightarrow> bdata m' a = bdata m0 a"
    using blk_in_effect [OF dj(1) ins, of "sector * 512" "disk w" 0] rng by auto
  have "bdata m' (hva st) = bdata m0 (hva st)" using m'(4) dj(2) lst by blast
  with m' m0 bh fo show ?thesis by (auto simp: get_bytes_def)
qed

lemma blk_write_request:
  assumes ok: "blk_request_ok contents w hs data st VIRTIO_BLK_T_OUT sector" and fo: "fops w = fo"
    and own: "hva st \<notin> \<Union> (seg_range ` set data)"
  shows "\<exists>m' f'. blk_handle (hs # data @ [st]) d w = Inr (1, d, w\<lparr>mem := m', disk := f'\<rparr>) \<and>
    bsize m' = bsize (mem w) \<and>
    contents f' = put_bytes (contents (disk w)) (unat (sector * 512))
      (concat (map (seg_bytes (mem w)) data)) \<and>
    bdata m' (hva st) = VIRTIO_BLK_S_OK \<and> (\<forall>a. a \<noteq> hva st \<longrightarrow> bdata m' a = bdata (mem w) a)"
proof -
  obtain m0 where m0: "bsize m0 = bsize (mem w)"
    "\<And>a. a \<noteq> hva st \<Longrightarrow> bdata m0 a = bdata (mem w) a" "bdata m0 (hva st) = VIRTIO_BLK_S_OK"
    and bh: "blk_handle (hs # data @ [st]) d w =
          rbind (blk_out (fops w) data (sector * 512) m0 (disk w)) (\<lambda>(err, f1).
          rbind (if err then buf_write m0 (hva st) [VIRTIO_BLK_S_IOERR] else Inr m0) (\<lambda>m2.
            Inr (1, d, w\<lparr>mem := m2, disk := f1\<rparr>)))"
    using blk_handle_shape [OF ok, of d] by auto
  have rng: "unat (sector * 512) + segs_len data \<le> length (contents (disk w))"
    and ins: "\<forall>s \<in> set data. hva s + unat (slen s) \<le> bsize m0 \<and> unat (slen s) \<le> MAX_RW_COUNT"
    using ok m0(1) by (auto simp: blk_request_ok_def segs_ok_def)
  have sb: "map (seg_bytes m0) data = map (seg_bytes (mem w)) data"
    by (intro map_cong refl seg_bytes_frame m0(2)) (use own in auto)
  obtain f' where f': "blk_out fo data (sector * 512) m0 (disk w) = Inr (False, f')"
    "contents f' = take (unat (sector * 512)) (contents (disk w)) @
       concat (map (seg_bytes (mem w)) data) @ drop (unat (sector * 512) + segs_len data) (contents (disk w))"
    using blk_out_effect [OF ins, of "sector * 512" "disk w"] rng unfolding sb by auto
  with m0 bh fo show ?thesis by (auto simp: put_bytes_def length_concat_segs)
qed

end


section \<open>A regular file\<close>

text \<open>A provider of the contract: a sparse regular file, with the offset and size limits of the
  64-bit signed \<open>off_t\<close>.\<close>

record img =
  ibyte :: "nat \<Rightarrow> u8"
  isize :: "63 word"

definition img_contents :: "img \<Rightarrow> u8 list" where
  "img_contents f = map (ibyte f) [0..<unat (isize f)]"

definition img_ops :: "img file_ops" where
  "img_ops = \<lparr>
     f_pread = (\<lambda>f n off.
       if unat off \<ge> 2 ^ 63 then None
       else Some (map (ibyte f) [unat off ..< min (unat off + min n MAX_RW_COUNT) (unat (isize f))])),
     f_pwrite = (\<lambda>f bs off.
       let bs1 = take MAX_RW_COUNT bs in
       if unat off + length bs1 \<ge> 2 ^ 63 then (None, f)
       else (Some (length bs1), f\<lparr>ibyte := bytes_upd (ibyte f) (unat off) bs1,
               isize := of_nat (max (unat (isize f)) (unat off + length bs1))\<rparr>)),
     f_sync = (\<lambda>f. f)\<rparr>"

lemma length_img [simp]: "length (img_contents f) = unat (isize f)"
  by (simp add: img_contents_def)

lemma isize_bound: "unat (isize f) < 2 ^ 63"
  using unsigned_less [where 'a = nat, of "isize f"] by simp

interpretation image: disk_image img_ops img_contents
proof unfold_locales
  fix f :: img and n off bs
  show "length (img_contents f) < 2 ^ 63" using isize_bound by simp
  show "length bs \<le> n" if "f_pread img_ops f n off = Some bs"
    using that by (auto simp: img_ops_def split: if_splits)
  show "f_pread img_ops f n off = Some (take n (drop (unat off) (img_contents f)))"
    if "unat off + n \<le> length (img_contents f)" "n \<le> MAX_RW_COUNT"
    using that isize_bound [of f]
    by (auto simp: img_ops_def img_contents_def min_def drop_map take_map)
  show "\<exists>f'. f_pwrite img_ops f bs off = (Some (length bs), f') \<and>
      img_contents f' = take (unat off) (img_contents f) @ bs @ drop (unat off + length bs) (img_contents f)"
    if "unat off + length bs \<le> length (img_contents f)" "length bs \<le> MAX_RW_COUNT"
  proof -
    have "unat off + length bs < 2 ^ 63" using that(1) isize_bound [of f] by simp
    moreover have "(of_nat (max (unat (isize f)) (unat off + length bs)) :: 63 word) = isize f"
      using that(1) by (simp add: max_def)
    moreover have "map (bytes_upd (ibyte f) (unat off) bs) [0..<unat (isize f)] =
        take (unat off) (img_contents f) @ bs @ drop (unat off + length bs) (img_contents f)"
      using that(1)
      by (intro nth_equalityI) (auto simp: img_contents_def nth_append bytes_upd_def)
    ultimately show ?thesis using that(2)
      by (auto simp: img_ops_def Let_def img_contents_def)
  qed
qed

section \<open>The block device keeps the contract up to a stray status byte\<close>

lemma blk_in_total:
  "blk_in fo f ss off tot m = Inl OutOfBounds \<or>
   (\<exists>r. blk_in fo f ss off tot m = Inr r \<and> bsize (snd (snd r)) = bsize m)"
proof (induction ss arbitrary: off tot m)
  case Nil
  then show ?case by simp
next
  case (Cons s ss)
  show ?case
  proof (cases "f_pread fo f (unat (slen s)) off")
    case None
    then show ?thesis by simp
  next
    case (Some bs)
    show ?thesis
    proof (cases "buf_write m (hva s) bs")
      case (Inl e)
      then have "e = OutOfBounds" by (simp add: buf_simps)
      then show ?thesis using Some Inl by simp
    next
      case (Inr m1)
      then show ?thesis
        using Some Cons.IH [of "off + of_nat (length bs)" "tot + of_nat (length bs)" m1]
          buf_write_size [OF Inr] by (auto simp del: blk_in.simps simp: blk_in.simps(2))
    qed
  qed
qed

lemma blk_out_total:
  "\<forall>s \<in> set ss. hva s + unat (slen s) \<le> bsize m \<Longrightarrow> \<exists>r. blk_out fo ss off m f = Inr r"
proof (induction ss arbitrary: off f)
  case Nil
  then show ?case by (intro exI [of _ "(False, f)"]) simp
next
  case (Cons s ss)
  have "buf_read m (hva s) (unat (slen s)) = Inr (seg_bytes m s)"
    using Cons.prems buf_read_seg [of s m 0 "unat (slen s)"] by simp
  moreover obtain n f1 where "f_pwrite fo f (seg_bytes m s) off = (n, f1)"
    by (cases "f_pwrite fo f (seg_bytes m s) off")
  ultimately show ?case using Cons by (cases n) auto
qed


lemma write_result:
  "buf_write m p xs = Inl OutOfBounds \<or> (\<exists>m'. buf_write m p xs = Inr m' \<and> bsize m' = bsize m)"
  using buf_write_size [of m p xs] by (cases "buf_write m p xs") (auto simp: buf_simps)

lemma blk_handle_total:
  assumes so: "segs_ok (mem w) segs"
  shows "blk_handle segs d w = Inl OutOfBounds \<or>
    (\<exists>u m f. blk_handle segs d w = Inr (u, d, w\<lparr>mem := m, disk := f\<rparr>) \<and> bsize m = bsize (mem w))"
proof (cases "length segs < 2")
  case True
  then have "blk_handle segs d w = Inr (0, d, w\<lparr>mem := mem w, disk := disk w\<rparr>)"
    by (simp add: blk_handle_def)
  then show ?thesis by blast
next
  case False
  obtain got where got: "chain_read (mem w) segs 0 16 = Inr got"
    using chain_read_concat [of segs "mem w" 0 16] so by (auto simp: segs_ok_def)
  obtain type sector where rq: "blk_request (got @ drop (length got) (hdr_stack w)) = (type, sector)"
    by (cases "blk_request (got @ drop (length got) (hdr_stack w))")
  define st where "st = hva (last segs)"
  define data where "data = butlast (tl segs)"
  have bh: "blk_handle segs d w =
      rbind (buf_write (mem w) st [VIRTIO_BLK_S_OK]) (\<lambda>m0.
         if type = VIRTIO_BLK_T_IN then
           rbind (blk_in (fops w) (disk w) data (sector * 512) 0 m0) (\<lambda>(err, tot, m1).
           rbind (if err then buf_write m1 st [VIRTIO_BLK_S_IOERR] else Inr m1) (\<lambda>m2.
             Inr (tot + 1, d, w\<lparr>mem := m2\<rparr>)))
         else if type = VIRTIO_BLK_T_OUT then
           rbind (blk_out (fops w) data (sector * 512) m0 (disk w)) (\<lambda>(err, f1).
           rbind (if err then buf_write m0 st [VIRTIO_BLK_S_IOERR] else Inr m0) (\<lambda>m2.
             Inr (1, d, w\<lparr>mem := m2, disk := f1\<rparr>)))
         else if type = VIRTIO_BLK_T_FLUSH then
           Inr (1, d, w\<lparr>mem := m0, disk := f_sync (fops w) (disk w)\<rparr>)
         else
           rbind (buf_write m0 st [VIRTIO_BLK_S_UNSUPP]) (\<lambda>m2. Inr (1, d, w\<lparr>mem := m2\<rparr>)))"
    unfolding st_def data_def using False got rq by (simp add: blk_handle_def Let_def)
  have fin: ?thesis if "blk_handle segs d w = Inr (u, d, w\<lparr>mem := m\<rparr>)" "bsize m = bsize (mem w)" for u m
    using that by (intro disjI2 exI [of _ u] exI [of _ m] exI [of _ "disk w"]) simp
  have fin2: ?thesis
    if "blk_handle segs d w = Inr (u, d, w\<lparr>mem := m, disk := f\<rparr>)" "bsize m = bsize (mem w)" for u m f
    using that by blast
  consider "buf_write (mem w) st [VIRTIO_BLK_S_OK] = Inl OutOfBounds" |
    m0 where "buf_write (mem w) st [VIRTIO_BLK_S_OK] = Inr m0" "bsize m0 = bsize (mem w)"
    using write_result [of "mem w" st "[VIRTIO_BLK_S_OK]"] by blast
  then show ?thesis
  proof cases
    case 1
    then show ?thesis using bh by simp
  next
    case 2
    have ins: "\<forall>s \<in> set data. hva s + unat (slen s) \<le> bsize m0"
      using so 2(2) in_set_butlastD [of _ "tl segs"] list.set_sel(2) [of segs]
      by (fastforce simp: segs_ok_def data_def)
    consider "type = VIRTIO_BLK_T_IN" | "type = VIRTIO_BLK_T_OUT" | "type = VIRTIO_BLK_T_FLUSH" |
      "type \<noteq> VIRTIO_BLK_T_IN" "type \<noteq> VIRTIO_BLK_T_OUT" "type \<noteq> VIRTIO_BLK_T_FLUSH" by blast
    then show ?thesis
    proof cases
      case 1
      then have bh1: "blk_handle segs d w =
          rbind (blk_in (fops w) (disk w) data (sector * 512) 0 m0) (\<lambda>(err, tot, m1).
          rbind (if err then buf_write m1 st [VIRTIO_BLK_S_IOERR] else Inr m1) (\<lambda>m2.
            Inr (tot + 1, d, w\<lparr>mem := m2\<rparr>)))"
        using bh 2 by simp
      from blk_in_total [of "fops w" "disk w" data "sector * 512" 0 m0] show ?thesis
      proof (elim disjE exE conjE)
        fix r assume r: "blk_in (fops w) (disk w) data (sector * 512) 0 m0 = Inr r"
          "bsize (snd (snd r)) = bsize m0"
        obtain err tot m1 where rr: "r = (err, tot, m1)" by (cases r)
        show ?thesis
          using bh1 r rr 2(2) write_result [of m1 st "[VIRTIO_BLK_S_IOERR]"] fin
          by (cases err) fastforce+
      qed (simp add: bh1)
    next
      case 2
      then have bh1: "blk_handle segs d w =
           rbind (blk_out (fops w) data (sector * 512) m0 (disk w)) (\<lambda>(err, f1).
           rbind (if err then buf_write m0 st [VIRTIO_BLK_S_IOERR] else Inr m0) (\<lambda>m2.
             Inr (1, d, w\<lparr>mem := m2, disk := f1\<rparr>)))"
        using bh \<open>buf_write (mem w) st [VIRTIO_BLK_S_OK] = Inr m0\<close> by simp
      obtain err f1 where "blk_out (fops w) data (sector * 512) m0 (disk w) = Inr (err, f1)"
        using blk_out_total [OF ins, of "fops w" "sector * 512" "disk w"] by auto
      then show ?thesis
        using bh1 \<open>bsize m0 = bsize (mem w)\<close> write_result [of m0 st "[VIRTIO_BLK_S_IOERR]"]
          fin2 by (cases err) fastforce+
    next
      case 3
      then show ?thesis using bh \<open>buf_write (mem w) st [VIRTIO_BLK_S_OK] = Inr m0\<close>
        \<open>bsize m0 = bsize (mem w)\<close> by auto
    next
      case 4
      then have bh1: "blk_handle segs d w =
          rbind (buf_write m0 st [VIRTIO_BLK_S_UNSUPP]) (\<lambda>m2. Inr (1, d, w\<lparr>mem := m2\<rparr>))"
        using bh \<open>buf_write (mem w) st [VIRTIO_BLK_S_OK] = Inr m0\<close> by simp
      then show ?thesis
        using \<open>bsize m0 = bsize (mem w)\<close> write_result [of m0 st "[VIRTIO_BLK_S_UNSUPP]"] fin
        by fastforce
    qed
  qed
qed

interpretation blk: queue_handler "blk_handle :: 'f handler" 0 "{}" "{OutOfBounds}"
  "\<lambda>d :: virtio_dev. True"
proof unfold_locales
  fix d w and segs :: "seg list"
  assume ok: "dev_ok d w" "segs_ok (mem w) segs"
  from blk_handle_total [OF ok(2), of d]
  show "(\<exists>e \<in> {OutOfBounds}. blk_handle segs d w = Inl e) \<or>
      (\<exists>u d' w'. blk_handle segs d w = Inr (u, d', w') \<and> serves d w d' w' \<and> line_ok d' w' \<and>
        (\<forall>j. j \<notin> {} \<longrightarrow> vq_last (vqs d' ! j) = vq_last (vqs d ! j)))"
    using ok(1) by (auto simp: dev_ok_def line_ok_def serves_def)
qed simp_all

section \<open>Properties of the devices\<close>

lemma service_other_queue:
  "nqueues d \<le> qi \<or> qi < 0 \<Longrightarrow> service_with h qi d w = Inr (d, w)"
  by (auto simp: service_with_def)

lemma console_service_ok:
  assumes "dev_ok d w" "device_id d = VIRTIO_ID_CONSOLE" "nqueues d \<le> 2"
  shows "\<exists>d' w'. service_vq qi d w = Inr (d', w') \<and> serves d w d' w' \<and> line_ok d' w'"
proof -
  consider "qi < 0 \<or> nqueues d \<le> qi" | "qi = 0" | "qi = 1" using assms(3) by linarith
  then show ?thesis
  proof cases
    case 1
    then show ?thesis using assms(1) service_other_queue [of d qi "dev_handle d qi" w]
      by (auto simp: service_vq_def dev_ok_def)
  next
    case 2
    have "console_handle 0 = (console_receive :: 'a handler)"
      by (intro ext) (simp add: console_handle_def)
    then show ?thesis using con_rx.service_ok [OF assms(1), of 0] assms(2) 2
      by (auto simp: service_vq_def dev_handle_def)
  next
    case 3
    then show ?thesis using con_tx.service_ok [OF assms(1), of 1] assms(2)
      by (auto simp: service_vq_def dev_handle_def)
  qed
qed


definition ex_console :: virtio_dev where
  "ex_console = \<lparr>vbase = 0xd0000000, vgsi = 5, device_id = 3, status = 0, int_status = 0,
     dev_features = 0x100000000, drv_features = 0, dev_feat_sel = 0, drv_feat_sel = 0,
     queue_sel = 0, nqueues = 2, vqs = replicate 4 ex_vq, config = [], config_len = 12\<rparr>"

definition ex_blk_mem :: "u8 \<Rightarrow> cbuf" where
  "ex_blk_mem ty = \<lparr>bsize = 128, bdata = (\<lambda>a. if a = 0 then ty else if a = 32 then 65 else if a = 33 then 66 else 7)
     (1 := 0, 2 := 0, 3 := 0, 8 := 0, 9 := 0, 10 := 0, 11 := 0, 12 := 0, 13 := 0, 14 := 0, 15 := 0)\<rparr>"

definition ex_img :: img where
  "ex_img = \<lparr>ibyte = (\<lambda>a. of_nat a), isize = 1024\<rparr>"

definition ex_sys :: "cbuf \<Rightarrow> img vsys" where
  "ex_sys m = \<lparr>mem = m, con = \<lparr>cbuffer = (\<lambda>_. 0), chead = 0, ctail = 0\<rparr>, vtty = [], disk = ex_img,
     fops = img_ops, hdr_stack = replicate 16 0, use_eventfd = False, virq_calls = [], pulses = []\<rparr>"



definition ex_blk :: virtio_dev where
  "ex_blk = ex_console\<lparr>vbase := 0xd0000200, vgsi := 6, device_id := 2, nqueues := 1, config_len := 8\<rparr>"


text \<open>
  C6. A read request inside the image: the data descriptors receive, in order, exactly the
  bytes of the image from \<open>512 * sector\<close> on, the status byte is OK, the length reported is the
  data length plus one, and no other byte of guest RAM changes.
\<close>

theorem blk_read_effect:
  assumes "disk_image (fops w) contents"
    and ok: "blk_request_ok contents w hs data st VIRTIO_BLK_T_IN sector"
    and rng: "unat sector * 512 + segs_len data < 2 ^ 63"
  shows "\<exists>m'. blk_handle (hs # data @ [st]) d w =
      Inr (of_nat (segs_len data) + 1, d, w\<lparr>mem := m'\<rparr>) \<and>
    concat (map (seg_bytes m') data) =
      get_bytes (contents (disk w)) (unat sector * 512) (segs_len data) \<and>
    bdata m' (hva st) = VIRTIO_BLK_S_OK \<and>
    (\<forall>a. a \<noteq> hva st \<and> (\<forall>s \<in> set data. a \<notin> seg_range s) \<longrightarrow> bdata m' a = bdata (mem w) a)"
  using disk_image.blk_read_request [OF assms(1) ok refl, of d] sector_offset [OF rng] by auto

definition ex_hdr :: seg where "ex_hdr = \<lparr>hva = 0, slen = 16, writable = False\<rparr>"
definition ex_data :: seg where "ex_data = \<lparr>hva = 32, slen = 2, writable = True\<rparr>"
definition ex_data2 :: seg where "ex_data2 = \<lparr>hva = 40, slen = 2, writable = True\<rparr>"
definition ex_stat :: seg where "ex_stat = \<lparr>hva = 48, slen = 1, writable = True\<rparr>"

lemma ex_request:
  "blk_request (take 16 (seg_bytes (ex_blk_mem ty) ex_hdr)) = (ucast ty, 0)"
  by (simp add: blk_request_def seg_bytes_def ex_hdr_def ex_blk_mem_def upt_rec)

lemma ex_request_ok:
  "data \<in> {ex_data, ex_data2} \<Longrightarrow> t = ucast ty \<Longrightarrow>
     blk_request_ok img_contents (ex_sys (ex_blk_mem ty)) ex_hdr [data] ex_stat t 0"
  using ex_request [of ty]
  by (auto simp: blk_request_ok_def segs_ok_def ex_sys_def ex_hdr_def ex_data_def ex_data2_def ex_stat_def
      seg_range_def ex_img_def ex_blk_mem_def)

theorem blk_read_effect_witness:
  "\<exists>m'. blk_handle [ex_hdr, ex_data, ex_stat] ex_blk (ex_sys (ex_blk_mem 0)) =
      Inr (3, ex_blk, (ex_sys (ex_blk_mem 0))\<lparr>mem := m'\<rparr>) \<and> bdata m' 48 = 0"
  using blk_read_effect [of "ex_sys (ex_blk_mem 0)" img_contents ex_hdr "[ex_data]" ex_stat 0 ex_blk]
    ex_request_ok [of ex_data 0 0] image.disk_image_axioms
  by (auto simp: ex_sys_def ex_data_def ex_stat_def)

text \<open>
  C5. What a write request puts on the disk a later read request of the same sector returns:
  if the write was served and the read asks for as many bytes, the data descriptors of the read
  hold, after it, the bytes the data descriptors of the write held before it.
\<close>

theorem blk_write_then_read:
  assumes di: "disk_image (fops w) contents"
    and wr: "blk_request_ok contents w hs data st VIRTIO_BLK_T_OUT sector"
    and own: "hva st \<notin> \<Union> (seg_range ` set data)"
    and w1: "blk_handle (hs # data @ [st]) d w = Inr (u, d1, w1)"
    and rd: "blk_request_ok contents w1 hs2 data2 st2 VIRTIO_BLK_T_IN sector"
    and len: "segs_len data2 = segs_len data"
  shows "\<exists>w2. blk_handle (hs2 # data2 @ [st2]) d1 w1 = Inr (of_nat (segs_len data) + 1, d1, w2) \<and>
    concat (map (seg_bytes (mem w2)) data2) = concat (map (seg_bytes (mem w)) data) \<and>
    bdata (mem w2) (hva st2) = VIRTIO_BLK_S_OK"
proof -
  obtain m' f' where h: "blk_handle (hs # data @ [st]) d w = Inr (1, d, w\<lparr>mem := m', disk := f'\<rparr>)"
    "contents f' = put_bytes (contents (disk w)) (unat (sector * 512)) (concat (map (seg_bytes (mem w)) data))"
    using disk_image.blk_write_request [OF di wr refl own, of d] by blast
  then have w1': "w1 = w\<lparr>mem := m', disk := f'\<rparr>" "d1 = d" using w1 by auto
  have rng: "unat (sector * 512) + segs_len data \<le> length (contents (disk w))"
    using wr by (simp add: blk_request_ok_def)
  obtain m2 where m2: "blk_handle (hs2 # data2 @ [st2]) d1 w1 =
      Inr (of_nat (segs_len data2) + 1, d1, w1\<lparr>mem := m2\<rparr>)"
    "concat (map (seg_bytes m2) data2) = get_bytes (contents (disk w1)) (unat (sector * 512)) (segs_len data2)"
    "bdata m2 (hva st2) = VIRTIO_BLK_S_OK"
    using disk_image.blk_read_request [OF _ rd, of "fops w" d1] di w1' by auto
  have "get_bytes (contents (disk w1)) (unat (sector * 512)) (segs_len data) =
      concat (map (seg_bytes (mem w)) data)"
    using get_put_bytes [of "unat (sector * 512)" "concat (map (seg_bytes (mem w)) data)"
        "contents (disk w)"] rng h(2) w1' by (simp add: length_concat_segs)
  with m2 len show ?thesis by auto
qed

text \<open>
  C18. The byte offset of a request is \<open>sector * 512\<close> in 64 bits and the sector is not compared
  with the capacity the device reports: a write to sector \<open>s + 2^55\<close> is served, with status OK,
  by overwriting sector \<open>s\<close>.
\<close>

theorem blk_sector_wraps:
  assumes di: "disk_image (fops w) contents"
    and wr: "blk_request_ok contents w hs data st VIRTIO_BLK_T_OUT sector"
    and own: "hva st \<notin> \<Union> (seg_range ` set data)"
    and far: "sector = s + 2 ^ 55" "unat s < 2 ^ 54"
  shows "\<exists>m' f'. blk_handle (hs # data @ [st]) d w = Inr (1, d, w\<lparr>mem := m', disk := f'\<rparr>) \<and>
    contents f' = put_bytes (contents (disk w)) (unat s * 512) (concat (map (seg_bytes (mem w)) data)) \<and>
    bdata m' (hva st) = VIRTIO_BLK_S_OK"
proof -
  have "sector * 512 = s * 512"
    unfolding far(1) by (simp add: distrib_right)
  moreover have "unat (s * 512) = unat s * 512"
    using far(2) by (intro sector_offset [of s 0]) simp
  ultimately show ?thesis
    using disk_image.blk_write_request [OF di wr refl own, of d] by auto
qed

text \<open>
  C14. The status byte is written at the address of the last descriptor whatever its length: a
  request whose last descriptor is empty and sits at the very end of guest RAM, which
  \<open>gather_chain\<close> accepts, makes the device write one byte past guest RAM.
\<close>

theorem blk_status_out_of_bounds:
  assumes "segs_ok (mem w) (hs # data @ [st])" "slen st = 0" "hva st = bsize (mem w)"
  shows "blk_handle (hs # data @ [st]) d w = Inl OutOfBounds"
proof -
  obtain got where "chain_read (mem w) (hs # data @ [st]) 0 16 = Inr got"
    using chain_read_concat [of "hs # data @ [st]" "mem w" 0 16] assms(1) by (auto simp: segs_ok_def)
  moreover have "buf_write (mem w) (hva st) [VIRTIO_BLK_S_OK] = Inl OutOfBounds"
    using assms(3) by (simp add: buf_write_def)
  ultimately show ?thesis
    by (simp add: blk_handle_def Let_def split_beta del: chain_read.simps)
qed

theorem blk_status_out_of_bounds_witness:
  "blk_handle [ex_hdr, \<lparr>hva = 128, slen = 0, writable = True\<rparr>] ex_blk (ex_sys (ex_blk_mem 0)) =
     Inl OutOfBounds"
  using blk_status_out_of_bounds [of "ex_sys (ex_blk_mem 0)" ex_hdr "[]" "\<lparr>hva = 128, slen = 0, writable = True\<rparr>"]
  by (simp add: segs_ok_def ex_sys_def ex_blk_mem_def ex_hdr_def)

definition ex_hdr2 :: seg where "ex_hdr2 = \<lparr>hva = 64, slen = 16, writable = False\<rparr>"

definition ex_rw_mem :: "u64 \<Rightarrow> cbuf" where
  "ex_rw_mem sector = \<lparr>bsize = 128, bdata =
     bytes_upd (\<lambda>a. if a = 0 then 1 else if a = 32 then 65 else if a = 33 then 66 else 0) 8 (le_bytes 8 sector)\<rparr>"

lemma ex_rw_request:
  "blk_request (take 16 (seg_bytes (ex_rw_mem sector) ex_hdr)) = (1, sector)"
proof -
  have h: "take 16 (seg_bytes (ex_rw_mem sector) ex_hdr) = (1 # replicate 7 0) @ le_bytes 8 sector"
    by (rule nth_equalityI)
      (auto simp: seg_bytes_def ex_rw_mem_def ex_hdr_def bytes_upd_def nth_append nth_Cons' min_def)
  have "take 4 ((1 # replicate 7 0) @ xs) = [1, 0, 0, 0 :: u8]" for xs
    by (simp add: take_Cons' min_def numeral_3_eq_3)
  moreover have "take 8 (drop 8 ((1 # replicate 7 (0 :: u8)) @ le_bytes 8 sector)) = le_bytes 8 sector"
    by simp
  moreover have "le_val (le_bytes 8 sector) = sector" by (rule le_val_le_bytes_full) simp
  moreover have "le_val [1, 0, 0, 0] = (1 :: u32)" by simp
  ultimately show ?thesis unfolding h blk_request_def by (simp only:)
qed

lemma ex_rw_request2:
  "blk_request (take 16 (seg_bytes (ex_rw_mem sector) ex_hdr2)) = (0, 0)"
proof -
  have h: "take 16 (seg_bytes (ex_rw_mem sector) ex_hdr2) = replicate 16 0"
    by (rule nth_equalityI)
      (auto simp: seg_bytes_def ex_rw_mem_def ex_hdr2_def bytes_upd_def min_def)
  show ?thesis unfolding h by (simp add: blk_request_def numeral_eq_Suc)
qed

lemma ex_rw_ok:
  "sector * 512 = 0 \<Longrightarrow> blk_request_ok img_contents (ex_sys (ex_rw_mem sector)) ex_hdr [ex_data] ex_stat 1 sector"
  using ex_rw_request [of sector]
  by (simp add: blk_request_ok_def segs_ok_def ex_sys_def ex_hdr_def ex_data_def ex_stat_def
      seg_range_def ex_img_def ex_rw_mem_def)

lemma ex_own: "hva ex_stat \<notin> \<Union> (seg_range ` set [ex_data])"
  by (simp add: ex_stat_def ex_data_def seg_range_def)

lemma ex_sys_simps [simp]: "mem (ex_sys m) = m" "disk (ex_sys m) = ex_img" "fops (ex_sys m) = img_ops"
  by (simp_all add: ex_sys_def)

theorem blk_sector_wraps_witness:
  "\<exists>m' f'. blk_handle [ex_hdr, ex_data, ex_stat] ex_blk (ex_sys (ex_rw_mem (2 ^ 55))) =
      Inr (1, ex_blk, (ex_sys (ex_rw_mem (2 ^ 55)))\<lparr>mem := m', disk := f'\<rparr>) \<and>
    img_contents f' = put_bytes (img_contents ex_img) 0 [65, 66]"
proof -
  have di: "disk_image (fops (ex_sys m)) img_contents" for m by (simp add: image.disk_image_axioms)
  have "concat (map (seg_bytes (mem (ex_sys (ex_rw_mem (2 ^ 55))))) [ex_data]) = [65, 66]"
    by (simp add: seg_bytes_def ex_data_def ex_rw_mem_def bytes_upd_def upt_rec)
  with blk_sector_wraps [OF di ex_rw_ok ex_own, of "2 ^ 55" 0 ex_blk] show ?thesis by auto
qed

theorem blk_write_then_read_witness:
  "\<exists>u w1 w2. blk_handle [ex_hdr, ex_data, ex_stat] ex_blk (ex_sys (ex_rw_mem 0)) = Inr (u, ex_blk, w1) \<and>
     blk_handle [ex_hdr2, ex_data2, ex_stat] ex_blk w1 = Inr (3, ex_blk, w2) \<and>
     concat (map (seg_bytes (mem w2)) [ex_data2]) = [65, 66]"
proof -
  let ?w = "ex_sys (ex_rw_mem 0)"
  have di: "disk_image (fops (ex_sys m)) img_contents" for m by (simp add: image.disk_image_axioms)
  have wr: "blk_request_ok img_contents ?w ex_hdr [ex_data] ex_stat 1 0" by (rule ex_rw_ok) simp
  have dt: "concat (map (seg_bytes (mem ?w)) [ex_data]) = [65, 66]"
    by (simp add: seg_bytes_def ex_data_def ex_rw_mem_def bytes_upd_def upt_rec)
  obtain m' f' where h: "blk_handle (ex_hdr # [ex_data] @ [ex_stat]) ex_blk ?w =
      Inr (1, ex_blk, ?w\<lparr>mem := m', disk := f'\<rparr>)" "bsize m' = bsize (mem ?w)"
    "img_contents f' = put_bytes (img_contents ex_img) 0 [65, 66]"
    "\<forall>a. a \<noteq> hva ex_stat \<longrightarrow> bdata m' a = bdata (mem ?w) a"
    using disk_image.blk_write_request [OF di wr refl ex_own, of ex_blk] dt by auto
  have "seg_bytes m' ex_hdr2 = seg_bytes (ex_rw_mem 0) ex_hdr2"
    using h(4) by (intro seg_bytes_frame) (auto simp: seg_range_def ex_hdr2_def ex_stat_def)
  moreover have "length (img_contents f') = 1024"
    unfolding h(3) by (simp add: put_bytes_def ex_img_def)
  ultimately have rd: "blk_request_ok img_contents (?w\<lparr>mem := m', disk := f'\<rparr>) ex_hdr2 [ex_data2] ex_stat 0 0"
    using ex_rw_request2 [of 0] h(2)
    by (simp add: blk_request_ok_def segs_ok_def ex_hdr2_def ex_data2_def ex_stat_def
        seg_range_def ex_rw_mem_def)
  have len: "segs_len [ex_data2] = segs_len [ex_data]" by (simp add: ex_data_def ex_data2_def)
  have n: "(of_nat (segs_len [ex_data]) + 1 :: u32) = 3" by (simp add: ex_data_def)
  from blk_write_then_read [OF di wr ex_own h(1) rd len] h(1) dt n show ?thesis by auto
qed

end
