(* ===== verification/VirtioMmio.thy ===== *)
theory VirtioMmio
  imports VirtioDev
begin

text \<open>
  The register window of the two virtio-mmio devices of \<open>minivmm.c\<close>: reads, writes, reset, the
  dispatch of \<open>KVM_EXIT_MMIO\<close>, the device instances, and the eventfd path with its worker.
\<close>

section \<open>Registers\<close>

abbreviation (input) VMMIO_MAGIC :: u64 where "VMMIO_MAGIC \<equiv> 0x000"
abbreviation (input) VMMIO_VERSION :: u64 where "VMMIO_VERSION \<equiv> 0x004"
abbreviation (input) VMMIO_DEVICE_ID :: u64 where "VMMIO_DEVICE_ID \<equiv> 0x008"
abbreviation (input) VMMIO_VENDOR_ID :: u64 where "VMMIO_VENDOR_ID \<equiv> 0x00c"
abbreviation (input) VMMIO_DEV_FEATURES :: u64 where "VMMIO_DEV_FEATURES \<equiv> 0x010"
abbreviation (input) VMMIO_DEV_FEATURES_SEL :: u64 where "VMMIO_DEV_FEATURES_SEL \<equiv> 0x014"
abbreviation (input) VMMIO_DRV_FEATURES :: u64 where "VMMIO_DRV_FEATURES \<equiv> 0x020"
abbreviation (input) VMMIO_DRV_FEATURES_SEL :: u64 where "VMMIO_DRV_FEATURES_SEL \<equiv> 0x024"
abbreviation (input) VMMIO_QUEUE_SEL :: u64 where "VMMIO_QUEUE_SEL \<equiv> 0x030"
abbreviation (input) VMMIO_QUEUE_NUM_MAX :: u64 where "VMMIO_QUEUE_NUM_MAX \<equiv> 0x034"
abbreviation (input) VMMIO_QUEUE_NUM :: u64 where "VMMIO_QUEUE_NUM \<equiv> 0x038"
abbreviation (input) VMMIO_QUEUE_READY :: u64 where "VMMIO_QUEUE_READY \<equiv> 0x044"
abbreviation (input) VMMIO_QUEUE_NOTIFY :: u64 where "VMMIO_QUEUE_NOTIFY \<equiv> 0x050"
abbreviation (input) VMMIO_INT_STATUS :: u64 where "VMMIO_INT_STATUS \<equiv> 0x060"
abbreviation (input) VMMIO_INT_ACK :: u64 where "VMMIO_INT_ACK \<equiv> 0x064"
abbreviation (input) VMMIO_STATUS :: u64 where "VMMIO_STATUS \<equiv> 0x070"
abbreviation (input) VMMIO_QUEUE_DESC_LOW :: u64 where "VMMIO_QUEUE_DESC_LOW \<equiv> 0x080"
abbreviation (input) VMMIO_QUEUE_DESC_HIGH :: u64 where "VMMIO_QUEUE_DESC_HIGH \<equiv> 0x084"
abbreviation (input) VMMIO_QUEUE_AVAIL_LOW :: u64 where "VMMIO_QUEUE_AVAIL_LOW \<equiv> 0x090"
abbreviation (input) VMMIO_QUEUE_AVAIL_HIGH :: u64 where "VMMIO_QUEUE_AVAIL_HIGH \<equiv> 0x094"
abbreviation (input) VMMIO_QUEUE_USED_LOW :: u64 where "VMMIO_QUEUE_USED_LOW \<equiv> 0x0a0"
abbreviation (input) VMMIO_QUEUE_USED_HIGH :: u64 where "VMMIO_QUEUE_USED_HIGH \<equiv> 0x0a4"
abbreviation (input) VMMIO_CONFIG_GEN :: u64 where "VMMIO_CONFIG_GEN \<equiv> 0x0fc"
abbreviation (input) VMMIO_CONFIG :: u64 where "VMMIO_CONFIG \<equiv> 0x100"

definition sel_queue :: "virtio_dev \<Rightarrow> nat" where
  "sel_queue d = (if queue_sel d < 4 then unat (queue_sel d) else 0)"

definition set_vq :: "(vq \<Rightarrow> vq) \<Rightarrow> virtio_dev \<Rightarrow> virtio_dev" where
  "set_vq f d = d\<lparr>vqs := (vqs d)[sel_queue d := f (vqs d ! sel_queue d)]\<rparr>"

definition in_config :: "virtio_dev \<Rightarrow> u64 \<Rightarrow> nat \<Rightarrow> bool" where
  "in_config d off len \<longleftrightarrow>
     off \<ge> VMMIO_CONFIG \<and> off + of_nat len \<le> VMMIO_CONFIG + of_nat (config_len d)"

text \<open>The local variable the configuration bytes are copied through holds 8 bytes.\<close>

definition virtio_mmio_read :: "virtio_dev \<Rightarrow> u64 \<Rightarrow> nat \<Rightarrow> u64 res" where
  "virtio_mmio_read d off len =
     (if off = VMMIO_MAGIC then Inr 0x74726976
      else if off = VMMIO_VERSION then Inr 2
      else if off = VMMIO_DEVICE_ID then Inr (ucast (device_id d))
      else if off = VMMIO_VENDOR_ID then Inr 0xffff
      else if off = VMMIO_DEV_FEATURES then
        Inr (drop_bit (32 * unat (dev_feat_sel d AND 1)) (dev_features d) AND 0xffffffff)
      else if off = VMMIO_QUEUE_NUM_MAX then
        Inr (if int (unat (queue_sel d)) < nqueues d then 256 else 0)
      else if off = VMMIO_QUEUE_READY then Inr (scast (vq_ready (vqs d ! sel_queue d)))
      else if off = VMMIO_INT_STATUS then Inr (ucast (int_status d))
      else if off = VMMIO_STATUS then Inr (ucast (status d))
      else if off = VMMIO_CONFIG_GEN then Inr 0
      else if in_config d off len then
        (let o' = unat (off - VMMIO_CONFIG) in
         if len > 8 \<or> o' + len > length (config d) then Inl OutOfBounds
         else Inr (le_val (take len (drop o' (config d)))))
      else Inr 0)"

fun reset_queues :: "nat \<Rightarrow> vq list \<Rightarrow> vq list" where
  "reset_queues 0 qs = qs"
| "reset_queues (Suc n) qs =
     (let qs1 = reset_queues n qs in qs1[n := (qs1 ! n)\<lparr>vq_ready := 0, vq_last := 0\<rparr>])"

definition virtio_reset :: "virtio_dev \<Rightarrow> 'f vsys \<Rightarrow> virtio_dev \<times> 'f vsys" where
  "virtio_reset d w =
     (d\<lparr>status := 0, int_status := 0, vqs := reset_queues (nat (nqueues d)) (vqs d)\<rparr>,
      w\<lparr>virq_calls := virq_calls w @ [(vgsi d, False)]\<rparr>)"

definition low32 :: "u64 \<Rightarrow> u64 \<Rightarrow> u64" where
  "low32 old val = (old AND 0xffffffff00000000) OR ucast (ucast val :: u32)"

definition high32 :: "u64 \<Rightarrow> u64 \<Rightarrow> u64" where
  "high32 old val = (old AND 0xffffffff) OR push_bit 32 (ucast (ucast val :: u32))"

definition config_write :: "virtio_dev \<Rightarrow> u64 \<Rightarrow> nat \<Rightarrow> u64 \<Rightarrow> virtio_dev res" where
  "config_write d off len val =
     (if in_config d off len then
        (let o' = unat (off - VMMIO_CONFIG) in
         if len > 8 \<or> o' + len > length (config d) then Inl OutOfBounds
         else Inr (d\<lparr>config := take o' (config d) @ le_bytes len val @ drop (o' + len) (config d)\<rparr>))
      else Inr d)"

definition virtio_mmio_write ::
  "u64 \<Rightarrow> nat \<Rightarrow> u64 \<Rightarrow> virtio_dev \<Rightarrow> 'f vsys \<Rightarrow> (virtio_dev \<times> 'f vsys) res" where
  "virtio_mmio_write off len val d w =
     (if off = VMMIO_DEV_FEATURES_SEL then Inr (d\<lparr>dev_feat_sel := ucast val\<rparr>, w)
      else if off = VMMIO_DRV_FEATURES_SEL then Inr (d\<lparr>drv_feat_sel := ucast val\<rparr>, w)
      else if off = VMMIO_DRV_FEATURES then
        Inr (if drv_feat_sel d AND 1 \<noteq> 0
             then d\<lparr>drv_features := drv_features d OR push_bit 32 (val AND 0xffffffff)\<rparr>
             else d\<lparr>drv_features := drv_features d OR (val AND 0xffffffff)\<rparr>, w)
      else if off = VMMIO_QUEUE_SEL then Inr (d\<lparr>queue_sel := ucast val\<rparr>, w)
      else if off = VMMIO_QUEUE_NUM then Inr (set_vq (\<lambda>q. q\<lparr>vq_num := ucast val\<rparr>) d, w)
      else if off = VMMIO_QUEUE_READY then Inr (set_vq (\<lambda>q. q\<lparr>vq_ready := ucast val\<rparr>) d, w)
      else if off = VMMIO_QUEUE_DESC_LOW then Inr (set_vq (\<lambda>q. q\<lparr>vq_desc := low32 (vq_desc q) val\<rparr>) d, w)
      else if off = VMMIO_QUEUE_DESC_HIGH then Inr (set_vq (\<lambda>q. q\<lparr>vq_desc := high32 (vq_desc q) val\<rparr>) d, w)
      else if off = VMMIO_QUEUE_AVAIL_LOW then Inr (set_vq (\<lambda>q. q\<lparr>vq_avail := low32 (vq_avail q) val\<rparr>) d, w)
      else if off = VMMIO_QUEUE_AVAIL_HIGH then Inr (set_vq (\<lambda>q. q\<lparr>vq_avail := high32 (vq_avail q) val\<rparr>) d, w)
      else if off = VMMIO_QUEUE_USED_LOW then Inr (set_vq (\<lambda>q. q\<lparr>vq_used := low32 (vq_used q) val\<rparr>) d, w)
      else if off = VMMIO_QUEUE_USED_HIGH then Inr (set_vq (\<lambda>q. q\<lparr>vq_used := high32 (vq_used q) val\<rparr>) d, w)
      else if off = VMMIO_QUEUE_NOTIFY then service_vq (uint (val AND 0xffff)) d w
      else if off = VMMIO_INT_ACK then
        (let d1 = d\<lparr>int_status := int_status d AND NOT (ucast val)\<rparr> in Inr (d1, virtio_lower_irq d1 w))
      else if off = VMMIO_STATUS then
        Inr (if val = 0 then virtio_reset d w else (d\<lparr>status := ucast val\<rparr>, w))
      else rbind (config_write d off len val) (\<lambda>d1. Inr (d1, w)))"

section \<open>Instances\<close>

datatype devid = Console | Blk

record 'f vio =
  vdev_console :: virtio_dev
  vdev_blk :: virtio_dev
  vsys :: "'f vsys"
  notify_regs :: "(devid \<times> int) list"

abbreviation (input) VIRTIO_CONSOLE_BASE :: u64 where "VIRTIO_CONSOLE_BASE \<equiv> 0xd0000000"
abbreviation (input) VIRTIO_BLK_BASE :: u64 where "VIRTIO_BLK_BASE \<equiv> 0xd0000200"
abbreviation (input) VIRTIO_REGION_SIZE :: u64 where "VIRTIO_REGION_SIZE \<equiv> 0x200"

definition vq_zero :: vq where
  "vq_zero = \<lparr>vq_num = 0, vq_desc = 0, vq_avail = 0, vq_used = 0, vq_ready = 0, vq_last = 0\<rparr>"

definition console_init :: virtio_dev where
  "console_init = \<lparr>vbase = VIRTIO_CONSOLE_BASE, vgsi = 5, device_id = VIRTIO_ID_CONSOLE, status = 0,
     int_status = 0, dev_features = push_bit 32 1, drv_features = 0, dev_feat_sel = 0,
     drv_feat_sel = 0, queue_sel = 0, nqueues = 2, vqs = replicate 4 vq_zero,
     config = [80, 0, 24, 0, 1] @ replicate 59 0, config_len = 12\<rparr>"

definition blk_init :: virtio_dev where
  "blk_init = \<lparr>vbase = VIRTIO_BLK_BASE, vgsi = 6, device_id = VIRTIO_ID_BLK, status = 0,
     int_status = 0, dev_features = push_bit 32 1, drv_features = 0, dev_feat_sel = 0,
     drv_feat_sel = 0, queue_sel = 0, nqueues = 1, vqs = replicate 4 vq_zero,
     config = replicate 64 0, config_len = 8\<rparr>"

text \<open>
  \<open>blk_open\<close>: \<open>existing\<close> is the size of the image if it could be opened; otherwise it is created
  (\<open>created\<close>) and extended to 64 MB (\<open>truncated\<close>).  \<open>seek\<close> is what \<open>lseek\<close> answers for a size.
  \<open>None\<close> is \<open>DIE\<close>.
\<close>

definition blk_open ::
  "int option \<Rightarrow> bool \<Rightarrow> bool \<Rightarrow> (int \<Rightarrow> int) \<Rightarrow> virtio_dev \<Rightarrow> virtio_dev option" where
  "blk_open existing created truncated seek d =
     (let opened = (case existing of Some n \<Rightarrow> Some n
                    | None \<Rightarrow> if created \<and> truncated then Some (64 * 2 ^ 20) else None)
      in case opened of None \<Rightarrow> None
         | Some n \<Rightarrow> let sz = seek n in
             if sz < 0 then None
             else Some (d\<lparr>config := le_bytes 8 (word_of_int sz div 512 :: u64) @ drop 8 (config d)\<rparr>))"

definition dev_at :: "u64 \<Rightarrow> devid option" where
  "dev_at pa =
     (if pa \<ge> VIRTIO_CONSOLE_BASE \<and> pa < VIRTIO_CONSOLE_BASE + VIRTIO_REGION_SIZE then Some Console
      else if pa \<ge> VIRTIO_BLK_BASE \<and> pa < VIRTIO_BLK_BASE + VIRTIO_REGION_SIZE then Some Blk
      else None)"

definition get_dev :: "devid \<Rightarrow> 'f vio \<Rightarrow> virtio_dev" where
  "get_dev i v = (case i of Console \<Rightarrow> vdev_console v | Blk \<Rightarrow> vdev_blk v)"

definition put_dev :: "devid \<Rightarrow> virtio_dev \<times> 'f vsys \<Rightarrow> 'f vio \<Rightarrow> 'f vio" where
  "put_dev i = (\<lambda>(d, w) v.
     (case i of Console \<Rightarrow> v\<lparr>vdev_console := d, vsys := w\<rparr> | Blk \<Rightarrow> v\<lparr>vdev_blk := d, vsys := w\<rparr>))"

text \<open>
  The result says whether an address in one of the two windows was hit, with the data bytes
  (updated on a read) and the new state.
\<close>

definition handle_virtio_mmio ::
  "u64 \<Rightarrow> nat \<Rightarrow> bool \<Rightarrow> u8 list \<Rightarrow> 'f vio \<Rightarrow> (bool \<times> u8 list \<times> 'f vio) res" where
  "handle_virtio_mmio pa len is_write data v =
     (case dev_at pa of
        None \<Rightarrow> Inr (False, data, v)
      | Some i \<Rightarrow>
          (let d = get_dev i v; off = pa - vbase d in
           if len > 8 \<or> len > length data then Inl OutOfBounds
           else if is_write then
             rbind (virtio_mmio_write off len (le_val (take len data)) d (vsys v)) (\<lambda>dw.
               Inr (True, data, put_dev i dw v))
           else
             rbind (virtio_mmio_read d off len) (\<lambda>val.
               Inr (True, le_bytes len val @ drop len data, v))))"

section \<open>The eventfd path\<close>

abbreviation (input) MAX_NOTIFY_REGS :: nat where "MAX_NOTIFY_REGS \<equiv> 8"

text \<open>
  What \<open>add_ioeventfd\<close> asks of KVM: the guest writes it replaces.  The registry is what the
  worker indexes; \<open>None\<close> is \<open>DIE\<close> (the eight entries are used up).
\<close>

record ioeventfd =
  io_addr :: u64
  io_len :: nat
  io_datamatch :: u64

definition ioeventfd_of :: "virtio_dev \<Rightarrow> int \<Rightarrow> ioeventfd" where
  "ioeventfd_of d qi = \<lparr>io_addr = vbase d + VMMIO_QUEUE_NOTIFY, io_len = 4, io_datamatch = word_of_int qi\<rparr>"

definition add_ioeventfd :: "devid \<Rightarrow> int \<Rightarrow> 'f vio \<Rightarrow> 'f vio option" where
  "add_ioeventfd i qi v =
     (if length (notify_regs v) \<ge> MAX_NOTIFY_REGS then None
      else Some (v\<lparr>notify_regs := notify_regs v @ [(i, qi)]\<rparr>))"

fun add_queues :: "devid \<Rightarrow> int list \<Rightarrow> 'f vio \<Rightarrow> 'f vio option" where
  "add_queues i [] v = Some v"
| "add_queues i (qi # qs) v = Option.bind (add_ioeventfd i qi v) (add_queues i qs)"

definition virtio_eventfds_setup :: "'f vio \<Rightarrow> 'f vio option" where
  "virtio_eventfds_setup v =
     Option.bind (add_queues Console [0..nqueues (vdev_console v) - 1] v)
       (add_queues Blk [0..nqueues (vdev_blk v) - 1])"

text \<open>The worker: each event is an index into the registry.\<close>

fun virtio_worker :: "nat list \<Rightarrow> 'f vio \<Rightarrow> 'f vio res" where
  "virtio_worker [] v = Inr v"
| "virtio_worker (k # evs) v =
     (if k < length (notify_regs v) then
        (let (i, qi) = notify_regs v ! k in
         rbind (service_vq qi (get_dev i v) (vsys v)) (\<lambda>dw. virtio_worker evs (put_dev i dw v)))
      else Inl OutOfBounds)"

section \<open>What every register access keeps\<close>

definition dev_static :: "devid \<Rightarrow> virtio_dev \<Rightarrow> bool" where
  "dev_static i d \<longleftrightarrow> length (vqs d) = 4 \<and> length (config d) = 64 \<and> config_len d \<le> 64 \<and>
     (case i of
        Console \<Rightarrow> device_id d = VIRTIO_ID_CONSOLE \<and> nqueues d = 2 \<and> vgsi d = 5 \<and> vbase d = VIRTIO_CONSOLE_BASE
      | Blk \<Rightarrow> device_id d = VIRTIO_ID_BLK \<and> nqueues d = 1 \<and> vgsi d = 6 \<and> vbase d = VIRTIO_BLK_BASE)"

definition keeps :: "virtio_dev \<Rightarrow> 'f vsys \<Rightarrow> 'f vsys \<Rightarrow> bool" where
  "keeps d w w' \<longleftrightarrow> bsize (mem w') = bsize (mem w) \<and> use_eventfd w' = use_eventfd w \<and>
     (\<forall>g. g \<noteq> vgsi d \<longrightarrow> line_level g (virq_calls w') = line_level g (virq_calls w))"

definition mmio_ok :: "devid \<Rightarrow> virtio_dev \<Rightarrow> 'f vsys \<Rightarrow> bool" where
  "mmio_ok i d w \<longleftrightarrow> dev_static i d \<and> dev_ok d w"

lemma sel_queue_less [simp]: "sel_queue d < 4"
  by (auto simp: sel_queue_def word_less_nat_alt)

lemma set_vq_ok:
  assumes "mmio_ok i d w" "\<And>q. vq_num q \<noteq> 0xffffffff \<Longrightarrow> vq_num (f q) \<noteq> 0xffffffff"
  shows "mmio_ok i (set_vq f d) w"
proof -
  have l: "sel_queue d < length (vqs d)"
    using assms(1) by (cases i) (simp_all add: mmio_ok_def dev_static_def)
  have "\<forall>q \<in> set (vqs (set_vq f d)). vq_num q \<noteq> 0xffffffff"
    using assms l set_update_subset_insert [of "vqs d" "sel_queue d" "f (vqs d ! sel_queue d)"]
    by (auto simp: set_vq_def mmio_ok_def dev_ok_def)
  then show ?thesis using assms(1)
    by (auto simp: mmio_ok_def dev_ok_def dev_static_def set_vq_def line_ok_def split: devid.splits)
qed

lemma length_reset_queues [simp]: "length (reset_queues n qs) = length qs"
  by (induction n) (auto simp: Let_def)

lemma reset_queues_nth:
  "n \<le> length qs \<Longrightarrow> j < length qs \<Longrightarrow>
     reset_queues n qs ! j = (if j < n then (qs ! j)\<lparr>vq_ready := 0, vq_last := 0\<rparr> else qs ! j)"
  by (induction n) (auto simp: Let_def nth_list_update less_Suc_eq)

lemma reset_nums:
  assumes "n \<le> length qs" "\<forall>q \<in> set qs. vq_num q \<noteq> k"
  shows "\<forall>q \<in> set (reset_queues n qs). vq_num q \<noteq> k"
proof
  fix q assume "q \<in> set (reset_queues n qs)"
  then obtain j where j: "j < length qs" "q = reset_queues n qs ! j"
    by (auto simp: in_set_conv_nth)
  then have "vq_num q = vq_num (qs ! j)" using reset_queues_nth [OF assms(1) j(1)] by simp
  with assms(2) j(1) show "vq_num q \<noteq> k" by simp
qed

lemma reset_ok:
  assumes "mmio_ok i d w" "virtio_reset d w = (d', w')"
  shows "mmio_ok i d' w'" "keeps d w w'"
proof -
  define qs where "qs = reset_queues (nat (nqueues d)) (vqs d)"
  have n: "nat (nqueues d) \<le> length (vqs d)" using assms(1)
    by (auto simp: mmio_ok_def dev_static_def split: devid.splits)
  have "\<forall>q \<in> set (vqs d). vq_num q \<noteq> 0xffffffff" using assms(1) by (simp add: mmio_ok_def dev_ok_def)
  then have q: "\<forall>q \<in> set qs. vq_num q \<noteq> 0xffffffff" "length qs = length (vqs d)"
    unfolding qs_def using reset_nums [OF n] by simp_all
  have d': "d' = d\<lparr>status := 0, int_status := 0, vqs := qs\<rparr>"
    "w' = w\<lparr>virq_calls := virq_calls w @ [(vgsi d, False)]\<rparr>"
    using assms(2) by (auto simp: virtio_reset_def qs_def)
  show "mmio_ok i d' w'" using assms(1) q unfolding d'
    by (auto simp: mmio_ok_def dev_ok_def dev_static_def line_ok_def split: devid.splits)
  show "keeps d w w'" unfolding d' by (simp add: keeps_def)
qed

lemma ack_ok:
  assumes "mmio_ok i d w"
  shows "mmio_ok i (d\<lparr>int_status := int_status d AND m\<rparr>) (virtio_lower_irq (d\<lparr>int_status := int_status d AND m\<rparr>) w)"
    "keeps d w (virtio_lower_irq (d\<lparr>int_status := int_status d AND m\<rparr>) w)"
  using assms
  by (auto simp: mmio_ok_def dev_static_def dev_ok_def line_ok_def virtio_lower_irq_def keeps_def
      split: devid.splits)

lemma in_config_range:
  assumes "in_config d off len" "off < VIRTIO_REGION_SIZE" "len \<le> 8" "config_len d \<le> 64"
  shows "unat (off - VMMIO_CONFIG) + len \<le> config_len d"
proof -
  have o: "256 \<le> unat off" "unat off < 512"
    using assms(1,2) by (auto simp: in_config_def word_le_nat_alt word_less_nat_alt)
  have "unat (off + of_nat len) = unat off + len"
    using o assms(3) by (simp add: unat_word_ariths unat_of_nat)
  moreover have "unat (VMMIO_CONFIG + of_nat (config_len d)) = 256 + config_len d"
    using assms(4) by (simp add: unat_word_ariths unat_of_nat)
  ultimately have "unat off + len \<le> 256 + config_len d"
    using assms(1) by (simp add: in_config_def word_le_nat_alt)
  moreover have "unat (off - VMMIO_CONFIG) = unat off - 256"
    using o by (simp add: unat_sub word_le_nat_alt)
  ultimately show ?thesis using o by simp
qed

lemma config_write_ok:
  assumes "mmio_ok i d w" "len \<le> 8" "off < VIRTIO_REGION_SIZE"
  obtains d' where "config_write d off len val = Inr d'" "mmio_ok i d' w"
proof (cases "in_config d off len")
  case False
  then show thesis using that [of d] assms(1) by (simp add: config_write_def)
next
  case True
  have cl: "config_len d \<le> 64" "length (config d) = 64"
    using assms(1) by (auto simp: mmio_ok_def dev_static_def)
  define o' where "o' = unat (off - VMMIO_CONFIG)"
  have "o' + len \<le> 64" using in_config_range [OF True assms(3,2) cl(1)] cl(1) by (simp add: o'_def)
  then show thesis
    using that [of "d\<lparr>config := take o' (config d) @ le_bytes len val @ drop (o' + len) (config d)\<rparr>"]
      True assms cl
    by (auto simp: config_write_def o'_def [symmetric] Let_def mmio_ok_def dev_static_def dev_ok_def
        line_ok_def split: devid.splits)
qed

lemma static_serves:
  assumes "dev_static i d" "serves d w d' w'"
  shows "dev_static i d'"
proof -
  have "length (vqs d') = length (vqs d)"
    using assms(2) map_eq_imp_length_eq by (auto simp: serves_def)
  with assms show ?thesis by (auto simp: dev_static_def serves_def split: devid.splits)
qed

lemma service_static:
  assumes "mmio_ok i d w"
  shows "(i = Blk \<and> service_vq qi d w = Inl OutOfBounds) \<or>
    (\<exists>d' w'. service_vq qi d w = Inr (d', w') \<and> mmio_ok i d' w' \<and> serves d w d' w')"
proof -
  have ok: "dev_ok d w" "dev_static i d" using assms by (simp_all add: mmio_ok_def)
  have "(i = Blk \<and> service_vq qi d w = Inl OutOfBounds) \<or>
    (\<exists>d' w'. service_vq qi d w = Inr (d', w') \<and> line_ok d' w' \<and> serves d w d' w')"
  proof (cases i)
    case Console
    then show ?thesis using console_service_ok [OF ok(1), of qi] ok(2)
      by (auto simp: dev_static_def)
  next
    case Blk
    then have sv: "service_vq qi d w = service_with blk_handle qi d w" "nqueues d = 1"
      using ok(2) by (auto simp: service_vq_def dev_handle_def dev_static_def)
    show ?thesis
    proof (cases "qi = 0")
      case True
      then show ?thesis using blk.service_ok [OF ok(1) TrueI, of 0] Blk sv by auto
    next
      case False
      then have "service_with blk_handle qi d w = Inr (d, w)"
        using sv(2) by (intro service_other_queue) auto
      then show ?thesis using sv ok(1) by (auto simp: dev_ok_def)
    qed
  qed
  then show ?thesis
    by (auto simp: mmio_ok_def intro: serves_dev_ok [OF _ ok(1)] static_serves [OF ok(2)])
qed

lemma serves_keeps: "serves d w d' w' \<Longrightarrow> keeps d w w'"
  by (simp add: serves_def keeps_def)

lemma mmio_ok_regs:
  assumes "mmio_ok i d w"
  shows "mmio_ok i (d\<lparr>dev_feat_sel := x\<rparr>) w" "mmio_ok i (d\<lparr>drv_feat_sel := x\<rparr>) w"
    "mmio_ok i (d\<lparr>drv_features := y\<rparr>) w" "mmio_ok i (d\<lparr>queue_sel := x\<rparr>) w"
    "mmio_ok i (d\<lparr>status := x\<rparr>) w"
  using assms by (cases i; simp add: mmio_ok_def dev_static_def dev_ok_def line_ok_def)+

lemma keeps_refl [simp]: "keeps d w w"
  by (simp add: keeps_def)

text \<open>The driver may program any queue size but the one \<open>gather_guard_saturates\<close> is about.\<close>

definition sane_num :: "u64 \<Rightarrow> u64 \<Rightarrow> bool" where
  "sane_num off val \<longleftrightarrow> (off = VMMIO_QUEUE_NUM \<longrightarrow> (ucast val :: u32) \<noteq> 0xffffffff)"

lemma mmio_write_ok:
  assumes ok: "mmio_ok i d w" and len: "len \<le> 8" and off: "off < VIRTIO_REGION_SIZE"
    and num: "sane_num off val"
  shows "(i = Blk \<and> off = VMMIO_QUEUE_NOTIFY \<and> virtio_mmio_write off len val d w = Inl OutOfBounds) \<or>
    (\<exists>d' w'. virtio_mmio_write off len val d w = Inr (d', w') \<and> mmio_ok i d' w' \<and> keeps d w w')"
proof -
  consider "off = VMMIO_QUEUE_NOTIFY" | "off = VMMIO_INT_ACK" | "off = VMMIO_STATUS" |
    "off \<in> {VMMIO_DEV_FEATURES_SEL, VMMIO_DRV_FEATURES_SEL, VMMIO_DRV_FEATURES, VMMIO_QUEUE_SEL}" |
    "off = VMMIO_QUEUE_NUM" |
    "off \<in> {VMMIO_QUEUE_READY, VMMIO_QUEUE_DESC_LOW, VMMIO_QUEUE_DESC_HIGH, VMMIO_QUEUE_AVAIL_LOW,
        VMMIO_QUEUE_AVAIL_HIGH, VMMIO_QUEUE_USED_LOW, VMMIO_QUEUE_USED_HIGH}" |
    "off \<notin> {VMMIO_QUEUE_NOTIFY, VMMIO_INT_ACK, VMMIO_STATUS, VMMIO_DEV_FEATURES_SEL,
        VMMIO_DRV_FEATURES_SEL, VMMIO_DRV_FEATURES, VMMIO_QUEUE_SEL, VMMIO_QUEUE_NUM, VMMIO_QUEUE_READY,
        VMMIO_QUEUE_DESC_LOW, VMMIO_QUEUE_DESC_HIGH, VMMIO_QUEUE_AVAIL_LOW,
        VMMIO_QUEUE_AVAIL_HIGH, VMMIO_QUEUE_USED_LOW, VMMIO_QUEUE_USED_HIGH}"
    by blast
  then show ?thesis
  proof cases
    case 1
    then show ?thesis using service_static [OF ok, of "uint (val AND 0xffff)"]
      by (auto simp: virtio_mmio_write_def intro: serves_keeps)
  next
    case 2
    then show ?thesis using ack_ok [OF ok, of "NOT (ucast val)"] by (simp add: virtio_mmio_write_def Let_def)
  next
    case 3
    obtain d' w' where r: "virtio_reset d w = (d', w')" by (cases "virtio_reset d w")
    then show ?thesis using 3 reset_ok [OF ok r] mmio_ok_regs [OF ok] by (auto simp: virtio_mmio_write_def)
  next
    case 4
    then show ?thesis using mmio_ok_regs [OF ok] by (auto simp: virtio_mmio_write_def)
  next
    case 5
    have "mmio_ok i (set_vq (\<lambda>q. q\<lparr>vq_num := ucast val\<rparr>) d) w"
      using num 5 by (intro set_vq_ok [OF ok]) (simp add: sane_num_def)
    then show ?thesis using 5 by (simp add: virtio_mmio_write_def)
  next
    case 6
    have s: "mmio_ok i (set_vq f d) w" if "\<And>q. vq_num (f q) = vq_num q" for f
      using that by (intro set_vq_ok [OF ok]) simp
    from 6 show ?thesis by (auto simp: virtio_mmio_write_def intro!: s)
  next
    case 7
    obtain d' where "config_write d off len val = Inr d'" "mmio_ok i d' w"
      by (rule config_write_ok [OF ok len off])
    then show ?thesis using 7 by (simp add: virtio_mmio_write_def)
  qed
qed

lemma mmio_read_ok:
  assumes ok: "mmio_ok i d w" and len: "len \<le> 8" and off: "off < VIRTIO_REGION_SIZE"
  shows "\<exists>v. virtio_mmio_read d off len = Inr v"
proof (cases "in_config d off len")
  case True
  have cl: "config_len d \<le> 64" "length (config d) = 64"
    using ok by (auto simp: mmio_ok_def dev_static_def)
  then have "unat (off - VMMIO_CONFIG) + len \<le> length (config d)"
    using in_config_range [OF True off len] by simp
  then show ?thesis using len by (auto simp: virtio_mmio_read_def Let_def)
qed (simp add: virtio_mmio_read_def)

section \<open>Reachable states of the two devices\<close>

definition vio_init :: "'f vio \<Rightarrow> bool" where
  "vio_init v \<longleftrightarrow> vdev_console v = console_init \<and>
     (\<exists>existing created truncated seek.
        blk_open existing created truncated seek blk_init = Some (vdev_blk v)) \<and>
     mem_wf (mem (vsys v)) \<and> virq_calls (vsys v) = [] \<and> notify_regs v = []"

text \<open>
  One step: an access of the guest to the windows, any change of guest RAM by the guest, one
  event of the worker.
\<close>

inductive vio_step :: "'f vio \<Rightarrow> 'f vio \<Rightarrow> bool" where
  step_mmio: "handle_virtio_mmio pa len is_write data v = Inr (hit, data', v') \<Longrightarrow> len \<le> 8 \<Longrightarrow>
     length data = 8 \<Longrightarrow>
     (\<forall>i. dev_at pa = Some i \<longrightarrow> sane_num (pa - vbase (get_dev i v)) (le_val (take len data))) \<Longrightarrow>
     vio_step v v'"
| step_ram: "bsize m = bsize (mem (vsys v)) \<Longrightarrow> vio_step v (v\<lparr>vsys := (vsys v)\<lparr>mem := m\<rparr>\<rparr>)"
| step_worker: "virtio_worker [k] v = Inr v' \<Longrightarrow> vio_step v v'"

inductive vio_reach :: "'f vio \<Rightarrow> bool" where
  vio_start: "vio_init v \<Longrightarrow> vio_reach v"
| vio_eventfds: "vio_init v \<Longrightarrow> use_eventfd (vsys v) \<Longrightarrow> virtio_eventfds_setup v = Some v' \<Longrightarrow> vio_reach v'"
| vio_more: "vio_reach v \<Longrightarrow> vio_step v v' \<Longrightarrow> vio_reach v'"

definition vio_ok :: "'f vio \<Rightarrow> bool" where
  "vio_ok v \<longleftrightarrow> mmio_ok Console (vdev_console v) (vsys v) \<and> mmio_ok Blk (vdev_blk v) (vsys v)"

lemma get_put_simps [simp]:
  "get_dev i (put_dev i (d, w) v) = d" "vsys (put_dev i (d, w) v) = w"
  "notify_regs (put_dev i dw v) = notify_regs v"
  by (cases i; cases dw; simp add: get_dev_def put_dev_def)+

lemma vio_ok_get: "vio_ok v \<Longrightarrow> mmio_ok i (get_dev i v) (vsys v)"
  by (cases i) (auto simp: vio_ok_def get_dev_def)

lemma vio_ok_put:
  assumes "vio_ok v" "mmio_ok i d w" "keeps (get_dev i v) (vsys v) w"
  shows "vio_ok (put_dev i (d, w) v)"
  using assms
  by (cases i)
    (auto simp: vio_ok_def put_dev_def mmio_ok_def dev_ok_def dev_static_def line_ok_def keeps_def
      get_dev_def mem_wf_def)

lemma dev_at_offset:
  assumes "vio_ok v" "dev_at pa = Some i"
  shows "pa - vbase (get_dev i v) < VIRTIO_REGION_SIZE"
proof -
  have "vbase (get_dev i v) = (case i of Console \<Rightarrow> VIRTIO_CONSOLE_BASE | Blk \<Rightarrow> VIRTIO_BLK_BASE)"
    using vio_ok_get [OF assms(1), of i] by (cases i) (auto simp: mmio_ok_def dev_static_def)
  with assms(2) show ?thesis
    by (auto simp: dev_at_def word_less_nat_alt word_le_nat_alt unat_sub split: if_splits)
qed

lemma mmio_step_ok:
  assumes ok: "vio_ok v" and len: "len \<le> 8" "length data = 8"
    and sane: "\<forall>i. dev_at pa = Some i \<longrightarrow> sane_num (pa - vbase (get_dev i v)) (le_val (take len data))"
  shows "(handle_virtio_mmio pa len is_write data v = Inl OutOfBounds \<and> is_write \<and> dev_at pa = Some Blk \<and>
       pa - vbase (vdev_blk v) = VMMIO_QUEUE_NOTIFY) \<or>
    (\<exists>hit data' v'. handle_virtio_mmio pa len is_write data v = Inr (hit, data', v') \<and> vio_ok v' \<and>
       use_eventfd (vsys v') = use_eventfd (vsys v))"
proof (cases "dev_at pa")
  case None
  then have "handle_virtio_mmio pa len is_write data v = Inr (False, data, v)"
    by (simp add: handle_virtio_mmio_def)
  then show ?thesis using ok by blast
next
  case (Some i)
  define d where "d = get_dev i v"
  have dok: "mmio_ok i d (vsys v)" using vio_ok_get [OF ok] by (simp add: d_def)
  have off: "pa - vbase d < VIRTIO_REGION_SIZE" using dev_at_offset [OF ok Some] by (simp add: d_def)
  have hd: "handle_virtio_mmio pa len is_write data v =
      (if is_write then rbind (virtio_mmio_write (pa - vbase d) len (le_val (take len data)) d (vsys v))
           (\<lambda>dw. Inr (True, data, put_dev i dw v))
       else rbind (virtio_mmio_read d (pa - vbase d) len) (\<lambda>val.
           Inr (True, le_bytes len val @ drop len data, v)))"
    using Some len by (simp add: handle_virtio_mmio_def Let_def d_def)
  show ?thesis
  proof (cases is_write)
    case False
    then show ?thesis using hd mmio_read_ok [OF dok len(1) off] ok by auto
  next
    case True
    have sn: "sane_num (pa - vbase d) (le_val (take len data))" using sane Some by (simp add: d_def)
    from mmio_write_ok [OF dok len(1) off sn] show ?thesis
    proof (elim disjE exE conjE)
      fix d' w'
      assume w: "virtio_mmio_write (pa - vbase d) len (le_val (take len data)) d (vsys v) = Inr (d', w')"
        and "mmio_ok i d' w'" and k: "keeps d (vsys v) w'"
      then have "vio_ok (put_dev i (d', w') v)" by (intro vio_ok_put [OF ok]) (simp_all add: d_def)
      with hd True w k show ?thesis by (auto simp: keeps_def)
    next
      assume b: "i = Blk" "pa - vbase d = VMMIO_QUEUE_NOTIFY"
        "virtio_mmio_write (pa - vbase d) len (le_val (take len data)) d (vsys v) = Inl OutOfBounds"
      then show ?thesis using hd True Some by (auto simp: d_def get_dev_def)
    qed
  qed
qed

lemma worker_step_ok:
  assumes ok: "vio_ok v" and r: "virtio_worker [k] v = Inr v'"
  shows "vio_ok v' \<and> use_eventfd (vsys v') = use_eventfd (vsys v)"
proof -
  obtain i qi where e: "k < length (notify_regs v)" "notify_regs v ! k = (i, qi)"
    using r by (cases "notify_regs v ! k") (auto split: if_splits)
  obtain d' w' where s: "service_vq qi (get_dev i v) (vsys v) = Inr (d', w')" "v' = put_dev i (d', w') v"
    using r e by (auto simp: rbind_eq_Inr)
  with service_static [OF vio_ok_get [OF ok, of i], of qi]
  have "mmio_ok i d' w'" "serves (get_dev i v) (vsys v) d' w'" by auto
  then show ?thesis using s(2) vio_ok_put [OF ok _ serves_keeps, of i d' w']
    by (simp add: serves_def)
qed

lemma add_queues_devs:
  "add_queues i qs v = Some v' \<Longrightarrow>
     vdev_console v' = vdev_console v \<and> vdev_blk v' = vdev_blk v \<and> vsys v' = vsys v \<and>
     notify_regs v' = notify_regs v @ map (Pair i) qs"
  by (induction qs arbitrary: v) (auto simp: add_ioeventfd_def bind_eq_Some_conv split: if_splits)

lemma eventfds_devs:
  assumes "virtio_eventfds_setup v = Some v'"
  shows "vdev_console v' = vdev_console v" "vdev_blk v' = vdev_blk v" "vsys v' = vsys v"
    "notify_regs v' = notify_regs v @ map (Pair Console) [0..nqueues (vdev_console v) - 1] @
       map (Pair Blk) [0..nqueues (vdev_blk v) - 1]"
  using assms by (auto simp: virtio_eventfds_setup_def bind_eq_Some_conv dest!: add_queues_devs)

lemma blk_open_config:
  "blk_open existing created truncated seek d = Some d' \<Longrightarrow> length (config d) = 64 \<Longrightarrow>
     \<exists>cfg. d' = d\<lparr>config := cfg\<rparr> \<and> length cfg = 64"
  by (auto simp: blk_open_def Let_def split: option.splits if_splits)

lemma vio_init_ok:
  assumes "vio_init v"
  shows "vio_ok v"
proof -
  have l: "length (config blk_init) = 64" by (simp add: blk_init_def)
  obtain existing created truncated seek
    where "blk_open existing created truncated seek blk_init = Some (vdev_blk v)"
    using assms unfolding vio_init_def by blast
  from blk_open_config [OF this l]
  obtain cfg where "vdev_blk v = blk_init\<lparr>config := cfg\<rparr>" "length cfg = 64" by blast
  with assms show ?thesis
    by (simp add: vio_init_def vio_ok_def mmio_ok_def dev_ok_def dev_static_def line_ok_def
        console_init_def blk_init_def vq_zero_def)
qed

lemma vio_reach_ok: "vio_reach v \<Longrightarrow> vio_ok v"
proof (induction rule: vio_reach.induct)
  case (vio_start v)
  then show ?case by (rule vio_init_ok)
next
  case (vio_eventfds v v')
  then show ?case using vio_init_ok [of v] eventfds_devs [of v v'] by (simp add: vio_ok_def)
next
  case (vio_more v v')
  from vio_more.hyps(2) show ?case
  proof cases
    case (step_mmio pa len is_write data hit data')
    with mmio_step_ok [OF vio_more.IH, of len data pa is_write] show ?thesis by auto
  next
    case (step_ram m)
    with vio_more.IH show ?thesis
      by (auto simp: vio_ok_def mmio_ok_def dev_ok_def mem_wf_def line_ok_def)
  next
    case (step_worker k)
    with worker_step_ok [OF vio_more.IH] show ?thesis by blast
  qed
qed

text \<open>
  C2. In every reachable state of the two devices, under any interleaving of register accesses,
  changes of guest RAM and worker events by a driver that never programs the queue size
  \<open>0xffffffff\<close>, and without irqfd, GSI 5 is high exactly when the console has an unacknowledged
  interrupt and GSI 6 exactly when the block device has one.
\<close>

theorem virtio_lines_track_status:
  assumes "vio_reach v" "\<not> use_eventfd (vsys v)"
  shows "line_level 5 (virq_calls (vsys v)) = (int_status (vdev_console v) \<noteq> 0) \<and>
    line_level 6 (virq_calls (vsys v)) = (int_status (vdev_blk v) \<noteq> 0)"
  using vio_reach_ok [OF assms(1)] assms(2)
  by (auto simp: vio_ok_def mmio_ok_def dev_ok_def dev_static_def line_ok_def)

definition ex_vio :: "img vio" where
  "ex_vio = \<lparr>vdev_console = console_init, vdev_blk = blk_init, vsys = ex_sys ex_mem, notify_regs = []\<rparr>"

lemma ex_vio_init: "vio_init ex_vio"
proof -
  have "blk_open (Some 0) False False (\<lambda>n. n) blk_init = Some blk_init"
    by (simp add: blk_open_def blk_init_def numeral_eq_Suc)
  then show ?thesis using ex_wf by (auto simp: vio_init_def ex_vio_def ex_sys_def)
qed

theorem virtio_lines_track_status_witness:
  "line_level 5 (virq_calls (vsys ex_vio)) = (int_status (vdev_console ex_vio) \<noteq> 0)"
  using virtio_lines_track_status [OF vio_start [OF ex_vio_init]]
  by (simp add: ex_vio_def ex_sys_def)



section \<open>The eventfd path serves the same writes\<close>

lemma virtio_worker_one:
  "k < length (notify_regs v) \<Longrightarrow> notify_regs v ! k = (i, qi) \<Longrightarrow>
     virtio_worker [k] v = rbind (service_vq qi (get_dev i v) (vsys v)) (\<lambda>dw. Inr (put_dev i dw v))"
  by simp

lemma handle_notify_regs:
  "handle_virtio_mmio pa len is_write data v = Inr (hit, data', v') \<Longrightarrow> notify_regs v' = notify_regs v"
  by (auto simp: handle_virtio_mmio_def Let_def rbind_eq_Inr split: option.splits if_splits)

lemma worker_notify_regs: "virtio_worker [k] v = Inr v' \<Longrightarrow> notify_regs v' = notify_regs v"
  by (cases "notify_regs v ! k") (auto simp: rbind_eq_Inr split: if_splits)

lemma notify_range: "vio_reach v \<Longrightarrow> \<forall>e \<in> set (notify_regs v). snd e = 0 \<or> snd e = 1"
proof (induction rule: vio_reach.induct)
  case (vio_start v)
  then show ?case by (simp add: vio_init_def)
next
  case (vio_eventfds v v')
  then show ?case using eventfds_devs(4) [of v v'] vio_init_ok [of v]
    by (auto simp: vio_init_def vio_ok_def mmio_ok_def dev_static_def)
next
  case (vio_more v v')
  from vio_more.hyps(2) have "notify_regs v' = notify_regs v"
    by cases (auto dest: handle_notify_regs worker_notify_regs simp del: virtio_worker.simps)
  with vio_more.IH show ?case by simp
qed

text \<open>
  C7. The eventfd data plane is the same data plane: for every registered notification, in
  every reachable state, the worker's reaction to its eventfd is exactly what the MMIO exit does
  for the guest write the ioeventfd matches (4 bytes with the queue number at the device's
  notify register).
\<close>

theorem ioeventfd_equivalent:
  assumes "vio_reach v" "k < length (notify_regs v)" "notify_regs v ! k = (i, qi)" "length rest = 4"
  shows "handle_virtio_mmio (io_addr (ioeventfd_of (get_dev i v) qi)) (io_len (ioeventfd_of (get_dev i v) qi))
      True (le_bytes 4 (io_datamatch (ioeventfd_of (get_dev i v) qi)) @ rest) v =
    rbind (virtio_worker [k] v) (\<lambda>v'.
      Inr (True, le_bytes 4 (io_datamatch (ioeventfd_of (get_dev i v) qi)) @ rest, v'))"
proof -
  have qi: "qi = 0 \<or> qi = 1"
    using notify_range [OF assms(1)] nth_mem [OF assms(2)] assms(3) by force
  have b: "vbase (get_dev i v) = (case i of Console \<Rightarrow> VIRTIO_CONSOLE_BASE | Blk \<Rightarrow> VIRTIO_BLK_BASE)"
    using vio_ok_get [OF vio_reach_ok [OF assms(1)], of i] by (cases i) (auto simp: mmio_ok_def dev_static_def)
  then have at: "dev_at (vbase (get_dev i v) + VMMIO_QUEUE_NOTIFY) = Some i"
    by (cases i) (simp_all add: dev_at_def)
  have vl: "le_val (le_bytes 4 (word_of_int qi :: u64)) = (word_of_int qi :: u64)"
    using qi by (auto simp: le_val_le_bytes)
  have q16: "uint ((word_of_int qi :: u64) AND 0xffff) = qi" using qi by auto
  have wr: "virtio_mmio_write VMMIO_QUEUE_NOTIFY 4 (word_of_int qi) d w = service_vq qi d w" for d and w :: "'a vsys"
    by (simp add: virtio_mmio_write_def q16)
  show ?thesis
    using virtio_worker_one [OF assms(2,3)] at wr vl assms(4)
    by (cases "service_vq qi (get_dev i v) (vsys v)")
      (simp_all add: handle_virtio_mmio_def ioeventfd_of_def Let_def)
qed

definition ex_vio_e :: "img vio" where
  "ex_vio_e = ex_vio\<lparr>vsys := (vsys ex_vio)\<lparr>use_eventfd := True\<rparr>\<rparr>"

definition ex_vio_reg :: "img vio" where
  "ex_vio_reg = ex_vio_e\<lparr>notify_regs := [(Console, 0), (Console, 1), (Blk, 0)]\<rparr>"

lemma ex_vio_reg_reach: "vio_reach ex_vio_reg"
proof (rule vio_eventfds)
  show "vio_init ex_vio_e" using ex_vio_init by (simp add: vio_init_def ex_vio_e_def)
  show "use_eventfd (vsys ex_vio_e)" by (simp add: ex_vio_e_def)
  have "[0..1] = [0, 1 :: int]" "[0..0] = [0 :: int]" by (simp_all add: upto.simps)
  then show "virtio_eventfds_setup ex_vio_e = Some ex_vio_reg"
    by (simp add: virtio_eventfds_setup_def add_ioeventfd_def ex_vio_e_def ex_vio_def ex_vio_reg_def
        console_init_def blk_init_def)
qed

theorem ioeventfd_equivalent_witness:
  "handle_virtio_mmio 0xd0000050 4 True [1, 0, 0, 0, 0, 0, 0, 0] ex_vio_reg =
     rbind (virtio_worker [1] ex_vio_reg) (\<lambda>v'. Inr (True, [1, 0, 0, 0, 0, 0, 0, 0], v'))"
proof -
  have "1 < length (notify_regs ex_vio_reg)" "notify_regs ex_vio_reg ! 1 = (Console, 1)"
    by (simp_all add: ex_vio_reg_def)
  from ioeventfd_equivalent [OF ex_vio_reg_reach this, of "[0, 0, 0, 0]"] show ?thesis
    by (simp add: ioeventfd_of_def get_dev_def ex_vio_reg_def ex_vio_e_def ex_vio_def console_init_def
        numeral_eq_Suc del: virtio_worker.simps)
qed

section \<open>Registers as the driver sees them\<close>

lemma mask32: "(0xffffffff :: u64) = mask 32" "(0xffffffff00000000 :: u64) = NOT (mask 32)"
  by (simp_all add: mask_eq_exp_minus_1)

lemma low_high: "high32 (low32 old (ucast (lo :: u32))) (ucast (hi :: u32)) = push_bit 32 (ucast hi) OR ucast lo"
  unfolding low32_def high32_def mask32
  by (rule bit_word_eqI) (auto simp: bit_simps dest: bit_imp_le_length)

lemma set_vq_twice:
  assumes "length (vqs d) = 4"
  shows "set_vq g (set_vq f d) = set_vq (g \<circ> f) d"
  using assms by (simp add: set_vq_def sel_queue_def word_less_nat_alt)

text \<open>
  The three ring addresses are programmed as two 32-bit halves: writing the low and then
  the high half of one of them leaves exactly that 64-bit address in the selected queue and
  changes nothing else.
\<close>

theorem queue_address_assembled:
  assumes "length (vqs d) = 4"
  shows "(rbind (virtio_mmio_write VMMIO_QUEUE_DESC_LOW 4 (ucast (lo :: u32)) d w) (\<lambda>(d1, w1).
            virtio_mmio_write VMMIO_QUEUE_DESC_HIGH 4 (ucast (hi :: u32)) d1 w1) =
          Inr (set_vq (\<lambda>q. q\<lparr>vq_desc := push_bit 32 (ucast hi) OR ucast lo\<rparr>) d, w)) \<and>
         (rbind (virtio_mmio_write VMMIO_QUEUE_AVAIL_LOW 4 (ucast lo) d w) (\<lambda>(d1, w1).
            virtio_mmio_write VMMIO_QUEUE_AVAIL_HIGH 4 (ucast hi) d1 w1) =
          Inr (set_vq (\<lambda>q. q\<lparr>vq_avail := push_bit 32 (ucast hi) OR ucast lo\<rparr>) d, w)) \<and>
         (rbind (virtio_mmio_write VMMIO_QUEUE_USED_LOW 4 (ucast lo) d w) (\<lambda>(d1, w1).
            virtio_mmio_write VMMIO_QUEUE_USED_HIGH 4 (ucast hi) d1 w1) =
          Inr (set_vq (\<lambda>q. q\<lparr>vq_used := push_bit 32 (ucast hi) OR ucast lo\<rparr>) d, w))"
  using set_vq_twice [OF assms] by (simp add: virtio_mmio_write_def o_def low_high)

theorem queue_address_assembled_witness:
  "rbind (virtio_mmio_write VMMIO_QUEUE_DESC_LOW 4 0x1000 console_init (ex_sys ex_mem)) (\<lambda>(d1, w1).
      virtio_mmio_write VMMIO_QUEUE_DESC_HIGH 4 1 d1 w1) =
    Inr (set_vq (\<lambda>q. q\<lparr>vq_desc := 0x100001000\<rparr>) console_init, ex_sys ex_mem)"
proof -
  have "length (vqs console_init) = 4" by (simp add: console_init_def)
  from queue_address_assembled [OF this, of "0x1000" "ex_sys ex_mem" 1] show ?thesis by simp
qed

text \<open>
  Writing 0 to the status register resets the device: status and pending interrupt are
  cleared, the line falls, every queue is disabled with its cursor at 0, and a notification
  before the driver programs the queues again does nothing.
\<close>

theorem reset_quiesces:
  assumes "0 \<le> nqueues d" "nqueues d \<le> int (length (vqs d))"
  shows "\<exists>d' w'. virtio_mmio_write VMMIO_STATUS len 0 d w = Inr (d', w') \<and>
    status d' = 0 \<and> int_status d' = 0 \<and> \<not> line_level (vgsi d) (virq_calls w') \<and>
    (\<forall>j < nat (nqueues d). vq_ready (vqs d' ! j) = 0 \<and> vq_last (vqs d' ! j) = 0) \<and>
    (\<forall>qi. service_vq qi d' w' = Inr (d', w'))"
proof -
  obtain d' w' where r: "virtio_reset d w = (d', w')" by (cases "virtio_reset d w")
  have n: "nat (nqueues d) \<le> length (vqs d)" using assms by simp
  have q: "vq_ready (vqs d' ! j) = 0 \<and> vq_last (vqs d' ! j) = 0" if "j < nat (nqueues d)" for j
    using r reset_queues_nth [OF n, of j] that n by (auto simp: virtio_reset_def)
  have nq: "nqueues d' = nqueues d" using r by (auto simp: virtio_reset_def)
  have "service_vq qi d' w' = Inr (d', w')" for qi
    using q [of "nat qi"] by (auto simp: service_vq_def service_with_def nq Let_def)
  moreover have "virtio_mmio_write VMMIO_STATUS len 0 d w = Inr (d', w')"
    using r by (simp add: virtio_mmio_write_def)
  moreover have "status d' = 0" "int_status d' = 0" "\<not> line_level (vgsi d) (virq_calls w')"
    using r by (auto simp: virtio_reset_def)
  ultimately show ?thesis using q by blast
qed

theorem reset_quiesces_witness:
  "\<exists>d' w'. virtio_mmio_write VMMIO_STATUS 4 0 ex_console (ex_sys ex_mem) = Inr (d', w') \<and>
     status d' = 0 \<and> service_vq 1 d' w' = Inr (d', w')"
  using reset_quiesces [of ex_console 4 "ex_sys ex_mem"] by (auto simp: ex_console_def)

text \<open>
  The reset does not clear the negotiated features, and a feature write only adds bits:
  what a second driver negotiates after a reset is the union of both negotiations.
\<close>

theorem features_survive_reset:
  "\<exists>d1 w1 d2 w2. virtio_mmio_write VMMIO_STATUS len 0 d w = Inr (d1, w1) \<and>
     virtio_mmio_write VMMIO_DRV_FEATURES len val d1 w1 = Inr (d2, w2) \<and>
     drv_features d2 = drv_features d OR
       (if drv_feat_sel d AND 1 \<noteq> 0 then push_bit 32 (val AND 0xffffffff) else val AND 0xffffffff)"
  by (simp add: virtio_mmio_write_def virtio_reset_def)

text \<open>
  A queue selector of 4 or more is not an error: the queue registers then act on queue 0,
  whose size and ready flag the guest changes although it selected a queue that does not exist.
\<close>

theorem queue_sel_aliases_zero:
  assumes "4 \<le> queue_sel d"
  shows "virtio_mmio_write VMMIO_QUEUE_NUM len val d w =
      Inr (d\<lparr>vqs := (vqs d)[0 := (vqs d ! 0)\<lparr>vq_num := ucast val\<rparr>]\<rparr>, w) \<and>
    virtio_mmio_write VMMIO_QUEUE_READY len val d w =
      Inr (d\<lparr>vqs := (vqs d)[0 := (vqs d ! 0)\<lparr>vq_ready := ucast val\<rparr>]\<rparr>, w) \<and>
    virtio_mmio_read d VMMIO_QUEUE_READY len = Inr (scast (vq_ready (vqs d ! 0)))"
  using assms by (simp add: virtio_mmio_write_def virtio_mmio_read_def set_vq_def sel_queue_def not_less [symmetric])

theorem queue_sel_aliases_zero_witness:
  "virtio_mmio_read (ex_console\<lparr>queue_sel := 7\<rparr>) VMMIO_QUEUE_READY 4 = Inr 1"
  using queue_sel_aliases_zero [of "ex_console\<lparr>queue_sel := 7\<rparr>" 4 0 "ex_sys ex_mem"]
  by (simp add: ex_console_def ex_vq_def)

end
