(* ===== verification/MiniEpt.thy ===== *)
theory MiniEpt
  imports VmmPrelude "HOL-Library.Multiset"
begin

text \<open>
  The second-stage page tables of the kernel module \<open>mini-kvm\<close> (\<open>ept.c\<close>): the four-level walk
  that allocates missing tables, the handler of EPT violations, and teardown.  Page-table pages
  are named by their page frame number; what the page allocator will answer is part of the
  state (\<open>avail_pages\<close>), and \<open>live\<close> are the pages it has handed out.
\<close>

section \<open>Pages\<close>

record mk_mem =
  tables :: "u64 \<Rightarrow> nat \<Rightarrow> u64"
  avail_pages :: "u64 option list"
  live :: "u64 list"

definition alloc_page :: "mk_mem \<Rightarrow> u64 option \<times> mk_mem" where
  "alloc_page m =
     (case avail_pages m of
        [] \<Rightarrow> (None, m)
      | None # r \<Rightarrow> (None, m\<lparr>avail_pages := r\<rparr>)
      | Some p # r \<Rightarrow> (Some p, m\<lparr>avail_pages := r, tables := (tables m)(p := (\<lambda>_. 0)), live := p # live m\<rparr>))"

definition free_page :: "u64 \<Rightarrow> mk_mem \<Rightarrow> mk_mem res" where
  "free_page p m = (if p \<in> set (live m) then Inr (m\<lparr>live := remove1 p (live m)\<rparr>) else Inl BadFree)"

section \<open>The tables of one VM\<close>

abbreviation (input) EPT_PTE_READ :: u64 where "EPT_PTE_READ \<equiv> 1"
abbreviation (input) EPT_ENTRY_RWX :: u64 where "EPT_ENTRY_RWX \<equiv> 7"
abbreviation (input) EPT_MEMTYPE_WB :: u64 where "EPT_MEMTYPE_WB \<equiv> 0x30"
abbreviation (input) EPT_PTE_ADDR_MASK :: u64 where "EPT_PTE_ADDR_MASK \<equiv> 0x000FFFFFFFFFF000"
abbreviation (input) EPT_TRACK_MAX :: nat where "EPT_TRACK_MAX \<equiv> 1024"

record mini_ept =
  pml4 :: "u64 option"
  eptp :: u64
  tracked :: "u64 list"

record mini_slot =
  svalid :: bool
  base_gpa :: u64
  npages :: u64
  userspace_addr :: u64
  pages :: "u64 list"

abbreviation (input) EFAULT :: int where "EFAULT \<equiv> 14"
abbreviation (input) ENOMEM :: int where "ENOMEM \<equiv> 12"

definition page_to_phys :: "u64 \<Rightarrow> u64" where
  "page_to_phys pfn = push_bit 12 pfn"

text \<open>WB (6) in bits 2:0 and page-walk length 4 (coded 3) in bits 5:3 of the EPT pointer.\<close>

definition mini_ept_init :: "mini_ept \<Rightarrow> mk_mem \<Rightarrow> int \<times> mini_ept \<times> mk_mem" where
  "mini_ept_init e m =
     (case alloc_page m of
        (None, m1) \<Rightarrow> (- ENOMEM, e, m1)
      | (Some p, m1) \<Rightarrow> (0, e\<lparr>pml4 := Some p, tracked := [], eptp := page_to_phys p OR 6 OR 0x18\<rparr>, m1))"

fun free_all :: "u64 list \<Rightarrow> mk_mem \<Rightarrow> mk_mem res" where
  "free_all [] m = Inr m"
| "free_all (p # ps) m = rbind (free_page p m) (free_all ps)"

definition mini_ept_destroy :: "mini_ept \<Rightarrow> mk_mem \<Rightarrow> (mini_ept \<times> mk_mem) res" where
  "mini_ept_destroy e m =
     rbind (free_all (tracked e) m) (\<lambda>m1.
       case pml4 e of
         None \<Rightarrow> Inr (e\<lparr>tracked := []\<rparr>, m1)
       | Some p \<Rightarrow> rbind (free_page p m1) (\<lambda>m2. Inr (e\<lparr>tracked := [], pml4 := None\<rparr>, m2)))"

section \<open>The walk\<close>

definition ept_shifts :: "nat list" where
  "ept_shifts = [39, 30, 21, 12]"

definition ept_idx :: "u64 \<Rightarrow> nat \<Rightarrow> nat" where
  "ept_idx gpa sh = unat (drop_bit sh gpa AND 511)"

definition next_table :: "u64 \<Rightarrow> u64" where
  "next_table entry = drop_bit 12 (entry AND EPT_PTE_ADDR_MASK)"

definition set_entry :: "u64 \<Rightarrow> nat \<Rightarrow> u64 \<Rightarrow> mk_mem \<Rightarrow> mk_mem" where
  "set_entry t i x m = m\<lparr>tables := (tables m)(t := (tables m t)(i := x))\<rparr>"

text \<open>The result is the slot of the leaf entry: a table and an index into it.\<close>

fun ept_walk_from ::
  "nat list \<Rightarrow> u64 \<Rightarrow> u64 \<Rightarrow> bool \<Rightarrow> mini_ept \<Rightarrow> mk_mem \<Rightarrow> (u64 \<times> nat) option \<times> mini_ept \<times> mk_mem" where
  "ept_walk_from [] t gpa al e m = (None, e, m)"
| "ept_walk_from [sh] t gpa al e m = (Some (t, ept_idx gpa sh), e, m)"
| "ept_walk_from (sh # sh' # shs) t gpa al e m =
     (let i = ept_idx gpa sh in
      if tables m t i AND EPT_PTE_READ = 0 then
        (if \<not> al then (None, e, m)
         else if length (tracked e) \<ge> EPT_TRACK_MAX then (None, e, m)
         else case alloc_page m of
            (None, m1) \<Rightarrow> (None, e, m1)
          | (Some np, m1) \<Rightarrow>
              (let e1 = e\<lparr>tracked := tracked e @ [np]\<rparr>;
                   m2 = set_entry t i (page_to_phys np OR EPT_ENTRY_RWX) m1
               in ept_walk_from (sh' # shs) (next_table (tables m2 t i)) gpa al e1 m2))
      else ept_walk_from (sh' # shs) (next_table (tables m t i)) gpa al e m)"

definition mini_ept_walk ::
  "u64 \<Rightarrow> bool \<Rightarrow> mini_ept \<Rightarrow> mk_mem \<Rightarrow> (u64 \<times> nat) option \<times> mini_ept \<times> mk_mem" where
  "mini_ept_walk gpa al e m =
     (case pml4 e of None \<Rightarrow> (None, e, m) | Some root \<Rightarrow> ept_walk_from ept_shifts root gpa al e m)"

text \<open>\<open>gpa0\<close> is what the processor reports in \<open>GUEST_PHYSICAL_ADDRESS\<close>; \<open>n\<close> counts violations.\<close>

definition page_base :: "u64 \<Rightarrow> u64" where
  "page_base gpa = gpa AND NOT 0xfff"

definition in_slot :: "mini_slot \<Rightarrow> u64 \<Rightarrow> bool" where
  "in_slot s gpa \<longleftrightarrow>
     svalid s \<and> \<not> gpa < base_gpa s \<and> \<not> gpa \<ge> base_gpa s + push_bit 12 (npages s)"

definition mini_ept_handle_violation ::
  "u64 \<Rightarrow> mini_slot \<Rightarrow> mini_ept \<Rightarrow> mk_mem \<Rightarrow> u64 \<Rightarrow> (int \<times> mini_ept \<times> mk_mem \<times> u64) res" where
  "mini_ept_handle_violation gpa0 slot e m n =
     (let gpa = page_base gpa0 in
      if \<not> in_slot slot gpa then Inr (- EFAULT, e, m, n)
      else
        (let idx = unat (drop_bit 12 (gpa - base_gpa slot)) in
         case mini_ept_walk gpa True e m of
           (None, e1, m1) \<Rightarrow> Inr (- ENOMEM, e1, m1, n)
         | (Some (t, i), e1, m1) \<Rightarrow>
             if idx < length (pages slot) then
               Inr (0, e1,
                 set_entry t i (page_to_phys (pages slot ! idx) OR EPT_ENTRY_RWX OR EPT_MEMTYPE_WB) m1, n + 1)
             else Inl OutOfBounds))"

section \<open>What the processor translates\<close>

text \<open>
  The translation the tables define: the walk of the processor, present entries being those with
  one of the three permission bits.
\<close>

fun ept_lookup_from :: "nat list \<Rightarrow> u64 \<Rightarrow> u64 \<Rightarrow> mk_mem \<Rightarrow> u64 option" where
  "ept_lookup_from [] t gpa m = None"
| "ept_lookup_from [sh] t gpa m =
     (let leaf = tables m t (ept_idx gpa sh) in
      if leaf AND EPT_ENTRY_RWX = 0 then None
      else Some ((leaf AND EPT_PTE_ADDR_MASK) OR (gpa AND 0xfff)))"
| "ept_lookup_from (sh # sh' # shs) t gpa m =
     (let entry = tables m t (ept_idx gpa sh) in
      if entry AND EPT_ENTRY_RWX = 0 then None
      else ept_lookup_from (sh' # shs) (next_table entry) gpa m)"

definition ept_translate :: "mini_ept \<Rightarrow> mk_mem \<Rightarrow> u64 \<Rightarrow> u64 option" where
  "ept_translate e m gpa =
     (case pml4 e of None \<Rightarrow> None | Some root \<Rightarrow> ept_lookup_from ept_shifts root gpa m)"

section \<open>Entries\<close>

lemma mask_consts: "(0x000FFFFFFFFFF000 :: u64) = mask 52 AND NOT (mask 12)" "(7 :: u64) = mask 3"
  "(0xfff :: u64) = mask 12" "(511 :: u64) = mask 9"
  "(0x30 :: u64) = push_bit 4 (mask 2)"
  by (simp_all add: mask_eq_exp_minus_1)

lemma bit_pfn:
  assumes "(p :: u64) < 1099511627776" "bit p n"
  shows "n < 40"
proof -
  have "unat p < 2 ^ 40" using assms(1) by (simp add: word_less_nat_alt)
  then have "take_bit 40 p = p"
    by (simp add: word_unat_eq_iff unsigned_take_bit_eq take_bit_nat_eq_self)
  then show ?thesis using assms(2) by (metis bit_take_bit_iff)
qed

text \<open>Physical addresses fit the 52 bits an entry has room for.\<close>

definition pfn_ok :: "u64 \<Rightarrow> bool" where
  "pfn_ok p \<longleftrightarrow> p < 2 ^ 40"

lemma next_table_entry: "pfn_ok c \<Longrightarrow> next_table (page_to_phys c OR EPT_ENTRY_RWX) = c"
  unfolding next_table_def page_to_phys_def mask_consts pfn_ok_def
  by (rule bit_word_eqI) (auto simp: bit_simps dest!: bit_pfn)

lemma entry_present [simp]:
  "(page_to_phys c OR EPT_ENTRY_RWX) AND EPT_PTE_READ \<noteq> 0"
  "(page_to_phys c OR EPT_ENTRY_RWX) AND EPT_ENTRY_RWX \<noteq> 0"
  "(page_to_phys c OR EPT_ENTRY_RWX OR EPT_MEMTYPE_WB) AND EPT_ENTRY_RWX \<noteq> 0"
proof -
  have "bit ((page_to_phys c OR 7) AND 1) 0" "bit ((page_to_phys c OR 7) AND 7) 0"
    "bit ((page_to_phys c OR 7 OR 0x30) AND 7) 0"
    by (simp_all add: bit_simps page_to_phys_def)
  then show "(page_to_phys c OR 7) AND 1 \<noteq> 0" "(page_to_phys c OR 7) AND 7 \<noteq> 0"
    "(page_to_phys c OR 7 OR 0x30) AND 7 \<noteq> 0" by force+
qed

lemma leaf_address:
  "pfn_ok c \<Longrightarrow> (page_to_phys c OR EPT_ENTRY_RWX OR EPT_MEMTYPE_WB) AND EPT_PTE_ADDR_MASK = page_to_phys c"
  unfolding page_to_phys_def mask_consts pfn_ok_def
  by (rule bit_word_eqI) (auto simp: bit_simps dest: bit_pfn)

section \<open>The invariant\<close>

text \<open>
  \<open>own\<close> gives each table of the VM its place: the indices on the way to it from the root.  A
  table has one place, entries of the upper three levels are empty or lead to the table one
  index further, and the pages are exactly the ones teardown will free.
\<close>

definition ept_inv ::
  "(u64 \<Rightarrow> nat list option) \<Rightarrow> u64 multiset \<Rightarrow> mini_ept \<Rightarrow> mk_mem \<Rightarrow> bool" where
  "ept_inv own others e m \<longleftrightarrow>
     (\<exists>root. pml4 e = Some root \<and> own root = Some [] \<and> dom own = set (root # tracked e) \<and>
        mset (live m) = mset (root # tracked e) + others) \<and>
     (\<forall>t \<in> dom own. pfn_ok t) \<and>
     (\<forall>t p. own t = Some p \<longrightarrow> length p < 3 \<longrightarrow>
        (\<forall>i. tables m t i = 0 \<or>
          (\<exists>c. tables m t i = page_to_phys c OR EPT_ENTRY_RWX \<and> own c = Some (p @ [i]))))"

definition fresh_pages :: "mk_mem \<Rightarrow> bool" where
  "fresh_pages m \<longleftrightarrow> (let ps = [p. Some p \<leftarrow> avail_pages m] in
     distinct (live m) \<and> distinct ps \<and> set ps \<inter> set (live m) = {} \<and> (\<forall>p \<in> set ps. pfn_ok p))"

lemma ept_inv_entry:
  assumes "ept_inv own others e m" "own t = Some p" "length p < 3"
  shows "tables m t i = 0 \<or>
    (\<exists>c. tables m t i = page_to_phys c OR EPT_ENTRY_RWX \<and> own c = Some (p @ [i]) \<and> pfn_ok c)"
proof -
  have c: "\<forall>t \<in> dom own. pfn_ok t" and "\<forall>t p. own t = Some p \<longrightarrow> length p < 3 \<longrightarrow>
        (\<forall>i. tables m t i = 0 \<or>
          (\<exists>c. tables m t i = page_to_phys c OR EPT_ENTRY_RWX \<and> own c = Some (p @ [i])))"
    using assms(1) unfolding ept_inv_def by blast+
  with assms(2,3) have "tables m t i = 0 \<or>
          (\<exists>c. tables m t i = page_to_phys c OR EPT_ENTRY_RWX \<and> own c = Some (p @ [i]))" by blast
  with c show ?thesis by blast
qed

lemma ept_inv_present:
  assumes "ept_inv own others e m" "own t = Some p" "length p < 3" "tables m t i AND b \<noteq> 0"
  shows "own (next_table (tables m t i)) = Some (p @ [i])"
  using ept_inv_entry [OF assms(1-3), of i] assms(4) next_table_entry by auto

lemma ept_inv_rwx:
  assumes "ept_inv own others e m" "own t = Some p" "length p < 3"
  shows "tables m t i AND EPT_ENTRY_RWX = 0 \<longleftrightarrow> tables m t i AND EPT_PTE_READ = 0"
  using ept_inv_entry [OF assms, of i] by auto

lemma alloc_fresh:
  assumes "fresh_pages m" "alloc_page m = (Some p, m')"
  shows "p \<notin> set (live m)" "pfn_ok p" "fresh_pages m'" "live m' = p # live m"
    "tables m' = (tables m)(p := (\<lambda>_. 0))"
  using assms by (auto simp: alloc_page_def fresh_pages_def Let_def split: list.splits option.splits)

lemma alloc_none:
  assumes "fresh_pages m" "alloc_page m = (None, m')"
  shows "fresh_pages m'" "live m' = live m" "tables m' = tables m"
  using assms by (auto simp: alloc_page_def fresh_pages_def Let_def split: list.splits option.splits)

section \<open>Lookups\<close>

text \<open>Lookups only read tables whose place extends the one they start from.\<close>

lemma lookup_zero: "tables m t = (\<lambda>_. 0) \<Longrightarrow> ept_lookup_from shs t g m = None"
  by (induction shs t g m rule: ept_lookup_from.induct) auto

text \<open>Hanging a new, empty table into an empty slot changes no translation.\<close>

lemma lookup_new_table:
  assumes inv: "ept_inv own others e m" and t: "own t = Some p" "length p < 3" and i0: "tables m t i = 0"
    and c: "own c = None" "pfn_ok c"
    and tb: "tables m' = (tables m)(c := (\<lambda>_. 0), t := (tables m t)(i := page_to_phys c OR EPT_ENTRY_RWX))"
  shows "own t' = Some p' \<Longrightarrow> length p' + length shs = 4 \<Longrightarrow>
    ept_lookup_from shs t' g m' = ept_lookup_from shs t' g m"
proof (induction shs arbitrary: t' p')
  case Nil
  then show ?case by simp
next
  case (Cons sh shs)
  have t'c: "t' \<noteq> c" and tc: "t \<noteq> c" using Cons.prems(1) t(1) c(1) by auto
  show ?case
  proof (cases shs)
    case Nil
    then have "t' \<noteq> t" using Cons.prems t by auto
    then show ?thesis using Nil tb t'c by simp
  next
    case (Cons sh' shs')
    have l: "length p' < 3" using Cons.prems(2) Cons by simp
    let ?i = "ept_idx g sh"
    show ?thesis
    proof (cases "t' = t \<and> ?i = i")
      case True
      then have "tables m' t' ?i = page_to_phys c OR EPT_ENTRY_RWX" using tb by simp
      moreover have "tables m' c = (\<lambda>_. 0)" using tb tc by auto
      ultimately have "ept_lookup_from (sh # shs) t' g m' = None"
        using Cons lookup_zero next_table_entry [OF c(2)] by (simp add: Let_def)
      moreover have "ept_lookup_from (sh # shs) t' g m = None" using True i0 Cons by simp
      ultimately show ?thesis by simp
    next
      case False
      then have same: "tables m' t' ?i = tables m t' ?i" using tb t'c by auto
      show ?thesis
      proof (cases "tables m t' ?i AND EPT_ENTRY_RWX = 0")
        case True
        then show ?thesis using same Cons by simp
      next
        case present: False
        have "own (next_table (tables m t' ?i)) = Some (p' @ [?i])"
          by (rule ept_inv_present [OF inv Cons.prems(1) l present])
        then have "ept_lookup_from shs (next_table (tables m t' ?i)) g m' =
            ept_lookup_from shs (next_table (tables m t' ?i)) g m"
          using Cons.prems(2) by (intro Cons.IH) auto
        then show ?thesis using same Cons present by simp
      qed
    qed
  qed
qed

text \<open>Writing a leaf changes the translation of exactly the addresses whose walk ends in it.\<close>

fun ept_reaches :: "nat list \<Rightarrow> u64 \<Rightarrow> u64 \<Rightarrow> mk_mem \<Rightarrow> u64 \<Rightarrow> bool" where
  "ept_reaches [] t gpa m t3 = False"
| "ept_reaches [sh] t gpa m t3 = (t = t3)"
| "ept_reaches (sh # sh' # shs) t gpa m t3 =
     (let entry = tables m t (ept_idx gpa sh) in
      entry AND EPT_ENTRY_RWX \<noteq> 0 \<and> ept_reaches (sh' # shs) (next_table entry) gpa m t3)"

lemma lookup_step:
  "shs \<noteq> [] \<Longrightarrow> tables m t (ept_idx g sh) AND EPT_ENTRY_RWX \<noteq> 0 \<Longrightarrow>
     ept_lookup_from (sh # shs) t g m = ept_lookup_from shs (next_table (tables m t (ept_idx g sh))) g m"
  by (cases shs) (simp_all add: Let_def)

lemma reaches_step:
  "shs \<noteq> [] \<Longrightarrow> ept_reaches (sh # shs) t g m t3 =
     (tables m t (ept_idx g sh) AND EPT_ENTRY_RWX \<noteq> 0 \<and>
      ept_reaches shs (next_table (tables m t (ept_idx g sh))) g m t3)"
  by (cases shs) (simp_all add: Let_def)

lemma lookup_leaf:
  assumes inv: "ept_inv own others e m" and t: "own t = Some p" "length p = 3"
    and m': "m' = set_entry t i x m"
  shows "own t' = Some p' \<Longrightarrow> length p' + length shs = 4 \<Longrightarrow>
    ept_lookup_from shs t' g m' =
      (if ept_reaches shs t' g m t \<and> ept_idx g (last shs) = i
       then (if x AND EPT_ENTRY_RWX = 0 then None
             else Some ((x AND EPT_PTE_ADDR_MASK) OR (g AND 0xfff)))
       else ept_lookup_from shs t' g m)"
proof (induction shs arbitrary: t' p')
  case Nil
  then show ?case by simp
next
  case (Cons sh shs)
  show ?case
  proof (cases shs)
    case Nil
    then show ?thesis by (simp add: m' set_entry_def Let_def)
  next
    case (Cons sh' shs')
    have l: "length p' < 3" using Cons.prems(2) Cons by simp
    then have "t' \<noteq> t" using Cons.prems(1) t by auto
    then have same: "tables m' t' = tables m t'" by (simp add: m' set_entry_def)
    let ?x = "tables m t' (ept_idx g sh)"
    show ?thesis
    proof (cases "?x AND EPT_ENTRY_RWX = 0")
      case True
      then show ?thesis using same Cons by simp
    next
      case present: False
      have "own (next_table ?x) = Some (p' @ [ept_idx g sh])"
        by (rule ept_inv_present [OF inv Cons.prems(1) l present])
      then have "ept_lookup_from shs (next_table ?x) g m' =
        (if ept_reaches shs (next_table ?x) g m t \<and> ept_idx g (last shs) = i
         then (if x AND EPT_ENTRY_RWX = 0 then None
               else Some ((x AND EPT_PTE_ADDR_MASK) OR (g AND 0xfff)))
         else ept_lookup_from shs (next_table ?x) g m)"
        using Cons.prems(2) by (intro Cons.IH) auto
      moreover have "shs \<noteq> []" "tables m' t' (ept_idx g sh) AND EPT_ENTRY_RWX \<noteq> 0"
        "last (sh # shs) = last shs" using Cons same present by simp_all
      ultimately show ?thesis using present lookup_step [of shs m' t' g sh] lookup_step [of shs m t' g sh]
          reaches_step [of shs sh t' g m t] by (simp only: same simp_thms if_True)
    qed
  qed
qed

lemma reaches_place:
  assumes inv: "ept_inv own others e m"
  shows "ept_reaches shs t g m t3 \<Longrightarrow> own t = Some p \<Longrightarrow> length p + length shs = 4 \<Longrightarrow>
    own t3 = Some (p @ map (ept_idx g) (butlast shs))"
proof (induction shs arbitrary: t p)
  case Nil
  then show ?case by simp
next
  case (Cons sh shs)
  show ?case
  proof (cases shs)
    case Nil
    then show ?thesis using Cons.prems by simp
  next
    case (Cons sh' shs')
    let ?x = "tables m t (ept_idx g sh)"
    have pr: "?x AND EPT_ENTRY_RWX \<noteq> 0" "ept_reaches shs (next_table ?x) g m t3"
      using Cons.prems(1) Cons by (auto simp: Let_def)
    have "own (next_table ?x) = Some (p @ [ept_idx g sh])"
      using Cons.prems(3) Cons by (intro ept_inv_present [OF inv Cons.prems(2) _ pr(1)]) simp
    from Cons.IH [OF pr(2) this] show ?thesis using Cons.prems(3) Cons by simp
  qed
qed

lemma reaches_cong:
  "map (ept_idx g) (butlast shs) = map (ept_idx g') (butlast shs) \<Longrightarrow>
     ept_reaches shs t g m t3 = ept_reaches shs t g' m t3"
  by (induction shs t g m t3 rule: ept_reaches.induct) (auto simp: Let_def)

definition same_page :: "u64 \<Rightarrow> u64 \<Rightarrow> bool" where
  "same_page g g' \<longleftrightarrow> drop_bit 12 (take_bit 48 g) = drop_bit 12 (take_bit 48 g')"

lemma ept_idx_eq: "ept_idx g sh = ept_idx g' sh \<longleftrightarrow> take_bit 9 (drop_bit sh g) = take_bit 9 (drop_bit sh g')"
  unfolding ept_idx_def mask_consts by (simp add: word_unat_eq_iff take_bit_eq_mask)

lemma same_page_iff: "same_page g g' \<longleftrightarrow> map (ept_idx g) ept_shifts = map (ept_idx g') ept_shifts"
proof
  assume s: "same_page g g'"
  have "bit g n = bit g' n" if "12 \<le> n" "n < 48" for n
    using arg_cong [OF s [unfolded same_page_def], of "\<lambda>x. bit x (n - 12)"] that
    by (simp add: bit_simps)
  then have "take_bit 9 (drop_bit sh g) = take_bit 9 (drop_bit sh g')" if "12 \<le> sh" "sh \<le> 39" for sh
    using that by (intro bit_word_eqI) (auto simp: bit_simps)
  then show "map (ept_idx g) ept_shifts = map (ept_idx g') ept_shifts"
    by (simp add: ept_shifts_def ept_idx_eq)
next
  assume s: "map (ept_idx g) ept_shifts = map (ept_idx g') ept_shifts"
  have b: "bit g n = bit g' n" if "sh \<in> set ept_shifts" "sh \<le> n" "n < sh + 9" for n sh
  proof -
    have "take_bit 9 (drop_bit sh g) = take_bit 9 (drop_bit sh g')"
      using s that(1) by (auto simp: ept_shifts_def ept_idx_eq)
    then have "bit (take_bit 9 (drop_bit sh g)) (n - sh) = bit (take_bit 9 (drop_bit sh g')) (n - sh)"
      by simp
    moreover have "n - sh < 9" using that by simp
    ultimately show ?thesis using that by (simp add: bit_simps)
  qed
  have "bit g n = bit g' n" if "12 \<le> n" "n < 48" for n
  proof -
    consider "n < 21" | "21 \<le> n" "n < 30" | "30 \<le> n" "n < 39" | "39 \<le> n" by linarith
    then show ?thesis using that b [of 12 n] b [of 21 n] b [of 30 n] b [of 39 n]
      by cases (auto simp: ept_shifts_def)
  qed
  then show "same_page g g'" unfolding same_page_def
    by (intro bit_word_eqI) (auto simp: bit_simps)
qed

section \<open>The walk keeps the invariant and every translation\<close>

lemma inv_dom_live: "ept_inv own others e m \<Longrightarrow> own t = Some p \<Longrightarrow> t \<in> set (live m)"
proof -
  assume i: "ept_inv own others e m" and t: "own t = Some p"
  then obtain root where r: "dom own = set (root # tracked e)" "mset (live m) = mset (root # tracked e) + others"
    unfolding ept_inv_def by blast
  have "t \<in># mset (root # tracked e)" using r(1) t by auto
  then have "t \<in># mset (live m)" unfolding r(2) by auto
  then show ?thesis by simp
qed

lemma ept_inv_tables:
  assumes "ept_inv own others e m" "tables m' = tables m" "live m' = live m"
  shows "ept_inv own others e m'"
  using assms by (simp add: ept_inv_def)

lemma ept_inv_extend:
  assumes inv: "ept_inv own others e m" and t: "own t = Some p" "length p < 3"
    and c: "own c = None" "pfn_ok c" "live m' = c # live m"
    and tb: "tables m' = (tables m)(c := (\<lambda>_. 0), t := (tables m t)(i := page_to_phys c OR EPT_ENTRY_RWX))"
  shows "ept_inv (own(c \<mapsto> p @ [i])) others (e\<lparr>tracked := tracked e @ [c]\<rparr>) m'"
proof -
  obtain root where r: "pml4 e = Some root" "own root = Some []" "dom own = set (root # tracked e)"
    "mset (live m) = mset (root # tracked e) + others"
    using inv unfolding ept_inv_def by blast
  have ok: "\<forall>t \<in> dom own. pfn_ok t" using inv unfolding ept_inv_def by blast
  have cr: "c \<noteq> root" "c \<noteq> t" using r(2) c(1) t by auto
  have 1: "pml4 (e\<lparr>tracked := tracked e @ [c]\<rparr>) = Some root \<and> (own(c \<mapsto> p @ [i])) root = Some [] \<and>
      dom (own(c \<mapsto> p @ [i])) = set (root # tracked (e\<lparr>tracked := tracked e @ [c]\<rparr>)) \<and>
      mset (live m') = mset (root # tracked (e\<lparr>tracked := tracked e @ [c]\<rparr>)) + others"
    using r cr c(3) by auto
  have 2: "\<forall>t \<in> dom (own(c \<mapsto> p @ [i])). pfn_ok t" using ok c(2) by auto
  have 3: "tables m' t2 j = 0 \<or>
      (\<exists>d. tables m' t2 j = page_to_phys d OR EPT_ENTRY_RWX \<and> (own(c \<mapsto> p @ [i])) d = Some (q @ [j]))"
    if t2: "(own(c \<mapsto> p @ [i])) t2 = Some q" "length q < 3" for t2 q j
  proof (cases "t2 = c")
    case True
    then show ?thesis using tb cr by auto
  next
    case nc: False
    then have q: "own t2 = Some q" using t2 by simp
    show ?thesis
    proof (cases "t2 = t \<and> j = i")
      case True
      then show ?thesis using tb q t by auto
    next
      case False
      then have s: "tables m' t2 j = tables m t2 j" using tb nc by auto
      from ept_inv_entry [OF inv q t2(2), of j] show ?thesis
      proof (elim disjE exE conjE)
        fix d assume d: "tables m t2 j = page_to_phys d OR EPT_ENTRY_RWX" "own d = Some (q @ [j])"
        then have "d \<noteq> c" using c(1) by auto
        then show ?thesis using d s by auto
      qed (use s in simp)
    qed
  qed
  show ?thesis unfolding ept_inv_def using 1 2 3 by blast
qed

definition walk_kept ::
  "(u64 \<Rightarrow> nat list option) \<Rightarrow> (u64 \<Rightarrow> nat list option) \<Rightarrow> u64 multiset \<Rightarrow>
   mini_ept \<Rightarrow> mk_mem \<Rightarrow> mini_ept \<Rightarrow> mk_mem \<Rightarrow> bool" where
  "walk_kept own own' others e m e' m' \<longleftrightarrow>
     ept_inv own' others e' m' \<and> fresh_pages m' \<and> own \<subseteq>\<^sub>m own' \<and> pml4 e' = pml4 e \<and> eptp e' = eptp e \<and>
     (\<forall>t p i. own t = Some p \<and> length p < 3 \<and> tables m t i \<noteq> 0 \<longrightarrow> tables m' t i = tables m t i) \<and>
     (\<forall>t p shs g. own t = Some p \<and> length p + length shs = 4 \<longrightarrow>
        ept_lookup_from shs t g m' = ept_lookup_from shs t g m)"

lemma lookup_tables_cong:
  "tables m' = tables m \<Longrightarrow> ept_lookup_from shs t g m' = ept_lookup_from shs t g m"
proof (induction shs arbitrary: t)
  case (Cons sh shs)
  then show ?case by (cases shs) (simp_all add: Let_def)
qed simp

lemma walk_kept_refl:
  "ept_inv own others e m' \<Longrightarrow> fresh_pages m' \<Longrightarrow> tables m' = tables m \<Longrightarrow>
     walk_kept own own others e m e m'"
proof -
  assume a: "ept_inv own others e m'" "fresh_pages m'" "tables m' = tables m"
  have "ept_lookup_from shs t g m' = ept_lookup_from shs t g m" for shs t g
    by (rule lookup_tables_cong [OF a(3)])
  with a show ?thesis by (simp add: walk_kept_def)
qed

lemma walk_kept_trans:
  assumes a: "walk_kept own own1 others e m e1 m1" and b: "walk_kept own1 own2 others e1 m1 e2 m2"
  shows "walk_kept own own2 others e m e2 m2"
proof -
  have up: "own1 t = Some p" if "own t = Some p" for t p
    using a that by (auto simp: walk_kept_def map_le_def dom_def)
  have o: "own \<subseteq>\<^sub>m own2" using a b map_le_trans by (auto simp: walk_kept_def)
  have e: "tables m2 t i = tables m t i" if "own t = Some p" "length p < 3" "tables m t i \<noteq> 0" for t p i
  proof -
    have "tables m1 t i = tables m t i" using a that by (auto simp: walk_kept_def)
    moreover from this have "tables m2 t i = tables m1 t i"
      using b up [OF that(1)] that(2,3) by (auto simp: walk_kept_def)
    ultimately show ?thesis by simp
  qed
  have l: "ept_lookup_from shs t g m2 = ept_lookup_from shs t g m"
    if "own t = Some p" "length p + length shs = 4" for t p shs g
    using a b that up [OF that(1)] by (auto simp: walk_kept_def)
  show ?thesis using a b o e l unfolding walk_kept_def by auto
qed

lemma walk_ok:
  "ept_inv own others e m \<Longrightarrow> fresh_pages m \<Longrightarrow> own t = Some p \<Longrightarrow> length p + length shs = 4 \<Longrightarrow>
   shs \<noteq> [] \<Longrightarrow>
   \<exists>own'. walk_kept own own' others e m (fst (snd (ept_walk_from shs t g True e m)))
       (snd (snd (ept_walk_from shs t g True e m))) \<and>
     (\<forall>tt i. fst (ept_walk_from shs t g True e m) = Some (tt, i) \<longrightarrow>
        ept_reaches shs t g (snd (snd (ept_walk_from shs t g True e m))) tt \<and> i = ept_idx g (last shs) \<and>
        own' tt = Some (p @ map (ept_idx g) (butlast shs)))"
proof (induction shs arbitrary: t p e m own)
  case Nil
  then show ?case by simp
next
  case (Cons sh shs)
  show ?case
  proof (cases shs)
    case Nil
    then show ?thesis using Cons.prems walk_kept_refl [OF Cons.prems(1,2) refl] by auto
  next
    case (Cons sh' shs')
    note inv = Cons.prems(1) and fr = Cons.prems(2) and tp = Cons.prems(3)
    define i where "i = ept_idx g sh"
    have l: "length p < 3" and ne: "shs \<noteq> []" using Cons.prems(4) Cons by simp_all
    have lp: "length (p @ [i]) + length shs = 4" using Cons.prems(4) by simp
    have fin: ?thesis if st: "ept_walk_from (sh # shs) t g True e m = ept_walk_from shs c g True e1 m1"
      and k: "walk_kept own own1 others e m e1 m1" and c: "own1 c = Some (p @ [i])"
      and x: "next_table (tables m1 t i) = c" "tables m1 t i \<noteq> 0" "tables m1 t i AND EPT_ENTRY_RWX \<noteq> 0" for c e1 m1 own1
    proof -
      have i1: "ept_inv own1 others e1 m1" "fresh_pages m1" "own1 t = Some p"
        using k tp by (auto simp: walk_kept_def map_le_def dom_def)
      from Cons.IH [OF i1(1,2) c lp ne] obtain own' where
        w: "walk_kept own1 own' others e1 m1 (fst (snd (ept_walk_from shs c g True e1 m1)))
             (snd (snd (ept_walk_from shs c g True e1 m1)))" and
        r: "\<And>tt j. fst (ept_walk_from shs c g True e1 m1) = Some (tt, j) \<Longrightarrow>
            ept_reaches shs c g (snd (snd (ept_walk_from shs c g True e1 m1))) tt \<and> j = ept_idx g (last shs) \<and>
            own' tt = Some ((p @ [i]) @ map (ept_idx g) (butlast shs))"
        by blast
      have same: "tables (snd (snd (ept_walk_from shs c g True e1 m1))) t i = tables m1 t i"
        using w i1(3) l x(2) by (auto simp: walk_kept_def)
      have "walk_kept own own' others e m (fst (snd (ept_walk_from (sh # shs) t g True e m)))
         (snd (snd (ept_walk_from (sh # shs) t g True e m)))"
        unfolding st by (rule walk_kept_trans [OF k w])
      moreover have "ept_reaches (sh # shs) t g (snd (snd (ept_walk_from (sh # shs) t g True e m))) tt \<and>
          j = ept_idx g (last (sh # shs)) \<and> own' tt = Some (p @ map (ept_idx g) (butlast (sh # shs)))"
        if "fst (ept_walk_from (sh # shs) t g True e m) = Some (tt, j)" for tt j
        using r [OF that [unfolded st]] same x ne
        unfolding st reaches_step [OF ne] i_def [symmetric] by (simp add: i_def)
      ultimately show ?thesis by blast
    qed
    show ?thesis
    proof (cases "tables m t i AND EPT_PTE_READ = 0")
      case False
      then have st: "ept_walk_from (sh # shs) t g True e m = ept_walk_from shs (next_table (tables m t i)) g True e m"
        by (simp add: Cons i_def)
      have "tables m t i AND EPT_ENTRY_RWX \<noteq> 0" using False ept_inv_rwx [OF inv tp l, of i] by simp
      moreover have "tables m t i \<noteq> 0" using False by auto
      ultimately show ?thesis
        using fin [OF st walk_kept_refl [OF inv fr refl] ept_inv_present [OF inv tp l False] refl] by blast
    next
      case True
      have z: "tables m t i = 0"
        using ept_inv_entry [OF inv tp l, of i] True entry_present(1) by auto
      show ?thesis
      proof (cases "length (tracked e) \<ge> EPT_TRACK_MAX")
        case True
        then have "ept_walk_from (sh # shs) t g True e m = (None, e, m)"
          using \<open>tables m t i AND EPT_PTE_READ = 0\<close> by (simp add: Cons i_def)
        then show ?thesis using walk_kept_refl [OF inv fr refl] by auto
      next
        case room: False
        obtain r m1 where al: "alloc_page m = (r, m1)" by (cases "alloc_page m")
        show ?thesis
        proof (cases r)
          case None
          then have "ept_walk_from (sh # shs) t g True e m = (None, e, m1)"
            using True room al by (simp add: Cons i_def Let_def)
          moreover have "walk_kept own own others e m e m1"
            by (rule walk_kept_refl [OF ept_inv_tables [OF inv]]) (use alloc_none [OF fr al [unfolded None]] in simp_all)
          ultimately show ?thesis by auto
        next
          case (Some np)
          note af = alloc_fresh [OF fr al [unfolded Some]]
          define m2 where "m2 = set_entry t i (page_to_phys np OR EPT_ENTRY_RWX) m1"
          define e1 where "e1 = e\<lparr>tracked := tracked e @ [np]\<rparr>"
          have np: "own np = None" using inv_dom_live [OF inv] af(1) by (cases "own np") auto
          then have tnp: "t \<noteq> np" using tp by auto
          have tb: "tables m2 = (tables m)(np := (\<lambda>_. 0), t := (tables m t)(i := page_to_phys np OR EPT_ENTRY_RWX))"
            using tnp by (simp add: m2_def set_entry_def af(5))
          have ent: "tables m2 t i = page_to_phys np OR EPT_ENTRY_RWX" by (simp add: tb)
          have st: "ept_walk_from (sh # shs) t g True e m = ept_walk_from shs np g True e1 m2"
            using True room al Some ent next_table_entry [OF af(2)]
            by (simp add: Cons i_def [symmetric] Let_def m2_def [symmetric] e1_def [symmetric])
          have i2: "ept_inv (own(np \<mapsto> p @ [i])) others e1 m2"
            unfolding e1_def
            by (rule ept_inv_extend [OF inv tp l np af(2) _ tb]) (simp add: m2_def set_entry_def af(4))
          have f2: "fresh_pages m2" using af(3) by (simp add: m2_def set_entry_def fresh_pages_def Let_def)
          have lk: "ept_lookup_from shs2 t2 g2 m2 = ept_lookup_from shs2 t2 g2 m"
            if "own t2 = Some p2" "length p2 + length shs2 = 4" for t2 p2 shs2 g2
            by (rule lookup_new_table [OF inv tp l z np af(2) tb that])
          have "tables m2 t2 j = tables m t2 j" if "own t2 = Some p2" "tables m t2 j \<noteq> 0" for t2 p2 j
            using that np z tb by auto
          with i2 f2 lk np have k: "walk_kept own (own(np \<mapsto> p @ [i])) others e m e1 m2"
            by (auto simp: walk_kept_def e1_def map_le_def dom_def)
          have nz: "page_to_phys np OR EPT_ENTRY_RWX \<noteq> 0"
            using entry_present(2) [of np] by (metis and_zero_eq zero_and_eq)
          show ?thesis
            by (rule fin [OF st k]) (use ent next_table_entry [OF af(2)] nz entry_present(2) in simp_all)
        qed
      qed
    qed
  qed
qed

section \<open>Violations\<close>

definition ept_ok :: "u64 multiset \<Rightarrow> mini_ept \<Rightarrow> mk_mem \<Rightarrow> bool" where
  "ept_ok others e m \<longleftrightarrow> (\<exists>own. ept_inv own others e m) \<and> fresh_pages m"

definition slot_ok :: "mini_slot \<Rightarrow> bool" where
  "slot_ok s \<longleftrightarrow> length (pages s) = unat (npages s) \<and> (\<forall>p \<in> set (pages s). pfn_ok p)"

definition slot_index :: "mini_slot \<Rightarrow> u64 \<Rightarrow> nat" where
  "slot_index s gpa = unat (drop_bit 12 ((page_base gpa) - base_gpa s))"

text \<open>Where the slot puts a guest address: the pinned page of its index, and the offset.\<close>

definition slot_hpa :: "mini_slot \<Rightarrow> u64 \<Rightarrow> u64 option" where
  "slot_hpa s gpa =
     (if in_slot s (page_base gpa)
      then Some (page_to_phys (pages s ! slot_index s gpa) OR (gpa AND 0xfff)) else None)"

lemma slot_index_less:
  assumes "in_slot s gpa" 
  shows "unat (drop_bit 12 (gpa - base_gpa s)) < unat (npages s)"
proof -
  define b g n where "b = unat (base_gpa s)" and "g = unat gpa" and "n = unat (push_bit 12 (npages s))"
  have "n \<le> unat (npages s) * 4096"
    by (simp add: n_def push_bit_eq_mult unat_word_ariths)
  have lt: "b < 18446744073709551616" "n < 18446744073709551616"
    using unsigned_less [where 'a = nat, of "base_gpa s"]
      unsigned_less [where 'a = nat, of "push_bit 12 (npages s)"] by (simp_all add: b_def n_def)
  have "b \<le> g" "g < unat (base_gpa s + push_bit 12 (npages s))"
    using assms by (auto simp: in_slot_def b_def g_def word_le_nat_alt word_less_nat_alt not_le not_less)
  moreover have "unat (base_gpa s + push_bit 12 (npages s)) =
      (if b + n < 18446744073709551616 then b + n else b + n - 18446744073709551616)"
    using unat_plus_if' [of "base_gpa s" "push_bit 12 (npages s)"] by (simp add: b_def n_def)
  ultimately have "b \<le> g" "g - b < n" using lt by (auto split: if_splits)
  moreover have "unat (gpa - base_gpa s) = g - b"
    using \<open>b \<le> g\<close> by (simp add: unat_sub word_le_nat_alt b_def g_def)
  ultimately have "unat (gpa - base_gpa s) < unat (npages s) * 4096"
    using \<open>n \<le> unat (npages s) * 4096\<close> by simp
  then show ?thesis by (simp add: drop_bit_eq_div unat_div_distrib less_mult_imp_div_less)
qed

lemma ept_idx_page: "sh \<in> set ept_shifts \<Longrightarrow> ept_idx (page_base g) sh = ept_idx g sh"
  unfolding ept_idx_eq mask_consts page_base_def
  by (rule bit_word_eqI) (auto simp: bit_simps ept_shifts_def dest: bit_imp_le_length)

lemma path_page: "map (ept_idx (page_base g)) ept_shifts = map (ept_idx g) ept_shifts"
  using ept_idx_page by simp

lemma ept_inv_leaf:
  assumes "ept_inv own others e m" "own t = Some p" "length p = 3"
  shows "ept_inv own others e (set_entry t i x m)"
proof -
  have "tables (set_entry t i x m) t2 = tables m t2" if "own t2 = Some q" "length q < 3" for t2 q
    using that assms(2,3) by (auto simp: set_entry_def)
  moreover have "live (set_entry t i x m) = live m" by (simp add: set_entry_def)
  ultimately show ?thesis using assms(1) unfolding ept_inv_def by simp
qed

lemma violation_maps:
  assumes ok: "ept_ok others e m" and slot: "slot_ok s"
  shows "\<exists>r e' m' n'. mini_ept_handle_violation gpa s e m n = Inr (r, e', m', n') \<and> ept_ok others e' m' \<and>
    (r = - EFAULT) = (\<not> in_slot s (page_base gpa)) \<and>
    (r = 0 \<and> n' = n + 1 \<and>
       (\<forall>g. ept_translate e' m' g =
          (if same_page g gpa then Some (page_to_phys (pages s ! slot_index s gpa) OR (g AND 0xfff))
           else ept_translate e m g)) \<or>
     r \<in> {- EFAULT, - ENOMEM} \<and> n' = n \<and> (\<forall>g. ept_translate e' m' g = ept_translate e m g))"
proof -
  define pg where "pg = page_base gpa"
  obtain own root where inv: "ept_inv own others e m" and fr: "fresh_pages m"
    and root: "pml4 e = Some root" "own root = Some []"
    using ok unfolding ept_ok_def ept_inv_def by blast
  show ?thesis
  proof (cases "in_slot s pg")
    case False
    then have "mini_ept_handle_violation gpa s e m n = Inr (- EFAULT, e, m, n)"
      by (simp add: mini_ept_handle_violation_def pg_def Let_def)
    with False ok show ?thesis by (auto simp: pg_def)
  next
    case True
    obtain r e1 m1 where w: "ept_walk_from ept_shifts root pg True e m = (r, e1, m1)"
      by (cases "ept_walk_from ept_shifts root pg True e m")
    have len: "length ([] :: nat list) + length ept_shifts = 4" "ept_shifts \<noteq> []" by (simp_all add: ept_shifts_def)
    obtain own' where k: "walk_kept own own' others e m e1 m1"
      and reach: "\<And>t i. r = Some (t, i) \<Longrightarrow> ept_reaches ept_shifts root pg m1 t \<and> i = ept_idx pg (last ept_shifts) \<and>
        own' t = Some (map (ept_idx pg) (butlast ept_shifts))"
      using walk_ok [OF inv fr root(2) len, of pg] w by auto
    have inv1: "ept_inv own' others e1 m1" "fresh_pages m1" "pml4 e1 = Some root"
      and root1: "own' root = Some []"
      using k root by (auto simp: walk_kept_def map_le_def dom_def)
    have tr1: "ept_translate e1 m1 g = ept_translate e m g" for g
      using k root inv1(3) len by (auto simp: ept_translate_def walk_kept_def)
    have mw: "mini_ept_walk pg True e m = (r, e1, m1)" using w root by (simp add: mini_ept_walk_def)
    show ?thesis
    proof (cases r)
      case None
      then have "mini_ept_handle_violation gpa s e m n = Inr (- ENOMEM, e1, m1, n)"
        using True mw by (simp add: mini_ept_handle_violation_def pg_def [symmetric] Let_def)
      with inv1 tr1 True show ?thesis by (auto simp: ept_ok_def pg_def)
    next
      case (Some ti)
      obtain t i where ti: "ti = (t, i)" by (cases ti)
      note re = reach [OF Some [unfolded ti]]
      define h where "h = pages s ! slot_index s gpa"
      define x where "x = page_to_phys h OR EPT_ENTRY_RWX OR EPT_MEMTYPE_WB"
      have idx: "slot_index s gpa < length (pages s)"
        using slot_index_less [OF True] slot by (simp add: slot_ok_def slot_index_def pg_def)
      then have "pfn_ok h" using slot by (simp add: slot_ok_def h_def)
      have h: "mini_ept_handle_violation gpa s e m n = Inr (0, e1, set_entry t i x m1, n + 1)"
        using True mw Some ti idx
        by (simp add: mini_ept_handle_violation_def pg_def [symmetric] Let_def x_def h_def slot_index_def)
      have l3: "length (map (ept_idx pg) (butlast ept_shifts)) = 3" by (simp add: ept_shifts_def)
      have inv2: "ept_inv own' others e1 (set_entry t i x m1)"
        using ept_inv_leaf [OF inv1(1)] re l3 by blast
      have fr2: "fresh_pages (set_entry t i x m1)"
        using inv1(2) by (simp add: fresh_pages_def set_entry_def Let_def)
      have page: "ept_reaches ept_shifts root g m1 t \<and> ept_idx g (last ept_shifts) = i \<longleftrightarrow> same_page g gpa" for g
      proof
        assume a: "ept_reaches ept_shifts root g m1 t \<and> ept_idx g (last ept_shifts) = i"
        then have "own' t = Some ([] @ map (ept_idx g) (butlast ept_shifts))"
          using reaches_place [OF inv1(1) _ root1 len(1)] by blast
        with re a have "map (ept_idx g) ept_shifts = map (ept_idx pg) ept_shifts"
          by (simp add: ept_shifts_def)
        then show "same_page g gpa" using path_page [of gpa] by (simp add: same_page_iff pg_def)
      next
        assume "same_page g gpa"
        then have p: "map (ept_idx g) ept_shifts = map (ept_idx pg) ept_shifts"
          using path_page [of gpa] by (simp add: same_page_iff pg_def)
        then have "map (ept_idx g) (butlast ept_shifts) = map (ept_idx pg) (butlast ept_shifts)"
          "ept_idx g (last ept_shifts) = ept_idx pg (last ept_shifts)" by (simp_all add: ept_shifts_def)
        then show "ept_reaches ept_shifts root g m1 t \<and> ept_idx g (last ept_shifts) = i"
          using re reaches_cong by metis
      qed
      have "ept_translate e1 (set_entry t i x m1) g =
          (if same_page g gpa then Some (page_to_phys h OR (g AND 0xfff)) else ept_translate e m g)" for g
        using lookup_leaf [OF inv1(1) _ l3 refl root1 len(1), where t = t and i = i and x = x and g = g] re page [of g] tr1 [of g]
          leaf_address [OF \<open>pfn_ok h\<close>] entry_present(3) [of h]
        by (simp add: ept_translate_def inv1(3) x_def del: ept_reaches.simps ept_lookup_from.simps)
      with h inv2 fr2 True show ?thesis by (auto simp: ept_ok_def h_def pg_def)
    qed
  qed
qed

section \<open>Demand paging\<close>

text \<open>
  Four-level tables translate 48-bit guest-physical addresses, so those are the keys.  The state
  is the tables, the pages and the violation counter.
\<close>

definition ept_fault ::
  "mini_slot \<Rightarrow> 48 word \<Rightarrow> mini_ept \<times> mk_mem \<times> u64 \<Rightarrow> bool \<times> mini_ept \<times> mk_mem \<times> u64" where
  "ept_fault slot a = (\<lambda>(e, m, n).
     case mini_ept_handle_violation (ucast a) slot e m n of
       Inl _ \<Rightarrow> (False, e, m, n)
     | Inr (r, e', m', n') \<Rightarrow> (r = 0, e', m', n'))"

definition ept_view :: "mini_ept \<times> mk_mem \<times> u64 \<Rightarrow> 48 word \<Rightarrow> u64 option" where
  "ept_view = (\<lambda>(e, m, n) a. ept_translate e m (ucast a))"

lemma same_page_48: "same_page (ucast (b :: 48 word)) (ucast a) \<longleftrightarrow> drop_bit 12 b = drop_bit 12 a"
proof
  assume s: "same_page (ucast b) (ucast a)"
  show "drop_bit 12 b = drop_bit 12 a"
  proof (rule bit_word_eqI)
    fix n assume "n < LENGTH(48)"
    then show "bit (drop_bit 12 b) n = bit (drop_bit 12 a) n"
      using arg_cong [OF s [unfolded same_page_def], of "\<lambda>x. bit x n"]
      by (auto simp: bit_simps dest: bit_imp_le_length)
  qed
next
  assume s: "drop_bit 12 b = drop_bit 12 a"
  show "same_page (ucast b) (ucast a)" unfolding same_page_def
  proof (rule bit_word_eqI)
    fix n assume "n < LENGTH(64)"
    show "bit (drop_bit 12 (take_bit 48 (ucast b :: u64))) n = bit (drop_bit 12 (take_bit 48 (ucast a :: u64))) n"
      using arg_cong [OF s, of "\<lambda>x. bit x n"] by (auto simp: bit_simps dest: bit_imp_le_length)
  qed
qed

lemma page_base_48:
  assumes "drop_bit 12 (b :: 48 word) = drop_bit 12 a"
  shows "page_base (ucast b) = page_base (ucast a)"
proof (rule bit_word_eqI)
  fix n assume "n < LENGTH(64)"
  show "bit (page_base (ucast b)) n = bit (page_base (ucast a)) n"
    using arg_cong [OF assms, of "\<lambda>x. bit x (n - 12)"] unfolding page_base_def mask_consts
    by (auto simp: bit_simps dest: bit_imp_le_length)
qed

lemma ept_fault_cases:
  assumes ok: "ept_ok others e m" and slot: "slot_ok slot"
    and f: "ept_fault slot a (e, m, n) = (hit, e', m', n')"
  shows "ept_ok others e' m'"
    "hit \<Longrightarrow> slot_hpa slot (ucast a) \<noteq> None \<and>
       ept_view (e', m', n') b = (if drop_bit 12 b = drop_bit 12 a then slot_hpa slot (ucast b)
                                  else ept_view (e, m, n) b)"
    "\<not> hit \<Longrightarrow> ept_view (e', m', n') b = ept_view (e, m, n) b"
proof -
  let ?spec = "\<lambda>r e' m' n'. ept_ok others e' m' \<and> (r = - EFAULT) = (\<not> in_slot slot (page_base (ucast a))) \<and>
    (r = 0 \<and> n' = n + 1 \<and>
       (\<forall>g. ept_translate e' m' g =
          (if same_page g (ucast a) then Some (page_to_phys (pages slot ! slot_index slot (ucast a)) OR (g AND 0xfff))
           else ept_translate e m g)) \<or>
     r \<in> {- EFAULT, - ENOMEM} \<and> n' = n \<and> (\<forall>g. ept_translate e' m' g = ept_translate e m g))"
  obtain r e2 m2 n2 where v2: "mini_ept_handle_violation (ucast a) slot e m n = Inr (r, e2, m2, n2)"
    and c2: "?spec r e2 m2 n2"
    using violation_maps [OF ok slot, of "ucast a" n] by blast
  have eq: "e2 = e'" "m2 = m'" "n2 = n'" and v: "hit = (r = 0)"
    using f v2 by (simp_all add: ept_fault_def)
  note c = c2 [unfolded eq]
  show "ept_ok others e' m'" using c by simp
  show "ept_view (e', m', n') b = ept_view (e, m, n) b" if "\<not> hit"
    using c that v by (auto simp: ept_view_def)
  show "slot_hpa slot (ucast a) \<noteq> None \<and>
       ept_view (e', m', n') b = (if drop_bit 12 b = drop_bit 12 a then slot_hpa slot (ucast b)
                                  else ept_view (e, m, n) b)" if "hit"
  proof -
    have r: "r = 0" using that v by simp
    then have i: "in_slot slot (page_base (ucast a))" using c by auto
    have "ept_view (e', m', n') b =
        (if same_page (ucast b) (ucast a) then Some (page_to_phys (pages slot ! slot_index slot (ucast a)) OR (ucast b AND 0xfff))
         else ept_view (e, m, n) b)"
      using c r by (auto simp: ept_view_def)
    then show ?thesis using i page_base_48 [of b a] same_page_48 [of b a]
      by (auto simp: slot_hpa_def slot_index_def)
  qed
qed

interpretation ept: demand_map ept_view "ept_fault slot" "\<lambda>b a. drop_bit 12 b = drop_bit 12 a"
  "\<lambda>a. slot_hpa slot (ucast a)" "\<lambda>(e, m, n). ept_ok others e m \<and> slot_ok slot"
  for slot others
proof unfold_locales
  fix s :: "mini_ept \<times> mk_mem \<times> u64" and a b :: "48 word"
  obtain e m n where s: "s = (e, m, n)" by (cases s)
  obtain hit e' m' n' where f: "ept_fault slot a (e, m, n) = (hit, e', m', n')"
    by (cases "ept_fault slot a (e, m, n)")
  assume "case s of (e, m, n) \<Rightarrow> ept_ok others e m \<and> slot_ok slot"
  then have ok: "ept_ok others e m" "slot_ok slot" by (simp_all add: s)
  note c = ept_fault_cases [OF ok f]
  show "case snd (ept_fault slot a s) of (e, m, n) \<Rightarrow> ept_ok others e m \<and> slot_ok slot"
    using c(1) ok(2) by (simp add: s f)
  show "slot_hpa slot (ucast a) \<noteq> None \<and> ept_view (snd (ept_fault slot a s)) b =
      (if drop_bit 12 b = drop_bit 12 a then slot_hpa slot (ucast b) else ept_view s b)"
    if "fst (ept_fault slot a s)" using that c(2) by (simp add: s f)
  show "ept_view (snd (ept_fault slot a s)) b = ept_view s b" if "\<not> fst (ept_fault slot a s)"
    using that c(3) by (simp add: s f)
qed

section \<open>Setup and teardown\<close>

lemma ept_init_ok:
  assumes fr: "fresh_pages m" and i: "mini_ept_init e m = (0, e', m')"
  shows "ept_ok (mset (live m)) e' m'" "ept_translate e' m' g = None"
proof -
  obtain p where al: "alloc_page m = (Some p, m')"
    and e': "e' = e\<lparr>pml4 := Some p, tracked := [], eptp := page_to_phys p OR 6 OR 0x18\<rparr>"
    using i by (auto simp: mini_ept_init_def split: prod.splits option.splits)
  note a = alloc_fresh [OF fr al]
  have "ept_inv [p \<mapsto> []] (mset (live m)) e' m'"
    using a by (auto simp: ept_inv_def e')
  then show "ept_ok (mset (live m)) e' m'" using a(3) by (auto simp: ept_ok_def)
  show "ept_translate e' m' g = None"
    using lookup_zero [of m' p] a(5) by (simp add: ept_translate_def e')
qed

lemma free_all_ok:
  "mset ps \<subseteq># mset (live m) \<Longrightarrow>
     \<exists>m'. free_all ps m = Inr m' \<and> mset (live m') = mset (live m) - mset ps \<and> tables m' = tables m"
proof (induction ps arbitrary: m)
  case Nil
  then show ?case by simp
next
  case (Cons p ps)
  have p: "p \<in> set (live m)" using mset_subset_eqD [OF Cons.prems, of p] by simp
  let ?m1 = "m\<lparr>live := remove1 p (live m)\<rparr>"
  have "mset ps \<subseteq># mset (live ?m1)"
    using Cons.prems by (simp add: insert_subset_eq_iff)
  from Cons.IH [OF this] obtain m' where
    "free_all ps ?m1 = Inr m'" "mset (live m') = mset (live ?m1) - mset ps" "tables m' = tables ?m1" by blast
  with p show ?case by (auto simp: free_page_def)
qed

lemma ept_destroy_ok:
  assumes "ept_ok others e m"
  shows "\<exists>e' m'. mini_ept_destroy e m = Inr (e', m') \<and> mset (live m') = others \<and>
    pml4 e' = None \<and> tracked e' = []"
proof -
  obtain root where r: "pml4 e = Some root" "mset (live m) = mset (root # tracked e) + others"
    using assms unfolding ept_ok_def ept_inv_def by blast
  obtain m1 where m1: "free_all (tracked e) m = Inr m1" "mset (live m1) = mset (live m) - mset (tracked e)"
    using free_all_ok [of "tracked e" m] r(2) by auto
  have l1: "mset (live m1) = add_mset root others" using m1(2) r(2) by simp
  then have "root \<in># mset (live m1)" by simp
  then have "free_page root m1 = Inr (m1\<lparr>live := remove1 root (live m1)\<rparr>)" by (simp add: free_page_def)
  then show ?thesis using m1(1) r(1) l1 by (simp add: mini_ept_destroy_def)
qed

section \<open>Properties of the second stage\<close>

text \<open>
  C12. An EPT violation refines the abstract map from guest to host addresses: it returns 0 and
  maps exactly the 4 KB page of the faulting address to its pinned page, or it returns
  \<open>-EFAULT\<close> (exactly for an address outside the slot) or \<open>-ENOMEM\<close> and changes no translation;
  the table invariant holds again and no access leaves the slot's page array.
\<close>

theorem ept_violation_refines:
  assumes "ept_ok others e m" "slot_ok s"
  shows "\<exists>r e' m' n'. mini_ept_handle_violation gpa s e m n = Inr (r, e', m', n') \<and> ept_ok others e' m' \<and>
    (r = - EFAULT) = (\<not> in_slot s (page_base gpa)) \<and>
    (r = 0 \<and> n' = n + 1 \<and>
       (\<forall>g. ept_translate e' m' g =
          (if same_page g gpa then Some (page_to_phys (pages s ! slot_index s gpa) OR (g AND 0xfff))
           else ept_translate e m g)) \<or>
     r \<in> {- EFAULT, - ENOMEM} \<and> n' = n \<and> (\<forall>g. ept_translate e' m' g = ept_translate e m g))"
  by (rule violation_maps [OF assms])

text \<open>
  C13. Whatever sequence of violations a guest causes on fresh tables, every translation that
  results is the one of the slot: no guest address ever reaches a page outside the pinned ones.
\<close>

theorem ept_confines_guest:
  assumes "fresh_pages m" "mini_ept_init e m = (0, e0, m0)" "slot_ok slot"
    and "ept_view (fold (\<lambda>a s. snd (ept_fault slot a s)) as (e0, m0, 0)) a = Some h"
  shows "slot_hpa slot (ucast a) = Some h"
proof -
  have "ept_ok (mset (live m)) e0 m0 \<and> slot_ok slot"
    using ept_init_ok(1) [OF assms(1,2)] assms(3) by simp
  moreover have "ept_view (e0, m0, 0) b = None" for b
    using ept_init_ok(2) [OF assms(1,2)] by (simp add: ept_view_def)
  ultimately show ?thesis
    using ept.faults_agree [where s = "(e0, m0, 0)" and others = "mset (live m)" and slot = slot and as = as and b = a and v = h] assms(4)
    by (simp add: ept.faults_def)
qed

text \<open>
  C14. Setup, any sequence of violations (also failing ones) and teardown leave exactly the
  pages allocated that were allocated before: every table page is freed once, none twice.
\<close>

theorem ept_no_leak:
  assumes "fresh_pages m" "mini_ept_init e m = (0, e0, m0)" "slot_ok slot"
    and "fold (\<lambda>a s. snd (ept_fault slot a s)) as (e0, m0, 0) = (e1, m1, n1)"
  shows "\<exists>e' m'. mini_ept_destroy e1 m1 = Inr (e', m') \<and> mset (live m') = mset (live m) \<and>
    pml4 e' = None \<and> tracked e' = []"
proof -
  have "ept_ok (mset (live m)) e0 m0 \<and> slot_ok slot"
    using ept_init_ok(1) [OF assms(1,2)] assms(3) by simp
  then have "ept_ok (mset (live m)) e1 m1"
    using ept.faults_ok [where s = "(e0, m0, 0)" and others = "mset (live m)" and slot = slot and as = as] assms(4) by (simp add: ept.faults_def)
  then show ?thesis by (rule ept_destroy_ok)
qed

definition ex_pages :: mk_mem where
  "ex_pages = \<lparr>tables = (\<lambda>_ _. 0), avail_pages = [Some 10, Some 11, None, Some 12, Some 13], live = [20, 21]\<rparr>"

definition ex_ept :: mini_ept where
  "ex_ept = \<lparr>pml4 = None, eptp = 0, tracked = []\<rparr>"

definition ex_slot :: mini_slot where
  "ex_slot = \<lparr>svalid = True, base_gpa = 0x1000, npages = 2, userspace_addr = 0, pages = [20, 21]\<rparr>"

lemma ex_ept_facts: "fresh_pages ex_pages" "slot_ok ex_slot"
  "mini_ept_init ex_ept ex_pages = (0, fst (snd (mini_ept_init ex_ept ex_pages)), snd (snd (mini_ept_init ex_ept ex_pages)))"
  by (simp_all add: fresh_pages_def ex_pages_def pfn_ok_def slot_ok_def ex_slot_def mini_ept_init_def
      alloc_page_def)

theorem ept_violation_refines_witness:
  "\<exists>r e' m' n'. mini_ept_handle_violation 0x2345 ex_slot
      (fst (snd (mini_ept_init ex_ept ex_pages))) (snd (snd (mini_ept_init ex_ept ex_pages))) 0 =
      Inr (r, e', m', n') \<and> r \<noteq> - EFAULT"
proof -
  have "in_slot ex_slot (page_base 0x2345)" by (simp add: in_slot_def ex_slot_def page_base_def)
  with ept_violation_refines [OF ept_init_ok(1) [OF ex_ept_facts(1,3)] ex_ept_facts(2), of "0x2345" 0]
  show ?thesis by blast
qed


abbreviation (input) ex_run :: "mini_ept \<times> mk_mem \<times> u64" where
  "ex_run \<equiv> fold (\<lambda>a s. snd (ept_fault ex_slot a s)) [0x2345, 0x2345]
     (fst (snd (mini_ept_init ex_ept ex_pages)), snd (snd (mini_ept_init ex_ept ex_pages)), 0)"

lemma ex_run_maps: "ept_view ex_run 0x2fff = Some 0x15fff"
  by code_simp

theorem ept_confines_guest_witness:
  "ept_view ex_run 0x2fff = Some 0x15fff \<and> slot_hpa ex_slot 0x2fff = Some 0x15fff"
  using ept_confines_guest [OF ex_ept_facts(1,3,2) ex_run_maps] ex_run_maps by simp

theorem ept_no_leak_witness:
  "\<exists>e' m'. mini_ept_destroy (fst ex_run) (fst (snd ex_run)) = Inr (e', m') \<and>
     mset (live m') = {#20, 21#}"
proof -
  have "ex_run = (fst ex_run, fst (snd ex_run), snd (snd ex_run))" by simp
  moreover have "mset (live ex_pages) = {#20, 21#}" by (simp add: ex_pages_def)
  ultimately show ?thesis
    using ept_no_leak [OF ex_ept_facts(1,3,2), of "[0x2345, 0x2345]" "fst ex_run" "fst (snd ex_run)" "snd (snd ex_run)"]
    by auto
qed

end
