(* ===== verification/MiniVmx.thy ===== *)
theory MiniVmx
  imports MiniEpt
begin

text \<open>
  The VMX layer of \<open>mini-kvm\<close> (\<open>vmx.c\<close>): the instruction wrappers, VMCLEAR on the CPU that holds
  the VMCS, the negotiation of the control fields, the initial host and guest state, setup and
  teardown.  The instructions are modelled as the comments of the source cite them from the
  SDM: each CPU has a current-VMCS pointer, each VMCS its fields, its launch state and the CPUs
  on which it is active; an instruction outside VMX operation is the fault \<open>InvalidOpcode\<close>.
\<close>

section \<open>Processors and VMCS regions\<close>

record cpu_state =
  in_vmx :: bool
  vmxon_done :: bool
  vmxon_page :: "u64 option"
  cr4 :: u64
  current_vmcs :: "u64 option"
  msr :: "u32 \<Rightarrow> u64"

record vmcs_region =
  vrev :: u32
  vfield :: "u32 \<Rightarrow> u64"
  vlaunched :: bool
  active_on :: "nat set"

record mk_global =
  vmx_enabled :: bool
  vmcs_revision_id :: u32
  true_ctls :: bool
  ept_vpid_cap :: u64
  enable_err :: int
  vmx_enable_count :: int

text \<open>
  What the module asks the host kernel for: control registers, the per-CPU tables, the address
  of the exit label of \<open>vmx_entry.S\<close>, and one build option.
\<close>

record host_vals =
  hv_cr0 :: "nat \<Rightarrow> u64"
  hv_cr3 :: "nat \<Rightarrow> u64"
  hv_gs_base :: "nat \<Rightarrow> u64"
  hv_tss :: "nat \<Rightarrow> u64"
  hv_gdt :: "nat \<Rightarrow> u64"
  hv_entry_stack :: "nat \<Rightarrow> u64"
  hv_idt :: u64
  hv_vmexit :: u64
  hv_ia32 :: bool

record mk_world =
  cpus :: "nat \<Rightarrow> cpu_state"
  online :: "nat \<Rightarrow> bool"
  regions :: "u64 \<Rightarrow> vmcs_region"
  cur_cpu :: nat
  irqs_on :: bool
  preempt_count :: nat
  glob :: mk_global
  pmem :: mk_mem
  host :: host_vals

abbreviation this_cpu :: "mk_world \<Rightarrow> cpu_state" where
  "this_cpu w \<equiv> cpus w (cur_cpu w)"

definition upd_cpu :: "nat \<Rightarrow> (cpu_state \<Rightarrow> cpu_state) \<Rightarrow> mk_world \<Rightarrow> mk_world" where
  "upd_cpu c f w = w\<lparr>cpus := (cpus w)(c := f (cpus w c))\<rparr>"

definition upd_region :: "u64 \<Rightarrow> (vmcs_region \<Rightarrow> vmcs_region) \<Rightarrow> mk_world \<Rightarrow> mk_world" where
  "upd_region p f w = w\<lparr>regions := (regions w)(p := f (regions w p))\<rparr>"

definition mini_rdmsr :: "u32 \<Rightarrow> mk_world \<Rightarrow> u64" where
  "mini_rdmsr i w = msr (this_cpu w) i"

definition mini_wrmsr :: "u32 \<Rightarrow> u64 \<Rightarrow> mk_world \<Rightarrow> mk_world" where
  "mini_wrmsr i x w = upd_cpu (cur_cpu w) (\<lambda>c. c\<lparr>msr := (msr c)(i := x)\<rparr>) w"

definition preempt_disable :: "mk_world \<Rightarrow> mk_world" where
  "preempt_disable w = w\<lparr>preempt_count := preempt_count w + 1\<rparr>"

definition preempt_enable :: "mk_world \<Rightarrow> mk_world" where
  "preempt_enable w = w\<lparr>preempt_count := preempt_count w - 1\<rparr>"

section \<open>Constants\<close>

abbreviation (input) EIO :: int where "EIO \<equiv> 5"
abbreviation (input) ENXIO :: int where "ENXIO \<equiv> 6"
abbreviation (input) ENODEV :: int where "ENODEV \<equiv> 19"
abbreviation (input) EBUSY :: int where "EBUSY \<equiv> 16"
abbreviation (input) EINVAL :: int where "EINVAL \<equiv> 22"
abbreviation (input) EOPNOTSUPP :: int where "EOPNOTSUPP \<equiv> 95"

abbreviation (input) MSR_FEAT_CTL :: u32 where "MSR_FEAT_CTL \<equiv> 0x3a"
abbreviation (input) MSR_SYSENTER_CS :: u32 where "MSR_SYSENTER_CS \<equiv> 0x174"
abbreviation (input) MSR_SYSENTER_EIP :: u32 where "MSR_SYSENTER_EIP \<equiv> 0x176"
abbreviation (input) MSR_VMX_BASIC :: u32 where "MSR_VMX_BASIC \<equiv> 0x480"
abbreviation (input) MSR_VMX_PROCBASED_CTLS2 :: u32 where "MSR_VMX_PROCBASED_CTLS2 \<equiv> 0x48b"
abbreviation (input) MSR_VMX_EPT_VPID_CAP :: u32 where "MSR_VMX_EPT_VPID_CAP \<equiv> 0x48c"
abbreviation (input) MSR_EFER :: u32 where "MSR_EFER \<equiv> 0xc0000080"
abbreviation (input) MSR_FS_BASE :: u32 where "MSR_FS_BASE \<equiv> 0xc0000100"
abbreviation (input) MSR_KERNEL_GS_BASE :: u32 where "MSR_KERNEL_GS_BASE \<equiv> 0xc0000102"
abbreviation (input) X86_CR4_VMXE :: u64 where "X86_CR4_VMXE \<equiv> 0x2000"

abbreviation (input) EPT_POINTER :: u32 where "EPT_POINTER \<equiv> 0x201a"
abbreviation (input) GUEST_PHYSICAL_ADDRESS :: u32 where "GUEST_PHYSICAL_ADDRESS \<equiv> 0x2400"
abbreviation (input) VMCS_LINK_POINTER :: u32 where "VMCS_LINK_POINTER \<equiv> 0x2800"
abbreviation (input) GUEST_IA32_EFER :: u32 where "GUEST_IA32_EFER \<equiv> 0x2806"
abbreviation (input) HOST_IA32_EFER :: u32 where "HOST_IA32_EFER \<equiv> 0x2c02"
abbreviation (input) PIN_BASED_VM_EXEC_CONTROL :: u32 where "PIN_BASED_VM_EXEC_CONTROL \<equiv> 0x4000"
abbreviation (input) CPU_BASED_VM_EXEC_CONTROL :: u32 where "CPU_BASED_VM_EXEC_CONTROL \<equiv> 0x4002"
abbreviation (input) EXCEPTION_BITMAP :: u32 where "EXCEPTION_BITMAP \<equiv> 0x4004"
abbreviation (input) PAGE_FAULT_ERROR_CODE_MASK :: u32 where "PAGE_FAULT_ERROR_CODE_MASK \<equiv> 0x4006"
abbreviation (input) PAGE_FAULT_ERROR_CODE_MATCH :: u32 where "PAGE_FAULT_ERROR_CODE_MATCH \<equiv> 0x4008"
abbreviation (input) CR3_TARGET_COUNT :: u32 where "CR3_TARGET_COUNT \<equiv> 0x400a"
abbreviation (input) VM_EXIT_CONTROLS :: u32 where "VM_EXIT_CONTROLS \<equiv> 0x400c"
abbreviation (input) VM_ENTRY_CONTROLS :: u32 where "VM_ENTRY_CONTROLS \<equiv> 0x4012"
abbreviation (input) VM_ENTRY_INTR_INFO_FIELD :: u32 where "VM_ENTRY_INTR_INFO_FIELD \<equiv> 0x4016"
abbreviation (input) TPR_THRESHOLD :: u32 where "TPR_THRESHOLD \<equiv> 0x401c"
abbreviation (input) SECONDARY_VM_EXEC_CONTROL :: u32 where "SECONDARY_VM_EXEC_CONTROL \<equiv> 0x401e"
abbreviation (input) VM_EXIT_REASON :: u32 where "VM_EXIT_REASON \<equiv> 0x4402"
abbreviation (input) VM_EXIT_INTR_INFO :: u32 where "VM_EXIT_INTR_INFO \<equiv> 0x4404"
abbreviation (input) IDT_VECTORING_INFO_FIELD :: u32 where "IDT_VECTORING_INFO_FIELD \<equiv> 0x4408"
abbreviation (input) VM_EXIT_INSTRUCTION_LEN :: u32 where "VM_EXIT_INSTRUCTION_LEN \<equiv> 0x440c"
abbreviation (input) GUEST_INTERRUPTIBILITY_INFO :: u32 where "GUEST_INTERRUPTIBILITY_INFO \<equiv> 0x4824"
abbreviation (input) GUEST_ACTIVITY_STATE :: u32 where "GUEST_ACTIVITY_STATE \<equiv> 0x4826"
abbreviation (input) EXIT_QUALIFICATION :: u32 where "EXIT_QUALIFICATION \<equiv> 0x6400"
abbreviation (input) GUEST_CR0 :: u32 where "GUEST_CR0 \<equiv> 0x6800"
abbreviation (input) GUEST_CR3 :: u32 where "GUEST_CR3 \<equiv> 0x6802"
abbreviation (input) GUEST_CR4 :: u32 where "GUEST_CR4 \<equiv> 0x6804"
abbreviation (input) GUEST_RSP :: u32 where "GUEST_RSP \<equiv> 0x681c"
abbreviation (input) GUEST_RIP :: u32 where "GUEST_RIP \<equiv> 0x681e"
abbreviation (input) GUEST_RFLAGS :: u32 where "GUEST_RFLAGS \<equiv> 0x6820"
abbreviation (input) HOST_CR3 :: u32 where "HOST_CR3 \<equiv> 0x6c02"
abbreviation (input) HOST_CR4 :: u32 where "HOST_CR4 \<equiv> 0x6c04"
abbreviation (input) HOST_FS_BASE :: u32 where "HOST_FS_BASE \<equiv> 0x6c06"
abbreviation (input) HOST_GS_BASE :: u32 where "HOST_GS_BASE \<equiv> 0x6c08"
abbreviation (input) HOST_TR_BASE :: u32 where "HOST_TR_BASE \<equiv> 0x6c0a"
abbreviation (input) HOST_GDTR_BASE :: u32 where "HOST_GDTR_BASE \<equiv> 0x6c0c"
abbreviation (input) HOST_IA32_SYSENTER_ESP :: u32 where "HOST_IA32_SYSENTER_ESP \<equiv> 0x6c10"

section \<open>Instruction wrappers\<close>

text \<open>
  A wrapper that fails (\<open>setna\<close>) returns \<open>-EIO\<close>; for VMREAD the variable then keeps what it had,
  so the result is an option.  A field shorter than the operand ignores the high bits; bits
  14:13 of the encoding give its width.
\<close>

definition field_trunc :: "u32 \<Rightarrow> u64 \<Rightarrow> u64" where
  "field_trunc f x =
     (if drop_bit 13 f AND 3 = 0 then take_bit 16 x
      else if drop_bit 13 f AND 3 = 2 then take_bit 32 x else x)"

definition in_operation :: "mk_world \<Rightarrow> (mk_world \<Rightarrow> 'a res) \<Rightarrow> 'a res" where
  "in_operation w k = (if in_vmx (this_cpu w) then k w else Inl InvalidOpcode)"

definition mini_vmread :: "u32 \<Rightarrow> mk_world \<Rightarrow> u64 option res" where
  "mini_vmread f w = in_operation w (\<lambda>w.
     Inr (map_option (\<lambda>p. vfield (regions w p) f) (current_vmcs (this_cpu w))))"

definition mini_vmwrite :: "u32 \<Rightarrow> u64 \<Rightarrow> mk_world \<Rightarrow> (int \<times> mk_world) res" where
  "mini_vmwrite f x w = in_operation w (\<lambda>w.
     case current_vmcs (this_cpu w) of
       None \<Rightarrow> Inr (- EIO, w)
     | Some p \<Rightarrow> Inr (0, upd_region p (\<lambda>r. r\<lparr>vfield := (vfield r)(f := field_trunc f x)\<rparr>) w))"

definition mini_vmptrld :: "u64 \<Rightarrow> mk_world \<Rightarrow> (int \<times> mk_world) res" where
  "mini_vmptrld p w = in_operation w (\<lambda>w.
     if vrev (regions w p) \<noteq> ucast (mini_rdmsr MSR_VMX_BASIC w AND 0x7fffffff) then Inr (- EIO, w)
     else Inr (0, upd_region p (\<lambda>r. r\<lparr>active_on := insert (cur_cpu w) (active_on r)\<rparr>)
            (upd_cpu (cur_cpu w) (\<lambda>c. c\<lparr>current_vmcs := Some p\<rparr>) w)))"

definition mini_vmclear :: "u64 \<Rightarrow> mk_world \<Rightarrow> (int \<times> mk_world) res" where
  "mini_vmclear p w = in_operation w (\<lambda>w.
     Inr (0, upd_region p (\<lambda>r. r\<lparr>vlaunched := False, active_on := active_on r - {cur_cpu w}\<rparr>)
       (upd_cpu (cur_cpu w)
         (\<lambda>c. c\<lparr>current_vmcs := (if current_vmcs c = Some p then None else current_vmcs c)\<rparr>) w)))"

text \<open>Most writes ignore the result of \<open>mini_vmwrite\<close>.\<close>

fun vmwrites :: "(u32 \<times> u64) list \<Rightarrow> mk_world \<Rightarrow> mk_world res" where
  "vmwrites [] w = Inr w"
| "vmwrites ((f, x) # fxs) w = rbind (mini_vmwrite f x w) (\<lambda>(_, w1). vmwrites fxs w1)"

section \<open>VMCLEAR on the CPU that holds the VMCS\<close>

record mini_vcpu =
  regs :: "u64 list"
  vcpu_id :: u32
  vmcs_page :: "u64 option"
  vmcs_phys :: u64
  launched :: bool
  loaded_cpu :: "nat option"
  run_page :: "u64 option"
  run_exit_reason :: u32
  pending_intr_info :: u32
  n_exits :: u64
  n_io_exits :: u64
  n_ept_violations :: u64
  n_hlt_exits :: u64
  n_extint_exits :: u64
  n_nmi_exits :: u64
  n_injected :: u64

definition mini_cpu_in_vmx_operation :: "mk_world \<Rightarrow> bool" where
  "mini_cpu_in_vmx_operation w = vmxon_done (this_cpu w)"

definition mini_vmclear_ipi :: "u64 \<Rightarrow> mk_world \<Rightarrow> (int \<times> mk_world) res" where
  "mini_vmclear_ipi p w =
     (if \<not> mini_cpu_in_vmx_operation w then Inr (- ENODEV, w) else mini_vmclear p w)"

text \<open>
  The callback runs on \<open>c\<close> with interrupts off; waiting for it with interrupts off can deadlock,
  and on an offline CPU it does not run.
\<close>

definition smp_call_function_single ::
  "nat \<Rightarrow> (mk_world \<Rightarrow> (int \<times> mk_world) res) \<Rightarrow> mk_world \<Rightarrow> (int \<times> mk_world) res" where
  "smp_call_function_single c f w =
     (if \<not> irqs_on w then Inl Deadlock
      else if \<not> online w c then Inr (- ENXIO, w)
      else rbind (f (w\<lparr>cur_cpu := c, irqs_on := False\<rparr>)) (\<lambda>(r, w1).
        Inr (r, w1\<lparr>cur_cpu := cur_cpu w, irqs_on := True\<rparr>)))"

definition mini_vmcs_clear :: "mini_vcpu \<Rightarrow> mk_world \<Rightarrow> (mini_vcpu \<times> mk_world) res" where
  "mini_vmcs_clear v w =
     (let v1 = v\<lparr>launched := False\<rparr> in
      case loaded_cpu v of
        None \<Rightarrow> Inr (v1, w)
      | Some c \<Rightarrow>
          (let w1 = preempt_disable w in
           rbind (if c = cur_cpu w1 then mini_vmclear (vmcs_phys v) w1
                  else smp_call_function_single c (mini_vmclear_ipi (vmcs_phys v)) w1) (\<lambda>(err, w2).
             Inr (v1\<lparr>loaded_cpu := None\<rparr>, preempt_enable w2))))"

section \<open>Control fields\<close>

definition mini_vmx_adjust_control :: "u32 \<Rightarrow> u32 \<Rightarrow> mk_world \<Rightarrow> u32" where
  "mini_vmx_adjust_control desired i w =
     (let m = mini_rdmsr i w; must_be_one = ucast m; can_be_one = ucast (drop_bit 32 m)
      in (desired AND can_be_one) OR must_be_one)"

record mini_vmcs_controls =
  pin_based :: u32
  cpu_based :: u32
  secondary :: u32
  exit_ctls :: u32
  entry_ctls :: u32

text \<open>The TRUE variants of the capability MSRs are 0x48d to 0x490, the others 0x481 to 0x484.\<close>

definition mini_compute_controls :: "mk_world \<Rightarrow> int \<times> mini_vmcs_controls" where
  "mini_compute_controls w =
     (let t = true_ctls (glob w);
          c = \<lparr>pin_based = mini_vmx_adjust_control (0x1 OR 0x8) (if t then 0x48d else 0x481) w,
               cpu_based = mini_vmx_adjust_control (0x80 OR 0x1000000 OR 0x80000000) (if t then 0x48e else 0x482) w,
               secondary = mini_vmx_adjust_control 0x2 MSR_VMX_PROCBASED_CTLS2 w,
               exit_ctls = mini_vmx_adjust_control (0x200 OR 0x200000) (if t then 0x48f else 0x483) w,
               entry_ctls = mini_vmx_adjust_control (0x200 OR 0x8000) (if t then 0x490 else 0x484) w\<rparr>
      in if cpu_based c AND 0x80000000 = 0 \<or> secondary c AND 0x2 = 0 then (- EOPNOTSUPP, c) else (0, c))"

section \<open>Host state\<close>

definition mini_host_cr4 :: "mk_world \<Rightarrow> u64" where
  "mini_host_cr4 w = cr4 (this_cpu w) OR X86_CR4_VMXE"

definition mini_vmx_refresh_host_state :: "mk_world \<Rightarrow> mk_world res" where
  "mini_vmx_refresh_host_state w = vmwrites
     [(HOST_CR3, hv_cr3 (host w) (cur_cpu w)),
      (HOST_CR4, mini_host_cr4 w),
      (HOST_GS_BASE, hv_gs_base (host w) (cur_cpu w)),
      (HOST_FS_BASE, mini_rdmsr MSR_FS_BASE w)] w"

definition mini_vmx_fixup_host_for_cpu :: "mk_world \<Rightarrow> mk_world res" where
  "mini_vmx_fixup_host_for_cpu w = vmwrites
     ([(HOST_TR_BASE, hv_tss (host w) (cur_cpu w)),
       (HOST_GDTR_BASE, hv_gdt (host w) (cur_cpu w))] @
      (if hv_ia32 (host w) then [(HOST_IA32_SYSENTER_ESP, hv_entry_stack (host w) (cur_cpu w))] else [])) w"

text \<open>\<open>__KERNEL_CS\<close>, \<open>__KERNEL_DS\<close> and the TSS selector are 0x10, 0x18 and 0x40.\<close>

definition host_fields :: "mk_world \<Rightarrow> (u32 \<times> u64) list" where
  "host_fields w =
     [(0x6c00, hv_cr0 (host w) (cur_cpu w)),
      (HOST_CR3, hv_cr3 (host w) (cur_cpu w)),
      (HOST_CR4, mini_host_cr4 w),
      (0xc02, 0x10), (0xc06, 0), (0xc00, 0), (0xc04, 0x18), (0xc0c, 0x40),
      (0xc08, 0), (0xc0a, 0),
      (0x6c0e, hv_idt (host w)),
      (0x4c00, ucast (ucast (mini_rdmsr MSR_SYSENTER_CS w) :: u32)),
      (0x6c12, mini_rdmsr MSR_SYSENTER_EIP w)] @
     (if \<not> hv_ia32 (host w) then [(HOST_IA32_SYSENTER_ESP, 0)] else []) @
     [(HOST_IA32_EFER, mini_rdmsr MSR_EFER w)]"

definition mini_vmx_set_constant_host_state :: "mk_world \<Rightarrow> mk_world res" where
  "mini_vmx_set_constant_host_state w =
     rbind (vmwrites (host_fields w) w) (\<lambda>w1.
     rbind (mini_vmx_fixup_host_for_cpu w1) (\<lambda>w2.
     vmwrites [(HOST_FS_BASE, mini_rdmsr MSR_FS_BASE w2),
               (HOST_GS_BASE, hv_gs_base (host w2) (cur_cpu w2)),
               (0x6c16, hv_vmexit (host w2))] w2))"

section \<open>Guest state\<close>

abbreviation (input) MINI_GUEST_CR0 :: u64 where
  "MINI_GUEST_CR0 \<equiv> 0x1 OR 0x2 OR 0x10 OR 0x20 OR 0x10000 OR 0x80000000"
abbreviation (input) MINI_GUEST_CR4 :: u64 where "MINI_GUEST_CR4 \<equiv> 0x20 OR X86_CR4_VMXE"
abbreviation (input) MINI_GUEST_EFER :: u64 where "MINI_GUEST_EFER \<equiv> 0x1 OR 0x100 OR 0x400"
abbreviation (input) MINI_SEG_UNUSABLE :: u64 where "MINI_SEG_UNUSABLE \<equiv> 0x10000"

definition guest_fields :: "(u32 \<times> u64) list" where
  "guest_fields =
     [(GUEST_RIP, 0x1000), (GUEST_RSP, 0x100000), (GUEST_CR3, 0x6000), (GUEST_RFLAGS, 0x2),
      (GUEST_CR0, MINI_GUEST_CR0), (GUEST_CR4, MINI_GUEST_CR4), (GUEST_IA32_EFER, MINI_GUEST_EFER),
      (0x681a, 0x400), (GUEST_INTERRUPTIBILITY_INFO, 0), (0x6822, 0), (GUEST_ACTIVITY_STATE, 0),
      (0x482a, 0), (0x6824, 0), (0x6826, 0),
      (0x802, 0x8), (0x6808, 0), (0x4802, 0xffffffff), (0x4816, 0xa09b),
      (0x804, 0), (0x4818, MINI_SEG_UNUSABLE), (0x806, 0), (0x481a, MINI_SEG_UNUSABLE),
      (0x800, 0), (0x4814, MINI_SEG_UNUSABLE), (0x808, 0), (0x481c, MINI_SEG_UNUSABLE),
      (0x80a, 0), (0x481e, MINI_SEG_UNUSABLE), (0x80c, 0), (0x4820, MINI_SEG_UNUSABLE),
      (0x680e, 0), (0x6810, 0), (0x6812, 0),
      (0x80e, 0x10), (0x6814, 0), (0x480e, 0x67), (0x4822, 0x8b),
      (0x6816, 0), (0x4810, 0xffff), (0x6818, 0), (0x4812, 0xffff)]"

definition mini_vmx_set_guest_state :: "mk_world \<Rightarrow> mk_world res" where
  "mini_vmx_set_guest_state w = vmwrites guest_fields w"

section \<open>Setup and teardown\<close>

definition control_fields :: "mini_vmcs_controls \<Rightarrow> u64 \<Rightarrow> (u32 \<times> u64) list" where
  "control_fields c e =
     [(PIN_BASED_VM_EXEC_CONTROL, ucast (pin_based c)),
      (CPU_BASED_VM_EXEC_CONTROL, ucast (cpu_based c)),
      (SECONDARY_VM_EXEC_CONTROL, ucast (secondary c)),
      (VM_EXIT_CONTROLS, ucast (exit_ctls c)),
      (VM_ENTRY_CONTROLS, ucast (entry_ctls c)),
      (EXCEPTION_BITMAP, 0x2 OR 0x40 OR 0x2000 OR 0x4000),
      (PAGE_FAULT_ERROR_CODE_MASK, 0), (PAGE_FAULT_ERROR_CODE_MATCH, 0), (CR3_TARGET_COUNT, 0),
      (VMCS_LINK_POINTER, 0xffffffffffffffff), (TPR_THRESHOLD, 0), (EPT_POINTER, e)]"

text \<open>
  Nothing in setup disables preemption, so the thread may move to another CPU on its way: \<open>mig\<close>
  is the CPU on which everything after VMPTRLD runs.
\<close>

definition setup_fields :: "u64 \<Rightarrow> mini_vcpu \<Rightarrow> mk_world \<Rightarrow> (int \<times> mini_vcpu \<times> mk_world) res" where
  "setup_fields e v w =
     (case mini_compute_controls w of (r, c) \<Rightarrow>
        if r \<noteq> 0 then rbind (mini_vmcs_clear v w) (\<lambda>(v1, w1). Inr (r, v1, w1))
        else
          rbind (vmwrites (control_fields c e) w) (\<lambda>w1.
          rbind (mini_vmx_set_guest_state w1) (\<lambda>w2.
          rbind (mini_vmx_set_constant_host_state w2) (\<lambda>w3.
          rbind (mini_vmcs_clear v w3) (\<lambda>(v4, w4). Inr (0, v4, w4))))))"

definition setup_free :: "int \<Rightarrow> u64 \<Rightarrow> mini_vcpu \<Rightarrow> mk_world \<Rightarrow> (int \<times> mini_vcpu \<times> mk_world) res" where
  "setup_free r p v w =
     rbind (free_page p (pmem w)) (\<lambda>m. Inr (r, v\<lparr>vmcs_page := None\<rparr>, w\<lparr>pmem := m\<rparr>))"

definition mini_vcpu_vmx_setup ::
  "nat \<Rightarrow> u64 \<Rightarrow> mini_vcpu \<Rightarrow> mk_world \<Rightarrow> (int \<times> mini_vcpu \<times> mk_world) res" where
  "mini_vcpu_vmx_setup mig e v w =
     (case alloc_page (pmem w) of
        (None, m) \<Rightarrow> Inr (- ENOMEM, v, w\<lparr>pmem := m\<rparr>)
      | (Some p, m) \<Rightarrow>
          (let phys = page_to_phys p;
               v1 = v\<lparr>vmcs_page := Some p, vmcs_phys := phys\<rparr>;
               w1 = upd_region phys (\<lambda>r. r\<lparr>vrev := vmcs_revision_id (glob w)\<rparr>) (w\<lparr>pmem := m\<rparr>)
           in rbind (mini_vmclear phys w1) (\<lambda>(r, w2).
              if r \<noteq> 0 then setup_free r p v1 w2
              else rbind (mini_vmptrld phys w2) (\<lambda>(r, w3).
                if r \<noteq> 0 then setup_free r p v1 w3
                else rbind (setup_fields e (v1\<lparr>loaded_cpu := Some (cur_cpu w3)\<rparr>) (w3\<lparr>cur_cpu := mig\<rparr>)) (\<lambda>(r, v4, w4).
                  if r \<noteq> 0 then setup_free r p v4 w4 else Inr (0, v4, w4))))))"

definition mini_vcpu_vmx_teardown :: "mini_vcpu \<Rightarrow> mk_world \<Rightarrow> (mini_vcpu \<times> mk_world) res" where
  "mini_vcpu_vmx_teardown v w =
     (case vmcs_page v of
        None \<Rightarrow> Inr (v, w)
      | Some p \<Rightarrow>
          rbind (mini_vmcs_clear v w) (\<lambda>(v1, w1).
          rbind (free_page p (pmem w1)) (\<lambda>m.
            Inr (v1\<lparr>vmcs_page := None\<rparr>, w1\<lparr>pmem := m\<rparr>))))"

section \<open>A CPU with a current VMCS\<close>

definition vmx_ready :: "mk_world \<Rightarrow> u64 \<Rightarrow> bool" where
  "vmx_ready w p \<longleftrightarrow> in_vmx (this_cpu w) \<and> current_vmcs (this_cpu w) = Some p"

fun store_fields :: "(u32 \<times> u64) list \<Rightarrow> (u32 \<Rightarrow> u64) \<Rightarrow> u32 \<Rightarrow> u64" where
  "store_fields [] g = g"
| "store_fields ((f, x) # fxs) g = store_fields fxs (g(f := field_trunc f x))"

definition set_fields :: "u64 \<Rightarrow> (u32 \<times> u64) list \<Rightarrow> mk_world \<Rightarrow> mk_world" where
  "set_fields p fxs w = upd_region p (\<lambda>r. r\<lparr>vfield := store_fields fxs (vfield r)\<rparr>) w"

lemma vmread_ready [simp]:
  "vmx_ready w p \<Longrightarrow> mini_vmread f w = Inr (Some (vfield (regions w p) f))"
  by (simp add: vmx_ready_def mini_vmread_def in_operation_def)

lemma vmwrite_ready [simp]:
  "vmx_ready w p \<Longrightarrow> mini_vmwrite f x w = Inr (0, set_fields p [(f, x)] w)"
  by (simp add: vmx_ready_def mini_vmwrite_def in_operation_def set_fields_def)

lemma set_fields_ready [simp]: "vmx_ready (set_fields p fxs w) q = vmx_ready w q"
  by (simp add: vmx_ready_def set_fields_def upd_region_def)

lemma store_fields_append: "store_fields (xs @ ys) g = store_fields ys (store_fields xs g)"
  by (induction xs g rule: store_fields.induct) (simp_all add: fun_upd_def)

lemma set_fields_append [simp]: "set_fields p ys (set_fields p xs w) = set_fields p (xs @ ys) w"
  by (simp add: set_fields_def upd_region_def store_fields_append)

lemma vmwrites_ready: "vmx_ready w p \<Longrightarrow> vmwrites fxs w = Inr (set_fields p fxs w)"
proof (induction fxs arbitrary: w)
  case Nil
  show ?case by (simp add: set_fields_def upd_region_def)
next
  case (Cons a fxs)
  obtain f x where a: "a = (f, x)" by (cases a)
  have "vmwrites fxs (set_fields p [(f, x)] w) = Inr (set_fields p fxs (set_fields p [(f, x)] w))"
    using Cons.prems by (intro Cons.IH) simp
  then show ?case using Cons.prems a by simp
qed

lemma set_fields_sel [simp]:
  "cpus (set_fields p fxs w) = cpus w" "online (set_fields p fxs w) = online w"
  "cur_cpu (set_fields p fxs w) = cur_cpu w" "irqs_on (set_fields p fxs w) = irqs_on w"
  "preempt_count (set_fields p fxs w) = preempt_count w" "glob (set_fields p fxs w) = glob w"
  "pmem (set_fields p fxs w) = pmem w" "host (set_fields p fxs w) = host w"
  "regions (set_fields p fxs w) q =
     (if q = p then (regions w p)\<lparr>vfield := store_fields fxs (vfield (regions w p))\<rparr> else regions w q)"
  by (simp_all add: set_fields_def upd_region_def)

lemma set_fields_reads [simp]:
  "mini_rdmsr i (set_fields p fxs w) = mini_rdmsr i w"
  "mini_host_cr4 (set_fields p fxs w) = mini_host_cr4 w"
  "mini_cpu_in_vmx_operation (set_fields p fxs w) = mini_cpu_in_vmx_operation w"
  by (simp_all add: mini_rdmsr_def mini_host_cr4_def mini_cpu_in_vmx_operation_def)

definition fixup_fields :: "mk_world \<Rightarrow> (u32 \<times> u64) list" where
  "fixup_fields w = [(HOST_TR_BASE, hv_tss (host w) (cur_cpu w)), (HOST_GDTR_BASE, hv_gdt (host w) (cur_cpu w))] @
      (if hv_ia32 (host w) then [(HOST_IA32_SYSENTER_ESP, hv_entry_stack (host w) (cur_cpu w))] else [])"

lemma fixup_ready: "vmx_ready w p \<Longrightarrow> mini_vmx_fixup_host_for_cpu w = Inr (set_fields p (fixup_fields w) w)"
  unfolding mini_vmx_fixup_host_for_cpu_def fixup_fields_def by (rule vmwrites_ready)

definition all_host_fields :: "mk_world \<Rightarrow> (u32 \<times> u64) list" where
  "all_host_fields w = host_fields w @ fixup_fields w @
     [(HOST_FS_BASE, mini_rdmsr MSR_FS_BASE w), (HOST_GS_BASE, hv_gs_base (host w) (cur_cpu w)),
      (0x6c16, hv_vmexit (host w))]"

lemma fields_cong [simp]:
  "fixup_fields (set_fields p fxs w) = fixup_fields w" "host_fields (set_fields p fxs w) = host_fields w"
  "all_host_fields (set_fields p fxs w) = all_host_fields w"
  by (simp_all add: fixup_fields_def host_fields_def all_host_fields_def)

lemma host_state_ready:
  "vmx_ready w p \<Longrightarrow> mini_vmx_set_constant_host_state w = Inr (set_fields p (all_host_fields w) w)"
  by (simp add: mini_vmx_set_constant_host_state_def vmwrites_ready fixup_ready all_host_fields_def)

section \<open>Checks of VM entry\<close>

text \<open>
  The checks on the host and guest state the comments of \<open>vmx.c\<close> cite (SDM 24.8, 25.6.11, 27.2.2,
  27.2.3, 27.3.1), for a 64-bit guest.
\<close>

definition guest_checks :: "(u32 \<Rightarrow> u64) \<Rightarrow> bool" where
  "guest_checks f \<longleftrightarrow>
     f GUEST_CR0 AND 0x80000021 = 0x80000021 \<and> f GUEST_CR4 AND 0x2020 = 0x2020 \<and>
     bit (f VM_ENTRY_CONTROLS) 9 = bit (f GUEST_IA32_EFER) 10 \<and>
     bit (f GUEST_IA32_EFER) 8 = bit (f GUEST_IA32_EFER) 10 \<and>
     f GUEST_RFLAGS AND 0xffffffffffc2802a = 2 \<and>
     f 0x4816 AND 0xffff0f00 = 0 \<and> f 0x4816 AND 0xf \<in> {9, 11, 13, 15} \<and>
     f 0x4816 AND 0x90 = 0x90 \<and> \<not> (bit (f 0x4816) 13 \<and> bit (f 0x4816) 14) \<and>
     f 0x802 AND 3 = f 0x804 AND 3 \<and>
     f 0x4822 AND 0x1009f = 0x8b \<and> f 0x80e AND 4 = 0 \<and>
     (\<forall>ar \<in> {0x4814, 0x4818, 0x481a, 0x481c, 0x481e, 0x4820}. bit (f ar) 16) \<and>
     f 0x4810 < 0x10000 \<and> f 0x4812 < 0x10000 \<and>
     f GUEST_ACTIVITY_STATE = 0 \<and> f GUEST_INTERRUPTIBILITY_INFO = 0 \<and>
     f VMCS_LINK_POINTER = 0xffffffffffffffff"

definition host_checks :: "(u32 \<Rightarrow> u64) \<Rightarrow> bool" where
  "host_checks f \<longleftrightarrow>
     bit (f HOST_CR4) 13 \<and>
     (\<forall>s \<in> {0xc00, 0xc02, 0xc04, 0xc06, 0xc08, 0xc0a, 0xc0c}. f s AND 7 = 0) \<and>
     f 0xc02 \<noteq> 0 \<and> f 0xc0c \<noteq> 0"

definition ept_checks :: "(u32 \<Rightarrow> u64) \<Rightarrow> bool" where
  "ept_checks f \<longleftrightarrow> f EPT_POINTER AND 0xfff = 0x1e \<and>
     bit (f CPU_BASED_VM_EXEC_CONTROL) 31 \<and> bit (f SECONDARY_VM_EXEC_CONTROL) 1"

definition entry_checks :: "(u32 \<Rightarrow> u64) \<Rightarrow> bool" where
  "entry_checks f \<longleftrightarrow> guest_checks f \<and> host_checks f \<and> ept_checks f"

lemma store_other: "f \<notin> fst ` set fxs \<Longrightarrow> store_fields fxs g f = g f"
  by (induction fxs g rule: store_fields.induct) auto

lemma field_trunc_16: "drop_bit 13 f AND 3 = 0 \<Longrightarrow> field_trunc f x = take_bit 16 x"
  "drop_bit 13 f AND 3 = 2 \<Longrightarrow> field_trunc f x = take_bit 32 x"
  by (simp_all add: field_trunc_def)

lemma take32_ucast [simp]: "take_bit 32 (ucast (x :: u32) :: u64) = ucast x"
  by (rule bit_word_eqI) (auto simp: bit_simps dest: bit_imp_le_length)

lemma eptp_low: "(page_to_phys p OR 6 OR 0x18) AND 0xfff = 0x1e"
proof (rule bit_word_eqI)
  fix n assume n: "n < LENGTH(64)"
  have e: "(6 OR 0x18 :: u64) = 0x1e" by simp
  have b: "bit (0x1e :: u64) n \<Longrightarrow> n < 12"
  proof -
    assume "bit (0x1e :: u64) n"
    moreover have "(0x1e :: u64) = take_bit 12 0x1e" by simp
    ultimately show "n < 12" by (metis bit_take_bit_iff)
  qed
  show "bit ((page_to_phys p OR 6 OR 0x18) AND 0xfff) n = bit (0x1e :: u64) n"
    using b unfolding e mask_consts page_to_phys_def by (auto simp: bit_simps)
qed

lemma host_checks_all: "host_checks (store_fields (all_host_fields w) g)"
  by (simp add: host_checks_def all_host_fields_def host_fields_def fixup_fields_def field_trunc_def
      mini_host_cr4_def bit_simps)

section \<open>Where a VMCS is active\<close>

definition vmcleared :: "nat \<Rightarrow> u64 \<Rightarrow> mk_world \<Rightarrow> mk_world" where
  "vmcleared c p w =
     upd_region p (\<lambda>r. r\<lparr>vlaunched := False, active_on := active_on r - {c}\<rparr>)
       (upd_cpu c (\<lambda>s. s\<lparr>current_vmcs := (if current_vmcs s = Some p then None else current_vmcs s)\<rparr>) w)"

definition vmloaded :: "u64 \<Rightarrow> mk_world \<Rightarrow> mk_world" where
  "vmloaded p w = upd_region p (\<lambda>r. r\<lparr>active_on := insert (cur_cpu w) (active_on r)\<rparr>)
     (upd_cpu (cur_cpu w) (\<lambda>c. c\<lparr>current_vmcs := Some p\<rparr>) w)"

lemma vmclear_in: "in_vmx (this_cpu w) \<Longrightarrow> mini_vmclear p w = Inr (0, vmcleared (cur_cpu w) p w)"
  by (simp add: mini_vmclear_def in_operation_def vmcleared_def)

lemma vmptrld_in:
  "in_vmx (this_cpu w) \<Longrightarrow> mini_vmptrld p w =
     (if vrev (regions w p) = ucast (mini_rdmsr MSR_VMX_BASIC w AND 0x7fffffff) then Inr (0, vmloaded p w)
      else Inr (- EIO, w))"
  by (simp add: mini_vmptrld_def in_operation_def vmloaded_def)

lemma vmcs_clear_unloaded: "loaded_cpu v = None \<Longrightarrow> mini_vmcs_clear v w = Inr (v\<lparr>launched := False\<rparr>, w)"
  by (simp add: mini_vmcs_clear_def Let_def)

lemma vmcs_clear_local:
  assumes "in_vmx (this_cpu w)" "loaded_cpu v = Some (cur_cpu w)"
  shows "mini_vmcs_clear v w =
    Inr (v\<lparr>launched := False, loaded_cpu := None\<rparr>, vmcleared (cur_cpu w) (vmcs_phys v) w)"
proof -
  have "in_vmx (this_cpu (preempt_disable w))" using assms(1) by (simp add: preempt_disable_def)
  then show ?thesis using assms(2)
    by (simp add: mini_vmcs_clear_def Let_def vmclear_in)
      (simp add: vmcleared_def preempt_disable_def preempt_enable_def upd_region_def upd_cpu_def)
qed

lemma vmcs_clear_remote:
  assumes "loaded_cpu v = Some c" "c \<noteq> cur_cpu w" "irqs_on w" "online w c"
    "vmxon_done (cpus w c)" "in_vmx (cpus w c)"
  shows "mini_vmcs_clear v w =
    Inr (v\<lparr>launched := False, loaded_cpu := None\<rparr>, vmcleared c (vmcs_phys v) w)"
proof -
  let ?w = "(preempt_disable w)\<lparr>cur_cpu := c, irqs_on := False\<rparr>"
  have "in_vmx (this_cpu ?w)" "mini_cpu_in_vmx_operation ?w"
    using assms by (simp_all add: preempt_disable_def mini_cpu_in_vmx_operation_def)
  then have "mini_vmclear_ipi (vmcs_phys v) ?w = Inr (0, vmcleared c (vmcs_phys v) ?w)"
    by (simp add: mini_vmclear_ipi_def vmclear_in)
  then show ?thesis using assms(1-4)
    by (simp add: mini_vmcs_clear_def Let_def smp_call_function_single_def preempt_disable_def)
      (simp add: vmcleared_def preempt_enable_def upd_region_def upd_cpu_def)
qed

lemma vmcleared_sel [simp]:
  "online (vmcleared c p w) = online w" "cur_cpu (vmcleared c p w) = cur_cpu w"
  "irqs_on (vmcleared c p w) = irqs_on w" "preempt_count (vmcleared c p w) = preempt_count w"
  "glob (vmcleared c p w) = glob w" "pmem (vmcleared c p w) = pmem w" "host (vmcleared c p w) = host w"
  "regions (vmcleared c p w) q = (if q = p
     then (regions w p)\<lparr>vlaunched := False, active_on := active_on (regions w p) - {c}\<rparr> else regions w q)"
  "in_vmx (cpus (vmcleared c p w) d) = in_vmx (cpus w d)"
  "vmxon_done (cpus (vmcleared c p w) d) = vmxon_done (cpus w d)"
  "msr (cpus (vmcleared c p w) d) = msr (cpus w d)" "cr4 (cpus (vmcleared c p w) d) = cr4 (cpus w d)"
  "vmxon_page (cpus (vmcleared c p w) d) = vmxon_page (cpus w d)"
  "current_vmcs (cpus (vmcleared c p w) d) =
     (if d = c \<and> current_vmcs (cpus w d) = Some p then None else current_vmcs (cpus w d))"
  "mini_rdmsr i (vmcleared c p w) = mini_rdmsr i w"
  by (simp_all add: vmcleared_def upd_region_def upd_cpu_def mini_rdmsr_def)

lemma vmloaded_sel [simp]:
  "online (vmloaded p w) = online w" "cur_cpu (vmloaded p w) = cur_cpu w"
  "irqs_on (vmloaded p w) = irqs_on w" "preempt_count (vmloaded p w) = preempt_count w"
  "glob (vmloaded p w) = glob w" "pmem (vmloaded p w) = pmem w" "host (vmloaded p w) = host w"
  "regions (vmloaded p w) q = (if q = p
     then (regions w p)\<lparr>active_on := insert (cur_cpu w) (active_on (regions w p))\<rparr> else regions w q)"
  "in_vmx (cpus (vmloaded p w) d) = in_vmx (cpus w d)"
  "vmxon_done (cpus (vmloaded p w) d) = vmxon_done (cpus w d)"
  "msr (cpus (vmloaded p w) d) = msr (cpus w d)" "cr4 (cpus (vmloaded p w) d) = cr4 (cpus w d)"
  "vmxon_page (cpus (vmloaded p w) d) = vmxon_page (cpus w d)"
  "current_vmcs (cpus (vmloaded p w) d) = (if d = cur_cpu w then Some p else current_vmcs (cpus w d))"
  "mini_rdmsr i (vmloaded p w) = mini_rdmsr i w"
  by (simp_all add: vmloaded_def upd_region_def upd_cpu_def mini_rdmsr_def)

lemma vmloaded_ready: "in_vmx (this_cpu w) \<Longrightarrow> vmx_ready (vmloaded p w) p"
  by (simp add: vmx_ready_def)

section \<open>Setup and teardown\<close>

definition vmcs_image :: "mini_vmcs_controls \<Rightarrow> u64 \<Rightarrow> mk_world \<Rightarrow> (u32 \<times> u64) list" where
  "vmcs_image c e w = control_fields c e @ guest_fields @ all_host_fields w"

lemma setup_fields_ready:
  assumes r: "vmx_ready w (vmcs_phys v)" and l: "loaded_cpu v = Some (cur_cpu w)"
    and c: "mini_compute_controls w = (r, c)"
  shows "setup_fields e v w = Inr (r, v\<lparr>launched := False, loaded_cpu := None\<rparr>, vmcleared (cur_cpu w) (vmcs_phys v)
      (if r \<noteq> 0 then w else set_fields (vmcs_phys v) (vmcs_image c e w) w))"
proof -
  have i: "in_vmx (this_cpu w)" using r by (simp add: vmx_ready_def)
  show ?thesis
    using r l i c
    by (simp add: setup_fields_def vmcs_clear_local vmwrites_ready mini_vmx_set_guest_state_def host_state_ready
        vmcs_image_def)
qed

lemma controls_cases:
  assumes "mini_compute_controls w = (r, c)"
  shows "r = - EOPNOTSUPP \<or> r = 0 \<and> cpu_based c AND 0x80000000 \<noteq> 0 \<and> secondary c AND 2 \<noteq> 0 \<and>
    entry_ctls c = mini_vmx_adjust_control (0x200 OR 0x8000) (if true_ctls (glob w) then 0x490 else 0x484) w"
  using assms by (auto simp: mini_compute_controls_def Let_def split: if_splits)

lemma controls_world:
  "cpus w' = cpus w \<Longrightarrow> cur_cpu w' = cur_cpu w \<Longrightarrow> glob w' = glob w \<Longrightarrow>
     mini_compute_controls w' = mini_compute_controls w"
  by (simp add: mini_compute_controls_def mini_vmx_adjust_control_def mini_rdmsr_def Let_def)

text \<open>The last write to a field is the one that counts.\<close>

lemma store_fields_map_of:
  "store_fields fxs g a = (case map_of (rev fxs) a of Some x \<Rightarrow> field_trunc a x | None \<Rightarrow> g a)"
  by (induction fxs g rule: store_fields.induct) (auto simp: map_add_def fun_upd_def split: option.splits)

lemma guest_image:
  "store_fields guest_fields g GUEST_CR0 = 0x80010033" "store_fields guest_fields g GUEST_CR4 = 0x2020"
  "store_fields guest_fields g GUEST_IA32_EFER = 0x501" "store_fields guest_fields g GUEST_RFLAGS = 2"
  "store_fields guest_fields g 0x4816 = 0xa09b" "store_fields guest_fields g 0x802 = 8"
  "store_fields guest_fields g 0x804 = 0" "store_fields guest_fields g 0x4822 = 0x8b"
  "store_fields guest_fields g 0x80e = 0x10"
  "store_fields guest_fields g 0x4814 = 0x10000" "store_fields guest_fields g 0x4818 = 0x10000"
  "store_fields guest_fields g 0x481a = 0x10000" "store_fields guest_fields g 0x481c = 0x10000"
  "store_fields guest_fields g 0x481e = 0x10000" "store_fields guest_fields g 0x4820 = 0x10000"
  "store_fields guest_fields g 0x4810 = 0xffff" "store_fields guest_fields g 0x4812 = 0xffff"
  "store_fields guest_fields g GUEST_ACTIVITY_STATE = 0"
  "store_fields guest_fields g GUEST_INTERRUPTIBILITY_INFO = 0"
  "store_fields guest_fields g VM_ENTRY_CONTROLS = g VM_ENTRY_CONTROLS"
  "store_fields guest_fields g VMCS_LINK_POINTER = g VMCS_LINK_POINTER"
  "store_fields guest_fields g EPT_POINTER = g EPT_POINTER"
  "store_fields guest_fields g CPU_BASED_VM_EXEC_CONTROL = g CPU_BASED_VM_EXEC_CONTROL"
  "store_fields guest_fields g SECONDARY_VM_EXEC_CONTROL = g SECONDARY_VM_EXEC_CONTROL"
  by (simp_all only: store_fields_map_of) (simp_all add: guest_fields_def field_trunc_def)

lemma image_not_host:
  assumes "a \<notin> {0x6c00, HOST_CR3, HOST_CR4, 0xc02, 0xc06, 0xc00, 0xc04, 0xc0c, 0xc08, 0xc0a, 0x6c0e, 0x4c00, 0x6c12,
    HOST_IA32_SYSENTER_ESP, HOST_IA32_EFER, HOST_TR_BASE, HOST_GDTR_BASE, HOST_FS_BASE, HOST_GS_BASE, 0x6c16}"
  shows "store_fields (vmcs_image c e w) g a = store_fields guest_fields (store_fields (control_fields c e) g) a"
  unfolding vmcs_image_def store_fields_append
  by (rule store_other) (use assms in \<open>auto simp: all_host_fields_def host_fields_def fixup_fields_def\<close>)

lemma guest_checks_image:
  assumes "bit (entry_ctls c) 9"
  shows "guest_checks (store_fields (vmcs_image c e w) g)"
proof -
  let ?f = "store_fields (vmcs_image c e w) g"
  note other = image_not_host [of _ c e w g]
  have e: "bit (ucast (entry_ctls c) :: u64) 9" using assms by (simp add: bit_simps)
  have c: "store_fields (control_fields c e) g VM_ENTRY_CONTROLS = ucast (entry_ctls c)"
    "store_fields (control_fields c e) g VMCS_LINK_POINTER = 0xffffffffffffffff"
    by (simp_all add: control_fields_def field_trunc_def)
  show ?thesis
    unfolding guest_checks_def ball_simps
    using e by (simp add: other guest_image c bit_simps)
qed

lemma ept_checks_image:
  assumes "cpu_based c AND 0x80000000 \<noteq> 0" "secondary c AND 2 \<noteq> 0" "e AND 0xfff = 0x1e"
  shows "ept_checks (store_fields (vmcs_image c e w) g)"
proof -
  have c: "store_fields (control_fields c e) g EPT_POINTER = e"
    "store_fields (control_fields c e) g CPU_BASED_VM_EXEC_CONTROL = ucast (cpu_based c)"
    "store_fields (control_fields c e) g SECONDARY_VM_EXEC_CONTROL = ucast (secondary c)"
    by (simp_all add: control_fields_def field_trunc_def)
  note other = image_not_host [of _ c e w g]
  have b: "bit (cpu_based c) 31" "bit (secondary c) 1"
    using assms(1,2) and_exp_eq_0_iff_not_bit [of "cpu_based c" 31] and_exp_eq_0_iff_not_bit [of "secondary c" 1] by simp_all
  show ?thesis
    using b assms(3) by (simp add: ept_checks_def other guest_image c bit_simps)
qed

lemma host_checks_image: "host_checks (store_fields (vmcs_image c e w) g)"
  using host_checks_all by (simp add: vmcs_image_def store_fields_append)

text \<open>
  The world in which setup can run: the CPU is in VMX operation, the revision id is the one the
  processor reports, and the 64-bit entry control can be set.
\<close>

definition vmx_usable :: "mk_world \<Rightarrow> bool" where
  "vmx_usable w \<longleftrightarrow> in_vmx (this_cpu w) \<and>
     vmcs_revision_id (glob w) = ucast (mini_rdmsr MSR_VMX_BASIC w AND 0x7fffffff) \<and>
     bit (mini_rdmsr (if true_ctls (glob w) then 0x490 else 0x484) w) 41"

lemma adjust_bit:
  "bit (mini_vmx_adjust_control d i w) n \<longleftrightarrow> n < 32 \<and>
     (bit d n \<and> bit (mini_rdmsr i w) (n + 32) \<or> bit (mini_rdmsr i w) n)"
  by (auto simp: mini_vmx_adjust_control_def Let_def bit_simps add.commute dest: bit_imp_le_length)

lemma setup_run:
  assumes u: "vmx_usable w" and al: "alloc_page (pmem w) = (Some p, m)" and c: "mini_compute_controls w = (r, c)"
  defines "phys \<equiv> page_to_phys p"
  shows "\<exists>w1. mini_vcpu_vmx_setup (cur_cpu w) e v w =
      rbind (Inr (r, v\<lparr>vmcs_page := Some p, vmcs_phys := phys, launched := False, loaded_cpu := None\<rparr>, w1)) (\<lambda>(r, v4, w4).
        if r \<noteq> 0 then setup_free r p v4 w4 else Inr (0, v4, w4)) \<and>
    pmem w1 = m \<and> cur_cpu w1 = cur_cpu w \<and> irqs_on w1 = irqs_on w \<and> preempt_count w1 = preempt_count w \<and>
    online w1 = online w \<and> glob w1 = glob w \<and> host w1 = host w \<and>
    (\<forall>q. q \<noteq> phys \<longrightarrow> regions w1 q = regions w q) \<and>
    \<not> vlaunched (regions w1 phys) \<and> vrev (regions w1 phys) = vmcs_revision_id (glob w) \<and>
    active_on (regions w1 phys) = active_on (regions w phys) - {cur_cpu w} \<and>
    (\<forall>d. in_vmx (cpus w1 d) = in_vmx (cpus w d) \<and> vmxon_done (cpus w1 d) = vmxon_done (cpus w d) \<and>
         msr (cpus w1 d) = msr (cpus w d) \<and> cr4 (cpus w1 d) = cr4 (cpus w d) \<and>
         vmxon_page (cpus w1 d) = vmxon_page (cpus w d) \<and>
         current_vmcs (cpus w1 d) = (if d = cur_cpu w then None else current_vmcs (cpus w d))) \<and>
    (r = 0 \<longrightarrow> (\<exists>g x. vfield (regions w1 phys) = store_fields (vmcs_image c e x) g))"
proof -
  let ?w1 = "upd_region phys (\<lambda>r. r\<lparr>vrev := vmcs_revision_id (glob w)\<rparr>) (w\<lparr>pmem := m\<rparr>)"
  let ?v1 = "v\<lparr>vmcs_page := Some p, vmcs_phys := phys\<rparr>"
  have i1: "in_vmx (this_cpu ?w1)" using u by (simp add: vmx_usable_def upd_region_def)
  let ?w2 = "vmcleared (cur_cpu w) phys ?w1"
  have w2: "mini_vmclear phys ?w1 = Inr (0, ?w2)"
    using vmclear_in [OF i1, of phys] by (simp add: upd_region_def)
  have i2: "in_vmx (this_cpu ?w2)" using i1 by (simp add: upd_region_def)
  let ?w3 = "vmloaded phys ?w2"
  have w3: "mini_vmptrld phys ?w2 = Inr (0, ?w3)"
    using vmptrld_in [OF i2, of phys] u by (simp add: vmx_usable_def upd_region_def mini_rdmsr_def)
  have rdy: "vmx_ready ?w3 phys" by (rule vmloaded_ready [OF i2])
  have cur3: "cur_cpu ?w3 = cur_cpu w" by (simp add: upd_region_def)
  have c3: "mini_compute_controls ?w3 = (r, c)"
  proof -
    have "mini_compute_controls ?w3 = mini_compute_controls w"
      by (simp add: mini_compute_controls_def mini_vmx_adjust_control_def Let_def)
        (simp add: mini_rdmsr_def upd_region_def)
    then show ?thesis using c by simp
  qed
  let ?v3 = "?v1\<lparr>loaded_cpu := Some (cur_cpu ?w3)\<rparr>"
  let ?w4 = "vmcleared (cur_cpu w) phys (if r \<noteq> 0 then ?w3 else set_fields phys (vmcs_image c e ?w3) ?w3)"
  have sf: "setup_fields e ?v3 ?w3 = Inr (r, ?v1\<lparr>launched := False, loaded_cpu := None\<rparr>, ?w4)"
    using setup_fields_ready [of ?w3 ?v3, OF _ _ c3, of e] rdy cur3 by simp
  have same: "?w3\<lparr>cur_cpu := cur_cpu w\<rparr> = ?w3" using cur3 by (metis mk_world.surjective mk_world.update_convs(4))
  have "mini_vcpu_vmx_setup (cur_cpu w) e v w =
      rbind (Inr (r, ?v1\<lparr>launched := False, loaded_cpu := None\<rparr>, ?w4)) (\<lambda>(r, v4, w4).
        if r \<noteq> 0 then setup_free r p v4 w4 else Inr (0, v4, w4))"
    using al w2 w3 sf same by (simp add: mini_vcpu_vmx_setup_def phys_def [symmetric] Let_def)
  moreover have "\<exists>g x. vfield (regions ?w4 phys) = store_fields (vmcs_image c e x) g" if "r = 0"
    using that by auto
  ultimately show ?thesis
    by (intro exI [of _ ?w4]) (simp add: upd_region_def)
qed

section \<open>Properties of the VMX layer\<close>

text \<open>
  C16. A negotiated control field has every bit the processor requires, no bit it does not allow,
  and in the remaining bits exactly what was asked for.
\<close>

theorem adjust_control_honest:
  assumes "ucast (mini_rdmsr i w) AND NOT (ucast (drop_bit 32 (mini_rdmsr i w)) :: u32) = 0"
  shows "let r = mini_vmx_adjust_control d i w; must = ucast (mini_rdmsr i w);
             can = ucast (drop_bit 32 (mini_rdmsr i w))
         in must AND NOT r = 0 \<and> r AND NOT can = 0 \<and> (r XOR d) AND can AND NOT must = 0"
proof -
  let ?must = "ucast (mini_rdmsr i w) :: u32" and ?can = "ucast (drop_bit 32 (mini_rdmsr i w)) :: u32"
  have sub: "bit ?must n \<Longrightarrow> bit ?can n" for n
    using arg_cong [OF assms, of "\<lambda>x. bit x n"] by (auto simp: bit_and_iff bit_not_iff dest: bit_imp_le_length)
  have r: "mini_vmx_adjust_control d i w = (d AND ?can) OR ?must"
    by (simp add: mini_vmx_adjust_control_def Let_def)
  have "?must AND NOT ((d AND ?can) OR ?must) = 0" "((d AND ?can) OR ?must) AND NOT ?can = 0"
    "(((d AND ?can) OR ?must) XOR d) AND ?can AND NOT ?must = 0"
    by (rule bit_word_eqI, use sub in \<open>auto simp: bit_and_iff bit_or_iff bit_not_iff bit_xor_iff\<close>)+
  then show ?thesis by (simp add: r Let_def)
qed


text \<open>
  Setup does not disable preemption: if the thread moves to another CPU after VMPTRLD, every
  VMWRITE fails there without being noticed, and setup still reports success although no field
  of the VMCS was written.
\<close>

theorem setup_migration_loses_fields:
  assumes u: "vmx_usable w" and al: "alloc_page (pmem w) = (Some p, m)"
    and mig: "mig \<noteq> cur_cpu w" "in_vmx (cpus w mig)" "current_vmcs (cpus w mig) = None"
    and irq: "irqs_on w" "online w (cur_cpu w)" "vmxon_done (this_cpu w)"
    and ctl: "fst (mini_compute_controls (w\<lparr>cur_cpu := mig\<rparr>)) = 0"
  shows "\<exists>v' w'. mini_vcpu_vmx_setup mig e v w = Inr (0, v', w') \<and>
    vfield (regions w' (vmcs_phys v')) = vfield (regions w (vmcs_phys v'))"
proof -
  let ?phys = "page_to_phys p"
  let ?w1 = "upd_region ?phys (\<lambda>r. r\<lparr>vrev := vmcs_revision_id (glob w)\<rparr>) (w\<lparr>pmem := m\<rparr>)"
  have i1: "in_vmx (this_cpu ?w1)" using u by (simp add: vmx_usable_def upd_region_def)
  let ?w2 = "vmcleared (cur_cpu w) ?phys ?w1"
  have w2: "mini_vmclear ?phys ?w1 = Inr (0, ?w2)"
    using vmclear_in [OF i1, of ?phys] by (simp add: upd_region_def)
  have i2: "in_vmx (this_cpu ?w2)" using i1 by (simp add: upd_region_def)
  let ?w3 = "vmloaded ?phys ?w2"
  have w3: "mini_vmptrld ?phys ?w2 = Inr (0, ?w3)"
    using vmptrld_in [OF i2, of ?phys] u by (simp add: vmx_usable_def upd_region_def mini_rdmsr_def)
  let ?v = "v\<lparr>vmcs_page := Some p, vmcs_phys := ?phys, loaded_cpu := Some (cur_cpu w)\<rparr>"
  let ?w = "?w3\<lparr>cur_cpu := mig\<rparr>"
  have no: "in_vmx (this_cpu ?w)" "current_vmcs (this_cpu ?w) = None"
    using mig by (simp_all add: upd_region_def)
  have vw: "vmwrites fxs ?w = Inr ?w" for fxs
    by (induction fxs) (use no in \<open>auto simp: mini_vmwrite_def in_operation_def\<close>)
  have "mini_compute_controls ?w = mini_compute_controls (w\<lparr>cur_cpu := mig\<rparr>)"
    by (simp add: mini_compute_controls_def mini_vmx_adjust_control_def Let_def)
      (simp add: mini_rdmsr_def upd_region_def)
  then obtain c where c: "mini_compute_controls ?w = (0, c)" using ctl by (metis prod.collapse)
  have vc: "mini_vmcs_clear ?v ?w =
      Inr (?v\<lparr>launched := False, loaded_cpu := None\<rparr>, vmcleared (cur_cpu w) ?phys ?w)"
    using mig(1) irq u by (subst vmcs_clear_remote [where c = "cur_cpu w"]) (auto simp: upd_region_def vmx_usable_def)
  have fields: "setup_fields e ?v ?w = Inr (0, ?v\<lparr>launched := False, loaded_cpu := None\<rparr>, vmcleared (cur_cpu w) ?phys ?w)"
    by (simp add: setup_fields_def c vw vc mini_vmx_set_guest_state_def mini_vmx_set_constant_host_state_def
        mini_vmx_fixup_host_for_cpu_def del: vmwrites.simps)
  have cur3: "cur_cpu ?w3 = cur_cpu w" by (simp add: upd_region_def)
  have "mini_vcpu_vmx_setup mig e v w =
      Inr (0, ?v\<lparr>launched := False, loaded_cpu := None\<rparr>, vmcleared (cur_cpu w) ?phys ?w)"
    using al w2 w3 fields cur3 by (simp add: mini_vcpu_vmx_setup_def Let_def)
  then show ?thesis by (simp add: upd_region_def)
qed

lemma teardown_ok:
  assumes "vmcs_page v = Some p" "mini_vmcs_clear v w = Inr (v1, w1)" "p \<in> set (live (pmem w1))"
  shows "mini_vcpu_vmx_teardown v w =
    Inr (v1\<lparr>vmcs_page := None\<rparr>, w1\<lparr>pmem := (pmem w1)\<lparr>live := remove1 p (live (pmem w1))\<rparr>\<rparr>)"
  using assms by (simp add: mini_vcpu_vmx_teardown_def free_page_def)


definition ex_msrs :: "u32 \<Rightarrow> u64" where
  "ex_msrs i = (if i = MSR_VMX_BASIC then 0x00da040000000004
     else if i = 0x48e then 0xfff9fffe04006172
     else if i = MSR_FEAT_CTL then 5
     else if i = MSR_VMX_EPT_VPID_CAP then 0x4004040
     else 0xffffffff00000000)"

definition ex_cpu :: cpu_state where
  "ex_cpu = \<lparr>in_vmx = True, vmxon_done = True, vmxon_page = None, cr4 = 0x2020, current_vmcs = None, msr = ex_msrs\<rparr>"

definition ex_world :: mk_world where
  "ex_world = \<lparr>cpus = (\<lambda>_. ex_cpu), online = (\<lambda>_. True),
     regions = (\<lambda>_. \<lparr>vrev = 0, vfield = (\<lambda>_. 0xdead), vlaunched = True, active_on = {}\<rparr>),
     cur_cpu = 0, irqs_on = True, preempt_count = 0,
     glob = \<lparr>vmx_enabled = True, vmcs_revision_id = 4, true_ctls = True, ept_vpid_cap = 0x4004040,
       enable_err = 0, vmx_enable_count = 1\<rparr>,
     pmem = \<lparr>tables = (\<lambda>_ _. 0), avail_pages = [Some 10, Some 11, Some 12], live = [20, 21]\<rparr>,
     host = \<lparr>hv_cr0 = (\<lambda>_. 0x80050033), hv_cr3 = (\<lambda>_. 0x1000), hv_gs_base = (\<lambda>_. 0), hv_tss = (\<lambda>_. 0),
       hv_gdt = (\<lambda>_. 0), hv_entry_stack = (\<lambda>_. 0), hv_idt = 0, hv_vmexit = 0, hv_ia32 = True\<rparr>\<rparr>"

definition ex_vcpu :: mini_vcpu where
  "ex_vcpu = \<lparr>regs = replicate 16 0, vcpu_id = 0, vmcs_page = None, vmcs_phys = 0, launched = False,
     loaded_cpu = None, run_page = None, run_exit_reason = 0, pending_intr_info = 0, n_exits = 0,
     n_io_exits = 0, n_ept_violations = 0, n_hlt_exits = 0, n_extint_exits = 0, n_nmi_exits = 0, n_injected = 0\<rparr>"

lemma ex_world_facts:
  "vmx_usable ex_world" "fresh_pages (pmem ex_world)"
  "\<forall>p. Some p \<in> set (avail_pages (pmem ex_world)) \<longrightarrow> active_on (regions ex_world (page_to_phys p)) = {}"
  "fst (mini_compute_controls ex_world) = 0" "fst (mini_compute_controls (ex_world\<lparr>cur_cpu := 1\<rparr>)) = 0"
  by (simp_all add: vmx_usable_def ex_world_def ex_cpu_def mini_rdmsr_def ex_msrs_def fresh_pages_def pfn_ok_def
      bit_simps mini_compute_controls_def mini_vmx_adjust_control_def Let_def)

theorem adjust_control_honest_witness:
  "mini_vmx_adjust_control (0x80 OR 0x1000000 OR 0x80000000) 0x48e ex_world = 0x850061f2 \<and>
   0x850061f2 AND NOT 0xfff9fffe = (0 :: u32)"
  using adjust_control_honest [of "0x48e" ex_world "0x80 OR 0x1000000 OR 0x80000000"]
  by (simp add: mini_vmx_adjust_control_def mini_rdmsr_def ex_world_def ex_cpu_def ex_msrs_def Let_def)


theorem setup_migration_loses_fields_witness:
  "\<exists>v' w'. mini_vcpu_vmx_setup 1 0xa01e ex_vcpu ex_world = Inr (0, v', w') \<and>
     vfield (regions w' (vmcs_phys v')) GUEST_RIP = 0xdead"
proof -
  have "alloc_page (pmem ex_world) = (Some 10, snd (alloc_page (pmem ex_world)))"
    by (simp add: ex_world_def alloc_page_def)
  from setup_migration_loses_fields [OF ex_world_facts(1) this, of 1, OF _ _ _ _ _ _ ex_world_facts(5), of "0xa01e" ex_vcpu]
  show ?thesis by (auto simp: ex_world_def ex_cpu_def)
qed

end
