(* ===== verification/MiniHw.thy ===== *)
theory MiniHw
  imports MiniVmx
begin

text \<open>
  Loading and unloading of \<open>mini-kvm\<close> (\<open>main.c\<close>): the capability checks, VMXON and VMXOFF on every
  online CPU with rollback, and the module's entry points.  The instructions are modelled as
  the comments of the source cite them; every failure of VMXON, a fault caught by the exception
  table included, is the result \<open>-EIO\<close>.
\<close>

section \<open>The machine\<close>

text \<open>
  \<open>possible\<close> are the CPUs the kernel knows, in the order in which the callbacks happen to run.
  The callbacks run at the same time on all CPUs: \<open>err_seen c\<close> says whether the read of
  \<open>enable_err\<close> on \<open>c\<close> comes after the write of a CPU before it in that order.  \<open>vmxon_faults\<close> are the
  causes of a fault outside the model (CR0, CR4 and operand checks).
\<close>

record hw_params =
  possible :: "nat list"
  cpuid1_ecx :: "nat \<Rightarrow> u32"
  err_seen :: "nat \<Rightarrow> bool"
  vmxon_faults :: "nat \<Rightarrow> bool"

definition mini_cpu_has_vmx :: "hw_params \<Rightarrow> mk_world \<Rightarrow> bool" where
  "mini_cpu_has_vmx hp w \<longleftrightarrow> cpuid1_ecx hp (cur_cpu w) AND 0x20 \<noteq> 0"

definition mini_cpu_vmx_supported :: "hw_params \<Rightarrow> mk_world \<Rightarrow> bool" where
  "mini_cpu_vmx_supported hp w \<longleftrightarrow>
     mini_cpu_has_vmx hp w \<and> mini_rdmsr MSR_FEAT_CTL w AND (1 OR 4) = 1 OR 4"

definition mini_cpu_vmxon :: "hw_params \<Rightarrow> u64 \<Rightarrow> mk_world \<Rightarrow> int \<times> mk_world" where
  "mini_cpu_vmxon hp phys w =
     (let c = this_cpu w in
      if cr4 c AND X86_CR4_VMXE = 0 \<or> vmxon_faults hp (cur_cpu w) then (- EIO, w)
      else if in_vmx c \<or> vrev (regions w phys) \<noteq> ucast (mini_rdmsr MSR_VMX_BASIC w AND 0x7fffffff) then (- EIO, w)
      else (0, upd_cpu (cur_cpu w) (\<lambda>s. s\<lparr>in_vmx := True, current_vmcs := None\<rparr>) w))"

text \<open>Outside VMX operation VMXOFF faults, and the fault is swallowed.\<close>

definition mini_cpu_vmxoff :: "mk_world \<Rightarrow> mk_world" where
  "mini_cpu_vmxoff w =
     (if in_vmx (this_cpu w) then upd_cpu (cur_cpu w) (\<lambda>s. s\<lparr>in_vmx := False, current_vmcs := None\<rparr>) w else w)"

definition cr4_set_bits :: "u64 \<Rightarrow> mk_world \<Rightarrow> mk_world" where
  "cr4_set_bits m w = upd_cpu (cur_cpu w) (\<lambda>s. s\<lparr>cr4 := cr4 s OR m\<rparr>) w"

definition cr4_clear_bits :: "u64 \<Rightarrow> mk_world \<Rightarrow> mk_world" where
  "cr4_clear_bits m w = upd_cpu (cur_cpu w) (\<lambda>s. s\<lparr>cr4 := cr4 s AND NOT m\<rparr>) w"

section \<open>Capabilities\<close>

definition mini_vmx_read_capabilities :: "hw_params \<Rightarrow> mk_world \<Rightarrow> int \<times> mk_world" where
  "mini_vmx_read_capabilities hp w =
     (if \<not> mini_cpu_vmx_supported hp w then (- ENODEV, w)
      else
        (let basic = mini_rdmsr MSR_VMX_BASIC w;
             cap = mini_rdmsr MSR_VMX_EPT_VPID_CAP w;
             w1 = w\<lparr>glob := (glob w)\<lparr>vmcs_revision_id := ucast (basic AND 0x7fffffff),
                    true_ctls := (basic AND 0x80000000000000 \<noteq> 0), ept_vpid_cap := cap\<rparr>\<rparr>
         in if cap AND 0x40 = 0 \<or> cap AND 0x4000 = 0 \<or> cap AND 0x4000000 = 0 then (- ENODEV, w1) else (0, w1)))"

section \<open>VMXON and VMXOFF on one CPU\<close>

definition set_err :: "int \<Rightarrow> mk_world \<Rightarrow> mk_world" where
  "set_err r w = w\<lparr>glob := (glob w)\<lparr>enable_err := r\<rparr>\<rparr>"

definition add_count :: "int \<Rightarrow> mk_world \<Rightarrow> mk_world" where
  "add_count d w = w\<lparr>glob := (glob w)\<lparr>vmx_enable_count := vmx_enable_count (glob w) + d\<rparr>\<rparr>"

definition mini_vmx_enable_one :: "hw_params \<Rightarrow> mk_world \<Rightarrow> mk_world res" where
  "mini_vmx_enable_one hp w =
     (case vmxon_page (this_cpu w) of
        None \<Rightarrow> Inl Uninit
      | Some page \<Rightarrow> Inr (
          let phys = page_to_phys page in
          if enable_err (glob w) \<noteq> 0 \<and> err_seen hp (cur_cpu w) then w
          else if \<not> mini_cpu_vmx_supported hp w then set_err (- ENODEV) w
          else if cr4 (this_cpu w) AND X86_CR4_VMXE \<noteq> 0 then set_err (- EBUSY) w
          else (case mini_cpu_vmxon hp phys (cr4_set_bits X86_CR4_VMXE w) of (r, w1) \<Rightarrow>
            if r \<noteq> 0 then set_err (- EIO) (cr4_clear_bits X86_CR4_VMXE w1)
            else add_count 1 (upd_cpu (cur_cpu w1) (\<lambda>s. s\<lparr>vmxon_done := True\<rparr>) w1))))"

definition mini_vmx_disable_one :: "mk_world \<Rightarrow> mk_world" where
  "mini_vmx_disable_one w =
     (if \<not> vmxon_done (this_cpu w) then w
      else add_count (- 1) (upd_cpu (cur_cpu w) (\<lambda>s. s\<lparr>vmxon_done := False\<rparr>)
             (cr4_clear_bits X86_CR4_VMXE (mini_cpu_vmxoff w))))"

definition on_cpu :: "nat \<Rightarrow> (mk_world \<Rightarrow> mk_world res) \<Rightarrow> mk_world \<Rightarrow> mk_world res" where
  "on_cpu c f w = rbind (f (w\<lparr>cur_cpu := c\<rparr>)) (\<lambda>w1. Inr (w1\<lparr>cur_cpu := cur_cpu w\<rparr>))"

fun on_cpus :: "nat list \<Rightarrow> (mk_world \<Rightarrow> mk_world res) \<Rightarrow> mk_world \<Rightarrow> mk_world res" where
  "on_cpus [] f w = Inr w"
| "on_cpus (c # cs) f w = rbind (on_cpu c f w) (on_cpus cs f)"

definition on_each_cpu :: "hw_params \<Rightarrow> (mk_world \<Rightarrow> mk_world res) \<Rightarrow> mk_world \<Rightarrow> mk_world res" where
  "on_each_cpu hp f w = on_cpus (filter (online w) (possible hp)) f w"

section \<open>All CPUs\<close>

fun free_areas :: "nat list \<Rightarrow> mk_world \<Rightarrow> mk_world res" where
  "free_areas [] w = Inr w"
| "free_areas (c # cs) w =
     (case vmxon_page (cpus w c) of
        None \<Rightarrow> Inl BadFree
      | Some p \<Rightarrow> rbind (free_page p (pmem w)) (\<lambda>m.
          free_areas cs (upd_cpu c (\<lambda>s. s\<lparr>vmxon_page := None\<rparr>) (w\<lparr>pmem := m\<rparr>))))"

text \<open>\<open>pre\<close> are the CPUs that already have their VMXON area.\<close>

fun alloc_areas :: "nat list \<Rightarrow> nat list \<Rightarrow> mk_world \<Rightarrow> (int \<times> mk_world) res" where
  "alloc_areas pre [] w = Inr (0, w)"
| "alloc_areas pre (c # cs) w =
     (case alloc_page (pmem w) of
        (None, m) \<Rightarrow> rbind (free_areas pre (w\<lparr>pmem := m\<rparr>)) (\<lambda>w1. Inr (- ENOMEM, w1))
      | (Some p, m) \<Rightarrow>
          alloc_areas (pre @ [c]) cs
            (upd_cpu c (\<lambda>s. s\<lparr>vmxon_page := Some p\<rparr>)
              (upd_region (page_to_phys p) (\<lambda>r. r\<lparr>vrev := vmcs_revision_id (glob w)\<rparr>) (w\<lparr>pmem := m\<rparr>))))"

definition mini_vmx_hardware_enable_all :: "hw_params \<Rightarrow> mk_world \<Rightarrow> (int \<times> mk_world) res" where
  "mini_vmx_hardware_enable_all hp w =
     rbind (alloc_areas [] (possible hp) w) (\<lambda>(r, w1).
     if r \<noteq> 0 then Inr (r, w1)
     else
       rbind (on_each_cpu hp (mini_vmx_enable_one hp)
               (w1\<lparr>glob := (glob w1)\<lparr>enable_err := 0, vmx_enable_count := 0\<rparr>\<rparr>)) (\<lambda>w2.
       if enable_err (glob w2) \<noteq> 0 then
         rbind (on_each_cpu hp (\<lambda>w. Inr (mini_vmx_disable_one w)) w2) (\<lambda>w3.
         rbind (free_areas (possible hp) w3) (\<lambda>w4. Inr (enable_err (glob w2), w4)))
       else Inr (0, w2\<lparr>glob := (glob w2)\<lparr>vmx_enabled := True\<rparr>\<rparr>)))"

text \<open>The loop of \<open>disable_all\<close> frees the areas that are there.\<close>

definition has_area :: "mk_world \<Rightarrow> nat \<Rightarrow> bool" where
  "has_area w c \<longleftrightarrow> vmxon_page (cpus w c) \<noteq> None"

definition mini_vmx_hardware_disable_all :: "hw_params \<Rightarrow> mk_world \<Rightarrow> mk_world res" where
  "mini_vmx_hardware_disable_all hp w =
     (if \<not> vmx_enabled (glob w) then Inr w
      else
        rbind (on_each_cpu hp (\<lambda>w. Inr (mini_vmx_disable_one w)) w) (\<lambda>w1.
        rbind (free_areas (filter (has_area w1) (possible hp)) w1) (\<lambda>w2.
        Inr (w2\<lparr>glob := (glob w2)\<lparr>vmx_enabled := False\<rparr>\<rparr>))))"

text \<open>\<open>reg\<close> is what \<open>misc_register\<close> returns.\<close>

definition mini_kvm_init :: "int \<Rightarrow> hw_params \<Rightarrow> mk_world \<Rightarrow> (int \<times> mk_world) res" where
  "mini_kvm_init reg hp w =
     (case mini_vmx_read_capabilities hp w of (r, w1) \<Rightarrow>
      if r \<noteq> 0 then Inr (r, w1)
      else rbind (mini_vmx_hardware_enable_all hp w1) (\<lambda>(r, w2).
        if r \<noteq> 0 then Inr (r, w2)
        else if reg \<noteq> 0 then rbind (mini_vmx_hardware_disable_all hp w2) (\<lambda>w3. Inr (reg, w3))
        else Inr (0, w2)))"

definition mini_kvm_exit :: "hw_params \<Rightarrow> mk_world \<Rightarrow> mk_world res" where
  "mini_kvm_exit hp w = mini_vmx_hardware_disable_all hp w"

section \<open>One CPU at a time\<close>

definition vmx_on :: "cpu_state \<Rightarrow> cpu_state" where
  "vmx_on s = s\<lparr>in_vmx := True, vmxon_done := True, cr4 := cr4 s OR X86_CR4_VMXE, current_vmcs := None\<rparr>"

definition vmx_idle :: "cpu_state \<Rightarrow> bool" where
  "vmx_idle s \<longleftrightarrow> \<not> in_vmx s \<and> \<not> vmxon_done s \<and> cr4 s AND X86_CR4_VMXE = 0 \<and> current_vmcs s = None"

definition vmx_off :: "cpu_state \<Rightarrow> cpu_state" where
  "vmx_off s = s\<lparr>in_vmx := False, vmxon_done := False, cr4 := cr4 s AND NOT X86_CR4_VMXE,
     current_vmcs := (if in_vmx s then None else current_vmcs s)\<rparr>"

lemma set_clear_bits:
  assumes "(x :: u64) AND y = 0"
  shows "(x OR y) AND NOT y = x"
proof (rule bit_word_eqI)
  fix n assume n: "n < LENGTH(64)"
  have "\<not> (bit x n \<and> bit y n)" using arg_cong [OF assms, of "\<lambda>z. bit z n"] by (simp add: bit_and_iff)
  then show "bit ((x OR y) AND NOT y) n = bit x n" using n by (auto simp: bit_and_iff bit_or_iff bit_not_iff)
qed

lemmas vmxe_clear = set_clear_bits [where y = X86_CR4_VMXE]

lemma on_off_order:
  "s\<lparr>cr4 := x, in_vmx := a, current_vmcs := q, vmxon_done := b\<rparr> =
     s\<lparr>in_vmx := a, vmxon_done := b, cr4 := x, current_vmcs := q\<rparr>"
  "s\<lparr>in_vmx := a, current_vmcs := q, cr4 := x, vmxon_done := b\<rparr> =
     s\<lparr>in_vmx := a, vmxon_done := b, cr4 := x, current_vmcs := q\<rparr>"
  "\<not> in_vmx s \<Longrightarrow> s\<lparr>cr4 := x, vmxon_done := b\<rparr> = s\<lparr>in_vmx := False, vmxon_done := b, cr4 := x\<rparr>"
  by (cases s, simp)+

lemma vmx_off_on: "vmx_idle s \<Longrightarrow> vmx_off (vmx_on s) = s"
proof -
  assume i: "vmx_idle s"
  then have "(cr4 s OR X86_CR4_VMXE) AND NOT X86_CR4_VMXE = cr4 s" by (intro vmxe_clear) (simp add: vmx_idle_def)
  with i show ?thesis by (cases s) (simp add: vmx_off_def vmx_on_def vmx_idle_def)
qed

lemma upd_cpu_idem: "f (cpus w c) = cpus w c \<Longrightarrow> upd_cpu c f w = w"
  by (cases w) (simp add: upd_cpu_def fun_upd_idem)

lemma enable_one_cases:
  assumes p: "vmxon_page (cpus w c) = Some page" and o: "\<not> vmxon_done (cpus w c)"
    and cur: "\<not> in_vmx (cpus w c) \<Longrightarrow> current_vmcs (cpus w c) = None"
  shows "\<exists>b e n. on_cpu c (mini_vmx_enable_one hp) w =
      Inr (w\<lparr>cpus := (if b then (cpus w)(c := vmx_on (cpus w c)) else cpus w),
             glob := (glob w)\<lparr>enable_err := e, vmx_enable_count := n\<rparr>\<rparr>) \<and>
    (if b then vmx_idle (cpus w c) \<and> e = enable_err (glob w) else e \<noteq> 0)"
proof -
  let ?w = "w\<lparr>cur_cpu := c\<rparr>"
  have id: "w = w\<lparr>cpus := cpus w, glob := (glob w)\<lparr>enable_err := enable_err (glob w), vmx_enable_count := vmx_enable_count (glob w)\<rparr>\<rparr>"
    by simp
  consider "enable_err (glob w) \<noteq> 0" "err_seen hp c" | "\<not> (enable_err (glob w) \<noteq> 0 \<and> err_seen hp c)" "\<not> mini_cpu_vmx_supported hp ?w"
    | "\<not> (enable_err (glob w) \<noteq> 0 \<and> err_seen hp c)" "mini_cpu_vmx_supported hp ?w" "cr4 (cpus w c) AND X86_CR4_VMXE \<noteq> 0"
    | "\<not> (enable_err (glob w) \<noteq> 0 \<and> err_seen hp c)" "mini_cpu_vmx_supported hp ?w" "cr4 (cpus w c) AND X86_CR4_VMXE = 0" by blast
  then show ?thesis
  proof cases
    case 1
    then show ?thesis using p
      by (intro exI [of _ False] exI [of _ "enable_err (glob w)"] exI [of _ "vmx_enable_count (glob w)"])
        (simp add: on_cpu_def mini_vmx_enable_one_def)
  next
    case 2
    then show ?thesis using p
      by (intro exI [of _ False] exI [of _ "- ENODEV"] exI [of _ "vmx_enable_count (glob w)"])
        (auto simp: on_cpu_def mini_vmx_enable_one_def set_err_def)
  next
    case 3
    then show ?thesis using p
      by (intro exI [of _ False] exI [of _ "- EBUSY"] exI [of _ "vmx_enable_count (glob w)"])
        (auto simp: on_cpu_def mini_vmx_enable_one_def set_err_def)
  next
    case 4
    obtain r w1 where x: "mini_cpu_vmxon hp (page_to_phys page) (cr4_set_bits X86_CR4_VMXE ?w) = (r, w1)"
      by (cases "mini_cpu_vmxon hp (page_to_phys page) (cr4_set_bits X86_CR4_VMXE ?w)")
    have step: "on_cpu c (mini_vmx_enable_one hp) w = Inr
        ((if r \<noteq> 0 then set_err (- EIO) (cr4_clear_bits X86_CR4_VMXE w1)
            else add_count 1 (upd_cpu (cur_cpu w1) (\<lambda>s. s\<lparr>vmxon_done := True\<rparr>) w1))\<lparr>cur_cpu := cur_cpu w\<rparr>)"
      using 4 p x by (auto simp: on_cpu_def mini_vmx_enable_one_def)
    show ?thesis
    proof (cases "r = 0")
      case True
      then have w1: "\<not> in_vmx (cpus w c)" "w1 = upd_cpu c (\<lambda>s. s\<lparr>in_vmx := True, current_vmcs := None\<rparr>) (cr4_set_bits X86_CR4_VMXE ?w)"
        using x by (auto simp: mini_cpu_vmxon_def Let_def cr4_set_bits_def upd_cpu_def split: if_splits)
      have "on_cpu c (mini_vmx_enable_one hp) w = Inr (w\<lparr>cpus := (cpus w)(c := vmx_on (cpus w c)),
             glob := (glob w)\<lparr>enable_err := enable_err (glob w), vmx_enable_count := vmx_enable_count (glob w) + 1\<rparr>\<rparr>)"
        using step True by (simp add: w1(2) upd_cpu_def cr4_set_bits_def add_count_def vmx_on_def on_off_order)
      moreover have "vmx_idle (cpus w c)" using w1(1) o cur 4(3) by (simp add: vmx_idle_def)
      ultimately show ?thesis
        by (intro exI [of _ True] exI [of _ "enable_err (glob w)"] exI [of _ "vmx_enable_count (glob w) + 1"]) simp
    next
      case False
      then have w1: "w1 = cr4_set_bits X86_CR4_VMXE ?w"
        using x by (auto simp: mini_cpu_vmxon_def Let_def split: if_splits)
      have "on_cpu c (mini_vmx_enable_one hp) w = Inr (w\<lparr>cpus := cpus w,
             glob := (glob w)\<lparr>enable_err := - EIO, vmx_enable_count := vmx_enable_count (glob w)\<rparr>\<rparr>)"
        using step False vmxe_clear [OF 4(3)]
        by (simp add: w1 upd_cpu_def cr4_set_bits_def cr4_clear_bits_def set_err_def fun_upd_idem)
      then show ?thesis
        by (intro exI [of _ False] exI [of _ "- EIO"] exI [of _ "vmx_enable_count (glob w)"]) simp
    qed
  qed
qed

lemma enable_each:
  assumes "distinct cs" "\<forall>c \<in> set cs. vmxon_page (cpus w c) \<noteq> None"
    "\<forall>c \<in> set cs. \<not> vmxon_done (cpus w c) \<and> (\<not> in_vmx (cpus w c) \<longrightarrow> current_vmcs (cpus w c) = None)"
  shows "\<exists>E e n. on_cpus cs (mini_vmx_enable_one hp) w =
      Inr (w\<lparr>cpus := (\<lambda>c. if c \<in> E then vmx_on (cpus w c) else cpus w c),
             glob := (glob w)\<lparr>enable_err := e, vmx_enable_count := n\<rparr>\<rparr>) \<and>
    E \<subseteq> set cs \<and> (\<forall>c \<in> E. vmx_idle (cpus w c)) \<and> (e = 0 \<longrightarrow> enable_err (glob w) = 0 \<and> E = set cs)"
  using assms
proof (induction cs arbitrary: w)
  case Nil
  show ?case
    by (intro exI [of _ "{}"] exI [of _ "enable_err (glob w)"] exI [of _ "vmx_enable_count (glob w)"]) simp
next
  case (Cons c cs)
  obtain page where p: "vmxon_page (cpus w c) = Some page" using Cons.prems(2) by auto
  obtain b e n where s: "on_cpu c (mini_vmx_enable_one hp) w =
      Inr (w\<lparr>cpus := (if b then (cpus w)(c := vmx_on (cpus w c)) else cpus w),
             glob := (glob w)\<lparr>enable_err := e, vmx_enable_count := n\<rparr>\<rparr>)"
    and b: "if b then vmx_idle (cpus w c) \<and> e = enable_err (glob w) else e \<noteq> 0"
    using enable_one_cases [OF p, of hp] Cons.prems(3) by auto
  let ?w = "w\<lparr>cpus := (if b then (cpus w)(c := vmx_on (cpus w c)) else cpus w),
             glob := (glob w)\<lparr>enable_err := e, vmx_enable_count := n\<rparr>\<rparr>"
  have same: "d \<in> set cs \<Longrightarrow> cpus ?w d = cpus w d" for d using Cons.prems(1) by auto
  obtain E e' n' where ih: "on_cpus cs (mini_vmx_enable_one hp) ?w =
      Inr (?w\<lparr>cpus := (\<lambda>c. if c \<in> E then vmx_on (cpus ?w c) else cpus ?w c),
             glob := (glob ?w)\<lparr>enable_err := e', vmx_enable_count := n'\<rparr>\<rparr>)"
    "E \<subseteq> set cs" "\<forall>c \<in> E. vmx_idle (cpus ?w c)" "e' = 0 \<longrightarrow> enable_err (glob ?w) = 0 \<and> E = set cs"
    using Cons.IH [of ?w] Cons.prems same by auto
  let ?E = "E \<union> (if b then {c} else {})"
  have cE: "c \<notin> E" using ih(2) Cons.prems(1) by auto
  have "(\<lambda>d. if d \<in> E then vmx_on (cpus ?w d) else cpus ?w d) = (\<lambda>d. if d \<in> ?E then vmx_on (cpus w d) else cpus w d)"
    using cE by (auto simp: fun_eq_iff)
  then have "on_cpus (c # cs) (mini_vmx_enable_one hp) w =
      Inr (w\<lparr>cpus := (\<lambda>c. if c \<in> ?E then vmx_on (cpus w c) else cpus w c),
             glob := (glob w)\<lparr>enable_err := e', vmx_enable_count := n'\<rparr>\<rparr>)"
    using s ih(1) by simp
  moreover have "\<forall>d \<in> ?E. vmx_idle (cpus w d)" using ih(2,3) same b by (auto split: if_splits)
  moreover have "e' = 0 \<longrightarrow> enable_err (glob w) = 0 \<and> ?E = set (c # cs)" using ih(4) b by (auto split: if_splits)
  moreover have "?E \<subseteq> set (c # cs)" using ih(2) by auto
  ultimately show ?case by blast
qed

lemma disable_each:
  assumes "distinct cs"
  shows "\<exists>n. on_cpus cs (\<lambda>w. Inr (mini_vmx_disable_one w)) w =
      Inr (w\<lparr>cpus := (\<lambda>c. if c \<in> set cs \<and> vmxon_done (cpus w c) then vmx_off (cpus w c) else cpus w c),
             glob := (glob w)\<lparr>vmx_enable_count := n\<rparr>\<rparr>)"
  using assms
proof (induction cs arbitrary: w)
  case Nil
  show ?case by (intro exI [of _ "vmx_enable_count (glob w)"]) simp
next
  case (Cons c cs)
  let ?f = "\<lambda>w. Inr (mini_vmx_disable_one w)"
  obtain n where s: "on_cpu c ?f w =
      Inr (w\<lparr>cpus := (if vmxon_done (cpus w c) then (cpus w)(c := vmx_off (cpus w c)) else cpus w),
             glob := (glob w)\<lparr>vmx_enable_count := n\<rparr>\<rparr>)" (is "_ = Inr ?w")
  proof (cases "vmxon_done (cpus w c)")
    case True
    then have "on_cpu c ?f w = Inr (w\<lparr>cpus := (cpus w)(c := vmx_off (cpus w c)),
             glob := (glob w)\<lparr>vmx_enable_count := vmx_enable_count (glob w) + - 1\<rparr>\<rparr>)"
      by (simp add: on_cpu_def mini_vmx_disable_one_def mini_cpu_vmxoff_def cr4_clear_bits_def upd_cpu_def
          add_count_def vmx_off_def on_off_order)
    then show ?thesis using that True by simp
  next
    case False
    then show ?thesis using that [of "vmx_enable_count (glob w)"] by (simp add: on_cpu_def mini_vmx_disable_one_def)
  qed
  obtain n' where ih: "on_cpus cs ?f ?w =
      Inr (?w\<lparr>cpus := (\<lambda>c. if c \<in> set cs \<and> vmxon_done (cpus ?w c) then vmx_off (cpus ?w c) else cpus ?w c),
             glob := (glob ?w)\<lparr>vmx_enable_count := n'\<rparr>\<rparr>)"
    using Cons.IH [of ?w] Cons.prems by auto
  have "(\<lambda>d. if d \<in> set cs \<and> vmxon_done (cpus ?w d) then vmx_off (cpus ?w d) else cpus ?w d) =
     (\<lambda>d. if d \<in> set (c # cs) \<and> vmxon_done (cpus w d) then vmx_off (cpus w d) else cpus w d)"
    using Cons.prems by (auto simp: fun_eq_iff)
  then show ?case using s ih by (intro exI [of _ n']) simp
qed

section \<open>The VMXON areas\<close>

lemma free_areas_ok:
  assumes "distinct cs" "\<forall>c \<in> set cs. vmxon_page (cpus w c) = Some (g c)" "mset (map g cs) \<subseteq># mset (live (pmem w))"
  shows "\<exists>m. free_areas cs w =
      Inr (w\<lparr>cpus := (\<lambda>c. if c \<in> set cs then (cpus w c)\<lparr>vmxon_page := None\<rparr> else cpus w c), pmem := m\<rparr>) \<and>
    mset (live m) = mset (live (pmem w)) - mset (map g cs)"
  using assms
proof (induction cs arbitrary: w)
  case Nil
  show ?case by (intro exI [of _ "pmem w"]) simp
next
  case (Cons c cs)
  have p: "vmxon_page (cpus w c) = Some (g c)" and l: "g c \<in> set (live (pmem w))"
    using Cons.prems(2) mset_subset_eqD [OF Cons.prems(3), of "g c"] by simp_all
  let ?m = "(pmem w)\<lparr>live := remove1 (g c) (live (pmem w))\<rparr>"
  let ?w = "upd_cpu c (\<lambda>s. s\<lparr>vmxon_page := None\<rparr>) (w\<lparr>pmem := ?m\<rparr>)"
  have cp: "cpus ?w = (cpus w)(c := (cpus w c)\<lparr>vmxon_page := None\<rparr>)" "pmem ?w = ?m" by (simp_all add: upd_cpu_def)
  have "mset (map g cs) \<subseteq># mset (live (pmem ?w))"
    using Cons.prems(3) by (simp add: cp(2) insert_subset_eq_iff)
  moreover have "\<forall>d \<in> set cs. vmxon_page (cpus ?w d) = Some (g d)" using Cons.prems(1,2) by (auto simp: cp(1))
  ultimately obtain m where ih: "free_areas cs ?w =
      Inr (?w\<lparr>cpus := (\<lambda>c. if c \<in> set cs then (cpus ?w c)\<lparr>vmxon_page := None\<rparr> else cpus ?w c), pmem := m\<rparr>)"
    and m: "mset (live m) = mset (live (pmem ?w)) - mset (map g cs)"
    using Cons.IH [of ?w] Cons.prems(1) by auto
  have "(\<lambda>d. if d \<in> set cs then (cpus ?w d)\<lparr>vmxon_page := None\<rparr> else cpus ?w d) =
      (\<lambda>d. if d \<in> set (c # cs) then (cpus w d)\<lparr>vmxon_page := None\<rparr> else cpus w d)"
    by (auto simp: fun_eq_iff cp(1))
  then have "free_areas (c # cs) w =
      Inr (w\<lparr>cpus := (\<lambda>c'. if c' \<in> set (c # cs) then (cpus w c')\<lparr>vmxon_page := None\<rparr> else cpus w c'), pmem := m\<rparr>)"
    using p l ih by (simp add: free_page_def upd_cpu_def)
  then show ?case using m by (auto simp: cp(2))
qed

lemma alloc_areas_ok:
  assumes "distinct (pre @ cs)" "\<forall>c \<in> set pre. vmxon_page (cpus w c) = Some (g c)"
    "\<forall>c \<in> set cs. vmxon_page (cpus w c) = None" "mset (map g pre) \<subseteq># mset (live (pmem w))"
  shows "\<exists>r w' h. alloc_areas pre cs w = Inr (r, w') \<and>
    w' = w\<lparr>cpus := cpus w', regions := regions w', pmem := pmem w'\<rparr> \<and>
    (if r = 0 then
       cpus w' = (\<lambda>c. if c \<in> set cs then (cpus w c)\<lparr>vmxon_page := Some (h c)\<rparr> else cpus w c) \<and>
       mset (live (pmem w')) = mset (live (pmem w)) + mset (map h cs)
     else
       cpus w' = (\<lambda>c. if c \<in> set pre then (cpus w c)\<lparr>vmxon_page := None\<rparr> else cpus w c) \<and>
       mset (live (pmem w')) = mset (live (pmem w)) - mset (map g pre))"
  using assms
proof (induction pre cs w arbitrary: g rule: alloc_areas.induct)
  case (1 pre w)
  show ?case by (intro exI [of _ 0] exI [of _ w]) simp
next
  case (2 pre c cs w)
  show ?case
  proof (cases "fst (alloc_page (pmem w))")
    case None
    then obtain m where a: "alloc_page (pmem w) = (None, m)" by (cases "alloc_page (pmem w)") auto
    have lm: "live m = live (pmem w)" using a by (auto simp: alloc_page_def split: list.splits option.splits)
    have sel: "cpus (w\<lparr>pmem := m\<rparr>) = cpus w" "pmem (w\<lparr>pmem := m\<rparr>) = m" "w\<lparr>pmem := m\<rparr>\<lparr>cpus := x, pmem := y\<rparr> = w\<lparr>cpus := x, pmem := y\<rparr>"
      for x y by simp_all
    obtain m' where f: "free_areas pre (w\<lparr>pmem := m\<rparr>) =
        Inr (w\<lparr>cpus := (\<lambda>c. if c \<in> set pre then (cpus w c)\<lparr>vmxon_page := None\<rparr> else cpus w c), pmem := m'\<rparr>)"
      and m': "mset (live m') = mset (live m) - mset (map g pre)"
      using free_areas_ok [of pre "w\<lparr>pmem := m\<rparr>" g, unfolded sel] 2(2,3,5) lm by auto
    let ?w' = "w\<lparr>cpus := (\<lambda>c. if c \<in> set pre then (cpus w c)\<lparr>vmxon_page := None\<rparr> else cpus w c), pmem := m'\<rparr>"
    show ?thesis using a f m' lm
      by (intro exI [of _ "- ENOMEM"] exI [of _ ?w']) auto
  next
    case (Some p)
    then obtain m where a: "alloc_page (pmem w) = (Some p, m)" by (cases "alloc_page (pmem w)") auto
    have lm: "live m = p # live (pmem w)" using a by (auto simp: alloc_page_def split: list.splits option.splits)
    let ?w = "upd_cpu c (\<lambda>s. s\<lparr>vmxon_page := Some p\<rparr>)
              (upd_region (page_to_phys p) (\<lambda>r. r\<lparr>vrev := vmcs_revision_id (glob w)\<rparr>) (w\<lparr>pmem := m\<rparr>))"
    have cp: "cpus ?w = (cpus w)(c := (cpus w c)\<lparr>vmxon_page := Some p\<rparr>)" "pmem ?w = m"
      "w\<lparr>cpus := x, regions := y, pmem := z\<rparr> = ?w\<lparr>cpus := x, regions := y, pmem := z\<rparr>" for x y z
      by (simp_all add: upd_cpu_def upd_region_def)
    have c: "c \<notin> set pre" "c \<notin> set cs" using 2(2) by auto
    let ?g = "g(c := p)"
    have mg: "map ?g pre = map g pre" using c by simp
    have prems: "distinct ((pre @ [c]) @ cs)" "\<forall>d \<in> set (pre @ [c]). vmxon_page (cpus ?w d) = Some (?g d)"
      "\<forall>d \<in> set cs. vmxon_page (cpus ?w d) = None" "mset (map ?g (pre @ [c])) \<subseteq># mset (live (pmem ?w))"
      using 2(2-5) c by (auto simp: cp(1,2) lm mg)
    obtain r w' h where ih: "alloc_areas (pre @ [c]) cs ?w = Inr (r, w')"
      "w' = ?w\<lparr>cpus := cpus w', regions := regions w', pmem := pmem w'\<rparr>"
      "if r = 0 then
         cpus w' = (\<lambda>c. if c \<in> set cs then (cpus ?w c)\<lparr>vmxon_page := Some (h c)\<rparr> else cpus ?w c) \<and>
         mset (live (pmem w')) = mset (live (pmem ?w)) + mset (map h cs)
       else
         cpus w' = (\<lambda>d. if d \<in> set (pre @ [c]) then (cpus ?w d)\<lparr>vmxon_page := None\<rparr> else cpus ?w d) \<and>
         mset (live (pmem w')) = mset (live (pmem ?w)) - mset (map ?g (pre @ [c]))"
      using "2.IH" [OF a [symmetric] refl prems] by blast
    have frame: "w' = w\<lparr>cpus := cpus w', regions := regions w', pmem := pmem w'\<rparr>"
      using ih(2) cp(3) by metis
    have step: "alloc_areas pre (c # cs) w = Inr (r, w')" using a ih(1) by simp
    have ci: "(cpus w c)\<lparr>vmxon_page := None\<rparr> = cpus w c" using 2(4) by (cases "cpus w c") simp
    show ?thesis
    proof (cases "r = 0")
      case True
      have "(\<lambda>d. if d \<in> set cs then (cpus ?w d)\<lparr>vmxon_page := Some (h d)\<rparr> else cpus ?w d) =
         (\<lambda>d. if d \<in> set (c # cs) then (cpus w d)\<lparr>vmxon_page := Some ((h(c := p)) d)\<rparr> else cpus w d)"
        using c by (auto simp: fun_eq_iff cp(1))
      then have A: "cpus w' = (\<lambda>d. if d \<in> set (c # cs) then (cpus w d)\<lparr>vmxon_page := Some ((h(c := p)) d)\<rparr> else cpus w d)"
        using ih(3) True by (simp del: fun_upd_apply)
      have "map (h(c := p)) cs = map h cs" using c by simp
      then have "mset (map (h(c := p)) (c # cs)) = add_mset p (mset (map h cs))"
        by (simp only: list.map mset.simps fun_upd_same)
      then have B: "mset (live (pmem w')) = mset (live (pmem w)) + mset (map (h(c := p)) (c # cs))"
        using ih(3) True lm by (simp only: cp(2) if_True refl) simp
      show ?thesis
        by (rule exI [of _ r], rule exI [of _ w'], rule exI [of _ "h(c := p)"], unfold if_P [OF True])
          (intro conjI step frame A B)
    next
      case False
      have "(\<lambda>d. if d \<in> set (pre @ [c]) then (cpus ?w d)\<lparr>vmxon_page := None\<rparr> else cpus ?w d) =
         (\<lambda>d. if d \<in> set pre then (cpus w d)\<lparr>vmxon_page := None\<rparr> else cpus w d)"
        using c ci by (auto simp: fun_eq_iff cp(1))
      then have A: "cpus w' = (\<lambda>d. if d \<in> set pre then (cpus w d)\<lparr>vmxon_page := None\<rparr> else cpus w d)"
        using ih(3) False by simp
      have B: "mset (live (pmem w')) = mset (live (pmem w)) - mset (map g pre)"
        using ih(3) False lm mg by (simp add: cp(2))
      show ?thesis
        by (rule exI [of _ r], rule exI [of _ w'], rule exI [of _ h], unfold if_not_P [OF False])
          (intro conjI step frame A B)
    qed
  qed
qed

lemma alloc_areas_all:
  assumes "distinct cs" "\<forall>c \<in> set cs. vmxon_page (cpus w c) = None"
  shows "\<exists>r w' h. alloc_areas [] cs w = Inr (r, w') \<and>
    w' = w\<lparr>cpus := cpus w', regions := regions w', pmem := pmem w'\<rparr> \<and>
    (if r = 0 then
       cpus w' = (\<lambda>c. if c \<in> set cs then (cpus w c)\<lparr>vmxon_page := Some (h c)\<rparr> else cpus w c) \<and>
       mset (live (pmem w')) = mset (live (pmem w)) + mset (map h cs)
     else cpus w' = cpus w \<and> mset (live (pmem w')) = mset (live (pmem w)))"
proof -
  have d: "distinct ([] @ cs)" using assms(1) by simp
  obtain r w' h where *: "alloc_areas [] cs w = Inr (r, w')" "w' = w\<lparr>cpus := cpus w', regions := regions w', pmem := pmem w'\<rparr>"
    "if r = 0 then
       cpus w' = (\<lambda>c. if c \<in> set cs then (cpus w c)\<lparr>vmxon_page := Some (h c)\<rparr> else cpus w c) \<and>
       mset (live (pmem w')) = mset (live (pmem w)) + mset (map h cs)
     else
       cpus w' = (\<lambda>c. if c \<in> set [] then (cpus w c)\<lparr>vmxon_page := None\<rparr> else cpus w c) \<and>
       mset (live (pmem w')) = mset (live (pmem w)) - mset (map (\<lambda>_. 0) [])"
    using alloc_areas_ok [OF d _ assms(2), of "\<lambda>_. 0"] by (simp only: list.set ball_simps list.map mset.simps empty_le simp_thms) blast
  show ?thesis
  proof (cases "r = 0")
    case True
    then show ?thesis using * by (intro exI [of _ r] exI [of _ w'] exI [of _ h]) simp
  next
    case False
    then show ?thesis using * by (intro exI [of _ r] exI [of _ w'] exI) simp
  qed
qed

section \<open>Loading and unloading\<close>

definition hw_clean :: "hw_params \<Rightarrow> mk_world \<Rightarrow> bool" where
  "hw_clean hp w \<longleftrightarrow> distinct (possible hp) \<and> \<not> vmx_enabled (glob w) \<and>
     (\<forall>c. \<not> vmxon_done (cpus w c) \<and> vmxon_page (cpus w c) = None \<and>
          (\<not> in_vmx (cpus w c) \<longrightarrow> current_vmcs (cpus w c) = None))"

definition hw_loaded :: "hw_params \<Rightarrow> mk_world \<Rightarrow> mk_world \<Rightarrow> bool" where
  "hw_loaded hp w0 w \<longleftrightarrow> vmx_enabled (glob w) \<and> online w = online w0 \<and>
     (\<exists>h. mset (live (pmem w)) = mset (live (pmem w0)) + mset (map h (possible hp)) \<and>
       cpus w = (\<lambda>c. let s = (if c \<in> set (possible hp) then (cpus w0 c)\<lparr>vmxon_page := Some (h c)\<rparr> else cpus w0 c)
                     in if online w0 c \<and> c \<in> set (possible hp) then vmx_on s else s)) \<and>
     (\<forall>c. online w0 c \<and> c \<in> set (possible hp) \<longrightarrow> vmx_idle (cpus w0 c))"

definition hw_restored :: "mk_world \<Rightarrow> mk_world \<Rightarrow> bool" where
  "hw_restored w0 w \<longleftrightarrow> cpus w = cpus w0 \<and> mset (live (pmem w)) = mset (live (pmem w0)) \<and> \<not> vmx_enabled (glob w)"

lemma page_idem: "vmxon_page s = None \<Longrightarrow> s\<lparr>vmxon_page := x\<rparr>\<lparr>vmxon_page := None\<rparr> = s"
  by (cases s) simp

lemma idle_page [simp]: "vmx_idle (s\<lparr>vmxon_page := x\<rparr>) = vmx_idle s"
  by (simp add: vmx_idle_def)

lemma off_on_page:
  "vmx_idle s \<Longrightarrow> vmx_off (vmx_on s) = s" "vmxon_done (vmx_on s)" "vmxon_page (vmx_on s) = vmxon_page s"
  by (rule vmx_off_on) (simp_all add: vmx_on_def)

lemma disable_restores:
  assumes E: "E \<subseteq> set cs" "\<forall>c \<in> E. vmx_idle (f c)" "\<forall>c. \<not> vmxon_done (f c)" "d = (\<lambda>c. if c \<in> E then vmx_on (f c) else f c)"
  shows "(\<lambda>c. if c \<in> set cs \<and> vmxon_done (d c) then vmx_off (d c) else d c) = f"
  using E off_on_page(1,2) by (auto simp: fun_eq_iff)

lemma enable_all_cases:
  assumes cl: "hw_clean hp w"
  shows "\<exists>r w'. mini_vmx_hardware_enable_all hp w = Inr (r, w') \<and>
    (if r = 0 then hw_loaded hp w w' else hw_restored w w')"
proof -
  have d: "distinct ([] @ possible hp)" and nopage: "\<forall>c \<in> set (possible hp). vmxon_page (cpus w c) = None"
    using cl by (simp_all add: hw_clean_def)
  obtain r w1 h where al: "alloc_areas [] (possible hp) w = Inr (r, w1)"
    and fr: "w1 = w\<lparr>cpus := cpus w1, regions := regions w1, pmem := pmem w1\<rparr>"
    and ar: "if r = 0 then
       cpus w1 = (\<lambda>c. if c \<in> set (possible hp) then (cpus w c)\<lparr>vmxon_page := Some (h c)\<rparr> else cpus w c) \<and>
       mset (live (pmem w1)) = mset (live (pmem w)) + mset (map h (possible hp))
     else cpus w1 = cpus w \<and> mset (live (pmem w1)) = mset (live (pmem w))"
    using alloc_areas_all [of "possible hp" w] d nopage by auto
  have g1: "glob w1 = glob w" "online w1 = online w" by (subst fr, simp)+
  show ?thesis
  proof (cases "r = 0")
    case False
    then have "hw_restored w w1" using ar cl g1 by (simp add: hw_restored_def hw_clean_def)
    then show ?thesis using False al by (intro exI [of _ r] exI [of _ w1]) (simp add: mini_vmx_hardware_enable_all_def)
  next
    case True
    let ?f = "\<lambda>c. if c \<in> set (possible hp) then (cpus w c)\<lparr>vmxon_page := Some (h c)\<rparr> else cpus w c"
    let ?cs = "filter (online w) (possible hp)"
    let ?w1 = "w1\<lparr>glob := (glob w1)\<lparr>enable_err := 0, vmx_enable_count := 0\<rparr>\<rparr>"
    have f: "cpus w1 = ?f" and l1: "mset (live (pmem w1)) = mset (live (pmem w)) + mset (map h (possible hp))"
      using ar True by simp_all
    have fd: "\<forall>c. \<not> vmxon_done (?f c)" using cl by (simp add: hw_clean_def)
    have dc: "distinct ?cs" using d by simp
    have pre: "\<forall>c \<in> set ?cs. vmxon_page (cpus ?w1 c) \<noteq> None"
      "\<forall>c \<in> set ?cs. \<not> vmxon_done (cpus ?w1 c) \<and> (\<not> in_vmx (cpus ?w1 c) \<longrightarrow> current_vmcs (cpus ?w1 c) = None)"
      using cl by (simp_all add: f hw_clean_def)
    have sel: "cpus ?w1 = ?f" by (simp add: f)
    obtain E e n where en: "on_cpus ?cs (mini_vmx_enable_one hp) ?w1 =
        Inr (?w1\<lparr>cpus := (\<lambda>c. if c \<in> E then vmx_on (?f c) else ?f c),
               glob := (glob ?w1)\<lparr>enable_err := e, vmx_enable_count := n\<rparr>\<rparr>)"
      and E: "E \<subseteq> set ?cs" "\<forall>c \<in> E. vmx_idle (?f c)" "e = 0 \<longrightarrow> enable_err (glob ?w1) = 0 \<and> E = set ?cs"
      using enable_each [OF dc pre, unfolded sel] by blast
    let ?d = "\<lambda>c. if c \<in> E then vmx_on (?f c) else ?f c"
    let ?w2 = "w1\<lparr>cpus := ?d, glob := (glob w)\<lparr>enable_err := e, vmx_enable_count := n\<rparr>\<rparr>"
    have step: "mini_vmx_hardware_enable_all hp w = (if e \<noteq> 0 then
         rbind (on_cpus ?cs (\<lambda>w. Inr (mini_vmx_disable_one w)) ?w2) (\<lambda>w3.
         rbind (free_areas (possible hp) w3) (\<lambda>w4. Inr (e, w4)))
       else Inr (0, ?w2\<lparr>glob := (glob ?w2)\<lparr>vmx_enabled := True\<rparr>\<rparr>))"
      using al True en g1 by (simp add: mini_vmx_hardware_enable_all_def on_each_cpu_def)
    note E2 = E(2)
    show ?thesis
    proof (cases "e = 0")
      case True
      have "hw_loaded hp w (?w2\<lparr>glob := (glob ?w2)\<lparr>vmx_enabled := True\<rparr>\<rparr>)"
        unfolding hw_loaded_def
      proof (intro conjI exI [of _ h])
        show "cpus (?w2\<lparr>glob := (glob ?w2)\<lparr>vmx_enabled := True\<rparr>\<rparr>) =
          (\<lambda>c. let s = ?f c in if online w c \<and> c \<in> set (possible hp) then vmx_on s else s)"
          using E(3) True by (auto simp: fun_eq_iff Let_def)
        show "\<forall>c. online w c \<and> c \<in> set (possible hp) \<longrightarrow> vmx_idle (cpus w c)"
          using E(3) E2 True by auto
      qed (simp_all add: g1 l1)
      then show ?thesis using step True
        by (intro exI [of _ 0] exI [of _ "?w2\<lparr>glob := (glob ?w2)\<lparr>vmx_enabled := True\<rparr>\<rparr>"]) simp
    next
      case False
      obtain n' where dis: "on_cpus ?cs (\<lambda>w. Inr (mini_vmx_disable_one w)) ?w2 =
          Inr (?w2\<lparr>cpus := (\<lambda>c. if c \<in> set ?cs \<and> vmxon_done (cpus ?w2 c) then vmx_off (cpus ?w2 c) else cpus ?w2 c),
               glob := (glob ?w2)\<lparr>vmx_enable_count := n'\<rparr>\<rparr>)"
        using disable_each [OF dc] by blast
      have sel2: "cpus ?w2 = ?d" by simp
      have r: "(\<lambda>c. if c \<in> set ?cs \<and> vmxon_done (cpus ?w2 c) then vmx_off (cpus ?w2 c) else cpus ?w2 c) = ?f"
        unfolding sel2
        by (rule disable_restores [OF E(1) E2 fd refl])
      let ?w3 = "?w2\<lparr>cpus := ?f, glob := (glob ?w2)\<lparr>vmx_enable_count := n'\<rparr>\<rparr>"
      have dis3: "on_cpus ?cs (\<lambda>w. Inr (mini_vmx_disable_one w)) ?w2 = Inr ?w3" using dis unfolding r .
      have c3: "cpus ?w3 = ?f" "pmem ?w3 = pmem w1" by simp_all
      have "\<forall>c \<in> set (possible hp). vmxon_page (cpus ?w3 c) = Some (h c)" by (simp add: c3)
      then obtain m where fa: "free_areas (possible hp) ?w3 =
          Inr (?w3\<lparr>cpus := (\<lambda>c. if c \<in> set (possible hp) then (cpus ?w3 c)\<lparr>vmxon_page := None\<rparr> else cpus ?w3 c), pmem := m\<rparr>)"
        and m: "mset (live m) = mset (live (pmem ?w3)) - mset (map h (possible hp))"
        using free_areas_ok [of "possible hp" ?w3 h] d l1 by auto
      let ?w4 = "?w3\<lparr>cpus := (\<lambda>c. if c \<in> set (possible hp) then (cpus ?w3 c)\<lparr>vmxon_page := None\<rparr> else cpus ?w3 c), pmem := m\<rparr>"
      have "cpus ?w4 = cpus w"
        using nopage page_idem by (auto simp: fun_eq_iff c3)
      then have "hw_restored w ?w4"
        using m l1 cl by (simp add: hw_restored_def hw_clean_def)
      then show ?thesis using step False dis3 fa by (intro exI [of _ e] exI [of _ ?w4]) simp
    qed
  qed
qed


lemma disable_all_restores:
  assumes cl: "hw_clean hp w0" and ld: "hw_loaded hp w0 w"
  shows "\<exists>w'. mini_vmx_hardware_disable_all hp w = Inr w' \<and> hw_restored w0 w'"
proof -
  obtain h where l: "mset (live (pmem w)) = mset (live (pmem w0)) + mset (map h (possible hp))"
    and cp: "cpus w = (\<lambda>c. let s = (if c \<in> set (possible hp) then (cpus w0 c)\<lparr>vmxon_page := Some (h c)\<rparr> else cpus w0 c)
                     in if online w0 c \<and> c \<in> set (possible hp) then vmx_on s else s)"
    and idle: "\<forall>c. online w0 c \<and> c \<in> set (possible hp) \<longrightarrow> vmx_idle (cpus w0 c)"
    and on: "online w = online w0" "vmx_enabled (glob w)"
    using ld unfolding hw_loaded_def by blast
  let ?f = "\<lambda>c. if c \<in> set (possible hp) then (cpus w0 c)\<lparr>vmxon_page := Some (h c)\<rparr> else cpus w0 c"
  let ?cs = "filter (online w0) (possible hp)"
  have d: "distinct (possible hp)" and nopage: "\<forall>c. vmxon_page (cpus w0 c) = None" using cl by (simp_all add: hw_clean_def)
  have dc: "distinct ?cs" using d by simp
  have cpw: "cpus w = (\<lambda>c. if c \<in> set ?cs then vmx_on (?f c) else ?f c)"
    by (auto simp: cp fun_eq_iff Let_def)
  have fi: "\<forall>c \<in> set ?cs. vmx_idle (?f c)" "\<forall>c. \<not> vmxon_done (?f c)" using idle cl by (simp_all add: hw_clean_def)
  obtain n where dis: "on_cpus ?cs (\<lambda>w. Inr (mini_vmx_disable_one w)) w =
      Inr (w\<lparr>cpus := (\<lambda>c. if c \<in> set ?cs \<and> vmxon_done (cpus w c) then vmx_off (cpus w c) else cpus w c),
             glob := (glob w)\<lparr>vmx_enable_count := n\<rparr>\<rparr>)"
    using disable_each [OF dc] by blast
  let ?w1 = "w\<lparr>cpus := ?f, glob := (glob w)\<lparr>vmx_enable_count := n\<rparr>\<rparr>"
  have dis1: "on_cpus ?cs (\<lambda>w. Inr (mini_vmx_disable_one w)) w = Inr ?w1"
    using dis unfolding disable_restores [OF subset_refl fi cpw] .
  have c1: "cpus ?w1 = ?f" "pmem ?w1 = pmem w" by simp_all
  have all: "filter (has_area ?w1) (possible hp) = possible hp"
    by (rule filter_True) (simp add: has_area_def)
  have "\<forall>c \<in> set (possible hp). vmxon_page (cpus ?w1 c) = Some (h c)" by (simp add: c1)
  then obtain m where fa: "free_areas (possible hp) ?w1 =
      Inr (?w1\<lparr>cpus := (\<lambda>c. if c \<in> set (possible hp) then (cpus ?w1 c)\<lparr>vmxon_page := None\<rparr> else cpus ?w1 c), pmem := m\<rparr>)"
    and m: "mset (live m) = mset (live (pmem ?w1)) - mset (map h (possible hp))"
    using free_areas_ok [of "possible hp" ?w1 h] d l by auto
  let ?w2 = "?w1\<lparr>cpus := (\<lambda>c. if c \<in> set (possible hp) then (cpus ?w1 c)\<lparr>vmxon_page := None\<rparr> else cpus ?w1 c), pmem := m\<rparr>"
  have "cpus ?w2 = cpus w0" using nopage page_idem by (auto simp: fun_eq_iff c1)
  then have "hw_restored w0 (?w2\<lparr>glob := (glob ?w2)\<lparr>vmx_enabled := False\<rparr>\<rparr>)"
    using m l by (simp add: hw_restored_def)
  moreover have "mini_vmx_hardware_disable_all hp w = Inr (?w2\<lparr>glob := (glob ?w2)\<lparr>vmx_enabled := False\<rparr>\<rparr>)"
    unfolding mini_vmx_hardware_disable_all_def on_each_cpu_def on(1) dis1 rbind_Inr all fa using on(2) by simp
  ultimately show ?thesis by blast
qed

lemma read_capabilities_frame:
  assumes "mini_vmx_read_capabilities hp w = (r, w1)"
  shows "cpus w1 = cpus w" "online w1 = online w" "pmem w1 = pmem w" "vmx_enabled (glob w1) = vmx_enabled (glob w)"
  using assms by (auto simp: mini_vmx_read_capabilities_def Let_def split: if_splits)

lemma init_cases:
  assumes cl: "hw_clean hp w"
  shows "\<exists>r w'. mini_kvm_init reg hp w = Inr (r, w') \<and> (if r = 0 then hw_loaded hp w w' else hw_restored w w')"
proof -
  obtain r1 w1 where c: "mini_vmx_read_capabilities hp w = (r1, w1)" by (cases "mini_vmx_read_capabilities hp w")
  note fr = read_capabilities_frame [OF c]
  have cl1: "hw_clean hp w1" and ld: "hw_loaded hp w1 = hw_loaded hp w" and rs: "hw_restored w1 = hw_restored w"
    using cl by (simp_all add: hw_clean_def hw_loaded_def hw_restored_def fr fun_eq_iff)
  have un: "hw_restored w w1" using cl by (simp add: hw_restored_def hw_clean_def fr)
  obtain r2 w2 where e: "mini_vmx_hardware_enable_all hp w1 = Inr (r2, w2)"
    "if r2 = 0 then hw_loaded hp w w2 else hw_restored w w2"
    using enable_all_cases [OF cl1] unfolding ld rs by blast
  show ?thesis
  proof (cases "r1 = 0 \<and> r2 = 0 \<and> reg \<noteq> 0")
    case True
    then have "hw_loaded hp w1 w2" using e(2) ld by simp
    from disable_all_restores [OF cl1 this] obtain w3 where "mini_vmx_hardware_disable_all hp w2 = Inr w3" "hw_restored w w3"
      unfolding rs by blast
    then show ?thesis using True c e(1) by (intro exI [of _ reg] exI [of _ w3]) (simp add: mini_kvm_init_def)
  next
    case False
    then show ?thesis using c e un
      by (cases "r1 = 0"; cases "r2 = 0") (auto simp: mini_kvm_init_def)
  qed
qed

section \<open>Properties of loading\<close>


text \<open>Taking a CPU down and up again resets it: it is no longer in VMX operation.\<close>

definition cpu_replug :: "nat \<Rightarrow> mk_world \<Rightarrow> mk_world" where
  "cpu_replug c w = upd_cpu c (\<lambda>s. s\<lparr>in_vmx := False, current_vmcs := None, cr4 := cr4 s AND NOT X86_CR4_VMXE\<rparr>) w"

text \<open>
  A CPU that goes offline and comes back while the module is loaded has left VMX operation, but
  its flag still says it is in it: the check that guards the VMX instructions passes there and
  the next one is rejected by the processor.
\<close>

theorem replugged_cpu_faults:
  assumes "hw_clean hp w" "mini_kvm_init reg hp w = Inr (0, w')" "online w c" "c \<in> set (possible hp)"
  shows "mini_cpu_in_vmx_operation ((cpu_replug c w')\<lparr>cur_cpu := c\<rparr>) \<and>
    mini_vmptrld p ((cpu_replug c w')\<lparr>cur_cpu := c\<rparr>) = Inl InvalidOpcode"
proof -
  have "hw_loaded hp w w'" using init_cases [OF assms(1), of reg] assms(2) by auto
  then have "vmxon_done (cpus w' c)" using assms(3,4) by (auto simp: hw_loaded_def vmx_on_def Let_def)
  then show ?thesis
    by (simp add: mini_cpu_in_vmx_operation_def cpu_replug_def upd_cpu_def mini_vmptrld_def in_operation_def)
qed

definition ex_hw :: hw_params where
  "ex_hw = \<lparr>possible = [1, 0, 2], cpuid1_ecx = (\<lambda>_. 0x20), err_seen = (\<lambda>_. False), vmxon_faults = (\<lambda>_. False)\<rparr>"

definition ex_boot :: mk_world where
  "ex_boot = ex_world\<lparr>cpus := (\<lambda>_. \<lparr>in_vmx = False, vmxon_done = False, vmxon_page = None, cr4 = 0x20,
       current_vmcs = None, msr = ex_msrs\<rparr>), online := (\<lambda>c. c < 2),
     glob := \<lparr>vmx_enabled = False, vmcs_revision_id = 0, true_ctls = False, ept_vpid_cap = 0,
       enable_err = 0, vmx_enable_count = 0\<rparr>\<rparr>"

lemma ex_boot_clean: "hw_clean ex_hw ex_boot"
  by (simp add: hw_clean_def ex_boot_def ex_hw_def)


definition ex_loaded :: mk_world where
  "ex_loaded = (case mini_kvm_init 0 ex_hw ex_boot of Inr (r, w) \<Rightarrow> w | Inl _ \<Rightarrow> ex_boot)"

lemma ex_init: "(case mini_kvm_init 0 ex_hw ex_boot of Inr (r, w) \<Rightarrow> r | Inl _ \<Rightarrow> 1) = 0"
  by code_simp

lemma ex_init_loaded: "mini_kvm_init 0 ex_hw ex_boot = Inr (0, ex_loaded)"
  using ex_init by (auto simp: ex_loaded_def split: sum.splits prod.splits)


theorem replugged_cpu_faults_witness:
  "mini_vmptrld 0xa000 ((cpu_replug 1 ex_loaded)\<lparr>cur_cpu := 1\<rparr>) = Inl InvalidOpcode"
proof -
  have "online ex_boot 1" "1 \<in> set (possible ex_hw)" by (simp_all add: ex_boot_def ex_hw_def)
  then show ?thesis using replugged_cpu_faults [OF ex_boot_clean ex_init_loaded] by blast
qed

end
