(* ===== verification/MiniRun.thy ===== *)
theory MiniRun
  imports MiniVmx
begin

text \<open>
  Running a virtual CPU of \<open>mini-kvm\<close>: interrupt injection (\<open>interrupt.c\<close>), the I/O exit and the
  serial capture (\<open>device.c\<close>), INVEPT (\<open>ept.c\<close>) and the loop behind \<open>KVM_RUN\<close> (\<open>vcpu.c\<close>).  What the guest
  does between an entry and an exit is the environment: a list of exits, each with the registers
  and the VMCS fields the processor stored.
\<close>

section \<open>State\<close>

record mini_kvm =
  vm_id :: int
  refcount :: nat
  kslot :: mini_slot
  kept :: mini_ept
  kserial :: "u8 list"
  serial_len :: nat
  kvcpu :: "nat option"

text \<open>\<open>klog\<close> are the guest lines printed to the kernel log, \<open>invepts\<close> the CPUs an all-context INVEPT ran on.\<close>

record rs =
  rw :: mk_world
  rk :: mini_kvm
  rv :: mini_vcpu
  klog :: "u8 list list"
  invepts :: "nat list"

abbreviation (input) EPROTO :: int where "EPROTO \<equiv> 71"
abbreviation (input) KVM_EXIT_HLT :: u32 where "KVM_EXIT_HLT \<equiv> 5"
abbreviation (input) KVM_EXIT_SHUTDOWN :: u32 where "KVM_EXIT_SHUTDOWN \<equiv> 8"
abbreviation (input) KVM_EXIT_INTERNAL_ERROR :: u32 where "KVM_EXIT_INTERNAL_ERROR \<equiv> 17"

text \<open>
  A VMREAD into a variable: without a result it keeps its old value, which for most callers is 0
  and for some nothing at all.
\<close>

definition rd :: "u32 \<Rightarrow> rs \<Rightarrow> (u64 \<Rightarrow> 'a res) \<Rightarrow> 'a res" where
  "rd f s k = rbind (mini_vmread f (rw s)) (\<lambda>r. case r of None \<Rightarrow> Inl Uninit | Some x \<Rightarrow> k x)"

definition rd0 :: "u32 \<Rightarrow> rs \<Rightarrow> (u64 \<Rightarrow> 'a res) \<Rightarrow> 'a res" where
  "rd0 f s k = rbind (mini_vmread f (rw s)) (\<lambda>r. case r of None \<Rightarrow> k 0 | Some x \<Rightarrow> k x)"

definition wr :: "u32 \<Rightarrow> u64 \<Rightarrow> rs \<Rightarrow> (rs \<Rightarrow> 'a res) \<Rightarrow> 'a res" where
  "wr f x s k = rbind (mini_vmwrite f x (rw s)) (\<lambda>(_, w). k (s\<lparr>rw := w\<rparr>))"

definition upd_v :: "(mini_vcpu \<Rightarrow> mini_vcpu) \<Rightarrow> rs \<Rightarrow> rs" where
  "upd_v f s = s\<lparr>rv := f (rv s)\<rparr>"

section \<open>Interrupt injection\<close>

abbreviation (input) INTR_INFO_VALID_MASK :: u32 where "INTR_INFO_VALID_MASK \<equiv> 0x80000000"
abbreviation (input) INTR_TYPE_EXT_INTR :: u32 where "INTR_TYPE_EXT_INTR \<equiv> 0"
abbreviation (input) INTR_TYPE_NMI_INTR :: u32 where "INTR_TYPE_NMI_INTR \<equiv> 0x200"

definition mini_vcpu_inject_irq :: "int \<Rightarrow> mini_vcpu \<Rightarrow> int \<times> mini_vcpu" where
  "mini_vcpu_inject_irq vector v =
     (if vector < 0 \<or> vector > 255 then (- EINVAL, v)
      else if vector < 32 then (- EINVAL, v)
      else if pending_intr_info v \<noteq> 0 then (- EBUSY, v)
      else (0, v\<lparr>pending_intr_info := INTR_INFO_VALID_MASK OR INTR_TYPE_EXT_INTR OR word_of_int vector\<rparr>))"

definition mini_vcpu_take_intr_info :: "mini_vcpu \<Rightarrow> u32 \<times> mini_vcpu" where
  "mini_vcpu_take_intr_info v = (pending_intr_info v, v\<lparr>pending_intr_info := 0\<rparr>)"

definition mini_vcpu_complete_intr_info :: "rs \<Rightarrow> rs res" where
  "mini_vcpu_complete_intr_info s =
     (let s1 = upd_v (\<lambda>v. v\<lparr>pending_intr_info := 0\<rparr>) s in
      rd0 IDT_VECTORING_INFO_FIELD s1 (\<lambda>idtv.
        if idtv AND 0x80000000 = 0 then Inr s1
        else if drop_bit 8 idtv AND 7 = ucast INTR_TYPE_EXT_INTR then
          Inr (upd_v (\<lambda>v. v\<lparr>pending_intr_info :=
            INTR_INFO_VALID_MASK OR INTR_TYPE_EXT_INTR OR ucast (idtv AND 0xff)\<rparr>) s1)
        else Inr s1))"

definition mini_vcpu_reinject_nmi :: "rs \<Rightarrow> rs res" where
  "mini_vcpu_reinject_nmi s =
     rd0 GUEST_INTERRUPTIBILITY_INFO s (\<lambda>ib.
       if ib AND 8 \<noteq> 0 then Inr s
       else if pending_intr_info (rv s) \<noteq> 0 then Inr s
       else Inr (upd_v (\<lambda>v. v\<lparr>pending_intr_info := INTR_INFO_VALID_MASK OR INTR_TYPE_NMI_INTR OR 2\<rparr>) s))"

section \<open>I/O exits and the serial capture\<close>

abbreviation (input) SERIAL_SIZE :: nat where "SERIAL_SIZE \<equiv> 512"

text \<open>The search for the start of the last line goes down from \<open>i - 1\<close>.\<close>

fun line_start :: "u8 list \<Rightarrow> nat \<Rightarrow> nat" where
  "line_start buf 0 = 0"
| "line_start buf (Suc i) = (if buf ! i = 10 then Suc i else line_start buf i)"

definition mini_serial_out :: "u8 \<Rightarrow> rs \<Rightarrow> rs res" where
  "mini_serial_out c s =
     (let k = rk s;
          k1 = (if serial_len k < SERIAL_SIZE - 1
                then k\<lparr>kserial := (kserial k)[serial_len k := c], serial_len := serial_len k + 1\<rparr> else k);
          s1 = s\<lparr>rk := k1\<rparr>
      in if c \<noteq> 10 then Inr s1
         else
           (let start = line_start (kserial k1) (serial_len k1 - 1);
                len = serial_len k1 - start
            in if start + len \<le> length (kserial k1) \<and> len < SERIAL_SIZE + 1
               then Inr (s1\<lparr>klog := klog s1 @ [take len (drop start (kserial k1))]\<rparr>)
               else Inl OutOfBounds))"

definition set_reg :: "nat \<Rightarrow> u64 \<Rightarrow> mini_vcpu \<Rightarrow> mini_vcpu" where
  "set_reg i x v = v\<lparr>regs := (regs v)[i := x]\<rparr>"

definition io_advance :: "rs \<Rightarrow> (int \<times> rs) res" where
  "io_advance s =
     rd VM_EXIT_INSTRUCTION_LEN s (\<lambda>len.
     rd GUEST_RIP s (\<lambda>rip.
     wr GUEST_RIP (rip + len) s (\<lambda>s1.
     Inr (0, upd_v (\<lambda>v. v\<lparr>n_io_exits := n_io_exits v + 1\<rparr>) s1))))"

definition mini_handle_io_exit :: "rs \<Rightarrow> (int \<times> rs) res" where
  "mini_handle_io_exit s =
     rd EXIT_QUALIFICATION s (\<lambda>qual.
       if qual AND 0x10 \<noteq> 0 then Inr (- EIO, s)
       else
         (let size = ucast (qual AND 7) + (1 :: u32);
              port = (ucast (drop_bit 16 qual) :: u32) AND 0xffff
          in if qual AND 8 \<noteq> 0 then io_advance (upd_v (set_reg 0 0) s)
             else
               (let msk = (if size = 1 then 0xff else if size = 2 then 0xffff else 0xffffffff);
                    val = (ucast (regs (rv s) ! 0) :: u32) AND msk
                in rbind (if port = 0x3f8 then mini_serial_out (ucast val) s else Inr s) io_advance)))"

section \<open>EPT violations and INVEPT\<close>

definition mini_invept :: "rs \<Rightarrow> (int \<times> rs) res" where
  "mini_invept s =
     (if \<not> mini_cpu_in_vmx_operation (rw s) then Inr (- ENODEV, s)
      else in_operation (rw s) (\<lambda>w. Inr (0, s\<lparr>invepts := cur_cpu w # invepts s\<rparr>)))"

definition mini_ept_invept_global :: "rs \<Rightarrow> (int \<times> rs) res" where
  "mini_ept_invept_global s = mini_invept s"

definition handle_ept_violation :: "rs \<Rightarrow> (int \<times> rs) res" where
  "handle_ept_violation s =
     rd GUEST_PHYSICAL_ADDRESS s (\<lambda>gpa.
       rbind (mini_ept_handle_violation gpa (kslot (rk s)) (kept (rk s)) (pmem (rw s)) (n_ept_violations (rv s)))
         (\<lambda>(r, e, m, n). Inr (r, s\<lparr>rk := (rk s)\<lparr>kept := e\<rparr>, rw := (rw s)\<lparr>pmem := m\<rparr>,
                                   rv := (rv s)\<lparr>n_ept_violations := n\<rparr>\<rparr>)))"

section \<open>Entering the guest\<close>

text \<open>
  One exit: the fields the processor stored in the VMCS, the guest's registers, and the value
  SWAPGS left in \<open>IA32_KERNEL_GS_BASE\<close>; or, with \<open>ev_fail\<close>, an entry that fails its checks
  on controls or host state.
\<close>

record exit_event =
  ev_fail :: bool
  ev_fields :: "(u32 \<times> u64) list"
  ev_regs :: "u64 list"
  ev_kgs :: u64

text \<open>
  \<open>vmx_entry.S\<close> around VMLAUNCH or VMRESUME.  The instruction fails without a current VMCS or when it
  does not fit the launch state.  The launch state becomes \<open>launched\<close> only by an entry that
  succeeds: bit 31 of the exit reason reports one that failed on the guest state.
\<close>

definition mini_vmx_enter :: "exit_event \<Rightarrow> rs \<Rightarrow> (int \<times> rs) res" where
  "mini_vmx_enter e s = in_operation (rw s) (\<lambda>w.
     case current_vmcs (this_cpu w) of
       None \<Rightarrow> Inr (1, s)
     | Some p \<Rightarrow>
         if ev_fail e \<or> vlaunched (regions w p) \<noteq> launched (rv s) then Inr (1, s)
         else
           (let fs = store_fields (ev_fields e) (vfield (regions w p));
                failed = bit (fs VM_EXIT_REASON) 31;
                w1 = upd_region p (\<lambda>r. r\<lparr>vfield := fs, vlaunched := (vlaunched r \<or> \<not> failed)\<rparr>) w;
                w2 = mini_wrmsr MSR_KERNEL_GS_BASE (ev_kgs e) w1
            in Inr (0, s\<lparr>rw := w2, rv := (rv s)\<lparr>regs := (ev_regs e)[4 := regs (rv s) ! 4]\<rparr>\<rparr>)))"

definition local_irq :: "bool \<Rightarrow> rs \<Rightarrow> rs" where
  "local_irq b s = s\<lparr>rw := (rw s)\<lparr>irqs_on := b\<rparr>\<rparr>"

section \<open>One turn of the run loop\<close>

datatype turn = Again rs | Leave int rs

definition leave :: "int \<Rightarrow> u32 \<Rightarrow> rs \<Rightarrow> turn res" where
  "leave r why s = Inr (Leave r (local_irq True (upd_v (\<lambda>v. v\<lparr>run_exit_reason := why\<rparr>) s)))"

definition inject_pending :: "rs \<Rightarrow> rs res" where
  "inject_pending s =
     (case mini_vcpu_take_intr_info (rv s) of (intr, v) \<Rightarrow>
      let s1 = s\<lparr>rv := v\<rparr> in
      rbind (if intr \<noteq> 0 then
          rd0 GUEST_RFLAGS s1 (\<lambda>rflags.
          wr GUEST_RFLAGS (rflags OR 0x200) s1 (\<lambda>s2.
          rd0 GUEST_INTERRUPTIBILITY_INFO s2 (\<lambda>ib.
          wr GUEST_INTERRUPTIBILITY_INFO (ib AND NOT 3) s2 (\<lambda>s3.
          Inr (upd_v (\<lambda>v. v\<lparr>n_injected := n_injected v + 1\<rparr>) s3)))))
        else Inr s1) (\<lambda>s4.
      wr VM_ENTRY_INTR_INFO_FIELD (ucast intr) s4 Inr))"

abbreviation (input) EXIT_REASON_EXCEPTION_NMI :: u32 where "EXIT_REASON_EXCEPTION_NMI \<equiv> 0"
abbreviation (input) EXIT_REASON_EXTERNAL_INTERRUPT :: u32 where "EXIT_REASON_EXTERNAL_INTERRUPT \<equiv> 1"
abbreviation (input) EXIT_REASON_TRIPLE_FAULT :: u32 where "EXIT_REASON_TRIPLE_FAULT \<equiv> 2"
abbreviation (input) EXIT_REASON_CPUID :: u32 where "EXIT_REASON_CPUID \<equiv> 10"
abbreviation (input) EXIT_REASON_HLT :: u32 where "EXIT_REASON_HLT \<equiv> 12"
abbreviation (input) EXIT_REASON_IO_INSTRUCTION :: u32 where "EXIT_REASON_IO_INSTRUCTION \<equiv> 30"
abbreviation (input) EXIT_REASON_EPT_VIOLATION :: u32 where "EXIT_REASON_EPT_VIOLATION \<equiv> 48"

definition exit_nmi :: "rs \<Rightarrow> turn res" where
  "exit_nmi s =
     rd0 VM_EXIT_INTR_INFO s (\<lambda>info.
       if info AND 0x700 = ucast INTR_TYPE_NMI_INTR \<and> info AND 0xff = 2 then
         rbind (mini_vcpu_reinject_nmi (upd_v (\<lambda>v. v\<lparr>n_nmi_exits := n_nmi_exits v + 1\<rparr>) s)) (\<lambda>s1. Inr (Again s1))
       else leave (- EIO) KVM_EXIT_INTERNAL_ERROR s)"

definition exit_io :: "rs \<Rightarrow> turn res" where
  "exit_io s =
     rbind (mini_handle_io_exit (local_irq True s)) (\<lambda>(r, s1).
       let s2 = local_irq False s1 in
       if r \<noteq> 0 then leave r KVM_EXIT_INTERNAL_ERROR s2 else Inr (Again s2))"

definition exit_ept :: "rs \<Rightarrow> turn res" where
  "exit_ept s =
     rbind (handle_ept_violation s) (\<lambda>(r, s1).
       if r \<noteq> 0 then leave r KVM_EXIT_INTERNAL_ERROR s1 else Inr (Again s1))"

definition exit_cpuid :: "rs \<Rightarrow> turn res" where
  "exit_cpuid s =
     (let s1 = upd_v (set_reg 0 0) s in
      rd0 GUEST_RIP s1 (\<lambda>rip.
      rd0 VM_EXIT_INSTRUCTION_LEN s1 (\<lambda>len.
      wr GUEST_RIP (rip + len) s1 (\<lambda>s2. Inr (Again s2)))))"

definition dispatch :: "u32 \<Rightarrow> rs \<Rightarrow> turn res" where
  "dispatch reason s =
     (if reason = EXIT_REASON_EXTERNAL_INTERRUPT then
        Inr (Again (local_irq False (upd_v (\<lambda>v. v\<lparr>n_extint_exits := n_extint_exits v + 1\<rparr>) (local_irq True s))))
      else if reason = EXIT_REASON_EXCEPTION_NMI then exit_nmi s
      else if reason = EXIT_REASON_IO_INSTRUCTION then exit_io s
      else if reason = EXIT_REASON_EPT_VIOLATION then exit_ept s
      else if reason = EXIT_REASON_CPUID then exit_cpuid s
      else if reason = EXIT_REASON_HLT then
        leave 0 KVM_EXIT_HLT (upd_v (\<lambda>v. v\<lparr>n_hlt_exits := n_hlt_exits v + 1\<rparr>) s)
      else if reason = EXIT_REASON_TRIPLE_FAULT then leave 0 KVM_EXIT_SHUTDOWN s
      else leave (- EIO) KVM_EXIT_INTERNAL_ERROR s)"

definition after_enter :: "int \<Rightarrow> rs \<Rightarrow> turn res" where
  "after_enter r s =
     (if r \<noteq> 0 then leave (- EIO) KVM_EXIT_INTERNAL_ERROR s
      else
        (let s1 = upd_v (\<lambda>v. v\<lparr>launched := True, n_exits := n_exits v + 1\<rparr>) s in
         rd0 VM_EXIT_REASON s1 (\<lambda>reason64.
           let reason = (ucast reason64 :: u32) AND 0xffff in
           if reason64 AND 0x80000000 \<noteq> 0 then leave (- EIO) KVM_EXIT_INTERNAL_ERROR s1
           else rbind (mini_vcpu_complete_intr_info s1) (dispatch reason))))"

definition run_turn :: "exit_event \<Rightarrow> rs \<Rightarrow> turn res" where
  "run_turn e s =
     rbind (mini_vmx_refresh_host_state (rw s)) (\<lambda>w1.
     rbind (inject_pending (s\<lparr>rw := w1\<rparr>)) (\<lambda>s2.
     let gs_shadow = mini_rdmsr MSR_KERNEL_GS_BASE (rw s2); s3 = local_irq False s2 in
     rbind (mini_vmx_enter e s3) (\<lambda>(r, s4).
     after_enter r (s4\<lparr>rw := mini_wrmsr MSR_KERNEL_GS_BASE gs_shadow (rw s4)\<rparr>))))"

section \<open>The loop\<close>

text \<open>The result \<open>None\<close> says that the guest has not come back: the loop waits for its next exit.\<close>

fun run_turns :: "exit_event list \<Rightarrow> rs \<Rightarrow> (int option \<times> rs) res" where
  "run_turns [] s = Inr (None, s)"
| "run_turns (e # es) s =
     rbind (run_turn e s) (\<lambda>t. case t of Again s1 \<Rightarrow> run_turns es s1 | Leave r s1 \<Rightarrow> Inr (Some r, s1))"

definition load_vmcs :: "rs \<Rightarrow> (int \<times> rs) res" where
  "load_vmcs s =
     (if loaded_cpu (rv s) = Some (cur_cpu (rw s)) then Inr (0, s)
      else
        rbind (mini_vmcs_clear (rv s) (rw s)) (\<lambda>(v1, w1).
        rbind (mini_vmptrld (vmcs_phys v1) w1) (\<lambda>(r, w2).
        let s2 = s\<lparr>rw := w2, rv := v1\<rparr> in
        if r \<noteq> 0 then Inr (- EIO, s2)
        else
          rbind (mini_ept_invept_global s2) (\<lambda>(_, s3).
          let s4 = upd_v (\<lambda>v. v\<lparr>loaded_cpu := Some (cur_cpu (rw s3))\<rparr>) s3 in
          rbind (mini_vmx_fixup_host_for_cpu (rw s4)) (\<lambda>w5. Inr (0, s4\<lparr>rw := w5\<rparr>))))))"

definition run_out :: "int \<Rightarrow> rs \<Rightarrow> (int option \<times> rs) res" where
  "run_out r s = Inr (Some r, s\<lparr>rw := preempt_enable (rw s)\<rparr>)"

definition mini_vcpu_run_loop :: "exit_event list \<Rightarrow> rs \<Rightarrow> (int option \<times> rs) res" where
  "mini_vcpu_run_loop es s =
     (let s1 = upd_v (\<lambda>v. v\<lparr>run_exit_reason := 0\<rparr>) s;
          s2 = s1\<lparr>rw := preempt_disable (rw s1)\<rparr>;
          fail = upd_v (\<lambda>v. v\<lparr>run_exit_reason := KVM_EXIT_INTERNAL_ERROR\<rparr>)
      in if \<not> mini_cpu_in_vmx_operation (rw s2) then run_out (- EPROTO) (fail s2)
         else
           rbind (load_vmcs s2) (\<lambda>(r, s3).
           if r \<noteq> 0 then run_out r (fail s3)
           else
             rbind (run_turns es s3) (\<lambda>(ret, s4).
             case ret of None \<Rightarrow> Inr (None, s4) | Some r \<Rightarrow> run_out r s4)))"

section \<open>The invariant of the loop\<close>

lemma rd_ready: "vmx_ready (rw s) p \<Longrightarrow> rd f s k = k (vfield (regions (rw s) p) f)"
  by (simp add: rd_def)

lemma rd0_ready: "vmx_ready (rw s) p \<Longrightarrow> rd0 f s k = k (vfield (regions (rw s) p) f)"
  by (simp add: rd0_def)

definition put_fields :: "u64 \<Rightarrow> (u32 \<times> u64) list \<Rightarrow> rs \<Rightarrow> rs" where
  "put_fields p fxs s = s\<lparr>rw := set_fields p fxs (rw s)\<rparr>"

lemma put_fields_sel [simp]:
  "rw (put_fields p fxs s) = set_fields p fxs (rw s)" "rk (put_fields p fxs s) = rk s"
  "rv (put_fields p fxs s) = rv s" "klog (put_fields p fxs s) = klog s" "invepts (put_fields p fxs s) = invepts s"
  by (simp_all add: put_fields_def)

lemma wr_ready: "vmx_ready (rw s) p \<Longrightarrow> wr f x s k = k (put_fields p [(f, x)] s)"
  by (simp add: wr_def put_fields_def)

definition serial_ok :: "mini_kvm \<Rightarrow> bool" where
  "serial_ok k \<longleftrightarrow> length (kserial k) = SERIAL_SIZE \<and> serial_len k < SERIAL_SIZE"

text \<open>
  \<open>w0\<close> is the world when the VMCS \<open>p\<close> had been loaded: the loop changes nothing of it but the fields
  and the launch state of that VMCS, the page tables of the VM and the interrupt flag.
\<close>

definition same_world :: "u64 \<Rightarrow> mk_world \<Rightarrow> mk_world \<Rightarrow> bool" where
  "same_world p w0 w \<longleftrightarrow> cpus w = cpus w0 \<and> online w = online w0 \<and> cur_cpu w = cur_cpu w0 \<and>
     preempt_count w = preempt_count w0 \<and> glob w = glob w0 \<and> host w = host w0 \<and>
     (\<forall>q. q \<noteq> p \<longrightarrow> regions w q = regions w0 q) \<and>
     active_on (regions w p) = active_on (regions w0 p) \<and> vrev (regions w p) = vrev (regions w0 p)"

definition run_ok :: "u64 \<Rightarrow> mk_world \<Rightarrow> u64 multiset \<Rightarrow> mini_vcpu \<Rightarrow> rs \<Rightarrow> bool" where
  "run_ok p w0 oth v0 s \<longleftrightarrow> vmx_ready w0 p \<and> same_world p w0 (rw s) \<and>
     vmcs_phys (rv s) = p \<and> loaded_cpu (rv s) = Some (cur_cpu w0) \<and> length (regs (rv s)) = 16 \<and>
     vcpu_id (rv s) = vcpu_id v0 \<and> vmcs_page (rv s) = vmcs_page v0 \<and> run_page (rv s) = run_page v0 \<and>
     ept_ok oth (kept (rk s)) (pmem (rw s)) \<and> slot_ok (kslot (rk s)) \<and> serial_ok (rk s)"

definition launch_ok :: "rs \<Rightarrow> bool" where
  "launch_ok s \<longleftrightarrow> launched (rv s) = vlaunched (regions (rw s) (vmcs_phys (rv s)))"

lemma same_world_ready: "vmx_ready w0 p \<Longrightarrow> same_world p w0 w \<Longrightarrow> vmx_ready w p"
  by (simp add: vmx_ready_def same_world_def)

lemma run_ok_ready: "run_ok p w0 oth v0 s \<Longrightarrow> vmx_ready (rw s) p"
  using same_world_ready unfolding run_ok_def by blast

lemma same_world_set [simp]: "same_world p w0 (set_fields p fxs w) = same_world p w0 w"
  by (auto simp: same_world_def)

lemma same_world_irq [simp]: "same_world p w0 (w\<lparr>irqs_on := b\<rparr>) = same_world p w0 w"
  by (simp add: same_world_def)

lemma same_world_pmem [simp]: "same_world p w0 (w\<lparr>pmem := m\<rparr>) = same_world p w0 w"
  by (simp add: same_world_def)

text \<open>Steps that only write fields, or only touch the counters, keep both invariants.\<close>

lemma run_ok_set [simp]:
  "run_ok p w0 oth v0 (put_fields p fxs s) = run_ok p w0 oth v0 s"
  by (simp add: run_ok_def)

lemma launch_ok_set [simp]: "launch_ok (put_fields p fxs s) = launch_ok s"
  by (auto simp: launch_ok_def)

lemma run_ok_irq [simp]: "run_ok p w0 oth v0 (local_irq b s) = run_ok p w0 oth v0 s"
  "launch_ok (local_irq b s) = launch_ok s" "rv (local_irq b s) = rv s" "rk (local_irq b s) = rk s"
  "vmx_ready (rw (local_irq b s)) p = vmx_ready (rw s) p" "regions (rw (local_irq b s)) = regions (rw s)"
  by (simp_all add: run_ok_def launch_ok_def local_irq_def vmx_ready_def)

definition counters_only :: "(mini_vcpu \<Rightarrow> mini_vcpu) \<Rightarrow> bool" where
  "counters_only f \<longleftrightarrow> (\<forall>v. vmcs_phys (f v) = vmcs_phys v \<and> loaded_cpu (f v) = loaded_cpu v \<and>
     length (regs (f v)) = length (regs v) \<and> vcpu_id (f v) = vcpu_id v \<and> vmcs_page (f v) = vmcs_page v \<and>
     run_page (f v) = run_page v \<and> launched (f v) = launched v)"

lemma upd_v_ok [simp]:
  "counters_only f \<Longrightarrow> run_ok p w0 oth v0 (upd_v f s) = run_ok p w0 oth v0 s"
  "counters_only f \<Longrightarrow> launch_ok (upd_v f s) = launch_ok s"
  "rw (upd_v f s) = rw s" "rk (upd_v f s) = rk s" "rv (upd_v f s) = f (rv s)"
  by (simp_all add: counters_only_def run_ok_def launch_ok_def upd_v_def)

lemma counters_only_simps [simp]:
  "counters_only (\<lambda>v. v\<lparr>n_exits := a v\<rparr>)" "counters_only (\<lambda>v. v\<lparr>n_io_exits := a v\<rparr>)"
  "counters_only (\<lambda>v. v\<lparr>n_hlt_exits := a v\<rparr>)" "counters_only (\<lambda>v. v\<lparr>n_extint_exits := a v\<rparr>)"
  "counters_only (\<lambda>v. v\<lparr>n_nmi_exits := a v\<rparr>)" "counters_only (\<lambda>v. v\<lparr>n_injected := a v\<rparr>)"
  "counters_only (\<lambda>v. v\<lparr>n_ept_violations := a v\<rparr>)"
  "counters_only (\<lambda>v. v\<lparr>pending_intr_info := b v\<rparr>)" "counters_only (\<lambda>v. v\<lparr>run_exit_reason := b v\<rparr>)"
  "counters_only (set_reg i x)"
  by (simp_all add: counters_only_def set_reg_def)

section \<open>Steps of a turn\<close>

text \<open>A step succeeds and keeps the invariant; \<open>L\<close> says whether the launch states agree.\<close>

definition kept_by :: "u64 \<Rightarrow> mk_world \<Rightarrow> u64 multiset \<Rightarrow> mini_vcpu \<Rightarrow> bool \<Rightarrow> rs \<Rightarrow> bool" where
  "kept_by p w0 oth v0 L s \<longleftrightarrow> run_ok p w0 oth v0 s \<and> (L \<longrightarrow> launch_ok s)"

lemma refresh_ok:
  assumes "run_ok p w0 oth v0 s"
  shows "\<exists>fxs. mini_vmx_refresh_host_state (rw s) = Inr (set_fields p fxs (rw s))"
  using vmwrites_ready [OF run_ok_ready [OF assms]] by (auto simp: mini_vmx_refresh_host_state_def)

lemma and_not_self: "(x AND NOT y) AND y = (0 :: u64)"
  by (rule bit_word_eqI) (auto simp: bit_and_iff bit_not_iff)

lemma take_and_not_self: "take_bit n (x AND NOT y) AND y = (0 :: u64)"
  by (rule bit_word_eqI) (auto simp: bit_and_iff bit_not_iff bit_take_bit_iff)

definition inject_fields :: "u32 \<Rightarrow> (u32 \<Rightarrow> u64) \<Rightarrow> (u32 \<times> u64) list" where
  "inject_fields i g = (if i \<noteq> 0 then [(GUEST_RFLAGS, g GUEST_RFLAGS OR 0x200),
     (GUEST_INTERRUPTIBILITY_INFO, g GUEST_INTERRUPTIBILITY_INFO AND NOT 3)] else []) @
     [(VM_ENTRY_INTR_INFO_FIELD, ucast i)]"

definition took :: "mini_vcpu \<Rightarrow> mini_vcpu" where
  "took v = v\<lparr>pending_intr_info := 0,
     n_injected := n_injected v + (if pending_intr_info v \<noteq> 0 then 1 else 0)\<rparr>"

lemma took_ok [simp]: "counters_only took" "launched (took v) = launched v" "pending_intr_info (took v) = 0"
  "vmcs_phys (took v) = vmcs_phys v" "regs (took v) = regs v"
  by (simp_all add: took_def counters_only_def)

lemma inject_run:
  assumes r: "vmx_ready (rw s) p"
  shows "inject_pending s = Inr (put_fields p (inject_fields (pending_intr_info (rv s)) (vfield (regions (rw s) p))) (upd_v took s))"
proof -
  have e1: "s\<lparr>rv := (rv s)\<lparr>pending_intr_info := 0\<rparr>\<rparr> = upd_v (\<lambda>v. v\<lparr>pending_intr_info := 0\<rparr>) s" by (simp add: upd_v_def)
  have t: "upd_v took s = upd_v (\<lambda>v. v\<lparr>n_injected := n_injected v + 1\<rparr>) (upd_v (\<lambda>v. v\<lparr>pending_intr_info := 0\<rparr>) s)"
    if "pending_intr_info (rv s) \<noteq> 0"
    using that by (simp add: upd_v_def took_def)
  have t0: "upd_v took s = upd_v (\<lambda>v. v\<lparr>pending_intr_info := 0\<rparr>) s" if "pending_intr_info (rv s) = 0"
    using that by (cases "rv s") (simp add: upd_v_def took_def)
  have c: "upd_v f (put_fields p fxs s) = put_fields p fxs (upd_v f s)" for f fxs s
    by (simp add: upd_v_def put_fields_def)
  have a: "put_fields p ys (put_fields p xs s) = put_fields p (xs @ ys) s" for xs ys s
    by (simp add: put_fields_def)
  show ?thesis
    unfolding inject_pending_def mini_vcpu_take_intr_info_def prod.case Let_def e1
    using r by (cases "pending_intr_info (rv s) = 0")
      (simp_all add: rd0_ready wr_ready inject_fields_def t t0 c a)
qed

lemma inject_value:
  "store_fields (inject_fields i g) g VM_ENTRY_INTR_INFO_FIELD = ucast i"
  "i \<noteq> 0 \<Longrightarrow> bit (store_fields (inject_fields i g) g GUEST_RFLAGS) 9"
  "i \<noteq> 0 \<Longrightarrow> store_fields (inject_fields i g) g GUEST_INTERRUPTIBILITY_INFO AND 3 = 0"
  using take_and_not_self [of 32 _ "3 :: u64"] by (simp_all add: inject_fields_def field_trunc_def bit_simps)

lemma inject_ok:
  assumes ok: "kept_by p w0 oth v0 L s"
  shows "\<exists>s'. inject_pending s = Inr s' \<and> kept_by p w0 oth v0 L s' \<and> pending_intr_info (rv s') = 0 \<and>
    launched (rv s') = launched (rv s) \<and> vlaunched (regions (rw s') p) = vlaunched (regions (rw s) p) \<and>
    vfield (regions (rw s') p) VM_ENTRY_INTR_INFO_FIELD = ucast (pending_intr_info (rv s)) \<and>
    (pending_intr_info (rv s) \<noteq> 0 \<longrightarrow>
       bit (vfield (regions (rw s') p) GUEST_RFLAGS) 9 \<and> vfield (regions (rw s') p) GUEST_INTERRUPTIBILITY_INFO AND 3 = 0)"
proof -
  have r: "vmx_ready (rw s) p" using ok run_ok_ready by (auto simp: kept_by_def)
  show ?thesis unfolding inject_run [OF r]
    using ok inject_value by (simp add: kept_by_def)
qed

lemma line_start_le: "line_start buf i \<le> i"
  by (induction buf i rule: line_start.induct) auto

definition captured :: "mini_kvm \<Rightarrow> u8 list" where
  "captured k = take (serial_len k) (kserial k)"

lemma serial_out_ok:
  assumes "serial_ok (rk s)"
  shows "\<exists>k l. mini_serial_out c s = Inr (s\<lparr>rk := k, klog := l\<rparr>) \<and> serial_ok k \<and> kept k = kept (rk s) \<and>
    kslot k = kslot (rk s) \<and> refcount k = refcount (rk s) \<and> vm_id k = vm_id (rk s) \<and> kvcpu k = kvcpu (rk s) \<and>
    captured k = take (SERIAL_SIZE - 1) (captured (rk s) @ [c])"
proof -
  let ?k = "if serial_len (rk s) < SERIAL_SIZE - 1
      then (rk s)\<lparr>kserial := (kserial (rk s))[serial_len (rk s) := c], serial_len := serial_len (rk s) + 1\<rparr> else rk s"
  have k: "serial_ok ?k" using assms by (simp add: serial_ok_def)
  have cap: "captured ?k = take (SERIAL_SIZE - 1) (captured (rk s) @ [c])"
  proof (cases "serial_len (rk s) < SERIAL_SIZE - 1")
    case True
    then show ?thesis using assms
      by (simp add: captured_def serial_ok_def take_Suc_conv_app_nth min_def)
  next
    case False
    then have "serial_len (rk s) = 511" using assms by (simp add: serial_ok_def)
    then show ?thesis using assms by (simp add: captured_def serial_ok_def)
  qed
  let ?start = "line_start (kserial ?k) (serial_len ?k - 1)"
  have b: "?start + (serial_len ?k - ?start) \<le> length (kserial ?k)" "serial_len ?k - ?start < SERIAL_SIZE + 1"
    using k line_start_le [of "kserial ?k" "serial_len ?k - 1"] by (auto simp: serial_ok_def)
  have frame: "kept ?k = kept (rk s)" "kslot ?k = kslot (rk s)" "refcount ?k = refcount (rk s)"
    "vm_id ?k = vm_id (rk s)" "kvcpu ?k = kvcpu (rk s)" by simp_all
  have "mini_serial_out c s = Inr (s\<lparr>rk := ?k, klog := (if c \<noteq> 10 then klog s
      else klog s @ [take (serial_len ?k - ?start) (drop ?start (kserial ?k))])\<rparr>)"
    unfolding mini_serial_out_def Let_def using b by (cases "c = 10") (simp_all del: if_split)
  then show ?thesis using k cap frame by blast
qed

lemma serial_kept:
  assumes "kept_by p w0 oth v0 L s"
  shows "\<exists>s'. mini_serial_out c s = Inr s' \<and> kept_by p w0 oth v0 L s' \<and> rw s' = rw s \<and> rv s' = rv s"
proof -
  have "serial_ok (rk s)" using assms by (simp add: kept_by_def run_ok_def)
  from serial_out_ok [OF this, of c] obtain k l where o: "mini_serial_out c s = Inr (s\<lparr>rk := k, klog := l\<rparr>)"
    "serial_ok k" "kept k = kept (rk s)" "kslot k = kslot (rk s)" by blast
  moreover have "kept_by p w0 oth v0 L (s\<lparr>rk := k, klog := l\<rparr>)"
    using assms o by (simp add: kept_by_def run_ok_def launch_ok_def)
  ultimately show ?thesis by auto
qed

lemma kept_ready: "kept_by p w0 oth v0 L s \<Longrightarrow> vmx_ready (rw s) p"
  using run_ok_ready by (auto simp: kept_by_def)

lemma kept_simps [simp]:
  "kept_by p w0 oth v0 L (put_fields p fxs s) = kept_by p w0 oth v0 L s"
  "counters_only f \<Longrightarrow> kept_by p w0 oth v0 L (upd_v f s) = kept_by p w0 oth v0 L s"
  "kept_by p w0 oth v0 L (local_irq b s) = kept_by p w0 oth v0 L s"
  by (simp_all add: kept_by_def)

lemma io_advance_ok:
  assumes "kept_by p w0 oth v0 L s"
  shows "\<exists>s'. io_advance s = Inr (0, s') \<and> kept_by p w0 oth v0 L s' \<and>
    vfield (regions (rw s') p) GUEST_RIP =
      vfield (regions (rw s) p) GUEST_RIP + vfield (regions (rw s) p) VM_EXIT_INSTRUCTION_LEN"
  using assms kept_ready [OF assms]
  by (simp add: io_advance_def rd_ready wr_ready field_trunc_def)

lemma io_exit_ok:
  assumes k: "kept_by p w0 oth v0 L s"
  shows "\<exists>r s'. mini_handle_io_exit s = Inr (r, s') \<and> kept_by p w0 oth v0 L s' \<and> r \<in> {0, - EIO}"
proof -
  note r = kept_ready [OF k]
  have k0: "kept_by p w0 oth v0 L (upd_v (set_reg 0 0) s)" using k by simp
  obtain s1 where s1: "io_advance (upd_v (set_reg 0 0) s) = Inr (0, s1)" "kept_by p w0 oth v0 L s1"
    using io_advance_ok [OF k0] by blast
  have out: "\<exists>s'. rbind (if port = 0x3f8 then mini_serial_out c s else Inr s) io_advance = Inr (0, s') \<and>
      kept_by p w0 oth v0 L s'" for port :: u32 and c
  proof (cases "port = 0x3f8")
    case True
    obtain s2 where "mini_serial_out c s = Inr s2" "kept_by p w0 oth v0 L s2" using serial_kept [OF k] by blast
    then show ?thesis using True io_advance_ok [of p w0 oth v0 L s2] by auto
  next
    case False
    then show ?thesis using io_advance_ok [OF k] by auto
  qed
  let ?q = "vfield (regions (rw s) p) EXIT_QUALIFICATION"
  consider "?q AND 0x10 \<noteq> 0" | "?q AND 0x10 = 0" "?q AND 8 \<noteq> 0" | "?q AND 0x10 = 0" "?q AND 8 = 0" by blast
  then show ?thesis
  proof cases
    case 3
    show ?thesis
      unfolding mini_handle_io_exit_def rd_ready [OF r] Let_def
      apply (simp only: 3 simp_thms if_False)
      using out by blast
  qed (use k s1 in \<open>simp_all add: mini_handle_io_exit_def rd_ready [OF r] Let_def\<close>)
qed

lemma ept_exit_ok:
  assumes k: "kept_by p w0 oth v0 L s"
  shows "\<exists>r s'. handle_ept_violation s = Inr (r, s') \<and> kept_by p w0 oth v0 L s' \<and> r \<in> {0, - EFAULT, - ENOMEM}"
proof -
  note r = kept_ready [OF k]
  have ok: "ept_ok oth (kept (rk s)) (pmem (rw s))" "slot_ok (kslot (rk s))" using k by (simp_all add: kept_by_def run_ok_def)
  obtain x e m n where v: "mini_ept_handle_violation (vfield (regions (rw s) p) GUEST_PHYSICAL_ADDRESS) (kslot (rk s))
      (kept (rk s)) (pmem (rw s)) (n_ept_violations (rv s)) = Inr (x, e, m, n)" "ept_ok oth e m" "x \<in> {0, - EFAULT, - ENOMEM}"
    using violation_maps [OF ok] by blast
  let ?s = "s\<lparr>rk := (rk s)\<lparr>kept := e\<rparr>, rw := (rw s)\<lparr>pmem := m\<rparr>, rv := (rv s)\<lparr>n_ept_violations := n\<rparr>\<rparr>"
  have "kept_by p w0 oth v0 L ?s"
    using k v(2) by (simp add: kept_by_def run_ok_def launch_ok_def serial_ok_def)
  then show ?thesis using v by (simp add: handle_ept_violation_def rd_ready [OF r])
qed

lemma complete_ok:
  assumes k: "kept_by p w0 oth v0 L s"
  shows "\<exists>i. mini_vcpu_complete_intr_info s = Inr (upd_v (\<lambda>v. v\<lparr>pending_intr_info := i\<rparr>) s) \<and>
    i = (let idtv = vfield (regions (rw s) p) IDT_VECTORING_INFO_FIELD
         in if idtv AND 0x80000000 \<noteq> 0 \<and> drop_bit 8 idtv AND 7 = 0 then 0x80000000 OR ucast (idtv AND 0xff) else 0)"
proof -
  have r: "vmx_ready (rw (upd_v (\<lambda>v. v\<lparr>pending_intr_info := 0\<rparr>) s)) p" using kept_ready [OF k] by simp
  show ?thesis by (simp add: mini_vcpu_complete_intr_info_def rd0_ready [OF r] Let_def) (simp add: upd_v_def)
qed

lemma nmi_ok:
  assumes k: "kept_by p w0 oth v0 L s"
  shows "\<exists>s'. mini_vcpu_reinject_nmi s = Inr s' \<and> kept_by p w0 oth v0 L s'"
  using k by (simp add: mini_vcpu_reinject_nmi_def rd0_ready [OF kept_ready [OF k]])

section \<open>One turn\<close>

text \<open>What a turn leaves behind: the loop goes on, or it returns with interrupts enabled.\<close>

definition left_ok :: "int \<Rightarrow> rs \<Rightarrow> bool" where
  "left_ok r s \<longleftrightarrow> irqs_on (rw s) \<and>
     (if r = 0 then run_exit_reason (rv s) \<in> {KVM_EXIT_HLT, KVM_EXIT_SHUTDOWN}
      else run_exit_reason (rv s) = KVM_EXIT_INTERNAL_ERROR \<and> r \<in> {- EIO, - EFAULT, - ENOMEM})"

fun turn_ok :: "u64 \<Rightarrow> mk_world \<Rightarrow> u64 multiset \<Rightarrow> mini_vcpu \<Rightarrow> turn \<Rightarrow> bool" where
  "turn_ok p w0 oth v0 (Again s) = (kept_by p w0 oth v0 True s \<and> \<not> irqs_on (rw s))"
| "turn_ok p w0 oth v0 (Leave r s) = (kept_by p w0 oth v0 (r \<noteq> - EIO) s \<and> left_ok r s)"

lemma irqs_local_irq [simp]: "irqs_on (rw (local_irq b s)) = b"
  by (simp add: local_irq_def)

lemma leave_ok:
  assumes "kept_by p w0 oth v0 (r \<noteq> - EIO) s" "if r = 0 then why \<in> {KVM_EXIT_HLT, KVM_EXIT_SHUTDOWN}
      else why = KVM_EXIT_INTERNAL_ERROR \<and> r \<in> {- EIO, - EFAULT, - ENOMEM}"
  shows "\<exists>t. leave r why s = Inr t \<and> turn_ok p w0 oth v0 t"
  using assms by (auto simp: leave_def left_ok_def split: if_splits)

definition turn_spec :: "u64 \<Rightarrow> mk_world \<Rightarrow> u64 multiset \<Rightarrow> mini_vcpu \<Rightarrow> turn res \<Rightarrow> bool" where
  "turn_spec p w0 oth v0 x \<longleftrightarrow> (\<exists>t. x = Inr t \<and> turn_ok p w0 oth v0 t)"

lemma leave_spec [simp]:
  "kept_by p w0 oth v0 True s \<Longrightarrow> turn_spec p w0 oth v0 (leave 0 KVM_EXIT_HLT s)"
  "kept_by p w0 oth v0 True s \<Longrightarrow> turn_spec p w0 oth v0 (leave 0 KVM_EXIT_SHUTDOWN s)"
  "kept_by p w0 oth v0 True s \<Longrightarrow> r \<in> {- EFAULT, - ENOMEM} \<Longrightarrow> turn_spec p w0 oth v0 (leave r KVM_EXIT_INTERNAL_ERROR s)"
  "run_ok p w0 oth v0 s \<Longrightarrow> turn_spec p w0 oth v0 (leave (- EIO) KVM_EXIT_INTERNAL_ERROR s)"
  unfolding turn_spec_def by (rule leave_ok; auto simp: kept_by_def)+

lemma again_spec [simp]:
  "kept_by p w0 oth v0 True s \<Longrightarrow> \<not> irqs_on (rw s) \<Longrightarrow> turn_spec p w0 oth v0 (Inr (Again s))"
  by (simp add: turn_spec_def)

lemma kept_run: "kept_by p w0 oth v0 L s \<Longrightarrow> run_ok p w0 oth v0 s"
  by (simp add: kept_by_def)

lemma dispatch_ok:
  assumes k: "kept_by p w0 oth v0 True s" and irq: "\<not> irqs_on (rw s)"
  shows "turn_spec p w0 oth v0 (dispatch reason s)"
proof -
  note r = kept_ready [OF k] and run = kept_run [OF k]
  have io: "turn_spec p w0 oth v0 (exit_io s)"
  proof -
    obtain x s1 where x: "mini_handle_io_exit (local_irq True s) = Inr (x, s1)" "kept_by p w0 oth v0 True s1" "x \<in> {0, - EIO}"
      using io_exit_ok [of p w0 oth v0 True "local_irq True s"] k by auto
    then show ?thesis using kept_run [OF x(2)] by (auto simp: exit_io_def Let_def)
  qed
  have ept: "turn_spec p w0 oth v0 (exit_ept s)"
  proof -
    obtain x s1 where x: "handle_ept_violation s = Inr (x, s1)" "kept_by p w0 oth v0 True s1" "x \<in> {0, - EFAULT, - ENOMEM}"
      using ept_exit_ok [OF k] by auto
    moreover have "\<not> irqs_on (rw s1)"
      using x(1) irq by (auto simp: handle_ept_violation_def rd_ready [OF r] rbind_eq_Inr)
    ultimately show ?thesis using kept_run [OF x(2)] by (auto simp: exit_ept_def)
  qed
  have nmi: "turn_spec p w0 oth v0 (exit_nmi s)"
  proof (cases "vfield (regions (rw s) p) VM_EXIT_INTR_INFO AND 0x700 = 0x200 \<and>
      vfield (regions (rw s) p) VM_EXIT_INTR_INFO AND 0xff = 2")
    case True
    let ?s = "upd_v (\<lambda>v. v\<lparr>n_nmi_exits := n_nmi_exits v + 1\<rparr>) s"
    have k': "kept_by p w0 oth v0 True ?s" using k by simp
    obtain s1 where s1: "mini_vcpu_reinject_nmi ?s = Inr s1" "kept_by p w0 oth v0 True s1" using nmi_ok [OF k'] by blast
    moreover have "\<not> irqs_on (rw s1)"
      using s1(1) irq kept_ready [OF k'] by (auto simp: mini_vcpu_reinject_nmi_def rd0_ready split: if_splits)
    ultimately show ?thesis using True by (simp add: exit_nmi_def rd0_ready [OF r])
  next
    case False
    then show ?thesis using run by (auto simp: exit_nmi_def rd0_ready [OF r])
  qed
  have cpuid: "turn_spec p w0 oth v0 (exit_cpuid s)"
    using k irq r by (simp add: exit_cpuid_def Let_def rd0_ready wr_ready)
  show ?thesis
    unfolding dispatch_def using io ept nmi cpuid k run irq by simp
qed

lemma same_world_launch: "same_world p w0 w \<Longrightarrow>
    same_world p w0 (upd_region p (\<lambda>r. r\<lparr>vfield := fs, vlaunched := b\<rparr>) w)"
  by (auto simp: same_world_def upd_region_def)

text \<open>
  Around the entry: the guest's value of \<open>IA32_KERNEL_GS_BASE\<close> is gone when the loop goes on, and the
  launch states agree unless the entry failed on the guest state.
\<close>

lemma wrmsr_restores:
  "mini_wrmsr i (mini_rdmsr i w) (mini_wrmsr i x w) = w"
  by (cases w) (simp add: mini_wrmsr_def mini_rdmsr_def upd_cpu_def fun_upd_idem)

lemma enter_ok:
  assumes k: "kept_by p w0 oth v0 True s" and e: "length (ev_regs e) = 16"
  defines "fs \<equiv> store_fields (ev_fields e) (vfield (regions (rw s) p))"
  shows "\<exists>r s1 s2. mini_vmx_enter e s = Inr (r, s1) \<and>
    s2 = s1\<lparr>rw := mini_wrmsr MSR_KERNEL_GS_BASE (mini_rdmsr MSR_KERNEL_GS_BASE (rw s)) (rw s1)\<rparr> \<and>
    irqs_on (rw s2) = irqs_on (rw s) \<and> run_ok p w0 oth v0 s2 \<and>
    (if ev_fail e then r = 1 \<and> s2 = s
     else r = 0 \<and> pending_intr_info (rv s2) = pending_intr_info (rv s) \<and> vfield (regions (rw s2) p) = fs \<and>
       vlaunched (regions (rw s2) p) = (launched (rv s) \<or> \<not> bit (fs VM_EXIT_REASON) 31))"
proof -
  have cur: "in_vmx (this_cpu (rw s))" "current_vmcs (this_cpu (rw s)) = Some p"
    using kept_ready [OF k] by (simp_all add: vmx_ready_def)
  have l: "vlaunched (regions (rw s) p) = launched (rv s)"
    using k by (auto simp: kept_by_def launch_ok_def run_ok_def)
  show ?thesis
  proof (cases "ev_fail e")
    case True
    have "mini_vmx_enter e s = Inr (1, s)" using True cur by (simp add: mini_vmx_enter_def in_operation_def)
    moreover have wid: "mini_wrmsr MSR_KERNEL_GS_BASE (mini_rdmsr MSR_KERNEL_GS_BASE (rw s)) (rw s) = rw s"
      by (simp add: mini_wrmsr_def mini_rdmsr_def upd_cpu_def fun_upd_idem)
    ultimately show ?thesis using True kept_run [OF k] by (simp add: wid)
  next
    case False
    let ?w1 = "upd_region p (\<lambda>r. r\<lparr>vfield := fs, vlaunched := (vlaunched r \<or> \<not> bit (fs VM_EXIT_REASON) 31)\<rparr>) (rw s)"
    let ?v = "(rv s)\<lparr>regs := (ev_regs e)[4 := regs (rv s) ! 4]\<rparr>"
    let ?s2 = "s\<lparr>rw := ?w1, rv := ?v\<rparr>"
    have en: "mini_vmx_enter e s = Inr (0, s\<lparr>rw := mini_wrmsr MSR_KERNEL_GS_BASE (ev_kgs e) ?w1, rv := ?v\<rparr>)"
      using False cur l by (simp add: mini_vmx_enter_def in_operation_def fs_def Let_def)
    have g: "mini_rdmsr MSR_KERNEL_GS_BASE (rw s) = mini_rdmsr MSR_KERNEL_GS_BASE ?w1"
      by (simp add: mini_rdmsr_def upd_region_def)
    have ws: "?w1 = upd_region p (\<lambda>r. r\<lparr>vfield := fs, vlaunched := (launched (rv s) \<or> \<not> bit (fs VM_EXIT_REASON) 31)\<rparr>) (rw s)"
      using l by (simp add: upd_region_def)
    have "same_world p w0 ?w1" using k same_world_launch unfolding ws by (simp add: kept_by_def run_ok_def)
    then have ok: "run_ok p w0 oth v0 ?s2"
      using k e by (simp add: kept_by_def run_ok_def upd_region_def)
    let ?s1 = "s\<lparr>rw := mini_wrmsr MSR_KERNEL_GS_BASE (ev_kgs e) ?w1, rv := ?v\<rparr>"
    have eq: "?s2 = ?s1\<lparr>rw := mini_wrmsr MSR_KERNEL_GS_BASE (mini_rdmsr MSR_KERNEL_GS_BASE (rw s)) (rw ?s1)\<rparr>"
      unfolding g using wrmsr_restores [of MSR_KERNEL_GS_BASE ?w1 "ev_kgs e"] by simp
    have rest: "irqs_on (rw ?s2) = irqs_on (rw s)" "pending_intr_info (rv ?s2) = pending_intr_info (rv s)"
      "vfield (regions (rw ?s2) p) = fs"
      "vlaunched (regions (rw ?s2) p) = (launched (rv s) \<or> \<not> bit (fs VM_EXIT_REASON) 31)"
      using l by (simp_all add: upd_region_def)
    show ?thesis unfolding if_not_P [OF False]
      by (rule exI [of _ 0], rule exI [of _ ?s1], rule exI [of _ ?s2]) (intro conjI en eq ok rest refl)
  qed
qed

text \<open>The three ways a turn goes; \<open>g\<close> are the fields of the VMCS at the entry.\<close>

lemma turn_cases:
  assumes k: "kept_by p w0 oth v0 True s" and e: "length (ev_regs e) = 16"
  obtains (fail) s6 where "ev_fail e" "run_turn e s = leave (- EIO) KVM_EXIT_INTERNAL_ERROR s6" "run_ok p w0 oth v0 s6"
  | (bad) s6 g where "bit (store_fields (ev_fields e) g VM_EXIT_REASON) 31" "\<not> ev_fail e" "run_turn e s = leave (- EIO) KVM_EXIT_INTERNAL_ERROR s6" "run_ok p w0 oth v0 s6"
      "launched (rv s6)" "vlaunched (regions (rw s6) p) = launched (rv s)"
  | (exit) s6 g where "\<not> ev_fail e" "\<not> bit (store_fields (ev_fields e) g VM_EXIT_REASON) 31"
      "kept_by p w0 oth v0 True s6" "\<not> irqs_on (rw s6)" "vfield (regions (rw s6) p) = store_fields (ev_fields e) g"
      "run_turn e s = rbind (mini_vcpu_complete_intr_info s6)
         (dispatch ((ucast (store_fields (ev_fields e) g VM_EXIT_REASON) :: u32) AND 0xffff))"
proof -
  obtain fxs where rf: "mini_vmx_refresh_host_state (rw s) = Inr (set_fields p fxs (rw s))"
    using refresh_ok [OF kept_run [OF k]] by blast
  have eq: "s\<lparr>rw := set_fields p fxs (rw s)\<rparr> = put_fields p fxs s" by (simp add: put_fields_def)
  have "kept_by p w0 oth v0 True (put_fields p fxs s)" using k by simp
  from inject_ok [OF this] obtain s2 where s2: "inject_pending (put_fields p fxs s) = Inr s2"
    "kept_by p w0 oth v0 True s2" "launched (rv s2) = launched (rv s)" by auto
  let ?s3 = "local_irq False s2"
  have k3: "kept_by p w0 oth v0 True ?s3" using s2(2) by simp
  have g: "mini_rdmsr MSR_KERNEL_GS_BASE (rw ?s3) = mini_rdmsr MSR_KERNEL_GS_BASE (rw s2)"
    by (simp add: mini_rdmsr_def local_irq_def)
  let ?g = "vfield (regions (rw ?s3) p)"
  obtain r s4 s5 where en: "mini_vmx_enter e ?s3 = Inr (r, s4)"
    "s5 = s4\<lparr>rw := mini_wrmsr MSR_KERNEL_GS_BASE (mini_rdmsr MSR_KERNEL_GS_BASE (rw s2)) (rw s4)\<rparr>"
    and s5: "\<not> irqs_on (rw s5)" "run_ok p w0 oth v0 s5"
    and fl: "if ev_fail e then r = 1 \<and> s5 = ?s3
       else r = 0 \<and> pending_intr_info (rv s5) = pending_intr_info (rv ?s3) \<and>
         vfield (regions (rw s5) p) = store_fields (ev_fields e) ?g \<and>
         vlaunched (regions (rw s5) p) = (launched (rv ?s3) \<or> \<not> bit (store_fields (ev_fields e) ?g VM_EXIT_REASON) 31)"
    using enter_ok [OF k3 e] unfolding g by auto
  have turn: "run_turn e s = after_enter r s5"
    using rf s2(1) en by (simp add: run_turn_def Let_def eq)
  show thesis
  proof (cases "ev_fail e")
    case True
    then have "r = 1" using fl by simp
    then show thesis using fail [OF True, of s5] s5 by (simp add: turn after_enter_def)
  next
    case False
    let ?s6 = "upd_v (\<lambda>v. v\<lparr>launched := True, n_exits := n_exits v + 1\<rparr>) s5"
    have ok6: "run_ok p w0 oth v0 ?s6" using s5(2) by (simp add: run_ok_def upd_v_def)
    let ?reason = "store_fields (ev_fields e) ?g VM_EXIT_REASON"
    have b31: "?reason AND 0x80000000 = 0 \<longleftrightarrow> \<not> bit ?reason 31" using and_exp_eq_0_iff_not_bit [of ?reason 31] by simp
    have ae: "run_turn e s = (if ?reason AND 0x80000000 \<noteq> 0 then leave (- EIO) KVM_EXIT_INTERNAL_ERROR ?s6
        else rbind (mini_vcpu_complete_intr_info ?s6) (dispatch ((ucast ?reason :: u32) AND 0xffff)))"
      unfolding turn using False fl run_ok_ready [OF ok6] by (simp add: after_enter_def rd0_ready Let_def)
    show thesis
    proof (cases "bit ?reason 31")
      case True
      then show thesis using bad [OF True False, of ?s6] ae b31 ok6 fl False s2(3) by simp
    next
      case nf: False
      have "launch_ok ?s6" using fl False nf ok6 by (auto simp: launch_ok_def upd_v_def run_ok_def)
      then have "kept_by p w0 oth v0 True ?s6" using ok6 by (simp add: kept_by_def)
      then show thesis using exit [OF False nf, of ?s6] ae b31 nf s5(1) fl False by simp
    qed
  qed
qed

lemma turn_ok_all:
  assumes k: "kept_by p w0 oth v0 True s" and e: "length (ev_regs e) = 16"
  shows "turn_spec p w0 oth v0 (run_turn e s)"
  using k e
proof (cases rule: turn_cases)
  case (exit s6 g)
  obtain i where c: "mini_vcpu_complete_intr_info s6 = Inr (upd_v (\<lambda>v. v\<lparr>pending_intr_info := i\<rparr>) s6)"
    using complete_ok [OF exit(3)] by blast
  then show ?thesis using exit by (simp add: dispatch_ok)
qed simp_all

lemma turns_ok:
  assumes "kept_by p w0 oth v0 True s" "\<forall>e \<in> set es. length (ev_regs e) = 16"
  shows "\<exists>ret s'. run_turns es s = Inr (ret, s') \<and>
    (case ret of None \<Rightarrow> kept_by p w0 oth v0 True s' | Some r \<Rightarrow> kept_by p w0 oth v0 (r \<noteq> - EIO) s' \<and> left_ok r s')"
  using assms
proof (induction es arbitrary: s)
  case Nil
  then show ?case by simp
next
  case (Cons e es)
  obtain t where t: "run_turn e s = Inr t" "turn_ok p w0 oth v0 t"
    using turn_ok_all [OF Cons.prems(1)] Cons.prems(2) by (auto simp: turn_spec_def)
  then show ?case using Cons by (cases t) auto
qed

section \<open>Loading the VMCS\<close>

text \<open>
  Between runs: the flags that say a CPU is in VMX operation are right, the VMCS is active at most
  on the CPU it was loaded on, and there it is still the current one.
\<close>

definition vcpu_ok :: "u64 multiset \<Rightarrow> rs \<Rightarrow> bool" where
  "vcpu_ok oth s \<longleftrightarrow> irqs_on (rw s) \<and> (\<forall>c. vmxon_done (cpus (rw s) c) \<longrightarrow> in_vmx (cpus (rw s) c)) \<and>
     (\<forall>c. vrev (regions (rw s) (vmcs_phys (rv s))) = ucast (msr (cpus (rw s) c) MSR_VMX_BASIC AND 0x7fffffff)) \<and>
     active_on (regions (rw s) (vmcs_phys (rv s))) \<subseteq> set_option (loaded_cpu (rv s)) \<and>
     (\<forall>c. loaded_cpu (rv s) = Some c \<longrightarrow> online (rw s) c \<and> vmxon_done (cpus (rw s) c) \<and>
        current_vmcs (cpus (rw s) c) = Some (vmcs_phys (rv s))) \<and>
     (loaded_cpu (rv s) = None \<longrightarrow> \<not> vlaunched (regions (rw s) (vmcs_phys (rv s)))) \<and>
     length (regs (rv s)) = 16 \<and>
     ept_ok oth (kept (rk s)) (pmem (rw s)) \<and> slot_ok (kslot (rk s)) \<and> serial_ok (rk s)"

lemma load_ok:
  assumes ok: "vcpu_ok oth s" and l: "launch_ok s" and on: "vmxon_done (this_cpu (rw s))"
  shows "\<exists>s'. load_vmcs s = Inr (0, s') \<and>
    kept_by (vmcs_phys (rv s)) (rw s') oth (rv s) True s' \<and>
    active_on (regions (rw s') (vmcs_phys (rv s))) \<subseteq> {cur_cpu (rw s)} \<and>
    irqs_on (rw s') \<and> cur_cpu (rw s') = cur_cpu (rw s) \<and> preempt_count (rw s') = preempt_count (rw s) \<and>
    online (rw s') = online (rw s) \<and> glob (rw s') = glob (rw s) \<and> host (rw s') = host (rw s) \<and>
    (\<forall>q. q \<noteq> vmcs_phys (rv s) \<longrightarrow> regions (rw s') q = regions (rw s) q) \<and>
    vrev (regions (rw s') (vmcs_phys (rv s))) = vrev (regions (rw s) (vmcs_phys (rv s))) \<and>
    (\<forall>d. in_vmx (cpus (rw s') d) = in_vmx (cpus (rw s) d) \<and> vmxon_done (cpus (rw s') d) = vmxon_done (cpus (rw s) d) \<and>
      msr (cpus (rw s') d) = msr (cpus (rw s) d) \<and> cr4 (cpus (rw s') d) = cr4 (cpus (rw s) d))"
proof -
  let ?p = "vmcs_phys (rv s)" and ?w = "rw s" and ?v = "rv s"
  have inv: "in_vmx (this_cpu ?w)" using ok on by (simp add: vcpu_ok_def)
  show ?thesis
  proof (cases "loaded_cpu ?v = Some (cur_cpu ?w)")
    case True
    then have "vmx_ready ?w ?p" using ok inv by (simp add: vcpu_ok_def vmx_ready_def)
    then have "kept_by ?p ?w oth ?v True s"
      using ok l True by (simp add: kept_by_def run_ok_def same_world_def vcpu_ok_def)
    then show ?thesis using True ok by (auto simp: load_vmcs_def vcpu_ok_def)
  next
    case False
    text \<open>The VMCS leaves the CPU it was on.\<close>
    obtain w1 where c: "mini_vmcs_clear ?v ?w = Inr (?v\<lparr>launched := False, loaded_cpu := None\<rparr>, w1)"
      and w1: "in_vmx (this_cpu w1)" "active_on (regions w1 ?p) = {}" "\<not> vlaunched (regions w1 ?p)"
        "irqs_on w1" "cur_cpu w1 = cur_cpu ?w" "preempt_count w1 = preempt_count ?w" "online w1 = online ?w"
        "glob w1 = glob ?w" "host w1 = host ?w" "pmem w1 = pmem ?w"
        "\<forall>q. q \<noteq> ?p \<longrightarrow> regions w1 q = regions ?w q" "vrev (regions w1 ?p) = vrev (regions ?w ?p)"
        "\<forall>d. in_vmx (cpus w1 d) = in_vmx (cpus ?w d) \<and> vmxon_done (cpus w1 d) = vmxon_done (cpus ?w d) \<and>
          msr (cpus w1 d) = msr (cpus ?w d) \<and> cr4 (cpus w1 d) = cr4 (cpus ?w d)"
    proof (cases "loaded_cpu ?v")
      case None
      have "?v\<lparr>launched := False\<rparr> = ?v\<lparr>launched := False, loaded_cpu := None\<rparr>" using None by (cases ?v) simp
      then show ?thesis using that [of ?w] None vmcs_clear_unloaded [of ?v ?w] ok inv by (simp add: vcpu_ok_def)
    next
      case (Some d)
      then have "d \<noteq> cur_cpu ?w" "online ?w d" "vmxon_done (cpus ?w d)" "in_vmx (cpus ?w d)" "irqs_on ?w"
        using False ok by (auto simp: vcpu_ok_def)
      with Some vmcs_clear_remote [of ?v d ?w] show ?thesis
        using that [of "vmcleared d ?p ?w"] ok inv by (auto simp: vcpu_ok_def)
    qed
    text \<open>It becomes the current VMCS here.\<close>
    have rev: "vrev (regions w1 ?p) = ucast (mini_rdmsr MSR_VMX_BASIC w1 AND 0x7fffffff)"
      using ok w1 by (simp add: vcpu_ok_def mini_rdmsr_def)
    let ?w2 = "vmloaded ?p w1"
    have pl: "mini_vmptrld ?p w1 = Inr (0, ?w2)" using vmptrld_in [OF w1(1), of ?p] rev by simp
    let ?s2 = "s\<lparr>rw := ?w2, rv := ?v\<lparr>launched := False, loaded_cpu := None\<rparr>\<rparr>"
    let ?s3 = "?s2\<lparr>invepts := cur_cpu ?w # invepts s\<rparr>"
    have ie: "mini_ept_invept_global ?s2 = Inr (0, ?s3)"
      using w1(1,5,13) on by (simp add: mini_ept_invept_global_def mini_invept_def mini_cpu_in_vmx_operation_def in_operation_def)
    have r2: "vmx_ready ?w2 ?p" by (rule vmloaded_ready [OF w1(1)])
    let ?s4 = "upd_v (\<lambda>v. v\<lparr>loaded_cpu := Some (cur_cpu ?w)\<rparr>) ?s3"
    let ?s5 = "put_fields ?p (fixup_fields ?w2) ?s4"
    have ld: "load_vmcs s = Inr (0, ?s5)"
      using False c pl ie fixup_ready [OF r2] w1(5)
      by (simp add: load_vmcs_def Let_def put_fields_def upd_v_def)
    have rw5: "rw ?s5 = set_fields ?p (fixup_fields ?w2) ?w2" by simp
    have run: "run_ok ?p (rw ?s5) oth ?v ?s5"
      unfolding run_ok_def using r2 ok w1(5,10) by (simp add: same_world_def vcpu_ok_def upd_v_def)
    moreover have "launch_ok ?s5" using w1(3) by (simp add: launch_ok_def upd_v_def)
    ultimately show ?thesis
      unfolding ld using w1 by (intro exI [of _ ?s5]) (simp add: kept_by_def)
  qed
qed


section \<open>The whole loop\<close>

lemma run_prologue:
  assumes ok: "vcpu_ok oth s" and l: "launch_ok s"
  shows "vcpu_ok oth ((upd_v (\<lambda>v. v\<lparr>run_exit_reason := 0\<rparr>) s)\<lparr>rw := preempt_disable (rw s)\<rparr>)"
    "launch_ok ((upd_v (\<lambda>v. v\<lparr>run_exit_reason := 0\<rparr>) s)\<lparr>rw := preempt_disable (rw s)\<rparr>)"
  using assms by (simp_all add: vcpu_ok_def launch_ok_def preempt_disable_def upd_v_def)

lemma run_loop_ok:
  assumes ok: "vcpu_ok oth s" and l: "launch_ok s" and on: "vmxon_done (this_cpu (rw s))"
    and onl: "online (rw s) (cur_cpu (rw s))" and es: "\<forall>e \<in> set es. length (ev_regs e) = 16"
  shows "\<exists>ret s'. mini_vcpu_run_loop es s = Inr (ret, s') \<and>
    (\<forall>r. ret = Some r \<longrightarrow>
       left_ok r s' \<and> vcpu_ok oth s' \<and> (r \<noteq> - EIO \<longrightarrow> launch_ok s') \<and>
       cur_cpu (rw s') = cur_cpu (rw s) \<and> preempt_count (rw s') = preempt_count (rw s) \<and>
       loaded_cpu (rv s') = Some (cur_cpu (rw s)) \<and> vmcs_phys (rv s') = vmcs_phys (rv s) \<and>
       vmcs_page (rv s') = vmcs_page (rv s) \<and> run_page (rv s') = run_page (rv s) \<and>
       online (rw s') = online (rw s) \<and>
       (\<forall>q. q \<noteq> vmcs_phys (rv s) \<longrightarrow> regions (rw s') q = regions (rw s) q) \<and>
       (\<forall>c. msr (cpus (rw s') c) = msr (cpus (rw s) c) \<and> vmxon_done (cpus (rw s') c) = vmxon_done (cpus (rw s) c)))"
proof -
  let ?p = "vmcs_phys (rv s)"
  let ?s2 = "(upd_v (\<lambda>v. v\<lparr>run_exit_reason := 0\<rparr>) s)\<lparr>rw := preempt_disable (rw s)\<rparr>"
  have sel: "vmcs_phys (rv ?s2) = ?p" "cur_cpu (rw ?s2) = cur_cpu (rw s)" "preempt_count (rw ?s2) = Suc (preempt_count (rw s))"
    "online (rw ?s2) = online (rw s)" "regions (rw ?s2) = regions (rw s)" "cpus (rw ?s2) = cpus (rw s)"
    "vmcs_page (rv ?s2) = vmcs_page (rv s)" "run_page (rv ?s2) = run_page (rv s)" "vcpu_id (rv ?s2) = vcpu_id (rv s)"
    by (simp_all add: upd_v_def preempt_disable_def)
  have on2: "vmxon_done (this_cpu (rw ?s2))" using on by (simp add: preempt_disable_def)
  note ok2 = run_prologue [OF ok l]
  obtain s3 where ld: "load_vmcs ?s2 = Inr (0, s3)" and k3: "kept_by ?p (rw s3) oth (rv ?s2) True s3"
    and a3: "active_on (regions (rw s3) ?p) \<subseteq> {cur_cpu (rw s)}"
    and f3: "cur_cpu (rw s3) = cur_cpu (rw s)" "preempt_count (rw s3) = Suc (preempt_count (rw s))"
      "online (rw s3) = online (rw s)" "\<forall>q. q \<noteq> ?p \<longrightarrow> regions (rw s3) q = regions (rw s) q"
      "vrev (regions (rw s3) ?p) = vrev (regions (rw s) ?p)"
      "\<forall>d. in_vmx (cpus (rw s3) d) = in_vmx (cpus (rw s) d) \<and> vmxon_done (cpus (rw s3) d) = vmxon_done (cpus (rw s) d) \<and>
         msr (cpus (rw s3) d) = msr (cpus (rw s) d) \<and> cr4 (cpus (rw s3) d) = cr4 (cpus (rw s) d)"
    using load_ok [OF ok2 on2] unfolding sel by auto
  obtain ret s4 where rt: "run_turns es s3 = Inr (ret, s4)"
    and k4: "case ret of None \<Rightarrow> kept_by ?p (rw s3) oth (rv ?s2) True s4
       | Some r \<Rightarrow> kept_by ?p (rw s3) oth (rv ?s2) (r \<noteq> - EIO) s4 \<and> left_ok r s4"
    using turns_ok [OF k3 es] by blast
  let ?out = "\<lambda>s. s\<lparr>rw := preempt_enable (rw s)\<rparr>"
  have run: "mini_vcpu_run_loop es s = Inr (ret, case ret of None \<Rightarrow> s4 | Some _ \<Rightarrow> ?out s4)"
    using on2 ld rt by (auto simp: mini_vcpu_run_loop_def Let_def mini_cpu_in_vmx_operation_def run_out_def split: option.splits)
  have "left_ok r (?out s4) \<and> vcpu_ok oth (?out s4) \<and> (r \<noteq> - EIO \<longrightarrow> launch_ok (?out s4)) \<and>
       cur_cpu (rw (?out s4)) = cur_cpu (rw s) \<and> preempt_count (rw (?out s4)) = preempt_count (rw s) \<and>
       loaded_cpu (rv (?out s4)) = Some (cur_cpu (rw s)) \<and> vmcs_phys (rv (?out s4)) = ?p \<and>
       vmcs_page (rv (?out s4)) = vmcs_page (rv s) \<and> run_page (rv (?out s4)) = run_page (rv s) \<and>
       online (rw (?out s4)) = online (rw s) \<and>
       (\<forall>q. q \<noteq> ?p \<longrightarrow> regions (rw (?out s4)) q = regions (rw s) q) \<and>
       (\<forall>c. msr (cpus (rw (?out s4)) c) = msr (cpus (rw s) c) \<and>
            vmxon_done (cpus (rw (?out s4)) c) = vmxon_done (cpus (rw s) c))" if "ret = Some r" for r
  proof -
    have k: "run_ok ?p (rw s3) oth (rv ?s2) s4" "r \<noteq> - EIO \<longrightarrow> launch_ok s4" "left_ok r s4"
      using k4 that by (auto simp: kept_by_def)
    have "vcpu_ok oth s4"
      using k(1,3) ok a3 f3 on onl by (auto simp: run_ok_def same_world_def vcpu_ok_def left_ok_def vmx_ready_def)
    then have "vcpu_ok oth (?out s4)" by (simp add: vcpu_ok_def preempt_enable_def)
    with k f3 show ?thesis
      by (auto simp: run_ok_def same_world_def left_ok_def launch_ok_def preempt_enable_def sel)
  qed
  then show ?thesis
    by (intro exI [of _ ret] exI [of _ "case ret of None \<Rightarrow> s4 | Some _ \<Rightarrow> ?out s4"]) (auto simp: run)
qed

section \<open>Properties of the run loop\<close>


text \<open>Nothing on the way to the next entry drops an event that waits for it.\<close>

lemma pending_kept:
  assumes k: "kept_by p w0 oth v0 True s" and p: "pending_intr_info (rv s) \<noteq> 0"
    and d: "dispatch reason s = Inr (Again s')"
  shows "pending_intr_info (rv s') = pending_intr_info (rv s)"
proof -
  note r = kept_ready [OF k]
  have r1: "vmx_ready (rw (upd_v f s)) p" "vmx_ready (rw (local_irq b s)) p" for f b using r by simp_all
  have io: "pending_intr_info (rv s') = pending_intr_info (rv s)" if ex: "exit_io s = Inr (Again s')"
  proof -
    let ?s = "local_irq True s"
    have adv: "io_advance t = Inr (x, t') \<Longrightarrow> vmx_ready (rw t) p \<Longrightarrow> pending_intr_info (rv t') = pending_intr_info (rv t)" for t t' x
      by (auto simp: io_advance_def rd_ready wr_ready)
    have so: "mini_serial_out c ?s = Inr t \<Longrightarrow> rv t = rv s \<and> vmx_ready (rw t) p" for c t
      using r1(2) [of True] by (auto simp: mini_serial_out_def Let_def split: if_splits)
    obtain x s1 where m: "mini_handle_io_exit ?s = Inr (x, s1)" "s' = local_irq False s1"
      using ex by (auto simp: exit_io_def Let_def rbind_eq_Inr leave_def split: if_splits)
    have "pending_intr_info (rv s1) = pending_intr_info (rv s)"
    proof -
      have "mini_handle_io_exit ?s = Inr (x, s1) \<Longrightarrow> pending_intr_info (rv s1) = pending_intr_info (rv ?s)"
        unfolding mini_handle_io_exit_def rd_ready [OF r1(2)] Let_def
        using adv [of "upd_v (set_reg 0 0) ?s"] adv so r1
        by (auto simp: rbind_eq_Inr set_reg_def split: if_splits)
      then show ?thesis using m(1) by simp
    qed
    then show ?thesis using m(2) by simp
  qed
  show ?thesis
    using d io p unfolding dispatch_def
    by (auto simp: exit_ept_def exit_cpuid_def exit_nmi_def handle_ept_violation_def mini_vcpu_reinject_nmi_def
        rd_ready [OF r] rd0_ready [OF r] rd0_ready [OF r1(1)] wr_ready [OF r1(1)] Let_def leave_def rbind_eq_Inr
        set_reg_def split: if_splits)
qed

lemma turn_redelivers:
  assumes k: "kept_by p w0 oth v0 True s" and e: "length (ev_regs e) = 16"
    and idt: "map_of (rev (ev_fields e)) IDT_VECTORING_INFO_FIELD = Some (0x80000000 OR ucast (v :: u8))"
    and t: "run_turn e s = Inr (Again s')"
  shows "kept_by p w0 oth v0 True s' \<and> pending_intr_info (rv s') = 0x80000000 OR ucast v"
proof -
  have k': "kept_by p w0 oth v0 True s'" using turn_ok_all [OF k e] t by (simp add: turn_spec_def)
  from k e show ?thesis
  proof (cases rule: turn_cases)
    case (exit s6 g)
    have idtv: "vfield (regions (rw s6) p) IDT_VECTORING_INFO_FIELD = 0x80000000 OR ucast v"
    proof -
      have "take_bit 32 (0x80000000 OR ucast v :: u64) = 0x80000000 OR ucast v"
        by (rule bit_word_eqI) (auto simp: bit_simps dest: bit_imp_le_length)
      then show ?thesis using exit(5) idt by (simp add: store_fields_map_of field_trunc_def)
    qed
    have b: "(0x80000000 OR ucast v :: u64) AND 0x80000000 \<noteq> 0"
      using and_exp_eq_0_iff_not_bit [of "0x80000000 OR ucast v :: u64" 31] by (simp add: bit_simps)
    have ty: "drop_bit 8 (0x80000000 OR ucast v :: u64) AND 7 = 0"
    proof -
      have "drop_bit 8 (ucast v :: u64) = 0" by (rule bit_word_eqI) (auto simp: bit_simps dest: bit_imp_le_length)
      then show ?thesis by simp
    qed
    have lo: "(0x80000000 OR ucast v :: u64) AND 0xff = ucast v"
    proof -
      have "(ucast v :: u64) AND 0xff = ucast v"
      proof -
        have m: "(0xff :: u64) = mask 8" by (simp add: mask_eq_exp_minus_1)
        show ?thesis unfolding m by (rule bit_word_eqI) (auto simp: bit_simps dest: bit_imp_le_length)
      qed
      then show ?thesis by (simp add: bit.conj_disj_distrib2)
    qed
    let ?i = "0x80000000 OR ucast (ucast v :: u64) :: u32"
    have c: "mini_vcpu_complete_intr_info s6 = Inr (upd_v (\<lambda>v. v\<lparr>pending_intr_info := ?i\<rparr>) s6)"
      using complete_ok [OF exit(3)] b ty lo unfolding idtv Let_def by auto
    have i: "?i = 0x80000000 OR ucast v" "?i \<noteq> 0"
    proof -
      have "ucast (ucast v :: u64) = (ucast v :: u32)" by (rule bit_word_eqI) (auto simp: bit_simps dest: bit_imp_le_length)
      then show "?i = 0x80000000 OR ucast v" by simp
      have "bit ?i 31" by (simp add: bit_simps)
      then show "?i \<noteq> 0" by force
    qed
    have k7: "kept_by p w0 oth v0 True (upd_v (\<lambda>v. v\<lparr>pending_intr_info := ?i\<rparr>) s6)" using exit(3) by simp
    have "dispatch ((ucast (store_fields (ev_fields e) g VM_EXIT_REASON) :: u32) AND 0xffff)
        (upd_v (\<lambda>v. v\<lparr>pending_intr_info := ?i\<rparr>) s6) = Inr (Again s')"
      using t exit(6) c by simp
    from pending_kept [OF k7 _ this] i k' show ?thesis by simp
  qed (use t in \<open>simp_all add: leave_def\<close>)
qed

text \<open>
  C19. An external interrupt whose delivery is cut short by an exit is not lost: after any number of
  exits during its delivery (each reported in the IDT-vectoring information) it is pending again, and the next
  entry carries the same vector, with \<open>RFLAGS.IF\<close> set and no STI or MOV-SS blocking.
\<close>

theorem interrupt_redelivered:
  assumes "kept_by p w0 oth v0 True s" "es \<noteq> []"
    and "\<forall>e \<in> set es. length (ev_regs e) = 16 \<and>
      map_of (rev (ev_fields e)) IDT_VECTORING_INFO_FIELD = Some (0x80000000 OR ucast (v :: u8))"
    and "run_turns es s = Inr (None, s')"
  shows "pending_intr_info (rv s') = 0x80000000 OR ucast v \<and>
    (\<exists>s''. inject_pending s' = Inr s'' \<and>
       vfield (regions (rw s'') p) VM_ENTRY_INTR_INFO_FIELD = 0x80000000 OR ucast v \<and>
       bit (vfield (regions (rw s'') p) GUEST_RFLAGS) 9 \<and>
       vfield (regions (rw s'') p) GUEST_INTERRUPTIBILITY_INFO AND 3 = 0)"
proof -
  have "kept_by p w0 oth v0 True s' \<and> pending_intr_info (rv s') = 0x80000000 OR ucast v"
    using assms
  proof (induction es arbitrary: s)
    case Nil
    then show ?case by simp
  next
    case (Cons e es)
    obtain t where t: "run_turn e s = Inr t" using Cons.prems(4) by (cases "run_turn e s") auto
    then obtain s1 where s1: "run_turn e s = Inr (Again s1)" using Cons.prems(4) by (cases t) auto
    have one: "kept_by p w0 oth v0 True s1 \<and> pending_intr_info (rv s1) = 0x80000000 OR ucast v"
      using turn_redelivers [OF Cons.prems(1) _ _ s1, of v] Cons.prems(3) by simp
    show ?case
    proof (cases "es = []")
      case True
      then show ?thesis using one Cons.prems(4) s1 by simp
    next
      case False
      then show ?thesis using Cons.IH [of s1] one Cons.prems(3,4) s1 by simp
    qed
  qed
  then have k: "kept_by p w0 oth v0 True s'" and pe: "pending_intr_info (rv s') = 0x80000000 OR ucast v" by auto
  have nz: "(0x80000000 OR ucast v :: u32) \<noteq> 0"
  proof -
    have "bit (0x80000000 OR ucast v :: u32) 31" by (simp add: bit_simps)
    then show ?thesis by force
  qed
  have uc: "ucast (0x80000000 OR ucast v :: u32) = (0x80000000 OR ucast v :: u64)"
  proof -
    have "ucast (ucast v :: u32) = (ucast v :: u64)" by (rule bit_word_eqI) (auto simp: bit_simps dest: bit_imp_le_length)
    then show ?thesis by (simp add: unsigned_or_eq)
  qed
  from inject_ok [OF k] pe nz uc show ?thesis by auto
qed

text \<open>
  An NMI that was cut short the same way is dropped: the event slot is empty afterwards.
\<close>

theorem interrupted_nmi_dropped:
  assumes "kept_by p w0 oth v0 L s"
    and "vfield (regions (rw s) p) IDT_VECTORING_INFO_FIELD = 0x80000202"
  shows "\<exists>s'. mini_vcpu_complete_intr_info s = Inr s' \<and> pending_intr_info (rv s') = 0"
  using complete_ok [OF assms(1)] assms(2) by auto

text \<open>
  C32. The serial buffer holds the first 511 bytes the guest sent, whatever it sends after that.
\<close>

fun serial_outs :: "u8 list \<Rightarrow> rs \<Rightarrow> rs res" where
  "serial_outs [] s = Inr s"
| "serial_outs (c # cs) s = rbind (mini_serial_out c s) (serial_outs cs)"

theorem serial_capture:
  assumes "serial_ok (rk s)" "serial_len (rk s) = 0"
  shows "\<exists>s'. serial_outs cs s = Inr s' \<and> serial_ok (rk s') \<and> captured (rk s') = take (SERIAL_SIZE - 1) cs"
proof -
  have "serial_ok (rk s) \<Longrightarrow> \<exists>s'. serial_outs cs s = Inr s' \<and> serial_ok (rk s') \<and>
      captured (rk s') = take (SERIAL_SIZE - 1) (captured (rk s) @ cs)" for s
  proof (induction cs arbitrary: s)
    case Nil
    then show ?case by (auto simp: captured_def serial_ok_def)
  next
    case (Cons c cs)
    from serial_out_ok [OF Cons.prems, of c] obtain k l where o: "mini_serial_out c s = Inr (s\<lparr>rk := k, klog := l\<rparr>)"
      "serial_ok k" "captured k = take (SERIAL_SIZE - 1) (captured (rk s) @ [c])" by blast
    have "take 511 (take 511 (captured (rk s) @ [c]) @ cs) = take 511 (captured (rk s) @ c # cs)"
    proof (cases "length (captured (rk s)) < 511")
      case True
      then show ?thesis by simp
    next
      case False
      then show ?thesis by simp
    qed
    with o Cons.IH [of "s\<lparr>rk := k, klog := l\<rparr>"] show ?case by simp
  qed
  from this [OF assms(1)] show ?thesis using assms(2) by (simp add: captured_def)
qed

lemma refresh_ready:
  "vmx_ready (rw s) p \<Longrightarrow> \<exists>fxs. mini_vmx_refresh_host_state (rw s) = Inr (set_fields p fxs (rw s))"
  using vmwrites_ready by (auto simp: mini_vmx_refresh_host_state_def)

text \<open>An entry that does not fit the launch state fails.\<close>

lemma mismatch_fails:
  assumes r: "vmx_ready (rw s) p" and l: "launched (rv s) \<noteq> vlaunched (regions (rw s) p)"
  shows "\<exists>s'. run_turn e s = Inr (Leave (- EIO) s')"
proof -
  obtain fxs where rf: "mini_vmx_refresh_host_state (rw s) = Inr (set_fields p fxs (rw s))"
    using refresh_ready [OF r] by blast
  let ?t3 = "put_fields p fxs s"
  have rdy3: "vmx_ready (rw ?t3) p" using r by simp
  let ?t4 = "local_irq False (put_fields p (inject_fields (pending_intr_info (rv ?t3)) (vfield (regions (rw ?t3) p))) (upd_v took ?t3))"
  have "mini_vmx_enter e ?t4 = Inr (1, ?t4)"
    using r l by (simp add: mini_vmx_enter_def in_operation_def vmx_ready_def local_irq_def)
  then show ?thesis
    using rf inject_run [OF rdy3] by (simp add: run_turn_def Let_def put_fields_def [symmetric] after_enter_def leave_def)
qed

text \<open>
  The flag for VMRESUME is set before the code looks at bit 31 of the exit reason: when the first
  entry of a virtual CPU fails on the guest state, the VMCS is still clear but is taken for
  launched, and every later run on that CPU fails, whatever the guest state then is.
\<close>

theorem failed_entry_sticks:
  assumes ok: "vcpu_ok oth s" "launch_ok s" "vmxon_done (this_cpu (rw s))" "online (rw s) (cur_cpu (rw s))"
    and first: "loaded_cpu (rv s) = None"
    and e: "length (ev_regs e) = 16" "\<not> ev_fail e" "map_of (rev (ev_fields e)) VM_EXIT_REASON = Some 0x80000021"
    and e': "length (ev_regs e') = 16"
  shows "\<exists>s1. mini_vcpu_run_loop [e] s = Inr (Some (- EIO), s1) \<and>
    launched (rv s1) \<and> \<not> vlaunched (regions (rw s1) (vmcs_phys (rv s1))) \<and>
    (\<exists>s2. mini_vcpu_run_loop [e'] s1 = Inr (Some (- EIO), s2))"
proof -
  let ?p = "vmcs_phys (rv s)"
  let ?s2 = "(upd_v (\<lambda>v. v\<lparr>run_exit_reason := 0\<rparr>) s)\<lparr>rw := preempt_disable (rw s)\<rparr>"
  have on2: "vmxon_done (this_cpu (rw ?s2))" using ok(3) by (simp add: preempt_disable_def)
  have sel: "vmcs_phys (rv ?s2) = ?p" "cur_cpu (rw ?s2) = cur_cpu (rw s)" "loaded_cpu (rv ?s2) = None"
    using first by (simp_all add: upd_v_def preempt_disable_def)
  obtain s3 where ld: "load_vmcs ?s2 = Inr (0, s3)" and k3: "kept_by ?p (rw s3) oth (rv ?s2) True s3"
    using load_ok [OF run_prologue [OF ok(1,2)] on2] unfolding sel by auto
  have nl: "\<not> launched (rv s3)"
  proof -
    have "mini_vmcs_clear (rv ?s2) (rw ?s2) = Inr ((rv ?s2)\<lparr>launched := False\<rparr>, rw ?s2)"
      by (rule vmcs_clear_unloaded [OF sel(3)])
    then show ?thesis using ld sel(3)
      by (auto simp: load_vmcs_def Let_def rbind_eq_Inr mini_ept_invept_global_def mini_invept_def in_operation_def upd_v_def
          split: if_splits)
  qed
  have r: "store_fields (ev_fields e) g VM_EXIT_REASON = 0x80000021" for g
    using e(3) by (simp add: store_fields_map_of field_trunc_def)
  have b31: "bit (0x80000021 :: u64) 31" using and_exp_eq_0_iff_not_bit [of "0x80000021 :: u64" 31] by simp
  obtain s6 where t: "run_turn e s3 = leave (- EIO) KVM_EXIT_INTERNAL_ERROR s6" "run_ok ?p (rw s3) oth (rv ?s2) s6"
    "launched (rv s6)" "\<not> vlaunched (regions (rw s6) ?p)"
    using k3 e(1)
  proof (cases rule: turn_cases)
    case (bad s6)
    then show ?thesis using that nl by blast
  qed (use e(2) r b31 in auto)
  let ?s7 = "local_irq True (upd_v (\<lambda>v. v\<lparr>run_exit_reason := KVM_EXIT_INTERNAL_ERROR\<rparr>) s6)"
  let ?s1 = "?s7\<lparr>rw := preempt_enable (rw ?s7)\<rparr>"
  have run1: "mini_vcpu_run_loop [e] s = Inr (Some (- EIO), ?s1)"
    using on2 ld t(1)
    by (simp add: mini_vcpu_run_loop_def Let_def mini_cpu_in_vmx_operation_def run_out_def leave_def)
  have ph: "vmcs_phys (rv s6) = ?p" using t(2) by (simp add: run_ok_def)
  have st: "launched (rv ?s1)" "\<not> vlaunched (regions (rw ?s1) ?p)" "vmcs_phys (rv ?s1) = ?p"
    using t(3,4) ph by (simp_all add: preempt_enable_def)
  text \<open>The second run finds the VMCS loaded and enters with VMRESUME.\<close>
  have v1: "vcpu_ok oth ?s1" "loaded_cpu (rv ?s1) = Some (cur_cpu (rw s))" "cur_cpu (rw ?s1) = cur_cpu (rw s)"
    "\<forall>c. vmxon_done (cpus (rw ?s1) c) = vmxon_done (cpus (rw s) c)"
    using run_loop_ok [OF ok, of "[e]"] e(1) run1 by auto
  let ?t2 = "(upd_v (\<lambda>v. v\<lparr>run_exit_reason := 0\<rparr>) ?s1)\<lparr>rw := preempt_disable (rw ?s1)\<rparr>"
  have cur: "cur_cpu (rw ?t2) = cur_cpu (rw s)" "loaded_cpu (rv ?t2) = Some (cur_cpu (rw s))" "launched (rv ?t2)"
    "\<not> vlaunched (regions (rw ?t2) ?p)" "cpus (rw ?t2) = cpus (rw ?s1)" "vmxon_done (this_cpu (rw ?t2))"
    using v1 st ok(3) by (simp_all add: preempt_disable_def upd_v_def)
  have ld2: "load_vmcs ?t2 = Inr (0, ?t2)" using cur(1,2) by (simp add: load_vmcs_def)
  have rdy: "vmx_ready (rw ?t2) ?p"
    using v1 cur(1,5,6) st(3) by (auto simp: vcpu_ok_def vmx_ready_def)
  obtain s8 where "run_turn e' ?t2 = Inr (Leave (- EIO) s8)"
    using mismatch_fails [OF rdy] cur(3,4) by blast
  then have "\<exists>s2. mini_vcpu_run_loop [e'] ?s1 = Inr (Some (- EIO), s2)"
    using ld2 cur(6) by (simp add: mini_vcpu_run_loop_def Let_def mini_cpu_in_vmx_operation_def run_out_def)
  then show ?thesis using run1 st by auto
qed

text \<open>A turn that ends in HLT, on whichever VMCS is current.\<close>

lemma hlt_turn:
  assumes q: "vmx_ready (rw t1) q" and l: "launched (rv t1) = vlaunched (regions (rw t1) q)"
    and e: "\<not> ev_fail e" "map_of (rev (ev_fields e)) VM_EXIT_REASON = Some 12"
      "map_of (rev (ev_fields e)) IDT_VECTORING_INFO_FIELD = Some 0"
  shows "\<exists>s7 g. run_turn e t1 = leave 0 KVM_EXIT_HLT s7 \<and>
    (\<forall>p. p \<noteq> q \<longrightarrow> regions (rw s7) p = regions (rw t1) p) \<and>
    vfield (regions (rw s7) q) = store_fields (ev_fields e) g \<and> regs (rv s7) = (ev_regs e)[4 := regs (rv t1) ! 4]"
proof -
  obtain fxs where rt: "mini_vmx_refresh_host_state (rw t1) = Inr (set_fields q fxs (rw t1))"
    using refresh_ready [OF q] by blast
  define t3 where "t3 = put_fields q fxs t1"
  have r3: "vmx_ready (rw t3) q" using q by (simp add: t3_def)
  define t2 where "t2 = put_fields q (inject_fields (pending_intr_info (rv t3)) (vfield (regions (rw t3) q))) (upd_v took t3)"
  define t4 where "t4 = local_irq False t2"
  have r4: "in_vmx (this_cpu (rw t4))" "current_vmcs (this_cpu (rw t4)) = Some q"
    "launched (rv t4) = vlaunched (regions (rw t4) q)" "regs (rv t4) = regs (rv t1)"
    "\<forall>p. p \<noteq> q \<longrightarrow> regions (rw t4) p = regions (rw t1) p"
    using r3 l by (simp_all add: t4_def t2_def t3_def vmx_ready_def local_irq_def upd_v_def took_def)
  let ?f = "store_fields (ev_fields e) (vfield (regions (rw t4) q))"
  have f: "?f VM_EXIT_REASON = 12" "?f IDT_VECTORING_INFO_FIELD = 0"
    using e by (simp_all add: store_fields_map_of field_trunc_def)
  define w5 where "w5 = upd_region q (\<lambda>r. r\<lparr>vfield := ?f, vlaunched := True\<rparr>) (rw t4)"
  define t5 where "t5 = t4\<lparr>rw := w5, rv := (rv t4)\<lparr>regs := (ev_regs e)[4 := regs (rv t4) ! 4]\<rparr>\<rparr>"
  have en: "mini_vmx_enter e t4 = Inr (0, t5\<lparr>rw := mini_wrmsr MSR_KERNEL_GS_BASE (ev_kgs e) w5\<rparr>)"
    using e(1) r4 f by (simp add: mini_vmx_enter_def in_operation_def Let_def t5_def w5_def)
  have g: "mini_rdmsr MSR_KERNEL_GS_BASE (rw t2) = mini_rdmsr MSR_KERNEL_GS_BASE w5"
    by (simp add: mini_rdmsr_def w5_def upd_region_def t4_def local_irq_def)
  have bk: "t5\<lparr>rw := mini_wrmsr MSR_KERNEL_GS_BASE (mini_rdmsr MSR_KERNEL_GS_BASE w5) (mini_wrmsr MSR_KERNEL_GS_BASE (ev_kgs e) w5)\<rparr> = t5"
    unfolding wrmsr_restores by (simp add: t5_def)
  have turn: "run_turn e t1 = after_enter 0 t5"
    unfolding run_turn_def rt rbind_Inr Let_def put_fields_def [symmetric] t3_def [symmetric] inject_run [OF r3]
      t2_def [symmetric] t4_def [symmetric] en g rbind_Inr prod.case
    by (simp add: bk)
  have r5: "vmx_ready (rw t5) q" "vfield (regions (rw t5) q) = ?f" "\<forall>p. p \<noteq> q \<longrightarrow> regions (rw t5) p = regions (rw t1) p"
    "regs (rv t5) = (ev_regs e)[4 := regs (rv t1) ! 4]"
    using r4 by (simp_all add: t5_def w5_def upd_region_def vmx_ready_def)
  define t6 where "t6 = upd_v (\<lambda>v. v\<lparr>launched := True, n_exits := n_exits v + 1\<rparr>) t5"
  have "vmx_ready (rw (upd_v h t6)) q" for h using r5(1) by (simp add: t6_def)
  then have co: "mini_vcpu_complete_intr_info t6 = Inr (upd_v (\<lambda>v. v\<lparr>pending_intr_info := 0\<rparr>) t6)"
    using r5(2) f by (simp add: mini_vcpu_complete_intr_info_def rd0_ready Let_def t6_def)
  have "vmx_ready (rw t6) q" using r5(1) by (simp add: t6_def)
  then have ae: "after_enter 0 t5 = leave 0 KVM_EXIT_HLT (upd_v (\<lambda>v. v\<lparr>n_hlt_exits := n_hlt_exits v + 1\<rparr>)
      (upd_v (\<lambda>v. v\<lparr>pending_intr_info := 0\<rparr>) t6))"
    using r5(2) f co by (simp add: after_enter_def rd0_ready Let_def t6_def [symmetric] dispatch_def) (simp add: t6_def f)
  show ?thesis unfolding turn ae
    by (intro exI conjI, rule refl) (use r5 f in \<open>auto simp: t6_def upd_v_def\<close>)
qed

text \<open>
  The loop asks only on which CPU the VMCS was loaded last, not whether it is still the current one.
\<close>

lemma leave_run:
  assumes "vmxon_done (this_cpu (rw s))"
    and "load_vmcs ((upd_v (\<lambda>v. v\<lparr>run_exit_reason := 0\<rparr>) s)\<lparr>rw := preempt_disable (rw s)\<rparr>) = Inr (0, t)"
    and "run_turn e t = leave r why s7"
  shows "\<exists>s'. mini_vcpu_run_loop [e] s = Inr (Some r, s') \<and> run_exit_reason (rv s') = why \<and>
    regions (rw s') = regions (rw s7) \<and> regs (rv s') = regs (rv s7)"
  using assms
  by (simp add: mini_vcpu_run_loop_def Let_def mini_cpu_in_vmx_operation_def run_out_def leave_def preempt_disable_def)
    (simp add: upd_v_def local_irq_def preempt_enable_def)

lemma foreign_run:
  assumes on: "vmxon_done (this_cpu (rw s))" "in_vmx (this_cpu (rw s))"
    and ld: "loaded_cpu (rv s) = Some (cur_cpu (rw s))" and q: "current_vmcs (this_cpu (rw s)) = Some q"
    and l: "launched (rv s) = vlaunched (regions (rw s) q)"
    and e: "\<not> ev_fail e" "map_of (rev (ev_fields e)) VM_EXIT_REASON = Some 12"
      "map_of (rev (ev_fields e)) IDT_VECTORING_INFO_FIELD = Some 0"
  shows "\<exists>s' g. mini_vcpu_run_loop [e] s = Inr (Some 0, s') \<and> run_exit_reason (rv s') = KVM_EXIT_HLT \<and>
    (\<forall>p. p \<noteq> q \<longrightarrow> regions (rw s') p = regions (rw s) p) \<and>
    vfield (regions (rw s') q) = store_fields (ev_fields e) g \<and> regs (rv s') = (ev_regs e)[4 := regs (rv s) ! 4]"
proof -
  let ?t = "(upd_v (\<lambda>v. v\<lparr>run_exit_reason := 0\<rparr>) s)\<lparr>rw := preempt_disable (rw s)\<rparr>"
  have tl: "load_vmcs ?t = Inr (0, ?t)" "vmx_ready (rw ?t) q" "launched (rv ?t) = vlaunched (regions (rw ?t) q)"
    using on ld q l by (simp_all add: load_vmcs_def preempt_disable_def upd_v_def vmx_ready_def)
  from hlt_turn [OF tl(2,3) e] obtain s7 g where "run_turn e ?t = leave 0 KVM_EXIT_HLT s7"
    "\<forall>p. p \<noteq> q \<longrightarrow> regions (rw s7) p = regions (rw s) p" "vfield (regions (rw s7) q) = store_fields (ev_fields e) g"
    "regs (rv s7) = (ev_regs e)[4 := regs (rv s) ! 4]"
    by (auto simp: upd_v_def preempt_disable_def)
  with leave_run [OF on(1) tl(1)] show ?thesis by fastforce
qed

lemma hlt_run:
  assumes "vcpu_ok oth s" "launch_ok s" "vmxon_done (this_cpu (rw s))"
    and e: "\<not> ev_fail e" "map_of (rev (ev_fields e)) VM_EXIT_REASON = Some 12"
      "map_of (rev (ev_fields e)) IDT_VECTORING_INFO_FIELD = Some 0"
  shows "\<exists>s'. mini_vcpu_run_loop [e] s = Inr (Some 0, s')"
proof -
  let ?t = "(upd_v (\<lambda>v. v\<lparr>run_exit_reason := 0\<rparr>) s)\<lparr>rw := preempt_disable (rw s)\<rparr>"
  have on: "vmxon_done (this_cpu (rw ?t))" using assms(3) by (simp add: preempt_disable_def)
  from load_ok [OF run_prologue [OF assms(1,2)] on] obtain t p where ld: "load_vmcs ?t = Inr (0, t)"
    and k: "run_ok p (rw t) oth (rv ?t) t" "launch_ok t" by (auto simp: kept_by_def)
  have "vmx_ready (rw t) p" "launched (rv t) = vlaunched (regions (rw t) p)"
    using run_ok_ready [OF k(1)] k by (auto simp: launch_ok_def run_ok_def)
  from hlt_turn [OF this e] leave_run [OF assms(3) ld] show ?thesis by blast
qed

text \<open>
  C20. \<open>KVM_RUN\<close> skips VMPTRLD when its own VMCS was last loaded on this CPU, even if another VM's VMCS has been
  loaded there since.  After VM B has run on the CPU, a run of VM A on it enters B's guest: B's VMCS takes
  the exit and A's registers are replaced by those of B's guest, while A's VMCS is not touched.
\<close>

theorem run_enters_foreign_vmcs:
  assumes b: "vcpu_ok oth b" "launch_ok b" "vmxon_done (this_cpu (rw b))" "online (rw b) (cur_cpu (rw b))"
      "\<forall>e \<in> set es. length (ev_regs e) = 16" "mini_vcpu_run_loop es b = Inr (Some r, b')" "r \<noteq> - EIO"
    and a: "rw a = rw b'" "loaded_cpu (rv a) = Some (cur_cpu (rw b))" "vmcs_phys (rv a) \<noteq> vmcs_phys (rv b)"
      "launched (rv a) = launched (rv b')"
    and e: "\<not> ev_fail e" "map_of (rev (ev_fields e)) VM_EXIT_REASON = Some 12"
      "map_of (rev (ev_fields e)) IDT_VECTORING_INFO_FIELD = Some 0"
  shows "\<exists>a' g. mini_vcpu_run_loop [e] a = Inr (Some 0, a') \<and> run_exit_reason (rv a') = KVM_EXIT_HLT \<and>
    vfield (regions (rw a') (vmcs_phys (rv b))) = store_fields (ev_fields e) g \<and>
    regs (rv a') = (ev_regs e)[4 := regs (rv a) ! 4] \<and>
    regions (rw a') (vmcs_phys (rv a)) = regions (rw b) (vmcs_phys (rv a))"
proof -
  from run_loop_ok [OF b(1-5)] b(6,7) have k: "vcpu_ok oth b'" "launch_ok b'" "cur_cpu (rw b') = cur_cpu (rw b)"
    "loaded_cpu (rv b') = Some (cur_cpu (rw b))" "vmcs_phys (rv b') = vmcs_phys (rv b)"
    "\<forall>q. q \<noteq> vmcs_phys (rv b) \<longrightarrow> regions (rw b') q = regions (rw b) q"
    by auto
  have on: "vmxon_done (this_cpu (rw a))" "in_vmx (this_cpu (rw a))"
    "current_vmcs (this_cpu (rw a)) = Some (vmcs_phys (rv b))"
    using k(1,3,4,5) a(1) by (auto simp: vcpu_ok_def)
  have "launched (rv a) = vlaunched (regions (rw a) (vmcs_phys (rv b)))"
    using k(2,5) a(1,4) by (simp add: launch_ok_def)
  from foreign_run [OF on(1,2) _ on(3) this e(1,2) e(3)] a k(3,6) show ?thesis by (fastforce simp: a(1))
qed

section \<open>Witnesses\<close>

definition ex_rs :: "u64 \<Rightarrow> rs" where
  "ex_rs p = (case mini_ept_init ex_ept (pmem ex_world) of (_, ept, m) \<Rightarrow>
     \<lparr>rw = ex_world\<lparr>regions := (\<lambda>_. \<lparr>vrev = 4, vfield = (\<lambda>_. 0), vlaunched = False, active_on = {}\<rparr>), pmem := m\<rparr>,
      rk = \<lparr>vm_id = 1, refcount = 2, kslot = ex_slot, kept = ept, kserial = replicate 512 0, serial_len = 0,
        kvcpu = Some 0\<rparr>,
      rv = ex_vcpu\<lparr>vmcs_phys := p\<rparr>, klog = [], invepts = []\<rparr>)"

definition ex_exit :: "u64 \<Rightarrow> (u32 \<times> u64) list \<Rightarrow> exit_event" where
  "ex_exit reason fs = \<lparr>ev_fail = False, ev_fields = [(VM_EXIT_REASON, reason), (IDT_VECTORING_INFO_FIELD, 0)] @ fs,
     ev_regs = replicate 16 7, ev_kgs = 0x1234\<rparr>"

definition run_state :: "(int option \<times> rs) res \<Rightarrow> rs" where
  "run_state r = (case r of Inr (_, s) \<Rightarrow> s | Inl _ \<Rightarrow> ex_rs 0)"

lemma ex_ept_init: "mini_ept_init ex_ept (pmem ex_world) = (0, kept (rk (ex_rs p)), pmem (rw (ex_rs p)))"
  by (simp add: ex_rs_def mini_ept_init_def ex_world_def alloc_page_def)

lemma ex_rs_ok: "vcpu_ok {#20, 21#} (ex_rs p)" "launch_ok (ex_rs p)" "vmxon_done (this_cpu (rw (ex_rs p)))"
  "online (rw (ex_rs p)) (cur_cpu (rw (ex_rs p)))" "loaded_cpu (rv (ex_rs p)) = None"
proof -
  have e: "ept_ok {#20, 21#} (kept (rk (ex_rs p))) (pmem (rw (ex_rs p)))"
    using ept_init_ok(1) [OF ex_world_facts(2) ex_ept_init] by (simp add: ex_world_def)
  show "vcpu_ok {#20, 21#} (ex_rs p)" 
    using e ex_ept_facts(2)
    by (simp add: vcpu_ok_def ex_rs_def ex_world_def ex_cpu_def ex_vcpu_def serial_ok_def ex_msrs_def split: prod.splits)
qed (simp_all add: ex_rs_def launch_ok_def ex_world_def ex_cpu_def ex_vcpu_def split: prod.splits)

lemma ex_exit_facts [simp]:
  "length (ev_regs (ex_exit r fs)) = 16" "\<not> ev_fail (ex_exit r fs)"
  "map_of (rev (ev_fields (ex_exit r []))) VM_EXIT_REASON = Some r"
  "map_of (rev (ev_fields (ex_exit r []))) IDT_VECTORING_INFO_FIELD = Some 0"
  by (simp_all add: ex_exit_def)

lemma ex_hlt_run: "\<exists>s'. mini_vcpu_run_loop [ex_exit 12 []] (ex_rs p) = Inr (Some 0, s')"
  by (rule hlt_run [OF ex_rs_ok(1-3)]) simp_all


theorem failed_entry_sticks_witness:
  "\<exists>s1. mini_vcpu_run_loop [ex_exit 0x80000021 []] (ex_rs 0x5000) = Inr (Some (- EIO), s1) \<and>
    (\<exists>s2. mini_vcpu_run_loop [ex_exit 12 []] s1 = Inr (Some (- EIO), s2))"
proof -
  have "loaded_cpu (rv (ex_rs 0x5000)) = None" by (rule ex_rs_ok(5))
  from failed_entry_sticks [OF ex_rs_ok(1-4) this, of "ex_exit 0x80000021 []" "ex_exit 12 []"]
  show ?thesis by auto
qed

theorem run_enters_foreign_vmcs_witness:
  "\<exists>b' a'. mini_vcpu_run_loop [ex_exit 12 []] (ex_rs 0x5000) = Inr (Some 0, b') \<and>
     mini_vcpu_run_loop [ex_exit 12 []] (b'\<lparr>rv := (rv b')\<lparr>vmcs_phys := 0x6000\<rparr>\<rparr>) = Inr (Some 0, a') \<and>
     vlaunched (regions (rw a') 0x6000) = vlaunched (regions (rw (ex_rs 0x5000)) 0x6000)"
proof -
  have p: "vmcs_phys (rv (ex_rs 0x5000)) = 0x5000" by (simp add: ex_rs_def split: prod.splits)
  have l: "\<forall>e \<in> set [ex_exit 12 []]. length (ev_regs e) = 16" by simp
  obtain b' where r: "mini_vcpu_run_loop [ex_exit 12 []] (ex_rs 0x5000) = Inr (Some 0, b')"
    using ex_hlt_run [of "0x5000"] by blast
  let ?a = "b'\<lparr>rv := (rv b')\<lparr>vmcs_phys := 0x6000\<rparr>\<rparr>"
  have "loaded_cpu (rv b') = Some (cur_cpu (rw (ex_rs 0x5000)))"
    using run_loop_ok [OF ex_rs_ok(1-4) [of "0x5000"] l] r by auto
  with run_enters_foreign_vmcs [OF ex_rs_ok(1-4) [of "0x5000"] l r, of ?a "ex_exit 12 []"] r p
  show ?thesis by auto
qed

definition ex_guest :: rs where
  "ex_guest = (ex_rs 0x5000)\<lparr>rw := (rw (ex_rs 0x5000))\<lparr>cpus := (\<lambda>_. ex_cpu\<lparr>current_vmcs := Some 0x5000\<rparr>)\<rparr>,
     rv := (rv (ex_rs 0x5000))\<lparr>loaded_cpu := Some 0\<rparr>\<rparr>"

lemma ex_guest_ok: "kept_by 0x5000 (rw ex_guest) {#20, 21#} (rv ex_guest) L ex_guest"
proof -
  have "vcpu_ok {#20, 21#} (ex_rs 0x5000)" by (rule ex_rs_ok)
  then show ?thesis
    by (simp add: vcpu_ok_def kept_by_def run_ok_def ex_guest_def launch_ok_def vmx_ready_def same_world_def ex_cpu_def)
      (simp add: ex_rs_def ex_world_def ex_vcpu_def split: prod.splits)
qed

definition ex_cut :: exit_event where
  "ex_cut = ex_exit 1 [(IDT_VECTORING_INFO_FIELD, 0x80000031)]"

theorem serial_capture_witness:
  "\<exists>s'. serial_outs [72, 105, 10] (ex_rs 0) = Inr s' \<and> captured (rk s') = [72, 105, 10]"
proof -
  have "serial_ok (rk (ex_rs 0))" "serial_len (rk (ex_rs 0)) = 0"
    by (simp_all add: ex_rs_def serial_ok_def split: prod.splits)
  from serial_capture [OF this, of "[72, 105, 10]"] show ?thesis by auto
qed

theorem interrupted_nmi_dropped_witness:
  "\<exists>s'. mini_vcpu_complete_intr_info (put_fields 0x5000 [(IDT_VECTORING_INFO_FIELD, 0x80000202)] ex_guest) = Inr s' \<and>
     pending_intr_info (rv s') = 0"
proof -
  have "kept_by 0x5000 (rw ex_guest) {#20, 21#} (rv ex_guest) False (put_fields 0x5000 [(IDT_VECTORING_INFO_FIELD, 0x80000202)] ex_guest)"
    using ex_guest_ok [of False] by (simp add: kept_by_def)
  from interrupted_nmi_dropped [OF this] show ?thesis by (simp add: field_trunc_def)
qed

theorem interrupt_redelivered_witness:
  "\<exists>s'. run_turns [ex_cut] ex_guest = Inr (None, s') \<and> pending_intr_info (rv s') = 0x80000031"
proof -
  have f: "store_fields (ev_fields ex_cut) g VM_EXIT_REASON = 1" for g
    by (simp add: store_fields_map_of field_trunc_def ex_cut_def ex_exit_def)
  have nf: "\<not> ev_fail ex_cut" by (simp add: ex_cut_def)
  have l: "length (ev_regs ex_cut) = 16" by (simp add: ex_cut_def)
  have "\<exists>s1. run_turn ex_cut ex_guest = Inr (Again s1)"
    using ex_guest_ok l
  proof (cases rule: turn_cases)
    case (exit s6 g)
    obtain i where "mini_vcpu_complete_intr_info s6 = Inr (upd_v (\<lambda>v. v\<lparr>pending_intr_info := i\<rparr>) s6)"
      using complete_ok [OF exit(3)] by auto
    with exit(6) show ?thesis by (simp add: dispatch_def f)
  qed (use f nf in auto)
  then obtain s1 where r: "run_turns [ex_cut] ex_guest = Inr (None, s1)" by auto
  have "\<forall>e \<in> set [ex_cut]. length (ev_regs e) = 16 \<and>
      map_of (rev (ev_fields e)) IDT_VECTORING_INFO_FIELD = Some (0x80000000 OR ucast (0x31 :: u8))"
    by (simp add: ex_cut_def ex_exit_def)
  from interrupt_redelivered [OF ex_guest_ok _ this r] r show ?thesis by simp
qed

end
