(* ===== verification/MiniVcpu.thy ===== *)
theory MiniVcpu
  imports MiniRun "HOL-Library.Multiset"
begin

text \<open>
  The system call interface of \<open>mini-kvm\<close> (\<open>vcpu.c\<close>): the three kinds of files, their ioctl, mmap and
  release operations, the memory slot, and the reference counts that tie a VM to its files.  The
  kernel objects live in two heaps, so that a use after a free is a fault of the model.  What the kernel and
  user space answer (allocations, file descriptors, pinned pages, copies) is a record of answers.
\<close>

section \<open>State\<close>

abbreviation (input) EINTR :: int where "EINTR \<equiv> 4"
abbreviation (input) EEXIST :: int where "EEXIST \<equiv> 17"
abbreviation (input) ENOTTY :: int where "ENOTTY \<equiv> 25"

datatype fobj = VmFile nat | VcpuFile nat

text \<open>
  \<open>vmh\<close> and \<open>vch\<close> hold the live \<open>struct mini_kvm\<close> and \<open>struct mini_kvm_vcpu\<close>, the latter with its pointer
  to the VM; \<open>ofiles\<close> are the open files, \<open>pins\<close> the user pages \<open>pin_user_pages\<close> holds.
\<close>

record sys =
  sw :: mk_world
  vmh :: "nat \<Rightarrow> mini_kvm option"
  vch :: "nat \<Rightarrow> (mini_vcpu \<times> nat) option"
  vm_next :: nat
  vc_next :: nat
  vm_id_counter :: int
  ofiles :: "fobj list"
  pins :: "u64 list"
  slog :: "u8 list list"
  sinvepts :: "nat list"

record region =
  rg_slot :: u32
  rg_flags :: u32
  rg_gpa :: u64
  rg_size :: u64
  rg_uaddr :: u64

record answers =
  a_kzalloc :: bool
  a_kvcalloc :: bool
  a_copy :: bool
  a_killed :: bool
  a_fd :: int
  a_mig :: nat
  a_pins :: "u64 list"
  a_pin_err :: int
  a_region :: region
  a_vector :: int
  a_exits :: "exit_event list"

text \<open>Following a pointer to a VM or a virtual CPU.\<close>

definition with_vm :: "nat \<Rightarrow> sys \<Rightarrow> (mini_kvm \<Rightarrow> 'a res) \<Rightarrow> 'a res" where
  "with_vm a s f = (case vmh s a of None \<Rightarrow> Inl UseAfterFree | Some k \<Rightarrow> f k)"

definition with_vc :: "nat \<Rightarrow> sys \<Rightarrow> (mini_vcpu \<Rightarrow> nat \<Rightarrow> 'a res) \<Rightarrow> 'a res" where
  "with_vc c s f = (case vch s c of None \<Rightarrow> Inl UseAfterFree | Some (v, a) \<Rightarrow> f v a)"

definition set_vm :: "nat \<Rightarrow> mini_kvm \<Rightarrow> sys \<Rightarrow> sys" where
  "set_vm a k s = s\<lparr>vmh := (vmh s)(a \<mapsto> k)\<rparr>"

definition set_vc :: "nat \<Rightarrow> mini_vcpu \<Rightarrow> nat \<Rightarrow> sys \<Rightarrow> sys" where
  "set_vc c v a s = s\<lparr>vch := (vch s)(c \<mapsto> (v, a))\<rparr>"

definition kfree_vm :: "nat \<Rightarrow> sys \<Rightarrow> sys" where
  "kfree_vm a s = s\<lparr>vmh := (vmh s)(a := None)\<rparr>"

definition kfree_vc :: "nat \<Rightarrow> sys \<Rightarrow> sys" where
  "kfree_vc c s = s\<lparr>vch := (vch s)(c := None)\<rparr>"

definition set_mem :: "mk_mem \<Rightarrow> sys \<Rightarrow> sys" where
  "set_mem m s = s\<lparr>sw := (sw s)\<lparr>pmem := m\<rparr>\<rparr>"

section \<open>Reference counts and the end of a VM\<close>

fun unpin_user_pages :: "u64 list \<Rightarrow> u64 list \<Rightarrow> u64 list res" where
  "unpin_user_pages [] ps = Inr ps"
| "unpin_user_pages (p # qs) ps = (if p \<in> set ps then unpin_user_pages qs (remove1 p ps) else Inl BadFree)"

definition mini_kvm_unpin_memslot :: "nat \<Rightarrow> sys \<Rightarrow> sys res" where
  "mini_kvm_unpin_memslot a s =
     with_vm a s (\<lambda>k.
       if \<not> svalid (kslot k) then Inr s
       else rbind (unpin_user_pages (take (unat (npages (kslot k))) (pages (kslot k))) (pins s)) (\<lambda>ps.
         Inr (set_vm a (k\<lparr>kslot := (kslot k)\<lparr>pages := [], svalid := False\<rparr>\<rparr>) (s\<lparr>pins := ps\<rparr>))))"

definition mini_kvm_destroy :: "nat \<Rightarrow> sys \<Rightarrow> sys res" where
  "mini_kvm_destroy a s =
     rbind (mini_kvm_unpin_memslot a s) (\<lambda>s1.
     with_vm a s1 (\<lambda>k.
     rbind (mini_ept_destroy (kept k) (pmem (sw s1))) (\<lambda>(e, m).
     Inr (kfree_vm a (set_mem m s1)))))"

definition mini_kvm_get :: "nat \<Rightarrow> sys \<Rightarrow> sys res" where
  "mini_kvm_get a s = with_vm a s (\<lambda>k. Inr (set_vm a (k\<lparr>refcount := refcount k + 1\<rparr>) s))"

definition mini_kvm_put :: "nat \<Rightarrow> sys \<Rightarrow> sys res" where
  "mini_kvm_put a s =
     with_vm a s (\<lambda>k.
       if refcount k = 1 then mini_kvm_destroy a (set_vm a (k\<lparr>refcount := 0\<rparr>) s)
       else Inr (set_vm a (k\<lparr>refcount := refcount k - 1\<rparr>) s))"

section \<open>The memory slot\<close>

definition page_aligned :: "u64 \<Rightarrow> bool" where
  "page_aligned x \<longleftrightarrow> x AND 0xfff = 0"

text \<open>
  Registration in its two halves: the checks and the pinning, then the stores to the slot.  Nothing
  makes them one: the VM's lock is not taken.
\<close>

definition memregion_pin :: "answers \<Rightarrow> nat \<Rightarrow> sys \<Rightarrow> (int \<times> u64 list \<times> sys) res" where
  "memregion_pin A a s =
     (let r = a_region A; npg = drop_bit 12 (rg_size r) in
      if \<not> a_copy A then Inr (- EFAULT, [], s)
      else if rg_slot r \<noteq> 0 \<or> rg_flags r \<noteq> 0 then Inr (- EINVAL, [], s)
      else with_vm a s (\<lambda>k.
        if svalid (kslot k) then Inr (- EEXIST, [], s)
        else if rg_size r = 0 \<or> \<not> page_aligned (rg_gpa r) \<or> \<not> page_aligned (rg_uaddr r) \<or> \<not> page_aligned (rg_size r)
        then Inr (- EINVAL, [], s)
        else if \<not> a_kvcalloc A then Inr (- ENOMEM, [], s)
        else
          (let pinned = (if a_pin_err A < 0 then a_pin_err A else int (length (a_pins A)));
               s1 = (if pinned > 0 then s\<lparr>pins := a_pins A @ pins s\<rparr> else s)
           in if pinned \<noteq> int (unat npg)
              then rbind (if pinned > 0 then unpin_user_pages (a_pins A) (pins s1) else Inr (pins s1))
                     (\<lambda>ps. Inr (- EFAULT, [], s1\<lparr>pins := ps\<rparr>))
              else Inr (0, a_pins A, s1))))"

definition memregion_store :: "region \<Rightarrow> u64 list \<Rightarrow> nat \<Rightarrow> sys \<Rightarrow> sys res" where
  "memregion_store r ps a s =
     with_vm a s (\<lambda>k. Inr (set_vm a (k\<lparr>kslot := \<lparr>svalid = True, base_gpa = rg_gpa r,
       npages = drop_bit 12 (rg_size r), userspace_addr = rg_uaddr r, pages = ps\<rparr>\<rparr>) s))"

definition mini_kvm_set_memregion :: "answers \<Rightarrow> nat \<Rightarrow> sys \<Rightarrow> (int \<times> sys) res" where
  "mini_kvm_set_memregion A a s =
     rbind (memregion_pin A a s) (\<lambda>(r, ps, s1).
       if r \<noteq> 0 then Inr (r, s1) else rbind (memregion_store (a_region A) ps a s1) (\<lambda>s2. Inr (0, s2)))"

section \<open>Virtual CPUs\<close>

text \<open>\<open>anon_inode_getfd\<close> opens a file on the object and installs it, or fails and opens nothing.\<close>

definition anon_inode_getfd :: "answers \<Rightarrow> fobj \<Rightarrow> sys \<Rightarrow> int \<times> sys" where
  "anon_inode_getfd A f s = (a_fd A, if a_fd A < 0 then s else s\<lparr>ofiles := f # ofiles s\<rparr>)"

definition zero_vcpu :: mini_vcpu where
  "zero_vcpu = \<lparr>regs = replicate 16 0, vcpu_id = 0, vmcs_page = None, vmcs_phys = 0, launched = False,
     loaded_cpu = None, run_page = None, run_exit_reason = 0, pending_intr_info = 0, n_exits = 0,
     n_io_exits = 0, n_ept_violations = 0, n_hlt_exits = 0, n_extint_exits = 0, n_nmi_exits = 0, n_injected = 0\<rparr>"

definition teardown_vc :: "nat \<Rightarrow> sys \<Rightarrow> sys res" where
  "teardown_vc c s =
     with_vc c s (\<lambda>v a. rbind (mini_vcpu_vmx_teardown v (sw s)) (\<lambda>(v1, w). Inr (set_vc c v1 a (s\<lparr>sw := w\<rparr>))))"

definition free_run_page :: "nat \<Rightarrow> sys \<Rightarrow> sys res" where
  "free_run_page c s =
     with_vc c s (\<lambda>v a. case run_page v of
       None \<Rightarrow> Inr s
     | Some p \<Rightarrow> rbind (free_page p (pmem (sw s))) (\<lambda>m. Inr (set_mem m s)))"

definition drop_vcpu :: "int \<Rightarrow> nat \<Rightarrow> sys \<Rightarrow> (int \<times> sys) res" where
  "drop_vcpu r c s =
     rbind (teardown_vc c s) (\<lambda>s1. rbind (free_run_page c s1) (\<lambda>s2. Inr (r, kfree_vc c s2)))"

definition publish_vcpu :: "answers \<Rightarrow> nat \<Rightarrow> nat \<Rightarrow> sys \<Rightarrow> (int \<times> sys) res" where
  "publish_vcpu A a c s =
     rbind (mini_kvm_get a s) (\<lambda>s1.
     with_vm a s1 (\<lambda>k.
       if kvcpu k \<noteq> None then rbind (mini_kvm_put a s1) (drop_vcpu (- EEXIST) c)
       else
         (case anon_inode_getfd A (VcpuFile c) (set_vm a (k\<lparr>kvcpu := Some c\<rparr>) s1) of (fd, s2) \<Rightarrow>
          if fd < 0 then
            with_vm a s2 (\<lambda>k2. rbind (mini_kvm_put a (set_vm a (k2\<lparr>kvcpu := None\<rparr>) s2)) (drop_vcpu fd c))
          else Inr (fd, s2))))"

definition mini_kvm_create_vcpu :: "answers \<Rightarrow> nat \<Rightarrow> u32 \<Rightarrow> sys \<Rightarrow> (int \<times> sys) res" where
  "mini_kvm_create_vcpu A a i s =
     (if i \<noteq> 0 then Inr (- EINVAL, s)
      else with_vm a s (\<lambda>k.
        if \<not> svalid (kslot k) then Inr (- EINVAL, s)
        else if \<not> a_kzalloc A then Inr (- ENOMEM, s)
        else
          (case alloc_page (pmem (sw s)) of
             (None, m) \<Rightarrow> Inr (- ENOMEM, set_mem m s)
           | (Some p, m) \<Rightarrow>
               (let c = vc_next s; s1 = (set_mem m s)\<lparr>vc_next := vc_next s + 1\<rparr> in
                rbind (mini_vcpu_vmx_setup (a_mig A) (eptp (kept k)) (zero_vcpu\<lparr>run_page := Some p\<rparr>) (sw s1)) (\<lambda>(r, v, w).
                let s2 = set_vc c v a (s1\<lparr>sw := w\<rparr>) in
                if r \<noteq> 0 then rbind (free_run_page c s2) (\<lambda>s3. Inr (r, kfree_vc c s3))
                else publish_vcpu A a c s2)))))"

abbreviation (input) KVM_RUN :: u32 where "KVM_RUN \<equiv> 0xae80"
abbreviation (input) MINI_KVM_VCPU_INJECT_IRQ :: u32 where "MINI_KVM_VCPU_INJECT_IRQ \<equiv> 0x40044d02"

text \<open>The result \<open>None\<close> of an ioctl says that it has not returned: the guest is still running.\<close>

definition vcpu_run :: "answers \<Rightarrow> nat \<Rightarrow> sys \<Rightarrow> (int option \<times> sys) res" where
  "vcpu_run A c s =
     with_vc c s (\<lambda>v a. with_vm a s (\<lambda>k.
       rbind (mini_vcpu_run_loop (a_exits A) \<lparr>rw = sw s, rk = k, rv = v, klog = slog s, invepts = sinvepts s\<rparr>)
         (\<lambda>(ret, t). Inr (ret, set_vm a (rk t) (set_vc c (rv t) a
            (s\<lparr>sw := rw t, slog := klog t, sinvepts := invepts t\<rparr>))))))"

definition mini_vcpu_ioctl :: "answers \<Rightarrow> nat \<Rightarrow> u32 \<Rightarrow> u64 \<Rightarrow> sys \<Rightarrow> (int option \<times> sys) res" where
  "mini_vcpu_ioctl A c cmd arg s =
     with_vc c s (\<lambda>v a.
       if a_killed A then Inr (Some (- EINTR), s)
       else if cmd = KVM_RUN then
         (if arg \<noteq> 0 then Inr (Some (- EINVAL), s) else vcpu_run A c s)
       else if cmd = MINI_KVM_VCPU_INJECT_IRQ then
         (if \<not> a_copy A then Inr (Some (- EFAULT), s)
          else (case mini_vcpu_inject_irq (a_vector A) v of (r, v1) \<Rightarrow> Inr (Some r, set_vc c v1 a s)))
       else Inr (Some (- ENOTTY), s))"

text \<open>The page mapped, if any.\<close>

definition mini_vcpu_mmap :: "nat \<Rightarrow> u64 \<Rightarrow> u64 \<Rightarrow> int \<Rightarrow> sys \<Rightarrow> (int \<times> u64 option) res" where
  "mini_vcpu_mmap c pgoff len remap s =
     with_vc c s (\<lambda>v a.
       if pgoff \<noteq> 0 then Inr (- EINVAL, None)
       else if len \<noteq> 4096 then Inr (- EINVAL, None)
       else Inr (remap, if remap = 0 then run_page v else None))"

definition mini_vcpu_release :: "nat \<Rightarrow> sys \<Rightarrow> sys res" where
  "mini_vcpu_release c s =
     with_vc c s (\<lambda>v a.
     with_vm a s (\<lambda>k.
     let s1 = (if kvcpu k = Some c then set_vm a (k\<lparr>kvcpu := None\<rparr>) s else s) in
     rbind (teardown_vc c s1) (\<lambda>s2.
     rbind (free_run_page c s2) (\<lambda>s3.
     mini_kvm_put a (kfree_vc c s3)))))"

section \<open>VM files and the device file\<close>

abbreviation (input) KVM_CREATE_VCPU :: u32 where "KVM_CREATE_VCPU \<equiv> 0xae41"
abbreviation (input) KVM_SET_USER_MEMORY_REGION :: u32 where "KVM_SET_USER_MEMORY_REGION \<equiv> 0x4020ae46"
abbreviation (input) MINI_KVM_VM_GET_SERIAL :: u32 where "MINI_KVM_VM_GET_SERIAL \<equiv> 0x81004d01"

definition get_serial :: "mini_kvm \<Rightarrow> u8 list" where
  "get_serial k = (let n = min (serial_len k) 255 in take n (kserial k) @ replicate (256 - n) 0)"

text \<open>The second component is what \<open>MINI_KVM_VM_GET_SERIAL\<close> copies to user space.\<close>

definition mini_vm_ioctl :: "answers \<Rightarrow> nat \<Rightarrow> u32 \<Rightarrow> u64 \<Rightarrow> sys \<Rightarrow> (int \<times> u8 list \<times> sys) res" where
  "mini_vm_ioctl A a cmd arg s =
     (if cmd = KVM_CREATE_VCPU then
        rbind (mini_kvm_create_vcpu A a (ucast arg) s) (\<lambda>(r, s1). Inr (r, [], s1))
      else if cmd = KVM_SET_USER_MEMORY_REGION then
        rbind (mini_kvm_set_memregion A a s) (\<lambda>(r, s1). Inr (r, [], s1))
      else if cmd = MINI_KVM_VM_GET_SERIAL then
        with_vm a s (\<lambda>k. if a_copy A then Inr (0, get_serial k, s) else Inr (- EFAULT, [], s))
      else Inr (- ENOTTY, [], s))"

definition mini_vm_release :: "nat \<Rightarrow> sys \<Rightarrow> sys res" where
  "mini_vm_release a s = mini_kvm_put a s"

definition zero_kvm :: mini_kvm where
  "zero_kvm = \<lparr>vm_id = 0, refcount = 0,
     kslot = \<lparr>svalid = False, base_gpa = 0, npages = 0, userspace_addr = 0, pages = []\<rparr>,
     kept = \<lparr>pml4 = None, eptp = 0, tracked = []\<rparr>, kserial = replicate 512 0, serial_len = 0, kvcpu = None\<rparr>"

definition mini_kvm_create_vm :: "answers \<Rightarrow> sys \<Rightarrow> (int \<times> sys) res" where
  "mini_kvm_create_vm A s =
     (if \<not> a_kzalloc A then Inr (- ENOMEM, s)
      else
        (let a = vm_next s;
             s1 = s\<lparr>vm_next := vm_next s + 1, vm_id_counter := vm_id_counter s + 1\<rparr>;
             k = zero_kvm\<lparr>vm_id := vm_id_counter s1, refcount := 1\<rparr>
         in case mini_ept_init (kept k) (pmem (sw s1)) of (r, e, m) \<Rightarrow>
            (let s2 = set_vm a (k\<lparr>kept := e\<rparr>) (set_mem m s1) in
             if r \<noteq> 0 then Inr (r, kfree_vm a s2)
             else
               (case anon_inode_getfd A (VmFile a) s2 of (fd, s3) \<Rightarrow>
                if fd < 0 then
                  rbind (mini_ept_destroy e (pmem (sw s3))) (\<lambda>(e1, m1). Inr (fd, kfree_vm a (set_mem m1 s3)))
                else Inr (fd, s3)))))"

abbreviation (input) KVM_GET_API_VERSION :: u32 where "KVM_GET_API_VERSION \<equiv> 0xae00"
abbreviation (input) KVM_CREATE_VM :: u32 where "KVM_CREATE_VM \<equiv> 0xae01"
abbreviation (input) KVM_CHECK_EXTENSION :: u32 where "KVM_CHECK_EXTENSION \<equiv> 0xae03"
abbreviation (input) KVM_GET_VCPU_MMAP_SIZE :: u32 where "KVM_GET_VCPU_MMAP_SIZE \<equiv> 0xae04"

definition mini_kvm_dev_ioctl :: "answers \<Rightarrow> u32 \<Rightarrow> u64 \<Rightarrow> sys \<Rightarrow> (int \<times> sys) res" where
  "mini_kvm_dev_ioctl A cmd arg s =
     (if cmd = KVM_GET_API_VERSION then Inr (12, s)
      else if cmd = KVM_CHECK_EXTENSION then Inr (if arg = 3 then 1 else 0, s)
      else if cmd = KVM_GET_VCPU_MMAP_SIZE then Inr (4096, s)
      else if cmd = KVM_CREATE_VM then mini_kvm_create_vm A s
      else Inr (- ENOTTY, s))"

section \<open>Outcomes\<close>

text \<open>
  Neither a dangling pointer nor a bad free; the other faults of the run loop have their own theorem.
\<close>

definition ensures :: "'a res \<Rightarrow> ('a \<Rightarrow> bool) \<Rightarrow> bool" where
  "ensures r Q \<longleftrightarrow> (case r of Inl f \<Rightarrow> f \<noteq> UseAfterFree \<and> f \<noteq> BadFree | Inr x \<Rightarrow> Q x)"

named_theorems outcome \<open>introduction rules for ensures\<close>

lemma ensures_Inr [simp]: "ensures (Inr x) Q = Q x"
  by (simp add: ensures_def)

lemma ensures_Inl [simp]: "ensures (Inl f) Q = (f \<noteq> UseAfterFree \<and> f \<noteq> BadFree)"
  by (simp add: ensures_def)

lemma ensures_mono: "ensures r P \<Longrightarrow> (\<And>x. P x \<Longrightarrow> Q x) \<Longrightarrow> ensures r Q"
  by (auto simp: ensures_def split: sum.splits)

lemma ensures_bind: "ensures r P \<Longrightarrow> (\<And>x. P x \<Longrightarrow> ensures (f x) Q) \<Longrightarrow> ensures (rbind r f) Q"
  by (cases r) simp_all

lemma ensures_in_operation [simp]: "ensures (in_operation w f) Q = (in_vmx (this_cpu w) \<longrightarrow> ensures (f w) Q)"
  by (simp add: in_operation_def)

abbreviation (input) keeps_mem :: "mk_world \<Rightarrow> mk_world \<Rightarrow> bool" where
  "keeps_mem w w' \<equiv> pmem w' = pmem w"

lemma vmclear_mem: "ensures (mini_vmclear p w) (\<lambda>(_, w'). keeps_mem w w')"
  by (simp add: mini_vmclear_def upd_region_def upd_cpu_def)

lemma vmptrld_mem: "ensures (mini_vmptrld p w) (\<lambda>(_, w'). keeps_mem w w')"
  by (simp add: mini_vmptrld_def upd_region_def upd_cpu_def)

lemma vmwrite_mem: "ensures (mini_vmwrite f x w) (\<lambda>(_, w'). keeps_mem w w')"
  by (simp add: mini_vmwrite_def upd_region_def split: option.splits)

lemma vmwrites_mem: "ensures (vmwrites fxs w) (keeps_mem w)"
proof (induction fxs arbitrary: w)
  case (Cons fx fxs)
  obtain f x where fx: "fx = (f, x)" by (cases fx)
  show ?case unfolding fx vmwrites.simps
  proof (rule ensures_bind [OF vmwrite_mem])
    fix a assume "case a of (_, w') \<Rightarrow> keeps_mem w w'"
    then show "ensures (case a of (_, w1) \<Rightarrow> vmwrites fxs w1) (keeps_mem w)"
      using Cons.IH [of "snd a"] by (auto split: prod.splits)
  qed
qed simp

lemma vmcs_clear_mem:
  "ensures (mini_vmcs_clear v w) (\<lambda>(v', w'). keeps_mem w w' \<and> vmcs_page v' = vmcs_page v \<and> run_page v' = run_page v)"
proof -
  have ipi: "ensures (mini_vmclear_ipi p x) (\<lambda>(_, w'). keeps_mem x w')" for p x
    using vmclear_mem by (simp add: mini_vmclear_ipi_def)
  have smp: "ensures (smp_call_function_single c (mini_vmclear_ipi p) x) (\<lambda>(_, w'). keeps_mem x w')" for c p x
    unfolding smp_call_function_single_def
    by (auto intro!: ensures_bind [OF ipi])
  show ?thesis
    unfolding mini_vmcs_clear_def Let_def
    by (auto split: option.splits intro!: ensures_bind [OF vmclear_mem] ensures_bind [OF smp] simp: preempt_disable_def preempt_enable_def)
qed

lemma host_state_mem: "ensures (mini_vmx_set_constant_host_state w) (keeps_mem w)"
  unfolding mini_vmx_set_constant_host_state_def mini_vmx_fixup_host_for_cpu_def
  by (rule ensures_bind [OF vmwrites_mem], rule ensures_bind [OF vmwrites_mem], rule ensures_mono [OF vmwrites_mem]) simp

lemma setup_fields_mem:
  "ensures (setup_fields e v w) (\<lambda>(r, v', w'). keeps_mem w w' \<and> vmcs_page v' = vmcs_page v \<and> run_page v' = run_page v)"
proof -
  note step = ensures_bind [OF vmwrites_mem] ensures_bind [OF host_state_mem]
  show ?thesis
    unfolding setup_fields_def mini_vmx_set_guest_state_def
    by (auto simp del: vmwrites.simps split: prod.splits intro!: step ensures_bind [OF vmcs_clear_mem])
qed

lemma vmx_setup_mem:
  assumes "vmcs_page v = None"
  shows "ensures (mini_vcpu_vmx_setup mig e v w) (\<lambda>(r, v', w').
    mset (live (pmem w')) = mset (live (pmem w)) + mset_set (set_option (vmcs_page v')) \<and> run_page v' = run_page v \<and>
    (r \<noteq> 0 \<longrightarrow> vmcs_page v' = None))"
proof (cases "alloc_page (pmem w)")
  case (Pair po m)
  have al: "mset (live m) = mset (live (pmem w)) + mset_set (set_option po)"
    using Pair by (auto simp: alloc_page_def split: list.splits option.splits)
  have free: "ensures (setup_free r p v' w') (\<lambda>(r', v'', w''). mset (live (pmem w'')) = mset (live (pmem w)) \<and>
      run_page v'' = run_page v' \<and> vmcs_page v'' = None \<and> r' = r)" if po: "po = Some p" and w': "pmem w' = m" for r p v' w'
  proof -
    have "p \<in># mset (live m)" unfolding al po by simp
    then have i: "p \<in> set (live m)" by simp
    show ?thesis unfolding setup_free_def free_page_def w' if_P [OF i] rbind_Inr by (simp add: al po)
  qed
  note fields = setup_fields_mem
  show ?thesis
  proof (cases po)
    case None
    then show ?thesis using Pair al assms by (simp add: mini_vcpu_vmx_setup_def)
  next
    case (Some p)
    let ?Q = "\<lambda>(r, v', w'). mset (live (pmem w')) = mset (live (pmem w)) + mset_set (set_option (vmcs_page v')) \<and>
      run_page v' = run_page v \<and> (r \<noteq> 0 \<longrightarrow> vmcs_page v' = None)"
    let ?v1 = "v\<lparr>vmcs_page := Some p, vmcs_phys := page_to_phys p\<rparr>"
    have fr: "ensures (setup_free r p v' w') ?Q" if "pmem w' = m" "run_page v' = run_page v" for r v' w'
      by (rule ensures_mono [OF free [OF Some that(1)]]) (use that in auto)
    have al': "mset (live m) = mset (live (pmem w)) + {#p#}" using al Some by simp
    show ?thesis
      unfolding mini_vcpu_vmx_setup_def Pair prod.case Some option.case Let_def
    proof (rule ensures_bind [OF vmclear_mem], clarsimp split del: if_split)
      fix r2 :: int and w2 :: mk_world
      assume w2: "pmem w2 = pmem (upd_region (page_to_phys p) (\<lambda>r. r\<lparr>vrev := vmcs_revision_id (glob w)\<rparr>) (w\<lparr>pmem := m\<rparr>))"
      then have m2: "pmem w2 = m" by (simp add: upd_region_def)
      show "ensures (if r2 \<noteq> 0 then setup_free r2 p ?v1 w2
          else rbind (mini_vmptrld (page_to_phys p) w2) (\<lambda>(r, w3). if r \<noteq> 0 then setup_free r p ?v1 w3
            else rbind (setup_fields e (?v1\<lparr>loaded_cpu := Some (cur_cpu w3)\<rparr>) (w3\<lparr>cur_cpu := mig\<rparr>))
              (\<lambda>(r, v4, w4). if r \<noteq> 0 then setup_free r p v4 w4 else Inr (0, v4, w4)))) ?Q"
        using fr [OF m2] fr m2 al'
        by (auto intro!: ensures_bind [OF vmptrld_mem] ensures_bind [OF fields] split: if_splits)
    qed
  qed
qed


lemma free_page_mem:
  assumes "p \<in># mset (live m)"
  shows "\<exists>m'. free_page p m = Inr m' \<and> mset (live m') = mset (live m) - {#p#}"
  using assms by (simp add: free_page_def)

lemma teardown_mem:
  assumes "mset_set (set_option (vmcs_page v)) \<subseteq># mset (live (pmem w))"
  shows "ensures (mini_vcpu_vmx_teardown v w) (\<lambda>(v', w').
    mset (live (pmem w')) = mset (live (pmem w)) - mset_set (set_option (vmcs_page v)) \<and> run_page v' = run_page v \<and> vmcs_page v' = None)"
proof (cases "vmcs_page v")
  case None
  then show ?thesis by (simp add: mini_vcpu_vmx_teardown_def)
next
  case (Some p)
  obtain m' where m': "free_page p (pmem w) = Inr m'" "mset (live m') = mset (live (pmem w)) - {#p#}"
    using free_page_mem [of p "pmem w"] assms Some by auto
  show ?thesis
    unfolding mini_vcpu_vmx_teardown_def Some option.case
    by (rule ensures_bind [OF vmcs_clear_mem]) (auto simp: m')
qed

lemma free_all_mem: "mset ps \<subseteq># mset (live m) \<Longrightarrow> \<exists>m'. free_all ps m = Inr m' \<and> mset (live m') = mset (live m) - mset ps"
proof (induction ps arbitrary: m)
  case (Cons p ps)
  then have "p \<in># mset (live m)" by (simp add: insert_subset_eq_iff)
  then obtain m1 where m1: "free_page p m = Inr m1" "mset (live m1) = mset (live m) - {#p#}"
    using free_page_mem by blast
  have "mset ps \<subseteq># mset (live m1)" using Cons.prems m1(2) by (simp add: insert_subset_eq_iff)
  then show ?case using Cons.IH [of m1] m1 by auto
qed simp

text \<open>The pages of the tables of a VM.\<close>

definition ept_pages :: "mini_ept \<Rightarrow> u64 multiset" where
  "ept_pages e = mset_set (set_option (pml4 e)) + mset (tracked e)"

lemma ept_destroy_mem:
  assumes "ept_pages e \<subseteq># mset (live m)"
  shows "\<exists>e' m'. mini_ept_destroy e m = Inr (e', m') \<and> mset (live m') = mset (live m) - ept_pages e"
proof -
  have "mset (tracked e) \<subseteq># ept_pages e" by (simp add: ept_pages_def)
  then obtain m1 where m1: "free_all (tracked e) m = Inr m1" "mset (live m1) = mset (live m) - mset (tracked e)"
    using free_all_mem [of "tracked e" m] subset_mset.order_trans [OF _ assms] by blast
  show ?thesis
  proof (cases "pml4 e")
    case None
    then show ?thesis using m1 by (simp add: mini_ept_destroy_def ept_pages_def)
  next
    case (Some p)
    then have "{#p#} + mset (tracked e) \<subseteq># mset (live m)" using assms by (simp add: ept_pages_def)
    from mset_subset_eq_count [OF this, of p] have "p \<in># mset (live m1)" unfolding m1(2) in_diff_count by simp
    then obtain m2 where "free_page p m1 = Inr m2" "mset (live m2) = mset (live m1) - {#p#}"
      using free_page_mem by blast
    then show ?thesis using m1 Some by (simp add: mini_ept_destroy_def ept_pages_def)
  qed
qed

lemma ept_init_mem:
  assumes "mini_ept_init e m = (r, e', m')" "pml4 e = None" "tracked e = []"
  shows "mset (live m') = mset (live m) + ept_pages e'" "r \<noteq> 0 \<Longrightarrow> ept_pages e' = {#}"
  using assms
  by (auto simp: mini_ept_init_def alloc_page_def ept_pages_def split: list.splits option.splits)

lemma walk_mem:
  "ept_walk_from shs t g al e m = (r, e', m') \<Longrightarrow>
   mset (live m') + mset (tracked e) = mset (live m) + mset (tracked e') \<and> pml4 e' = pml4 e"
proof (induction shs t g al e m arbitrary: r e' m' rule: ept_walk_from.induct)
  case (3 sh sh' shs t gpa al e m)
  show ?case
  proof (cases "tables m t (ept_idx gpa sh) AND EPT_PTE_READ = 0")
    case False
    then show ?thesis using 3 by (simp add: Let_def)
  next
    case True
    show ?thesis
    proof (cases "\<not> al \<or> length (tracked e) \<ge> EPT_TRACK_MAX")
      case True
      then show ?thesis using 3(3) \<open>tables m t (ept_idx gpa sh) AND EPT_PTE_READ = 0\<close>
        by (auto simp: Let_def split: if_splits)
    next
      case nf: False
      obtain po m1 where al: "alloc_page m = (po, m1)" by (cases "alloc_page m")
      show ?thesis
      proof (cases po)
        case None
        have "live m1 = live m" using al None by (auto simp: alloc_page_def split: list.splits option.splits)
        then show ?thesis using 3(3) True nf al None by (simp add: Let_def)
      next
        case (Some np)
        have l: "mset (live m1) = mset (live m) + {#np#}"
          using al Some by (auto simp: alloc_page_def split: list.splits option.splits)
        let ?m2 = "set_entry t (ept_idx gpa sh) (page_to_phys np OR EPT_ENTRY_RWX) m1"
        have "mset (live m') + mset (tracked (e\<lparr>tracked := tracked e @ [np]\<rparr>)) = mset (live ?m2) + mset (tracked e') \<and>
            pml4 e' = pml4 (e\<lparr>tracked := tracked e @ [np]\<rparr>)"
          using 3(1) [OF refl True _ _ al [unfolded Some, symmetric] refl refl] 3(3) True nf al Some by (simp add: Let_def)
        then show ?thesis using l by (simp add: set_entry_def)
      qed
    qed
  qed
qed auto


text \<open>What the run loop leaves alone: all it does to memory is to move pages into the tables of its VM.\<close>

definition run_kept :: "rs \<Rightarrow> rs \<Rightarrow> bool" where
  "run_kept s t \<longleftrightarrow>
     mset (live (pmem (rw t))) + ept_pages (kept (rk s)) = mset (live (pmem (rw s))) + ept_pages (kept (rk t)) \<and>
     kslot (rk t) = kslot (rk s) \<and> refcount (rk t) = refcount (rk s) \<and> kvcpu (rk t) = kvcpu (rk s) \<and>
     vmcs_page (rv t) = vmcs_page (rv s) \<and> run_page (rv t) = run_page (rv s)"

lemma run_kept_refl [simp]: "run_kept s s"
  by (simp add: run_kept_def)

lemma balance_trans:
  fixes t :: "'a multiset"
  assumes "t + es = s + et" "u + et = t + eu"
  shows "u + es = s + eu"
proof -
  have "u + es + et = (u + et) + es" by simp
  also have "\<dots> = (t + es) + eu" unfolding assms(2) by simp
  also have "\<dots> = s + eu + et" unfolding assms(1) by simp
  finally show ?thesis by simp
qed

lemma run_kept_trans: "run_kept s t \<Longrightarrow> run_kept t u \<Longrightarrow> run_kept s u"
  unfolding run_kept_def by (auto intro: balance_trans)

definition vcpu_only :: "(mini_vcpu \<Rightarrow> mini_vcpu) \<Rightarrow> bool" where
  "vcpu_only f \<longleftrightarrow> (\<forall>v. vmcs_page (f v) = vmcs_page v \<and> run_page (f v) = run_page v)"

lemma run_kept_updates [simp]:
  "vcpu_only f \<Longrightarrow> run_kept s (upd_v f t) = run_kept s t"
  "run_kept s (local_irq b t) = run_kept s t"
  "vcpu_only f \<Longrightarrow> run_kept (upd_v f s) t = run_kept s t" "run_kept (local_irq b s) t = run_kept s t"
  "run_kept s (t\<lparr>klog := l\<rparr>) = run_kept s t" "run_kept s (t\<lparr>invepts := i\<rparr>) = run_kept s t"
  by (simp_all add: run_kept_def vcpu_only_def upd_v_def local_irq_def)

lemma run_kept_world: "keeps_mem (rw s) w \<Longrightarrow> run_kept s (s\<lparr>rw := w\<rparr>)"
  by (simp add: run_kept_def)

lemma vcpu_only_simps [simp]:
  "vcpu_only (\<lambda>v. v\<lparr>n_exits := a v\<rparr>)" "vcpu_only (\<lambda>v. v\<lparr>n_io_exits := a v\<rparr>)"
  "vcpu_only (\<lambda>v. v\<lparr>launched := l, n_exits := a v\<rparr>)" "vcpu_only (\<lambda>v. v\<lparr>loaded_cpu := c\<rparr>)"
  "vcpu_only (\<lambda>v. v\<lparr>n_hlt_exits := a v\<rparr>)" "vcpu_only (\<lambda>v. v\<lparr>n_extint_exits := a v\<rparr>)"
  "vcpu_only (\<lambda>v. v\<lparr>n_nmi_exits := a v\<rparr>)" "vcpu_only (\<lambda>v. v\<lparr>n_injected := a v\<rparr>)"
  "vcpu_only (\<lambda>v. v\<lparr>pending_intr_info := b v\<rparr>)" "vcpu_only (\<lambda>v. v\<lparr>run_exit_reason := b v\<rparr>)"
  "vcpu_only (set_reg i x)"
  by (simp_all add: vcpu_only_def set_reg_def)

lemma ensures_rd:
  "(\<And>x. ensures (k x) Q) \<Longrightarrow> ensures (rd f s k) Q" "(\<And>x. ensures (k x) Q) \<Longrightarrow> ensures (rd0 f s k) Q"
  by (simp_all add: rd_def rd0_def mini_vmread_def in_operation_def split: option.splits)

lemma ensures_wr: "(\<And>t. run_kept s t \<Longrightarrow> ensures (k t) Q) \<Longrightarrow> ensures (wr f x s k) Q"
  unfolding wr_def
  by (rule ensures_bind [OF vmwrite_mem]) (auto simp: run_kept_world)

lemma serial_out_kept: "ensures (mini_serial_out c s) (run_kept s)"
  by (auto simp: mini_serial_out_def Let_def run_kept_def)

lemma io_advance_kept: "ensures (io_advance s) (\<lambda>(r, t). run_kept s t)"
  unfolding io_advance_def by (auto intro!: ensures_rd ensures_wr)

lemma upd_v_kept: "vcpu_only f \<Longrightarrow> run_kept s (upd_v f s)"
  by simp

lemma io_exit_kept: "ensures (mini_handle_io_exit s) (\<lambda>(r, t). run_kept s t)"
proof -
  have "ensures (io_advance t) (\<lambda>(r, u). run_kept s u)" if "run_kept s t" for t
    using io_advance_kept [of t] by (rule ensures_mono) (use that run_kept_trans in auto)
  then show ?thesis
    unfolding mini_handle_io_exit_def Let_def
    by (auto intro!: ensures_rd ensures_bind [OF serial_out_kept])
qed

lemma violation_kept: "ensures (handle_ept_violation s) (\<lambda>(r, t). run_kept s t)"
  unfolding handle_ept_violation_def mini_ept_handle_violation_def mini_ept_walk_def Let_def
  apply (rule ensures_rd)
  apply (auto split: prod.splits option.splits simp: run_kept_def set_entry_def ept_pages_def dest!: walk_mem)
  done


fun turn_kept :: "rs \<Rightarrow> turn \<Rightarrow> bool" where
  "turn_kept s (Again t) = run_kept s t"
| "turn_kept s (Leave r t) = run_kept s t"

lemma leave_kept: "run_kept s t \<Longrightarrow> ensures (leave r why t) (turn_kept s)"
  by (simp add: leave_def)

lemma complete_kept: "ensures (mini_vcpu_complete_intr_info s) (run_kept s)"
  unfolding mini_vcpu_complete_intr_info_def Let_def by (auto intro!: ensures_rd)

lemma nmi_kept: "ensures (mini_vcpu_reinject_nmi s) (run_kept s)"
  unfolding mini_vcpu_reinject_nmi_def by (auto intro!: ensures_rd)

lemma refresh_kept: "ensures (mini_vmx_refresh_host_state w) (keeps_mem w)"
  unfolding mini_vmx_refresh_host_state_def by (rule vmwrites_mem)

lemma inject_kept: "ensures (inject_pending s) (run_kept s)"
proof -
  let ?t = "upd_v (\<lambda>v. v\<lparr>pending_intr_info := 0\<rparr>) s"
  have eq: "s\<lparr>rv := (rv s)\<lparr>pending_intr_info := 0\<rparr>\<rparr> = ?t" by (simp add: upd_v_def)
  have last: "ensures (wr VM_ENTRY_INTR_INFO_FIELD x t Inr) (run_kept s)" if "run_kept s t" for t x
    using that by (auto intro!: ensures_wr intro: run_kept_trans)
  have first: "ensures (rd0 GUEST_RFLAGS ?t (\<lambda>rflags.
      wr GUEST_RFLAGS (rflags OR 0x200) ?t (\<lambda>s2.
      rd0 GUEST_INTERRUPTIBILITY_INFO s2 (\<lambda>ib.
      wr GUEST_INTERRUPTIBILITY_INFO (ib AND NOT 3) s2 (\<lambda>s3.
      Inr (upd_v (\<lambda>v. v\<lparr>n_injected := n_injected v + 1\<rparr>) s3)))))) (run_kept s)"
  proof -
    have "run_kept s ?t" by simp
    then show ?thesis by (auto intro!: ensures_rd ensures_wr intro: run_kept_trans)
  qed
  show ?thesis
    unfolding inject_pending_def mini_vcpu_take_intr_info_def prod.case Let_def eq
    by (rule ensures_bind [of _ "run_kept s"]) (use first in \<open>auto intro: last\<close>)
qed

lemma exit_cpuid_kept: "ensures (exit_cpuid s) (turn_kept s)"
proof -
  have "run_kept s (upd_v (set_reg 0 0) s)" by simp
  then show ?thesis
    unfolding exit_cpuid_def Let_def by (auto intro!: ensures_rd ensures_wr intro: run_kept_trans)
qed

lemma dispatch_kept: "ensures (dispatch reason s) (turn_kept s)"
proof -
  have io: "ensures (exit_io s) (turn_kept s)"
    unfolding exit_io_def Let_def
    by (rule ensures_bind [OF io_exit_kept]) (auto intro!: leave_kept simp: run_kept_def local_irq_def)
  have ept: "ensures (exit_ept s) (turn_kept s)"
    unfolding exit_ept_def by (rule ensures_bind [OF violation_kept]) (auto intro!: leave_kept)
  have nmi: "ensures (exit_nmi s) (turn_kept s)"
    unfolding exit_nmi_def
    by (auto intro!: ensures_rd leave_kept ensures_bind [OF nmi_kept] simp: run_kept_def upd_v_def)
  show ?thesis
    using io ept nmi exit_cpuid_kept [of s] by (simp add: dispatch_def leave_kept)
qed

lemma after_enter_kept: "run_kept s t \<Longrightarrow> ensures (after_enter r t) (turn_kept s)"
proof -
  assume t: "run_kept s t"
  let ?t = "upd_v (\<lambda>v. v\<lparr>launched := True, n_exits := n_exits v + 1\<rparr>) t"
  have t1: "run_kept s ?t" using t by simp
  have d: "ensures (dispatch x u) (turn_kept s)" if "run_kept ?t u" for x u
    using dispatch_kept [of x u]
  proof (rule ensures_mono)
    fix y assume "turn_kept u y"
    then show "turn_kept s y" using run_kept_trans [OF run_kept_trans [OF t1 that]] by (cases y) auto
  qed
  show ?thesis
    unfolding after_enter_def Let_def
    using leave_kept [OF t] leave_kept [OF t1]
    by (auto intro!: ensures_rd ensures_bind [OF complete_kept] d)
qed

lemma enter_kept: "ensures (mini_vmx_enter e s) (\<lambda>(r, t). run_kept s t)"
  by (auto simp: mini_vmx_enter_def Let_def run_kept_def upd_region_def mini_wrmsr_def upd_cpu_def split: option.splits)

lemma run_turn_kept: "ensures (run_turn e s) (turn_kept s)"
  unfolding run_turn_def Let_def
proof (rule ensures_bind [OF refresh_kept])
  fix w assume "keeps_mem (rw s) w"
  then have w: "run_kept s (s\<lparr>rw := w\<rparr>)" by (rule run_kept_world)
  show "ensures (rbind (inject_pending (s\<lparr>rw := w\<rparr>)) (\<lambda>s2. rbind (mini_vmx_enter e (local_irq False s2)) (\<lambda>(r, s4).
      after_enter r (s4\<lparr>rw := mini_wrmsr MSR_KERNEL_GS_BASE (mini_rdmsr MSR_KERNEL_GS_BASE (rw s2)) (rw s4)\<rparr>)))) (turn_kept s)"
  proof (rule ensures_bind [OF inject_kept])
    fix s2 assume "run_kept (s\<lparr>rw := w\<rparr>) s2"
    then have s2: "run_kept s (local_irq False s2)" using run_kept_trans [OF w] by simp
    have "run_kept s (s4\<lparr>rw := mini_wrmsr MSR_KERNEL_GS_BASE x (rw s4)\<rparr>)" if "run_kept (local_irq False s2) s4" for s4 x
      using run_kept_trans [OF s2 that] by (simp add: run_kept_def mini_wrmsr_def upd_cpu_def)
    then show "ensures (rbind (mini_vmx_enter e (local_irq False s2)) (\<lambda>(r, s4).
      after_enter r (s4\<lparr>rw := mini_wrmsr MSR_KERNEL_GS_BASE (mini_rdmsr MSR_KERNEL_GS_BASE (rw s2)) (rw s4)\<rparr>))) (turn_kept s)"
      by (auto intro!: ensures_bind [OF enter_kept] after_enter_kept)
  qed
qed

lemma run_turns_kept: "ensures (run_turns es s) (\<lambda>(r, t). run_kept s t)"
proof (induction es arbitrary: s)
  case (Cons e es)
  show ?case unfolding run_turns.simps
  proof (rule ensures_bind [OF run_turn_kept])
    fix t assume t: "turn_kept s t"
    show "ensures (case t of Again s1 \<Rightarrow> run_turns es s1 | Leave r s1 \<Rightarrow> Inr (Some r, s1)) (\<lambda>(r, t). run_kept s t)"
    proof (cases t)
      case (Again s1)
      then show ?thesis using ensures_mono [OF Cons.IH [of s1]] t run_kept_trans by fastforce
    qed (use t in simp)
  qed
qed simp

lemma load_kept: "ensures (load_vmcs s) (\<lambda>(r, t). run_kept s t)"
proof -
  have fix_mem: "ensures (mini_vmx_fixup_host_for_cpu w) (keeps_mem w)" for w
    unfolding mini_vmx_fixup_host_for_cpu_def by (rule vmwrites_mem)
  have inv: "ensures (mini_ept_invept_global t) (\<lambda>(r, u). run_kept t u)" for t
    by (simp add: mini_ept_invept_global_def mini_invept_def)
  have set_world: "run_kept t (u\<lparr>rw := w\<rparr>)" if "run_kept t u" "keeps_mem (rw u) w" for t u and w :: mk_world
    using run_kept_trans [OF that(1) run_kept_world [OF that(2)]] .
  have swap_world: "run_kept s (s\<lparr>rw := w, rv := v\<rparr>)"
    if "keeps_mem (rw s) w" "vmcs_page v = vmcs_page (rv s)" "run_page v = run_page (rv s)" for w :: mk_world and v
    using that by (simp add: run_kept_def)
  have tail: "ensures (rbind (mini_ept_invept_global u) (\<lambda>(_, s3).
      rbind (mini_vmx_fixup_host_for_cpu (rw s3))
        (\<lambda>w5. Inr (0, (upd_v (\<lambda>v. v\<lparr>loaded_cpu := Some (cur_cpu (rw s3))\<rparr>) s3)\<lparr>rw := w5\<rparr>))))
      (\<lambda>(r, t). run_kept s t)" if u: "run_kept s u" for u
    by (rule ensures_bind [OF inv]) (auto intro!: ensures_bind [OF fix_mem] set_world run_kept_trans [OF u])
  show ?thesis
  proof (cases "loaded_cpu (rv s) = Some (cur_cpu (rw s))")
    case False
    show ?thesis
      unfolding load_vmcs_def if_not_P [OF False] Let_def
      by (rule ensures_bind [OF vmcs_clear_mem])
        (auto intro!: ensures_bind [OF vmptrld_mem] tail swap_world)
  qed (simp add: load_vmcs_def)
qed

lemma run_kept_preempt [simp]:
  "run_kept s (t\<lparr>rw := preempt_enable w\<rparr>) = run_kept s (t\<lparr>rw := w\<rparr>)"
  "run_kept s (t\<lparr>rw := preempt_disable w\<rparr>) = run_kept s (t\<lparr>rw := w\<rparr>)"
  "run_kept (t\<lparr>rw := preempt_disable w\<rparr>) u = run_kept (t\<lparr>rw := w\<rparr>) u"
  "vcpu_only f \<Longrightarrow> run_kept s ((upd_v f t)\<lparr>rw := w\<rparr>) = run_kept s (t\<lparr>rw := w\<rparr>)"
  "vcpu_only f \<Longrightarrow> run_kept ((upd_v f t)\<lparr>rw := w\<rparr>) u = run_kept (t\<lparr>rw := w\<rparr>) u"
  by (simp_all add: run_kept_def preempt_enable_def preempt_disable_def upd_v_def vcpu_only_def)

lemma run_loop_kept: "ensures (mini_vcpu_run_loop es s) (\<lambda>(r, t). run_kept s t)"
proof -
  let ?s2 = "(upd_v (\<lambda>v. v\<lparr>run_exit_reason := 0\<rparr>) s)\<lparr>rw := preempt_disable (rw s)\<rparr>"
  have load: "ensures (load_vmcs ?s2) (\<lambda>(r, t). run_kept s t)"
    using load_kept [of ?s2] by simp
  have turns: "ensures (run_turns es t) (\<lambda>(r, u). run_kept s u)" if "run_kept s t" for t
    by (rule ensures_mono [OF run_turns_kept]) (use run_kept_trans [OF that] in auto)
  show ?thesis
    unfolding mini_vcpu_run_loop_def Let_def run_out_def upd_v_ok(3)
    by (auto intro!: ensures_bind [OF load] ensures_bind [OF turns] split: option.splits)
qed

section \<open>Ownership\<close>

text \<open>
  Every page and every pin belongs to one object: the tables and the pinned pages to the VM, the VMCS and
  the run page to the virtual CPU.
\<close>

definition heap_sum :: "nat \<Rightarrow> (nat \<Rightarrow> 'a option) \<Rightarrow> ('a \<Rightarrow> u64 multiset) \<Rightarrow> u64 multiset" where
  "heap_sum n h f = (\<Sum>a<n. case h a of None \<Rightarrow> {#} | Some x \<Rightarrow> f x)"

lemma heap_sum_upd:
  assumes "a < n"
  shows "heap_sum n (h(a := x)) f + (case h a of None \<Rightarrow> {#} | Some y \<Rightarrow> f y) =
    heap_sum n h f + (case x of None \<Rightarrow> {#} | Some y \<Rightarrow> f y)"
proof -
  have s: "{..<n} = insert a ({..<n} - {a})" using assms by auto
  have "heap_sum n g f = (case g a of None \<Rightarrow> {#} | Some y \<Rightarrow> f y) + (\<Sum>b\<in>{..<n} - {a}. case g b of None \<Rightarrow> {#} | Some y \<Rightarrow> f y)" for g
    unfolding heap_sum_def by (subst s) (simp add: sum.insert_remove)
  note e = this [of h] this [of "h(a := x)"]
  have "(\<Sum>b\<in>{..<n} - {a}. case (h(a := x)) b of None \<Rightarrow> {#} | Some y \<Rightarrow> f y) =
      (\<Sum>b\<in>{..<n} - {a}. case h b of None \<Rightarrow> {#} | Some y \<Rightarrow> f y)"
    by (rule sum.cong) auto
  then show ?thesis unfolding e by simp
qed

lemma heap_sum_set: "a < n \<Longrightarrow> h a = Some y \<Longrightarrow> heap_sum n (h(a \<mapsto> x)) f + f y = heap_sum n h f + f x"
  using heap_sum_upd [of a n h "Some x" f] by simp

lemma heap_sum_del: "a < n \<Longrightarrow> h a = Some y \<Longrightarrow> heap_sum n (h(a := None)) f + f y = heap_sum n h f"
  using heap_sum_upd [of a n h None f] by simp

lemma heap_sum_new: "h n = None \<Longrightarrow> heap_sum (Suc n) (h(n \<mapsto> x)) f = heap_sum n h f + f x"
proof -
  assume "h n = None"
  then have "heap_sum (Suc n) h f = heap_sum n h f" by (simp add: heap_sum_def)
  then show ?thesis using heap_sum_upd [of n "Suc n" h "Some x" f] \<open>h n = None\<close> by simp
qed

lemma heap_sum_skip: "h n = None \<Longrightarrow> heap_sum (Suc n) h f = heap_sum n h f"
  by (simp add: heap_sum_def)

lemma heap_sum_sub: "a < n \<Longrightarrow> h a = Some y \<Longrightarrow> f y \<subseteq># heap_sum n h f"
  using heap_sum_del [of a n h y f] by (metis mset_subset_eq_add_right)

lemma heap_sum_same: "a < n \<Longrightarrow> h a = Some y \<Longrightarrow> f x = f y \<Longrightarrow> heap_sum n (h(a \<mapsto> x)) f = heap_sum n h f"
  using heap_sum_set [of a n h y x f] by simp

lemma heap_sum_empty: "(\<And>a. h a = None) \<Longrightarrow> heap_sum n h f = {#}"
  by (simp add: heap_sum_def)

definition vm_pages :: "mini_kvm \<Rightarrow> u64 multiset" where
  "vm_pages k = ept_pages (kept k)"

definition vm_pins :: "mini_kvm \<Rightarrow> u64 multiset" where
  "vm_pins k = (if svalid (kslot k) then mset (pages (kslot k)) else {#})"

definition vc_pages :: "mini_vcpu \<times> nat \<Rightarrow> u64 multiset" where
  "vc_pages x = mset_set (set_option (vmcs_page (fst x))) + mset_set (set_option (run_page (fst x)))"

definition acct :: "u64 multiset \<Rightarrow> u64 multiset \<Rightarrow> sys \<Rightarrow> bool" where
  "acct B P s \<longleftrightarrow>
     mset (live (pmem (sw s))) = B + heap_sum (vm_next s) (vmh s) vm_pages + heap_sum (vc_next s) (vch s) vc_pages \<and>
     mset (pins s) = P + heap_sum (vm_next s) (vmh s) vm_pins \<and>
     (\<forall>a k. vmh s a = Some k \<longrightarrow> a < vm_next s \<and>
        (svalid (kslot k) \<longrightarrow> length (pages (kslot k)) = unat (npages (kslot k)))) \<and>
     (\<forall>c x. vch s c = Some x \<longrightarrow> c < vc_next s)"

text \<open>
  The references: \<open>X\<close> are virtual CPUs not yet or no longer reachable from a file, \<open>e\<close> is a VM to which
  the running operation holds a reference of its own.
\<close>

definition refs :: "nat set \<Rightarrow> nat option \<Rightarrow> sys \<Rightarrow> bool" where
  "refs X e s \<longleftrightarrow> distinct (ofiles s) \<and>
     (\<forall>a k. vmh s a = Some k \<longrightarrow>
        refcount k = of_bool (VmFile a \<in> set (ofiles s)) + of_bool (kvcpu k \<noteq> None) + of_bool (e = Some a) \<and>
        refcount k > 0 \<and> (\<forall>c. kvcpu k = Some c \<longrightarrow> (\<exists>v. vch s c = Some (v, a)))) \<and>
     (\<forall>a. VmFile a \<in> set (ofiles s) \<or> e = Some a \<longrightarrow> vmh s a \<noteq> None) \<and>
     (\<forall>c v a. vch s c = Some (v, a) \<longrightarrow> c \<in> X \<or> VcpuFile c \<in> set (ofiles s) \<and> (\<exists>k. vmh s a = Some k \<and> kvcpu k = Some c)) \<and>
     (\<forall>c. VcpuFile c \<in> set (ofiles s) \<longrightarrow> vch s c \<noteq> None)"

lemma refs_vm: "refs X e s \<Longrightarrow> vmh s a = Some k \<Longrightarrow>
    refcount k = of_bool (VmFile a \<in> set (ofiles s)) + of_bool (kvcpu k \<noteq> None) + of_bool (e = Some a) \<and>
    refcount k > 0 \<and> (\<forall>c. kvcpu k = Some c \<longrightarrow> (\<exists>v. vch s c = Some (v, a)))"
  unfolding refs_def by blast

lemma refs_live: "refs X e s \<Longrightarrow> VmFile a \<in> set (ofiles s) \<or> e = Some a \<Longrightarrow> \<exists>k. vmh s a = Some k"
  unfolding refs_def by blast

lemma refs_vc: "refs X e s \<Longrightarrow> vch s c = Some (v, a) \<Longrightarrow>
    c \<in> X \<or> VcpuFile c \<in> set (ofiles s) \<and> (\<exists>k. vmh s a = Some k \<and> kvcpu k = Some c)"
  unfolding refs_def by blast

lemma refs_open: "refs X e s \<Longrightarrow> VcpuFile c \<in> set (ofiles s) \<Longrightarrow> \<exists>v a. vch s c = Some (v, a)"
  unfolding refs_def by fastforce

lemma refsI:
  assumes "distinct (ofiles s)"
    and "\<And>a k. vmh s a = Some k \<Longrightarrow>
      refcount k = of_bool (VmFile a \<in> set (ofiles s)) + of_bool (kvcpu k \<noteq> None) + of_bool (e = Some a) \<and> refcount k > 0"
    and "\<And>a k c. vmh s a = Some k \<Longrightarrow> kvcpu k = Some c \<Longrightarrow> \<exists>v. vch s c = Some (v, a)"
    and "\<And>a. VmFile a \<in> set (ofiles s) \<Longrightarrow> \<exists>k. vmh s a = Some k" "\<And>a. e = Some a \<Longrightarrow> \<exists>k. vmh s a = Some k"
    and "\<And>c v a. vch s c = Some (v, a) \<Longrightarrow> c \<notin> X \<Longrightarrow> VcpuFile c \<in> set (ofiles s) \<and> (\<exists>k. vmh s a = Some k \<and> kvcpu k = Some c)"
    and "\<And>c. VcpuFile c \<in> set (ofiles s) \<Longrightarrow> \<exists>x. vch s c = Some x"
  shows "refs X e s"
  unfolding refs_def
proof (intro conjI allI impI)
  show "vmh s a \<noteq> None" if "VmFile a \<in> set (ofiles s) \<or> e = Some a" for a using assms(4,5) that by fastforce
  show "c \<in> X \<or> VcpuFile c \<in> set (ofiles s) \<and> (\<exists>k. vmh s a = Some k \<and> kvcpu k = Some c)" if "vch s c = Some (v, a)" for c v a
    using assms(6) that by blast
  show "vch s c \<noteq> None" if "VcpuFile c \<in> set (ofiles s)" for c using assms(7) that by fastforce
qed (use assms(1-3) in blast)+

text \<open>A VM's count and the operation's own reference may change together.\<close>

lemma refs_set_vm:
  assumes r: "refs X e s" and v: "vmh s v = Some k" and kv: "kvcpu k' = kvcpu k"
    and n: "refcount k' = of_bool (VmFile v \<in> set (ofiles s)) + of_bool (kvcpu k \<noteq> None) + of_bool (e' = Some v)" "refcount k' > 0"
    and e: "\<And>a. a \<noteq> v \<Longrightarrow> (e' = Some a) = (e = Some a)"
  shows "refs X e' (set_vm v k' s)"
proof (rule refsI)
  show "distinct (ofiles (set_vm v k' s))" using r by (simp add: refs_def set_vm_def)
next
  fix a l assume "vmh (set_vm v k' s) a = Some l"
  then show "refcount l = of_bool (VmFile a \<in> set (ofiles (set_vm v k' s))) + of_bool (kvcpu l \<noteq> None) + of_bool (e' = Some a) \<and> refcount l > 0"
    using n kv refs_vm [OF r, of a l] e [of a] by (cases "a = v") (auto simp: set_vm_def)
next
  fix a l c assume "vmh (set_vm v k' s) a = Some l" "kvcpu l = Some c"
  then show "\<exists>v'. vch (set_vm v k' s) c = Some (v', a)"
    using kv refs_vm [OF r, of a l] refs_vm [OF r v] by (cases "a = v") (auto simp: set_vm_def)
next
  fix c w a assume c: "vch (set_vm v k' s) c = Some (w, a)" "c \<notin> X"
  then show "VcpuFile c \<in> set (ofiles (set_vm v k' s)) \<and> (\<exists>l. vmh (set_vm v k' s) a = Some l \<and> kvcpu l = Some c)"
    using refs_vc [OF r, of c w a] v kv by (cases "a = v") (auto simp: set_vm_def)
next
  fix c assume "VcpuFile c \<in> set (ofiles (set_vm v k' s))"
  then show "\<exists>x. vch (set_vm v k' s) c = Some x" using refs_open [OF r, of c] by (auto simp: set_vm_def)
next
  fix a
  show "\<exists>l. vmh (set_vm v k' s) a = Some l" if "VmFile a \<in> set (ofiles (set_vm v k' s))"
    using refs_live [OF r, of a] that by (auto simp: set_vm_def)
  show "\<exists>l. vmh (set_vm v k' s) a = Some l" if "e' = Some a"
    using refs_live [OF r, of a] that e [of a] by (cases "a = v") (auto simp: set_vm_def)
qed

lemma acct_set_vm:
  assumes a: "acct B P s" and v: "vmh s v = Some k" and k: "kept k' = kept k" "kslot k' = kslot k"
  shows "acct B P (set_vm v k' s)"
proof -
  have lt: "v < vm_next s" using a v by (simp add: acct_def)
  show ?thesis
    using a v k heap_sum_same [where f = vm_pages and h = "vmh s", OF lt v, of k'] heap_sum_same [where f = vm_pins and h = "vmh s", OF lt v, of k']
    by (auto simp: acct_def set_vm_def vm_pages_def vm_pins_def)
qed

lemma unpin_ok: "mset qs \<subseteq># mset ps \<Longrightarrow> \<exists>ps'. unpin_user_pages qs ps = Inr ps' \<and> mset ps' = mset ps - mset qs"
proof (induction qs arbitrary: ps)
  case (Cons q qs)
  then have "q \<in># mset ps" by (simp add: insert_subset_eq_iff)
  moreover from this have "mset qs \<subseteq># mset (remove1 q ps)" using Cons.prems by (simp add: insert_subset_eq_iff)
  ultimately show ?case using Cons.IH [of "remove1 q ps"] by auto
qed simp

lemma destroy_ok:
  assumes a: "acct B P s" and v: "vmh s v = Some k"
  shows "\<exists>s'. mini_kvm_destroy v s = Inr s' \<and> acct B P s' \<and> vmh s' = (vmh s)(v := None) \<and> vch s' = vch s \<and>
    ofiles s' = ofiles s \<and> vm_next s' = vm_next s \<and> vc_next s' = vc_next s"
proof -
  have lt: "v < vm_next s" and len: "svalid (kslot k) \<Longrightarrow> length (pages (kslot k)) = unat (npages (kslot k))"
    using a v unfolding acct_def by blast+
  have pin: "mset (pins s) = P + heap_sum (vm_next s) (vmh s) vm_pins"
    and liv: "mset (live (pmem (sw s))) = B + heap_sum (vm_next s) (vmh s) vm_pages + heap_sum (vc_next s) (vch s) vc_pages"
    using a by (simp_all add: acct_def)
  obtain s1 k1 where s1: "mini_kvm_unpin_memslot v s = Inr s1" "vmh s1 = (vmh s)(v \<mapsto> k1)" "kept k1 = kept k"
    "mset (pins s1) = P + heap_sum (vm_next s) ((vmh s)(v := None)) vm_pins"
    "sw s1 = sw s" "vch s1 = vch s" "ofiles s1 = ofiles s" "vm_next s1 = vm_next s" "vc_next s1 = vc_next s"
  proof (cases "svalid (kslot k)")
    case False
    then have "heap_sum (vm_next s) ((vmh s)(v := None)) vm_pins = heap_sum (vm_next s) (vmh s) vm_pins"
      using heap_sum_del [where f = vm_pins and h = "vmh s", OF lt v] by (simp add: vm_pins_def)
    then show ?thesis using that [of s k] False v pin by (simp add: mini_kvm_unpin_memslot_def with_vm_def fun_upd_idem)
  next
    case True
    have "mset (pages (kslot k)) \<subseteq># mset (pins s)"
      using heap_sum_sub [where f = vm_pins and h = "vmh s", OF lt v] True unfolding pin by (simp add: vm_pins_def subset_mset.add_increasing)
    then obtain ps where ps: "unpin_user_pages (pages (kslot k)) (pins s) = Inr ps" "mset ps = mset (pins s) - mset (pages (kslot k))"
      using unpin_ok by blast
    have "mset (pins s) = P + heap_sum (vm_next s) ((vmh s)(v := None)) vm_pins + mset (pages (kslot k))"
      using heap_sum_del [where f = vm_pins and h = "vmh s", OF lt v] True unfolding pin by (simp add: vm_pins_def)
    then have "mset ps = P + heap_sum (vm_next s) ((vmh s)(v := None)) vm_pins" using ps(2) by simp
    then show ?thesis
      using that [of "set_vm v (k\<lparr>kslot := (kslot k)\<lparr>pages := [], svalid := False\<rparr>\<rparr>) (s\<lparr>pins := ps\<rparr>)"] True v ps(1) len
      by (simp add: mini_kvm_unpin_memslot_def with_vm_def set_vm_def)
  qed
  have "ept_pages (kept k) \<subseteq># mset (live (pmem (sw s)))"
    using heap_sum_sub [where f = vm_pages and h = "vmh s", OF lt v] unfolding liv vm_pages_def
    by (metis mset_subset_eq_add_left mset_subset_eq_add_right subset_mset.order_trans)
  then obtain e' m' where d: "mini_ept_destroy (kept k1) (pmem (sw s1)) = Inr (e', m')"
    "mset (live m') = mset (live (pmem (sw s))) - ept_pages (kept k)"
    using ept_destroy_mem s1(3,5) by metis
  have "mset (live m') = B + heap_sum (vm_next s) ((vmh s)(v := None)) vm_pages + heap_sum (vc_next s) (vch s) vc_pages"
    using heap_sum_del [where f = vm_pages and h = "vmh s", OF lt v, symmetric] unfolding d(2) liv vm_pages_def by simp
  then show ?thesis using a d(1) s1
    by (auto simp: mini_kvm_destroy_def with_vm_def acct_def kfree_vm_def set_mem_def)
qed


lemma put_ok:
  assumes a: "acct B P s" and r: "refs X (Some v) s"
  shows "\<exists>s'. mini_kvm_put v s = Inr s' \<and> acct B P s' \<and> refs X None s' \<and> vch s' = vch s \<and>
    ofiles s' = ofiles s \<and> vc_next s' = vc_next s"
proof -
  obtain k where k: "vmh s v = Some k" using r unfolding refs_def by blast
  note rk = refs_vm [OF r k]
  show ?thesis
  proof (cases "refcount k = 1")
    case False
    let ?s = "set_vm v (k\<lparr>refcount := refcount k - 1\<rparr>) s"
    have "acct B P ?s" by (rule acct_set_vm [OF a k]) simp_all
    moreover have "refs X None ?s" by (rule refs_set_vm [OF r k]) (use rk False in auto)
    ultimately show ?thesis using k False by (simp add: mini_kvm_put_def with_vm_def set_vm_def)
  next
    case True
    let ?s = "set_vm v (k\<lparr>refcount := 0\<rparr>) s"
    have "acct B P ?s" by (rule acct_set_vm [OF a k]) simp_all
    from destroy_ok [OF this, of v "k\<lparr>refcount := 0\<rparr>"] obtain s' where s': "mini_kvm_destroy v ?s = Inr s'" "acct B P s'"
      "vmh s' = (vmh s)(v := None)" "vch s' = vch s" "ofiles s' = ofiles s" "vc_next s' = vc_next s"
      by (auto simp: set_vm_def)
    have none: "VmFile v \<notin> set (ofiles s)" "kvcpu k = None" using rk True by (auto split: if_splits simp: of_bool_def)
    have "refs X None s'"
    proof (rule refsI)
      show "distinct (ofiles s')" using r by (simp add: refs_def s')
    next
      fix a l assume "vmh s' a = Some l"
      then show "refcount l = of_bool (VmFile a \<in> set (ofiles s')) + of_bool (kvcpu l \<noteq> None) + of_bool (None = Some a) \<and> refcount l > 0"
        using refs_vm [OF r, of a l] by (auto simp: s' split: if_splits)
    next
      fix a l c assume "vmh s' a = Some l" "kvcpu l = Some c"
      then show "\<exists>v'. vch s' c = Some (v', a)" using refs_vm [OF r, of a l] by (auto simp: s' split: if_splits)
    next
      fix a assume "VmFile a \<in> set (ofiles s')"
      then show "\<exists>l. vmh s' a = Some l" using refs_live [OF r, of a] none by (auto simp: s')
    next
      fix c w a assume "vch s' c = Some (w, a)" "c \<notin> X"
      then show "VcpuFile c \<in> set (ofiles s') \<and> (\<exists>l. vmh s' a = Some l \<and> kvcpu l = Some c)"
        using refs_vc [OF r, of c w a] none k by (auto simp: s')
    next
      fix c assume "VcpuFile c \<in> set (ofiles s')"
      then show "\<exists>x. vch s' c = Some x" using refs_open [OF r, of c] by (auto simp: s')
    qed simp
    then show ?thesis using k True s' by (simp add: mini_kvm_put_def with_vm_def)
  qed
qed

text \<open>Taking a virtual CPU down gives back both of its pages.\<close>

lemma drop_ok:
  assumes a: "acct B P s" and c: "vch s c = Some (v, p)"
    and f: "\<And>s'. \<lbrakk>acct B P s'; vch s' = (vch s)(c := None); vmh s' = vmh s; ofiles s' = ofiles s\<rbrakk> \<Longrightarrow> ensures (f s') Q"
  shows "ensures (rbind (teardown_vc c s) (\<lambda>s1. rbind (free_run_page c s1) (\<lambda>s2. f (kfree_vc c s2)))) Q"
proof -
  have lt: "c < vc_next s" using a c by (auto simp: acct_def)
  let ?R = "B + heap_sum (vm_next s) (vmh s) vm_pages + heap_sum (vc_next s) ((vch s)(c := None)) vc_pages"
  have liv: "mset (live (pmem (sw s))) = ?R + mset_set (set_option (run_page v)) + mset_set (set_option (vmcs_page v))"
    using a heap_sum_del [where f = vc_pages and h = "vch s", OF lt c, symmetric] by (simp add: acct_def vc_pages_def)
  have "mset_set (set_option (vmcs_page v)) \<subseteq># mset (live (pmem (sw s)))" unfolding liv by simp
  from teardown_mem [OF this]
  have td: "ensures (teardown_vc c s) (\<lambda>s1. \<exists>v1 w1. s1 = set_vc c v1 p (s\<lparr>sw := w1\<rparr>) \<and> run_page v1 = run_page v \<and>
      mset (live (pmem w1)) = ?R + mset_set (set_option (run_page v)))"
    unfolding teardown_vc_def with_vc_def c option.case prod.case
    by (rule ensures_bind) (auto simp: liv intro!: exI)
  show ?thesis
  proof (rule ensures_bind [OF td], elim exE conjE)
    fix s1 v1 w1
    assume s1: "s1 = set_vc c v1 p (s\<lparr>sw := w1\<rparr>)" "run_page v1 = run_page v"
      "mset (live (pmem w1)) = ?R + mset_set (set_option (run_page v))"
    have "\<exists>s2. free_run_page c s1 = Inr s2 \<and> acct B P (kfree_vc c s2) \<and> vch s2 = vch s1 \<and> vmh s2 = vmh s \<and> ofiles s2 = ofiles s"
    proof (cases "run_page v")
      case None
      then show ?thesis using s1 a
        by (auto simp: free_run_page_def with_vc_def set_vc_def kfree_vc_def acct_def)
    next
      case (Some q)
      then obtain m where m: "free_page q (pmem w1) = Inr m" "mset (live m) = ?R"
        using free_page_mem [of q "pmem w1"] s1(3) by auto
      then show ?thesis using s1 a Some
        by (auto simp: free_run_page_def with_vc_def set_vc_def kfree_vc_def set_mem_def acct_def)
    qed
    then obtain s2 where s2: "free_run_page c s1 = Inr s2" "acct B P (kfree_vc c s2)" "vch s2 = vch s1" "vmh s2 = vmh s"
      "ofiles s2 = ofiles s" by blast
    have "ensures (f (kfree_vc c s2)) Q"
      by (rule f [OF s2(2)]) (use s2 s1 in \<open>auto simp: kfree_vc_def set_vc_def\<close>)
    then show "ensures (rbind (free_run_page c s1) (\<lambda>s2. f (kfree_vc c s2))) Q" using s2(1) by simp
  qed
qed

section \<open>Every call keeps the books\<close>

definition sys_ok :: "u64 multiset \<Rightarrow> u64 multiset \<Rightarrow> sys \<Rightarrow> bool" where
  "sys_ok B P s \<longleftrightarrow> acct B P s \<and> refs {} None s"

abbreviation (input) closing :: "fobj \<Rightarrow> sys \<Rightarrow> sys" where
  "closing f s \<equiv> s\<lparr>ofiles := remove1 f (ofiles s)\<rparr>"

lemma acct_files [simp]: "acct B P (s\<lparr>ofiles := fs\<rparr>) = acct B P s"
  by (simp add: acct_def)

lemma set_remove1_distinct: "distinct xs \<Longrightarrow> set (remove1 x xs) = set xs - {x}"
  by simp

lemma vm_release_ok:
  assumes "sys_ok B P s" "VmFile v \<in> set (ofiles s)"
  shows "ensures (mini_vm_release v (closing (VmFile v) s)) (sys_ok B P)"
proof -
  have a: "acct B P s" and r: "refs {} None s" using assms by (auto simp: sys_ok_def)
  have d: "distinct (ofiles s)" using r by (simp add: refs_def)
  have "refs {} (Some v) (closing (VmFile v) s)"
  proof (rule refsI)
    fix a k assume "vmh (closing (VmFile v) s) a = Some k"
    then show "refcount k = of_bool (VmFile a \<in> set (ofiles (closing (VmFile v) s))) + of_bool (kvcpu k \<noteq> None) +
        of_bool (Some v = Some a) \<and> refcount k > 0"
      using refs_vm [OF r, of a k] d assms(2) by (cases "a = v") auto
  next
    fix a k c assume "vmh (closing (VmFile v) s) a = Some k" "kvcpu k = Some c"
    then show "\<exists>w. vch (closing (VmFile v) s) c = Some (w, a)" using refs_vm [OF r, of a k] by auto
  next
    fix c w a assume "vch (closing (VmFile v) s) c = Some (w, a)" "c \<notin> {}"
    then show "VcpuFile c \<in> set (ofiles (closing (VmFile v) s)) \<and> (\<exists>k. vmh (closing (VmFile v) s) a = Some k \<and> kvcpu k = Some c)"
      using refs_vc [OF r, of c w a] by (auto simp: d)
  qed (use d refs_live [OF r] refs_open [OF r] assms(2) in \<open>auto dest: in_set_remove1 set_remove1_subset [THEN subsetD]\<close>)
  then show ?thesis using put_ok [of B P "closing (VmFile v) s" "{}" v] a by (auto simp: mini_vm_release_def sys_ok_def)
qed

lemma refs_drop_vc:
  assumes r: "refs X e s" and c: "c \<in> X" and u: "\<And>a k. vmh s a = Some k \<Longrightarrow> kvcpu k \<noteq> Some c"
    and f: "VcpuFile c \<notin> set (ofiles s)" and t: "vch t = (vch s)(c := None)" "vmh t = vmh s" "ofiles t = ofiles s"
  shows "refs (X - {c}) e t"
proof (rule refsI)
  fix a k d assume "vmh t a = Some k" "kvcpu k = Some d"
  then show "\<exists>w. vch t d = Some (w, a)" using refs_vm [OF r, of a k] u [of a k] by (auto simp: t)
next
  fix d w a assume d: "vch t d = Some (w, a)" "d \<notin> X - {c}"
  then show "VcpuFile d \<in> set (ofiles t) \<and> (\<exists>k. vmh t a = Some k \<and> kvcpu k = Some d)"
    using refs_vc [OF r, of d w a] by (auto simp: t split: if_splits)
next
  fix d assume "VcpuFile d \<in> set (ofiles t)"
  then show "\<exists>x. vch t d = Some x" using refs_open [OF r, of d] f by (auto simp: t)
qed (use r refs_vm [OF r] refs_live [OF r] in \<open>auto simp: t refs_def\<close>)

lemma vcpu_release_ok:
  assumes "sys_ok B P s" "VcpuFile c \<in> set (ofiles s)"
  shows "ensures (mini_vcpu_release c (closing (VcpuFile c) s)) (sys_ok B P)"
proof -
  have a: "acct B P s" and r: "refs {} None s" using assms by (auto simp: sys_ok_def)
  have d: "distinct (ofiles s)" using r by (simp add: refs_def)
  obtain w v where c: "vch s c = Some (w, v)" using refs_open [OF r assms(2)] by blast
  obtain k where k: "vmh s v = Some k" "kvcpu k = Some c" using refs_vc [OF r c] by blast
  let ?s0 = "closing (VcpuFile c) s" and ?k = "k\<lparr>kvcpu := None\<rparr>"
  let ?s1 = "set_vm v ?k ?s0"
  have a1: "acct B P ?s1" by (rule acct_set_vm) (use a k in simp_all)
  have only: "a = v" if "vmh s a = Some l" "kvcpu l = Some c" for a l
    using refs_vm [OF r that(1)] that(2) c by auto
  have r1: "refs {c} (Some v) ?s1"
  proof (rule refsI)
    fix a l assume "vmh ?s1 a = Some l"
    then show "refcount l = of_bool (VmFile a \<in> set (ofiles ?s1)) + of_bool (kvcpu l \<noteq> None) + of_bool (Some v = Some a) \<and> refcount l > 0"
      using refs_vm [OF r, of a l] refs_vm [OF r k(1)] k(2) d by (cases "a = v") (auto simp: set_vm_def)
  next
    fix a l e assume "vmh ?s1 a = Some l" "kvcpu l = Some e"
    then show "\<exists>x. vch ?s1 e = Some (x, a)" using refs_vm [OF r, of a l] by (cases "a = v") (auto simp: set_vm_def)
  next
    fix e x a assume "vch ?s1 e = Some (x, a)" "e \<notin> {c}"
    then show "VcpuFile e \<in> set (ofiles ?s1) \<and> (\<exists>l. vmh ?s1 a = Some l \<and> kvcpu l = Some e)"
      using refs_vc [OF r, of e x a] k by (cases "a = v") (auto simp: set_vm_def d)
  next
    fix e assume "VcpuFile e \<in> set (ofiles ?s1)"
    then show "\<exists>x. vch ?s1 e = Some x" using refs_open [OF r, of e] by (auto simp: set_vm_def d)
  next
    fix a assume "VmFile a \<in> set (ofiles ?s1)"
    then show "\<exists>l. vmh ?s1 a = Some l" using refs_live [OF r, of a] by (auto simp: set_vm_def d)
  qed (use d in \<open>auto simp: set_vm_def\<close>)
  have nf: "VcpuFile c \<notin> set (ofiles ?s1)" by (simp add: set_vm_def d)
  have nk: "kvcpu l \<noteq> Some c" if "vmh ?s1 a = Some l" for a l
    using that only [of a l] by (cases "a = v") (auto simp: set_vm_def)
  have "ensures (rbind (teardown_vc c ?s1) (\<lambda>s2. rbind (free_run_page c s2) (\<lambda>s3. mini_kvm_put v (kfree_vc c s3)))) (sys_ok B P)"
  proof (rule drop_ok [OF a1])
    show "vch ?s1 c = Some (w, v)" using c by (simp add: set_vm_def)
  next
    fix s' assume s': "acct B P s'" "vch s' = (vch ?s1)(c := None)" "vmh s' = vmh ?s1" "ofiles s' = ofiles ?s1"
    have "refs ({c} - {c}) (Some v) s'" by (rule refs_drop_vc [OF r1 _ nk nf s'(2-4)]) simp
    then show "ensures (mini_kvm_put v s') (sys_ok B P)" using put_ok [OF s'(1), of "{}" v] by (auto simp: sys_ok_def)
  qed
  then show ?thesis using c k by (simp add: mini_vcpu_release_def with_vc_def with_vm_def Let_def)
qed


lemma refs_cong: "vmh t = vmh s \<Longrightarrow> vch t = vch s \<Longrightarrow> ofiles t = ofiles s \<Longrightarrow> refs X e t = refs X e s"
  by (simp only: refs_def)

lemma refs_upd [simp]:
  "refs X e (s\<lparr>sw := w\<rparr>) = refs X e s" "refs X e (s\<lparr>pins := ps\<rparr>) = refs X e s"
  "refs X e (s\<lparr>slog := l\<rparr>) = refs X e s" "refs X e (s\<lparr>sinvepts := iv\<rparr>) = refs X e s"
  "refs X e (s\<lparr>vc_next := n\<rparr>) = refs X e s" "refs X e (s\<lparr>vm_next := n\<rparr>) = refs X e s"
  "refs X e (s\<lparr>vm_id_counter := i\<rparr>) = refs X e s" "refs X e (set_mem m s) = refs X e s"
  by (rule refs_cong; simp add: set_mem_def)+

lemma refs_set_vc:
  assumes r: "refs X e s" and c: "vch s c = Some (w, v)"
  shows "refs X e (set_vc c w' v s)"
proof (rule refsI)
  fix a k d assume "vmh (set_vc c w' v s) a = Some k" "kvcpu k = Some d"
  then show "\<exists>x. vch (set_vc c w' v s) d = Some (x, a)" using refs_vm [OF r, of a k] c by (cases "d = c") (auto simp: set_vc_def)
next
  fix d x a assume "vch (set_vc c w' v s) d = Some (x, a)" "d \<notin> X"
  then show "VcpuFile d \<in> set (ofiles (set_vc c w' v s)) \<and> (\<exists>k. vmh (set_vc c w' v s) a = Some k \<and> kvcpu k = Some d)"
    using refs_vc [OF r, of d _ a] c by (cases "d = c") (fastforce simp: set_vc_def)+
next
  fix d assume "VcpuFile d \<in> set (ofiles (set_vc c w' v s))"
  then show "\<exists>x. vch (set_vc c w' v s) d = Some x" using refs_open [OF r, of d] by (auto simp: set_vc_def)
qed (use r refs_vm [OF r] refs_live [OF r] in \<open>auto simp: set_vc_def refs_def\<close>)

lemma acct_set_vc:
  assumes a: "acct B P s" and c: "vch s c = Some (w, v)" and w: "vmcs_page w' = vmcs_page w" "run_page w' = run_page w"
  shows "acct B P (set_vc c w' v s)"
proof -
  have lt: "c < vc_next s" using a c by (auto simp: acct_def)
  from heap_sum_same [where f = vc_pages and h = "vch s", OF lt c, of "(w', v)"] w
  show ?thesis using a lt by (auto simp: acct_def set_vc_def vc_pages_def)
qed

lemma vcpu_run_ok:
  assumes ok: "sys_ok B P s" and c: "vch s c = Some (w, v)"
  shows "ensures (vcpu_run A c s) (\<lambda>(r, t). sys_ok B P t)"
proof -
  have a: "acct B P s" and r: "refs {} None s" using ok by (auto simp: sys_ok_def)
  obtain k where k: "vmh s v = Some k" "kvcpu k = Some c" using refs_vc [OF r c] by blast
  have lt: "v < vm_next s" "c < vc_next s" using a c k by (auto simp: acct_def)
  let ?rs = "\<lparr>rw = sw s, rk = k, rv = w, klog = slog s, invepts = sinvepts s\<rparr>"
  show ?thesis
    unfolding vcpu_run_def with_vc_def with_vm_def c k(1) option.case prod.case
  proof (rule ensures_bind [OF run_loop_kept], clarsimp)
    fix t assume t: "run_kept ?rs t"
    let ?s1 = "s\<lparr>sw := rw t, slog := klog t, sinvepts := invepts t\<rparr>"
    let ?s2 = "set_vc c (rv t) v ?s1"
    let ?s3 = "set_vm v (rk t) ?s2"
    have "refs {} None ?s1" using r by simp
    then have "refs {} None ?s2" by (rule refs_set_vc) (use c in simp)
    then have "refs {} None ?s3"
      by (rule refs_set_vm [where k = k]) (use k t refs_vm [OF r k(1)] in \<open>auto simp: set_vc_def run_kept_def\<close>)
    moreover have "acct B P ?s3"
    proof -
      let ?V = "heap_sum (vm_next s) (vmh s)" and ?V' = "heap_sum (vm_next s) ((vmh s)(v \<mapsto> rk t))"
      let ?C = "heap_sum (vc_next s) (vch s) vc_pages"
      have vc: "heap_sum (vc_next s) ((vch s)(c \<mapsto> (rv t, v))) vc_pages = ?C"
        by (rule heap_sum_same [where h = "vch s", OF lt(2) c]) (use t in \<open>simp add: vc_pages_def run_kept_def\<close>)
      have pin: "?V' vm_pins = ?V vm_pins"
        by (rule heap_sum_same [where h = "vmh s", OF lt(1) k(1)]) (use t in \<open>simp add: vm_pins_def run_kept_def\<close>)
      have "mset (live (pmem (rw t))) + vm_pages k = mset (live (pmem (sw s))) + vm_pages (rk t)"
        using t by (simp add: run_kept_def vm_pages_def)
      also have "\<dots> = B + (?V vm_pages + vm_pages (rk t)) + ?C" using a by (simp add: acct_def)
      also have "?V vm_pages + vm_pages (rk t) = ?V' vm_pages + vm_pages k"
        using heap_sum_set [where h = "vmh s", OF lt(1) k(1), of "rk t" vm_pages] by simp
      finally have "mset (live (pmem (rw t))) = B + ?V' vm_pages + ?C" by simp
      then show ?thesis using a vc pin lt t k(1) by (auto simp: acct_def set_vm_def set_vc_def run_kept_def)
    qed
    ultimately show "sys_ok B P ?s3" by (simp add: sys_ok_def)
  qed
qed

lemma vcpu_ioctl_ok:
  assumes ok: "sys_ok B P s" and f: "VcpuFile c \<in> set (ofiles s)"
  shows "ensures (mini_vcpu_ioctl A c cmd arg s) (\<lambda>(r, t). sys_ok B P t)"
proof -
  have a: "acct B P s" and r: "refs {} None s" using ok by (auto simp: sys_ok_def)
  obtain w v where c: "vch s c = Some (w, v)" using refs_open [OF r f] by blast
  have "sys_ok B P (set_vc c w' v s)" if "mini_vcpu_inject_irq x w = (y, w')" for x y w'
  proof -
    have "vmcs_page w' = vmcs_page w" "run_page w' = run_page w" using that by (auto simp: mini_vcpu_inject_irq_def split: if_splits)
    then show ?thesis using acct_set_vc [OF a c] refs_set_vc [OF r c] by (simp add: sys_ok_def)
  qed
  then show ?thesis
    using ok vcpu_run_ok [OF ok c, of A] by (simp add: mini_vcpu_ioctl_def with_vc_def c split: prod.splits)
qed

lemma memregion_ok:
  assumes ok: "sys_ok B P s" and f: "VmFile v \<in> set (ofiles s)"
  shows "ensures (mini_kvm_set_memregion A v s) (\<lambda>(r, t). sys_ok B P t)"
proof -
  have a: "acct B P s" and r: "refs {} None s" using ok by (auto simp: sys_ok_def)
  obtain k where k: "vmh s v = Some k" using refs_live [OF r, of v] f by blast
  have lt: "v < vm_next s" using a k by (simp add: acct_def)
  let ?npg = "drop_bit 12 (rg_size (a_region A))"
  have unpin: "\<exists>ps. unpin_user_pages (a_pins A) (a_pins A @ pins s) = Inr ps \<and> mset ps = mset (pins s)"
    using unpin_ok [of "a_pins A" "a_pins A @ pins s"] by simp
  have store: "sys_ok B P (set_vm v (k\<lparr>kslot := \<lparr>svalid = True, base_gpa = g, npages = ?npg, userspace_addr = u,
      pages = a_pins A\<rparr>\<rparr>) (s\<lparr>pins := ps\<rparr>))"
    if "\<not> svalid (kslot k)" "int (length (a_pins A)) = uint ?npg" "mset ps = mset (a_pins A) + mset (pins s)" for g u ps
  proof -
    let ?k = "k\<lparr>kslot := \<lparr>svalid = True, base_gpa = g, npages = ?npg, userspace_addr = u, pages = a_pins A\<rparr>\<rparr>"
    have "refs {} None (s\<lparr>pins := ps\<rparr>)" using r by simp
    then have "refs {} None (set_vm v ?k (s\<lparr>pins := ps\<rparr>))"
      by (rule refs_set_vm [where k = k]) (use k refs_vm [OF r k] in auto)
    moreover have "heap_sum (vm_next s) ((vmh s)(v \<mapsto> ?k)) vm_pages = heap_sum (vm_next s) (vmh s) vm_pages"
      by (rule heap_sum_same [where h = "vmh s", OF lt k]) (simp add: vm_pages_def)
    moreover have "heap_sum (vm_next s) ((vmh s)(v \<mapsto> ?k)) vm_pins = heap_sum (vm_next s) (vmh s) vm_pins + mset (a_pins A)"
      using heap_sum_set [where h = "vmh s", OF lt k, of ?k vm_pins] that(1) by (simp add: vm_pins_def)
    moreover have "length (a_pins A) = unat ?npg" using arg_cong [OF that(2), of nat] by simp
    ultimately show ?thesis using a lt that by (auto simp: sys_ok_def acct_def set_vm_def)
  qed
  have store0: "sys_ok B P (set_vm v (k\<lparr>kslot := \<lparr>svalid = True, base_gpa = g, npages = ?npg, userspace_addr = u,
      pages = []\<rparr>\<rparr>) s)" if "\<not> svalid (kslot k)" "a_pins A = []" "uint ?npg = 0" for g u
    using store [of "pins s" g u] that by simp
  have pos: "0 < uint ?npg" if "a_pins A \<noteq> []" "int (length (a_pins A)) = uint ?npg"
  proof -
    have "0 < length (a_pins A)" using that(1) by simp
    then show ?thesis using that(2) by linarith
  qed
  have pinned: "sys_ok B P (s\<lparr>pins := ps\<rparr>)" if "mset ps = mset (pins s)" for ps
    using ok that by (auto simp: sys_ok_def acct_def)
  show ?thesis
    unfolding mini_kvm_set_memregion_def memregion_pin_def memregion_store_def Let_def with_vm_def
    using ok k unpin store store0 pinned by (auto dest: pos split: if_splits)
qed


lemma create_vm_ok:
  assumes ok: "sys_ok B P s"
  shows "ensures (mini_kvm_create_vm A s) (\<lambda>(r, t). sys_ok B P t)"
proof (cases "a_kzalloc A")
  case False
  then show ?thesis using ok by (simp add: mini_kvm_create_vm_def)
next
  case True
  have a: "acct B P s" and r: "refs {} None s" using ok by (auto simp: sys_ok_def)
  let ?v = "vm_next s"
  have fresh: "vmh s ?v = None" using a by (cases "vmh s ?v") (auto simp: acct_def)
  have novm: "VmFile ?v \<notin> set (ofiles s)" using refs_live [OF r, of ?v] fresh by auto
  have nok: "a \<noteq> ?v" if "vch s c = Some (w, a)" for c w a
    using refs_vc [OF r that] fresh by auto
  obtain x e m where i: "mini_ept_init (kept zero_kvm) (pmem (sw s)) = (x, e, m)"
    by (cases "mini_ept_init (kept zero_kvm) (pmem (sw s))")
  note im = ept_init_mem [OF i]
  have im: "mset (live m) = mset (live (pmem (sw s))) + ept_pages e" "x \<noteq> 0 \<Longrightarrow> ept_pages e = {#}"
    using im by (simp_all add: zero_kvm_def)
  let ?k = "zero_kvm\<lparr>vm_id := vm_id_counter s + 1, refcount := 1, kept := e\<rparr>"
  let ?s1 = "s\<lparr>vm_next := Suc ?v, vm_id_counter := vm_id_counter s + 1\<rparr>"
  have undo: "sys_ok B P (kfree_vm ?v (set_mem m' (set_vm ?v ?k (set_mem m ?s1))))" if "mset (live m') = mset (live (pmem (sw s)))" for m'
  proof -
    have h: "vmh (kfree_vm ?v (set_mem m' (set_vm ?v ?k (set_mem m ?s1)))) = vmh s"
      using fresh by (simp add: kfree_vm_def set_mem_def set_vm_def fun_upd_idem)
    have "refs {} None (kfree_vm ?v (set_mem m' (set_vm ?v ?k (set_mem m ?s1)))) = refs {} None s"
      by (rule refs_cong [OF h]) (simp_all add: kfree_vm_def set_mem_def set_vm_def)
    moreover have "acct B P (kfree_vm ?v (set_mem m' (set_vm ?v ?k (set_mem m ?s1))))"
      using a that unfolding acct_def h
      by (auto simp: kfree_vm_def set_mem_def set_vm_def heap_sum_skip [of "vmh s", OF fresh] less_SucI)
    ultimately show ?thesis using r by (simp add: sys_ok_def)
  qed
  have opened: "sys_ok B P ((set_vm ?v ?k (set_mem m ?s1))\<lparr>ofiles := VmFile ?v # ofiles s\<rparr>)" (is "sys_ok B P ?t")
  proof -
    have "refs {} None ?t"
    proof (rule refsI)
      fix b l assume "vmh ?t b = Some l"
      then show "refcount l = of_bool (VmFile b \<in> set (ofiles ?t)) + of_bool (kvcpu l \<noteq> None) + of_bool (None = Some b) \<and> refcount l > 0"
        using refs_vm [OF r, of b l] by (cases "b = ?v") (auto simp: set_vm_def set_mem_def zero_kvm_def)
    next
      fix b l c assume "vmh ?t b = Some l" "kvcpu l = Some c"
      then show "\<exists>w. vch ?t c = Some (w, b)"
        using refs_vm [OF r, of b l] by (cases "b = ?v") (auto simp: set_vm_def set_mem_def zero_kvm_def)
    next
      fix c w b assume "vch ?t c = Some (w, b)" "c \<notin> {}"
      then show "VcpuFile c \<in> set (ofiles ?t) \<and> (\<exists>l. vmh ?t b = Some l \<and> kvcpu l = Some c)"
        using refs_vc [OF r, of c w b] nok [of c w b] by (auto simp: set_vm_def set_mem_def)
    next
      fix c assume "VcpuFile c \<in> set (ofiles ?t)"
      then show "\<exists>y. vch ?t c = Some y" using refs_open [OF r, of c] by (auto simp: set_vm_def set_mem_def)
    qed (use r novm refs_live [OF r] in \<open>auto simp: set_vm_def set_mem_def refs_def\<close>)
    moreover have "acct B P ?t"
      using a im(1) heap_sum_new [of "vmh s", OF fresh]
      by (auto simp: acct_def set_vm_def set_mem_def vm_pages_def vm_pins_def zero_kvm_def less_SucI)
    ultimately show ?thesis by (simp add: sys_ok_def)
  qed
  show ?thesis
  proof (cases "x \<noteq> 0")
    case True
    then show ?thesis using \<open>a_kzalloc A\<close> undo [of m] im i
      by (simp add: mini_kvm_create_vm_def Let_def) (simp add: set_mem_def set_vm_def kfree_vm_def zero_kvm_def)
  next
    case False
    have "ept_pages e \<subseteq># mset (live m)" using im(1) by simp
    from ept_destroy_mem [OF this] obtain e' m' where d: "mini_ept_destroy e m = Inr (e', m')"
      "mset (live m') = mset (live (pmem (sw s)))" using im(1) by auto
    show ?thesis
      using True False i d undo [OF d(2)] opened
      by (auto simp: mini_kvm_create_vm_def Let_def anon_inode_getfd_def)
        (auto simp: set_mem_def set_vm_def)
  qed
qed


text \<open>A virtual CPU that is in the heap but not reachable yet is published, or taken down again.\<close>

lemma publish_ok:
  assumes a: "acct B P s" and r: "refs {c} None s" and c: "vch s c = Some (w, v)" and f: "VmFile v \<in> set (ofiles s)"
    and n: "VcpuFile c \<notin> set (ofiles s)" "\<And>b k. vmh s b = Some k \<Longrightarrow> kvcpu k \<noteq> Some c"
  shows "ensures (publish_vcpu A v c s) (\<lambda>(r, t). sys_ok B P t)"
proof -
  obtain k where k: "vmh s v = Some k" using refs_live [OF r, of v] f by blast
  note rk = refs_vm [OF r k]
  let ?k1 = "k\<lparr>refcount := refcount k + 1\<rparr>"
  let ?s1 = "set_vm v ?k1 s"
  have a1: "acct B P ?s1" by (rule acct_set_vm [OF a k]) simp_all
  have r1: "refs {c} (Some v) ?s1" by (rule refs_set_vm [OF r k]) (use rk f in auto)
  have drop: "ensures (drop_vcpu x c t) (\<lambda>(r, t). sys_ok B P t)"
    if t: "acct B P t" "refs {c} None t" "vch t = vch s" "ofiles t = ofiles s" "\<And>b l. vmh t b = Some l \<Longrightarrow> kvcpu l \<noteq> Some c" for t x
    unfolding drop_vcpu_def
  proof (rule drop_ok [OF t(1)])
    show "vch t c = Some (w, v)" using c t(3) by simp
  next
    fix u assume u: "acct B P u" "vch u = (vch t)(c := None)" "vmh u = vmh t" "ofiles u = ofiles t"
    have "refs ({c} - {c}) None u" by (rule refs_drop_vc [OF t(2) _ t(5) _ u(2-4)]) (use n(1) t(4) in simp_all)
    then show "ensures (Inr (x, u)) (\<lambda>(r, t). sys_ok B P t)" using u(1) by (simp add: sys_ok_def)
  qed
  have put_drop: "ensures (rbind (mini_kvm_put v t) (drop_vcpu x c)) (\<lambda>(r, t). sys_ok B P t)"
    if t: "acct B P t" "refs {c} (Some v) t" "vch t = vch s" "ofiles t = ofiles s" "vmh t = (vmh s)(v \<mapsto> l)" "kvcpu l \<noteq> Some c" "refcount l > 1"
    for t x l
  proof -
    from put_ok [OF t(1,2)] obtain u where u: "mini_kvm_put v t = Inr u" "acct B P u" "refs {c} None u"
      "vch u = vch t" "ofiles u = ofiles t" by blast
    have "u = set_vm v (l\<lparr>refcount := refcount l - 1\<rparr>) t"
      using u(1) t(5,7) by (simp add: mini_kvm_put_def with_vm_def)
    then have "kvcpu l' \<noteq> Some c" if "vmh u b = Some l'" for b l'
      using that t(5,6) n(2) by (cases "b = v") (auto simp: set_vm_def)
    from drop [OF u(2,3) _ _ this] u t show ?thesis by simp
  qed
  show ?thesis
  proof (cases "kvcpu k = None")
    case False
    have "refcount k > 1 \<or> refcount k = 1" using rk by linarith
    then have "refcount ?k1 > 1" by auto
    from put_drop [OF a1 r1 _ _ _ _ this, of "- EEXIST"] False k n(2) [OF k]
    show ?thesis by (simp add: publish_vcpu_def mini_kvm_get_def with_vm_def set_vm_def)
  next
    case True
    let ?k2 = "?k1\<lparr>kvcpu := Some c\<rparr>"
    have over: "set_vm v x (set_vm v y t) = set_vm v x t" for x y t by (simp add: set_vm_def)
    have fresh: "c \<noteq> d" if "vmh s b = Some l" "kvcpu l = Some d" for b l d using n(2) [OF that(1)] that(2) by auto
    show ?thesis
    proof (cases "a_fd A < 0")
      case fd: True
      have "refs {c} (Some v) (set_vm v (?k1\<lparr>kvcpu := None\<rparr>) s)" by (rule refs_set_vm [OF r k]) (use rk True f in auto)
      moreover have "acct B P (set_vm v (?k1\<lparr>kvcpu := None\<rparr>) s)" by (rule acct_set_vm [OF a k]) simp_all
      moreover have "refcount (?k1\<lparr>kvcpu := None\<rparr>) > 1" using rk f by simp
      ultimately have "ensures (rbind (mini_kvm_put v (set_vm v (?k1\<lparr>kvcpu := None\<rparr>) s)) (drop_vcpu (a_fd A) c)) (\<lambda>(r, t). sys_ok B P t)"
        using put_drop [of "set_vm v (?k1\<lparr>kvcpu := None\<rparr>) s" "?k1\<lparr>kvcpu := None\<rparr>" "a_fd A"] by (simp add: set_vm_def)
      then show ?thesis using True fd k
        by (simp add: publish_vcpu_def mini_kvm_get_def with_vm_def over) (simp add: set_vm_def anon_inode_getfd_def with_vm_def)
    next
      case fd: False
      let ?t = "(set_vm v ?k2 s)\<lparr>ofiles := VcpuFile c # ofiles s\<rparr>"
      have "refs {} None ?t"
      proof (rule refsI)
        fix b l assume "vmh ?t b = Some l"
        then show "refcount l = of_bool (VmFile b \<in> set (ofiles ?t)) + of_bool (kvcpu l \<noteq> None) + of_bool (None = Some b) \<and> refcount l > 0"
          using refs_vm [OF r, of b l] rk True by (cases "b = v") (auto simp: set_vm_def)
      next
        fix b l d assume "vmh ?t b = Some l" "kvcpu l = Some d"
        then show "\<exists>x. vch ?t d = Some (x, b)"
          using refs_vm [OF r, of b l] c by (cases "b = v") (auto simp: set_vm_def)
      next
        fix d x b assume d: "vch ?t d = Some (x, b)" "d \<notin> {}"
        show "VcpuFile d \<in> set (ofiles ?t) \<and> (\<exists>l. vmh ?t b = Some l \<and> kvcpu l = Some d)"
        proof (cases "d = c")
          case True
          then show ?thesis using d c by (simp add: set_vm_def)
        next
          case False
          then have "VcpuFile d \<in> set (ofiles s) \<and> (\<exists>l. vmh s b = Some l \<and> kvcpu l = Some d)"
            using refs_vc [OF r, of d x b] d by (simp add: set_vm_def)
          then show ?thesis using k \<open>kvcpu k = None\<close> by (auto simp: set_vm_def)
        qed
      next
        fix d assume "VcpuFile d \<in> set (ofiles ?t)"
        then show "\<exists>y. vch ?t d = Some y" using refs_open [OF r, of d] c by (auto simp: set_vm_def)
      qed (use r n refs_live [OF r] in \<open>auto simp: set_vm_def refs_def\<close>)
      moreover have "acct B P ?t"
        using acct_set_vm [OF a k, of ?k2] by simp
      ultimately have "sys_ok B P ?t" by (simp add: sys_ok_def)
      then show ?thesis using True fd k
        by (simp add: publish_vcpu_def mini_kvm_get_def with_vm_def over) (simp add: set_vm_def anon_inode_getfd_def with_vm_def)
    qed
  qed
qed

lemma create_vcpu_ok:
  assumes ok: "sys_ok B P s" and f: "VmFile v \<in> set (ofiles s)"
  shows "ensures (mini_kvm_create_vcpu A v i s) (\<lambda>(r, t). sys_ok B P t)"
proof -
  have a: "acct B P s" and r: "refs {} None s" using ok by (auto simp: sys_ok_def)
  obtain k where k: "vmh s v = Some k" using refs_live [OF r, of v] f by blast
  let ?c = "vc_next s"
  have "\<forall>c x. vch s c = Some x \<longrightarrow> c < vc_next s" using a by (simp add: acct_def)
  then have fresh: "vch s ?c = None" by (metis less_irrefl not_None_eq)
  have nofile: "VcpuFile ?c \<notin> set (ofiles s)" using refs_open [OF r, of ?c] fresh by auto
  have nokv: "kvcpu l \<noteq> Some ?c" if "vmh s b = Some l" for b l using refs_vm [OF r that] fresh by auto
  obtain po m where al: "alloc_page (pmem (sw s)) = (po, m)" by (cases "alloc_page (pmem (sw s))")
  have none: "sys_ok B P (set_mem m s)" if "po = None"
  proof -
    have "live m = live (pmem (sw s))" using al that by (auto simp: alloc_page_def split: list.splits option.splits)
    then show ?thesis using a r by (simp add: sys_ok_def acct_def) (simp add: set_mem_def)
  qed
  have some: "ensures (rbind (mini_vcpu_vmx_setup (a_mig A) (eptp (kept k)) (zero_vcpu\<lparr>run_page := Some p\<rparr>) ((sw s)\<lparr>pmem := m\<rparr>))
      (\<lambda>(r, w, x). let s2 = set_vc ?c w v ((set_mem m s)\<lparr>vc_next := Suc ?c, sw := x\<rparr>) in
        if r \<noteq> 0 then rbind (free_run_page ?c s2) (\<lambda>s3. Inr (r, kfree_vc ?c s3)) else publish_vcpu A v ?c s2))
      (\<lambda>(r, t). sys_ok B P t)" if p: "po = Some p" for p
  proof (rule ensures_bind [OF vmx_setup_mem], simp add: zero_vcpu_def, clarify)
    fix x :: int and w :: mini_vcpu and y :: mk_world
    assume live: "mset (live (pmem y)) = mset (live (pmem ((sw s)\<lparr>pmem := m\<rparr>))) + mset_set (set_option (vmcs_page w))"
      and rp: "run_page w = run_page (zero_vcpu\<lparr>run_page := Some p\<rparr>)" and x: "x \<noteq> 0 \<longrightarrow> vmcs_page w = None"
    let ?s2 = "set_vc ?c w v ((set_mem m s)\<lparr>vc_next := Suc ?c, sw := y\<rparr>)"
    have lm: "mset (live m) = mset (live (pmem (sw s))) + {#p#}"
      using al p by (auto simp: alloc_page_def split: list.splits option.splits)
    have acct2: "acct B P ?s2"
      using a live rp lm heap_sum_new [of "vch s", OF fresh, of "(w, v)" vc_pages]
      by (auto simp: acct_def set_vc_def set_mem_def vc_pages_def less_SucI)
    have refs2: "refs {?c} None ?s2"
    proof (rule refsI)
      fix b l d assume "vmh ?s2 b = Some l" "kvcpu l = Some d"
      then show "\<exists>z. vch ?s2 d = Some (z, b)"
        using refs_vm [OF r, of b l] nokv [of b l] by (auto simp: set_vc_def set_mem_def)
    next
      fix d z b assume "vch ?s2 d = Some (z, b)" "d \<notin> {?c}"
      then show "VcpuFile d \<in> set (ofiles ?s2) \<and> (\<exists>l. vmh ?s2 b = Some l \<and> kvcpu l = Some d)"
        using refs_vc [OF r, of d z b] by (auto simp: set_vc_def set_mem_def)
    next
      fix d assume "VcpuFile d \<in> set (ofiles ?s2)"
      then show "\<exists>z. vch ?s2 d = Some z" using refs_open [OF r, of d] by (auto simp: set_vc_def set_mem_def)
    qed (use r refs_vm [OF r] refs_live [OF r] in \<open>auto simp: set_vc_def set_mem_def refs_def\<close>)
    have ok: "ensures (publish_vcpu A v ?c ?s2) (\<lambda>(r, t). sys_ok B P t)"
      by (rule publish_ok [OF acct2 refs2]) (use f nofile nokv in \<open>auto simp: set_vc_def set_mem_def\<close>)
    have fail: "ensures (rbind (free_run_page ?c ?s2) (\<lambda>s3. Inr (x, kfree_vc ?c s3))) (\<lambda>(r, t). sys_ok B P t)" if "x \<noteq> 0"
    proof -
      have "ensures (rbind (teardown_vc ?c ?s2) (\<lambda>s1. rbind (free_run_page ?c s1) (\<lambda>s3. Inr (x, kfree_vc ?c s3)))) (\<lambda>(r, t). sys_ok B P t)"
      proof (rule drop_ok [OF acct2])
        show "vch ?s2 ?c = Some (w, v)" by (simp add: set_vc_def)
      next
        fix u assume u: "acct B P u" "vch u = (vch ?s2)(?c := None)" "vmh u = vmh ?s2" "ofiles u = ofiles ?s2"
        have "refs ({?c} - {?c}) None u"
          by (rule refs_drop_vc [OF refs2 _ _ _ u(2-4)]) (use nofile nokv in \<open>auto simp: set_vc_def set_mem_def\<close>)
        then show "ensures (Inr (x, u)) (\<lambda>(r, t). sys_ok B P t)" using u(1) by (simp add: sys_ok_def)
      qed
      moreover have "teardown_vc ?c ?s2 = Inr ?s2"
        using x that by (simp add: teardown_vc_def with_vc_def mini_vcpu_vmx_teardown_def set_vc_def)
      ultimately show ?thesis by simp
    qed
    show "ensures (let s2 = ?s2 in if x \<noteq> 0 then rbind (free_run_page ?c s2) (\<lambda>s3. Inr (x, kfree_vc ?c s3)) else publish_vcpu A v ?c s2)
        (\<lambda>(r, t). sys_ok B P t)"
      using ok fail unfolding Let_def by auto
  qed
  show ?thesis
  proof (cases po)
    case None
    then show ?thesis using ok k al none by (simp add: mini_kvm_create_vcpu_def with_vm_def)
  next
    case (Some p)
    have sw: "sw (set_mem m s) = (sw s)\<lparr>pmem := m\<rparr>" by (simp add: set_mem_def)
    show ?thesis
      using ok k al some [OF Some] Some unfolding mini_kvm_create_vcpu_def with_vm_def Let_def Suc_eq_plus1
      by (simp add: sw)
  qed
qed

section \<open>Sequences of calls\<close>

datatype call =
  DevIoctl u32 u64
| VmIoctl nat u32 u64
| VcpuIoctl nat u32 u64
| VcpuMmap nat u64 u64 int
| Release fobj

text \<open>A call on a file needs the file to be open; the last close of a file releases it.\<close>

fun call_open :: "call \<Rightarrow> sys \<Rightarrow> bool" where
  "call_open (DevIoctl cmd arg) s = True"
| "call_open (VmIoctl v cmd arg) s = (VmFile v \<in> set (ofiles s))"
| "call_open (VcpuIoctl c cmd arg) s = (VcpuFile c \<in> set (ofiles s))"
| "call_open (VcpuMmap c off len r) s = (VcpuFile c \<in> set (ofiles s))"
| "call_open (Release f) s = (f \<in> set (ofiles s))"

fun sys_call :: "answers \<Rightarrow> call \<Rightarrow> sys \<Rightarrow> sys res" where
  "sys_call A (DevIoctl cmd arg) s = rbind (mini_kvm_dev_ioctl A cmd arg s) (\<lambda>(r, t). Inr t)"
| "sys_call A (VmIoctl v cmd arg) s = rbind (mini_vm_ioctl A v cmd arg s) (\<lambda>(r, d, t). Inr t)"
| "sys_call A (VcpuIoctl c cmd arg) s = rbind (mini_vcpu_ioctl A c cmd arg s) (\<lambda>(r, t). Inr t)"
| "sys_call A (VcpuMmap c off len rm) s = rbind (mini_vcpu_mmap c off len rm s) (\<lambda>r. Inr s)"
| "sys_call A (Release (VmFile v)) s = mini_vm_release v (closing (VmFile v) s)"
| "sys_call A (Release (VcpuFile c)) s = mini_vcpu_release c (closing (VcpuFile c) s)"

text \<open>Between calls the calling thread may be on any CPU.\<close>

inductive sys_reach :: "sys \<Rightarrow> sys \<Rightarrow> bool" for s0 where
  start: "sys_reach s0 s0"
| call: "sys_reach s0 s \<Longrightarrow> call_open c s \<Longrightarrow> sys_call A c s = Inr t \<Longrightarrow> sys_reach s0 t"
| thread: "sys_reach s0 s \<Longrightarrow> sys_reach s0 (s\<lparr>sw := (sw s)\<lparr>cur_cpu := d\<rparr>\<rparr>)"

definition sys_fresh :: "sys \<Rightarrow> bool" where
  "sys_fresh s \<longleftrightarrow> vmh s = (\<lambda>_. None) \<and> vch s = (\<lambda>_. None) \<and> ofiles s = []"

lemma sys_fresh_ok: "sys_fresh s \<Longrightarrow> sys_ok (mset (live (pmem (sw s)))) (mset (pins s)) s"
  by (simp add: sys_fresh_def sys_ok_def acct_def refs_def heap_sum_def)

lemma vm_ioctl_ok:
  assumes "sys_ok B P s" "VmFile v \<in> set (ofiles s)"
  shows "ensures (mini_vm_ioctl A v cmd arg s) (\<lambda>(r, d, t). sys_ok B P t)"
proof -
  obtain k where "vmh s v = Some k" using refs_live [of "{}" None s v] assms by (auto simp: sys_ok_def)
  then show ?thesis
    unfolding mini_vm_ioctl_def with_vm_def using assms(1)
    by (auto intro!: ensures_bind [OF create_vcpu_ok [OF assms]] ensures_bind [OF memregion_ok [OF assms]])
qed

lemma sys_call_ok:
  assumes ok: "sys_ok B P s" and c: "call_open c s"
  shows "ensures (sys_call A c s) (sys_ok B P)"
proof (cases c)
  case (DevIoctl cmd arg)
  have "ensures (mini_kvm_dev_ioctl A cmd arg s) (\<lambda>(r, t). sys_ok B P t)"
    using ok create_vm_ok [OF ok, of A] by (simp add: mini_kvm_dev_ioctl_def)
  then show ?thesis unfolding DevIoctl sys_call.simps by (rule ensures_bind) auto
next
  case (VmIoctl v cmd arg)
  have "VmFile v \<in> set (ofiles s)" using c VmIoctl by simp
  from vm_ioctl_ok [OF ok this] show ?thesis unfolding VmIoctl sys_call.simps by (rule ensures_bind) auto
next
  case (VcpuIoctl d cmd arg)
  have "VcpuFile d \<in> set (ofiles s)" using c VcpuIoctl by simp
  from vcpu_ioctl_ok [OF ok this] show ?thesis unfolding VcpuIoctl sys_call.simps by (rule ensures_bind) auto
next
  case (VcpuMmap d off len rm)
  have "VcpuFile d \<in> set (ofiles s)" using c VcpuMmap by simp
  then obtain x where "vch s d = Some x" using refs_open [of "{}" None s d] ok by (auto simp: sys_ok_def)
  then show ?thesis using ok by (cases x) (simp add: VcpuMmap mini_vcpu_mmap_def with_vc_def)
next
  case (Release f)
  then show ?thesis using c vm_release_ok [OF ok] vcpu_release_ok [OF ok] by (cases f) auto
qed

lemma sys_reach_ok:
  assumes "sys_reach s0 s" "sys_ok B P s0"
  shows "sys_ok B P s"
  using assms
proof (induction rule: sys_reach.induct)
  case (call s c A t)
  then show ?case using sys_call_ok [of B P s c A] by simp
next
  case (thread s d)
  then show ?case by (simp add: sys_ok_def acct_def)
qed

text \<open>The VM a file keeps alive.\<close>

fun file_vm :: "sys \<Rightarrow> fobj \<Rightarrow> nat option" where
  "file_vm s (VmFile v) = Some v"
| "file_vm s (VcpuFile c) = map_option snd (vch s c)"

lemma refs_files:
  assumes r: "refs {} None s" and k: "vmh s v = Some k"
  shows "{f \<in> set (ofiles s). file_vm s f = Some v} =
    (if VmFile v \<in> set (ofiles s) then {VmFile v} else {}) \<union> (case kvcpu k of None \<Rightarrow> {} | Some c \<Rightarrow> {VcpuFile c})"
proof -
  have "file_vm s f = Some v \<and> f \<in> set (ofiles s) \<longleftrightarrow>
      f = VmFile v \<and> f \<in> set (ofiles s) \<or> (\<exists>c. kvcpu k = Some c \<and> f = VcpuFile c)" for f
  proof (cases f)
    case (VcpuFile c)
    have "\<exists>w. vch s c = Some (w, v)" if "kvcpu k = Some c" using refs_vm [OF r k] that by blast
    moreover have "VcpuFile c \<in> set (ofiles s) \<and> kvcpu k = Some c" if "vch s c = Some (w, v)" for w
      using refs_vc [OF r that] k by auto
    ultimately show ?thesis using VcpuFile by fastforce
  qed auto
  note eq = this
  show ?thesis
  proof (rule set_eqI)
    fix f
    show "f \<in> {f \<in> set (ofiles s). file_vm s f = Some v} \<longleftrightarrow>
      f \<in> (if VmFile v \<in> set (ofiles s) then {VmFile v} else {}) \<union> (case kvcpu k of None \<Rightarrow> {} | Some c \<Rightarrow> {VcpuFile c})"
      using eq [of f] by (cases "kvcpu k") auto
  qed
qed

text \<open>
  C21. The life of VMs and virtual CPUs is sound for every sequence of calls on open files, with any answers of the
  kernel, any order of closing and any behaviour of the guests: no call ever follows a pointer to a freed
  object, frees a page or a pin twice, or drops a pin it does not have; the reference count of every VM is the
  number of open files that refer to it, and a VM has at most one virtual CPU.
\<close>

theorem lifecycle_sound:
  assumes "sys_fresh s0" "sys_reach s0 s"
  shows "(\<forall>A c. call_open c s \<longrightarrow> sys_call A c s \<noteq> Inl UseAfterFree \<and> sys_call A c s \<noteq> Inl BadFree) \<and>
    (\<forall>v k. vmh s v = Some k \<longrightarrow> 0 < refcount k \<and>
       refcount k = card {f \<in> set (ofiles s). file_vm s f = Some v} \<and>
       card {c. \<exists>w. vch s c = Some (w, v)} \<le> 1)"
proof -
  have ok: "sys_ok (mset (live (pmem (sw s0)))) (mset (pins s0)) s"
    by (rule sys_reach_ok [OF assms(2) sys_fresh_ok [OF assms(1)]])
  then have r: "refs {} None s" by (simp add: sys_ok_def)
  have calls: "call_open c s \<Longrightarrow> sys_call A c s \<noteq> Inl UseAfterFree \<and> sys_call A c s \<noteq> Inl BadFree" for A c
    using sys_call_ok [OF ok, of c A] by (auto simp: ensures_def split: sum.splits)
  have count: "refcount k = card {f \<in> set (ofiles s). file_vm s f = Some v}" if "vmh s v = Some k" for v k
    unfolding refs_files [OF r that] using refs_vm [OF r that] by (auto split: option.splits)
  have one: "card {c. \<exists>w. vch s c = Some (w, v)} \<le> 1" if k: "vmh s v = Some k" for v k
  proof -
    have "{c. \<exists>w. vch s c = Some (w, v)} \<subseteq> set_option (kvcpu k)" using refs_vc [OF r] k by fastforce
    from card_mono [OF _ this] show ?thesis by (cases "kvcpu k") auto
  qed
  show ?thesis using calls count one refs_vm [OF r] by blast
qed


lemma uint_pos: "0 < uint x \<longleftrightarrow> uint x \<noteq> 0"
  using uint_nonnegative [of x] by linarith

text \<open>
  C23. Registering the memory slot does not take the VM's lock: two registrations whose checks both come
  before either's stores both return 0, and the pages the first one pinned stay pinned after the VM is gone.
\<close>

theorem memregion_race_leaks:
  assumes "vmh s v = Some k" "memregion_pin A v s = Inr (0, ps, s1)" "memregion_pin A' v s1 = Inr (0, ps', s2)"
    and "memregion_store (a_region A) ps v s2 = Inr s3" "memregion_store (a_region A') ps' v s3 = Inr s4"
    and "mini_kvm_destroy v s4 = Inr s5"
  shows "mset (pins s5) = mset (pins s) + mset ps"
proof -
  have pin: "mset (pins t) = mset (pins u) + mset qs \<and> vmh t = vmh u \<and> length qs = unat (drop_bit 12 (rg_size (a_region C)))"
    if "memregion_pin C v u = Inr (0, qs, t)" for C u qs t
    using that by (auto simp: memregion_pin_def Let_def with_vm_def uint_pos split: if_splits option.splits simp: rbind_eq_Inr dest: arg_cong [of _ _ nat])
  have s2: "mset (pins s2) = mset (pins s) + mset ps + mset ps'" "vmh s2 v = Some k" 
    "length ps' = unat (drop_bit 12 (rg_size (a_region A')))"
    using pin [OF assms(2)] pin [OF assms(3)] assms(1) by simp_all
  have s4: "pins s4 = pins s2" "\<exists>k4. vmh s4 v = Some k4 \<and> svalid (kslot k4) \<and> pages (kslot k4) = ps' \<and>
      npages (kslot k4) = drop_bit 12 (rg_size (a_region A'))"
    using assms(4,5) s2(2) by (auto simp: memregion_store_def with_vm_def set_vm_def)
  then obtain k4 where k4: "vmh s4 v = Some k4" "svalid (kslot k4)" "pages (kslot k4) = ps'"
    "npages (kslot k4) = drop_bit 12 (rg_size (a_region A'))" by blast
  obtain qs where "unpin_user_pages ps' (pins s4) = Inr qs" "mset qs = mset (pins s4) - mset ps'"
    using unpin_ok [of ps' "pins s4"] s2(1) s4(1) by auto
  then show ?thesis
    using assms(6) k4 s2 s4(1)
    by (auto simp: mini_kvm_destroy_def mini_kvm_unpin_memslot_def with_vm_def set_vm_def kfree_vm_def set_mem_def rbind_eq_Inr
        split: option.splits)
qed


section \<open>Witnesses\<close>

definition ex_sys :: sys where
  "ex_sys = \<lparr>sw = ex_world, vmh = (\<lambda>_. None), vch = (\<lambda>_. None), vm_next = 0, vc_next = 0, vm_id_counter = -1,
     ofiles = [], pins = [], slog = [], sinvepts = []\<rparr>"

definition ex_answers :: "u64 \<Rightarrow> answers" where
  "ex_answers p = \<lparr>a_kzalloc = True, a_kvcalloc = True, a_copy = True, a_killed = False, a_fd = 4, a_mig = 0,
     a_pins = [p], a_pin_err = 0,
     a_region = \<lparr>rg_slot = 0, rg_flags = 0, rg_gpa = 0x1000, rg_size = 0x1000, rg_uaddr = 0x7000\<rparr>,
     a_vector = 0x21, a_exits = []\<rparr>"

definition ex_kvm :: mini_kvm where
  "ex_kvm = zero_kvm\<lparr>refcount := 1, kept := \<lparr>pml4 = Some 10, eptp = 0xa01e, tracked = []\<rparr>\<rparr>"

definition ex_sys1 :: sys where
  "ex_sys1 = ex_sys\<lparr>vm_next := 1, vm_id_counter := 0, ofiles := [VmFile 0], vmh := [0 \<mapsto> ex_kvm],
     sw := ex_world\<lparr>pmem := \<lparr>tables = (\<lambda>_ _. 0), avail_pages = [Some 11, Some 12], live = [10, 20, 21]\<rparr>\<rparr>\<rparr>"

lemma ex_create: "sys_call (ex_answers 20) (DevIoctl KVM_CREATE_VM 0) ex_sys = Inr ex_sys1"
  by (simp add: mini_kvm_dev_ioctl_def mini_kvm_create_vm_def ex_sys_def ex_sys1_def ex_answers_def Let_def mini_ept_init_def
      alloc_page_def set_mem_def set_vm_def anon_inode_getfd_def ex_world_def zero_kvm_def ex_kvm_def page_to_phys_def fun_upd_idem)

lemma ex_reach1: "sys_reach ex_sys ex_sys1"
  by (rule sys_reach.call [OF sys_reach.start _ ex_create]) simp

lemma ex_fresh: "sys_fresh ex_sys"
  by (simp add: sys_fresh_def ex_sys_def)

theorem lifecycle_sound_witness:
  "refcount ex_kvm = card {f \<in> set (ofiles ex_sys1). file_vm ex_sys1 f = Some 0} \<and>
   sys_call (ex_answers 20) (Release (VmFile 0)) ex_sys1 \<noteq> Inl UseAfterFree"
proof -
  have "vmh ex_sys1 0 = Some ex_kvm" "call_open (Release (VmFile 0)) ex_sys1" by (simp_all add: ex_sys1_def)
  with lifecycle_sound [OF ex_fresh ex_reach1] show ?thesis by blast
qed

definition ex_sys2 :: sys where
  "ex_sys2 = ex_sys\<lparr>vm_next := 1, vm_id_counter := 0, vmh := Map.empty,
     sw := ex_world\<lparr>pmem := \<lparr>tables = (\<lambda>_ _. 0), avail_pages = [Some 11, Some 12], live = [20, 21]\<rparr>\<rparr>\<rparr>"

lemma ex_release: "sys_call (ex_answers 20) (Release (VmFile 0)) ex_sys1 = Inr ex_sys2"
  by (simp add: mini_vm_release_def mini_kvm_put_def mini_kvm_destroy_def mini_kvm_unpin_memslot_def with_vm_def ex_sys_def
      ex_sys1_def ex_sys2_def set_mem_def set_vm_def kfree_vm_def mini_ept_destroy_def free_page_def ex_kvm_def zero_kvm_def)


theorem memregion_race_leaks_witness:
  "\<exists>s1 s2 s3 s4 s5. memregion_pin (ex_answers 20) 0 ex_sys1 = Inr (0, [20], s1) \<and>
     memregion_pin (ex_answers 21) 0 s1 = Inr (0, [21], s2) \<and>
     memregion_store (a_region (ex_answers 20)) [20] 0 s2 = Inr s3 \<and>
     memregion_store (a_region (ex_answers 21)) [21] 0 s3 = Inr s4 \<and>
     mini_kvm_destroy 0 s4 = Inr s5 \<and> mset (pins s5) = {#20#}"
proof -
  let ?k = "\<lambda>ps. ex_kvm\<lparr>kslot := \<lparr>svalid = True, base_gpa = 0x1000, npages = 1, userspace_addr = 0x7000, pages = ps\<rparr>\<rparr>"
  let ?s2 = "ex_sys1\<lparr>pins := [21, 20]\<rparr>"
  have d: "drop_bit 12 (0x1000 :: u64) = 1" by simp
  have k: "vmh ex_sys1 0 = Some ex_kvm" "\<not> svalid (kslot ex_kvm)" "pins ex_sys1 = []"
    by (simp_all add: ex_sys1_def ex_sys_def ex_kvm_def zero_kvm_def)
  have 1: "memregion_pin (ex_answers 20) 0 ex_sys1 = Inr (0, [20], ex_sys1\<lparr>pins := [20]\<rparr>)"
    "memregion_pin (ex_answers 21) 0 (ex_sys1\<lparr>pins := [20]\<rparr>) = Inr (0, [21], ?s2)"
    using k by (simp_all add: memregion_pin_def ex_answers_def with_vm_def page_aligned_def)
  have 2: "memregion_store (a_region (ex_answers 20)) [20] 0 ?s2 = Inr (set_vm 0 (?k [20]) ?s2)"
    "memregion_store (a_region (ex_answers 21)) [21] 0 (set_vm 0 (?k [20]) ?s2) = Inr (set_vm 0 (?k [21]) (set_vm 0 (?k [20]) ?s2))"
    using k by (simp_all add: memregion_store_def ex_answers_def with_vm_def set_vm_def)
  have "\<exists>s5. mini_kvm_destroy 0 (set_vm 0 (?k [21]) (set_vm 0 (?k [20]) ?s2)) = Inr s5"
    by (simp add: mini_kvm_destroy_def mini_kvm_unpin_memslot_def with_vm_def set_vm_def mini_ept_destroy_def ex_kvm_def free_page_def
        ex_sys1_def ex_sys_def)
  then obtain s5 where 3: "mini_kvm_destroy 0 (set_vm 0 (?k [21]) (set_vm 0 (?k [20]) ?s2)) = Inr s5" by blast
  have "mset (pins s5) = {#20#}" unfolding memregion_race_leaks [OF k(1) 1 2 3] k(3) by simp
  with 1 2 3 show ?thesis by blast
qed

end
