(* ===== verification/PciPass.thy ===== *)
theory PciPass
  imports VmmPrelude
begin

text \<open>
  PCI passthrough of \<open>minivmm.c\<close>: what VFIO tells about the device, configuration mechanism 1 with a
  host bridge at 00:00.0 and the device at 00:01.0, the shadows of the BARs and of the MSI-X
  capability and table, the interrupt routing and the forwarding of BAR accesses.
\<close>

section \<open>State\<close>

text \<open>
  The device behind the VFIO descriptor is a parameter: \<open>d_pread\<close> and \<open>d_pwrite\<close> at a file offset, either
  of which may change it.  So are the answers of the ioctls that set the routing and the interrupts.
\<close>

record 'd dev_ops =
  d_pread :: "'d \<Rightarrow> u64 \<Rightarrow> nat \<Rightarrow> u8 list option \<times> 'd"
  d_pwrite :: "'d \<Rightarrow> u64 \<Rightarrow> u8 list \<Rightarrow> nat option \<times> 'd"
  d_eventfd :: "nat \<Rightarrow> int"
  d_set_irqs :: "int list \<Rightarrow> bool"

record vregion =
  r_offset :: u64
  r_size :: u64

datatype route = IoapicRoute u32 nat | PicRoute u32 bool nat | MsiRoute u32 u32 u32 u32

record vf =
  region :: "nat \<Rightarrow> vregion option"
  bar_size :: "u64 list"
  bar_type :: "u32 list"
  bar_is64 :: "bool list"
  bar_val :: "u64 list"
  hostbridge_cfg :: "u8 list"
  msix_cfg_vec :: u16
  msix_q_vec :: u16
  msix_cap :: u32
  msix_nr :: nat
  msix_table_off :: u32
  msix_table_bar :: nat
  msix_shadow :: "u8 list"
  msix_msgctl :: u16
  msix_efd :: "int list"
  msix_routing_done :: bool
  pt_notifies :: u64
  pt_notify_last :: u16
  pt_ctrl_fwd :: u64
  vf_ready :: bool

text \<open>
  \<open>gsi_routing\<close> is the last table given to \<open>KVM_SET_GSI_ROUTING\<close>, \<open>irqfds\<close> the pairs of descriptor and GSI given
  to \<open>KVM_IRQFD\<close>, \<open>armed\<close> the descriptors VFIO took over, \<open>slow_irqs\<close> the \<open>KVM_IRQ_LINE\<close> calls of the slow path.
\<close>

record 'd pt =
  vf :: vf
  pci_cfg_addr :: u32
  dev :: 'd
  gsi_routing :: "route list"
  irqfds :: "(int \<times> u32) list"
  armed :: "int list option"
  msix_slowpath :: bool
  slow_cnt :: "u64 list"
  slow_irqs :: "(u32 \<times> bool) list"

abbreviation (input) CONFIG_REGION :: nat where "CONFIG_REGION \<equiv> 7"
abbreviation (input) NUM_REGIONS :: nat where "NUM_REGIONS \<equiv> 9"
abbreviation (input) NUM_BARS :: nat where "NUM_BARS \<equiv> 6"
abbreviation (input) MSIX_GSI_BASE :: u32 where "MSIX_GSI_BASE \<equiv> 24"

definition upd_vf :: "(vf \<Rightarrow> vf) \<Rightarrow> 'd pt \<Rightarrow> 'd pt" where
  "upd_vf f s = s\<lparr>vf := f (vf s)\<rparr>"

text \<open>Following a pointer to a region that VFIO did not describe is an access through NULL.\<close>

definition with_region :: "nat \<Rightarrow> 'd pt \<Rightarrow> (vregion \<Rightarrow> 'a res) \<Rightarrow> 'a res" where
  "with_region i s k = (case region (vf s) i of None \<Rightarrow> Inl OutOfBounds | Some r \<Rightarrow> k r)"

text \<open>A read of at most four bytes into a zeroed variable: a short read leaves the rest 0.\<close>

definition pread_val :: "'d dev_ops \<Rightarrow> u64 \<Rightarrow> nat \<Rightarrow> 'd pt \<Rightarrow> u32 option \<times> 'd pt" where
  "pread_val D off n s = (case d_pread D (dev s) off n of (r, d) \<Rightarrow> (map_option (\<lambda>bs. le_val (take n bs)) r, s\<lparr>dev := d\<rparr>))"

definition pread0 :: "'d dev_ops \<Rightarrow> u64 \<Rightarrow> nat \<Rightarrow> 'd pt \<Rightarrow> u32 \<times> 'd pt" where
  "pread0 D off n s = (case pread_val D off n s of (r, t) \<Rightarrow> (case r of None \<Rightarrow> 0 | Some x \<Rightarrow> x, t))"

definition pwrite_dev :: "'d dev_ops \<Rightarrow> u64 \<Rightarrow> u8 list \<Rightarrow> 'd pt \<Rightarrow> nat option \<times> 'd pt" where
  "pwrite_dev D off bs s = (case d_pwrite D (dev s) off bs of (r, d) \<Rightarrow> (r, s\<lparr>dev := d\<rparr>))"

section \<open>Setup\<close>

definition zero_vf :: vf where
  "zero_vf = \<lparr>region = (\<lambda>_. None), bar_size = replicate 6 0, bar_type = replicate 6 0, bar_is64 = replicate 6 False,
     bar_val = replicate 6 0, hostbridge_cfg = replicate 256 0, msix_cfg_vec = 0, msix_q_vec = 0, msix_cap = 0,
     msix_nr = 0, msix_table_off = 0, msix_table_bar = 0, msix_shadow = replicate 512 0, msix_msgctl = 0,
     msix_efd = replicate 32 0, msix_routing_done = False, pt_notifies = 0, pt_notify_last = 0, pt_ctrl_fwd = 0,
     vf_ready = False\<rparr>"

text \<open>Sizes come from VFIO, types from the low bits of the real BAR.\<close>

fun probe_bars :: "'d dev_ops \<Rightarrow> u64 \<Rightarrow> nat list \<Rightarrow> 'd pt \<Rightarrow> 'd pt" where
  "probe_bars D cfg [] s = s"
| "probe_bars D cfg (b # bs) s =
     (case region (vf s) b of
        None \<Rightarrow> probe_bars D cfg bs s
      | Some r \<Rightarrow>
          if r_size r = 0 then probe_bars D cfg bs s
          else (case pread0 D (cfg + 0x10 + of_nat b * 4) 4 s of (raw, s1) \<Rightarrow>
            probe_bars D cfg bs (upd_vf (\<lambda>v. v\<lparr>bar_size := (bar_size v)[b := r_size r],
              bar_type := (bar_type v)[b := raw AND 0xf],
              bar_is64 := (bar_is64 v)[b := drop_bit 1 raw AND 3 = 2]\<rparr>) s1)))"

definition hostbridge_init :: "u8 list" where
  "hostbridge_init = (replicate 256 0)[0 := 0x86, 1 := 0x80, 2 := 0x37, 3 := 0x12, 4 := 0x06, 10 := 0, 11 := 0x06, 14 := 0]"

text \<open>The walk along the capability list stops after 16 entries.\<close>

fun find_msix :: "nat \<Rightarrow> 'd dev_ops \<Rightarrow> u64 \<Rightarrow> u32 \<Rightarrow> 'd pt \<Rightarrow> u32 \<times> 'd pt" where
  "find_msix 0 D cfg off s = (0, s)"
| "find_msix (Suc n) D cfg off s =
     (if off = 0 then (0, s)
      else (case pread0 D (cfg + ucast off) 1 s of (i, s1) \<Rightarrow>
        case pread0 D (cfg + ucast off + 1) 1 s1 of (nxt, s2) \<Rightarrow>
          if i = 0x11 then (off, s2) else find_msix n D cfg (nxt AND 0xfc) s2))"

definition read_msix :: "'d dev_ops \<Rightarrow> u64 \<Rightarrow> u32 \<Rightarrow> 'd pt \<Rightarrow> 'd pt" where
  "read_msix D cfg cap s =
     (case pread0 D (cfg + ucast cap + 2) 2 s of (msgctl, s1) \<Rightarrow>
      case pread0 D (cfg + ucast cap + 4) 4 s1 of (tbl, s2) \<Rightarrow>
        upd_vf (\<lambda>v. v\<lparr>msix_cap := cap, msix_nr := unat (msgctl AND 0x7ff) + 1, msix_msgctl := ucast msgctl,
          msix_table_off := tbl AND NOT 7, msix_table_bar := unat (tbl AND 7), msix_efd := replicate 32 (-1)\<rparr>) s2)"

definition vfio_setup :: "'d dev_ops \<Rightarrow> nat \<Rightarrow> (nat \<Rightarrow> vregion option) \<Rightarrow> 'd pt \<Rightarrow> 'd pt res" where
  "vfio_setup D num info s0 =
     (let s1 = upd_vf (\<lambda>v. v\<lparr>region := (\<lambda>i. if i < num \<and> i < NUM_REGIONS then info i else None)\<rparr>) s0 in
      with_region CONFIG_REGION s1 (\<lambda>c.
        let cfg = r_offset c;
            s2 = upd_vf (\<lambda>v. v\<lparr>hostbridge_cfg := hostbridge_init\<rparr>) (probe_bars D cfg [0..<NUM_BARS] s1)
        in case pread0 D (cfg + 0x34) 1 s2 of (ptr, s3) \<Rightarrow>
           case find_msix 16 D cfg (ptr AND 0xfc) s3 of (cap, s4) \<Rightarrow>
             let s5 = (if cap \<noteq> 0 then read_msix D cfg cap s4 else upd_vf (\<lambda>v. v\<lparr>msix_cap := 0\<rparr>) s4)
             in Inr (upd_vf (\<lambda>v. v\<lparr>vf_ready := True\<rparr>) s5)))"

section \<open>Interrupt routing\<close>

definition shadow32 :: "vf \<Rightarrow> nat \<Rightarrow> u32 res" where
  "shadow32 v off = (if off + 4 \<le> length (msix_shadow v) then Inr (le_val (take 4 (drop off (msix_shadow v)))) else Inl OutOfBounds)"

definition vec_count :: "vf \<Rightarrow> nat" where
  "vec_count v = min (msix_nr v) 32"

definition default_routes :: "route list" where
  "default_routes = map (\<lambda>g. IoapicRoute (of_nat g) g) [0..<24] @
     map (\<lambda>g. PicRoute (of_nat g) (g < 8) (if g < 8 then g else g - 8)) [0..<16]"

text \<open>The routes of the vectors that have an address; each is an entry of its own.\<close>

fun msi_routes :: "vf \<Rightarrow> nat list \<Rightarrow> route list res" where
  "msi_routes v [] = Inr []"
| "msi_routes v (i # is) =
     rbind (shadow32 v (i * 16)) (\<lambda>lo.
     rbind (shadow32 v (i * 16 + 4)) (\<lambda>hi.
     rbind (shadow32 v (i * 16 + 8)) (\<lambda>data.
     rbind (msi_routes v is) (\<lambda>rs.
       Inr (if lo = 0 \<and> hi = 0 then rs else MsiRoute (MSIX_GSI_BASE + of_nat i) lo hi data # rs)))))"

text \<open>The table is an array of \<open>24 + 16 + nr + 4\<close> entries.\<close>

definition msix_update_routes :: "'d pt \<Rightarrow> (int \<times> 'd pt) res" where
  "msix_update_routes s =
     (let nr = vec_count (vf s) in
      rbind (msi_routes (vf s) [0..<nr]) (\<lambda>ms.
        let rt = default_routes @ ms
        in if length rt \<le> 24 + 16 + nr + 4 then Inr (int (length ms), s\<lparr>gsi_routing := rt\<rparr>) else Inl OutOfBounds))"

fun make_irqfds :: "'d dev_ops \<Rightarrow> nat list \<Rightarrow> 'd pt \<Rightarrow> 'd pt res" where
  "make_irqfds D [] s = Inr s"
| "make_irqfds D (i # is) s =
     rbind (shadow32 (vf s) (i * 16)) (\<lambda>lo.
     rbind (shadow32 (vf s) (i * 16 + 4)) (\<lambda>hi.
       if lo = 0 \<and> hi = 0 then make_irqfds D is s
       else
         (let fd = d_eventfd D i;
              s1 = upd_vf (\<lambda>v. v\<lparr>msix_efd := (msix_efd v)[i := fd]\<rparr>) s;
              s2 = (if msix_slowpath s1 then s1 else s1\<lparr>irqfds := irqfds s1 @ [(fd, MSIX_GSI_BASE + of_nat i)]\<rparr>)
          in make_irqfds D is s2)))"

text \<open>The Vector Control dword of an entry is the only part of the physical table that is written.\<close>

definition forward_ctrl :: "'d dev_ops \<Rightarrow> vregion \<Rightarrow> nat \<Rightarrow> 'd pt \<Rightarrow> 'd pt res" where
  "forward_ctrl D r i s =
     rbind (shadow32 (vf s) (i * 16 + 12)) (\<lambda>ctrl.
       case pwrite_dev D (r_offset r + ucast (msix_table_off (vf s)) + of_nat (i * 16) + 12) (le_bytes 4 ctrl) s of (n, s1) \<Rightarrow>
         Inr (if n = Some 4 then upd_vf (\<lambda>v. v\<lparr>pt_ctrl_fwd := pt_ctrl_fwd v + 1\<rparr>) s1 else s1))"

fun sync_masks :: "'d dev_ops \<Rightarrow> vregion \<Rightarrow> nat list \<Rightarrow> 'd pt \<Rightarrow> 'd pt res" where
  "sync_masks D r [] s = Inr s"
| "sync_masks D r (i # is) s =
     rbind (shadow32 (vf s) (i * 16)) (\<lambda>lo.
     rbind (shadow32 (vf s) (i * 16 + 4)) (\<lambda>hi.
       if lo = 0 \<and> hi = 0 then sync_masks D r is s else rbind (forward_ctrl D r i s) (sync_masks D r is)))"

definition msix_setup_irqs :: "'d dev_ops \<Rightarrow> 'd pt \<Rightarrow> (int \<times> 'd pt) res" where
  "msix_setup_irqs D s =
     (let nr = vec_count (vf s) in
      rbind (msix_update_routes s) (\<lambda>(active, s1).
      rbind (make_irqfds D [0..<nr] s1) (\<lambda>s2.
        let fds = take nr (msix_efd (vf s2)) in
        if \<not> d_set_irqs D fds then Inr (-1, s2)
        else
          (let s3 = upd_vf (\<lambda>v. v\<lparr>msix_routing_done := True\<rparr>) (s2\<lparr>armed := Some fds\<rparr>) in
           rbind (case region (vf s3) (msix_table_bar (vf s3)) of
               None \<Rightarrow> Inr s3 | Some r \<Rightarrow> sync_masks D r [0..<nr] s3) (\<lambda>s4. Inr (0, s4))))))"

text \<open>The slow path: \<open>c\<close> events were read from the eventfd of vector \<open>v\<close>.\<close>

definition msix_slow_fire :: "nat \<Rightarrow> u64 \<Rightarrow> 'd pt \<Rightarrow> 'd pt" where
  "msix_slow_fire v c s = s\<lparr>slow_cnt := (slow_cnt s)[v := slow_cnt s ! v + c],
     slow_irqs := slow_irqs s @ [(MSIX_GSI_BASE + of_nat v, True)]\<rparr>"

section \<open>Configuration space\<close>

text \<open>Which BAR a register belongs to, and whether it is the upper half of a 64-bit one.\<close>

fun bar_at :: "vf \<Rightarrow> u32 \<Rightarrow> nat list \<Rightarrow> (nat \<times> bool) option" where
  "bar_at v reg [] = None"
| "bar_at v reg (i # is) =
     (let lo = 0x10 + of_nat i * 4 in
      if reg \<ge> lo \<and> reg < lo + 4 then Some (i, False)
      else if bar_is64 v ! i \<and> reg \<ge> lo + 4 \<and> reg < lo + 8 then Some (i, True)
      else bar_at v reg is)"

fun bar_exact :: "vf \<Rightarrow> u32 \<Rightarrow> nat list \<Rightarrow> (nat \<times> bool) option" where
  "bar_exact v reg [] = None"
| "bar_exact v reg (i # is) =
     (let lo = 0x10 + of_nat i * 4 in
      if reg = lo then Some (i, False)
      else if bar_is64 v ! i \<and> reg = lo + 4 then Some (i, True)
      else bar_exact v reg is)"

definition msgctl_bytes :: "vf \<Rightarrow> u32 \<Rightarrow> nat \<Rightarrow> u32" where
  "msgctl_bytes v reg len =
     foldl (\<lambda>acc i. acc OR push_bit (i * 8)
        (drop_bit (unat ((reg - (msix_cap v + 2) + of_nat i) * 8)) (ucast (msix_msgctl v)) AND 0xff)) 0 [0..<len]"

definition bar_read :: "vf \<Rightarrow> nat \<Rightarrow> bool \<Rightarrow> u32" where
  "bar_read v b hi =
     (if hi then ucast (drop_bit 32 (bar_val v ! b))
      else (ucast (bar_val v ! b) AND NOT (ucast (bar_size v ! b - 1))) OR bar_type v ! b)"

definition config_forward_read :: "'d dev_ops \<Rightarrow> u32 \<Rightarrow> nat \<Rightarrow> 'd pt \<Rightarrow> (u32 \<times> 'd pt) res" where
  "config_forward_read D reg len s =
     with_region CONFIG_REGION s (\<lambda>c.
       case pread_val D (r_offset c + ucast reg) len s of (r, s1) \<Rightarrow>
         Inr (case r of None \<Rightarrow> 0xffffffff | Some x \<Rightarrow> x, s1))"

definition pt_config_read :: "'d dev_ops \<Rightarrow> u32 \<Rightarrow> nat \<Rightarrow> 'd pt \<Rightarrow> (u32 \<times> 'd pt) res" where
  "pt_config_read D reg len s =
     (let v = vf s in
      if msix_cap v \<noteq> 0 \<and> reg \<ge> msix_cap v + 2 \<and> reg + of_nat len \<le> msix_cap v + 4
      then Inr (msgctl_bytes v reg len, s)
      else
        (case (if reg \<ge> 0x10 \<and> reg < 0x28 then bar_at v reg [0..<NUM_BARS] else None) of
           Some (b, hi) \<Rightarrow>
             if bar_size v ! b \<noteq> 0 then
               Inr (if len = 4 then bar_read v b hi
                    else drop_bit (unat ((reg AND 3) * 8)) (bar_read v b hi) AND (if len = 2 then 0xffff else 0xff), s)
             else config_forward_read D reg len s
         | None \<Rightarrow> config_forward_read D reg len s))"

definition write_msgctl :: "u32 \<Rightarrow> nat \<Rightarrow> u32 \<Rightarrow> vf \<Rightarrow> vf" where
  "write_msgctl reg len val v =
     foldl (\<lambda>v i.
        let b = drop_bit (i * 8) val AND 0xff;
            bitpos = sint ((reg + of_nat i - (msix_cap v + 2)) * 8)
        in if bitpos \<ge> 0 \<and> bitpos < 16 then
             (let mask = 0xc000 AND push_bit (nat bitpos) 0xff
              in v\<lparr>msix_msgctl := (msix_msgctl v AND NOT mask) OR (ucast (push_bit (nat bitpos) b) AND mask)\<rparr>)
           else v) v [0..<len]"

definition bar_write :: "nat \<Rightarrow> bool \<Rightarrow> u32 \<Rightarrow> vf \<Rightarrow> vf" where
  "bar_write b hi val v =
     v\<lparr>bar_val := (bar_val v)[b :=
        if hi then push_bit 32 (ucast val) OR (bar_val v ! b AND 0xffffffff)
        else (bar_val v ! b AND 0xffffffff00000000) OR ucast (val AND 0xfffffff0)]\<rparr>"

definition pt_config_write :: "'d dev_ops \<Rightarrow> u32 \<Rightarrow> nat \<Rightarrow> u32 \<Rightarrow> 'd pt \<Rightarrow> 'd pt res" where
  "pt_config_write D reg len val s =
     (let v = vf s;
          rest =
            (if msix_cap v \<noteq> 0 \<and> reg \<ge> msix_cap v + 2 \<and> reg < msix_cap v + 4 then
               (let s1 = upd_vf (write_msgctl reg len val) s;
                    enable = msix_msgctl (vf s1) AND 0x8000 \<noteq> 0;
                    funcmask = msix_msgctl (vf s1) AND 0x4000 \<noteq> 0
                in if enable \<and> \<not> funcmask \<and> \<not> msix_routing_done (vf s1)
                   then rbind (msix_setup_irqs D s1) (\<lambda>(r, s2). Inr s2) else Inr s1)
             else
               with_region CONFIG_REGION s (\<lambda>c.
                 case pwrite_dev D (r_offset c + ucast reg) (le_bytes len val) s of (n, s1) \<Rightarrow> Inr s1))
      in case (if reg \<ge> 0x10 \<and> reg < 0x28 \<and> len = 4 then bar_exact v reg [0..<NUM_BARS] else None) of
           Some (b, hi) \<Rightarrow> if bar_size v ! b \<noteq> 0 then Inr (upd_vf (bar_write b hi val) s) else rest
         | None \<Rightarrow> rest)"

definition hostbridge_write :: "u32 \<Rightarrow> nat \<Rightarrow> u32 \<Rightarrow> vf \<Rightarrow> vf" where
  "hostbridge_write reg len val v =
     foldl (\<lambda>v i. if unat reg + i < 256
        then v\<lparr>hostbridge_cfg := (hostbridge_cfg v)[unat reg + i := ucast (drop_bit (i * 8) val)]\<rparr> else v) v [0..<len]"

definition hostbridge_read :: "u32 \<Rightarrow> nat \<Rightarrow> vf \<Rightarrow> u32" where
  "hostbridge_read reg len v =
     foldl (\<lambda>acc i. if unat reg + i < 256 then acc OR push_bit (i * 8) (ucast (hostbridge_cfg v ! (unat reg + i))) else acc)
       0 [0..<len]"

abbreviation (input) PCI_CFG_ADDR_PORT :: u16 where "PCI_CFG_ADDR_PORT \<equiv> 0xcf8"
abbreviation (input) PCI_CFG_DATA_PORT :: u16 where "PCI_CFG_DATA_PORT \<equiv> 0xcfc"

text \<open>
  The result is \<open>None\<close> where the code returns -1: the port is not one of configuration mechanism 1.  Otherwise it is the
  value of \<open>*val\<close> afterwards.
\<close>

definition pci_config_io ::
  "'d dev_ops \<Rightarrow> u16 \<Rightarrow> bool \<Rightarrow> u32 \<Rightarrow> nat \<Rightarrow> 'd pt \<Rightarrow> (u32 option \<times> 'd pt) res" where
  "pci_config_io D port is_write val sz s =
     (if \<not> vf_ready (vf s) then Inr (None, s)
      else if port = PCI_CFG_ADDR_PORT \<and> sz = 4 then
        (if is_write then Inr (Some val, s\<lparr>pci_cfg_addr := val\<rparr>) else Inr (Some (pci_cfg_addr s), s))
      else if port \<ge> PCI_CFG_DATA_PORT \<and> port < PCI_CFG_DATA_PORT + 4 then
        (let none = (if is_write then val else 0xffffffff) in
         if pci_cfg_addr s AND 0x80000000 = 0 then Inr (Some none, s)
         else
           (let bus = drop_bit 16 (pci_cfg_addr s) AND 0xff;
                devfn = drop_bit 8 (pci_cfg_addr s) AND 0xff;
                reg = (pci_cfg_addr s AND 0xfc) OR ucast (port - PCI_CFG_DATA_PORT)
            in if bus \<noteq> 0 then Inr (Some none, s)
               else if devfn = 0 then
                 (if is_write then Inr (Some val, upd_vf (hostbridge_write reg sz val) s)
                  else Inr (Some (hostbridge_read reg sz (vf s)), s))
               else if devfn = 8 then
                 (if is_write then rbind (pt_config_write D reg sz val s) (\<lambda>s1. Inr (Some val, s1))
                  else rbind (pt_config_read D reg sz s) (\<lambda>(x, s1). Inr (Some x, s1)))
               else Inr (Some none, s)))
      else Inr (None, s))"

section \<open>BAR accesses\<close>

text \<open>A read returns the bytes the guest sees, the old contents of the buffer if \<open>pread\<close> fails.\<close>

definition bar_forward :: "'d dev_ops \<Rightarrow> vregion \<Rightarrow> u64 \<Rightarrow> bool \<Rightarrow> u8 list \<Rightarrow> 'd pt \<Rightarrow> u8 list \<times> 'd pt" where
  "bar_forward D r off is_write data s =
     (if is_write then (data, snd (pwrite_dev D (r_offset r + off) data s))
      else (case d_pread D (dev s) (r_offset r + off) (length data) of (bs, d) \<Rightarrow>
        (case bs of None \<Rightarrow> data | Some xs \<Rightarrow> take (length data) xs @ drop (length xs) data, s\<lparr>dev := d\<rparr>)))"

definition note_notify :: "u64 \<Rightarrow> bool \<Rightarrow> u8 list \<Rightarrow> vf \<Rightarrow> vf" where
  "note_notify off is_write data v =
     (if off = 0x10 \<and> is_write then v\<lparr>pt_notify_last := le_val (take 2 data), pt_notifies := pt_notifies v + 1\<rparr> else v)"

text \<open>The copy into \<open>regs[4]\<close> has the length of the access.\<close>

definition note_vectors :: "u64 \<Rightarrow> bool \<Rightarrow> u8 list \<Rightarrow> vf \<Rightarrow> vf res" where
  "note_vectors off is_write data v =
     (if off \<ge> 0x14 \<and> off < 0x18 \<and> is_write then
        (let regs = le_bytes 2 (msix_cfg_vec v) @ le_bytes 2 (msix_q_vec v); o0 = unat (off - 0x14)
         in if o0 + length data \<le> 4 then
              (let regs1 = take o0 regs @ data @ drop (o0 + length data) regs
               in Inr (v\<lparr>msix_cfg_vec := le_val (take 2 regs1), msix_q_vec := le_val (drop 2 regs1)\<rparr>))
            else Inl OutOfBounds)
      else Inr v)"

definition handle_bar0_legacy :: "'d dev_ops \<Rightarrow> u64 \<Rightarrow> bool \<Rightarrow> u8 list \<Rightarrow> 'd pt \<Rightarrow> (u8 list \<times> 'd pt) res" where
  "handle_bar0_legacy D off is_write data s =
     rbind (note_vectors off is_write data (note_notify off is_write data (vf s))) (\<lambda>v1.
     with_region 0 s (\<lambda>r. Inr (bar_forward D r off is_write data (s\<lparr>vf := v1\<rparr>))))"

definition shadow_write :: "nat \<Rightarrow> u8 list \<Rightarrow> vf \<Rightarrow> vf res" where
  "shadow_write pos data v =
     (if pos + length data \<le> length (msix_shadow v)
      then Inr (v\<lparr>msix_shadow := take pos (msix_shadow v) @ data @ drop (pos + length data) (msix_shadow v)\<rparr>)
      else Inl OutOfBounds)"

definition msix_table_access ::
  "'d dev_ops \<Rightarrow> nat \<Rightarrow> nat \<Rightarrow> bool \<Rightarrow> u8 list \<Rightarrow> 'd pt \<Rightarrow> (u8 list \<times> 'd pt) res" where
  "msix_table_access D b pos is_write data s =
     (if is_write then
        rbind (shadow_write pos data (vf s)) (\<lambda>v1.
        let s1 = s\<lparr>vf := v1\<rparr>; vec = pos div 16; fld = pos mod 16 in
        rbind (if fld \<ge> 12 \<or> fld + length data > 12 then
                 (case region v1 b of None \<Rightarrow> Inr s1 | Some r \<Rightarrow> forward_ctrl D r vec s1)
               else Inr s1) (\<lambda>s2.
        if msix_routing_done (vf s2) \<and> fld < 12 then rbind (msix_update_routes s2) (\<lambda>(n, s3). Inr (data, s3))
        else Inr (data, s2)))
      else if pos + length data \<le> length (msix_shadow (vf s))
      then Inr (take (length data) (drop pos (msix_shadow (vf s))), s) else Inl OutOfBounds)"

definition bar_hit :: "vf \<Rightarrow> u64 \<Rightarrow> nat \<Rightarrow> bool" where
  "bar_hit v pa b \<longleftrightarrow>
     (let base = bar_val v ! b AND NOT 0xf
      in base \<noteq> 0 \<and> bar_size v ! b \<noteq> 0 \<and> pa \<ge> base \<and> pa < base + bar_size v ! b)"

text \<open>\<open>None\<close>: no BAR answers, the code returns -1.\<close>

definition handle_pt_mmio :: "'d dev_ops \<Rightarrow> u64 \<Rightarrow> bool \<Rightarrow> u8 list \<Rightarrow> 'd pt \<Rightarrow> (u8 list option \<times> 'd pt) res" where
  "handle_pt_mmio D pa is_write data s =
     (let v = vf s in
      if \<not> vf_ready v then Inr (None, s)
      else
        (case filter (bar_hit v pa) [0..<NUM_BARS] of
           [] \<Rightarrow> Inr (None, s)
         | b # _ \<Rightarrow>
             (let off = pa - (bar_val v ! b AND NOT 0xf) in
              if b = 0 then rbind (handle_bar0_legacy D off is_write data s) (\<lambda>(bs, s1). Inr (Some bs, s1))
              else if b = msix_table_bar v \<and> msix_cap v \<noteq> 0 \<and> off \<ge> ucast (msix_table_off v) \<and>
                  off + of_nat (length data) \<le> ucast (msix_table_off v) + of_nat (msix_nr v) * 16
              then rbind (msix_table_access D b (unat (ucast (off - ucast (msix_table_off v)) :: u32)) is_write data s)
                     (\<lambda>(bs, s1). Inr (Some bs, s1))
              else with_region b s (\<lambda>r. case bar_forward D r off is_write data s of (bs, s1) \<Rightarrow> Inr (Some bs, s1)))))"

section \<open>Well-formed states\<close>

text \<open>
  What \<open>vfio_setup\<close> leaves and every access keeps: the arrays have their C lengths and a BAR with a size
  has its region.  The bound on the number of vectors is what the size of the shadow table asks of the device.
\<close>

definition vf_wf :: "vf \<Rightarrow> bool" where
  "vf_wf v \<longleftrightarrow> length (bar_size v) = 6 \<and> length (bar_type v) = 6 \<and> length (bar_is64 v) = 6 \<and> length (bar_val v) = 6 \<and>
     length (hostbridge_cfg v) = 256 \<and> length (msix_shadow v) = 512 \<and> length (msix_efd v) = 32 \<and>
     region v CONFIG_REGION \<noteq> None \<and> 8 dvd unat (msix_table_off v) \<and> (\<forall>b < 6. bar_size v ! b \<noteq> 0 \<longrightarrow> region v b \<noteq> None \<and> bar_size v ! b < 2 ^ 63)"

definition pt_wf :: "'d pt \<Rightarrow> bool" where
  "pt_wf s \<longleftrightarrow> vf_wf (vf s) \<and> msix_nr (vf s) \<le> 32"

text \<open>The fields the invariants look at.\<close>

definition same_vf :: "vf \<Rightarrow> vf \<Rightarrow> bool" where
  "same_vf v w \<longleftrightarrow> region w = region v \<and> bar_size w = bar_size v \<and> bar_type w = bar_type v \<and> bar_is64 w = bar_is64 v \<and>
     bar_val w = bar_val v \<and> hostbridge_cfg w = hostbridge_cfg v \<and> msix_cap w = msix_cap v \<and> msix_nr w = msix_nr v \<and>
     msix_table_off w = msix_table_off v \<and> msix_table_bar w = msix_table_bar v \<and> msix_shadow w = msix_shadow v \<and>
     msix_msgctl w = msix_msgctl v \<and> length (msix_efd w) = length (msix_efd v) \<and> vf_ready w = vf_ready v"

lemma same_vf_refl [simp]: "same_vf v v"
  by (simp add: same_vf_def)

lemma same_vf_trans [trans]: "same_vf u v \<Longrightarrow> same_vf v w \<Longrightarrow> same_vf u w"
  by (simp add: same_vf_def)

lemma same_vf_wf: "same_vf v w \<Longrightarrow> vf_wf v \<Longrightarrow> vf_wf w"
  by (simp add: same_vf_def vf_wf_def)

lemma same_pt_wf: "same_vf (vf s) (vf t) \<Longrightarrow> pt_wf s \<Longrightarrow> pt_wf t"
  by (auto simp: pt_wf_def same_vf_wf) (simp add: same_vf_def)

lemma pwrite_dev_keeps:
  "vf (snd (pwrite_dev D off bs s)) = vf s \<and> gsi_routing (snd (pwrite_dev D off bs s)) = gsi_routing s \<and>
   irqfds (snd (pwrite_dev D off bs s)) = irqfds s \<and> armed (snd (pwrite_dev D off bs s)) = armed s \<and>
   msix_slowpath (snd (pwrite_dev D off bs s)) = msix_slowpath s \<and> pci_cfg_addr (snd (pwrite_dev D off bs s)) = pci_cfg_addr s"
  by (simp add: pwrite_dev_def split: prod.splits)

lemma pread_val_keeps:
  "vf (snd (pread_val D off n s)) = vf s \<and> gsi_routing (snd (pread_val D off n s)) = gsi_routing s \<and>
   armed (snd (pread_val D off n s)) = armed s"
  by (simp add: pread_val_def split: prod.splits)

lemma pread0_keeps: "vf (snd (pread0 D off n s)) = vf s"
  by (auto simp: pread0_def pread_val_def split: prod.splits)

lemma vf_upd_vf [simp]: "vf (upd_vf f s) = f (vf s)"
  by (simp add: upd_vf_def)

lemma upd_vf_keeps [simp]:
  "gsi_routing (upd_vf f s) = gsi_routing s" "irqfds (upd_vf f s) = irqfds s" "armed (upd_vf f s) = armed s"
  "msix_slowpath (upd_vf f s) = msix_slowpath s" "dev (upd_vf f s) = dev s" "pci_cfg_addr (upd_vf f s) = pci_cfg_addr s"
  by (simp_all add: upd_vf_def)

section \<open>Setup\<close>

lemma probe_bars_wf:
  assumes "vf_wf (vf s)" "set bs \<subseteq> {0..<6}" "\<And>b r. region (vf s) b = Some r \<Longrightarrow> r_size r < 2 ^ 63"
  shows "vf_wf (vf (probe_bars D cfg bs s)) \<and> msix_routing_done (vf (probe_bars D cfg bs s)) = msix_routing_done (vf s)"
  using assms
proof (induction bs arbitrary: s)
  case Nil
  then show ?case by simp
next
  case (Cons b bs)
  have b: "b < 6" and bs: "set bs \<subseteq> {0..<6}" using Cons.prems(2) by auto
  show ?case
  proof (cases "region (vf s) b")
    case None
    then show ?thesis using Cons.IH [OF Cons.prems(1) bs Cons.prems(3)] by simp
  next
    case (Some r)
    show ?thesis
    proof (cases "r_size r = 0")
      case True
      then show ?thesis using Some Cons.IH [OF Cons.prems(1) bs Cons.prems(3)] by simp
    next
      case False
      obtain raw s1 where p: "pread0 D (cfg + 0x10 + of_nat b * 4) 4 s = (raw, s1)" by fastforce
      have v1: "vf s1 = vf s" using pread0_keeps [of D "cfg + 0x10 + of_nat b * 4" 4 s] p by simp
      let ?s2 = "upd_vf (\<lambda>v. v\<lparr>bar_size := (bar_size v)[b := r_size r],
              bar_type := (bar_type v)[b := raw AND 0xf],
              bar_is64 := (bar_is64 v)[b := drop_bit 1 raw AND 3 = 2]\<rparr>) s1"
      have sz: "r_size r < 2 ^ 63" by (rule Cons.prems(3) [OF Some])
      have w2: "vf_wf (vf ?s2)"
        using Cons.prems(1) Some sz b by (auto simp: vf_wf_def v1 nth_list_update)
      have reg2: "region (vf ?s2) = region (vf s)" by (simp add: v1)
      have eq: "probe_bars D cfg (b # bs) s = probe_bars D cfg bs ?s2"
        using Some False p by (simp add: add.assoc)
      show ?thesis unfolding eq using Cons.IH [OF w2 bs] reg2 Cons.prems(3) by (simp add: v1)
    qed
  qed
qed

lemma find_msix_keeps: "vf (snd (find_msix n D cfg off s)) = vf s"
proof (induction n D cfg off s rule: find_msix.induct)
  case (1 D cfg off s)
  then show ?case by simp
next
  case (2 n D cfg off s)
  obtain i s1 where p: "pread0 D (cfg + ucast off) 1 s = (i, s1)" by fastforce
  obtain nxt s2 where q: "pread0 D (cfg + ucast off + 1) 1 s1 = (nxt, s2)" by fastforce
  have "vf s1 = vf s" "vf s2 = vf s1"
    using pread0_keeps [of D "cfg + ucast off" 1 s] pread0_keeps [of D "cfg + ucast off + 1" 1 s1] p q by simp_all
  then show ?case using 2 p q by simp
qed

lemma mask_dvd:
  fixes w :: "'a::len word"
  shows "2 ^ n dvd unat (w AND NOT (mask n))"
proof -
  have "take_bit n (w AND NOT (mask n)) = 0" by (rule bit_word_eqI) (auto simp: bit_simps)
  then have "take_bit n (unat (w AND NOT (mask n))) = 0" by (metis unsigned_take_bit_eq unsigned_0)
  then show ?thesis by (simp add: take_bit_eq_0_iff)
qed

lemma mask_dvd8: "8 dvd unat (w AND NOT 7)" for w :: "'a::len word"
  using mask_dvd [of 3 w] by (simp add: mask_numeral)

lemma mask_dvd16: "16 dvd unat (w AND NOT 15)" for w :: "'a::len word"
  using mask_dvd [of 4 w] by (simp add: mask_numeral)

lemma read_msix_wf:
  assumes "vf_wf (vf s)"
  shows "vf_wf (vf (read_msix D cfg cap s)) \<and> msix_routing_done (vf (read_msix D cfg cap s)) = msix_routing_done (vf s)"
proof -
  obtain m s1 where p: "pread0 D (cfg + ucast cap + 2) 2 s = (m, s1)" by fastforce
  obtain t s2 where q: "pread0 D (cfg + ucast cap + 4) 4 s1 = (t, s2)" by fastforce
  have "vf s1 = vf s" "vf s2 = vf s1"
    using pread0_keeps [of D "cfg + ucast cap + 2" 2 s] pread0_keeps [of D "cfg + ucast cap + 4" 4 s1] p q by simp_all
  then show ?thesis using assms p q mask_dvd8 [of t] by (simp add: read_msix_def vf_wf_def)
qed

definition pt_power_on :: "'d \<Rightarrow> bool \<Rightarrow> 'd pt" where
  "pt_power_on d slow = \<lparr>vf = zero_vf, pci_cfg_addr = 0, dev = d, gsi_routing = [], irqfds = [], armed = None,
     msix_slowpath = slow, slow_cnt = replicate 32 0, slow_irqs = []\<rparr>"

lemma vfio_setup_wf:
  assumes "num > 7" "info 7 = Some c" "\<And>b r. info b = Some r \<Longrightarrow> r_size r < 2 ^ 63"
  shows "\<exists>s. vfio_setup D num info (pt_power_on d slow) = Inr s \<and> vf_wf (vf s) \<and> vf_ready (vf s) \<and> \<not> msix_routing_done (vf s)"
proof -
  let ?s1 = "upd_vf (\<lambda>v. v\<lparr>region := (\<lambda>i. if i < num \<and> i < NUM_REGIONS then info i else None)\<rparr>) (pt_power_on d slow)"
  let ?p = "probe_bars D (r_offset c) [0..<NUM_BARS] ?s1"
  let ?s2 = "upd_vf (\<lambda>v. v\<lparr>hostbridge_cfg := hostbridge_init\<rparr>) ?p"
  have w1: "vf_wf (vf ?s1)"
    using assms(1,2) by (simp add: vf_wf_def pt_power_on_def zero_vf_def nth_replicate)
  have bnd: "r_size r < 2 ^ 63" if "region (vf ?s1) b = Some r" for b r
    using that assms(3) by (auto split: if_splits)
  have "vf_wf (vf ?p) \<and> msix_routing_done (vf ?p) = msix_routing_done (vf ?s1)"
    by (rule probe_bars_wf [OF w1 _ bnd]) auto
  then have w2: "vf_wf (vf ?s2)" "\<not> msix_routing_done (vf ?s2)"
    by (simp_all add: vf_wf_def hostbridge_init_def pt_power_on_def zero_vf_def)
  obtain ptr s3 where p3: "pread0 D (r_offset c + 0x34) 1 ?s2 = (ptr, s3)" by fastforce
  obtain cap s4 where p4: "find_msix 16 D (r_offset c) (ptr AND 0xfc) s3 = (cap, s4)" by fastforce
  have "vf s3 = vf ?s2" using pread0_keeps [of D "r_offset c + 0x34" 1 ?s2] p3 by simp
  moreover have "vf s4 = vf s3" using find_msix_keeps [of 16 D "r_offset c" "ptr AND 0xfc" s3] p4 by simp
  ultimately have w4: "vf_wf (vf s4)" "\<not> msix_routing_done (vf s4)" using w2 by simp_all
  let ?s5 = "if cap \<noteq> 0 then read_msix D (r_offset c) cap s4 else upd_vf (\<lambda>v. v\<lparr>msix_cap := 0\<rparr>) s4"
  have w5: "vf_wf (vf ?s5) \<and> \<not> msix_routing_done (vf ?s5)"
  proof (cases "cap = 0")
    case True
    then show ?thesis using w4 by (simp add: vf_wf_def)
  next
    case False
    then show ?thesis using read_msix_wf [OF w4(1)] w4(2) by simp
  qed
  have reg: "region (vf ?s1) CONFIG_REGION = Some c" using assms(1,2) by simp
  have "vfio_setup D num info (pt_power_on d slow) = Inr (upd_vf (\<lambda>v. v\<lparr>vf_ready := True\<rparr>) ?s5)"
    unfolding vfio_setup_def Let_def with_region_def reg option.case p3 p4 prod.case by (rule refl)
  moreover have "vf_wf (vf (upd_vf (\<lambda>v. v\<lparr>vf_ready := True\<rparr>) ?s5))"
    "\<not> msix_routing_done (vf (upd_vf (\<lambda>v. v\<lparr>vf_ready := True\<rparr>) ?s5))"
    using w5 by (simp_all add: vf_wf_def)
  ultimately show ?thesis by auto
qed

section \<open>The routing table\<close>

text \<open>The dword at offset \<open>k\<close> of entry \<open>i\<close> of the shadow table, and the routes the table asks for.\<close>

definition ent :: "vf \<Rightarrow> nat \<Rightarrow> nat \<Rightarrow> u32" where
  "ent v i k = le_val (take 4 (drop (i * 16 + k) (msix_shadow v)))"

definition programmed :: "vf \<Rightarrow> nat \<Rightarrow> bool" where
  "programmed v i \<longleftrightarrow> ent v i 0 \<noteq> 0 \<or> ent v i 4 \<noteq> 0"

definition table_routes :: "vf \<Rightarrow> route list" where
  "table_routes v = default_routes @
     map (\<lambda>i. MsiRoute (MSIX_GSI_BASE + of_nat i) (ent v i 0) (ent v i 4) (ent v i 8)) (filter (programmed v) [0..<vec_count v])"

lemma same_vf_ent: "same_vf v w \<Longrightarrow> ent w = ent v"
  by (simp add: same_vf_def ent_def fun_eq_iff)

lemma same_vf_table: "same_vf v w \<Longrightarrow> table_routes w = table_routes v"
  by (simp add: table_routes_def same_vf_ent programmed_def cong: filter_cong) (simp add: same_vf_def vec_count_def programmed_def ent_def)

lemma shadow32_ent:
  "length (msix_shadow v) = 512 \<Longrightarrow> i < 32 \<Longrightarrow> k \<le> 12 \<Longrightarrow> shadow32 v (i * 16 + k) = Inr (ent v i k)"
  by (simp add: shadow32_def ent_def)

lemmas shadow32_ent0 = shadow32_ent [where k = 0, simplified]

lemma msi_routes_eq:
  "length (msix_shadow v) = 512 \<Longrightarrow> set is \<subseteq> {..<32} \<Longrightarrow>
     msi_routes v is = Inr (map (\<lambda>i. MsiRoute (MSIX_GSI_BASE + of_nat i) (ent v i 0) (ent v i 4) (ent v i 8)) (filter (programmed v) is))"
  by (induction "is") (simp_all add: shadow32_ent shadow32_ent0 programmed_def)

lemma length_default_routes [simp]: "length default_routes = 40"
  by (simp add: default_routes_def)

lemma vec_count_le: "vec_count v \<le> 32"
  by (simp add: vec_count_def)

lemma msix_update_routes_eq:
  assumes "vf_wf (vf s)"
  shows "\<exists>n. msix_update_routes s = Inr (n, s\<lparr>gsi_routing := table_routes (vf s)\<rparr>)"
proof -
  let ?fs = "filter (programmed (vf s)) [0..<vec_count (vf s)]"
  have "length ?fs \<le> length [0..<vec_count (vf s)]" by (rule length_filter_le)
  then have n: "length ?fs \<le> vec_count (vf s)" by simp
  have "set [0..<vec_count (vf s)] \<subseteq> {..<32}" using vec_count_le [of "vf s"] by auto
  then have "msi_routes (vf s) [0..<vec_count (vf s)] =
      Inr (map (\<lambda>i. MsiRoute (MSIX_GSI_BASE + of_nat i) (ent (vf s) i 0) (ent (vf s) i 4) (ent (vf s) i 8)) ?fs)"
    using assms by (intro msi_routes_eq) (auto simp: vf_wf_def)
  then show ?thesis using n by (simp add: msix_update_routes_def Let_def table_routes_def)
qed

section \<open>Arming\<close>

text \<open>What setting up the eventfds of the vectors \<open>is\<close> changes.\<close>

definition efds_for :: "'d dev_ops \<Rightarrow> vf \<Rightarrow> nat list \<Rightarrow> int list \<Rightarrow> int list" where
  "efds_for D v is es = map (\<lambda>j. if j \<in> set is \<and> programmed v j then d_eventfd D j else es ! j) [0..<length es]"

lemma make_irqfds_eq:
  assumes "length (msix_shadow (vf s)) = 512" "set is \<subseteq> {..<32}" "length (msix_efd (vf s)) = 32"
  shows "make_irqfds D is s = Inr (s\<lparr>vf := (vf s)\<lparr>msix_efd := efds_for D (vf s) is (msix_efd (vf s))\<rparr>,
     irqfds := irqfds s @ (if msix_slowpath s then []
       else map (\<lambda>i. (d_eventfd D i, MSIX_GSI_BASE + of_nat i)) (filter (programmed (vf s)) is))\<rparr>)"
  using assms
proof (induction "is" arbitrary: s)
  case Nil
  have "efds_for D (vf s) [] (msix_efd (vf s)) = msix_efd (vf s)"
    by (simp add: efds_for_def map_nth)
  then show ?case by simp
next
  case (Cons i "is")
  have i: "i < 32" and "is": "set is \<subseteq> {..<32}" using Cons.prems(2) by auto
  show ?case
  proof (cases "programmed (vf s) i")
    case False
    then have "efds_for D (vf s) (i # is) es = efds_for D (vf s) is es" for es
      by (auto simp: efds_for_def)
    then show ?thesis
      using False Cons.IH [OF Cons.prems(1) "is" Cons.prems(3)] Cons.prems(1) i
      by (simp add: shadow32_ent shadow32_ent0 programmed_def)
  next
    case True
    let ?v1 = "(vf s)\<lparr>msix_efd := (msix_efd (vf s))[i := d_eventfd D i]\<rparr>"
    let ?s1 = "if msix_slowpath s then s\<lparr>vf := ?v1\<rparr>
       else s\<lparr>vf := ?v1, irqfds := irqfds s @ [(d_eventfd D i, MSIX_GSI_BASE + of_nat i)]\<rparr>"
    have pr: "programmed ?v1 = programmed (vf s)" by (simp add: fun_eq_iff programmed_def ent_def)
    have ef: "efds_for D ?v1 is (msix_efd ?v1) = efds_for D (vf s) (i # is) (msix_efd (vf s))"
      using True i Cons.prems(3) by (auto simp: efds_for_def pr nth_list_update)
    have step: "make_irqfds D (i # is) s = make_irqfds D is ?s1"
      using True Cons.prems(1) i by (auto simp: shadow32_ent shadow32_ent0 programmed_def upd_vf_def Let_def)
    have v1: "vf ?s1 = ?v1" by simp
    have prem: "length (msix_shadow (vf ?s1)) = 512" "length (msix_efd (vf ?s1)) = 32"
      using Cons.prems(1,3) by simp_all
    show ?thesis
      unfolding step using Cons.IH [OF prem(1) "is" prem(2)] True
      by (cases "msix_slowpath s") (simp_all add: pr ef [simplified])
  qed
qed

lemma forward_ctrl_keeps:
  assumes "length (msix_shadow (vf s)) = 512" "i < 32"
  shows "\<exists>t. forward_ctrl D r i s = Inr t \<and> same_vf (vf s) (vf t) \<and> msix_efd (vf t) = msix_efd (vf s) \<and>
     gsi_routing t = gsi_routing s \<and> irqfds t = irqfds s \<and> armed t = armed s \<and>
     msix_routing_done (vf t) = msix_routing_done (vf s) \<and> msix_slowpath t = msix_slowpath s"
proof -
  let ?off = "r_offset r + ucast (msix_table_off (vf s)) + of_nat (i * 16) + 12"
  obtain n t where p: "pwrite_dev D ?off (le_bytes 4 (ent (vf s) i 12)) s = (n, t)" by fastforce
  have "vf t = vf s" "gsi_routing t = gsi_routing s" "irqfds t = irqfds s" "armed t = armed s" "msix_slowpath t = msix_slowpath s"
    using pwrite_dev_keeps [of D ?off "le_bytes 4 (ent (vf s) i 12)" s] p by simp_all
  then show ?thesis
    using p assms by (simp add: forward_ctrl_def shadow32_ent upd_vf_def same_vf_def)
qed

lemma sync_masks_keeps:
  assumes "length (msix_shadow (vf s)) = 512" "set is \<subseteq> {..<32}"
  shows "\<exists>t. sync_masks D r is s = Inr t \<and> same_vf (vf s) (vf t) \<and> msix_efd (vf t) = msix_efd (vf s) \<and>
     gsi_routing t = gsi_routing s \<and> irqfds t = irqfds s \<and> armed t = armed s \<and>
     msix_routing_done (vf t) = msix_routing_done (vf s) \<and> msix_slowpath t = msix_slowpath s"
  using assms
proof (induction "is" arbitrary: s)
  case Nil
  then show ?case by simp
next
  case (Cons i "is")
  have i: "i < 32" and "is": "set is \<subseteq> {..<32}" using Cons.prems(2) by auto
  show ?case
  proof (cases "ent (vf s) i 0 = 0 \<and> ent (vf s) i 4 = 0")
    case True
    then show ?thesis using Cons.IH [OF Cons.prems(1) "is"] Cons.prems(1) i by (simp add: shadow32_ent shadow32_ent0)
  next
    case False
    obtain t where t: "forward_ctrl D r i s = Inr t" "same_vf (vf s) (vf t)" "msix_efd (vf t) = msix_efd (vf s)"
        "gsi_routing t = gsi_routing s" "irqfds t = irqfds s" "armed t = armed s"
        "msix_routing_done (vf t) = msix_routing_done (vf s)" "msix_slowpath t = msix_slowpath s"
      using forward_ctrl_keeps [OF Cons.prems(1) i] by blast
    have "length (msix_shadow (vf t)) = 512" using t(2) Cons.prems(1) by (simp add: same_vf_def)
    from Cons.IH [OF this "is"] obtain u where u: "sync_masks D r is t = Inr u" "same_vf (vf t) (vf u)"
        "msix_efd (vf u) = msix_efd (vf t)" "gsi_routing u = gsi_routing t" "irqfds u = irqfds t" "armed u = armed t"
        "msix_routing_done (vf u) = msix_routing_done (vf t)" "msix_slowpath u = msix_slowpath t"
      by blast
    have "sync_masks D r (i # is) s = Inr u"
      using False Cons.prems(1) i t(1) u(1) by (auto simp: shadow32_ent shadow32_ent0)
    then show ?thesis using t u same_vf_trans [OF t(2) u(2)] by simp
  qed
qed

lemma msix_setup_irqs_keeps:
  assumes "vf_wf (vf s)"
  shows "\<exists>n t. msix_setup_irqs D s = Inr (n, t) \<and> same_vf (vf s) (vf t) \<and> gsi_routing t = table_routes (vf s) \<and>
     msix_efd (vf t) = efds_for D (vf s) [0..<vec_count (vf s)] (msix_efd (vf s)) \<and>
     irqfds t = irqfds s @ (if msix_slowpath s then []
       else map (\<lambda>i. (d_eventfd D i, MSIX_GSI_BASE + of_nat i)) (filter (programmed (vf s)) [0..<vec_count (vf s)])) \<and>
     (if d_set_irqs D (take (vec_count (vf s)) (msix_efd (vf t)))
      then armed t = Some (take (vec_count (vf s)) (msix_efd (vf t))) \<and> msix_routing_done (vf t)
      else armed t = armed s \<and> msix_routing_done (vf t) = msix_routing_done (vf s))"
proof -
  let ?nr = "vec_count (vf s)" and ?v = "vf s"
  have sub: "set [0..<?nr] \<subseteq> {..<32}" using vec_count_le [of "vf s"] by auto
  have len: "length (msix_shadow ?v) = 512" "length (msix_efd ?v) = 32" using assms by (simp_all add: vf_wf_def)
  obtain n where r: "msix_update_routes s = Inr (n, s\<lparr>gsi_routing := table_routes ?v\<rparr>)"
    using msix_update_routes_eq [OF assms] by blast
  let ?s1 = "s\<lparr>gsi_routing := table_routes ?v\<rparr>"
  let ?es = "efds_for D ?v [0..<?nr] (msix_efd ?v)"
  let ?q = "irqfds s @ (if msix_slowpath s then []
       else map (\<lambda>i. (d_eventfd D i, MSIX_GSI_BASE + of_nat i)) (filter (programmed ?v) [0..<?nr]))"
  let ?s2 = "?s1\<lparr>vf := ?v\<lparr>msix_efd := ?es\<rparr>, irqfds := ?q\<rparr>"
  have m: "make_irqfds D [0..<?nr] ?s1 = Inr ?s2"
    using make_irqfds_eq [of ?s1 "[0..<?nr]" D] len sub by simp
  have lenes: "length ?es = 32" using len(2) by (simp add: efds_for_def)
  have sv2: "same_vf ?v (vf ?s2)" using len(2) lenes by (simp add: same_vf_def)
  show ?thesis
  proof (cases "d_set_irqs D (take ?nr ?es)")
    case False
    have "msix_setup_irqs D s = Inr (-1, ?s2)" using False r m by (simp add: msix_setup_irqs_def Let_def)
    then show ?thesis using False sv2 by auto
  next
    case True
    let ?s3 = "upd_vf (\<lambda>v. v\<lparr>msix_routing_done := True\<rparr>) (?s2\<lparr>armed := Some (take ?nr ?es)\<rparr>)"
    have sv3: "same_vf ?v (vf ?s3)" using sv2 by (simp add: same_vf_def)
    have "\<exists>t. (case region (vf ?s3) (msix_table_bar (vf ?s3)) of None \<Rightarrow> Inr ?s3 | Some rg \<Rightarrow> sync_masks D rg [0..<?nr] ?s3) = Inr t \<and>
        same_vf (vf ?s3) (vf t) \<and> msix_efd (vf t) = msix_efd (vf ?s3) \<and> gsi_routing t = gsi_routing ?s3 \<and>
        irqfds t = irqfds ?s3 \<and> armed t = armed ?s3 \<and> msix_routing_done (vf t) = msix_routing_done (vf ?s3) \<and> msix_slowpath t = msix_slowpath ?s3"
    proof (cases "region (vf ?s3) (msix_table_bar (vf ?s3))")
      case None
      then show ?thesis by simp
    next
      case (Some rg)
      have "length (msix_shadow (vf ?s3)) = 512" using len(1) by simp
      from sync_masks_keeps [OF this sub, of D rg] show ?thesis unfolding Some option.case .
    qed
    then obtain t where t: "(case region (vf ?s3) (msix_table_bar (vf ?s3)) of None \<Rightarrow> Inr ?s3 | Some rg \<Rightarrow> sync_masks D rg [0..<?nr] ?s3) = Inr t"
        "same_vf (vf ?s3) (vf t)" "msix_efd (vf t) = ?es" "gsi_routing t = table_routes ?v" "irqfds t = ?q"
        "armed t = Some (take ?nr ?es)" "msix_routing_done (vf t)"
      by auto
    have "msix_setup_irqs D s = Inr (0, t)"
      using True r m t(1) by (simp add: msix_setup_irqs_def Let_def)
    then show ?thesis using t True same_vf_trans [OF sv3 t(2)] by (intro exI [of _ 0] exI [of _ t]) simp
  qed
qed

section \<open>Guest accesses\<close>

text \<open>
  The accesses a guest can make to the device: a port access KVM reports with one, two or four bytes, and an MMIO exit of
  up to eight bytes.  \<open>aligned_access\<close> asks for natural alignment, as the drivers do.
\<close>

datatype guest_access = Pio u16 bool u32 nat | Mmio u64 bool "u8 list"

fun aligned_access :: "guest_access \<Rightarrow> bool" where
  "aligned_access (Pio p w x n) = (n = 1 \<or> n = 2 \<or> n = 4)"
| "aligned_access (Mmio pa w data) = ((length data = 1 \<or> length data = 2 \<or> length data = 4 \<or> length data = 8) \<and> length data dvd unat pa)"

fun pt_access :: "'d dev_ops \<Rightarrow> guest_access \<Rightarrow> 'd pt \<Rightarrow> 'd pt res" where
  "pt_access D (Pio p w x n) s = rbind (pci_config_io D p w x n s) (\<lambda>(r, t). Inr t)"
| "pt_access D (Mmio pa w data) s = rbind (handle_pt_mmio D pa w data s) (\<lambda>(r, t). Inr t)"

fun pt_run :: "'d dev_ops \<Rightarrow> guest_access list \<Rightarrow> 'd pt \<Rightarrow> 'd pt res" where
  "pt_run D [] s = Inr s"
| "pt_run D (a # as) s = rbind (pt_access D a s) (pt_run D as)"

text \<open>Once the vectors are armed, KVM routes what the table says.\<close>

definition routed :: "'d pt \<Rightarrow> bool" where
  "routed s \<longleftrightarrow> (msix_routing_done (vf s) \<longrightarrow> gsi_routing s = table_routes (vf s))"

lemma table_routes_cong:
  "msix_shadow w = msix_shadow v \<Longrightarrow> msix_nr w = msix_nr v \<Longrightarrow> table_routes w = table_routes v"
  by (simp add: table_routes_def vec_count_def programmed_def [abs_def] ent_def cong: filter_cong)

lemma routed_cong:
  "msix_shadow (vf t) = msix_shadow (vf s) \<Longrightarrow> msix_nr (vf t) = msix_nr (vf s) \<Longrightarrow> gsi_routing t = gsi_routing s \<Longrightarrow>
     msix_routing_done (vf t) = msix_routing_done (vf s) \<Longrightarrow> routed s \<Longrightarrow> routed t"
  using table_routes_cong [of "vf t" "vf s"] by (simp add: routed_def)

lemma foldl_related:
  assumes "\<And>v i. R v (f v i)" "\<And>v. R v v" "\<And>u v w. R u v \<Longrightarrow> R v w \<Longrightarrow> R u w"
  shows "R v (foldl f v is)"
  by (induction "is" arbitrary: v) (auto intro: assms)

lemma if_msgctl: "\<exists>m. (if c then v\<lparr>msix_msgctl := x\<rparr> else v) = v\<lparr>msix_msgctl := m\<rparr>" for v :: vf
  by (cases c) (auto intro: exI [of _ "msix_msgctl v"])

lemma write_msgctl_shape: "\<exists>m. write_msgctl reg len val v = v\<lparr>msix_msgctl := m\<rparr>"
  unfolding write_msgctl_def
proof (rule foldl_related [where R = "\<lambda>(v::vf) (w::vf). \<exists>m. w = v\<lparr>msix_msgctl := m\<rparr>"])
  show "\<exists>m. v = v\<lparr>msix_msgctl := m\<rparr>" for v :: vf by (rule exI [of _ "msix_msgctl v"]) simp
  show "\<exists>m. w = u\<lparr>msix_msgctl := m\<rparr>" if "\<exists>m. v = u\<lparr>msix_msgctl := m\<rparr>" "\<exists>m. w = v\<lparr>msix_msgctl := m\<rparr>" for u v w :: vf
    using that by auto
  show "\<exists>m. (let b = drop_bit (i * 8) val AND 0xff; bitpos = sint ((reg + of_nat i - (msix_cap v + 2)) * 8)
        in if bitpos \<ge> 0 \<and> bitpos < 16 then
             (let mask = 0xc000 AND push_bit (nat bitpos) 0xff
              in v\<lparr>msix_msgctl := (msix_msgctl v AND NOT mask) OR (ucast (push_bit (nat bitpos) b) AND mask)\<rparr>)
           else v) = v\<lparr>msix_msgctl := m\<rparr>" for v :: vf and i
    unfolding Let_def by (rule if_msgctl)
qed

lemma hostbridge_write_shape:
  "\<exists>h. hostbridge_write reg len val v = v\<lparr>hostbridge_cfg := h\<rparr> \<and> length h = length (hostbridge_cfg v)"
  unfolding hostbridge_write_def
proof (rule foldl_related [where R = "\<lambda>(v::vf) (w::vf). \<exists>h. w = v\<lparr>hostbridge_cfg := h\<rparr> \<and> length h = length (hostbridge_cfg v)"])
  show "\<exists>h. v = v\<lparr>hostbridge_cfg := h\<rparr> \<and> length h = length (hostbridge_cfg v)" for v :: vf
    by (rule exI [of _ "hostbridge_cfg v"]) simp
  show "\<exists>h. w = u\<lparr>hostbridge_cfg := h\<rparr> \<and> length h = length (hostbridge_cfg u)"
    if "\<exists>h. v = u\<lparr>hostbridge_cfg := h\<rparr> \<and> length h = length (hostbridge_cfg u)"
      "\<exists>h. w = v\<lparr>hostbridge_cfg := h\<rparr> \<and> length h = length (hostbridge_cfg v)" for u v w :: vf
    using that by auto
  show "\<exists>h. (if unat reg + i < 256
        then v\<lparr>hostbridge_cfg := (hostbridge_cfg v)[unat reg + i := ucast (drop_bit (i * 8) val)]\<rparr> else v) =
      v\<lparr>hostbridge_cfg := h\<rparr> \<and> length h = length (hostbridge_cfg v)" for v :: vf and i
    using \<open>\<And>v. \<exists>h. v = v\<lparr>hostbridge_cfg := h\<rparr> \<and> length h = length (hostbridge_cfg v)\<close> [of v] by auto
qed

text \<open>What an access may do to the state: nothing that matters, or a step that keeps both invariants.\<close>

definition pt_ok :: "'d pt \<Rightarrow> bool" where
  "pt_ok s \<longleftrightarrow> pt_wf s \<and> routed s \<and> vf_ready (vf s)"

lemma pt_ok_same_vf: "pt_ok s \<Longrightarrow> vf t = vf s \<Longrightarrow> gsi_routing t = gsi_routing s \<Longrightarrow> pt_ok t"
  by (simp add: pt_ok_def pt_wf_def routed_def)

lemma pt_ok_upd:
  assumes "pt_ok s" "vf_wf (f (vf s))" "msix_shadow (f (vf s)) = msix_shadow (vf s)" "msix_nr (f (vf s)) = msix_nr (vf s)"
    "msix_routing_done (f (vf s)) = msix_routing_done (vf s)" "vf_ready (f (vf s)) = vf_ready (vf s)"
  shows "pt_ok (upd_vf f s)"
  using assms routed_cong [of "upd_vf f s" s] by (simp add: pt_ok_def pt_wf_def)

lemma config_region: "pt_ok s \<Longrightarrow> \<exists>c. region (vf s) CONFIG_REGION = Some c"
  by (auto simp: pt_ok_def pt_wf_def vf_wf_def)

lemma pt_config_read_ok:
  assumes "pt_ok s" shows "\<exists>x t. pt_config_read D reg len s = Inr (x, t) \<and> pt_ok t"
proof -
  obtain c where c: "region (vf s) CONFIG_REGION = Some c" using config_region [OF assms] by blast
  obtain r t where p: "pread_val D (r_offset c + ucast reg) len s = (r, t)" by fastforce
  have "vf t = vf s" "gsi_routing t = gsi_routing s"
    using pread_val_keeps [of D "r_offset c + ucast reg" len s] p by simp_all
  then have t: "pt_ok t" using pt_ok_same_vf [OF assms] by blast
  then have "\<exists>x t. config_forward_read D reg len s = Inr (x, t) \<and> pt_ok t"
    using c p by (simp add: config_forward_read_def with_region_def)
  then show ?thesis
    using assms by (auto simp: pt_config_read_def Let_def split: option.split)
qed

lemma bar_write_wf: "vf_wf v \<Longrightarrow> vf_wf (bar_write b hi val v)"
  by (simp add: vf_wf_def bar_write_def)

lemma pt_config_write_ok:
  assumes "pt_ok s" shows "\<exists>t. pt_config_write D reg len val s = Inr t \<and> pt_ok t"
proof -
  obtain c where c: "region (vf s) CONFIG_REGION = Some c" using config_region [OF assms] by blast
  have wf: "vf_wf (vf s)" using assms by (simp add: pt_ok_def pt_wf_def)
  let ?s1 = "upd_vf (write_msgctl reg len val) s"
  obtain m where m: "write_msgctl reg len val (vf s) = (vf s)\<lparr>msix_msgctl := m\<rparr>" using write_msgctl_shape by blast
  have s1: "pt_ok ?s1" by (rule pt_ok_upd [OF assms]) (use wf in \<open>simp_all add: m vf_wf_def\<close>)
  then have w1: "vf_wf (vf ?s1)" by (simp add: pt_ok_def pt_wf_def)
  obtain n t where t: "msix_setup_irqs D ?s1 = Inr (n, t)" "same_vf (vf ?s1) (vf t)" "gsi_routing t = table_routes (vf ?s1)"
    using msix_setup_irqs_keeps [OF w1] by blast
  have tok: "pt_ok t"
    using s1 same_pt_wf [OF t(2)] t(3) same_vf_table [OF t(2)] t(2) by (simp add: pt_ok_def routed_def) (simp add: same_vf_def)
  obtain q u where u: "pwrite_dev D (r_offset c + ucast reg) (le_bytes len val) s = (q, u)" by fastforce
  have uok: "pt_ok u"
    by (rule pt_ok_same_vf [OF assms]) (use pwrite_dev_keeps [of D "r_offset c + ucast reg" "le_bytes len val" s] u in simp_all)
  have bar: "pt_ok (upd_vf (bar_write b hi val) s)" for b hi
    by (rule pt_ok_upd [OF assms]) (use wf bar_write_wf in \<open>auto simp: bar_write_def\<close>)
  show ?thesis
    using s1 t(1) tok c u uok bar
    by (auto simp: pt_config_write_def Let_def with_region_def split: option.split)
qed

lemma pci_config_io_ok:
  assumes "pt_ok s" shows "\<exists>x t. pci_config_io D port w val sz s = Inr (x, t) \<and> pt_ok t"
proof -
  have hb: "pt_ok (upd_vf (hostbridge_write reg len v) s)" for reg len v
  proof -
    obtain h where h: "hostbridge_write reg len v (vf s) = (vf s)\<lparr>hostbridge_cfg := h\<rparr>" "length h = length (hostbridge_cfg (vf s))"
      using hostbridge_write_shape by blast
    show ?thesis by (rule pt_ok_upd [OF assms]) (use assms h in \<open>simp_all add: vf_wf_def pt_ok_def pt_wf_def\<close>)
  qed
  have ad: "pt_ok (s\<lparr>pci_cfg_addr := val\<rparr>)" by (rule pt_ok_same_vf [OF assms]) simp_all
  have rd: "\<exists>x t. rbind (pt_config_read D reg sz s) (\<lambda>(x, s1). Inr (Some x, s1)) = Inr (x, t) \<and> pt_ok t" for reg
    using pt_config_read_ok [OF assms, of D reg sz] by auto
  have wr: "\<exists>x t. rbind (pt_config_write D reg sz val s) (\<lambda>s1. Inr (Some val, s1)) = Inr (x, t) \<and> pt_ok t" for reg
    using pt_config_write_ok [OF assms, of D reg sz val] by auto
  have ready: "vf_ready (vf s)" using assms by (simp add: pt_ok_def)
  show ?thesis
    unfolding pci_config_io_def Let_def using assms hb ad rd wr ready by simp
qed

section \<open>BAR accesses\<close>

text \<open>An access that the test of the table lets through stays inside the table, and the 32-bit position is exact.\<close>

lemma table_pos:
  fixes off :: u64 and t :: u32
  assumes "off < 2 ^ 63" "off \<ge> ucast t" "off + of_nat len \<le> ucast t + of_nat nr * 16" "nr \<le> 32" "len \<le> 8"
  shows "unat (ucast (off - ucast t) :: u32) = unat off - unat t" "unat off - unat t + len \<le> nr * 16"
proof -
  note tlt = unat_lt32 [of t] and t = unat_ucast32 [of t]
  have off: "unat off < 2 ^ 63" using assms(1) by (simp add: word_less_nat_alt)
  have l: "unat (off + of_nat len) = unat off + len"
    using off assms(5) by (simp add: unat_word_ariths unat_of_nat)
  have r: "unat (ucast t + of_nat nr * 16 :: u64) = unat t + nr * 16"
    using tlt assms(4) t by (simp add: unat_word_ariths unat_of_nat)
  have le: "unat off + len \<le> unat t + nr * 16" using assms(3) l r by (simp add: word_le_nat_alt)
  have ge: "unat t \<le> unat off" using assms(2) t by (simp add: word_le_nat_alt)
  show "unat off - unat t + len \<le> nr * 16" using le ge by simp
  have "unat (off - ucast t) = unat off - unat t" using assms(2) t by (simp add: unat_sub_le)
  moreover have "unat off - unat t < 2 ^ 32" using le ge assms(4,5) by simp
  ultimately show "unat (ucast (off - ucast t) :: u32) = unat off - unat t"
    by (simp add: unsigned_ucast_eq take_bit_nat_eq_self)
qed

lemma wf_region: "vf_wf v \<Longrightarrow> b < 6 \<Longrightarrow> bar_size v ! b \<noteq> 0 \<Longrightarrow> \<exists>r. region v b = Some r"
  by (auto simp: vf_wf_def)

lemma bar_offset:
  assumes "bar_hit v pa b" "vf_wf v" "b < 6" "len = 1 \<or> len = 2 \<or> len = 4 \<or> len = 8" "len dvd unat pa"
  shows "pa - (bar_val v ! b AND NOT 0xf) < 2 ^ 63" "len dvd unat (pa - (bar_val v ! b AND NOT 0xf))"
proof -
  let ?base = "bar_val v ! b AND NOT 0xf"
  have hit: "?base \<le> pa" "pa < ?base + bar_size v ! b" "bar_size v ! b \<noteq> 0"
    using assms(1) by (simp_all add: bar_hit_def Let_def)
  have sz: "unat (bar_size v ! b) < 2 ^ 63"
    using assms(2,3) hit(3) by (auto simp: vf_wf_def word_less_nat_alt)
  have sub: "unat (pa - ?base) = unat pa - unat ?base" using hit(1) by (rule unat_sub_le)
  have "unat (?base + bar_size v ! b) \<le> unat ?base + unat (bar_size v ! b)" by (simp add: unat_word_ariths)
  then have "unat (pa - ?base) < 2 ^ 63" using hit(1,2) sz unfolding sub by (simp add: word_le_nat_alt word_less_nat_alt)
  then show "pa - ?base < 2 ^ 63" by (simp add: word_less_nat_alt)
  have "len dvd 16" using assms(4) by auto
  then have "len dvd unat ?base" using mask_dvd16 [of "bar_val v ! b"] by (rule dvd_trans)
  then show "len dvd unat (pa - ?base)" unfolding sub using assms(5) by (rule dvd_diff_nat [rotated])
qed

lemma bar_forward_ok:
  "pt_ok s \<Longrightarrow> pt_ok (snd (bar_forward D r off w data s)) \<and> vf (snd (bar_forward D r off w data s)) = vf s"
  using pt_ok_same_vf [of s "snd (pwrite_dev D (r_offset r + off) data s)"]
    pwrite_dev_keeps [of D "r_offset r + off" data s] pt_ok_same_vf [of s "s\<lparr>dev := d\<rparr>" for d]
  by (auto simp: bar_forward_def split: prod.splits)

lemma note_vectors_ok:
  assumes "length data dvd unat off" "length data = 1 \<or> length data = 2 \<or> length data = 4 \<or> length data = 8"
  shows "\<exists>a b. note_vectors off w data v = Inr (v\<lparr>msix_cfg_vec := a, msix_q_vec := b\<rparr>)"
proof (cases "off \<ge> 0x14 \<and> off < 0x18 \<and> w")
  case False
  then have "note_vectors off w data v = Inr v" by (auto simp: note_vectors_def)
  then show ?thesis by (intro exI [of _ "msix_cfg_vec v"] exI [of _ "msix_q_vec v"]) simp
next
  case True
  then have off: "0x14 \<le> unat off" "unat off < 0x18" by (simp_all add: word_le_nat_alt word_less_nat_alt)
  have sub: "unat (off - 0x14) = unat off - 0x14" using True by (simp add: unat_sub_le)
  have "unat off \<in> {0x14, 0x15, 0x16, 0x17}" using off by auto
  then have "unat off - 0x14 + length data \<le> 4" using assms by auto
  then show ?thesis using True by (simp add: note_vectors_def Let_def sub) blast
qed

lemma bar0_ok:
  assumes "pt_ok s" "bar_size (vf s) ! 0 \<noteq> 0" "length data dvd unat off"
    "length data = 1 \<or> length data = 2 \<or> length data = 4 \<or> length data = 8"
  shows "\<exists>bs t. handle_bar0_legacy D off w data s = Inr (bs, t) \<and> pt_ok t"
proof -
  have wf: "vf_wf (vf s)" using assms(1) by (simp add: pt_ok_def pt_wf_def)
  obtain r where r: "region (vf s) 0 = Some r" using wf_region [OF wf _ assms(2)] by auto
  let ?n = "note_notify off w data (vf s)"
  obtain a b where n: "note_vectors off w data ?n = Inr (?n\<lparr>msix_cfg_vec := a, msix_q_vec := b\<rparr>)"
    using note_vectors_ok [OF assms(3,4)] by blast
  let ?s1 = "s\<lparr>vf := ?n\<lparr>msix_cfg_vec := a, msix_q_vec := b\<rparr>\<rparr>"
  have "pt_ok (upd_vf (\<lambda>v. ?n\<lparr>msix_cfg_vec := a, msix_q_vec := b\<rparr>) s)"
    by (rule pt_ok_upd [OF assms(1)]) (use wf in \<open>simp_all add: vf_wf_def note_notify_def\<close>)
  then have s1: "pt_ok ?s1" by (simp add: upd_vf_def)
  obtain bs t where f: "bar_forward D r off w data ?s1 = (bs, t)" by fastforce
  have "pt_ok t" using bar_forward_ok [OF s1, of D r off w data] f by simp
  moreover have "handle_bar0_legacy D off w data s = Inr (bs, t)"
    using n r f by (simp add: handle_bar0_legacy_def with_region_def)
  ultimately show ?thesis by blast
qed

text \<open>A write that touches only the control dword of an entry leaves the routes alone.\<close>

lemma take_drop_overwrite:
  assumes "pos + length data \<le> length xs" "a + n \<le> pos \<or> pos + length data \<le> a" "a + n \<le> length xs"
  shows "take n (drop a (take pos xs @ data @ drop (pos + length data) xs)) = take n (drop a xs)"
proof -
  let ?ys = "take pos xs @ data @ drop (pos + length data) xs"
  have l: "length ?ys = length xs" using assms(1) by simp
  show ?thesis
  proof (rule nth_equalityI)
    show "length (take n (drop a ?ys)) = length (take n (drop a xs))" by (simp only: length_take length_drop l)
    fix i assume "i < length (take n (drop a ?ys))"
    then have i: "i < n" by (simp only: length_take min_less_iff_conj)
    have "?ys ! (a + i) = xs ! (a + i)" using assms i by (auto simp: nth_append)
    then show "take n (drop a ?ys) ! i = take n (drop a xs) ! i" using assms(3) i l by (simp add: nth_drop del: take_append drop_append)
  qed
qed

lemma ctrl_write_keeps_ent:
  assumes "length (msix_shadow v) = 512" "pos + length data \<le> 512" "pos mod 16 \<ge> 12" "pos mod 16 + length data \<le> 16" "k \<le> 8"
    "i < 32"
  shows "ent (v\<lparr>msix_shadow := take pos (msix_shadow v) @ data @ drop (pos + length data) (msix_shadow v)\<rparr>) i k = ent v i k"
proof -
  have p: "pos = pos div 16 * 16 + pos mod 16" by simp
  have "(i * 16 + k) + 4 \<le> pos \<or> pos + length data \<le> i * 16 + k"
  proof (cases "i \<le> pos div 16")
    case True
    then have "i * 16 \<le> pos div 16 * 16" by simp
    then show ?thesis using p assms(3,5) by linarith
  next
    case False
    then have "pos div 16 * 16 + 16 \<le> i * 16" by simp
    then show ?thesis using p assms(4) by linarith
  qed
  note disj = this
  have "pos + length data \<le> length (msix_shadow v)" "i * 16 + k + 4 \<le> length (msix_shadow v)" using assms(1,2,5,6) by simp_all
  note e = take_drop_overwrite [OF this(1) disj this(2)]
  show ?thesis by (simp add: ent_def e del: take_append drop_append)
qed

lemma msix_table_access_ok:
  assumes "pt_ok s" "pos + length data \<le> msix_nr (vf s) * 16" "length data dvd pos"
    "length data = 1 \<or> length data = 2 \<or> length data = 4 \<or> length data = 8"
  shows "\<exists>bs t. msix_table_access D b pos w data s = Inr (bs, t) \<and> pt_ok t"
proof (cases w)
  case False
  then show ?thesis using assms by (simp add: msix_table_access_def pt_ok_def pt_wf_def vf_wf_def)
next
  case True
  have wf: "vf_wf (vf s)" "msix_nr (vf s) \<le> 32" "routed s" "vf_ready (vf s)" using assms(1) by (simp_all add: pt_ok_def pt_wf_def)
  then have len: "length (msix_shadow (vf s)) = 512" by (simp add: vf_wf_def)
  have p: "pos + length data \<le> 512" using assms(2) wf(2) by linarith
  then have vec: "pos div 16 < 32" using assms(4) by auto
  let ?v1 = "(vf s)\<lparr>msix_shadow := take pos (msix_shadow (vf s)) @ data @ drop (pos + length data) (msix_shadow (vf s))\<rparr>"
  let ?s1 = "s\<lparr>vf := ?v1\<rparr>"
  have sw: "shadow_write pos data (vf s) = Inr ?v1" using p len by (simp add: shadow_write_def)
  have w1: "vf_wf ?v1" using wf(1) p by (simp add: vf_wf_def)
  have l1: "length (msix_shadow (vf ?s1)) = 512" using w1 by (simp add: vf_wf_def)
  have "\<exists>t. (if pos mod 16 \<ge> 12 \<or> pos mod 16 + length data > 12 then
                 (case region ?v1 b of None \<Rightarrow> Inr ?s1 | Some r \<Rightarrow> forward_ctrl D r (pos div 16) ?s1)
               else Inr ?s1) = Inr t \<and> same_vf ?v1 (vf t) \<and> gsi_routing t = gsi_routing s \<and>
               msix_routing_done (vf t) = msix_routing_done (vf s)"
    using forward_ctrl_keeps [OF l1 vec, of D] by (fastforce split: option.split)
  then obtain t where t: "(if pos mod 16 \<ge> 12 \<or> pos mod 16 + length data > 12 then
                 (case region ?v1 b of None \<Rightarrow> Inr ?s1 | Some r \<Rightarrow> forward_ctrl D r (pos div 16) ?s1)
               else Inr ?s1) = Inr t" "same_vf ?v1 (vf t)" "gsi_routing t = gsi_routing s"
      "msix_routing_done (vf t) = msix_routing_done (vf s)" by blast
  have wt: "vf_wf (vf t)" by (rule same_vf_wf [OF t(2) w1])
  have nt: "msix_nr (vf t) = msix_nr (vf s)" "vf_ready (vf t)" using t(2) wf(4) by (simp_all add: same_vf_def)
  have eq: "msix_table_access D b pos w data s =
      (if msix_routing_done (vf t) \<and> pos mod 16 < 12 then rbind (msix_update_routes t) (\<lambda>(n, s3). Inr (data, s3)) else Inr (data, t))"
    using True sw t(1) by (simp add: msix_table_access_def Let_def)
  show ?thesis
  proof (cases "msix_routing_done (vf t) \<and> pos mod 16 < 12")
    case True
    obtain n where u: "msix_update_routes t = Inr (n, t\<lparr>gsi_routing := table_routes (vf t)\<rparr>)"
      using msix_update_routes_eq [OF wt] by blast
    have "msix_table_access D b pos w data s = Inr (data, t\<lparr>gsi_routing := table_routes (vf t)\<rparr>)"
      unfolding eq using True u by simp
    then show ?thesis using wt nt wf(2) by (simp add: pt_ok_def pt_wf_def routed_def)
  next
    case False
    have "table_routes (vf t) = table_routes (vf s)" if "msix_routing_done (vf s)"
    proof -
      have fld: "pos mod 16 \<ge> 12" using that False t(4) by simp
      have fit: "pos mod 16 + length data \<le> 16"
      proof -
        have "length data dvd pos mod 16" using assms(3,4) by (auto intro: dvd_mod)
        moreover have "pos mod 16 \<in> {12, 13, 14, 15}"
          using fld mod_less_divisor [of 16 pos] by auto
        ultimately show ?thesis using assms(4) by auto
      qed
      have e: "ent ?v1 i k = ent (vf s) i k" if "i < 32" "k \<le> 8" for i k
        using ctrl_write_keeps_ent [OF len p fld fit] that by blast
      have "table_routes ?v1 = table_routes (vf s)"
      proof -
        have vc: "vec_count ?v1 = vec_count (vf s)" by (simp add: vec_count_def)
        have lt: "i < 32" if "i \<in> set [0..<vec_count (vf s)]" for i
          using that vec_count_le [of "vf s"] by auto
        have f: "filter (programmed ?v1) [0..<vec_count (vf s)] = filter (programmed (vf s)) [0..<vec_count (vf s)]"
          by (rule filter_cong) (use lt e in \<open>auto simp: programmed_def\<close>)
        show ?thesis unfolding table_routes_def vc f
          by (rule arg_cong [where f = "\<lambda>x. default_routes @ x"], rule map_cong) (use lt e in auto)
      qed
      then show ?thesis using same_vf_table [OF t(2)] by simp
    qed
    then have "pt_ok t" using wt nt wf(2,3) t(3,4) by (simp add: pt_ok_def pt_wf_def routed_def)
    then show ?thesis unfolding eq using False by auto
  qed
qed

lemma pt_mmio_ok:
  assumes "pt_ok s" "aligned_access (Mmio pa w data)"
  shows "\<exists>x t. handle_pt_mmio D pa w data s = Inr (x, t) \<and> pt_ok t"
proof (cases "filter (bar_hit (vf s) pa) [0..<NUM_BARS]")
  case Nil
  show ?thesis unfolding handle_pt_mmio_def Let_def Nil using assms(1) by simp
next
  case (Cons b bs)
  have "b \<in> set (filter (bar_hit (vf s) pa) [0..<NUM_BARS])" unfolding Cons by simp
  then have b: "b < 6" "bar_hit (vf s) pa b" by auto
  have wf: "vf_wf (vf s)" "msix_nr (vf s) \<le> 32" "vf_ready (vf s)" using assms(1) by (simp_all add: pt_ok_def pt_wf_def)
  have len: "length data = 1 \<or> length data = 2 \<or> length data = 4 \<or> length data = 8" "length data dvd unat pa"
    using assms(2) by simp_all
  let ?off = "pa - (bar_val (vf s) ! b AND NOT 0xf)"
  have off: "?off < 2 ^ 63" "length data dvd unat ?off" using bar_offset [OF b(2) wf(1) b(1) len] by simp_all
  have sz: "bar_size (vf s) ! b \<noteq> 0" using b(2) by (simp add: bar_hit_def Let_def)
  then obtain r where r: "region (vf s) b = Some r" using wf(1) b(1) by (auto simp: vf_wf_def)
  have fwd: "\<exists>x t. with_region b s (\<lambda>r. case bar_forward D r ?off w data s of (bs, s1) \<Rightarrow> Inr (Some bs, s1)) = Inr (x, t) \<and> pt_ok t"
    using bar_forward_ok [OF assms(1), of D r ?off w data] r by (auto simp: with_region_def split: prod.splits)
  have bar0: "\<exists>x t. rbind (handle_bar0_legacy D ?off w data s) (\<lambda>(bs, s1). Inr (Some bs, s1)) = Inr (x, t) \<and> pt_ok t" if "b = 0"
    using bar0_ok [OF assms(1) _ off(2) len(1), of D w] sz that by auto
  have tab: "\<exists>x t. rbind (msix_table_access D b (unat (ucast (?off - ucast (msix_table_off (vf s))) :: u32)) w data s)
       (\<lambda>(bs, s1). Inr (Some bs, s1)) = Inr (x, t) \<and> pt_ok t"
    if c: "?off \<ge> ucast (msix_table_off (vf s))"
      "?off + of_nat (length data) \<le> ucast (msix_table_off (vf s)) + of_nat (msix_nr (vf s)) * 16"
  proof -
    have l8: "length data \<le> 8" using len(1) by auto
    note pos = table_pos [OF off(1) c wf(2) l8]
    have "length data dvd 8" using len(1) by auto
    then have "length data dvd unat (msix_table_off (vf s))" using wf(1) unfolding vf_wf_def by (metis dvd_trans)
    then have "length data dvd unat ?off - unat (msix_table_off (vf s))" using off(2) by (rule dvd_diff_nat [rotated])
    then show ?thesis
      using msix_table_access_ok [OF assms(1) pos(2) _ len(1), of D b w] unfolding pos(1) by auto
  qed
  show ?thesis
    unfolding handle_pt_mmio_def Let_def Cons list.case
    using wf(3) fwd bar0 tab by auto
qed

lemma pt_run_ok:
  "pt_ok s \<Longrightarrow> \<forall>a \<in> set as. aligned_access a \<Longrightarrow> \<exists>t. pt_run D as s = Inr t \<and> pt_ok t"
proof (induction "as" arbitrary: s)
  case Nil
  then show ?case by simp
next
  case (Cons a "as")
  have "\<exists>t. pt_access D a s = Inr t \<and> pt_ok t"
  proof (cases a)
    case (Pio p w x n)
    then show ?thesis using pci_config_io_ok [OF Cons.prems(1), of D p w x n] by auto
  next
    case (Mmio pa w data)
    then show ?thesis using pt_mmio_ok [OF Cons.prems(1), of pa w data D] Cons.prems(2) by auto
  qed
  then show ?case using Cons by auto
qed

section \<open>Properties\<close>

text \<open>
  C24. Whatever the guest does with naturally aligned accesses, config or MMIO, to a device of at most 32 vectors, no access
  leaves an array or follows a region VFIO did not describe; and once the vectors are armed, the routing table given
  to KVM is the legacy routes followed by the route of each programmed entry of the guest's table as it is now.
\<close>
theorem pt_guest_safe:
  assumes "num > 7" "info 7 = Some c" "\<And>b r. info b = Some r \<Longrightarrow> r_size r < 2 ^ 63"
    and "vfio_setup D num info (pt_power_on d slow) = Inr s" "msix_nr (vf s) \<le> 32" "\<forall>a \<in> set as. aligned_access a"
  shows "\<exists>t. pt_run D as s = Inr t \<and> pt_wf t \<and> (msix_routing_done (vf t) \<longrightarrow> gsi_routing t = table_routes (vf t))"
proof -
  have "vf_wf (vf s) \<and> vf_ready (vf s) \<and> \<not> msix_routing_done (vf s)"
    using vfio_setup_wf [where num = num and info = info and D = D and d = d and slow = slow, OF assms(1,2)] assms(3,4) by auto
  then have "pt_ok s" using assms(5) by (simp add: pt_ok_def pt_wf_def routed_def)
  then obtain t where "pt_run D as s = Inr t" "pt_ok t" using pt_run_ok [OF _ assms(6)] by blast
  then show ?thesis by (auto simp: pt_ok_def routed_def)
qed

lemma cfg_addr_parts:
  fixes c :: u32
  assumes "c AND 0xfc = c"
  shows "(0x80000800 OR c) AND 0x80000000 \<noteq> 0" "drop_bit 16 (0x80000800 OR c) AND 0xff = 0"
    "drop_bit 8 (0x80000800 OR c) AND 0xff = 8" "(0x80000800 OR c) AND 0xfc = c" "c OR 2 = c + 2"
proof -
  have z: "c AND m = 0" if "0xfc AND m = 0" for m :: u32
    by (metis assms and.assoc that bit.conj_zero_right)
  have d: "drop_bit 8 c = 0"
  proof -
    have "drop_bit 8 c = drop_bit 8 (c AND 0xfc)" by (simp add: assms)
    also have "\<dots> = 0" by (simp only: drop_bit_and) simp
    finally show ?thesis .
  qed
  have d16: "drop_bit 16 c = 0"
  proof -
    have "drop_bit 16 c = drop_bit 8 (drop_bit 8 c)" by simp
    then show ?thesis by (simp only: d drop_bit_of_0)
  qed
  show "(0x80000800 OR c) AND 0x80000000 \<noteq> 0" using z [of "0x80000000"] by (simp add: bit.conj_disj_distrib2)
  show "drop_bit 16 (0x80000800 OR c) AND 0xff = 0" by (simp add: drop_bit_or d16)
  show "drop_bit 8 (0x80000800 OR c) AND 0xff = 8" by (simp add: drop_bit_or d)
  show "(0x80000800 OR c) AND 0xfc = c" using assms by (simp add: bit.conj_disj_distrib2)
  have "\<not> bit c n \<or> \<not> bit (2 :: u32) n" for n
  proof -
    have "c AND 2 = 0" using z [of 2] by simp
    then have "\<not> bit (c AND 2) n" by simp
    then show ?thesis by (simp add: bit_and_iff)
  qed
  then show "c OR 2 = c + 2" by (rule disjunctive_add [symmetric])
qed

lemma write_msgctl_word:
  "write_msgctl (msix_cap v + 2) 2 val v =
     v\<lparr>msix_msgctl := (msix_msgctl v AND 0x3fff) OR (ucast val AND 0xc000)\<rparr>"
proof -
  have m: "(- 49153 :: u16) = 0x3fff" by simp
  have b: "ucast (push_bit 8 (drop_bit 8 val) AND 0xff00) AND 0xc000 = (ucast val AND 0xc000 :: u16)" for val :: u32
  proof -
    have c: "(0xc000 :: u16) = push_bit 14 (mask 2)" "(0xff00 :: u32) = push_bit 8 (mask 8)" by (simp_all add: mask_numeral)
    show ?thesis unfolding c by (rule bit_word_eqI) (auto simp: bit_simps)
  qed
  show ?thesis by (simp add: write_msgctl_def upt_rec numeral_2_eq_2 Let_def b m)
qed

text \<open>
  C25. The write to Message Control that leaves Enable set and Function Mask clear arms the device: KVM gets the routes of
  the programmed entries, each programmed vector its own eventfd bound to its GSI (unless the slow path is chosen),
  VFIO gets exactly these eventfds and -1 for the other vectors; of the register only the two writable bits change.
\<close>
theorem msix_arming:
  assumes "pt_ok s" "\<not> msix_routing_done (vf s)" "msix_efd (vf s) = replicate 32 (-1)" "\<And>fds. d_set_irqs D fds"
    and "msix_cap (vf s) \<noteq> 0" "msix_cap (vf s) AND 0xfc = msix_cap (vf s)" "pci_cfg_addr s = 0x80000800 OR msix_cap (vf s)"
    and "val AND 0x8000 \<noteq> 0" "val AND 0x4000 = 0"
  shows "\<exists>t. pci_config_io D 0xcfe True val 2 s = Inr (Some val, t) \<and> msix_routing_done (vf t) \<and>
    gsi_routing t = table_routes (vf s) \<and>
    armed t = Some (map (\<lambda>i. if programmed (vf s) i then d_eventfd D i else -1) [0..<msix_nr (vf s)]) \<and>
    irqfds t = irqfds s @ (if msix_slowpath s then []
      else map (\<lambda>i. (d_eventfd D i, MSIX_GSI_BASE + of_nat i)) (filter (programmed (vf s)) [0..<msix_nr (vf s)])) \<and>
    msix_msgctl (vf t) = (msix_msgctl (vf s) AND 0x3fff) OR (ucast val AND 0xc000)"
proof -
  let ?v = "vf s" and ?cap = "msix_cap (vf s)"
  note c = cfg_addr_parts [OF assms(6)]
  have wf: "vf_wf ?v" "msix_nr ?v \<le> 32" "vf_ready ?v" using assms(1) by (simp_all add: pt_ok_def pt_wf_def)
  let ?m = "(msix_msgctl ?v AND 0x3fff) OR (ucast val AND 0xc000)"
  let ?s1 = "upd_vf (write_msgctl (?cap + 2) 2 val) s"
  have v1: "vf ?s1 = ?v\<lparr>msix_msgctl := ?m\<rparr>" by (simp add: write_msgctl_word)
  have w1: "vf_wf (vf ?s1)" unfolding v1 using wf(1) by (simp add: vf_wf_def)
  have vc: "vec_count (vf ?s1) = msix_nr ?v" unfolding v1 using wf(2) by (simp add: vec_count_def)
  have pr: "programmed (vf ?s1) = programmed ?v" unfolding v1 by (simp add: programmed_def [abs_def] ent_def)
  have tr: "table_routes (vf ?s1) = table_routes ?v" unfolding v1 by (rule table_routes_cong) simp_all
  have e1: "msix_efd (vf ?s1) = replicate 32 (-1)" unfolding v1 using assms(3) by simp
  have es: "take (msix_nr ?v) (efds_for D (vf ?s1) [0..<msix_nr ?v] (msix_efd (vf ?s1))) =
      map (\<lambda>i. if programmed ?v i then d_eventfd D i else -1) [0..<msix_nr ?v]"
    unfolding efds_for_def pr e1 using wf(2) by (auto simp: take_map)
  obtain n t where t: "msix_setup_irqs D ?s1 = Inr (n, t)" "same_vf (vf ?s1) (vf t)" "gsi_routing t = table_routes ?v"
      "irqfds t = irqfds s @ (if msix_slowpath s then []
        else map (\<lambda>i. (d_eventfd D i, MSIX_GSI_BASE + of_nat i)) (filter (programmed ?v) [0..<msix_nr ?v]))"
      "armed t = Some (map (\<lambda>i. if programmed ?v i then d_eventfd D i else -1) [0..<msix_nr ?v])" "msix_routing_done (vf t)"
    using msix_setup_irqs_keeps [OF w1, of D] assms(4) unfolding vc pr tr by (auto simp: es [unfolded vf_upd_vf])
  have mt: "msix_msgctl (vf t) = ?m" using t(2) unfolding v1 same_vf_def by simp
  have bits: "bit val 15" "\<not> bit val 14" using assms(8,9) and_pow_eq_0 [of val 15] and_pow_eq_0 [of val 14] by simp_all
  have m15: "bit ?m 15 = bit val 15" "bit ?m 14 = bit val 14"
    by (simp_all add: bit_or_iff bit_and_iff bit_simps)
  have en: "?m AND 0x8000 \<noteq> 0" using and_pow_eq_0 [of ?m 15] m15 bits by simp
  have fm: "?m AND 0x4000 = 0" using and_pow_eq_0 [of ?m 14] m15 bits by simp
  have reg: "(pci_cfg_addr s AND 0xfc) OR ucast (0xcfe - 0xcfc :: u16) = ?cap + 2" unfolding assms(7) c(4) using c(5) by simp
  have le: "?cap \<le> 0xfc" using word_and_le1 [of "0xfc" ?cap] assms(6) by (metis word_and_le1)
  then have cmp: "?cap + 2 < ?cap + 4" "?cap + 2 \<ge> ?cap + 2"
    by (simp_all add: word_less_nat_alt word_le_nat_alt unat_word_ariths)
  have wr: "pt_config_write D (?cap + 2) 2 val s = Inr t"
    unfolding pt_config_write_def Let_def using assms(2,5) cmp t(1) en fm by (simp add: write_msgctl_word)
  have "pci_config_io D 0xcfe True val 2 s = Inr (Some val, t)"
    unfolding pci_config_io_def Let_def reg using wf(3) c(1-3) wr by (simp add: assms(7))
  then show ?thesis using t mt by (intro exI [of _ t]) simp
qed

section \<open>Sizing and placing a BAR\<close>

text \<open>Which register of the configuration space the BAR \<open>b\<close> is, when no 64-bit BAR lies below it.\<close>

lemma upt6: "[0..<6] = [0, 1, 2, 3, 4, 5 :: nat]"
  by (simp add: upt_conv_Cons)

lemma unat_exp64: "k < 64 \<Longrightarrow> unat (2 ^ k :: u64) = 2 ^ k"
proof -
  assume k: "k < 64"
  then have "(2 :: nat) ^ k < 2 ^ 64" by (rule power_strict_increasing) simp
  moreover have "(2 ^ k :: u64) = of_nat (2 ^ k)" by simp
  ultimately show ?thesis by (simp only: unat_of_nat) simp
qed

lemma bar_exact_own:
  assumes "b < 6" "b = 0 \<or> \<not> bar_is64 v ! (b - 1)"
  shows "bar_exact v (0x10 + of_nat b * 4) [0..<6] = Some (b, False)"
proof -
  have "b = 0 \<or> b = 1 \<or> b = 2 \<or> b = 3 \<or> b = 4 \<or> b = 5" using assms(1) by auto
  then show ?thesis using assms(2) unfolding upt6 by (elim disjE) (simp_all add: Let_def)
qed

lemma bar_at_own:
  assumes "b < 6" "b = 0 \<or> \<not> bar_is64 v ! (b - 1)"
  shows "bar_at v (0x10 + of_nat b * 4) [0..<6] = Some (b, False)"
proof -
  have "b = 0 \<or> b = 1 \<or> b = 2 \<or> b = 3 \<or> b = 4 \<or> b = 5" using assms(1) by auto
  then show ?thesis using assms(2) unfolding upt6 by (elim disjE) (simp_all add: Let_def)
qed

lemma bar_cfg_addr:
  assumes "b < 6"
  shows "(0x80000810 + of_nat b * 4 :: u32) AND 0x80000000 \<noteq> 0" "drop_bit 16 (0x80000810 + of_nat b * 4 :: u32) AND 0xff = 0"
    "drop_bit 8 (0x80000810 + of_nat b * 4 :: u32) AND 0xff = 8" "(0x80000810 + of_nat b * 4 :: u32) AND 0xfc = 0x10 + of_nat b * 4"
    "(0x10 + of_nat b * 4 :: u32) \<ge> 0x10" "(0x10 + of_nat b * 4 :: u32) < 0x28"
proof -
  have "b = 0 \<or> b = 1 \<or> b = 2 \<or> b = 3 \<or> b = 4 \<or> b = 5" using assms by auto
  then show "(0x80000810 + of_nat b * 4 :: u32) AND 0x80000000 \<noteq> 0" "drop_bit 16 (0x80000810 + of_nat b * 4 :: u32) AND 0xff = 0"
    "drop_bit 8 (0x80000810 + of_nat b * 4 :: u32) AND 0xff = 8" "(0x80000810 + of_nat b * 4 :: u32) AND 0xfc = 0x10 + of_nat b * 4"
    "(0x10 + of_nat b * 4 :: u32) \<ge> 0x10" "(0x10 + of_nat b * 4 :: u32) < 0x28"
    by (elim disjE; simp)+
qed

text \<open>A dword written to the register of a BAR goes to its shadow only; a dword read comes from it.\<close>

lemma bar_out:
  assumes "vf_ready (vf s)" "b < 6" "b = 0 \<or> \<not> bar_is64 (vf s) ! (b - 1)" "bar_size (vf s) ! b \<noteq> 0"
    "pci_cfg_addr s = 0x80000810 + of_nat b * 4"
  shows "pci_config_io D 0xcfc True x 4 s = Inr (Some x, upd_vf (bar_write b False x) s)"
proof -
  note c = bar_cfg_addr [OF assms(2)]
  have reg: "(pci_cfg_addr s AND 0xfc) OR ucast (0xcfc - 0xcfc :: u16) = 0x10 + of_nat b * 4" unfolding assms(5) c(4) by simp
  have wr: "pt_config_write D (0x10 + of_nat b * 4) 4 x s = Inr (upd_vf (bar_write b False x) s)"
    unfolding pt_config_write_def Let_def bar_exact_own [OF assms(2,3)] using c(5,6) assms(4) by simp
  show ?thesis unfolding pci_config_io_def Let_def reg using assms(1) c(1-3) wr by (simp add: assms(5))
qed

lemma bar_in:
  assumes "vf_ready (vf s)" "b < 6" "b = 0 \<or> \<not> bar_is64 (vf s) ! (b - 1)" "bar_size (vf s) ! b \<noteq> 0"
    "pci_cfg_addr s = 0x80000810 + of_nat b * 4" "msix_cap (vf s) = 0 \<or> msix_cap (vf s) \<ge> 0x40" "msix_cap (vf s) \<le> 0xff"
  shows "pci_config_io D 0xcfc False x 4 s = Inr (Some (bar_read (vf s) b False), s)"
proof -
  note c = bar_cfg_addr [OF assms(2)]
  have reg: "(pci_cfg_addr s AND 0xfc) OR ucast (0xcfc - 0xcfc :: u16) = 0x10 + of_nat b * 4" unfolding assms(5) c(4) by simp
  have "\<not> (msix_cap (vf s) \<noteq> 0 \<and> (0x10 + of_nat b * 4 :: u32) \<ge> msix_cap (vf s) + 2)"
    using c(6) assms(6,7) by (auto simp: word_le_nat_alt word_less_nat_alt unat_word_ariths)
  then have rd: "pt_config_read D (0x10 + of_nat b * 4) 4 s = Inr (bar_read (vf s) b False, s)"
    unfolding pt_config_read_def Let_def bar_at_own [OF assms(2,3)] using c(5,6) assms(4) by auto
  show ?thesis unfolding pci_config_io_def Let_def reg using assms(1) c(1-3) rd by (simp add: assms(5))
qed

lemma high_half_zero: "v < 2 ^ 32 \<Longrightarrow> v AND 0xffffffff00000000 = 0" for v :: u64
proof -
  assume "v < 2 ^ 32"
  then have "take_bit 32 v = v" by (simp add: word_unat_eq_iff unsigned_take_bit_eq take_bit_nat_eq_self word_less_nat_alt)
  then have "\<not> bit v n" if "n \<ge> 32" for n using that by (metis bit_take_bit_iff not_le)
  moreover have m: "(0xffffffff00000000 :: u64) = push_bit 32 (mask 32)" by (simp add: mask_numeral)
  ultimately show ?thesis unfolding m by (intro bit_word_eqI) (auto simp: bit_simps)
qed

lemma size_mask:
  assumes "4 \<le> k" "k < 32"
  shows "(ucast (0xfffffff0 :: u64) :: u32) AND NOT (ucast (2 ^ k - 1 :: u64)) = NOT (2 ^ k - 1)"
proof -
  have n: "(0xfffffff0 :: u32) = NOT (mask 4)" by (simp add: mask_numeral)
  have pk: "(ucast (2 ^ k - 1 :: u64) :: u32) = mask k"
    by (rule bit_word_eqI) (use assms(2) in \<open>auto simp: bit_simps mask_eq_exp_minus_1 [symmetric]\<close>)
  have "(ucast (0xfffffff0 :: u64) :: u32) AND NOT (mask k) = NOT (mask k)"
    using assms(1) by (simp only: ucast_eq) (simp add: n bit_eq_iff bit_simps, auto)
  then show ?thesis unfolding pk by (simp add: mask_eq_exp_minus_1)
qed

text \<open>An address aligned to the size of the BAR: its type bits are clear and the BAR ends below 4 GB.\<close>

lemma aligned_address:
  fixes A :: u32
  assumes "2 ^ k dvd unat A" "4 \<le> k"
  shows "A AND 0xfffffff0 = A" "ucast A AND NOT 0xf = (ucast A :: u64)"
proof -
  have "2 ^ 4 dvd unat A" using assms by (metis dvd_trans le_imp_power_dvd)
  then have "take_bit 4 A = 0" by (simp add: word_unat_eq_iff unsigned_take_bit_eq take_bit_eq_0_iff)
  then have "\<not> bit A n" if "n < 4" for n using that by (metis bit_0_eq bit_take_bit_iff bot_apply bot_bool_def)
  moreover have m: "(0xfffffff0 :: u32) = NOT (mask 4)" "(0xf :: u64) = mask 4" by (simp_all add: mask_numeral)
  ultimately show a: "A AND 0xfffffff0 = A" unfolding m by (intro bit_word_eqI) (auto simp: bit_simps)
  have "ucast A AND NOT 0xf = (ucast (A AND 0xfffffff0) :: u64)"
    unfolding m by (rule bit_word_eqI) (auto simp: bit_simps dest: bit_imp_le_length)
  then show "ucast A AND NOT 0xf = (ucast A :: u64)" unfolding a .
qed

lemma aligned_fits:
  fixes A :: u32
  assumes "2 ^ k dvd unat A" "k < 32"
  shows "unat A + 2 ^ k \<le> 2 ^ 32"
proof -
  obtain q where q: "unat A = 2 ^ k * q" using assms(1) by (elim dvdE)
  have e: "(2::nat) ^ 32 = 2 ^ k * 2 ^ (32 - k)" using assms(2) by (simp add: power_add [symmetric])
  moreover have "unat A < 2 ^ 32" by (rule unat_lt32)
  ultimately have "2 ^ k * q < 2 ^ k * 2 ^ (32 - k)" using q by simp
  then have "q < 2 ^ (32 - k)" by (simp only: mult_less_cancel1)
  then have "Suc q \<le> 2 ^ (32 - k)" by simp
  then have "2 ^ k * Suc q \<le> 2 ^ k * 2 ^ (32 - k)" by (rule mult_le_mono2)
  then show ?thesis using q e by simp
qed

lemma bar_hit_exact:
  fixes A :: u32
  assumes "bar_val v ! b = ucast A" "bar_size v ! b = 2 ^ k" "2 ^ k dvd unat A" "4 \<le> k" "k < 32" "A \<noteq> 0"
  shows "bar_hit v pa b \<longleftrightarrow> unat A \<le> unat pa \<and> unat pa < unat A + 2 ^ k"
proof -
  note ua = unat_ucast32 [of A]
  have ue: "unat (ucast A + 2 ^ k :: u64) = unat A + 2 ^ k"
    using aligned_fits [OF assms(3,5)] assms(5) ua by (simp add: unat_word_ariths unat_exp64)
  have an: "(ucast A :: u64) \<noteq> 0" using ua assms(6) by (metis unsigned_0 unsigned_eq_0_iff)
  show ?thesis
    unfolding bar_hit_def Let_def assms(1,2) aligned_address(2) [OF assms(3,4)] using an ua ue assms(5)
    by (simp add: word_le_nat_alt word_less_nat_alt)
qed

text \<open>
  C26. The guest finds the size of a 32-bit BAR of \<open>2 ^ k\<close> bytes the usual way (write all ones, read back the complement of size - 1 with the
  type bits), and after it writes an aligned address the BAR answers exactly the \<open>2 ^ k\<close> bytes from there.
\<close>
theorem bar_sized_and_placed:
  assumes "pt_ok s" "b < 6" "b = 0 \<or> \<not> bar_is64 (vf s) ! (b - 1)" "bar_size (vf s) ! b = 2 ^ k" "4 \<le> k" "k < 32"
    "bar_val (vf s) ! b < 2 ^ 32" "msix_cap (vf s) = 0 \<or> msix_cap (vf s) \<ge> 0x40" "msix_cap (vf s) \<le> 0xff"
    and "2 ^ k dvd unat A" "A \<noteq> 0"
  shows "\<exists>s1 s2 s3. pci_config_io D 0xcf8 True (0x80000810 + of_nat b * 4) 4 s = Inr (Some (0x80000810 + of_nat b * 4), s1) \<and>
    pci_config_io D 0xcfc True 0xffffffff 4 s1 = Inr (Some 0xffffffff, s2) \<and>
    pci_config_io D 0xcfc False x 4 s2 = Inr (Some (NOT (2 ^ k - 1) OR bar_type (vf s) ! b), s2) \<and>
    pci_config_io D 0xcfc True A 4 s2 = Inr (Some A, s3) \<and>
    (\<forall>pa. bar_hit (vf s3) pa b \<longleftrightarrow> unat A \<le> unat pa \<and> unat pa < unat A + 2 ^ k)"
proof -
  let ?a = "0x80000810 + of_nat b * 4 :: u32"
  have wf: "vf_wf (vf s)" "vf_ready (vf s)" using assms(1) by (simp_all add: pt_ok_def pt_wf_def)
  then have len: "b < length (bar_val (vf s))" using assms(2) by (simp add: vf_wf_def)
  have sz: "bar_size (vf s) ! b \<noteq> 0" unfolding assms(4) using assms(6) by simp
  let ?s1 = "s\<lparr>pci_cfg_addr := ?a\<rparr>"
  let ?s2 = "upd_vf (bar_write b False 0xffffffff) ?s1"
  let ?s3 = "upd_vf (bar_write b False A) ?s2"
  have o1: "pci_config_io D 0xcf8 True ?a 4 s = Inr (Some ?a, ?s1)"
    using wf(2) by (simp add: pci_config_io_def)
  have o2: "pci_config_io D 0xcfc True 0xffffffff 4 ?s1 = Inr (Some 0xffffffff, ?s2)"
    by (rule bar_out) (use wf(2) assms(2,3) sz in simp_all)
  have same: "bar_size (vf ?s2) = bar_size (vf s)" "bar_is64 (vf ?s2) = bar_is64 (vf s)" "vf_ready (vf ?s2)"
      "msix_cap (vf ?s2) = msix_cap (vf s)" "pci_cfg_addr ?s2 = ?a" "bar_type (vf ?s2) = bar_type (vf s)"
    using wf(2) by (simp_all add: bar_write_def)
  have i3: "pci_config_io D 0xcfc False x 4 ?s2 = Inr (Some (bar_read (vf ?s2) b False), ?s2)"
    by (rule bar_in) (use same assms(2,3,8,9) sz in simp_all)
  have o4: "pci_config_io D 0xcfc True A 4 ?s2 = Inr (Some A, ?s3)"
    by (rule bar_out) (use same assms(2,3) sz in simp_all)
  note hi = high_half_zero [OF assms(7)]
  have v2: "bar_val (vf ?s2) ! b = 0xfffffff0" using len hi by (simp add: bar_write_def)
  have rd: "bar_read (vf ?s2) b False = NOT (2 ^ k - 1) OR bar_type (vf s) ! b"
    unfolding bar_read_def v2 same assms(4) size_mask [OF assms(5,6)] by simp
  have v3: "bar_val (vf ?s3) ! b = ucast A" using len hi v2 aligned_address(1) [OF assms(10,5)] by (simp add: bar_write_def)
  have s3: "bar_size (vf ?s3) ! b = 2 ^ k" using assms(4) by (simp add: bar_write_def)
  show ?thesis using o1 o2 i3 o4 bar_hit_exact [OF v3 s3 assms(10,5,6,11)] unfolding rd by blast
qed

section \<open>Accesses that leave their array\<close>

text \<open>
  The shadow of the MSI-X table has room for 32 vectors, but the test of an access uses the number the device
  reports: with more vectors, an access at entry 32 of the guest leaves the array, reads as well as writes.
\<close>
theorem msix_shadow_overflow:
  assumes "vf_wf (vf s)" "vf_ready (vf s)" "msix_cap (vf s) \<noteq> 0" "32 < msix_nr (vf s)" "msix_nr (vf s) \<le> 2048"
    and "filter (bar_hit (vf s) pa) [0..<6] = b # bs" "b = msix_table_bar (vf s)" "b \<noteq> 0"
    and "pa = (bar_val (vf s) ! b AND NOT 0xf) + ucast (msix_table_off (vf s)) + 512" "length data = 4"
  shows "handle_pt_mmio D pa w data s = Inl OutOfBounds"
proof -
  let ?t = "msix_table_off (vf s)"
  have off: "pa - (bar_val (vf s) ! b AND NOT 0xf) = ucast ?t + 512" unfolding assms(9) by simp
  note tlt = unat_lt32 [of ?t] and t = unat_ucast32 [of ?t]
  have c1: "(ucast ?t :: u64) \<le> ucast ?t + 512" using tlt t by (simp add: word_le_nat_alt unat_word_ariths)
  have c2: "ucast ?t + 512 + (4 :: u64) \<le> ucast ?t + of_nat (msix_nr (vf s)) * 16"
    using tlt t assms(4,5) by (simp add: word_le_nat_alt unat_word_ariths unat_of_nat)
  have pos: "unat (ucast (ucast ?t + 512 - ucast ?t :: u64) :: u32) = 512" by simp
  have len: "length (msix_shadow (vf s)) = 512" using assms(1) by (simp add: vf_wf_def)
  have acc: "msix_table_access D b 512 w data s = Inl OutOfBounds"
    using len assms(10) by (simp add: msix_table_access_def shadow_write_def)
  show ?thesis
    unfolding handle_pt_mmio_def Let_def assms(6) list.case off pos using assms(2,3,7,8,10) c1 c2 acc by simp
qed

text \<open>A write of eight bytes at the vector registers is copied into an array of four.\<close>

lemma bar0_vectors_overflow:
  "off = 0x14 \<Longrightarrow> length data = 8 \<Longrightarrow> handle_bar0_legacy D off True data s = Inl OutOfBounds"
  by (simp add: handle_bar0_legacy_def note_vectors_def)

section \<open>Witnesses\<close>

text \<open>
  A device of \<open>nr\<close> vectors whose table is at the start of BAR 2: its configuration space is a function of the
  offset, its other registers read as zero.
\<close>

definition ex_cfg :: "nat \<Rightarrow> nat \<Rightarrow> u8" where
  "ex_cfg nr i = (if i = 0x34 then 0x40 else if i = 0x40 then 0x11 else if i = 0x42 then of_nat (nr - 1)
     else if i = 0x44 then 2 else 0)"

definition ex_dev :: "nat \<Rightarrow> unit dev_ops" where
  "ex_dev nr = \<lparr>d_pread = (\<lambda>d off n. (Some (map (\<lambda>i. ex_cfg nr (unat off + i)) [0..<n]), d)),
     d_pwrite = (\<lambda>d off bs. (Some (length bs), d)), d_eventfd = (\<lambda>i. 100 + int i), d_set_irqs = (\<lambda>_. True)\<rparr>"

definition ex_info :: "nat \<Rightarrow> vregion option" where
  "ex_info i = (if i = 0 then Some \<lparr>r_offset = 0x1000, r_size = 0x1000\<rparr>
     else if i = 2 then Some \<lparr>r_offset = 0x2000, r_size = 0x1000\<rparr>
     else if i = 7 then Some \<lparr>r_offset = 0, r_size = 0x100\<rparr> else None)"

definition ex_pt :: "nat \<Rightarrow> unit pt" where
  "ex_pt nr = (case vfio_setup (ex_dev nr) 9 ex_info (pt_power_on () False) of Inr s \<Rightarrow> s | Inl e \<Rightarrow> pt_power_on () False)"

text \<open>The guest places BAR 2 at 0xfe000000 and programs entry 0.\<close>

definition ex_accs :: "guest_access list" where
  "ex_accs = [Pio 0xcf8 True 0x80000818 4, Pio 0xcfc True 0xfe000000 4, Mmio 0xfe000000 True [0, 0, 0xe0, 0xfe],
     Mmio 0xfe000008 True [0x41, 0, 0, 0], Pio 0xcf8 True 0x80000840 4]"

definition ex_prog :: "unit pt" where
  "ex_prog = (case pt_run (ex_dev 4) ex_accs (ex_pt 4) of Inr s \<Rightarrow> s | Inl e \<Rightarrow> ex_pt 4)"

lemma ex_setup: "vfio_setup (ex_dev nr) 9 ex_info (pt_power_on () False) = Inr (ex_pt nr)"
  and ex_pt_wf: "vf_wf (vf (ex_pt nr))" "vf_ready (vf (ex_pt nr))" "\<not> msix_routing_done (vf (ex_pt nr))"
proof -
  have b: "r_size r < 2 ^ 63" if "ex_info b = Some r" for b r using that by (auto simp: ex_info_def split: if_splits)
  have c: "ex_info 7 = Some \<lparr>r_offset = 0, r_size = 0x100\<rparr>" by (simp add: ex_info_def)
  obtain s where s: "vfio_setup (ex_dev nr) 9 ex_info (pt_power_on () False) = Inr s" "vf_wf (vf s)" "vf_ready (vf s)"
      "\<not> msix_routing_done (vf s)"
    using vfio_setup_wf [where num = 9 and info = ex_info and D = "ex_dev nr" and d = "()" and slow = False, OF _ c] b by auto
  then have e: "ex_pt nr = s" by (simp add: ex_pt_def)
  show "vfio_setup (ex_dev nr) 9 ex_info (pt_power_on () False) = Inr (ex_pt nr)" using s(1) e by simp
  show "vf_wf (vf (ex_pt nr))" "vf_ready (vf (ex_pt nr))" "\<not> msix_routing_done (vf (ex_pt nr))" using s e by simp_all
qed

lemma ex_geometry: "msix_nr (vf (ex_pt 4)) = 4" "msix_cap (vf (ex_pt 4)) = 0x40" "\<not> bar_is64 (vf (ex_pt 4)) ! 1"
  "bar_size (vf (ex_pt 4)) ! 2 = 0x1000" "bar_val (vf (ex_pt 4)) ! 2 = 0" "bar_type (vf (ex_pt 4)) ! 2 = 0"
proof -
  have "Let (vf (ex_pt 4)) (\<lambda>v. msix_nr v = 4 \<and> msix_cap v = 0x40 \<and> \<not> bar_is64 v ! 1 \<and> bar_size v ! 2 = 0x1000 \<and>
      bar_val v ! 2 = 0 \<and> bar_type v ! 2 = 0)"
    by code_simp
  then show "msix_nr (vf (ex_pt 4)) = 4" "msix_cap (vf (ex_pt 4)) = 0x40" "\<not> bar_is64 (vf (ex_pt 4)) ! 1"
    "bar_size (vf (ex_pt 4)) ! 2 = 0x1000" "bar_val (vf (ex_pt 4)) ! 2 = 0" "bar_type (vf (ex_pt 4)) ! 2 = 0"
    unfolding Let_def by blast+
qed

lemma ex_aligned: "\<forall>a \<in> set ex_accs. aligned_access a"
proof -
  have "Suc (Suc (Suc (Suc 0))) dvd n \<longleftrightarrow> 4 dvd n" for n :: nat by (simp add: numeral_eq_Suc)
  then show ?thesis by (simp add: ex_accs_def)
qed

lemma ex_prog_run: "pt_run (ex_dev 4) ex_accs (ex_pt 4) = Inr ex_prog" "pt_ok ex_prog" "pt_ok (ex_pt 4)"
proof -
  show ok: "pt_ok (ex_pt 4)" using ex_pt_wf [of 4] ex_geometry by (simp add: pt_ok_def pt_wf_def routed_def)
  obtain t where "pt_run (ex_dev 4) ex_accs (ex_pt 4) = Inr t" "pt_ok t" using pt_run_ok [OF ok ex_aligned] by blast
  then show "pt_run (ex_dev 4) ex_accs (ex_pt 4) = Inr ex_prog" "pt_ok ex_prog" by (simp_all add: ex_prog_def)
qed

theorem pt_guest_safe_witness:
  "\<exists>t. pt_run (ex_dev 4) (ex_accs @ [Pio 0xcfe True 0x8003 2]) (ex_pt 4) = Inr t \<and> pt_wf t \<and>
     (msix_routing_done (vf t) \<longrightarrow> gsi_routing t = table_routes (vf t))"
proof (rule pt_guest_safe [where num = 9 and info = ex_info and slow = False and d = "()"])
  show "ex_info 7 = Some \<lparr>r_offset = 0, r_size = 0x100\<rparr>" by (simp add: ex_info_def)
  show "r_size r < 2 ^ 63" if "ex_info b = Some r" for b r using that by (auto simp: ex_info_def split: if_splits)
  show "vfio_setup (ex_dev 4) 9 ex_info (pt_power_on () False) = Inr (ex_pt 4)" by (rule ex_setup)
  show "\<forall>a \<in> set (ex_accs @ [Pio 0xcfe True 0x8003 2]). aligned_access a" using ex_aligned by auto
qed (simp_all add: ex_geometry)

lemma ex_prog_facts:
  "\<not> msix_routing_done (vf ex_prog)" "msix_efd (vf ex_prog) = replicate 32 (-1)" "msix_cap (vf ex_prog) = 0x40"
  "pci_cfg_addr ex_prog = 0x80000840" "msix_nr (vf ex_prog) = 4"
  "programmed (vf ex_prog) 0" "\<not> programmed (vf ex_prog) 1" "\<not> programmed (vf ex_prog) 2" "\<not> programmed (vf ex_prog) 3"
proof -
  have "Let ex_prog (\<lambda>s. Let (vf s) (\<lambda>v. \<not> msix_routing_done v \<and> msix_efd v = replicate 32 (-1) \<and> msix_cap v = 0x40 \<and>
      pci_cfg_addr s = 0x80000840 \<and> msix_nr v = 4 \<and> programmed v 0 \<and> \<not> programmed v 1 \<and> \<not> programmed v 2 \<and> \<not> programmed v 3))"
    by code_simp
  then show "\<not> msix_routing_done (vf ex_prog)" "msix_efd (vf ex_prog) = replicate 32 (-1)" "msix_cap (vf ex_prog) = 0x40"
    "pci_cfg_addr ex_prog = 0x80000840" "msix_nr (vf ex_prog) = 4"
    "programmed (vf ex_prog) 0" "\<not> programmed (vf ex_prog) 1" "\<not> programmed (vf ex_prog) 2" "\<not> programmed (vf ex_prog) 3"
    unfolding Let_def by blast+
qed

theorem msix_arming_witness:
  "\<exists>t. pci_config_io (ex_dev 4) 0xcfe True 0x8003 2 ex_prog = Inr (Some 0x8003, t) \<and>
     armed t = Some [100, -1, -1, -1] \<and> msix_routing_done (vf t)"
proof -
  have a: "pci_cfg_addr ex_prog = 0x80000800 OR msix_cap (vf ex_prog)" by (simp add: ex_prog_facts)
  have s: "d_set_irqs (ex_dev 4) fds" for fds by (simp add: ex_dev_def)
  have u: "[0..<4] = [0, 1, 2, 3 :: nat]" by (simp add: upt_conv_Cons)
  show ?thesis
    using msix_arming [where val = "0x8003", OF ex_prog_run(2) ex_prog_facts(1,2) s _ _ a] ex_prog_facts(6-9)
    by (auto simp: ex_prog_facts(3,5) u) (auto simp: ex_dev_def)
qed

theorem bar_sized_and_placed_witness:
  "\<exists>s1 s2 s3. pci_config_io (ex_dev 4) 0xcf8 True 0x80000818 4 (ex_pt 4) = Inr (Some 0x80000818, s1) \<and>
    pci_config_io (ex_dev 4) 0xcfc True 0xffffffff 4 s1 = Inr (Some 0xffffffff, s2) \<and>
    pci_config_io (ex_dev 4) 0xcfc False 0 4 s2 = Inr (Some 0xfffff000, s2) \<and>
    pci_config_io (ex_dev 4) 0xcfc True 0xfe000000 4 s2 = Inr (Some 0xfe000000, s3) \<and> bar_hit (vf s3) 0xfe000fff 2"
proof -
  have f: "bar_size (vf (ex_pt 4)) ! 2 = 2 ^ 12" by (simp add: ex_geometry)
  have d: "2 ^ 12 dvd unat (0xfe000000 :: u32)" by simp
  have m: "(NOT (2 ^ 12 - 1) OR 0 :: u32) = 0xfffff000" by simp
  obtain s1 s2 s3 where o: "pci_config_io (ex_dev 4) 0xcf8 True 0x80000818 4 (ex_pt 4) = Inr (Some 0x80000818, s1)"
    "pci_config_io (ex_dev 4) 0xcfc True 0xffffffff 4 s1 = Inr (Some 0xffffffff, s2)"
    "pci_config_io (ex_dev 4) 0xcfc False 0 4 s2 = Inr (Some (NOT (2 ^ 12 - 1) OR 0), s2)"
    "pci_config_io (ex_dev 4) 0xcfc True 0xfe000000 4 s2 = Inr (Some 0xfe000000, s3)"
    "bar_hit (vf s3) 0xfe000fff 2"
    using bar_sized_and_placed [where b = 2 and k = 12 and A = "0xfe000000" and x = 0 and D = "ex_dev 4", OF ex_prog_run(3) _ _ f _ _ _ _ _ d]
    by (auto simp: ex_geometry ex_geometry(3) [unfolded One_nat_def])
  show ?thesis using o unfolding m by blast
qed

definition ex_big :: "unit pt" where
  "ex_big = (ex_pt 64)\<lparr>vf := (vf (ex_pt 64))\<lparr>bar_val := [0, 0, 0xfe000000, 0, 0, 0]\<rparr>\<rparr>"

theorem msix_shadow_overflow_witness: "handle_pt_mmio (ex_dev 64) 0xfe000200 True [0, 0, 0, 0] ex_big = Inl OutOfBounds"
proof -
  have w: "vf_wf (vf ex_big)" "vf_ready (vf ex_big)"
    using ex_pt_wf [of 64] by (simp_all add: ex_big_def vf_wf_def)
  have "Let (vf ex_big) (\<lambda>v. filter (bar_hit v 0xfe000200) [0..<6] = 2 # [] \<and> msix_table_bar v = 2 \<and> msix_table_off v = 0 \<and>
      msix_cap v = 0x40 \<and> msix_nr v = 64 \<and> bar_val v ! 2 = 0xfe000000)"
    by code_simp
  then have f: "filter (bar_hit (vf ex_big) 0xfe000200) [0..<6] = 2 # []" "msix_table_bar (vf ex_big) = 2" "msix_table_off (vf ex_big) = 0"
      "msix_cap (vf ex_big) = 0x40" "msix_nr (vf ex_big) = 64" "bar_val (vf ex_big) ! 2 = 0xfe000000"
    unfolding Let_def by blast+
  show ?thesis
    by (rule msix_shadow_overflow [OF w _ _ _ f(1)]) (simp_all add: f)
qed

end
