(* ===== verification/MpTable.thy ===== *)
theory MpTable
  imports VmmPrelude
begin

text \<open>
  The Intel MP tables \<open>build_mptable\<close> of \<open>minivmm.c\<close> puts below 640 KB, so that the guest finds an I/O APIC: the
  structures as bytes, their construction in guest RAM with the two checksums, and a parser of the
  format against which they are checked.
\<close>

section \<open>Structures\<close>

definition chars :: "string \<Rightarrow> u8 list" where
  "chars s = map of_char s"

definition mpc_table :: "u8 list" where
  "mpc_table = chars ''PCMP'' @ le_bytes 2 (0 :: u16) @ [4, 0] @ chars ''MINIVMM '' @ chars ''KVM-STUDY   '' @
     le_bytes 4 (0 :: u32) @ le_bytes 2 (0 :: u16) @ le_bytes 2 (0 :: u16) @ le_bytes 4 (0xfee00000 :: u32) @ le_bytes 4 (0 :: u32)"

definition mpc_cpu :: "u8 list" where
  "mpc_cpu = [0, 0, 0x14, 3] @ replicate 16 0"

definition mpc_bus :: "u8 \<Rightarrow> string \<Rightarrow> u8 list" where
  "mpc_bus busid name = [1, busid] @ chars name"

definition mpc_ioapic :: "u8 list" where
  "mpc_ioapic = [2, 0, 0x11, 1] @ le_bytes 4 (0xfec00000 :: u32)"

definition mpc_intsrc :: "nat \<Rightarrow> u8 list" where
  "mpc_intsrc irq = [3, 0, 0, 0, 0, of_nat irq, 0, of_nat irq]"

definition mpc_lintsrc :: "u8 \<Rightarrow> u8 \<Rightarrow> u8 list" where
  "mpc_lintsrc irqtype lint = [4, irqtype, 0, 0, 0, 0, 0, lint]"

definition mpf_intel :: "u8 list" where
  "mpf_intel = chars ''_MP_'' @ le_bytes 4 (0x9fd00 :: u32) @ [1, 4, 0] @ replicate 5 0"

abbreviation (input) MP_FLOAT_GPA :: nat where "MP_FLOAT_GPA \<equiv> 0x9fc00"
abbreviation (input) MP_TABLE_GPA :: nat where "MP_TABLE_GPA \<equiv> 0x9fd00"

definition mp_checksum :: "u8 list \<Rightarrow> u8" where
  "mp_checksum bs = 0 - foldl (+) 0 bs"

section \<open>Construction\<close>

text \<open>The pointer \<open>p\<close> runs over the entries.\<close>

fun put_entries :: "cbuf \<Rightarrow> nat \<Rightarrow> u8 list list \<Rightarrow> (cbuf \<times> nat) res" where
  "put_entries m p [] = Inr (m, p)"
| "put_entries m p (e # es) = rbind (buf_write m p e) (\<lambda>m1. put_entries m1 (p + length e) es)"

definition mp_entries :: "u8 list list" where
  "mp_entries = [mpc_table, mpc_cpu, mpc_bus 0 ''ISA   '', mpc_bus 1 ''PCI   '', mpc_ioapic] @
     map mpc_intsrc (filter (\<lambda>irq. irq \<noteq> 2) [0..<16]) @ [mpc_lintsrc 3 0, mpc_lintsrc 1 1]"

text \<open>The checksum is stored as 0, computed over \<open>len\<close> bytes and stored.\<close>

definition put_checksum :: "cbuf \<Rightarrow> nat \<Rightarrow> nat \<Rightarrow> nat \<Rightarrow> cbuf res" where
  "put_checksum m base len off =
     rbind (buf_write m (base + off) [0]) (\<lambda>m1.
     rbind (buf_read m1 base len) (\<lambda>bs. buf_write m1 (base + off) [mp_checksum bs]))"

definition build_mptable :: "cbuf \<Rightarrow> cbuf res" where
  "build_mptable m =
     rbind (put_entries m MP_TABLE_GPA mp_entries) (\<lambda>(m1, p).
       let len = of_nat (p - MP_TABLE_GPA) :: u16 in
     rbind (st16 m1 (MP_TABLE_GPA + 4) len) (\<lambda>m2.
     rbind (put_checksum m2 MP_TABLE_GPA (unat len) 7) (\<lambda>m3.
     rbind (buf_write m3 MP_FLOAT_GPA mpf_intel) (\<lambda>m4.
       put_checksum m4 MP_FLOAT_GPA 16 10))))"

section \<open>The format\<close>

datatype mp_entry =
    MpCpu u8 u8 bool
  | MpBus u8 "u8 list"
  | MpIoapic u8 u32 bool
  | MpIsaInt u8 u8 u8 u8
  | MpLocalInt u8 u8 u8

text \<open>A reader as the guest has one: entries have the size their type says.\<close>

fun mp_parse :: "u8 list \<Rightarrow> mp_entry list option" where
  "mp_parse [] = Some []"
| "mp_parse (t # bs) =
     (if t = 0 then
        (if length bs < 19 then None
         else map_option ((#) (MpCpu (bs ! 0) (bs ! 1) (bit (bs ! 2) 0 \<and> bit (bs ! 2) 1))) (mp_parse (drop 19 bs)))
      else if length bs < 7 then None
      else if t = 1 then map_option ((#) (MpBus (bs ! 0) (take 6 (drop 1 bs)))) (mp_parse (drop 7 bs))
      else if t = 2 then map_option ((#) (MpIoapic (bs ! 0) (le_val (take 4 (drop 3 bs))) (bit (bs ! 2) 0))) (mp_parse (drop 7 bs))
      else if t = 3 then map_option ((#) (MpIsaInt (bs ! 3) (bs ! 4) (bs ! 5) (bs ! 6))) (mp_parse (drop 7 bs))
      else if t = 4 then map_option ((#) (MpLocalInt (bs ! 0) (bs ! 5) (bs ! 6))) (mp_parse (drop 7 bs))
      else None)"

definition mp_valid :: "u8 list \<Rightarrow> bool" where
  "mp_valid bs \<longleftrightarrow> foldl (+) 0 bs = 0"

text \<open>
  What the guest finds at the address a floating pointer structure names, when both checksums are right.
\<close>

definition mp_find :: "cbuf \<Rightarrow> nat \<Rightarrow> mp_entry list option" where
  "mp_find m fp =
     (case buf_read m fp 16 of Inl _ \<Rightarrow> None
      | Inr f \<Rightarrow>
          if take 4 f \<noteq> chars ''_MP_'' \<or> \<not> mp_valid f then None
          else (let t = unat (le_val (take 4 (drop 4 f)) :: u32) in
            case buf_read m t 44 of Inl _ \<Rightarrow> None
            | Inr h \<Rightarrow>
                if take 4 h \<noteq> chars ''PCMP'' then None
                else (case buf_read m t (unat (le_val (take 2 (drop 4 h)) :: u16)) of Inl _ \<Rightarrow> None
                  | Inr bs \<Rightarrow> if mp_valid bs then mp_parse (drop 44 bs) else None)))"

section \<open>Property\<close>

lemma put_entries_eq:
  "p \<le> bsize m \<Longrightarrow> put_entries m p es = rbind (buf_write m p (concat es)) (\<lambda>m1. Inr (m1, p + length (concat es)))"
proof (induction es arbitrary: m p)
  case Nil
  have "bytes_upd d p [] = d" for d by (auto simp: bytes_upd_def fun_eq_iff)
  then show ?case using Nil by (simp add: buf_write_def)
next
  case (Cons e es)
  show ?case
  proof (cases "p + length e \<le> bsize m")
    case True
    then obtain m1 where m1: "buf_write m p e = Inr m1" "bsize m1 = bsize m" using buf_write_ok by blast
    have "buf_write m p (e @ concat es) = buf_write m1 (p + length e) (concat es)"
      using buf_write_adjacent [of m p e "concat es"] m1(1) by simp
    then show ?thesis using True m1 Cons.IH [of "p + length e" m1] by (simp add: add.assoc)
  next
    case False
    then show ?thesis by (simp add: buf_write_def)
  qed
qed

text \<open>The bytes of the two structures once their length and checksum are stored.\<close>

definition mp_table_bytes :: "u8 list" where
  "mp_table_bytes =
     (let b0 = concat mp_entries; b1 = take 4 b0 @ le_bytes 2 (of_nat (length b0) :: u16) @ drop 6 b0
      in take 7 b1 @ [mp_checksum b1] @ drop 8 b1)"

definition mp_float_bytes :: "u8 list" where
  "mp_float_bytes = take 10 mpf_intel @ [mp_checksum mpf_intel] @ drop 11 mpf_intel"

lemma mp_bytes_facts:
  "length mp_table_bytes = 224" "mp_valid mp_table_bytes" "take 4 mp_table_bytes = chars ''PCMP''"
  "(le_val (take 2 (drop 4 mp_table_bytes)) :: u16) = 224"
  "length mp_float_bytes = 16" "mp_valid mp_float_bytes" "take 4 mp_float_bytes = chars ''_MP_''"
  "(le_val (take 4 (drop 4 mp_float_bytes)) :: u32) = 0x9fd00"
proof -
  have "Let mp_table_bytes (\<lambda>t. length t = 224 \<and> mp_valid t \<and> take 4 t = chars ''PCMP'' \<and> (le_val (take 2 (drop 4 t)) :: u16) = 224)"
    by code_simp
  then show "length mp_table_bytes = 224" "mp_valid mp_table_bytes" "take 4 mp_table_bytes = chars ''PCMP''"
    "(le_val (take 2 (drop 4 mp_table_bytes)) :: u16) = 224"
    unfolding Let_def by blast+
  show "length mp_float_bytes = 16" "mp_valid mp_float_bytes" "take 4 mp_float_bytes = chars ''_MP_''"
    "(le_val (take 4 (drop 4 mp_float_bytes)) :: u32) = 0x9fd00"
    by code_simp+
qed

lemma mp_parsed:
  "mp_parse (drop 44 mp_table_bytes) =
     Some ([MpCpu 0 0x14 True, MpBus 0 (chars ''ISA   ''), MpBus 1 (chars ''PCI   ''), MpIoapic 0 0xfec00000 True] @
       map (\<lambda>i. MpIsaInt 0 (of_nat i) 0 (of_nat i)) ([0, 1] @ [3..<16]) @ [MpLocalInt 3 0 0, MpLocalInt 1 0 1])"
  by code_simp

lemma put_checksum_over:
  assumes "base + length bs \<le> bsize m" "off < length bs" "bs ! off = 0"
  shows "put_checksum (m\<lparr>bdata := bytes_upd d base bs\<rparr>) base (length bs) off =
    Inr (m\<lparr>bdata := bytes_upd d base (take off bs @ [mp_checksum bs] @ drop (Suc off) bs)\<rparr>)"
proof -
  have z: "take off bs @ [0] @ drop (Suc off) bs = bs" using assms(2,3) id_take_nth_drop [of off bs] by simp
  have i: "bytes_upd (bytes_upd d base bs) (base + off) [x] = bytes_upd d base (take off bs @ [x] @ drop (Suc off) bs)" for x
    using bytes_upd_inside [of off "[x]" bs d base] assms(2) by simp
  have r: "buf_read (m\<lparr>bdata := bytes_upd d base bs\<rparr>) base (length bs) = Inr bs"
    using assms(1) by (auto simp: buf_simps intro: nth_equalityI)
  have w: "buf_write (m\<lparr>bdata := bytes_upd d base bs\<rparr>) (base + off) [x] =
      Inr (m\<lparr>bdata := bytes_upd d base (take off bs @ [x] @ drop (Suc off) bs)\<rparr>)" for x
    using assms(1,2) by (simp add: buf_write_def i)
  show ?thesis unfolding put_checksum_def w rbind_Inr z r by (rule refl)
qed

lemma mp_table_draft:
  "length (concat mp_entries) = 224"
  "(take 4 (concat mp_entries) @ le_bytes 2 (224 :: u16) @ drop 6 (concat mp_entries)) ! 7 = 0" "mpf_intel ! 10 = 0" "length mpf_intel = 16"
  by code_simp+

lemma build_mptable_eq:
  assumes "0xa0000 \<le> bsize m"
  shows "build_mptable m = Inr (m\<lparr>bdata := bytes_upd (bytes_upd (bdata m) MP_TABLE_GPA mp_table_bytes) MP_FLOAT_GPA mp_float_bytes\<rparr>)"
proof -
  let ?b0 = "concat mp_entries"
  let ?b1 = "take 4 ?b0 @ le_bytes 2 (224 :: u16) @ drop 6 ?b0"
  note draft = mp_table_draft
  have p: "put_entries m MP_TABLE_GPA mp_entries = Inr (m\<lparr>bdata := bytes_upd (bdata m) MP_TABLE_GPA ?b0\<rparr>, MP_TABLE_GPA + 224)"
    using assms draft(1) by (simp add: put_entries_eq buf_write_def)
  have s: "st16 (m\<lparr>bdata := bytes_upd (bdata m) MP_TABLE_GPA ?b0\<rparr>) (MP_TABLE_GPA + 4) 224 = Inr (m\<lparr>bdata := bytes_upd (bdata m) MP_TABLE_GPA ?b1\<rparr>)"
    using assms bytes_upd_inside [of 4 "le_bytes 2 (224 :: u16)" ?b0 "bdata m" MP_TABLE_GPA] draft(1) by (simp add: st16_def buf_write_def)
  have l1: "length ?b1 = 224" using draft(1) by simp
  have tb: "mp_table_bytes = take 7 ?b1 @ [mp_checksum ?b1] @ drop 8 ?b1"
    unfolding mp_table_bytes_def Let_def draft(1) by simp
  have c: "put_checksum (m\<lparr>bdata := bytes_upd (bdata m) MP_TABLE_GPA ?b1\<rparr>) MP_TABLE_GPA 224 7 =
      Inr (m\<lparr>bdata := bytes_upd (bdata m) MP_TABLE_GPA mp_table_bytes\<rparr>)"
  proof -
    have s8: "Suc 7 = (8 :: nat)" by simp
    have "MP_TABLE_GPA + length ?b1 \<le> bsize m" "7 < length ?b1" unfolding l1 using assms by simp_all
    from put_checksum_over [OF this draft(2)] show ?thesis unfolding l1 tb s8 .
  qed
  let ?d = "bytes_upd (bdata m) MP_TABLE_GPA mp_table_bytes"
  have f: "buf_write (m\<lparr>bdata := ?d\<rparr>) MP_FLOAT_GPA mpf_intel = Inr (m\<lparr>bdata := bytes_upd ?d MP_FLOAT_GPA mpf_intel\<rparr>)"
    using assms draft(4) by (simp add: buf_write_def)
  have c2: "put_checksum (m\<lparr>bdata := bytes_upd ?d MP_FLOAT_GPA mpf_intel\<rparr>) MP_FLOAT_GPA 16 10 =
      Inr (m\<lparr>bdata := bytes_upd ?d MP_FLOAT_GPA mp_float_bytes\<rparr>)"
    using put_checksum_over [of MP_FLOAT_GPA mpf_intel m 10 ?d] assms draft(3,4) unfolding mp_float_bytes_def by simp
  have len: "(of_nat (MP_TABLE_GPA + 224 - MP_TABLE_GPA) :: u16) = 224" "unat (224 :: u16) = 224" by simp_all
  show ?thesis
    unfolding build_mptable_def p rbind_Inr prod.case Let_def len s c f c2 by (rule refl)
qed

text \<open>
  C27. In guest RAM of at least 640 KB plus the gap, the tables are built without leaving it, and a guest that looks at the
  address where the search ends finds them: both checksums are right, the length is that of the entries, and the entries are one enabled boot
  processor, the ISA and PCI buses, the I/O APIC at 0xfec00000, every ISA interrupt but the cascade on the pin of
  its number, and the two local interrupts.  No other byte of guest RAM changes.
\<close>
theorem mptable_found:
  assumes "0xa0000 \<le> bsize m"
  shows "\<exists>m'. build_mptable m = Inr m' \<and> bsize m' = bsize m \<and>
    mp_find m' MP_FLOAT_GPA =
      Some ([MpCpu 0 0x14 True, MpBus 0 (chars ''ISA   ''), MpBus 1 (chars ''PCI   ''), MpIoapic 0 0xfec00000 True] @
        map (\<lambda>i. MpIsaInt 0 (of_nat i) 0 (of_nat i)) ([0, 1] @ [3..<16]) @ [MpLocalInt 3 0 0, MpLocalInt 1 0 1]) \<and>
    (\<forall>a. a \<notin> {MP_FLOAT_GPA..<MP_FLOAT_GPA + 16} \<and> a \<notin> {MP_TABLE_GPA..<MP_TABLE_GPA + 224} \<longrightarrow> bdata m' a = bdata m a)"
proof -
  let ?m' = "m\<lparr>bdata := bytes_upd (bytes_upd (bdata m) MP_TABLE_GPA mp_table_bytes) MP_FLOAT_GPA mp_float_bytes\<rparr>"
  note f = mp_bytes_facts
  have rf: "buf_read ?m' MP_FLOAT_GPA 16 = Inr mp_float_bytes"
    using assms f(5) by (auto simp: buf_simps intro: nth_equalityI)
  have rt: "buf_read ?m' MP_TABLE_GPA n = Inr (take n mp_table_bytes)" if "n \<le> 224" for n
    using assms f(1,5) that by (auto simp: buf_simps bytes_upd_def intro: nth_equalityI)
  have "(take 2 (drop 4 (take 44 mp_table_bytes))) = take 2 (drop 4 mp_table_bytes)" "take 4 (take 44 mp_table_bytes) = take 4 mp_table_bytes"
    by (simp_all add: drop_take)
  then have "mp_find ?m' MP_FLOAT_GPA = mp_parse (drop 44 mp_table_bytes)"
    using f rf rt [of 44] rt [of 224] by (simp add: mp_find_def Let_def)
  moreover have "bdata ?m' a = bdata m a"
    if "a \<notin> {MP_FLOAT_GPA..<MP_FLOAT_GPA + 16} \<and> a \<notin> {MP_TABLE_GPA..<MP_TABLE_GPA + 224}" for a
    using that f(1,5) by (auto simp: bytes_upd_def)
  ultimately show ?thesis
    using build_mptable_eq [OF assms] mp_parsed by (intro exI [of _ ?m']) simp
qed

theorem mptable_found_witness:
  "\<exists>m'. build_mptable \<lparr>bsize = 0x4000000, bdata = \<lambda>_. 0\<rparr> = Inr m' \<and>
    mp_find m' 0x9fc00 =
      Some ([MpCpu 0 0x14 True, MpBus 0 (chars ''ISA   ''), MpBus 1 (chars ''PCI   ''), MpIoapic 0 0xfec00000 True] @
        map (\<lambda>i. MpIsaInt 0 (of_nat i) 0 (of_nat i)) ([0, 1] @ [3..<16]) @ [MpLocalInt 3 0 0, MpLocalInt 1 0 1])"
  using mptable_found [of "\<lparr>bsize = 0x4000000, bdata = \<lambda>_. 0\<rparr>"] by auto

end
