(* ===== verification/Boot.thy ===== *)
theory Boot
  imports VmmPrelude
begin

text \<open>
  Booting in \<open>minivmm.c\<close>: reading the files, loading a bzImage by the 32-bit boot protocol, the GDT, the CPUID policy, the
  register state of the first entry and the calls that set up the VM.  Guest RAM is a buffer of \<open>mem_size\<close> bytes,
  the files are byte lists.
\<close>

section \<open>Results\<close>

text \<open>\<open>DIE\<close> prints a message and ends the program; the reason stands for the message.\<close>

datatype die =
    CannotOpen | ReadError | ShortRead | ImageTooSmall | SetupOutside | BadMagic | OldProtocol | KernelTooBig
  | CmdlineTooLong | InitrdOverlap | CallFailed | Usage | MemTooSmall | MapFailed | DiskError | TooManyQueues | ThreadFailed

datatype boot_error = Died die | Broke fault

type_synonym 'a boot = "boot_error + 'a"

definition lift :: "'a res \<Rightarrow> 'a boot" where
  "lift r = (case r of Inl e \<Rightarrow> Inl (Broke e) | Inr x \<Rightarrow> Inr x)"

lemma lift_simps [simp]: "lift (Inr x) = Inr x" "lift (Inl e) = Inl (Broke e)"
  by (simp_all add: lift_def)

section \<open>Files\<close>

text \<open>What successive \<open>read\<close> calls return: an error, or bytes (none at the end of the file).\<close>

fun read_loop :: "nat \<Rightarrow> u8 list option list \<Rightarrow> u8 list \<Rightarrow> u8 list boot" where
  "read_loop sz [] buf = (if length buf < sz then Inl (Died ShortRead) else Inr buf)"
| "read_loop sz (r # rs) buf =
     (if length buf < sz then
        (case r of None \<Rightarrow> Inl (Died ReadError)
         | Some bs \<Rightarrow> if bs = [] then Inl (Died ShortRead) else read_loop sz rs (buf @ take (sz - length buf) bs))
      else Inr buf)"

definition read_file :: "(nat \<times> u8 list option list) option \<Rightarrow> u8 list boot" where
  "read_file f = (case f of None \<Rightarrow> Inl (Died CannotOpen) | Some (st_size, rs) \<Rightarrow> read_loop st_size rs [])"

section \<open>Loading the kernel\<close>

text \<open>
  Places in guest RAM, and offsets of the boot protocol inside \<open>struct boot_params\<close>: the setup header starts at 0x1f1 both in the
  image and in the structure.
\<close>

abbreviation (input) BOOT_PARAMS_GPA :: nat where "BOOT_PARAMS_GPA \<equiv> 0x7000"
abbreviation (input) GDT_GPA :: nat where "GDT_GPA \<equiv> 0x8000"
abbreviation (input) TSS_GPA :: nat where "TSS_GPA \<equiv> 0x8100"
abbreviation (input) CMDLINE_GPA :: nat where "CMDLINE_GPA \<equiv> 0x9000"

abbreviation (input) bp_e820_entries :: nat where "bp_e820_entries \<equiv> 0x71e8"
abbreviation (input) bp_hdr :: nat where "bp_hdr \<equiv> 0x71f1"
abbreviation (input) bp_type_of_loader :: nat where "bp_type_of_loader \<equiv> 0x7210"
abbreviation (input) bp_loadflags :: nat where "bp_loadflags \<equiv> 0x7211"
abbreviation (input) bp_code32_start :: nat where "bp_code32_start \<equiv> 0x7214"
abbreviation (input) bp_ramdisk_image :: nat where "bp_ramdisk_image \<equiv> 0x7218"
abbreviation (input) bp_ramdisk_size :: nat where "bp_ramdisk_size \<equiv> 0x721c"
abbreviation (input) bp_heap_end_ptr :: nat where "bp_heap_end_ptr \<equiv> 0x7224"
abbreviation (input) bp_cmd_line_ptr :: nat where "bp_cmd_line_ptr \<equiv> 0x7228"
abbreviation (input) bp_cmdline_size :: nat where "bp_cmdline_size \<equiv> 0x7238"
abbreviation (input) bp_pref_address :: nat where "bp_pref_address \<equiv> 0x7258"
abbreviation (input) bp_init_size :: nat where "bp_init_size \<equiv> 0x7260"
abbreviation (input) bp_e820_table :: nat where "bp_e820_table \<equiv> 0x72d0"

record boot_image =
  kernel_gpa :: u64
  initrd_gpa :: u64
  initrd_size :: u64

definition kread :: "u8 list \<Rightarrow> nat \<Rightarrow> nat \<Rightarrow> u8 list boot" where
  "kread kbuf off n = (if off + n \<le> length kbuf then Inr (take n (drop off kbuf)) else Inl (Broke OutOfBounds))"

definition mem_size :: "cbuf \<Rightarrow> u64" where
  "mem_size m = of_nat (bsize m)"

text \<open>The setup header: length of the setup part, protocol version, guest RAM.\<close>

definition load_header :: "u8 list \<Rightarrow> cbuf \<Rightarrow> (nat \<times> u16 \<times> cbuf) boot" where
  "load_header kbuf m =
     (if length kbuf < 0x202 + 2 then Inl (Died ImageTooSmall)
      else
        rbind (kread kbuf 0x1f1 1) (\<lambda>ss.
        let setup_sects = (if ss ! 0 = 0 then 4 else unat (ss ! 0)); setup_len = (setup_sects + 1) * 512
        in if length kbuf \<le> setup_len then Inl (Died SetupOutside)
           else
             rbind (kread kbuf 0x201 1) (\<lambda>l.
             rbind (lift (buf_write m BOOT_PARAMS_GPA (replicate 4096 0))) (\<lambda>m1.
             rbind (kread kbuf 0x202 4) (\<lambda>magic.
             if le_val magic \<noteq> (0x53726448 :: u32) then Inl (Died BadMagic)
             else
               rbind (kread kbuf 0x206 2) (\<lambda>version.
               if le_val version < (0x0200 :: u16) then Inl (Died OldProtocol)
               else
                 rbind (kread kbuf 0x1f1 (0x202 + unat (l ! 0) - 0x1f1)) (\<lambda>h.
                 rbind (lift (buf_write m1 bp_hdr h)) (\<lambda>m2.
                 rbind (lift (buf_write m2 bp_type_of_loader [0xff])) (\<lambda>m3.
                 rbind (lift (buf_read m3 bp_loadflags 1)) (\<lambda>lf.
                 rbind (lift (buf_write m3 bp_loadflags [lf ! 0 OR 0x81])) (\<lambda>m4.
                 rbind (lift (st16 m4 bp_heap_end_ptr 0xffff)) (\<lambda>m5.
                   Inr (setup_len, le_val version, m5)))))))))))))"

text \<open>The protected-mode part goes to the preferred address if the protocol has one and it seems to fit, else to 1 MB.\<close>

definition load_kernel :: "u8 list \<Rightarrow> nat \<Rightarrow> u16 \<Rightarrow> cbuf \<Rightarrow> (u64 \<times> u32 \<times> cbuf) boot" where
  "load_kernel kbuf setup_len version m =
     rbind (lift (ld64 m bp_pref_address)) (\<lambda>pref.
     rbind (lift (ld32 m bp_init_size)) (\<lambda>init_size.
     let payload = drop setup_len kbuf;
         fallback = version < 0x020a \<or> pref = 0 \<or> pref + ucast init_size > mem_size m;
         load_addr = (if fallback then 0x100000 else pref)
     in if fallback \<and> load_addr + of_nat (length payload) > mem_size m then Inl (Died KernelTooBig)
        else
          rbind (lift (buf_write m (unat load_addr) payload)) (\<lambda>m1.
          rbind (lift (st32 m1 bp_code32_start (ucast load_addr))) (\<lambda>m2.
            Inr (load_addr, init_size, m2)))))"

definition load_cmdline :: "u8 list \<Rightarrow> u16 \<Rightarrow> cbuf \<Rightarrow> cbuf boot" where
  "load_cmdline cl version m =
     (if length cl + 1 > 4096 then Inl (Died CmdlineTooLong)
      else
        rbind (lift (buf_write m CMDLINE_GPA (cl @ [0]))) (\<lambda>m1.
        rbind (lift (st32 m1 bp_cmd_line_ptr (of_nat CMDLINE_GPA))) (\<lambda>m2.
          if version \<ge> 0x0206 then lift (st32 m2 bp_cmdline_size (of_nat (length cl))) else Inr m2)))"

definition load_initrd :: "u8 list \<Rightarrow> u64 \<Rightarrow> u32 \<Rightarrow> cbuf \<Rightarrow> (u64 \<times> cbuf) boot" where
  "load_initrd ibuf load_addr init_size m =
     (let gpa = (mem_size m - of_nat (length ibuf)) AND NOT 0xfff
      in if gpa \<le> load_addr + ucast init_size then Inl (Died InitrdOverlap)
         else
           rbind (lift (buf_write m (unat gpa) ibuf)) (\<lambda>m1.
           rbind (lift (st32 m1 bp_ramdisk_image (ucast gpa))) (\<lambda>m2.
           rbind (lift (st32 m2 bp_ramdisk_size (of_nat (length ibuf)))) (\<lambda>m3. Inr (gpa, m3)))))"

definition put_e820 :: "cbuf \<Rightarrow> nat \<Rightarrow> u64 \<Rightarrow> u64 \<Rightarrow> cbuf boot" where
  "put_e820 m i addr sz =
     rbind (lift (st64 m (bp_e820_table + i * 20) addr)) (\<lambda>m1.
     rbind (lift (st64 m1 (bp_e820_table + i * 20 + 8) sz)) (\<lambda>m2.
     lift (st32 m2 (bp_e820_table + i * 20 + 16) 1)))"

definition build_gdt :: "cbuf \<Rightarrow> cbuf boot" where
  "build_gdt m =
     rbind (lift (buf_write m GDT_GPA (replicate 40 0))) (\<lambda>m1.
     rbind (lift (st64 m1 (GDT_GPA + 16) 0x00cf9b000000ffff)) (\<lambda>m2.
     rbind (lift (st64 m2 (GDT_GPA + 24) 0x00cf93000000ffff)) (\<lambda>m3.
     rbind (lift (st64 m3 (GDT_GPA + 32) (0x00008b0000000067 OR push_bit 16 (of_nat TSS_GPA)))) (\<lambda>m4.
     lift (buf_write m4 TSS_GPA (replicate 104 0))))))"

text \<open>The initramfs is read after the kernel has been placed; what reading it gives comes as a value.\<close>

definition load_bzimage_with :: "u8 list \<Rightarrow> u8 list boot \<Rightarrow> u8 list \<Rightarrow> cbuf \<Rightarrow> (boot_image \<times> cbuf) boot" where
  "load_bzimage_with kbuf iread cmdline m =
     rbind (load_header kbuf m) (\<lambda>(setup_len, version, m1).
     rbind (load_kernel kbuf setup_len version m1) (\<lambda>(load_addr, init_size, m2).
     rbind (load_cmdline cmdline version m2) (\<lambda>m3.
     rbind iread (\<lambda>ibuf.
     rbind (load_initrd ibuf load_addr init_size m3) (\<lambda>(gpa, m4).
     rbind (put_e820 m4 0 0 0x9fc00) (\<lambda>m5.
     rbind (put_e820 m5 1 0x100000 (mem_size m5 - 0x100000)) (\<lambda>m6.
     rbind (lift (buf_write m6 bp_e820_entries [2])) (\<lambda>m7.
     rbind (build_gdt m7) (\<lambda>m8.
       Inr (\<lparr>kernel_gpa = load_addr, initrd_gpa = gpa, initrd_size = of_nat (length ibuf)\<rparr>, m8))))))))))"

definition load_bzimage :: "u8 list \<Rightarrow> u8 list \<Rightarrow> u8 list \<Rightarrow> cbuf \<Rightarrow> (boot_image \<times> cbuf) boot" where
  "load_bzimage kbuf ibuf cmdline m = load_bzimage_with kbuf (Inr ibuf) cmdline m"

definition load_bzimage_files ::
  "(nat \<times> u8 list option list) option \<Rightarrow> (nat \<times> u8 list option list) option \<Rightarrow> u8 list \<Rightarrow> cbuf \<Rightarrow> (boot_image \<times> cbuf) boot" where
  "load_bzimage_files kfile ifile cmdline m = rbind (read_file kfile) (\<lambda>k. load_bzimage_with k (read_file ifile) cmdline m)"

text \<open>The self-test code, for a run without a kernel.\<close>

definition selftest_blob :: "u8 list" where
  "selftest_blob = [0xb0, 0x41, 0x66, 0xba, 0xf8, 0x03, 0xee, 0xb0, 0x0a, 0xee, 0xb9, 0x00, 0x00, 0x10, 0x00,
     0x90, 0x49, 0x75, 0xfc, 0xeb, 0xeb]"

definition load_selftest_blob :: "cbuf \<Rightarrow> (u64 \<times> cbuf) boot" where
  "load_selftest_blob m = rbind (lift (buf_write m 0x100000 selftest_blob)) (\<lambda>m1. Inr (0x100000, m1))"

section \<open>CPUID\<close>

record cpuid_entry =
  c_function :: u32
  c_index :: u32
  c_flags :: u32
  c_eax :: u32
  c_ebx :: u32
  c_ecx :: u32
  c_edx :: u32

definition cpuid_zero :: cpuid_entry where
  "cpuid_zero = \<lparr>c_function = 0, c_index = 0, c_flags = 0, c_eax = 0, c_ebx = 0, c_ecx = 0, c_edx = 0\<rparr>"

definition fix_leaf :: "cpuid_entry \<Rightarrow> cpuid_entry" where
  "fix_leaf e =
     (if c_function e = 1 \<and> c_index e = 0
      then e\<lparr>c_ecx := (c_ecx e AND NOT (push_bit 21 1)) OR push_bit 31 1, c_ebx := (c_ebx e AND 0x0000ffff) OR push_bit 16 1\<rparr>
      else e)"

text \<open>The array has room for \<open>MAX_CPUID_ENTRIES\<close> = 256 entries.\<close>

definition cpuid_add :: "cpuid_entry \<Rightarrow> cpuid_entry list \<Rightarrow> cpuid_entry list res" where
  "cpuid_add e es = (if length es < 256 then Inr (es @ [e]) else Inl OutOfBounds)"

definition setup_cpuid :: "cpuid_entry list \<Rightarrow> cpuid_entry list res" where
  "setup_cpuid supported =
     (let es = map fix_leaf supported;
          has_sig = (\<exists>e \<in> set es. c_function e = 0x40000000);
          has_feat = (\<exists>e \<in> set es. c_function e = 0x40000001)
      in rbind (if has_sig then Inr es
           else cpuid_add (cpuid_zero\<lparr>c_function := 0x40000000, c_eax := 0x40000001, c_ebx := 0x4b4d564b, c_ecx := 0x564b4d56,
             c_edx := 0x4d\<rparr>) es) (\<lambda>es1.
         if has_feat then Inr es1
         else cpuid_add (cpuid_zero\<lparr>c_function := 0x40000001,
           c_eax := push_bit 0 1 OR push_bit 3 1 OR push_bit 6 1 OR push_bit 9 1\<rparr>) es1))"

section \<open>Registers at the first entry\<close>

record kvm_segment =
  sg_base :: u64
  sg_limit :: u32
  sg_selector :: u16
  sg_type :: u8
  sg_present :: bool
  sg_dpl :: u8
  sg_db :: bool
  sg_s :: bool
  sg_l :: bool
  sg_g :: bool
  sg_avl :: bool
  sg_unusable :: bool

record kvm_sregs =
  r_cs :: kvm_segment
  r_ds :: kvm_segment
  r_es :: kvm_segment
  r_fs :: kvm_segment
  r_gs :: kvm_segment
  r_ss :: kvm_segment
  r_tr :: kvm_segment
  r_ldt :: kvm_segment
  gdt_base :: u64
  gdt_limit :: u16
  idt_base :: u64
  idt_limit :: u16
  cr0 :: u64
  cr3 :: u64
  cr4 :: u64
  efer :: u64

record kvm_regs =
  rip :: u64
  rsi :: u64
  rflags :: u64

definition no_segment :: kvm_segment where
  "no_segment = \<lparr>sg_base = 0, sg_limit = 0, sg_selector = 0, sg_type = 0, sg_present = False, sg_dpl = 0, sg_db = False, sg_s = False,
     sg_l = False, sg_g = False, sg_avl = False, sg_unusable = False\<rparr>"

definition code_segment :: kvm_segment where
  "code_segment = no_segment\<lparr>sg_base := 0, sg_limit := 0xffffffff, sg_selector := 0x10, sg_type := 0xb, sg_s := True, sg_present := True,
     sg_dpl := 0, sg_db := True, sg_l := False, sg_g := True\<rparr>"

definition data_segment :: kvm_segment where
  "data_segment = no_segment\<lparr>sg_base := 0, sg_limit := 0xffffffff, sg_selector := 0x18, sg_type := 0x3, sg_s := True, sg_present := True,
     sg_dpl := 0, sg_db := True, sg_l := False, sg_g := True\<rparr>"

definition tss_segment :: kvm_segment where
  "tss_segment = no_segment\<lparr>sg_base := of_nat TSS_GPA, sg_limit := 103, sg_selector := 0x20, sg_type := 0xb, sg_present := True\<rparr>"

definition setup_sregs :: "kvm_sregs \<Rightarrow> kvm_sregs" where
  "setup_sregs s = s\<lparr>cr0 := (cr0 s OR (push_bit 0 1 OR push_bit 4 1 OR push_bit 5 1)) AND NOT (push_bit 31 1 OR push_bit 30 1 OR push_bit 29 1),
     cr3 := 0, efer := 0, r_cs := code_segment, r_ds := data_segment, r_es := data_segment, r_ss := data_segment, r_fs := data_segment,
     r_gs := data_segment, r_tr := tss_segment, r_ldt := no_segment\<lparr>sg_unusable := True\<rparr>,
     gdt_base := of_nat GDT_GPA, gdt_limit := 5 * 8 - 1, idt_base := 0, idt_limit := 0xffff\<rparr>"

definition entry_regs :: "boot_image \<Rightarrow> kvm_regs" where
  "entry_regs img = \<lparr>rip = kernel_gpa img, rsi = of_nat BOOT_PARAMS_GPA, rflags = 0x2\<rparr>"

section \<open>Calls\<close>

text \<open>The ioctls in their order; the first that fails ends the program.\<close>

datatype kvm_call =
    GetApiVersion | CheckUserMemory | CreateVm | SetIdentityMapAddr u64 | SetTssAddr u64 | CreateIrqchip | CreatePit
  | SetUserMemoryRegion nat u64 u64 | CreateVcpu | GetMmapSize | SetCpuid "cpuid_entry list" | SetSregs kvm_sregs
  | SetRegs kvm_regs | SetMpStateRunnable

fun issue :: "('c \<Rightarrow> bool) \<Rightarrow> 'c list \<Rightarrow> 'c list boot" where
  "issue ok [] = Inr []"
| "issue ok (c # cs) = (if ok c then rbind (issue ok cs) (\<lambda>rest. Inr (c # rest)) else Inl (Died CallFailed))"

definition vm_setup :: "(kvm_call \<Rightarrow> bool) \<Rightarrow> cbuf \<Rightarrow> kvm_call list boot" where
  "vm_setup ok m = issue ok [GetApiVersion, CheckUserMemory, CreateVm, SetIdentityMapAddr 0xfffbc000, SetTssAddr 0xfffbd000, CreateIrqchip,
     CreatePit, SetUserMemoryRegion 0 0 (mem_size m)]"

definition vcpu_setup :: "(kvm_call \<Rightarrow> bool) \<Rightarrow> cpuid_entry list \<Rightarrow> kvm_sregs \<Rightarrow> boot_image \<Rightarrow> kvm_call list boot" where
  "vcpu_setup ok supported sregs img =
     rbind (issue ok [CreateVcpu, GetMmapSize]) (\<lambda>c1.
     rbind (lift (setup_cpuid supported)) (\<lambda>es.
     rbind (issue ok [SetCpuid es, SetSregs (setup_sregs sregs), SetRegs (entry_regs img), SetMpStateRunnable]) (\<lambda>c2.
       Inr (c1 @ c2))))"

section \<open>Reading a file\<close>

text \<open>However the reads split the file, the buffer holds its bytes.\<close>

lemma read_loop_splits:
  assumes "\<forall>c \<in> set cs. c \<noteq> []" "length (buf @ concat cs) = sz"
  shows "read_loop sz (map Some cs) buf = Inr (buf @ concat cs)"
  using assms
proof (induction cs arbitrary: buf)
  case Nil
  then show ?case by simp
next
  case (Cons c cs)
  have "take (sz - length buf) c = c" "length buf < sz" using Cons.prems by auto
  then show ?case using Cons by simp
qed

section \<open>CPUID policy\<close>

lemma fix_leaf_bits:
  assumes "c_function e = 1 \<and> c_index e = 0"
  shows "bit (c_ecx (fix_leaf e)) 31" "\<not> bit (c_ecx (fix_leaf e)) 21"
    "n \<noteq> 31 \<and> n \<noteq> 21 \<longrightarrow> bit (c_ecx (fix_leaf e)) n = bit (c_ecx e) n"
    "drop_bit 24 (c_ebx (fix_leaf e)) = 0" "take_bit 8 (drop_bit 16 (c_ebx (fix_leaf e))) = 1"
    "take_bit 16 (c_ebx (fix_leaf e)) = take_bit 16 (c_ebx e)"
proof -
  have m: "(0x0000ffff :: u32) = mask 16" by (simp add: mask_numeral)
  have f: "fix_leaf e = e\<lparr>c_ecx := set_bit 31 (unset_bit 21 (c_ecx e)), c_ebx := set_bit 16 (c_ebx e AND mask 16)\<rparr>"
    by (simp only: fix_leaf_def assms if_True simp_thms set_bit_eq_or unset_bit_eq_and_not m)
  show "bit (c_ecx (fix_leaf e)) 31" "\<not> bit (c_ecx (fix_leaf e)) 21"
    "n \<noteq> 31 \<and> n \<noteq> 21 \<longrightarrow> bit (c_ecx (fix_leaf e)) n = bit (c_ecx e) n"
    unfolding f by (auto simp: bit_simps dest: bit_imp_le_length)
  show "drop_bit 24 (c_ebx (fix_leaf e)) = 0" unfolding f by (intro bit_word_eqI) (auto simp: bit_simps)
  show "take_bit 8 (drop_bit 16 (c_ebx (fix_leaf e))) = 1" unfolding f by (intro bit_word_eqI) (auto simp: bit_simps)
  show "take_bit 16 (c_ebx (fix_leaf e)) = take_bit 16 (c_ebx e)" unfolding f by (intro bit_word_eqI) (auto simp: bit_simps)
qed

text \<open>
  C30. From any list of supported leaves with room for two more, the guest gets every leaf but leaf 1 unchanged and in order; leaf 1 says
  that there is a hypervisor, no x2APIC, initial APIC ID 0 and one logical processor, with everything else (the TSC-deadline timer
  among it) as the host has it; and both leaves by which a guest recognises KVM are there.
\<close>
theorem cpuid_policy:
  assumes "length supported \<le> 254"
  shows "\<exists>added. setup_cpuid supported = Inr (map fix_leaf supported @ added) \<and>
    (\<forall>e \<in> set supported. c_function e = 1 \<and> c_index e = 0 \<longrightarrow>
       bit (c_ecx (fix_leaf e)) 31 \<and> \<not> bit (c_ecx (fix_leaf e)) 21 \<and>
       (\<forall>n. n \<noteq> 31 \<and> n \<noteq> 21 \<longrightarrow> bit (c_ecx (fix_leaf e)) n = bit (c_ecx e) n) \<and>
       drop_bit 24 (c_ebx (fix_leaf e)) = 0 \<and> take_bit 8 (drop_bit 16 (c_ebx (fix_leaf e))) = 1 \<and>
       take_bit 16 (c_ebx (fix_leaf e)) = take_bit 16 (c_ebx e)) \<and>
    (\<forall>e \<in> set supported. \<not> (c_function e = 1 \<and> c_index e = 0) \<longrightarrow> fix_leaf e = e) \<and>
    {0x40000000, 0x40000001} \<subseteq> c_function ` set (map fix_leaf supported @ added) \<and>
    c_function ` set added \<subseteq> {0x40000000, 0x40000001} - c_function ` set supported"
proof -
  have fn: "c_function (fix_leaf e) = c_function e" for e by (simp add: fix_leaf_def)
  have fns: "c_function ` fix_leaf ` A = c_function ` A" for A by (auto simp: fn image_iff)
  let ?es = "map fix_leaf supported"
  let ?sig = "cpuid_zero\<lparr>c_function := 0x40000000, c_eax := 0x40000001, c_ebx := 0x4b4d564b, c_ecx := 0x564b4d56, c_edx := 0x4d\<rparr>"
  let ?feat = "cpuid_zero\<lparr>c_function := 0x40000001, c_eax := push_bit 0 1 OR push_bit 3 1 OR push_bit 6 1 OR push_bit 9 1\<rparr>"
  let ?hs = "\<exists>e \<in> set ?es. c_function e = 0x40000000" and ?hf = "\<exists>e \<in> set ?es. c_function e = 0x40000001"
  let ?added = "(if ?hs then [] else [?sig]) @ (if ?hf then [] else [?feat])"
  have r: "setup_cpuid supported = Inr (?es @ ?added)"
    using assms by (auto simp: setup_cpuid_def Let_def cpuid_add_def)
  have other: "fix_leaf e = e" if "\<not> (c_function e = 1 \<and> c_index e = 0)" for e using that by (auto simp: fix_leaf_def)
  have both: "{0x40000000, 0x40000001} \<subseteq> c_function ` set (?es @ ?added)"
    by (auto simp: image_iff cpuid_zero_def)
  have new: "c_function ` set ?added \<subseteq> {0x40000000, 0x40000001} - c_function ` set supported"
    by (auto simp: image_iff cpuid_zero_def fn)
  show ?thesis
  proof (intro exI [of _ ?added] conjI)
    show "\<forall>e \<in> set supported. c_function e = 1 \<and> c_index e = 0 \<longrightarrow>
       bit (c_ecx (fix_leaf e)) 31 \<and> \<not> bit (c_ecx (fix_leaf e)) 21 \<and>
       (\<forall>n. n \<noteq> 31 \<and> n \<noteq> 21 \<longrightarrow> bit (c_ecx (fix_leaf e)) n = bit (c_ecx e) n) \<and>
       drop_bit 24 (c_ebx (fix_leaf e)) = 0 \<and> take_bit 8 (drop_bit 16 (c_ebx (fix_leaf e))) = 1 \<and>
       take_bit 16 (c_ebx (fix_leaf e)) = take_bit 16 (c_ebx e)"
      by (intro ballI impI conjI allI; rule fix_leaf_bits fix_leaf_bits(3) [rule_format]; assumption)
    show "\<forall>e \<in> set supported. \<not> (c_function e = 1 \<and> c_index e = 0) \<longrightarrow> fix_leaf e = e" using other by simp
  qed (rule r both new)+
qed

text \<open>With 256 leaves of the host and no KVM leaf among them, the added leaf is written past the array.\<close>

lemma cpuid_full_overflows:
  "length supported = 256 \<Longrightarrow> \<forall>e \<in> set supported. c_function e < 0x40000000 \<Longrightarrow> setup_cpuid supported = Inl OutOfBounds"
  by (auto simp: setup_cpuid_def Let_def cpuid_add_def fix_leaf_def)

section \<open>The first entry\<close>

text \<open>What a segment descriptor means to the processor, and the segment a selector names.\<close>

definition descriptor :: "u16 \<Rightarrow> u64 \<Rightarrow> kvm_segment" where
  "descriptor sel d =
     (let g = bit d 55; lim = ucast (take_bit 16 d OR push_bit 16 (take_bit 4 (drop_bit 48 d))) :: u32
      in no_segment\<lparr>sg_base := take_bit 24 (drop_bit 16 d) OR push_bit 24 (take_bit 8 (drop_bit 56 d)),
           sg_limit := (if g then push_bit 12 lim OR 0xfff else lim), sg_selector := sel,
           sg_type := ucast (take_bit 4 (drop_bit 40 d)), sg_s := bit d 44, sg_dpl := ucast (take_bit 2 (drop_bit 45 d)),
           sg_present := bit d 47, sg_avl := bit d 52, sg_l := bit d 53, sg_db := bit d 54, sg_g := g\<rparr>)"

definition from_gdt :: "cbuf \<Rightarrow> kvm_sregs \<Rightarrow> kvm_segment \<Rightarrow> bool" where
  "from_gdt m s sg \<longleftrightarrow> unat (sg_selector sg) + 7 \<le> unat (gdt_limit s) \<and>
     (case ld64 m (unat (gdt_base s) + unat (sg_selector sg)) of Inr d \<Rightarrow> descriptor (sg_selector sg) d = sg | Inl _ \<Rightarrow> False)"

lemma ld64_st64_same: "off + 8 \<le> bsize m \<Longrightarrow> ld64 (m\<lparr>bdata := bytes_upd d off (le_bytes 8 v)\<rparr>) off = Inr v"
  by (rule ld_st64 [of "m\<lparr>bdata := d\<rparr>"]) (simp add: st64_def buf_write_def)

lemma ld64_skip:
  "off' + 8 \<le> off \<or> off + length xs \<le> off' \<Longrightarrow> ld64 (m\<lparr>bdata := bytes_upd d off xs\<rparr>) off' = ld64 (m\<lparr>bdata := d\<rparr>) off'"
  unfolding ld64_def by (subst buf_read_cong [of _ "m\<lparr>bdata := d\<rparr>"]) auto

lemma build_gdt_descriptors:
  assumes "0x9000 \<le> bsize m"
  shows "\<exists>m'. build_gdt m = Inr m' \<and> bsize m' = bsize m \<and> ld64 m' 0x8010 = Inr 0x00cf9b000000ffff \<and>
    ld64 m' 0x8018 = Inr 0x00cf93000000ffff \<and> ld64 m' 0x8020 = Inr 0x00008b0081000067"
proof -
  have t: "(0x00008b0000000067 OR push_bit 16 (of_nat TSS_GPA) :: u64) = 0x00008b0081000067" by simp
  show ?thesis
    using assms unfolding build_gdt_def t
    by (simp add: st64_def buf_write_def ld64_skip ld64_st64_same)
qed

text \<open>
  C29. At the first entry the guest is in 32-bit protected mode with paging, caching-disable and interrupts off; it starts at the kernel with
  the boot parameters in ESI; and the hidden part of every segment register is what the descriptor of its
  selector in the GDT in guest RAM says, so a reload of any segment changes nothing.
\<close>
theorem entry_matches_gdt:
  assumes "0x9000 \<le> bsize m"
  shows "\<exists>m'. build_gdt m = Inr m' \<and>
    (let s = setup_sregs s0 in
       (\<forall>sg \<in> {r_cs s, r_ds s, r_es s, r_fs s, r_gs s, r_ss s, r_tr s}. from_gdt m' s sg) \<and>
       bit (cr0 s) 0 \<and> \<not> bit (cr0 s) 31 \<and> \<not> bit (cr0 s) 30 \<and> \<not> bit (cr0 s) 29 \<and> efer s = 0 \<and> sg_unusable (r_ldt s)) \<and>
    rip (entry_regs img) = kernel_gpa img \<and> rsi (entry_regs img) = 0x7000 \<and> \<not> bit (rflags (entry_regs img)) 9"
proof -
  obtain m' where m': "build_gdt m = Inr m'" "ld64 m' 0x8010 = Inr 0x00cf9b000000ffff" "ld64 m' 0x8018 = Inr 0x00cf93000000ffff"
      "ld64 m' 0x8020 = Inr 0x00008b0081000067"
    using build_gdt_descriptors [OF assms] by blast
  have d: "descriptor 0x10 0x00cf9b000000ffff = code_segment" "descriptor 0x18 0x00cf93000000ffff = data_segment"
    "descriptor 0x20 0x00008b0081000067 = tss_segment"
    by (simp_all add: descriptor_def code_segment_def data_segment_def tss_segment_def no_segment_def Let_def)
  have "from_gdt m' (setup_sregs s0) code_segment" "from_gdt m' (setup_sregs s0) data_segment" "from_gdt m' (setup_sregs s0) tss_segment"
    using m' d by (simp_all add: from_gdt_def setup_sregs_def code_segment_def data_segment_def tss_segment_def)
  moreover have "bit (cr0 (setup_sregs s0)) 0" "\<not> bit (cr0 (setup_sregs s0)) 31" "\<not> bit (cr0 (setup_sregs s0)) 30"
    "\<not> bit (cr0 (setup_sregs s0)) 29"
    by (simp_all add: setup_sregs_def bit_or_iff bit_and_iff bit_not_iff)
  moreover have "\<not> bit (2 :: u64) 9" by simp
  ultimately show ?thesis using m'(1) by (intro exI [of _ m']) (simp add: Let_def setup_sregs_def entry_regs_def)
qed

section \<open>Guest RAM as a stack of writes\<close>

text \<open>The last write first; each lies inside the buffer.\<close>

fun mput :: "cbuf \<Rightarrow> (nat \<times> u8 list) list \<Rightarrow> cbuf" where
  "mput m [] = m"
| "mput m ((off, xs) # ws) = (mput m ws)\<lparr>bdata := bytes_upd (bdata (mput m ws)) off xs\<rparr>"

lemma bsize_mput [simp]: "bsize (mput m ws) = bsize m"
  by (induction m ws rule: mput.induct) simp_all

lemma mem_size_mput [simp]: "mem_size (mput m ws) = mem_size m"
  by (simp add: mem_size_def)

lemma write_mput: "off + length xs \<le> bsize m \<Longrightarrow> buf_write (mput m ws) off xs = Inr (mput m ((off, xs) # ws))"
  by (simp add: buf_write_def)

lemma read_hit: "off + length xs \<le> bsize m \<Longrightarrow> buf_read (mput m ((off, xs) # ws)) off (length xs) = Inr xs"
  by (auto simp: buf_simps intro: nth_equalityI)

lemma read_in:
  "off \<le> a \<Longrightarrow> a + n \<le> off + length xs \<Longrightarrow> off + length xs \<le> bsize m \<Longrightarrow>
     buf_read (mput m ((off, xs) # ws)) a n = Inr (take n (drop (a - off) xs))"
  by (auto simp: buf_simps bytes_upd_def intro: nth_equalityI)

lemma read_skip: "a + n \<le> off \<or> off + length xs \<le> a \<Longrightarrow> buf_read (mput m ((off, xs) # ws)) a n = buf_read (mput m ws) a n"
  by (rule buf_read_cong) auto

lemma ld_hits:
  "off + 4 \<le> bsize m \<Longrightarrow> ld32 (mput m ((off, le_bytes 4 v) # ws)) off = Inr v"
  "off + 8 \<le> bsize m \<Longrightarrow> ld64 (mput m ((off, le_bytes 8 w) # ws)) off = Inr w"
  using read_hit [of off "le_bytes 4 v" m ws] read_hit [of off "le_bytes 8 w" m ws]
  by (simp_all add: ld32_def ld64_def le_val_le_bytes_full del: mput.simps)

lemma ld_skips:
  "a + 4 \<le> off \<or> off + length xs \<le> a \<Longrightarrow> ld32 (mput m ((off, xs) # ws)) a = ld32 (mput m ws) a"
  "a + 8 \<le> off \<or> off + length xs \<le> a \<Longrightarrow> ld64 (mput m ((off, xs) # ws)) a = ld64 (mput m ws) a"
  by (simp_all add: ld32_def ld64_def read_skip del: mput.simps)

section \<open>Loading an image\<close>

text \<open>What an image of protocol 2.10 or later says about itself.\<close>

definition bz_setup_len :: "u8 list \<Rightarrow> nat" where
  "bz_setup_len k = ((if k ! 0x1f1 = 0 then 4 else unat (k ! 0x1f1)) + 1) * 512"

definition bz_field32 :: "u8 list \<Rightarrow> nat \<Rightarrow> u32" where
  "bz_field32 k off = le_val (take 4 (drop off k))"

definition bz_field64 :: "u8 list \<Rightarrow> nat \<Rightarrow> u64" where
  "bz_field64 k off = le_val (take 8 (drop off k))"

definition bz_version :: "u8 list \<Rightarrow> u16" where
  "bz_version k = le_val (take 2 (drop 0x206 k))"

definition bz_valid :: "u8 list \<Rightarrow> bool" where
  "bz_valid k \<longleftrightarrow> bz_setup_len k < length k \<and> bz_field32 k 0x202 = 0x53726448 \<and> bz_version k \<ge> 0x020a \<and> unat (k ! 0x201) \<ge> 0x62"

definition bz_header :: "u8 list \<Rightarrow> u8 list" where
  "bz_header k = take (0x11 + unat (k ! 0x201)) (drop 0x1f1 k)"

definition header_writes :: "u8 list \<Rightarrow> (nat \<times> u8 list) list" where
  "header_writes k = [(bp_heap_end_ptr, le_bytes 2 (0xffff :: u16)), (bp_loadflags, [k ! 0x211 OR 0x81]), (bp_type_of_loader, [0xff]),
     (bp_hdr, bz_header k), (BOOT_PARAMS_GPA, replicate 4096 0)]"

lemma bz_setup_len_ge: "0x400 \<le> bz_setup_len k"
proof (cases "k ! 0x1f1 = 0")
  case False
  then have "1 \<le> unat (k ! 0x1f1)" by (simp add: Suc_le_eq unat_gt_0)
  then show ?thesis using False by (simp add: bz_setup_len_def)
qed (simp add: bz_setup_len_def)

lemma kread_one: "off < length k \<Longrightarrow> kread k off 1 = Inr [k ! off]"
  by (simp add: kread_def take_Suc_conv_app_nth Cons_nth_drop_Suc [symmetric])

lemma unat8: "unat (b :: u8) < 256"
  using unsigned_less [of b] by simp

lemma bz_header_length: "bz_valid k \<Longrightarrow> length (bz_header k) = 0x11 + unat (k ! 0x201) \<and> 0x1f1 + length (bz_header k) \<le> length k"
  using bz_setup_len_ge [of k] unat8 [of "k ! 0x201"] by (auto simp: bz_valid_def bz_header_def min_def)

lemma load_header_ok:
  assumes "bz_valid k" "0x9000 \<le> bsize m"
  shows "load_header k m = Inr (bz_setup_len k, bz_version k, mput m (header_writes k))"
proof -
  note v = assms(1) [unfolded bz_valid_def]
  have len: "0x400 < length k" using v bz_setup_len_ge [of k] by linarith
  note hl = bz_header_length [OF assms(1)]
  have u: "unat (k ! 0x201) < 256" by (rule unat8)
  have one: "kread k 0x1f1 1 = Inr [k ! 0x1f1]" "kread k 0x201 1 = Inr [k ! 0x201]" using len by (simp_all only: kread_one)
  have mg: "kread k 0x202 4 = Inr (take 4 (drop 0x202 k))" "kread k 0x206 2 = Inr (take 2 (drop 0x206 k))"
    using len by (simp_all add: kread_def)
  have hd: "kread k 0x1f1 (0x202 + unat (k ! 0x201) - 0x1f1) = Inr (bz_header k)"
    using len u by (simp add: kread_def bz_header_def)
  let ?w0 = "[(BOOT_PARAMS_GPA, replicate 4096 0 :: u8 list)]"
  let ?w1 = "(bp_hdr, bz_header k) # ?w0" and ?w2 = "(bp_type_of_loader, [0xff]) # (bp_hdr, bz_header k) # ?w0"
  have b0: "buf_write m BOOT_PARAMS_GPA (replicate 4096 0) = Inr (mput m ?w0)"
    using write_mput [of BOOT_PARAMS_GPA "replicate 4096 0" m "[]"] assms(2) by simp
  have b1: "buf_write (mput m ?w0) bp_hdr (bz_header k) = Inr (mput m ?w1)"
    by (rule write_mput) (use hl u assms(2) in simp)
  have b2: "buf_write (mput m ?w1) bp_type_of_loader [0xff] = Inr (mput m ?w2)"
    by (rule write_mput) (use assms(2) in simp)
  have "0x20 < length (bz_header k)" using hl v by linarith
  then have "take 1 (drop 0x20 (bz_header k)) = [bz_header k ! 0x20]" by (simp add: take_Suc_conv_app_nth Cons_nth_drop_Suc [symmetric])
  moreover have "bz_header k ! 0x20 = k ! 0x211" using len u v by (simp add: bz_header_def)
  ultimately have "buf_read (mput m ?w1) bp_loadflags 1 = Inr [k ! 0x211]"
    using read_in [of bp_hdr bp_loadflags 1 "bz_header k" m ?w0] hl v u assms(2) by (simp del: mput.simps)
  then have b3: "buf_read (mput m ?w2) bp_loadflags 1 = Inr [k ! 0x211]"
    by (subst read_skip) simp_all
  have b4: "buf_write (mput m ?w2) bp_loadflags [k ! 0x211 OR 0x81] = Inr (mput m ((bp_loadflags, [k ! 0x211 OR 0x81]) # ?w2))"
    by (rule write_mput) (use assms(2) in simp)
  have b5: "st16 (mput m ((bp_loadflags, [k ! 0x211 OR 0x81]) # ?w2)) bp_heap_end_ptr 0xffff = Inr (mput m (header_writes k))"
    unfolding st16_def header_writes_def by (rule write_mput) (use assms(2) in simp)
  have ver: "\<not> le_val (take 2 (drop 0x206 k)) < (0x0200 :: u16)"
    using v unfolding bz_version_def by (simp add: word_less_nat_alt word_le_nat_alt)
  have sl: "((if k ! 0x1f1 = 0 then 4 else unat (k ! 0x1f1)) + 1) * 512 = bz_setup_len k"
    by (simp add: bz_setup_len_def)
  have mag: "le_val (take 4 (drop 0x202 k)) = (0x53726448 :: u32)" using v by (simp add: bz_field32_def)
  have n1: "\<not> length k < 0x202 + 2" "\<not> length k \<le> bz_setup_len k" using len v by simp_all
  have s: "[x] ! 0 = x" for x :: u8 by simp
  show ?thesis
    unfolding load_header_def Let_def if_not_P [OF n1(1)] one rbind_Inr sl if_not_P [OF n1(2)] b0 lift_simps mg mag
      if_not_P [OF ver] s hd b1 b2 b3 b4 b5 bz_version_def
    by simp
qed

lemma header_fields:
  assumes "bz_valid k" "0x9000 \<le> bsize m"
  shows "ld64 (mput m (header_writes k)) bp_pref_address = Inr (bz_field64 k 0x258)"
    "ld32 (mput m (header_writes k)) bp_init_size = Inr (bz_field32 k 0x260)"
proof -
  note hl = bz_header_length [OF assms(1)] and u = unat8 [of "k ! 0x201"]
  have l: "0x73 \<le> length (bz_header k)" using hl assms(1) by (simp add: bz_valid_def)
  have t: "take 8 (drop 0x67 (bz_header k)) = take 8 (drop 0x258 k)" "take 4 (drop 0x6f (bz_header k)) = take 4 (drop 0x260 k)"
    using l hl by (simp_all add: bz_header_def drop_take min_def)
  have "buf_read (mput m (header_writes k)) bp_pref_address 8 = Inr (take 8 (drop 0x258 k))"
    unfolding header_writes_def using read_in [of bp_hdr bp_pref_address 8 "bz_header k" m "[(BOOT_PARAMS_GPA, replicate 4096 0)]"] l hl u assms(2) t
    by (simp add: read_skip del: mput.simps)
  then show "ld64 (mput m (header_writes k)) bp_pref_address = Inr (bz_field64 k 0x258)" by (simp add: ld64_def bz_field64_def)
  have "buf_read (mput m (header_writes k)) bp_init_size 4 = Inr (take 4 (drop 0x260 k))"
    unfolding header_writes_def using read_in [of bp_hdr bp_init_size 4 "bz_header k" m "[(BOOT_PARAMS_GPA, replicate 4096 0)]"] l hl u assms(2) t
    by (simp add: read_skip del: mput.simps)
  then show "ld32 (mput m (header_writes k)) bp_init_size = Inr (bz_field32 k 0x260)" by (simp add: ld32_def bz_field32_def)
qed

text \<open>The preferred address is taken when the image fits there by its own account.\<close>

lemma load_kernel_ok:
  assumes "ld64 (mput m ws) bp_pref_address = Inr la" "ld32 (mput m ws) bp_init_size = Inr isz" "0x020a \<le> version"
    "0x100000 \<le> unat la" "unat la + unat isz \<le> bsize m" "bsize m < 2 ^ 63" "unat la + length (drop sl k) \<le> bsize m"
  shows "load_kernel k sl version (mput m ws) =
    Inr (la, isz, mput m ((bp_code32_start, le_bytes 4 (ucast la :: u32)) # (unat la, drop sl k) # ws))"
proof -
  note isz = unat_ucast32 [of isz]
  have sum: "unat (la + ucast isz) = unat la + unat isz"
    using assms(5,6) by (simp add: unat_word_ariths isz)
  have fit: "\<not> la + ucast isz > mem_size m"
    using assms(5,6) by (simp add: word_less_nat_alt sum mem_size_def unat_of_nat)
  have nf: "\<not> (version < 0x020a \<or> la = 0 \<or> la + ucast isz > mem_size m)"
    using assms(3,4) fit by (auto simp: not_less)
  have w1: "buf_write (mput m ws) (unat la) (drop sl k) = Inr (mput m ((unat la, drop sl k) # ws))"
    by (rule write_mput) (rule assms(7))
  have w2: "st32 (mput m ((unat la, drop sl k) # ws)) bp_code32_start (ucast la) =
      Inr (mput m ((bp_code32_start, le_bytes 4 (ucast la :: u32)) # (unat la, drop sl k) # ws))"
    unfolding st32_def by (rule write_mput) (use assms(4,5) in simp)
  show ?thesis
    unfolding load_kernel_def assms(1,2) lift_simps rbind_Inr Let_def mem_size_mput if_not_P [OF nf]
    using nf w1 w2 by simp
qed

lemma load_cmdline_ok:
  assumes "length cl < 4096" "0x020a \<le> version" "0xb000 \<le> bsize m"
  shows "load_cmdline cl version (mput m ws) = Inr (mput m ((bp_cmdline_size, le_bytes 4 (of_nat (length cl) :: u32)) #
    (bp_cmd_line_ptr, le_bytes 4 (0x9000 :: u32)) # (CMDLINE_GPA, cl @ [0]) # ws))"
proof -
  have v: "version \<ge> 0x0206" using assms(2) by (simp add: word_le_nat_alt)
  have w: "buf_write (mput m ws) CMDLINE_GPA (cl @ [0]) = Inr (mput m ((CMDLINE_GPA, cl @ [0]) # ws))"
    "st32 (mput m ((CMDLINE_GPA, cl @ [0]) # ws)) bp_cmd_line_ptr 0x9000 =
       Inr (mput m ((bp_cmd_line_ptr, le_bytes 4 (0x9000 :: u32)) # (CMDLINE_GPA, cl @ [0]) # ws))"
    "st32 (mput m ((bp_cmd_line_ptr, le_bytes 4 (0x9000 :: u32)) # (CMDLINE_GPA, cl @ [0]) # ws)) bp_cmdline_size (of_nat (length cl)) =
       Inr (mput m ((bp_cmdline_size, le_bytes 4 (of_nat (length cl) :: u32)) # (bp_cmd_line_ptr, le_bytes 4 (0x9000 :: u32)) # (CMDLINE_GPA, cl @ [0]) # ws))"
    unfolding st32_def by (rule write_mput, use assms(1,3) in simp)+
  show ?thesis using assms(1) v w by (simp add: load_cmdline_def del: mput.simps)
qed

text \<open>The page-aligned address below the top of RAM.\<close>

definition initrd_place :: "cbuf \<Rightarrow> u8 list \<Rightarrow> nat" where
  "initrd_place m ibuf = (bsize m - length ibuf) div 0x1000 * 0x1000"

lemma page_floor: "unat (w AND NOT 0xfff) = unat w div 0x1000 * 0x1000" for w :: u64
proof -
  have m: "(0xfff :: u64) = mask 12" by (simp add: mask_numeral)
  have "w AND NOT (mask 12) = push_bit 12 (drop_bit 12 w)"
    by (rule bit_word_eqI) (auto simp: bit_simps)
  moreover have "unat (push_bit 12 (drop_bit 12 w)) = unat w div 2 ^ 12 * 2 ^ 12"
  proof -
    have "unat w div 0x1000 * 0x1000 \<le> unat w" by simp
    then have "unat w div 0x1000 * 0x1000 < 2 ^ 64" "unat w div 0x1000 < 2 ^ 64" using unat_lt64 [of w] by simp_all
    then show ?thesis by (simp add: push_bit_eq_mult unat_word_ariths unsigned_drop_bit_eq drop_bit_eq_div)
  qed
  ultimately show ?thesis unfolding m by simp
qed

lemma load_initrd_ok:
  assumes "length ibuf \<le> bsize m" "bsize m < 2 ^ 63" "unat la + unat isz < initrd_place m ibuf" "0x9000 \<le> bsize m"
  shows "\<exists>gpa. load_initrd ibuf la isz (mput m ws) = Inr (gpa, mput m ((bp_ramdisk_size, le_bytes 4 (of_nat (length ibuf) :: u32)) #
      (bp_ramdisk_image, le_bytes 4 (ucast gpa :: u32)) # (initrd_place m ibuf, ibuf) # ws)) \<and> unat gpa = initrd_place m ibuf"
proof -
  let ?gpa = "(mem_size m - of_nat (length ibuf)) AND NOT 0xfff :: u64"
  have sub: "mem_size m - of_nat (length ibuf) = of_nat (bsize m - length ibuf)" using assms(1) by (simp add: mem_size_def of_nat_diff)
  have gpa: "unat ?gpa = initrd_place m ibuf"
    unfolding sub page_floor initrd_place_def using assms(2) by (simp add: unat_of_nat)
  have le: "initrd_place m ibuf \<le> bsize m - length ibuf" by (simp add: initrd_place_def)
  note isz = unat_ucast32 [of isz]
  have sum: "unat (la + ucast isz) = unat la + unat isz"
    using assms(2,3) le by (simp add: unat_word_ariths isz)
  have no: "\<not> ?gpa \<le> la + ucast isz" unfolding word_le_nat_alt gpa sum using assms(3) by simp
  have w: "buf_write (mput m ws) (initrd_place m ibuf) ibuf = Inr (mput m ((initrd_place m ibuf, ibuf) # ws))"
    "st32 (mput m ((initrd_place m ibuf, ibuf) # ws)) bp_ramdisk_image (ucast ?gpa) =
       Inr (mput m ((bp_ramdisk_image, le_bytes 4 (ucast ?gpa :: u32)) # (initrd_place m ibuf, ibuf) # ws))"
    "st32 (mput m ((bp_ramdisk_image, le_bytes 4 (ucast ?gpa :: u32)) # (initrd_place m ibuf, ibuf) # ws)) bp_ramdisk_size (of_nat (length ibuf)) =
       Inr (mput m ((bp_ramdisk_size, le_bytes 4 (of_nat (length ibuf) :: u32)) # (bp_ramdisk_image, le_bytes 4 (ucast ?gpa :: u32)) # (initrd_place m ibuf, ibuf) # ws))"
    unfolding st32_def by (rule write_mput, use assms(1,4) le in simp)+
  have "load_initrd ibuf la isz (mput m ws) = Inr (?gpa, mput m ((bp_ramdisk_size, le_bytes 4 (of_nat (length ibuf) :: u32)) #
      (bp_ramdisk_image, le_bytes 4 (ucast ?gpa :: u32)) # (initrd_place m ibuf, ibuf) # ws))"
    unfolding load_initrd_def Let_def mem_size_mput if_not_P [OF no] gpa w lift_simps rbind_Inr by (rule refl)
  then show ?thesis using gpa by blast
qed

lemma put_e820_ok:
  assumes "0x9000 \<le> bsize m" "i \<le> 1"
  shows "put_e820 (mput m ws) i a s = Inr (mput m ((bp_e820_table + i * 20 + 16, le_bytes 4 (1 :: u32)) #
    (bp_e820_table + i * 20 + 8, le_bytes 8 s) # (bp_e820_table + i * 20, le_bytes 8 a) # ws))"
proof -
  have w: "st64 (mput m ws) (bp_e820_table + i * 20) a = Inr (mput m ((bp_e820_table + i * 20, le_bytes 8 a) # ws))"
    "st64 (mput m ((bp_e820_table + i * 20, le_bytes 8 a) # ws)) (bp_e820_table + i * 20 + 8) s =
       Inr (mput m ((bp_e820_table + i * 20 + 8, le_bytes 8 s) # (bp_e820_table + i * 20, le_bytes 8 a) # ws))"
    "st32 (mput m ((bp_e820_table + i * 20 + 8, le_bytes 8 s) # (bp_e820_table + i * 20, le_bytes 8 a) # ws)) (bp_e820_table + i * 20 + 16) 1 =
       Inr (mput m ((bp_e820_table + i * 20 + 16, le_bytes 4 (1 :: u32)) # (bp_e820_table + i * 20 + 8, le_bytes 8 s) # (bp_e820_table + i * 20, le_bytes 8 a) # ws))"
    unfolding st64_def st32_def by (rule write_mput, use assms in simp)+
  show ?thesis unfolding put_e820_def w lift_simps rbind_Inr by (rule refl)
qed

definition gdt_writes :: "(nat \<times> u8 list) list" where
  "gdt_writes = [(TSS_GPA, replicate 104 0), (GDT_GPA + 32, le_bytes 8 (0x00008b0000000067 OR push_bit 16 (of_nat TSS_GPA) :: u64)),
     (GDT_GPA + 24, le_bytes 8 (0x00cf93000000ffff :: u64)), (GDT_GPA + 16, le_bytes 8 (0x00cf9b000000ffff :: u64)), (GDT_GPA, replicate 40 0)]"

lemma build_gdt_ok: "0x9000 \<le> bsize m \<Longrightarrow> build_gdt (mput m ws) = Inr (mput m (gdt_writes @ ws))"
  unfolding build_gdt_def gdt_writes_def st64_def
  using write_mput [of GDT_GPA "replicate 40 0" m ws]
  by (simp add: write_mput buf_write_def)

text \<open>
  An image, an initramfs and a command line that fit: the image says where it wants to be and how much it needs, the
  initramfs lies above that, and RAM ends below the first device of the monitor.
\<close>

definition bootable :: "u8 list \<Rightarrow> u8 list \<Rightarrow> u8 list \<Rightarrow> cbuf \<Rightarrow> bool" where
  "bootable k ibuf cl m \<longleftrightarrow> bz_valid k \<and> 0x4000000 \<le> bsize m \<and> bsize m \<le> 0xd0000000 \<and> length cl < 4096 \<and> length ibuf \<le> bsize m \<and>
     0x100000 \<le> unat (bz_field64 k 0x258) \<and> length k - bz_setup_len k \<le> unat (bz_field32 k 0x260) \<and>
     unat (bz_field64 k 0x258) + unat (bz_field32 k 0x260) < initrd_place m ibuf"

text \<open>What the boot protocol asks guest RAM to hold at the entry of the kernel.\<close>

definition boot_layout :: "u8 list \<Rightarrow> u8 list \<Rightarrow> u8 list \<Rightarrow> boot_image \<Rightarrow> cbuf \<Rightarrow> bool" where
  "boot_layout k ibuf cl img m \<longleftrightarrow>
     (let payload = drop (bz_setup_len k) k in
      buf_read m (unat (kernel_gpa img)) (length payload) = Inr payload \<and>
      buf_read m (unat (initrd_gpa img)) (length ibuf) = Inr ibuf \<and>
      buf_read m CMDLINE_GPA (length cl + 1) = Inr (cl @ [0]) \<and>
      ld32 m bp_code32_start = Inr (ucast (kernel_gpa img)) \<and>
      ld32 m bp_ramdisk_image = Inr (ucast (initrd_gpa img)) \<and> ld32 m bp_ramdisk_size = Inr (of_nat (length ibuf)) \<and>
      ld32 m bp_cmd_line_ptr = Inr 0x9000 \<and> ld32 m bp_cmdline_size = Inr (of_nat (length cl)) \<and>
      buf_read m bp_type_of_loader 1 = Inr [0xff] \<and> buf_read m bp_loadflags 1 = Inr [k ! 0x211 OR 0x81] \<and>
      buf_read m bp_e820_entries 1 = Inr [2] \<and>
      ld64 m bp_e820_table = Inr 0 \<and> ld64 m (bp_e820_table + 8) = Inr 0x9fc00 \<and> ld32 m (bp_e820_table + 16) = Inr 1 \<and>
      ld64 m (bp_e820_table + 20) = Inr 0x100000 \<and> ld64 m (bp_e820_table + 28) = Inr (mem_size m - 0x100000) \<and>
      ld32 m (bp_e820_table + 36) = Inr 1)"

lemma read_hit': "off + length xs \<le> bsize m \<Longrightarrow> n = length xs \<Longrightarrow> buf_read (mput m ((off, xs) # ws)) off n = Inr xs"
  by (simp only: read_hit)

text \<open>All writes of a successful load, last first.\<close>

definition load_writes :: "u8 list \<Rightarrow> u8 list \<Rightarrow> u8 list \<Rightarrow> nat \<Rightarrow> nat \<Rightarrow> cbuf \<Rightarrow> (nat \<times> u8 list) list" where
  "load_writes k ibuf cl la ig m = gdt_writes @
     [(bp_e820_entries, [2]), (bp_e820_table + 36, le_bytes 4 (1 :: u32)), (bp_e820_table + 28, le_bytes 8 (mem_size m - 0x100000)),
      (bp_e820_table + 20, le_bytes 8 (0x100000 :: u64)), (bp_e820_table + 16, le_bytes 4 (1 :: u32)), (bp_e820_table + 8, le_bytes 8 (0x9fc00 :: u64)),
      (bp_e820_table, le_bytes 8 (0 :: u64)), (bp_ramdisk_size, le_bytes 4 (of_nat (length ibuf) :: u32)),
      (bp_ramdisk_image, le_bytes 4 (of_nat ig :: u32)), (ig, ibuf), (bp_cmdline_size, le_bytes 4 (of_nat (length cl) :: u32)),
      (bp_cmd_line_ptr, le_bytes 4 (0x9000 :: u32)), (CMDLINE_GPA, cl @ [0]), (bp_code32_start, le_bytes 4 (of_nat la :: u32)),
      (la, drop (bz_setup_len k) k)] @ header_writes k"

lemma ucast_of_unat: "(ucast w :: u32) = of_nat (unat w)" for w :: u64
  by (simp add: unsigned_ucast_eq)

lemma load_bzimage_ok:
  assumes "bootable k ibuf cl m"
  shows "\<exists>img. load_bzimage k ibuf cl m =
      Inr (img, mput m (load_writes k ibuf cl (unat (bz_field64 k 0x258)) (initrd_place m ibuf) m)) \<and>
    kernel_gpa img = bz_field64 k 0x258 \<and> unat (initrd_gpa img) = initrd_place m ibuf \<and> initrd_size img = of_nat (length ibuf)"
proof -
  let ?la = "bz_field64 k 0x258" and ?isz = "bz_field32 k 0x260"
  note b = assms [unfolded bootable_def]
  have v: "bz_valid k" and ver: "0x020a \<le> bz_version k" using b by (simp_all add: bz_valid_def)
  have m9: "0x9000 \<le> bsize m" "0xb000 \<le> bsize m" "bsize m < 2 ^ 63" using b by simp_all
  have le: "initrd_place m ibuf \<le> bsize m" by (simp add: initrd_place_def)
  let ?w1 = "header_writes k"
  let ?w2 = "(bp_code32_start, le_bytes 4 (ucast ?la :: u32)) # (unat ?la, drop (bz_setup_len k) k) # ?w1"
  let ?w3 = "(bp_cmdline_size, le_bytes 4 (of_nat (length cl) :: u32)) # (bp_cmd_line_ptr, le_bytes 4 (0x9000 :: u32)) # (CMDLINE_GPA, cl @ [0]) # ?w2"
  have h: "load_header k m = Inr (bz_setup_len k, bz_version k, mput m ?w1)" by (rule load_header_ok [OF v m9(1)])
  have kn: "load_kernel k (bz_setup_len k) (bz_version k) (mput m ?w1) = Inr (?la, ?isz, mput m ?w2)"
    by (rule load_kernel_ok [OF header_fields [OF v m9(1)] ver]) (use b le in simp_all)
  have c: "load_cmdline cl (bz_version k) (mput m ?w2) = Inr (mput m ?w3)"
    by (rule load_cmdline_ok) (use b ver m9 in simp_all)
  obtain gpa where i: "load_initrd ibuf ?la ?isz (mput m ?w3) = Inr (gpa, mput m ((bp_ramdisk_size, le_bytes 4 (of_nat (length ibuf) :: u32)) #
      (bp_ramdisk_image, le_bytes 4 (ucast gpa :: u32)) # (initrd_place m ibuf, ibuf) # ?w3))" "unat gpa = initrd_place m ibuf"
    using load_initrd_ok [of ibuf m ?la ?isz ?w3] b m9 by blast
  let ?w4 = "(bp_ramdisk_size, le_bytes 4 (of_nat (length ibuf) :: u32)) # (bp_ramdisk_image, le_bytes 4 (ucast gpa :: u32)) # (initrd_place m ibuf, ibuf) # ?w3"
  note e0 = put_e820_ok [OF m9(1), of 0 ?w4 0 "0x9fc00", simplified]
  let ?w5 = "(bp_e820_table + 16, le_bytes 4 (1 :: u32)) # (bp_e820_table + 8, le_bytes 8 (0x9fc00 :: u64)) # (bp_e820_table, le_bytes 8 (0 :: u64)) # ?w4"
  have e0: "put_e820 (mput m ?w4) 0 0 0x9fc00 = Inr (mput m ?w5)"
    using put_e820_ok [OF m9(1), of 0 ?w4 0 "0x9fc00"] by simp
  let ?w6 = "(bp_e820_table + 36, le_bytes 4 (1 :: u32)) # (bp_e820_table + 28, le_bytes 8 (mem_size m - 0x100000)) #
    (bp_e820_table + 20, le_bytes 8 (0x100000 :: u64)) # ?w5"
  have e1: "put_e820 (mput m ?w5) 1 0x100000 (mem_size (mput m ?w5) - 0x100000) = Inr (mput m ?w6)"
    using put_e820_ok [OF m9(1), of 1 ?w5 "0x100000" "mem_size m - 0x100000"] by (simp del: mput.simps)
  have n: "buf_write (mput m ?w6) bp_e820_entries [2] = Inr (mput m ((bp_e820_entries, [2]) # ?w6))"
    by (rule write_mput) (use m9 in simp)
  have g: "build_gdt (mput m ((bp_e820_entries, [2]) # ?w6)) = Inr (mput m (gdt_writes @ (bp_e820_entries, [2]) # ?w6))"
    by (rule build_gdt_ok [OF m9(1)])
  have eq: "gdt_writes @ (bp_e820_entries, [2]) # ?w6 = load_writes k ibuf cl (unat ?la) (initrd_place m ibuf) m"
    unfolding load_writes_def ucast_of_unat i(2) by (simp del: of_nat_unat)
  have "load_bzimage k ibuf cl m = Inr (\<lparr>kernel_gpa = ?la, initrd_gpa = gpa, initrd_size = of_nat (length ibuf)\<rparr>,
      mput m (load_writes k ibuf cl (unat ?la) (initrd_place m ibuf) m))"
    unfolding load_bzimage_def load_bzimage_with_def h kn c i(1) e0 e1 n g rbind_Inr prod.case lift_simps eq by (rule refl)
  then show ?thesis using i(2) by (intro exI) auto
qed

text \<open>The writes that matter do not overlap later ones.\<close>

lemma load_writes_layout:
  assumes "0x9000 \<le> bsize m" "0x100000 \<le> la" "la + (length k - bz_setup_len k) \<le> ig" "ig + length ibuf \<le> bsize m" "length cl < 4096"
    "0x100000 \<le> ig"
  defines "m' \<equiv> mput m (load_writes k ibuf cl la ig m)"
  shows "buf_read m' la (length k - bz_setup_len k) = Inr (drop (bz_setup_len k) k)" "buf_read m' ig (length ibuf) = Inr ibuf"
    "buf_read m' CMDLINE_GPA (length cl + 1) = Inr (cl @ [0])"
    "buf_read m' bp_type_of_loader 1 = Inr [0xff]" "buf_read m' bp_loadflags 1 = Inr [k ! 0x211 OR 0x81]" "buf_read m' bp_e820_entries 1 = Inr [2]"
    "ld32 m' bp_code32_start = Inr (of_nat la)" "ld32 m' bp_ramdisk_image = Inr (of_nat ig)" "ld32 m' bp_ramdisk_size = Inr (of_nat (length ibuf))"
    "ld32 m' bp_cmd_line_ptr = Inr 0x9000" "ld32 m' bp_cmdline_size = Inr (of_nat (length cl))"
    "ld64 m' bp_e820_table = Inr 0" "ld64 m' (bp_e820_table + 8) = Inr 0x9fc00" "ld32 m' (bp_e820_table + 16) = Inr 1"
    "ld64 m' (bp_e820_table + 20) = Inr 0x100000" "ld64 m' (bp_e820_table + 28) = Inr (mem_size m - 0x100000)" "ld32 m' (bp_e820_table + 36) = Inr 1"
  unfolding m'_def load_writes_def header_writes_def gdt_writes_def append_Cons append_Nil
  using assms(1-6)
  by (simp_all add: read_skip read_hit' ld_skips ld_hits del: mput.simps)

text \<open>
  C28. An image, an initramfs and a command line that fit are loaded completely: no write leaves guest RAM and none destroys
  an earlier one, so that at the entry guest RAM holds the protected-mode kernel at its preferred address, the initramfs at the
  page-aligned top and the command line, and the boot parameters describe them and the memory map.
\<close>
theorem bzimage_loaded:
  assumes "bootable k ibuf cl m"
  shows "\<exists>img m'. load_bzimage k ibuf cl m = Inr (img, m') \<and> boot_layout k ibuf cl img m' \<and>
    kernel_gpa img = bz_field64 k 0x258 \<and> unat (initrd_gpa img) = initrd_place m ibuf"
proof -
  let ?la = "bz_field64 k 0x258"
  let ?m' = "mput m (load_writes k ibuf cl (unat ?la) (initrd_place m ibuf) m)"
  obtain img where img: "load_bzimage k ibuf cl m = Inr (img, ?m')" "kernel_gpa img = ?la" "unat (initrd_gpa img) = initrd_place m ibuf"
    using load_bzimage_ok [OF assms] by blast
  note b = assms [unfolded bootable_def]
  have place: "initrd_place m ibuf + length ibuf \<le> bsize m"
    using b div_times_less_eq_dividend [of "bsize m - length ibuf" "0x1000"] unfolding initrd_place_def by linarith
  have pre: "0x9000 \<le> bsize m" "0x100000 \<le> unat ?la" "unat ?la + (length k - bz_setup_len k) \<le> initrd_place m ibuf"
      "length cl < 4096" "0x100000 \<le> initrd_place m ibuf"
    using b by linarith+
  note l = load_writes_layout [OF pre(1-3) place pre(4,5)]
  have "boot_layout k ibuf cl img ?m'"
    unfolding boot_layout_def Let_def img(2,3) ucast_of_unat length_drop mem_size_mput by (intro conjI; rule l)
  then show ?thesis using img by blast
qed

section \<open>Sizes the loader does not check\<close>

text \<open>
  The choice of the preferred address trusts the size the header states: when that seems to fit (it may even wrap around) but
  the kernel itself does not, the copy leaves guest RAM.
\<close>
theorem bzimage_overruns:
  assumes "bz_valid k" "0x9000 \<le> bsize m" "bz_field64 k 0x258 \<noteq> 0"
    "bz_field64 k 0x258 + ucast (bz_field32 k 0x260) \<le> mem_size m"
    "bsize m < unat (bz_field64 k 0x258) + (length k - bz_setup_len k)"
  shows "load_bzimage k ibuf cl m = Inl (Broke OutOfBounds)"
proof -
  let ?la = "bz_field64 k 0x258"
  have ver: "0x020a \<le> bz_version k" using assms(1) by (simp add: bz_valid_def)
  have h: "load_header k m = Inr (bz_setup_len k, bz_version k, mput m (header_writes k))" by (rule load_header_ok [OF assms(1,2)])
  have nf: "\<not> (bz_version k < 0x020a \<or> ?la = 0 \<or> ?la + ucast (bz_field32 k 0x260) > mem_size m)"
    using ver assms(3,4) by (auto simp: not_less)
  have w: "buf_write (mput m (header_writes k)) (unat ?la) (drop (bz_setup_len k) k) = Inl OutOfBounds"
    using assms(5) by (simp add: buf_write_def del: mput.simps)
  have "load_kernel k (bz_setup_len k) (bz_version k) (mput m (header_writes k)) = Inl (Broke OutOfBounds)"
    unfolding load_kernel_def header_fields [OF assms(1,2)] lift_simps rbind_Inr Let_def mem_size_mput if_not_P [OF nf] w
    using nf by simp
  then show ?thesis unfolding load_bzimage_def load_bzimage_with_def h by simp
qed

text \<open>An initramfs larger than RAM: the subtraction wraps, the overlap test passes and the copy leaves RAM.\<close>

lemma initrd_wraps:
  assumes "bsize m < length ibuf" "length ibuf < 2 ^ 62" "unat la < 2 ^ 62"
  shows "load_initrd ibuf la isz m = Inl (Broke OutOfBounds)"
proof -
  let ?n = "length ibuf - bsize m"
  let ?x = "mem_size m - of_nat (length ibuf)"
  have x: "?x = - of_nat ?n" using assms(1) by (simp add: mem_size_def of_nat_diff)
  have n: "0 < ?n" "?n < 2 ^ 62" using assms(1,2) by linarith+
  have z: "(of_nat (2 ^ 64) :: u64) = 0" by simp
  have "of_nat (2 ^ 64 - ?n) = (of_nat (2 ^ 64) :: u64) - of_nat ?n" by (rule of_nat_diff) (use n(2) in simp)
  then have "?x = of_nat (2 ^ 64 - ?n)" unfolding x z by simp
  then have ux: "unat ?x = 2 ^ 64 - ?n" using n by (simp only: unat_of_nat) simp
  have big: "2 ^ 63 \<le> unat (?x AND NOT 0xfff)" unfolding page_floor ux using n(2) by simp
  have s: "unat (la + ucast isz) < 2 ^ 63"
    using assms(3) unat_lt32 [of isz] by (simp add: unat_word_ariths unat_ucast32)
  have no: "\<not> ?x AND NOT 0xfff \<le> la + ucast isz" unfolding word_le_nat_alt using big s by linarith
  have w: "buf_write m (unat (?x AND NOT 0xfff)) ibuf = Inl OutOfBounds"
    using big assms(1,2) unfolding buf_write_def by simp
  show ?thesis unfolding load_initrd_def Let_def if_not_P [OF no] w by simp
qed

section \<open>Witnesses\<close>

text \<open>An image of two setup sectors and 16 bytes of code, which asks for 4 KB at 16 MB.\<close>

definition ex_byte :: "u8 \<Rightarrow> nat \<Rightarrow> u8" where
  "ex_byte hi i = (if i = 0x1f1 then 1 else if i = 0x201 then 0x62 else if i = 0x202 then 0x48 else if i = 0x203 then 0x64
     else if i = 0x204 then 0x72 else if i = 0x205 then 0x53 else if i = 0x206 then 0x0c else if i = 0x207 then 2
     else if i = 0x25b then hi else if i = 0x259 then 0xf0 else if i = 0x25a then 0xff else if i = 0x261 then 0x10 else 0)"

definition ex_image :: "u8 \<Rightarrow> nat \<Rightarrow> u8 list" where
  "ex_image hi n = map (ex_byte hi) [0..<0x400 + n]"

abbreviation (input) ex_ram :: cbuf where "ex_ram \<equiv> \<lparr>bsize = 0x4000000, bdata = \<lambda>_. 0\<rparr>"

lemma ex_image_slice: "off + n \<le> 0x400 + l \<Longrightarrow> take n (drop off (ex_image hi l)) = map (ex_byte hi) [off..<off + n]"
  by (simp add: ex_image_def drop_map take_map)

lemma ex_image_facts:
  "length (ex_image hi n) = 0x400 + n" "bz_setup_len (ex_image hi n) = 0x400" "bz_field32 (ex_image hi n) 0x202 = 0x53726448"
  "bz_version (ex_image hi n) = 0x020c" "ex_image hi n ! 0x201 = 0x62" "bz_field32 (ex_image hi n) 0x260 = 0x1000"
  "bz_field64 (ex_image hi n) 0x258 = push_bit 24 (ucast hi) OR 0xfff000"
proof -
  show "length (ex_image hi n) = 0x400 + n" by (simp add: ex_image_def)
  show "bz_setup_len (ex_image hi n) = 0x400" by (simp add: bz_setup_len_def ex_image_def ex_byte_def)
  show "ex_image hi n ! 0x201 = 0x62" by (simp add: ex_image_def ex_byte_def)
  show "bz_field32 (ex_image hi n) 0x202 = 0x53726448"
    unfolding bz_field32_def by (simp add: ex_image_slice upt_conv_Cons ex_byte_def)
  show "bz_version (ex_image hi n) = 0x020c"
    unfolding bz_version_def by (simp add: ex_image_slice upt_conv_Cons ex_byte_def)
  show "bz_field32 (ex_image hi n) 0x260 = 0x1000"
    unfolding bz_field32_def by (simp add: ex_image_slice upt_conv_Cons ex_byte_def)
  show "bz_field64 (ex_image hi n) 0x258 = push_bit 24 (ucast hi) OR 0xfff000"
    unfolding bz_field64_def by (simp add: ex_image_slice upt_conv_Cons ex_byte_def push_bit_or or.assoc [symmetric]) (simp add: or.commute)
qed

lemma ex_image_valid: "0 < n \<Longrightarrow> bz_valid (ex_image hi n)"
  by (simp add: bz_valid_def ex_image_facts)

theorem bzimage_loaded_witness:
  "\<exists>img m'. load_bzimage (ex_image 1 16) [1, 2, 3] [0x61] ex_ram = Inr (img, m') \<and> kernel_gpa img = 0x1fff000 \<and>
     unat (initrd_gpa img) = 0x3fff000 \<and> buf_read m' 0x3fff000 3 = Inr [1, 2, 3]"
proof -
  have b: "bootable (ex_image 1 16) [1, 2, 3] [0x61] ex_ram"
    using ex_image_valid [of 16 1] by (simp add: bootable_def ex_image_facts initrd_place_def)
  obtain img m' where r: "load_bzimage (ex_image 1 16) [1, 2, 3] [0x61] ex_ram = Inr (img, m')"
      "boot_layout (ex_image 1 16) [1, 2, 3] [0x61] img m'" "kernel_gpa img = bz_field64 (ex_image 1 16) 0x258"
      "unat (initrd_gpa img) = initrd_place ex_ram [1, 2, 3]"
    using bzimage_loaded [OF b] by blast
  have p: "initrd_place ex_ram [1, 2, 3] = 0x3fff000" by (simp add: initrd_place_def)
  have "buf_read m' (unat (initrd_gpa img)) (length [1, 2, 3 :: u8]) = Inr [1, 2, 3]"
    using r(2) unfolding boot_layout_def Let_def by blast
  then have "buf_read m' 0x3fff000 3 = Inr [1, 2, 3]" unfolding r(4) p by (simp add: numeral_3_eq_3)
  moreover have "kernel_gpa img = 0x1fff000" unfolding r(3) ex_image_facts by simp
  ultimately show ?thesis using r(1,4) p by metis
qed

theorem bzimage_overruns_witness: "load_bzimage (ex_image 2 0x1001001) [] [] ex_ram = Inl (Broke OutOfBounds)"
  by (rule bzimage_overruns) (simp_all add: ex_image_valid ex_image_facts mem_size_def)

theorem cpuid_policy_witness:
  "\<exists>added. setup_cpuid [cpuid_zero\<lparr>c_function := 1, c_ecx := 0x76fab223\<rparr>] =
     Inr (map fix_leaf [cpuid_zero\<lparr>c_function := 1, c_ecx := 0x76fab223\<rparr>] @ added) \<and> c_function ` set added \<subseteq> {0x40000000, 0x40000001}"
  using cpuid_policy [of "[cpuid_zero\<lparr>c_function := 1, c_ecx := 0x76fab223\<rparr>]"] by auto

theorem entry_matches_gdt_witness:
  "\<exists>m'. build_gdt ex_ram = Inr m' \<and>
     from_gdt m' (setup_sregs \<lparr>r_cs = no_segment, r_ds = no_segment, r_es = no_segment, r_fs = no_segment, r_gs = no_segment, r_ss = no_segment,
       r_tr = no_segment, r_ldt = no_segment, gdt_base = 0, gdt_limit = 0, idt_base = 0, idt_limit = 0, cr0 = 0x60000010, cr3 = 0, cr4 = 0, efer = 0\<rparr>) code_segment"
proof -
  let ?s0 = "\<lparr>r_cs = no_segment, r_ds = no_segment, r_es = no_segment, r_fs = no_segment, r_gs = no_segment, r_ss = no_segment,
       r_tr = no_segment, r_ldt = no_segment, gdt_base = 0, gdt_limit = 0, idt_base = 0, idt_limit = 0, cr0 = 0x60000010, cr3 = 0, cr4 = 0, efer = 0\<rparr>"
  have "r_cs (setup_sregs ?s0) = code_segment" by (simp add: setup_sregs_def)
  then show ?thesis
    using entry_matches_gdt [of ex_ram ?s0 "\<lparr>kernel_gpa = 0, initrd_gpa = 0, initrd_size = 0\<rparr>"] by (auto simp: Let_def)
qed

end
