(* ===== verification/RunLoop.thy ===== *)
theory RunLoop
  imports Serial VirtioMmio PciPass
begin

text \<open>
  The loop of \<open>minivmm.c\<close> around \<open>KVM_RUN\<close>: port exits split into elements and sent to the PCI configuration ports, the serial
  ports, the reset ports or nothing, MMIO exits sent to the virtio windows, the BARs or nothing, the exit statistics and
  the ends of the loop, with the other threads and signals as events between exits.
\<close>

section \<open>State\<close>

record ('f, 'd) vmm =
  com1 :: serial_vm
  devs :: "'f vio"
  pci :: "'d pt"
  exit_counts :: "u64 list"
  stats_requested :: bool
  stats_out :: "(nat \<times> u64) list list"

section \<open>Port exits\<close>

text \<open>Elements of one, two or else four bytes in the data area of \<open>kvm_run\<close>.\<close>

definition io_width :: "nat \<Rightarrow> nat" where
  "io_width sz = (if sz = 1 then 1 else if sz = 2 then 2 else 4)"

definition fetch_elem :: "u8 list \<Rightarrow> nat \<Rightarrow> nat \<Rightarrow> u32 res" where
  "fetch_elem data pos n = (if pos + n \<le> length data then Inr (le_val (take n (drop pos data))) else Inl OutOfBounds)"

definition store_elem :: "u8 list \<Rightarrow> nat \<Rightarrow> nat \<Rightarrow> u32 \<Rightarrow> u8 list res" where
  "store_elem data pos n v =
     (if pos + n \<le> length data then Inr (take pos data @ le_bytes n v @ drop (pos + n) data) else Inl OutOfBounds)"

definition legacy_io ::
  "u16 \<Rightarrow> bool \<Rightarrow> u8 \<Rightarrow> nat \<Rightarrow> nat \<Rightarrow> u8 list \<Rightarrow> ('f, 'd) vmm \<Rightarrow> (u8 list \<times> ('f, 'd) vmm) res" where
  "legacy_io port is_write val sz pos data s =
     (case serial_io port is_write val (com1 s) of (h1, v1, c1) \<Rightarrow>
        case (if h1 then (True, v1, c1) else power_io port is_write v1 c1) of (h, v, c2) \<Rightarrow>
          (let s1 = s\<lparr>com1 := c2\<rparr> in
           if is_write then Inr (data, s1)
           else rbind (store_elem data pos (io_width sz) (if h then ucast v else generic_io_in port sz)) (\<lambda>d. Inr (d, s1))))"

definition io_elem ::
  "'d dev_ops \<Rightarrow> u16 \<Rightarrow> bool \<Rightarrow> nat \<Rightarrow> nat \<Rightarrow> u8 list \<Rightarrow> ('f, 'd) vmm \<Rightarrow> (u8 list \<times> ('f, 'd) vmm) res" where
  "io_elem D port is_write sz pos data s =
     rbind (if is_write then fetch_elem data pos 1 else Inr 0) (\<lambda>byte.
     let val = ucast byte in
     if port = 0xcf8 \<or> (port \<ge> 0xcfc \<and> port < 0xcfc + 4) then
       rbind (if is_write then fetch_elem data pos (io_width sz) else Inr 0) (\<lambda>wv.
       rbind (pci_config_io D port is_write wv sz (pci s)) (\<lambda>(r, p1).
         let s1 = s\<lparr>pci := p1\<rparr> in
         case r of None \<Rightarrow> legacy_io port is_write val sz pos data s1
         | Some v \<Rightarrow>
             if is_write then Inr (data, s1)
             else rbind (store_elem data pos (io_width sz) v) (\<lambda>d. Inr (d, s1))))
     else legacy_io port is_write val sz pos data s)"

fun io_elems ::
  "'d dev_ops \<Rightarrow> u16 \<Rightarrow> bool \<Rightarrow> nat \<Rightarrow> nat list \<Rightarrow> u8 list \<Rightarrow> ('f, 'd) vmm \<Rightarrow> (u8 list \<times> ('f, 'd) vmm) res" where
  "io_elems D port is_write sz [] data s = Inr (data, s)"
| "io_elems D port is_write sz (i # is) data s =
     rbind (io_elem D port is_write sz (i * sz) data s) (\<lambda>(data1, s1). io_elems D port is_write sz is data1 s1)"

definition handle_io ::
  "'d dev_ops \<Rightarrow> u16 \<Rightarrow> bool \<Rightarrow> nat \<Rightarrow> nat \<Rightarrow> u8 list \<Rightarrow> ('f, 'd) vmm \<Rightarrow> (u8 list \<times> ('f, 'd) vmm) res" where
  "handle_io D port is_write sz cnt data s = io_elems D port is_write sz [0..<cnt] data s"

section \<open>MMIO exits\<close>

definition handle_mmio ::
  "'d dev_ops \<Rightarrow> u64 \<Rightarrow> bool \<Rightarrow> nat \<Rightarrow> u8 list \<Rightarrow> ('f, 'd) vmm \<Rightarrow> (u8 list \<times> ('f, 'd) vmm) res" where
  "handle_mmio D pa is_write len data s =
     rbind (handle_virtio_mmio pa len is_write data (devs s)) (\<lambda>(hit, data1, v1).
       let s1 = s\<lparr>devs := v1\<rparr> in
       if hit then Inr (data1, s1)
       else
         rbind (handle_pt_mmio D pa is_write (take len data1) (pci s1)) (\<lambda>(r, p1).
           let s2 = s1\<lparr>pci := p1\<rparr> in
           case r of Some bs \<Rightarrow> Inr (bs @ drop len data1, s2)
           | None \<Rightarrow> Inr (if is_write then data1 else replicate len 0 @ drop len data1, s2)))"

section \<open>The loop\<close>

datatype vm_exit =
    ExitIo u16 bool nat nat "u8 list"
  | ExitHlt
  | ExitMmio u64 bool nat "u8 list"
  | ExitShutdown
  | ExitFailEntry
  | ExitInternalError
  | ExitOther nat

fun exit_reason :: "vm_exit \<Rightarrow> nat" where
  "exit_reason (ExitIo p w sz n d) = 2"
| "exit_reason ExitHlt = 5"
| "exit_reason (ExitMmio pa w len d) = 6"
| "exit_reason ExitShutdown = 8"
| "exit_reason ExitFailEntry = 9"
| "exit_reason ExitInternalError = 17"
| "exit_reason (ExitOther r) = r"

definition count_exit :: "nat \<Rightarrow> ('f, 'd) vmm \<Rightarrow> ('f, 'd) vmm" where
  "count_exit r s = (if r < 64 then s\<lparr>exit_counts := (exit_counts s)[r := exit_counts s ! r + 1]\<rparr> else s)"

definition dump_exit_stats :: "('f, 'd) vmm \<Rightarrow> ('f, 'd) vmm" where
  "dump_exit_stats s = s\<lparr>stats_out := stats_out s @ [filter (\<lambda>(i, n). n \<noteq> 0) (List.enumerate 0 (exit_counts s))]\<rparr>"

definition serve_stats :: "('f, 'd) vmm \<Rightarrow> ('f, 'd) vmm" where
  "serve_stats s = (if stats_requested s then dump_exit_stats (s\<lparr>stats_requested := False\<rparr>) else s)"

datatype ctl = Continue | Return | Die

text \<open>The second component is what the guest finds in the data area when it is entered again.\<close>

definition on_exit :: "'d dev_ops \<Rightarrow> vm_exit \<Rightarrow> ('f, 'd) vmm \<Rightarrow> (ctl \<times> u8 list \<times> ('f, 'd) vmm) res" where
  "on_exit D x s0 =
     (let s = serve_stats (count_exit (exit_reason x) s0) in
      case x of
        ExitIo p w sz n data \<Rightarrow> rbind (handle_io D p w sz n data s) (\<lambda>r. Inr (Continue, r))
      | ExitHlt \<Rightarrow> Inr (Continue, [], s)
      | ExitMmio pa w len data \<Rightarrow> rbind (handle_mmio D pa w len data s) (\<lambda>r. Inr (Continue, r))
      | ExitShutdown \<Rightarrow> Inr (Return, [], s)
      | ExitFailEntry \<Rightarrow> Inr (Die, [], s)
      | ExitInternalError \<Rightarrow> Inr (Die, [], s)
      | ExitOther r \<Rightarrow> Inr (Continue, [], s))"

text \<open>
  What can happen while the virtual CPU is inside \<open>KVM_RUN\<close>: the call returns with an exit, is interrupted by a signal or fails; a
  signal handler runs; the input thread has read bytes; the virtio worker got a notification; guest RAM changes.
\<close>

datatype event =
    Exited vm_exit
  | Interrupted
  | RunFailed
  | StopSignal
  | StatsSignal
  | HostInput "u8 list"
  | Notified nat
  | GuestRam cbuf

datatype loop_end = InKvmRun | Ended | Fatal

text \<open>\<open>running\<close> is looked at only when the call has returned.\<close>

fun kvm_run :: "'d dev_ops \<Rightarrow> event list \<Rightarrow> ('f, 'd) vmm \<Rightarrow> (loop_end \<times> ('f, 'd) vmm) res" where
  "kvm_run D [] s = Inr (InKvmRun, s)"
| "kvm_run D (Exited x # es) s =
     rbind (on_exit D x s) (\<lambda>(c, data, s1).
       case c of
         Continue \<Rightarrow> if running (com1 s1) then kvm_run D es s1 else Inr (Ended, s1)
       | Return \<Rightarrow> Inr (Ended, s1)
       | Die \<Rightarrow> Inr (Fatal, s1))"
| "kvm_run D (Interrupted # es) s =
     (let s1 = serve_stats s in if running (com1 s1) then kvm_run D es s1 else Inr (Ended, s1))"
| "kvm_run D (RunFailed # es) s = Inr (Fatal, s)"
| "kvm_run D (StopSignal # es) s = kvm_run D es (s\<lparr>com1 := (com1 s)\<lparr>running := False\<rparr>\<rparr>)"
| "kvm_run D (StatsSignal # es) s = kvm_run D es (s\<lparr>stats_requested := True\<rparr>)"
| "kvm_run D (HostInput bs # es) s = kvm_run D es (s\<lparr>com1 := fold serial_recv_locked bs (com1 s)\<rparr>)"
| "kvm_run D (Notified k # es) s = rbind (virtio_worker [k] (devs s)) (\<lambda>v. kvm_run D es (s\<lparr>devs := v\<rparr>))"
| "kvm_run D (GuestRam m # es) s = kvm_run D es (s\<lparr>devs := (devs s)\<lparr>vsys := (vsys (devs s))\<lparr>mem := m\<rparr>\<rparr>\<rparr>)"

definition run_loop :: "'d dev_ops \<Rightarrow> event list \<Rightarrow> ('f, 'd) vmm \<Rightarrow> (loop_end \<times> ('f, 'd) vmm) res" where
  "run_loop D es s = (if running (com1 s) then kvm_run D es s else Inr (Ended, s))"

section \<open>The invariant of the loop\<close>

text \<open>\<open>n\<close> is the number of registered notifications, which the loop never changes.\<close>

definition pt_fine :: "'d pt \<Rightarrow> bool" where
  "pt_fine p \<longleftrightarrow> (vf_ready (vf p) \<longrightarrow> pt_ok p)"

definition vmm_ok :: "nat \<Rightarrow> ('f, 'd) vmm \<Rightarrow> bool" where
  "vmm_ok n s \<longleftrightarrow> serial_inv (com1 s) \<and> vio_ok (devs s) \<and> length (notify_regs (devs s)) = n \<and> pt_fine (pci s) \<and>
     length (exit_counts s) = 64"

text \<open>What KVM promises of an exit, and what the drivers and the threads do.\<close>

fun exit_wf :: "vm_exit \<Rightarrow> bool" where
  "exit_wf (ExitIo p w sz cnt data) = (sz \<in> {1, 2, 4} \<and> length data = sz * cnt)"
| "exit_wf (ExitMmio pa w len data) =
     (len \<in> {1, 2, 4, 8} \<and> len dvd unat pa \<and> length data = 8 \<and>
      (\<forall>i. dev_at pa = Some i \<longrightarrow>
         sane_num (pa - (case i of Console \<Rightarrow> VIRTIO_CONSOLE_BASE | Blk \<Rightarrow> VIRTIO_BLK_BASE)) (le_val (take len data))))"
| "exit_wf _ = True"

fun event_wf :: "nat \<Rightarrow> event \<Rightarrow> bool" where
  "event_wf n (Exited x) = exit_wf x"
| "event_wf n (Notified k) = (k < n)"
| "event_wf n (GuestRam m) = mem_wf m"
| "event_wf n _ = True"

text \<open>The one access that may leave guest RAM: a notification of the block device.\<close>

fun blk_notify :: "event \<Rightarrow> bool" where
  "blk_notify (Exited (ExitMmio pa w len data)) = (w \<and> pa = VIRTIO_BLK_BASE + VMMIO_QUEUE_NOTIFY)"
| "blk_notify (Notified k) = True"
| "blk_notify _ = False"

definition same_counts :: "('f, 'd) vmm \<Rightarrow> ('f, 'd) vmm \<Rightarrow> bool" where
  "same_counts s t \<longleftrightarrow> exit_counts t = exit_counts s \<and> stats_out t = stats_out s \<and> stats_requested t = stats_requested s"

lemma same_counts_refl [simp]: "same_counts s s"
  by (simp add: same_counts_def)

lemma same_counts_trans: "same_counts s t \<Longrightarrow> same_counts t u \<Longrightarrow> same_counts s u"
  by (simp add: same_counts_def)

lemma vmm_ok_upd:
  assumes "vmm_ok n s"
  shows "serial_inv c \<Longrightarrow> vmm_ok n (s\<lparr>com1 := c\<rparr>)"
    "pt_fine p \<Longrightarrow> vmm_ok n (s\<lparr>pci := p\<rparr>)"
    "vio_ok v \<Longrightarrow> length (notify_regs v) = n \<Longrightarrow> vmm_ok n (s\<lparr>devs := v\<rparr>)"
    "vmm_ok n (s\<lparr>stats_requested := b\<rparr>)" "vmm_ok n (s\<lparr>stats_out := ss\<rparr>)"
    "length cs = 64 \<Longrightarrow> vmm_ok n (s\<lparr>exit_counts := cs\<rparr>)"
  using assms by (simp_all add: vmm_ok_def)

lemma same_counts_upd [simp]:
  "same_counts s (s\<lparr>com1 := c\<rparr>)" "same_counts s (s\<lparr>pci := p\<rparr>)" "same_counts s (s\<lparr>devs := v\<rparr>)"
  by (simp_all add: same_counts_def)

section \<open>Port exits are total\<close>

lemma store_elem_ok:
  "pos + sz \<le> length data \<Longrightarrow> sz \<in> {1, 2, 4} \<Longrightarrow>
     \<exists>d. store_elem data pos (io_width sz) v = Inr d \<and> length d = length data"
  by (auto simp: store_elem_def io_width_def)

lemma fetch_elem_ok:
  "pos + sz \<le> length data \<Longrightarrow> sz \<in> {1, 2, 4} \<Longrightarrow> n = 1 \<or> n = io_width sz \<Longrightarrow> \<exists>v. fetch_elem data pos n = Inr v"
  by (auto simp: fetch_elem_def io_width_def)

lemma legacy_com1:
  assumes "serial_io port w val (com1 s) = (h1, v1, c1)"
    "(if h1 then (True, v1, c1) else power_io port w v1 c1) = (h, v, c2)"
  shows "legacy_io port w val sz pos data s =
     (if w then Inr (data, s\<lparr>com1 := c2\<rparr>)
      else rbind (store_elem data pos (io_width sz) (if h then ucast v else generic_io_in port sz)) (\<lambda>d. Inr (d, s\<lparr>com1 := c2\<rparr>)))"
  using assms by (simp add: legacy_io_def Let_def)

lemma legacy_io_ok:
  assumes ok: "vmm_ok n s" and pos: "pos + sz \<le> length data" and sz: "sz \<in> {1, 2, 4}"
  shows "\<exists>d t. legacy_io port w val sz pos data s = Inr (d, t) \<and> length d = length data \<and> vmm_ok n t \<and> same_counts s t"
proof -
  obtain h1 v1 c1 where 1: "serial_io port w val (com1 s) = (h1, v1, c1)" by (metis surj_pair)
  obtain h v c2 where 2: "(if h1 then (True, v1, c1) else power_io port w v1 c1) = (h, v, c2)" by (metis surj_pair)
  have "serial_inv c1" using serial_io_inv [of "com1 s" port w val] ok 1 by (simp add: vmm_ok_def)
  then have "serial_inv c2" using power_io_inv [of c1 port w v1] 2 by (auto split: if_splits)
  then have t: "vmm_ok n (s\<lparr>com1 := c2\<rparr>)" by (rule vmm_ok_upd [OF ok])
  show ?thesis
    using t store_elem_ok [OF pos sz, of "if h then ucast v else generic_io_in port sz"]
    by (auto simp: legacy_com1 [OF 1 2])
qed

lemma pci_io_fine:
  assumes "pt_fine p" shows "\<exists>x q. pci_config_io D port w val sz p = Inr (x, q) \<and> pt_fine q"
proof (cases "vf_ready (vf p)")
  case True
  then have "pt_ok p" using assms by (simp add: pt_fine_def)
  from pci_config_io_ok [OF this, of D port w val sz] show ?thesis by (auto simp: pt_fine_def)
next
  case False
  then show ?thesis by (simp add: pci_config_io_def pt_fine_def)
qed

lemma pci_mmio_fine:
  assumes "pt_fine p" "aligned_access (Mmio pa w data)"
  shows "\<exists>x q. handle_pt_mmio D pa w data p = Inr (x, q) \<and> pt_fine q"
proof (cases "vf_ready (vf p)")
  case True
  then have "pt_ok p" using assms by (simp add: pt_fine_def)
  from pt_mmio_ok [OF this assms(2), of D] show ?thesis by (auto simp: pt_fine_def)
next
  case False
  then show ?thesis by (simp add: handle_pt_mmio_def pt_fine_def)
qed

lemma io_elem_ok:
  assumes ok: "vmm_ok n s" and pos: "pos + sz \<le> length data" and sz: "sz \<in> {1, 2, 4}"
  shows "\<exists>d t. io_elem D port w sz pos data s = Inr (d, t) \<and> length d = length data \<and> vmm_ok n t \<and> same_counts s t"
proof -
  obtain byte where byte: "(if w then fetch_elem data pos 1 else Inr 0) = Inr byte"
    using fetch_elem_ok [OF pos sz, of 1] by (cases w) auto
  obtain wv where wv: "(if w then fetch_elem data pos (io_width sz) else Inr 0) = Inr wv"
    using fetch_elem_ok [OF pos sz, of "io_width sz"] by (cases w) auto
  obtain r p1 where p: "pci_config_io D port w wv sz (pci s) = Inr (r, p1)" "pt_fine p1"
    using pci_io_fine [of "pci s" D port w wv sz] ok by (auto simp: vmm_ok_def)
  have s1: "vmm_ok n (s\<lparr>pci := p1\<rparr>)" by (rule vmm_ok_upd [OF ok]) (rule p)
  have legacy: "\<exists>d t. legacy_io port w (ucast byte) sz pos data u = Inr (d, t) \<and> length d = length data \<and> vmm_ok n t \<and> same_counts s t"
    if "vmm_ok n u" "same_counts s u" for u
    using legacy_io_ok [OF that(1) pos sz, of port w "ucast byte"] that(2) same_counts_trans by blast
  show ?thesis
  proof (cases "port = 0xcf8 \<or> (port \<ge> 0xcfc \<and> port < 0xcfc + 4)")
    case True
    show ?thesis
    proof (cases r)
      case None
      with legacy [OF s1] True show ?thesis by (simp add: io_elem_def byte wv p Let_def)
    next
      case (Some v)
      obtain d where "store_elem data pos (io_width sz) v = Inr d" "length d = length data"
        using store_elem_ok [OF pos sz] by blast
      with Some s1 True show ?thesis by (simp add: io_elem_def byte wv p Let_def)
    qed
  next
    case False
    then show ?thesis using legacy [OF ok] by (auto simp: io_elem_def byte Let_def)
  qed
qed

lemma io_elems_ok:
  "vmm_ok n s \<Longrightarrow> sz \<in> {1, 2, 4} \<Longrightarrow> \<forall>i \<in> set is. i * sz + sz \<le> length data \<Longrightarrow>
     \<exists>d t. io_elems D port w sz is data s = Inr (d, t) \<and> length d = length data \<and> vmm_ok n t \<and> same_counts s t"
proof (induction "is" arbitrary: data s)
  case (Cons i "is")
  obtain d1 s1 where 1: "io_elem D port w sz (i * sz) data s = Inr (d1, s1)" "length d1 = length data" "vmm_ok n s1" "same_counts s s1"
    using io_elem_ok [OF Cons.prems(1) _ Cons.prems(2), of "i * sz" data D port w] Cons.prems(3) by auto
  from Cons.IH [OF 1(3) Cons.prems(2), of d1] Cons.prems(3) 1(1,2) same_counts_trans [OF 1(4)] show ?case by fastforce
qed auto

lemma handle_io_ok:
  assumes "vmm_ok n s" "sz \<in> {1, 2, 4}" "length data = sz * cnt"
  shows "\<exists>d t. handle_io D port w sz cnt data s = Inr (d, t) \<and> length d = length data \<and> vmm_ok n t \<and> same_counts s t"
proof -
  have "i * sz + sz \<le> length data" if "i < cnt" for i
    using that assms(3) mult_le_mono1 [of "Suc i" cnt sz] by (simp add: algebra_simps)
  then show ?thesis unfolding handle_io_def by (intro io_elems_ok [OF assms(1,2)]) auto
qed

section \<open>MMIO exits leave only guest RAM\<close>

lemma handle_virtio_regs:
  "handle_virtio_mmio pa len w data v = Inr (hit, data', v') \<Longrightarrow> notify_regs v' = notify_regs v"
  by (auto simp: handle_virtio_mmio_def Let_def rbind_eq_Inr split: option.splits if_splits)

lemma virtio_miss:
  "handle_virtio_mmio pa len w data v = Inr (False, data', v') \<Longrightarrow> data' = data"
  by (auto simp: handle_virtio_mmio_def Let_def rbind_eq_Inr split: option.splits if_splits)

lemma worker_regs:
  "virtio_worker [k] v = Inr v' \<Longrightarrow> notify_regs v' = notify_regs v"
  by (auto simp: rbind_eq_Inr split: if_splits prod.splits)

lemma vio_bases:
  "vio_ok v \<Longrightarrow> vbase (get_dev i v) = (case i of Console \<Rightarrow> VIRTIO_CONSOLE_BASE | Blk \<Rightarrow> VIRTIO_BLK_BASE)"
  by (cases i) (auto simp: vio_ok_def get_dev_def mmio_ok_def dev_static_def)

lemma handle_mmio_ok:
  assumes ok: "vmm_ok n s" and wf: "exit_wf (ExitMmio pa w len data)"
  shows "(handle_mmio D pa w len data s = Inl OutOfBounds \<and> w \<and> pa = VIRTIO_BLK_BASE + VMMIO_QUEUE_NOTIFY) \<or>
    (\<exists>d t. handle_mmio D pa w len data s = Inr (d, t) \<and> vmm_ok n t \<and> same_counts s t)"
proof -
  have v: "vio_ok (devs s)" "length (notify_regs (devs s)) = n" and p: "pt_fine (pci s)"
    using ok by (simp_all add: vmm_ok_def)
  have len: "len \<le> 8" "length data = 8" using wf by auto
  have "\<forall>i. dev_at pa = Some i \<longrightarrow> sane_num (pa - vbase (get_dev i (devs s))) (le_val (take len data))"
    using wf by (simp add: vio_bases [OF v(1)])
  from mmio_step_ok [OF v(1) len this, of w] show ?thesis
  proof (elim disjE exE conjE)
    assume "pa - vbase (vdev_blk (devs s)) = VMMIO_QUEUE_NOTIFY" "handle_virtio_mmio pa len w data (devs s) = Inl OutOfBounds" w
    moreover have "vbase (vdev_blk (devs s)) = VIRTIO_BLK_BASE" using vio_bases [OF v(1), of Blk] by (simp add: get_dev_def)
    ultimately show ?thesis by (auto simp: handle_mmio_def algebra_simps)
  next
    fix hit data' v'
    assume h: "handle_virtio_mmio pa len w data (devs s) = Inr (hit, data', v')" and v': "vio_ok v'"
    have s1: "vmm_ok n (s\<lparr>devs := v'\<rparr>)" by (rule vmm_ok_upd(3) [OF ok v']) (simp add: handle_virtio_regs [OF h] v)
    show ?thesis
    proof (cases hit)
      case True
      with s1 show ?thesis by (simp add: handle_mmio_def h Let_def)
    next
      case False
      then have data': "data' = data" using virtio_miss [of pa len w data "devs s" data' v'] h by simp
      have "length (take len data) = len" using len by simp
      then have "aligned_access (Mmio pa w (take len data))" using wf by auto
      from pci_mmio_fine [OF p this, of D] obtain x q
        where q: "handle_pt_mmio D pa w (take len data) (pci s) = Inr (x, q)" "pt_fine q" by blast
      have "vmm_ok n (s\<lparr>devs := v', pci := q\<rparr>)" using vmm_ok_upd(2) [OF s1 q(2)] by simp
      moreover have "same_counts s (s\<lparr>devs := v', pci := q\<rparr>)" by (simp add: same_counts_def)
      ultimately show ?thesis using False by (auto simp: handle_mmio_def h data' q Let_def split: option.split)
    qed
  qed
qed

section \<open>Every run\<close>

lemma count_exit_ok: "vmm_ok n s \<Longrightarrow> vmm_ok n (count_exit r s)"
  by (simp add: count_exit_def vmm_ok_def)

lemma serve_stats_ok: "vmm_ok n s \<Longrightarrow> vmm_ok n (serve_stats s)"
  by (simp add: serve_stats_def dump_exit_stats_def vmm_ok_def)

lemma on_exit_cases:
  fixes s :: "('f, 'd) vmm"
  defines "u x \<equiv> serve_stats (count_exit (exit_reason x) s)"
  shows "on_exit D (ExitIo p w sz cnt data) s = rbind (handle_io D p w sz cnt data (u (ExitIo p w sz cnt data))) (\<lambda>r. Inr (Continue, r))"
    "on_exit D (ExitMmio pa w len data) s = rbind (handle_mmio D pa w len data (u (ExitMmio pa w len data))) (\<lambda>r. Inr (Continue, r))"
    "on_exit D ExitHlt s = Inr (Continue, [], u ExitHlt)"
    "on_exit D ExitShutdown s = Inr (Return, [], u ExitShutdown)"
    "on_exit D ExitFailEntry s = Inr (Die, [], u ExitFailEntry)"
    "on_exit D ExitInternalError s = Inr (Die, [], u ExitInternalError)"
    "on_exit D (ExitOther q) s = Inr (Continue, [], u (ExitOther q))"
  unfolding u_def on_exit_def Let_def by (simp_all only: vm_exit.case)

lemma on_exit_ok:
  assumes ok: "vmm_ok n s" and wf: "exit_wf x"
  shows "(on_exit D x s = Inl OutOfBounds \<and> blk_notify (Exited x)) \<or>
    (\<exists>c d t. on_exit D x s = Inr (c, d, t) \<and> vmm_ok n t \<and> same_counts (serve_stats (count_exit (exit_reason x) s)) t)"
proof -
  have u: "vmm_ok n (serve_stats (count_exit (exit_reason y) s))" for y by (intro serve_stats_ok count_exit_ok ok)
  show ?thesis
  proof (cases x)
    case (ExitIo p w sz cnt data)
    obtain d t where "handle_io D p w sz cnt data (serve_stats (count_exit (exit_reason x) s)) = Inr (d, t)" "vmm_ok n t"
        "same_counts (serve_stats (count_exit (exit_reason x) s)) t"
      using handle_io_ok [OF u, of sz data cnt D p w x] wf ExitIo by auto
    then show ?thesis by (simp add: ExitIo on_exit_cases del: exit_reason.simps)
  next
    case (ExitMmio pa w len data)
    from handle_mmio_ok [OF u, of pa w len data D x] wf show ?thesis
      by (auto simp: ExitMmio on_exit_cases simp del: exit_reason.simps)
  qed (use u in \<open>simp_all add: on_exit_cases del: exit_reason.simps\<close>)
qed

lemma kvm_run_ok:
  "vmm_ok n s \<Longrightarrow> \<forall>e \<in> set es. event_wf n e \<Longrightarrow>
     (kvm_run D es s = Inl OutOfBounds \<and> (\<exists>e \<in> set es. blk_notify e)) \<or>
     (\<exists>r t. kvm_run D es s = Inr (r, t) \<and> vmm_ok n t)"
proof (induction es arbitrary: s)
  case (Cons e es)
  have tl: "\<forall>e \<in> set es. event_wf n e" using Cons.prems(2) by simp
  note IH = Cons.IH [OF _ tl]
  note ok = Cons.prems(1)
  show ?case
  proof (cases e)
    case (Exited x)
    then have "exit_wf x" using Cons.prems(2) by simp
    from on_exit_ok [OF ok this, of D] show ?thesis
    proof (elim disjE exE conjE)
      assume "on_exit D x s = Inl OutOfBounds" "blk_notify (Exited x)"
      then show ?thesis by (simp add: Exited)
    next
      fix c d t assume t: "on_exit D x s = Inr (c, d, t)" "vmm_ok n t"
      show ?thesis using IH [OF t(2)] t by (cases c) (auto simp: Exited)
    qed
  next
    case Interrupted
    then show ?thesis using IH [OF serve_stats_ok [OF ok]] serve_stats_ok [OF ok] by (auto simp: Let_def)
  next
    case StopSignal
    have "vmm_ok n (s\<lparr>com1 := (com1 s)\<lparr>running := False\<rparr>\<rparr>)"
      by (rule vmm_ok_upd [OF ok]) (use ok in \<open>simp add: vmm_ok_def inv_indep\<close>)
    from IH [OF this] show ?thesis by (auto simp: StopSignal)
  next
    case StatsSignal
    show ?thesis using IH [OF vmm_ok_upd(4) [OF ok, of True]] by (auto simp: StatsSignal)
  next
    case (HostInput bs)
    have "vmm_ok n (s\<lparr>com1 := fold serial_recv_locked bs (com1 s)\<rparr>)"
      by (rule vmm_ok_upd [OF ok]) (use ok in \<open>simp add: vmm_ok_def recv_fold_inv\<close>)
    from IH [OF this] show ?thesis by (auto simp: HostInput)
  next
    case (Notified k)
    have v: "vio_ok (devs s)" "length (notify_regs (devs s)) = n" using ok by (simp_all add: vmm_ok_def)
    have k: "k < n" using Cons.prems(2) Notified by simp
    show ?thesis
    proof (cases "virtio_worker [k] (devs s)")
      case (Inl er)
      obtain i qi where e: "notify_regs (devs s) ! k = (i, qi)" by (metis surj_pair)
      then have "service_vq qi (get_dev i (devs s)) (vsys (devs s)) = Inl er"
        using Inl k v(2) by (simp add: rbind_eq_Inl)
      then have "er = OutOfBounds" using service_static [OF vio_ok_get [OF v(1), of i], of qi] by auto
      with Inl show ?thesis by (simp add: Notified del: virtio_worker.simps)
    next
      case (Inr v')
      have "vmm_ok n (s\<lparr>devs := v'\<rparr>)"
        using worker_step_ok [OF v(1) Inr] worker_regs [OF Inr] v(2) by (intro vmm_ok_upd [OF ok]) auto
      from IH [OF this] show ?thesis by (auto simp: Notified Inr simp del: virtio_worker.simps)
    qed
  next
    case (GuestRam m)
    have "vmm_ok n (s\<lparr>devs := (devs s)\<lparr>vsys := (vsys (devs s))\<lparr>mem := m\<rparr>\<rparr>\<rparr>)"
      by (rule vmm_ok_upd [OF ok])
        (use ok Cons.prems(2) in \<open>auto simp: GuestRam vmm_ok_def vio_ok_def mmio_ok_def dev_ok_def line_ok_def\<close>)
    from IH [OF this] show ?thesis by (auto simp: GuestRam)
  qed (use ok in simp)
qed auto

lemma main_loop_ok:
  "vmm_ok n s \<Longrightarrow> \<forall>e \<in> set es. event_wf n e \<Longrightarrow>
     (run_loop D es s = Inl OutOfBounds \<and> (\<exists>e \<in> set es. blk_notify e)) \<or>
     (\<exists>r t. run_loop D es s = Inr (r, t) \<and> vmm_ok n t)"
  by (simp add: run_loop_def kvm_run_ok)

section \<open>The exit counters\<close>

fun reason_of :: "event \<Rightarrow> nat option" where
  "reason_of (Exited x) = Some (exit_reason x)"
| "reason_of e = None"

definition returns :: "nat \<Rightarrow> event list \<Rightarrow> nat" where
  "returns r es = length (filter (\<lambda>e. reason_of e = Some r) es)"

lemma returns_simps [simp]:
  "returns r [] = 0" "returns r (e # es) = (if reason_of e = Some r then 1 else 0) + returns r es"
  by (simp_all add: returns_def)

lemma legacy_io_counts: "legacy_io port w val sz pos data s = Inr (d, t) \<Longrightarrow> same_counts s t"
  by (auto simp: legacy_io_def Let_def rbind_eq_Inr split: prod.splits if_splits)

lemma same_counts_pci: "same_counts (s\<lparr>pci := p\<rparr>) t \<Longrightarrow> same_counts s t"
  by (simp add: same_counts_def)

lemma io_elem_counts:
  assumes "io_elem D port w sz pos data s = Inr (d, t)"
  shows "same_counts s t"
proof -
  have "(\<exists>v p. legacy_io port w v sz pos data s = Inr (d, t) \<or> legacy_io port w v sz pos data (s\<lparr>pci := p\<rparr>) = Inr (d, t)) \<or>
      (\<exists>p. t = s\<lparr>pci := p\<rparr>)"
    using assms unfolding io_elem_def Let_def
    by (cases w; simp add: rbind_eq_Inr split: if_split_asm option.split_asm; fastforce)
  then show ?thesis by (auto dest: legacy_io_counts same_counts_pci)
qed

lemma io_elems_counts: "io_elems D port w sz is data s = Inr (d, t) \<Longrightarrow> same_counts s t"
  by (induction "is" arbitrary: data s)
    (auto simp: rbind_eq_Inr dest!: io_elem_counts elim: same_counts_trans)

lemma handle_mmio_counts:
  assumes "handle_mmio D pa w len data s = Inr (d, t)"
  shows "same_counts s t"
proof -
  obtain hit data1 v1 where h: "handle_virtio_mmio pa len w data (devs s) = Inr (hit, data1, v1)"
    using assms by (auto simp: handle_mmio_def rbind_eq_Inr)
  show ?thesis
  proof (cases hit)
    case True
    with assms h have "t = s\<lparr>devs := v1\<rparr>" by (simp add: handle_mmio_def Let_def)
    then show ?thesis by simp
  next
    case False
    with assms h obtain r p1 where "handle_pt_mmio D pa w (take len data1) (pci s) = Inr (r, p1)"
      by (auto simp: handle_mmio_def Let_def rbind_eq_Inr)
    with assms h False have "t = s\<lparr>devs := v1, pci := p1\<rparr>" by (cases r) (simp_all add: handle_mmio_def Let_def)
    then show ?thesis by (simp add: same_counts_def)
  qed
qed

lemma on_exit_counts:
  assumes "on_exit D x s = Inr (c, d, t)"
  shows "exit_counts t = exit_counts (count_exit (exit_reason x) s)"
proof -
  have "same_counts (serve_stats (count_exit (exit_reason x) s)) t"
    using assms
    by (cases x) (auto simp: on_exit_cases rbind_eq_Inr handle_io_def simp del: exit_reason.simps
        dest!: io_elems_counts handle_mmio_counts)
  then show ?thesis by (auto simp: same_counts_def serve_stats_def dump_exit_stats_def)
qed

definition counted :: "event list \<Rightarrow> ('f, 'd) vmm \<Rightarrow> ('f, 'd) vmm \<Rightarrow> bool" where
  "counted es s t \<longleftrightarrow> length (exit_counts t) = 64 \<and>
     (\<forall>r < 64. exit_counts t ! r = exit_counts s ! r + of_nat (returns r es))"

lemma counted_refl: "length (exit_counts s) = 64 \<Longrightarrow> exit_counts t = exit_counts s \<Longrightarrow> counted [] s t"
  by (simp add: counted_def)

lemma counted_step:
  "reason_of e = None \<Longrightarrow> exit_counts u = exit_counts s \<Longrightarrow> counted es u t \<Longrightarrow> counted (e # es) s t"
  by (simp add: counted_def)

lemma counted_exit:
  assumes "on_exit D x s = Inr (c, d, u)" "length (exit_counts s) = 64"
  shows "counted [Exited x] s u" "counted es u t \<Longrightarrow> counted (Exited x # es) s t" "length (exit_counts u) = 64"
  using on_exit_counts [OF assms(1)] assms(2)
  by (auto simp: counted_def count_exit_def nth_list_update algebra_simps split: if_splits)

text \<open>A run consumes a prefix of the events, and its counters count the exits of that prefix.\<close>

lemma kvm_run_counts:
  "kvm_run D es s = Inr (r, t) \<Longrightarrow> length (exit_counts s) = 64 \<Longrightarrow>
     \<exists>used rest. es = used @ rest \<and> (r = InKvmRun \<longrightarrow> rest = []) \<and>
       (r \<noteq> InKvmRun \<longrightarrow> (\<forall>fs. kvm_run D (used @ fs) s = Inr (r, t))) \<and> counted used s t"
proof (induction es arbitrary: s)
  case Nil
  then show ?case by (auto simp: counted_refl)
next
  case (Cons e es)
  note len = Cons.prems(2)
  have stop: ?case if "\<And>fs. kvm_run D (e # fs) s = Inr (r, t)" "counted [e] s t" "r \<noteq> InKvmRun"
    using that by (intro exI [of _ "[e]"] exI [of _ es]) simp
  have go: ?case if u: "\<And>fs. kvm_run D (e # fs) s = kvm_run D fs u" "length (exit_counts u) = 64"
      "\<And>es. counted es u t \<Longrightarrow> counted (e # es) s t" for u
  proof -
    have "kvm_run D es u = Inr (r, t)" using Cons.prems(1) u(1) by simp
    from Cons.IH [OF this u(2)] obtain used rest where ur: "es = used @ rest" "r = InKvmRun \<longrightarrow> rest = []"
      "r \<noteq> InKvmRun \<longrightarrow> (\<forall>fs. kvm_run D (used @ fs) u = Inr (r, t))" "counted used u t" by blast
    then show ?thesis
      using u(1,3) by (intro exI [of _ "e # used"] exI [of _ rest]) (simp del: kvm_run.simps)
  qed
  have go': ?case if "\<And>fs. kvm_run D (e # fs) s = kvm_run D fs u" "exit_counts u = exit_counts s" "reason_of e = None" for u
    using that len by (intro go [of u]) (auto intro: counted_step)
  have stop': ?case if "\<And>fs. kvm_run D (e # fs) s = Inr (r, t)" "exit_counts t = exit_counts s" "reason_of e = None" "r \<noteq> InKvmRun"
    using that len by (intro stop) (auto intro: counted_step counted_refl)
  have serve: "exit_counts (serve_stats s) = exit_counts s" by (simp add: serve_stats_def dump_exit_stats_def)
  show ?case
  proof (cases e)
    case (Exited x)
    obtain c d u where u: "on_exit D x s = Inr (c, d, u)" using Cons.prems(1) by (auto simp: Exited rbind_eq_Inr)
    show ?thesis
    proof (cases "c = Continue \<and> running (com1 u)")
      case True
      then show ?thesis using u counted_exit [OF u len] by (intro go [of u]) (simp_all add: Exited)
    next
      case False
      then have "\<And>fs. kvm_run D (e # fs) s = Inr (r, t)" "r \<noteq> InKvmRun" "t = u"
        using Cons.prems(1) u by (cases c; simp add: Exited)+
      then show ?thesis using counted_exit(1) [OF u len] by (intro stop) (simp_all add: Exited)
    qed
  next
    case Interrupted
    show ?thesis
    proof (cases "running (com1 (serve_stats s))")
      case True
      then show ?thesis by (intro go' [of "serve_stats s"]) (simp_all add: Interrupted serve)
    next
      case False
      then show ?thesis using Cons.prems(1) serve by (intro stop') (auto simp: Interrupted)
    qed
  next
    case RunFailed
    then show ?thesis using Cons.prems(1) by (intro stop') auto
  next
    case StopSignal
    then show ?thesis by (intro go' [of "s\<lparr>com1 := (com1 s)\<lparr>running := False\<rparr>\<rparr>"]) simp_all
  next
    case StatsSignal
    then show ?thesis by (intro go' [of "s\<lparr>stats_requested := True\<rparr>"]) simp_all
  next
    case (HostInput bs)
    then show ?thesis by (intro go' [of "s\<lparr>com1 := fold serial_recv_locked bs (com1 s)\<rparr>"]) simp_all
  next
    case (Notified k)
    obtain v where "virtio_worker [k] (devs s) = Inr v"
      using Cons.prems(1) by (auto simp: Notified rbind_eq_Inr simp del: virtio_worker.simps)
    then show ?thesis by (intro go' [of "s\<lparr>devs := v\<rparr>"]) (simp_all add: Notified del: virtio_worker.simps)
  next
    case (GuestRam m)
    then show ?thesis by (intro go' [of "s\<lparr>devs := (devs s)\<lparr>vsys := (vsys (devs s))\<lparr>mem := m\<rparr>\<rparr>\<rparr>"]) simp_all
  qed
qed

text \<open>
  C32. The exit statistics are exact: when the loop ends normally, the dump \<open>main\<close> then makes lists, in order of the
  reason, the number (modulo \<open>2 ^ 64\<close>) of exits with each reason below 64 among the events consumed, and nothing for a
  reason that did not occur; events after the one that ended the loop have no influence.
\<close>

theorem exit_stats_exact:
  assumes "run_loop D es s = Inr (Ended, t)" and "exit_counts s = replicate 64 0"
  shows "\<exists>used rest. es = used @ rest \<and> (\<forall>fs. run_loop D (used @ fs) s = Inr (Ended, t)) \<and>
     last (stats_out (dump_exit_stats t)) =
       filter (\<lambda>(i, n). n \<noteq> 0) (map (\<lambda>r. (r, of_nat (returns r used))) [0..<64])"
proof -
  have "\<exists>used rest. es = used @ rest \<and> (\<forall>fs. run_loop D (used @ fs) s = Inr (Ended, t)) \<and> counted used s t"
  proof (cases "running (com1 s)")
    case True
    then have "kvm_run D es s = Inr (Ended, t)" using assms(1) by (simp add: run_loop_def)
    from kvm_run_counts [OF this] assms(2) obtain used rest
      where "es = used @ rest" "\<forall>fs. kvm_run D (used @ fs) s = Inr (Ended, t)" "counted used s t" by auto
    with True show ?thesis unfolding run_loop_def by (intro exI [of _ used] exI [of _ rest]) simp
  next
    case False
    then show ?thesis using assms by (intro exI [of _ "[]"] exI [of _ es]) (auto simp: run_loop_def intro: counted_refl)
  qed
  then obtain used rest where ur: "es = used @ rest" "\<forall>fs. run_loop D (used @ fs) s = Inr (Ended, t)" "counted used s t"
    by blast
  have "List.enumerate 0 (exit_counts t) = map (\<lambda>r. (r, of_nat (returns r used))) [0..<64]"
    using ur(3) assms(2) by (intro nth_equalityI) (auto simp: counted_def nth_enumerate_eq)
  then show ?thesis using ur(1,2) by (auto simp: dump_exit_stats_def)
qed

section \<open>The boot marker ends the loop\<close>

text \<open>What a byte written to the transmit register does to the line history, the terminal and the loop's flag.\<close>

fun con_step :: "u8 \<Rightarrow> u8 list \<times> u8 list \<times> bool \<Rightarrow> u8 list \<times> u8 list \<times> bool" where
  "con_step b (h, out, r) = (tl h @ [b], out @ [b], r \<and> tl h @ [b] \<noteq> ready_marker)"

definition con_view :: "serial_vm \<Rightarrow> u8 list \<times> u8 list \<times> bool" where
  "con_view c = (hist c, tty c, running c)"

definition tx_on :: "serial_vm \<Rightarrow> bool" where
  "tx_on c \<longleftrightarrow> lcr c AND UART_LCR_DLAB = 0 \<and> mcr c AND UART_MCR_LOOP = 0"

lemma con_fold_len: "length (fst st) = 13 \<Longrightarrow> length (fst (fold con_step bs st)) = 13"
proof (induction bs arbitrary: st)
  case (Cons b bs)
  then show ?case by (cases st) simp
qed simp

lemma con_fold_out: "fst (snd (fold con_step bs st)) = fst (snd st) @ bs"
proof (induction bs arbitrary: st)
  case (Cons b bs)
  then show ?case by (cases st) simp
qed simp

lemma con_fold_off: "\<not> snd (snd st) \<Longrightarrow> \<not> snd (snd (fold con_step bs st))"
proof (induction bs arbitrary: st)
  case (Cons b bs)
  then show ?case by (cases st) simp
qed simp

lemma con_fold_hist:
  "length (fst st) = 13 \<Longrightarrow> fst (fold con_step bs st) = drop (length bs) (fst st @ bs)"
proof (induction bs rule: rev_induct)
  case (snoc b bs)
  obtain h out r where f: "fold con_step bs st = (h, out, r)" by (metis surj_pair)
  then have "h = drop (length bs) (fst st @ bs)" using snoc by simp
  moreover have "length bs < length (fst st @ bs)" using snoc.prems by simp
  ultimately show ?case using f tl_drop_snoc [of "length bs" "fst st @ bs" b]
    by (simp del: drop_append)
qed simp

lemma con_fold_running:
  "bs \<noteq> [] \<Longrightarrow> snd (snd (fold con_step bs st)) \<Longrightarrow> fst (fold con_step bs st) \<noteq> ready_marker"
proof (induction bs rule: rev_induct)
  case (snoc b bs)
  then show ?case by (cases "fold con_step bs st") simp
qed simp

lemma con_marker:
  assumes "length (fst st) = 13"
  shows "\<not> snd (snd (fold con_step (pre @ ready_marker @ post) st))"
proof -
  define st1 where "st1 = fold con_step pre st"
  have m: "length ready_marker = 13" "ready_marker \<noteq> []" by (simp_all add: ready_marker_def)
  have "length (fst st1) = 13" using con_fold_len [OF assms] by (simp add: st1_def)
  then have "fst (fold con_step ready_marker st1) = ready_marker" using con_fold_hist [of st1 ready_marker] m by simp
  then have "\<not> snd (snd (fold con_step ready_marker st1))" using con_fold_running m(2) by blast
  then show ?thesis using con_fold_off by (simp add: st1_def)
qed

lemma serial_tx:
  assumes "tx_on c"
  shows "\<exists>d. serial_io COM1_BASE True b c = (True, b, d) \<and> tx_on d \<and> con_view d = con_step b (con_view c)"
proof -
  have "\<not> (lcr c AND 0x80 \<noteq> 0)" "\<not> (mcr c AND 0x10 \<noteq> 0)" using assms by (simp_all add: tx_on_def)
  then have "serial_io COM1_BASE True b c = (True, b, write_thr b c)" "tx_on (write_thr b c)" "con_view (write_thr b c) = con_step b (con_view c)"
    using assms by (auto simp: serial_io_def serial_write_reg_def Let_def write_thr_def tx_on_def con_view_def console_output_def)
  then show ?thesis by blast
qed

text \<open>The loop stops only where thirteen consecutive bytes, the ones before the run included, spell the marker.\<close>

lemma con_ends:
  "length (fst st) = 13 \<Longrightarrow> snd (snd st) \<Longrightarrow> \<not> snd (snd (fold con_step bs st)) \<Longrightarrow>
     \<exists>pre post. fst st @ bs = pre @ ready_marker @ post"
proof (induction bs rule: rev_induct)
  case (snoc b bs)
  show ?case
  proof (cases "snd (snd (fold con_step bs st))")
    case True
    obtain h out r where f: "fold con_step bs st = (h, out, r)" by (metis surj_pair)
    with True snoc.prems(3) have "fst (fold con_step (bs @ [b]) st) = ready_marker" by simp
    then have "drop (length (bs @ [b])) (fst st @ bs @ [b]) = ready_marker"
      using con_fold_hist [OF snoc.prems(1), of "bs @ [b]"] by (simp del: drop_append)
    then have "fst st @ bs @ [b] = take (length (bs @ [b])) (fst st @ bs @ [b]) @ ready_marker @ []"
      using append_take_drop_id [of "length (bs @ [b])" "fst st @ bs @ [b]"] by (simp del: drop_append take_append)
    then show ?thesis by blast
  next
    case False
    from snoc.IH [OF snoc.prems(1,2) False] obtain pre post where "fst st @ bs = pre @ ready_marker @ post" by blast
    then have "fst st @ bs @ [b] = pre @ ready_marker @ (post @ [b])" by simp
    then show ?thesis by blast
  qed
qed simp

lemma io_elems_tx:
  "tx_on (com1 s) \<Longrightarrow> \<forall>i \<in> set is. i < length data \<Longrightarrow>
     \<exists>c. io_elems D COM1_BASE True 1 is data s = Inr (data, s\<lparr>com1 := c\<rparr>) \<and> tx_on c \<and>
       con_view c = fold con_step (map ((!) data) is) (con_view (com1 s))"
proof (induction "is" arbitrary: s)
  case Nil
  then show ?case by (intro exI [of _ "com1 s"]) simp
next
  case (Cons i "is")
  obtain d where d: "serial_io COM1_BASE True (data ! i) (com1 s) = (True, data ! i, d)" "tx_on d" "con_view d = con_step (data ! i) (con_view (com1 s))"
    using serial_tx [OF Cons.prems(1)] by blast
  have "fetch_elem data i 1 = Inr (ucast (data ! i))"
    using Cons.prems(2) by (simp add: fetch_elem_def take_Suc_conv_app_nth Cons_nth_drop_Suc [symmetric])
  moreover have "ucast (ucast b :: u32) = b" for b :: u8 by (rule bit_word_eqI) (simp add: bit_simps)
  ultimately have e: "io_elem D COM1_BASE True 1 (i * 1) data s = Inr (data, s\<lparr>com1 := d\<rparr>)"
    using d(1) by (simp add: io_elem_def legacy_io_def Let_def)
  have "tx_on (com1 (s\<lparr>com1 := d\<rparr>))" "\<forall>i \<in> set is. i < length data" using d(2) Cons.prems(2) by simp_all
  from Cons.IH [OF this] obtain c where c: "io_elems D COM1_BASE True 1 is data (s\<lparr>com1 := d\<rparr>) = Inr (data, s\<lparr>com1 := c\<rparr>)" "tx_on c"
    "con_view c = fold con_step (map ((!) data) is) (con_view d)" by auto
  have "io_elems D COM1_BASE True 1 (i # is) data s = Inr (data, s\<lparr>com1 := c\<rparr>)"
    unfolding io_elems.simps e by (simp only: rbind_Inr prod.case c(1))
  then show ?case using c(2,3) d(3) by auto
qed

lemma handle_io_tx:
  assumes "tx_on (com1 s)"
  shows "\<exists>c. handle_io D COM1_BASE True 1 (length data) data s = Inr (data, s\<lparr>com1 := c\<rparr>) \<and> tx_on c \<and>
    con_view c = fold con_step data (con_view (com1 s))"
  using io_elems_tx [OF assms, of "[0..<length data]" data D] by (simp add: handle_io_def map_nth)

text \<open>The events of a guest that prints: byte and string writes to the transmit register, with idle exits, signals and input between them.\<close>

fun says :: "event \<Rightarrow> u8 list option" where
  "says (Exited (ExitIo p w sz cnt data)) = (if p = COM1_BASE \<and> w \<and> sz = 1 \<and> cnt = length data then Some data else None)"
| "says (Exited ExitHlt) = Some []"
| "says (Exited (ExitOther r)) = Some []"
| "says Interrupted = Some []"
| "says StatsSignal = Some []"
| "says (HostInput bs) = Some []"
| "says _ = None"

abbreviation said :: "event list \<Rightarrow> u8 list" where
  "said es \<equiv> concat (map (\<lambda>e. the (says e)) es)"

lemma recv_fold_con: "con_view (fold serial_recv_locked bs c) = con_view c \<and> tx_on (fold serial_recv_locked bs c) = tx_on c"
proof (induction bs arbitrary: c)
  case (Cons b bs)
  have "hist (serial_recv_locked b c) = hist c" by (simp add: serial_recv_locked_def)
  then show ?case using Cons.IH [of "serial_recv_locked b c"] by (simp add: con_view_def tx_on_def)
qed simp

lemma count_serve_com1 [simp]: "com1 (serve_stats s) = com1 s" "com1 (count_exit r s) = com1 s"
  by (simp_all add: serve_stats_def dump_exit_stats_def count_exit_def)

lemma says_step:
  assumes e: "says e = Some bs" and s: "tx_on (com1 s)" "running (com1 s)"
  shows "\<exists>u. tx_on (com1 u) \<and> con_view (com1 u) = fold con_step bs (con_view (com1 s)) \<and>
    (\<forall>fs. kvm_run D (e # fs) s = (if running (com1 u) then kvm_run D fs u else Inr (Ended, u)))"
proof (cases e)
  case (Exited x)
  show ?thesis
  proof (cases x)
    case (ExitIo p w sz cnt data)
    then have x: "x = ExitIo COM1_BASE True 1 (length bs) bs" using e Exited by (auto split: if_splits)
    let ?s1 = "serve_stats (count_exit (exit_reason x) s)"
    obtain c where "handle_io D COM1_BASE True 1 (length bs) bs ?s1 = Inr (bs, ?s1\<lparr>com1 := c\<rparr>)" "tx_on c" "con_view c = fold con_step bs (con_view (com1 s))"
      using handle_io_tx [of ?s1 D bs] s by auto
    then show ?thesis
      using on_exit_cases(1) [of D COM1_BASE True 1 "length bs" bs s]
      by (intro exI [of _ "?s1\<lparr>com1 := c\<rparr>"]) (simp add: Exited x del: exit_reason.simps)
  next
    case ExitHlt
    then show ?thesis using e s by (intro exI [of _ "serve_stats (count_exit 5 s)"]) (simp add: Exited on_exit_cases)
  next
    case (ExitOther r)
    then show ?thesis using e s by (intro exI [of _ "serve_stats (count_exit r s)"]) (simp add: Exited on_exit_cases)
  qed (use e Exited in simp_all)
next
  case Interrupted
  then show ?thesis using e s by (intro exI [of _ "serve_stats s"]) (simp add: Let_def)
next
  case StatsSignal
  then show ?thesis using e s by (intro exI [of _ "s\<lparr>stats_requested := True\<rparr>"]) simp
next
  case (HostInput xs)
  have "running (fold serial_recv_locked xs (com1 s))" using recv_fold_con [of xs "com1 s"] s(2) by (simp add: con_view_def)
  then show ?thesis using HostInput e s
    by (intro exI [of _ "s\<lparr>com1 := fold serial_recv_locked xs (com1 s)\<rparr>"]) (simp add: recv_fold_con)
qed (use e in simp_all)

lemma says_run:
  fixes s :: "('f, 'd) vmm"
  assumes "\<forall>e \<in> set es. says e \<noteq> None" "tx_on (com1 s)" "running (com1 s)"
  shows "(\<exists>t k. k \<le> length es \<and> (\<forall>fs. kvm_run D (es @ fs) s = Inr (Ended, t)) \<and>
       con_view (com1 t) = fold con_step (said (take k es)) (con_view (com1 s)) \<and> \<not> running (com1 t)) \<or>
    (\<exists>t :: ('f, 'd) vmm. running (com1 t) \<and> con_view (com1 t) = fold con_step (said es) (con_view (com1 s)))"
  using assms
proof (induction es arbitrary: s)
  case (Cons e es)
  obtain bs where bs: "says e = Some bs" using Cons.prems(1) by auto
  obtain u where u: "tx_on (com1 u)" "con_view (com1 u) = fold con_step bs (con_view (com1 s))"
    "\<And>fs. kvm_run D (e # fs) s = (if running (com1 u) then kvm_run D fs u else Inr (Ended, u))"
    using says_step [OF bs Cons.prems(2,3)] by blast
  show ?case
  proof (cases "running (com1 u)")
    case True
    have "\<forall>e \<in> set es. says e \<noteq> None" using Cons.prems(1) by simp
    from Cons.IH [OF this u(1) True] show ?thesis
    proof (elim disjE exE conjE)
      fix t k assume "k \<le> length es" "\<forall>fs. kvm_run D (es @ fs) u = Inr (Ended, t)" "\<not> running (com1 t)"
        "con_view (com1 t) = fold con_step (said (take k es)) (con_view (com1 u))"
      then show ?thesis using True u(2,3) bs
        by (intro disjI1 exI [of _ t] exI [of _ "Suc k"]) (simp del: kvm_run.simps)
    next
      fix t :: "('f, 'd) vmm" assume "running (com1 t)" "con_view (com1 t) = fold con_step (said es) (con_view (com1 u))"
      then show ?thesis using u(2) bs by auto
    qed
  next
    case False
    then show ?thesis using u(2,3) bs
      by (intro disjI1 exI [of _ u] exI [of _ 1]) (simp del: kvm_run.simps)
  qed
qed auto

text \<open>
  C31. The readiness marker ends the run: when a guest with its transmitter on prints the marker, byte by byte or with
  string instructions, with idle exits, host input, interrupted calls and statistics signals in between, the loop ends by
  itself, whatever would have come later; it ends at an event whose output completes the marker, and the terminal has every
  byte printed up to there.
\<close>

theorem marker_ends_run:
  fixes s :: "('f, 'd) vmm"
  assumes "running (com1 s)" "length (hist (com1 s)) = 13" "tx_on (com1 s)"
    and "\<forall>e \<in> set es. says e \<noteq> None" and "said es = pre @ ready_marker @ post"
  shows "\<exists>t k. k \<le> length es \<and> (\<forall>fs. run_loop D (es @ fs) s = Inr (Ended, t)) \<and>
    tty (com1 t) = tty (com1 s) @ said (take k es) \<and>
    (\<exists>a b. hist (com1 s) @ said (take k es) = a @ ready_marker @ b)"
proof -
  have len: "length (fst (con_view (com1 s))) = 13" using assms(2) by (simp add: con_view_def)
  have "\<not> running (com1 t)" if "con_view (com1 t) = fold con_step (said es) (con_view (com1 s))" for t :: "('f, 'd) vmm"
    using con_marker [OF len, of pre post] that assms(5) by (metis con_view_def snd_conv)
  with says_run [OF assms(4,3,1), of D] obtain t k
    where t: "k \<le> length es" "\<forall>fs. kvm_run D (es @ fs) s = Inr (Ended, t)"
      "con_view (com1 t) = fold con_step (said (take k es)) (con_view (com1 s))" "\<not> running (com1 t)" by blast
  have "tty (com1 t) = tty (com1 s) @ said (take k es)"
    using con_fold_out [of "said (take k es)" "con_view (com1 s)"] t(3) [symmetric] by (simp add: con_view_def)
  moreover have "\<exists>a b. hist (com1 s) @ said (take k es) = a @ ready_marker @ b"
    using con_ends [OF len, of "said (take k es)"] t(3) [symmetric] t(4) assms(1) by (simp add: con_view_def)
  ultimately show ?thesis using t(1,2) assms(1) unfolding run_loop_def by auto
qed

section \<open>Runs of a small machine\<close>

definition ex_vmm :: "(img, unit) vmm" where
  "ex_vmm = \<lparr>com1 = serial_init, devs = ex_vio, pci = pt_power_on () False, exit_counts = replicate 64 0,
     stats_requested = False, stats_out = []\<rparr>"

definition ex_outb :: "u16 \<Rightarrow> u8 list \<Rightarrow> event" where
  "ex_outb p bs = Exited (ExitIo p True 1 (length bs) bs)"

theorem marker_ends_run_witness:
  "\<exists>t k. k \<le> 4 \<and>
     run_loop (ex_dev 4) ([HostInput [0x61], ex_outb 0x3f8 [0x0a], Exited ExitHlt, ex_outb 0x3f8 ready_marker] @ [RunFailed]) ex_vmm = Inr (Ended, t) \<and>
     tty (com1 t) = said (take k [HostInput [0x61], ex_outb 0x3f8 [0x0a], Exited ExitHlt, ex_outb 0x3f8 ready_marker])"
proof -
  let ?es = "[HostInput [0x61], ex_outb 0x3f8 [0x0a], Exited ExitHlt, ex_outb 0x3f8 ready_marker]"
  have s: "running (com1 ex_vmm)" "length (hist (com1 ex_vmm)) = 13" "tx_on (com1 ex_vmm)" and tty: "tty (com1 ex_vmm) = []"
    by (simp_all add: ex_vmm_def serial_init_def tx_on_def)
  have "\<forall>e \<in> set ?es. says e \<noteq> None" "said ?es = [0x0a] @ ready_marker @ []"
    by (simp_all add: ex_outb_def)
  from marker_ends_run [OF s this, of "ex_dev 4"] obtain t k
    where "k \<le> length ?es" "run_loop (ex_dev 4) (?es @ [RunFailed]) ex_vmm = Inr (Ended, t)" "tty (com1 t) = tty (com1 ex_vmm) @ said (take k ?es)"
    by blast
  then show ?thesis unfolding tty by (intro exI [of _ t] exI [of _ k]) simp
qed

definition ex_reset :: "event list" where
  "ex_reset = [Exited ExitHlt, StatsSignal, Exited (ExitOther 70), Exited ExitHlt, ex_outb 0x64 [0xfe], Exited ExitShutdown]"

lemma ex_reset_run: "\<exists>t. run_loop (ex_dev 4) ex_reset ex_vmm = Inr (Ended, t)"
  by (simp add: ex_reset_def ex_outb_def run_loop_def ex_vmm_def serial_init_def on_exit_cases count_exit_def serve_stats_def
      dump_exit_stats_def handle_io_def io_elem_def legacy_io_def fetch_elem_def serial_io_def power_io_def Let_def)

theorem exit_stats_exact_witness:
  "\<exists>t used rest. run_loop (ex_dev 4) ex_reset ex_vmm = Inr (Ended, t) \<and> ex_reset = used @ rest \<and>
     last (stats_out (dump_exit_stats t)) =
       filter (\<lambda>(i, n). n \<noteq> 0) (map (\<lambda>r. (r, of_nat (returns r used))) [0..<64])"
proof -
  obtain t where "run_loop (ex_dev 4) ex_reset ex_vmm = Inr (Ended, t)" using ex_reset_run by blast
  with exit_stats_exact [OF this] show ?thesis by (auto simp: ex_vmm_def)
qed

end
