(* ===== verification/Minivmm.thy ===== *)
theory Minivmm
  imports MpTable Boot RunLoop
begin

text \<open>
  The \<open>main\<close> function of \<open>minivmm.c\<close>: options, guest RAM, the command line that announces the virtio devices, the set-up of
  the VM, the devices and the virtual CPU, and the run.
\<close>

section \<open>Options\<close>

text \<open>
  What \<open>getopt\<close> yields, one constructor per letter; \<open>OptHelp\<close> stands for \<open>-h\<close>, an unknown letter or a missing argument.
\<close>

datatype opt =
    OptKernel string | OptInitrd string | OptMem string | OptCmdline string | OptDisk string
  | OptBlob | OptEventfd | OptPassthrough | OptHelp

record options =
  o_kernel :: "string option"
  o_initrd :: "string option"
  o_mem_mb :: u64
  o_cmdline :: string
  o_disk :: string
  o_blob :: bool
  o_eventfd :: bool
  o_passthrough :: bool

definition default_options :: options where
  "default_options = \<lparr>o_kernel = None, o_initrd = None, o_mem_mb = 256, o_cmdline = ''console=ttyS0 earlyprintk=serial rdinit=/init'',
     o_disk = ''blk.img'', o_blob = False, o_eventfd = False, o_passthrough = False\<rparr>"

text \<open>\<open>strtoul\<close> in base 10: white space, a sign, digits; no digits give 0, too many the largest value.\<close>

definition is_digit :: "char \<Rightarrow> bool" where
  "is_digit c \<longleftrightarrow> c \<in> set ''0123456789''"

definition digit_val :: "char \<Rightarrow> nat" where
  "digit_val c = of_char c - 48"

definition strtoul10 :: "string \<Rightarrow> u64" where
  "strtoul10 s =
     (let s1 = dropWhile (\<lambda>c. c \<in> set [CHR '' '', CHR 0x09, CHR 0x0A, CHR 0x0B, CHR 0x0C, CHR 0x0D]) s;
          neg = (s1 \<noteq> [] \<and> hd s1 = CHR ''-'');
          s2 = (if s1 \<noteq> [] \<and> hd s1 \<in> set ''+-'' then tl s1 else s1);
          v = foldl (\<lambda>n c. 10 * n + digit_val c) 0 (takeWhile is_digit s2)
      in if v \<ge> 2 ^ 64 then - 1 else if neg then - of_nat v else of_nat v)"

fun parse_opts :: "opt list \<Rightarrow> options \<Rightarrow> options boot" where
  "parse_opts [] p = (if \<not> o_blob p \<and> (o_kernel p = None \<or> o_initrd p = None) then Inl (Died Usage) else Inr p)"
| "parse_opts (OptKernel s # os) p = parse_opts os (p\<lparr>o_kernel := Some s\<rparr>)"
| "parse_opts (OptInitrd s # os) p = parse_opts os (p\<lparr>o_initrd := Some s\<rparr>)"
| "parse_opts (OptMem s # os) p = parse_opts os (p\<lparr>o_mem_mb := strtoul10 s\<rparr>)"
| "parse_opts (OptCmdline s # os) p = parse_opts os (p\<lparr>o_cmdline := s\<rparr>)"
| "parse_opts (OptDisk s # os) p = parse_opts os (p\<lparr>o_disk := s\<rparr>)"
| "parse_opts (OptBlob # os) p = parse_opts os (p\<lparr>o_blob := True\<rparr>)"
| "parse_opts (OptEventfd # os) p = parse_opts os (p\<lparr>o_eventfd := True\<rparr>)"
| "parse_opts (OptPassthrough # os) p = parse_opts os (p\<lparr>o_passthrough := True\<rparr>)"
| "parse_opts (OptHelp # os) p = Inl (Died Usage)"

section \<open>The kernel command line\<close>

text \<open>The conversions \<open>%llx\<close> and \<open>%u\<close>.\<close>

function print_base :: "nat \<Rightarrow> nat \<Rightarrow> string" where
  "print_base b n =
     (if b \<le> 1 \<or> n < b then [''0123456789abcdef'' ! n] else print_base b (n div b) @ [''0123456789abcdef'' ! (n mod b)])"
  by auto
termination by (relation "measure snd") auto

definition print_hex :: "u64 \<Rightarrow> string" where
  "print_hex w = print_base 16 (unat w)"

definition print_u32 :: "u32 \<Rightarrow> string" where
  "print_u32 w = print_base 10 (unat w)"

definition device_param :: "u64 \<Rightarrow> u32 \<Rightarrow> string" where
  "device_param base gsi =
     '' virtio_mmio.device=0x'' @ print_hex VIRTIO_REGION_SIZE @ ''@0x'' @ print_hex base @ '':'' @ print_u32 gsi"

text \<open>\<open>snprintf\<close> keeps what fits in the 4096 bytes of the buffer, the final zero included.\<close>

definition full_cmdline :: "string \<Rightarrow> string" where
  "full_cmdline c = take 4095 (c @ device_param VIRTIO_CONSOLE_BASE 5 @ device_param VIRTIO_BLK_BASE 6)"

section \<open>Start\<close>

text \<open>
  The host as the program sees it: files as \<open>read_file\<close> sees them, the disk image, answers of \<open>mmap\<close>, KVM, VFIO, the
  environment and \<open>pthread_create\<close>, and the bytes a variable without initialiser holds.
\<close>

record ('f, 'd) host =
  h_file :: "string \<Rightarrow> (nat \<times> u8 list option list) option"
  h_blk :: "string \<Rightarrow> int option \<times> bool \<times> bool \<times> (int \<Rightarrow> int)"
  h_disk :: "string \<Rightarrow> 'f"
  h_no_disk :: 'f
  h_fops :: "'f file_ops"
  h_stack :: "u8 list"
  h_mmap :: bool
  h_kvm :: "kvm_call \<Rightarrow> bool"
  h_cpuid :: "cpuid_entry list"
  h_sregs :: kvm_sregs
  h_msix_slow :: bool
  h_dev :: "'d dev_ops"
  h_dev0 :: 'd
  h_regions :: "nat \<times> (nat \<Rightarrow> vregion option)"
  h_threads :: bool

definition ram_of :: "u64 \<Rightarrow> cbuf" where
  "ram_of sz = \<lparr>bsize = unat sz, bdata = (\<lambda>_. 0)\<rparr>"

definition devs_off :: "('f, 'd) host \<Rightarrow> bool \<Rightarrow> 'f \<Rightarrow> cbuf \<Rightarrow> 'f vio" where
  "devs_off H evfd f m =
     \<lparr>vdev_console = console_init, vdev_blk = blk_init,
      vsys = \<lparr>mem = m, con = \<lparr>cbuffer = (\<lambda>_. 0), chead = 0, ctail = 0\<rparr>, vtty = [], disk = f, fops = h_fops H,
        hdr_stack = h_stack H, use_eventfd = evfd, virq_calls = [], pulses = []\<rparr>,
      notify_regs = []\<rparr>"

definition blk_attach :: "('f, 'd) host \<Rightarrow> string \<Rightarrow> 'f vio \<Rightarrow> 'f vio boot" where
  "blk_attach H path v =
     (case h_blk H path of (existing, created, truncated, seek) \<Rightarrow>
        case blk_open existing created truncated seek (vdev_blk v) of
          None \<Rightarrow> Inl (Died DiskError) | Some d \<Rightarrow> Inr (v\<lparr>vdev_blk := d\<rparr>))"

definition eventfds_attach :: "bool \<Rightarrow> 'f vio \<Rightarrow> 'f vio boot" where
  "eventfds_attach on v =
     (if on then (case virtio_eventfds_setup v of None \<Rightarrow> Inl (Died TooManyQueues) | Some v1 \<Rightarrow> Inr v1) else Inr v)"

definition set_ram :: "cbuf \<Rightarrow> 'f vio \<Rightarrow> 'f vio" where
  "set_ram m v = v\<lparr>vsys := (vsys v)\<lparr>mem := m\<rparr>\<rparr>"

definition passthrough_attach :: "('f, 'd) host \<Rightarrow> bool \<Rightarrow> cbuf \<Rightarrow> (cbuf \<times> 'd pt) boot" where
  "passthrough_attach H on m =
     (let off = pt_power_on (h_dev0 H) (h_msix_slow H) in
      if on then
        rbind (lift (build_mptable m)) (\<lambda>m1.
        rbind (lift (vfio_setup (h_dev H) (fst (h_regions H)) (snd (h_regions H)) off)) (\<lambda>p. Inr (m1, p)))
      else Inr (m, off))"

text \<open>The machine before the virtual CPU exists: the image, the devices with guest RAM, and the PCI side.\<close>

definition machine_setup :: "('f, 'd) host \<Rightarrow> options \<Rightarrow> cbuf \<Rightarrow> (boot_image \<times> 'f vio \<times> 'd pt) boot" where
  "machine_setup H p m =
     (if o_blob p then
        rbind (load_selftest_blob m) (\<lambda>(entry, m1).
        rbind (build_gdt m1) (\<lambda>m2.
          Inr (\<lparr>kernel_gpa = entry, initrd_gpa = 0, initrd_size = 0\<rparr>, devs_off H (o_eventfd p) (h_no_disk H) m2,
            pt_power_on (h_dev0 H) (h_msix_slow H))))
      else
        rbind (blk_attach H (o_disk p) (devs_off H (o_eventfd p) (h_disk H (o_disk p)) m)) (\<lambda>v.
        rbind (eventfds_attach (o_eventfd p) v) (\<lambda>v1.
        rbind (load_bzimage_files (h_file H (the (o_kernel p))) (h_file H (the (o_initrd p)))
                 (map of_char (full_cmdline (o_cmdline p))) m) (\<lambda>(img, m1).
        rbind (passthrough_attach H (o_passthrough p) m1) (\<lambda>(m2, pt).
          Inr (img, set_ram m2 v1, pt))))))"

definition main_start :: "('f, 'd) host \<Rightarrow> opt list \<Rightarrow> (kvm_call list \<times> ('f, 'd) vmm) boot" where
  "main_start H args =
     rbind (parse_opts args default_options) (\<lambda>p.
     let sz = push_bit 20 (o_mem_mb p) :: u64 in
     if sz < 64 * 2 ^ 20 then Inl (Died MemTooSmall)
     else if \<not> h_mmap H then Inl (Died MapFailed)
     else
       rbind (vm_setup (h_kvm H) (ram_of sz)) (\<lambda>c1.
       rbind (machine_setup H p (ram_of sz)) (\<lambda>(img, v, pt).
       rbind (vcpu_setup (h_kvm H) (h_cpuid H) (h_sregs H) img) (\<lambda>c2.
       if \<not> h_threads H then Inl (Died ThreadFailed)
       else Inr (c1 @ c2, \<lparr>com1 = serial_init, devs = v, pci = pt, exit_counts = replicate 64 0,
         stats_requested = False, stats_out = []\<rparr>)))))"

text \<open>The run and what follows it; a loop that dies does not come back.\<close>

definition main_run :: "('f, 'd) host \<Rightarrow> opt list \<Rightarrow> event list \<Rightarrow> (loop_end \<times> ('f, 'd) vmm) boot" where
  "main_run H args es =
     rbind (main_start H args) (\<lambda>(calls, s).
     rbind (lift (run_loop (h_dev H) es s)) (\<lambda>(r, t).
       Inr (r, if r = Ended then (dump_exit_stats t)\<lparr>com1 := (com1 t)\<lparr>running := False\<rparr>\<rparr> else t)))"

section \<open>Guest RAM keeps its size\<close>

lemma buf_write_bsize: "buf_write b off xs = Inr b' \<Longrightarrow> bsize b' = bsize b"
  by (auto simp: buf_simps)

lemma lift_Inr [simp]: "lift r = Inr x \<longleftrightarrow> r = Inr x"
  by (cases r) auto

lemma st_bsize:
  "st16 b off w = Inr b' \<Longrightarrow> bsize b' = bsize b" "st32 b off v = Inr b' \<Longrightarrow> bsize b' = bsize b"
  "st64 b off x = Inr b' \<Longrightarrow> bsize b' = bsize b"
  by (auto simp: st16_def st32_def st64_def dest: buf_write_bsize)

lemmas bsizes = buf_write_bsize st_bsize

lemma build_gdt_bsize: "build_gdt m = Inr m' \<Longrightarrow> bsize m' = bsize m"
  by (auto simp: build_gdt_def rbind_eq_Inr dest!: bsizes)

lemma put_e820_bsize: "put_e820 m i a s = Inr m' \<Longrightarrow> bsize m' = bsize m"
  by (auto simp: put_e820_def rbind_eq_Inr dest!: bsizes)

lemma load_initrd_bsize: "load_initrd i a n m = Inr (g, m') \<Longrightarrow> bsize m' = bsize m"
  by (auto simp: load_initrd_def Let_def rbind_eq_Inr split: if_splits dest!: bsizes)

lemma load_cmdline_bsize: "load_cmdline c v m = Inr m' \<Longrightarrow> bsize m' = bsize m"
  by (auto simp: load_cmdline_def rbind_eq_Inr split: if_splits dest!: bsizes)

lemma load_kernel_bsize: "load_kernel k l v m = Inr (a, n, m') \<Longrightarrow> bsize m' = bsize m"
  by (auto simp: load_kernel_def Let_def rbind_eq_Inr split: if_split_asm dest!: bsizes)

lemma load_header_bsize: "load_header k m = Inr (l, v, m') \<Longrightarrow> bsize m' = bsize m"
  by (auto simp: load_header_def Let_def rbind_eq_Inr split: if_split_asm dest!: bsizes)

lemma load_bzimage_bsize: "load_bzimage_files k i c m = Inr (img, m') \<Longrightarrow> bsize m' = bsize m"
  by (auto simp: load_bzimage_files_def load_bzimage_with_def rbind_eq_Inr
      dest!: bsizes build_gdt_bsize put_e820_bsize load_initrd_bsize load_cmdline_bsize load_kernel_bsize load_header_bsize)

lemma build_mptable_bsize:
  assumes "0xa0000 \<le> bsize m" "build_mptable m = Inr m'"
  shows "bsize m' = bsize m"
proof -
  have "m' = m\<lparr>bdata := bytes_upd (bytes_upd (bdata m) MP_TABLE_GPA mp_table_bytes) MP_FLOAT_GPA mp_float_bytes\<rparr>"
    using assms(2) build_mptable_eq [OF assms(1)] by simp
  then show ?thesis by simp
qed

section \<open>The state at the start\<close>

lemma devs_off_ok: "mem_wf m \<Longrightarrow> vio_ok (devs_off H e f m) \<and> notify_regs (devs_off H e f m) = []"
  by (simp add: devs_off_def vio_ok_def mmio_ok_def dev_ok_def dev_static_def line_ok_def console_init_def blk_init_def vq_zero_def)

lemma blk_attach_ok:
  assumes "blk_attach H path v = Inr v'" "vio_ok v"
  shows "vio_ok v' \<and> notify_regs v' = notify_regs v \<and> vdev_console v' = vdev_console v \<and> nqueues (vdev_blk v') = nqueues (vdev_blk v) \<and> vsys v' = vsys v"
proof -
  have "length (config (vdev_blk v)) = 64" using assms(2) by (simp add: vio_ok_def mmio_ok_def dev_static_def)
  then obtain cfg where "v' = v\<lparr>vdev_blk := (vdev_blk v)\<lparr>config := cfg\<rparr>\<rparr>" "length cfg = 64"
    using assms(1) by (auto simp: blk_attach_def split: prod.splits option.splits dest!: blk_open_config)
  then show ?thesis using assms(2) by (auto simp: vio_ok_def mmio_ok_def dev_static_def dev_ok_def line_ok_def)
qed

lemma eventfds_attach_ok:
  assumes "eventfds_attach b v = Inr v'" "vio_ok v" "notify_regs v = []"
  shows "vio_ok v' \<and> length (notify_regs v') = (if b then 3 else 0) \<and> vsys v' = vsys v"
proof (cases b)
  case True
  then obtain v1 where v: "virtio_eventfds_setup v = Some v1" "v' = v1"
    using assms(1) by (auto simp: eventfds_attach_def split: option.splits)
  have "nqueues (vdev_console v) = 2" "nqueues (vdev_blk v) = 1"
    using assms(2) by (simp_all add: vio_ok_def mmio_ok_def dev_static_def)
  then show ?thesis using eventfds_devs [OF v(1)] v(2) assms(2,3) True by (simp add: vio_ok_def)
qed (use assms in \<open>simp add: eventfds_attach_def\<close>)

lemma set_ram_ok: "vio_ok v \<Longrightarrow> mem_wf m \<Longrightarrow> vio_ok (set_ram m v) \<and> notify_regs (set_ram m v) = notify_regs v"
  by (auto simp: set_ram_def vio_ok_def mmio_ok_def dev_ok_def line_ok_def)

lemma vfio_regions:
  assumes "vfio_setup D num info s = Inr t"
  shows "num > 7 \<and> (\<exists>c. info 7 = Some c)"
  using assms by (auto simp: vfio_setup_def Let_def with_region_def split: option.splits if_split_asm)

lemma passthrough_attach_ok:
  assumes "passthrough_attach H on m = Inr (m', p)" "0xa0000 \<le> bsize m" "\<forall>b r. snd (h_regions H) b = Some r \<longrightarrow> r_size r < 2 ^ 63"
    and "msix_nr (vf p) \<le> 32"
  shows "bsize m' = bsize m \<and> pt_fine p"
proof (cases on)
  case True
  then have p: "build_mptable m = Inr m'"
      "vfio_setup (h_dev H) (fst (h_regions H)) (snd (h_regions H)) (pt_power_on (h_dev0 H) (h_msix_slow H)) = Inr p"
    using assms(1) by (auto simp: passthrough_attach_def Let_def rbind_eq_Inr)
  obtain c where "fst (h_regions H) > 7" "snd (h_regions H) 7 = Some c" using vfio_regions [OF p(2)] by blast
  from vfio_setup_wf [where D = "h_dev H" and d = "h_dev0 H" and slow = "h_msix_slow H" and num = "fst (h_regions H)" and info = "snd (h_regions H)", OF this] assms(3) p(2)
  have "vf_wf (vf p) \<and> vf_ready (vf p) \<and> \<not> msix_routing_done (vf p)" by auto
  then show ?thesis using build_mptable_bsize [OF assms(2) p(1)] assms(4) by (simp add: pt_fine_def pt_ok_def pt_wf_def routed_def)
qed (use assms in \<open>auto simp: passthrough_attach_def Let_def pt_fine_def pt_power_on_def zero_vf_def\<close>)

lemma power_on_fine: "pt_fine (pt_power_on d slow)"
  by (simp add: pt_fine_def pt_power_on_def zero_vf_def)

lemma machine_setup_ok:
  assumes "machine_setup H p m = Inr (img, v, pt)" "0xa0000 \<le> bsize m" "mem_wf m"
    and "\<forall>b r. snd (h_regions H) b = Some r \<longrightarrow> r_size r < 2 ^ 63" "msix_nr (vf pt) \<le> 32"
  shows "vio_ok v \<and> length (notify_regs v) = (if o_eventfd p \<and> \<not> o_blob p then 3 else 0) \<and> bsize (mem (vsys v)) = bsize m \<and> pt_fine pt"
proof (cases "o_blob p")
  case True
  then obtain m1 m2 where "buf_write m 0x100000 selftest_blob = Inr m1" "build_gdt m1 = Inr m2"
      and v: "v = devs_off H (o_eventfd p) (h_no_disk H) m2" "pt = pt_power_on (h_dev0 H) (h_msix_slow H)"
    using assms(1) by (auto simp: machine_setup_def load_selftest_blob_def rbind_eq_Inr)
  then have b: "bsize m2 = bsize m" using buf_write_bsize build_gdt_bsize by metis
  then have "mem_wf m2" using assms(3) by (simp add: mem_wf_def)
  then have "vio_ok v \<and> notify_regs v = []" unfolding v by (rule devs_off_ok)
  moreover have "pt_fine pt" unfolding v by (rule power_on_fine)
  ultimately show ?thesis using True b by (simp add: v devs_off_def)
next
  case False
  let ?v0 = "devs_off H (o_eventfd p) (h_disk H (o_disk p)) m"
  obtain va vb m1 m2 where va: "blk_attach H (o_disk p) ?v0 = Inr va"
      and vb: "eventfds_attach (o_eventfd p) va = Inr vb"
      and m1: "load_bzimage_files (h_file H (the (o_kernel p))) (h_file H (the (o_initrd p))) (map of_char (full_cmdline (o_cmdline p))) m = Inr (img, m1)"
      and m2: "passthrough_attach H (o_passthrough p) m1 = Inr (m2, pt)" and v: "v = set_ram m2 vb"
    using assms(1) False by (auto simp: machine_setup_def rbind_eq_Inr)
  have b1: "bsize m1 = bsize m" by (rule load_bzimage_bsize [OF m1])
  have 2: "bsize m2 = bsize m1 \<and> pt_fine pt"
    by (rule passthrough_attach_ok [OF m2 _ assms(4,5)]) (use b1 assms(2) in simp)
  have w2: "mem_wf m2" using 2 b1 assms(3) by (simp add: mem_wf_def)
  have 0: "vio_ok ?v0" "notify_regs ?v0 = []" using devs_off_ok [OF assms(3), of H "o_eventfd p" "h_disk H (o_disk p)"] by simp_all
  have a: "vio_ok va" "notify_regs va = []" using blk_attach_ok [OF va 0(1)] 0(2) by simp_all
  from eventfds_attach_ok [OF vb a] set_ram_ok [OF _ w2, of vb] show ?thesis
    using False 2 b1 by (simp add: v) (simp add: set_ram_def)
qed

definition ram_bytes :: "options \<Rightarrow> nat" where
  "ram_bytes p = unat (push_bit 20 (o_mem_mb p))"

lemma main_start_ok:
  assumes "main_start H args = Inr (calls, s)" "\<forall>b r. snd (h_regions H) b = Some r \<longrightarrow> r_size r < 2 ^ 63" "msix_nr (vf (pci s)) \<le> 32"
  shows "\<exists>p. parse_opts args default_options = Inr p \<and> vmm_ok (if o_eventfd p \<and> \<not> o_blob p then 3 else 0) s \<and> running (com1 s) \<and>
    bsize (mem (vsys (devs s))) = ram_bytes p \<and> 64 * 2 ^ 20 \<le> ram_bytes p"
proof -
  obtain p img v pt where p: "parse_opts args default_options = Inr p" and sz: "\<not> push_bit 20 (o_mem_mb p) < 64 * 2 ^ 20"
    and m: "machine_setup H p (ram_of (push_bit 20 (o_mem_mb p))) = Inr (img, v, pt)"
    and s: "s = \<lparr>com1 = serial_init, devs = v, pci = pt, exit_counts = replicate 64 0, stats_requested = False, stats_out = []\<rparr>"
    using assms(1) by (auto simp: main_start_def Let_def rbind_eq_Inr split: if_split_asm)
  let ?m = "ram_of (push_bit 20 (o_mem_mb p))"
  have big: "64 * 2 ^ 20 \<le> ram_bytes p" using sz by (simp add: ram_bytes_def word_less_nat_alt)
  have b: "bsize ?m = ram_bytes p" by (simp add: ram_of_def ram_bytes_def)
  have "mem_wf ?m" unfolding mem_wf_def b ram_bytes_def by (rule unat_lt64)
  with machine_setup_ok [OF m _ _ assms(2)] big b assms(3) s
  have "vio_ok v \<and> length (notify_regs v) = (if o_eventfd p \<and> \<not> o_blob p then 3 else 0) \<and> bsize (mem (vsys v)) = ram_bytes p \<and> pt_fine pt"
    by simp
  moreover have "serial_inv serial_init" by (rule serial_init_inv)
  ultimately show ?thesis using p big by (simp add: s vmm_ok_def) (simp add: serial_init_def)
qed


section \<open>The command line announces the devices\<close>

text \<open>
  The reader's side, as the kernel documents it: words separated by spaces, and a parameter
  \<open>virtio_mmio.device=<size>@<baseaddr>:<irq>\<close> with numbers in C notation.
\<close>

fun words :: "string \<Rightarrow> string list" where
  "words [] = [[]]"
| "words (c # cs) = (if c = CHR '' '' then [] # words cs else (case words cs of w # ws \<Rightarrow> (c # w) # ws | [] \<Rightarrow> [[c]]))"

definition hex_val :: "char \<Rightarrow> nat option" where
  "hex_val c = map_of (zip ''0123456789abcdef'' [0..<16]) c"

fun scan_base :: "nat \<Rightarrow> nat \<Rightarrow> string \<Rightarrow> nat \<times> string" where
  "scan_base b acc [] = (acc, [])"
| "scan_base b acc (c # cs) =
     (case hex_val c of Some d \<Rightarrow> if d < b then scan_base b (b * acc + d) cs else (acc, c # cs) | None \<Rightarrow> (acc, c # cs))"

definition scan_num :: "string \<Rightarrow> nat \<times> string" where
  "scan_num s = (if take 2 s = ''0x'' then scan_base 16 0 (drop 2 s) else scan_base 10 0 s)"

definition parse_device :: "string \<Rightarrow> (nat \<times> nat \<times> nat) option" where
  "parse_device w =
     (if take 19 w = ''virtio_mmio.device='' then
        (case scan_num (drop 19 w) of (sz, r1) \<Rightarrow>
           if r1 \<noteq> [] \<and> hd r1 = CHR ''@'' then
             (case scan_num (tl r1) of (base, r2) \<Rightarrow>
                if r2 \<noteq> [] \<and> hd r2 = CHR '':'' then (case scan_num (tl r2) of (irq, r3) \<Rightarrow> if tl r2 \<noteq> [] \<and> r3 = [] then Some (sz, base, irq) else None)
                else None)
           else None)
      else None)"

definition find_devices :: "string \<Rightarrow> (nat \<times> nat \<times> nat) list" where
  "find_devices s = List.map_filter parse_device (words s)"

lemma words_ne: "words s \<noteq> []"
  by (induction s) (auto split: list.splits)

lemma words_space: "words (s @ CHR '' '' # t) = words s @ words t"
proof (induction s)
  case (Cons c cs)
  then show ?case using words_ne [of cs] by (auto split: list.splits)
qed simp

lemma device_params:
  "device_param VIRTIO_CONSOLE_BASE 5 = '' virtio_mmio.device=0x200@0xd0000000:5''"
  "device_param VIRTIO_BLK_BASE 6 = '' virtio_mmio.device=0x200@0xd0000200:6''"
  by (simp_all add: device_param_def print_hex_def print_u32_def)

lemma full_cmdline_is:
  "full_cmdline c = take 4095 (c @ '' virtio_mmio.device=0x200@0xd0000000:5'' @ '' virtio_mmio.device=0x200@0xd0000200:6'')"
  by (simp add: full_cmdline_def device_params)

lemma find_devices_append: "find_devices (s @ CHR '' '' # t) = find_devices s @ find_devices t"
  by (simp add: find_devices_def words_space map_filter_def)

lemma find_params:
  "find_devices ''virtio_mmio.device=0x200@0xd0000000:5'' = [(0x200, 0xd0000000, 5)]"
  "find_devices ''virtio_mmio.device=0x200@0xd0000200:6'' = [(0x200, 0xd0000200, 6)]"
  "find_devices ''virtio_mmio.device=0x200@0xd0000200:'' = []"
  by (simp_all add: find_devices_def map_filter_def parse_device_def scan_num_def hex_val_def upt_conv_Cons)

text \<open>
  C33. The kernel finds the devices the monitor emulates: for a command line of at most 4019 characters the guest's parser reads
  back, after whatever devices the user named, exactly the two windows with the addresses and interrupt lines of the device
  models; and the 4095 characters the buffer keeps always pass the check of the loader.
\<close>

theorem cmdline_announces_devices:
  assumes "length c \<le> 4019"
  shows "find_devices (full_cmdline c) = find_devices c @
      [(0x200, unat (vbase console_init), unat (vgsi console_init)), (0x200, unat (vbase blk_init), unat (vgsi blk_init))] \<and>
    load_cmdline (map of_char (full_cmdline c)) version m \<noteq> Inl (Died CmdlineTooLong)"
proof -
  have f: "full_cmdline c = c @ CHR '' '' # ''virtio_mmio.device=0x200@0xd0000000:5'' @ CHR '' '' # ''virtio_mmio.device=0x200@0xd0000200:6''"
    using assms by (simp add: full_cmdline_is)
  have "find_devices (full_cmdline c) = find_devices c @ [(0x200, 0xd0000000, 5)] @ [(0x200, 0xd0000200, 6)]"
    unfolding f find_devices_append find_params by (rule refl)
  moreover have "length (full_cmdline c) \<le> 4095" by (simp add: full_cmdline_is)
  ultimately show ?thesis
    by (auto simp: console_init_def blk_init_def load_cmdline_def lift_def rbind_eq_Inl split: sum.splits if_splits)
qed

theorem cmdline_announces_devices_witness:
  "find_devices (full_cmdline (o_cmdline default_options)) = [(0x200, 0xd0000000, 5), (0x200, 0xd0000200, 6)]"
proof -
  have l: "length (o_cmdline default_options) \<le> 4019" by (simp add: default_options_def)
  have "find_devices (o_cmdline default_options) = []"
    by (simp add: default_options_def find_devices_def map_filter_def parse_device_def)
  with cmdline_announces_devices [OF l] show ?thesis by (simp add: console_init_def blk_init_def)
qed

text \<open>One character more and the block device is lost without a message: the check of the loader comes after the truncation.\<close>

lemma cmdline_drops_device:
  assumes "length c = 4020"
  shows "find_devices (full_cmdline c) = find_devices c @ [(0x200, 0xd0000000, 5)]"
proof -
  have f: "full_cmdline c = c @ CHR '' '' # ''virtio_mmio.device=0x200@0xd0000000:5'' @ CHR '' '' # ''virtio_mmio.device=0x200@0xd0000200:''"
    using assms by (simp add: full_cmdline_is)
  show ?thesis unfolding f find_devices_append find_params by simp
qed

section \<open>A complete run\<close>

definition ex_host :: "(img, unit) host" where
  "ex_host = \<lparr>h_file = (\<lambda>n. if n = ''bzImage'' then Some (0x410, [Some (ex_image 1 16)]) else if n = ''initrd'' then Some (3, [Some [1], Some [2, 3]]) else None),
     h_blk = (\<lambda>p. (None, True, True, (\<lambda>n. n))), h_disk = (\<lambda>p. ex_img), h_no_disk = ex_img, h_fops = img_ops, h_stack = replicate 16 0,
     h_mmap = True, h_kvm = (\<lambda>c. True), h_cpuid = [cpuid_zero\<lparr>c_function := 1\<rparr>],
     h_sregs = \<lparr>r_cs = no_segment, r_ds = no_segment, r_es = no_segment, r_fs = no_segment, r_gs = no_segment, r_ss = no_segment,
       r_tr = no_segment, r_ldt = no_segment, gdt_base = 0, gdt_limit = 0, idt_base = 0, idt_limit = 0, cr0 = 0x60000010, cr3 = 0, cr4 = 0, efer = 0\<rparr>,
     h_msix_slow = False, h_dev = ex_dev 4, h_dev0 = (), h_regions = (9, ex_info), h_threads = True\<rparr>"

definition ex_args :: "opt list" where
  "ex_args = [OptKernel ''bzImage'', OptInitrd ''initrd'', OptMem '' 64'', OptCmdline ''console=ttyS0'', OptEventfd, OptPassthrough]"

definition ex_options :: options where
  "ex_options = \<lparr>o_kernel = Some ''bzImage'', o_initrd = Some ''initrd'', o_mem_mb = 64, o_cmdline = ''console=ttyS0'', o_disk = ''blk.img'',
     o_blob = False, o_eventfd = True, o_passthrough = True\<rparr>"

lemma ex_parse: "parse_opts ex_args default_options = Inr ex_options"
  by (simp add: ex_args_def ex_options_def default_options_def strtoul10_def is_digit_def digit_val_def)

lemma ex_loads: "\<exists>img m. load_bzimage_files (h_file ex_host ''bzImage'') (h_file ex_host ''initrd'') (map of_char (full_cmdline ''console=ttyS0'')) ex_ram = Inr (img, m)"
proof -
  have i: "read_file (h_file ex_host ''initrd'') = Inr [1, 2, 3]" by (simp add: ex_host_def read_file_def)
  have k: "read_file (h_file ex_host ''bzImage'') = Inr (ex_image 1 16)" by (simp add: ex_host_def read_file_def ex_image_facts) (simp add: ex_image_def)
  have "bootable (ex_image 1 16) [1, 2, 3] (map of_char (full_cmdline ''console=ttyS0'')) ex_ram"
    using ex_image_valid [of 16 1] by (simp add: bootable_def ex_image_facts initrd_place_def full_cmdline_is)
  from load_bzimage_ok [OF this] i k show ?thesis by (auto simp: load_bzimage_files_def load_bzimage_def)
qed

lemma ex_cpuid: "\<exists>es. setup_cpuid (h_cpuid ex_host) = Inr es"
proof -
  have "length (h_cpuid ex_host) = 1" by (simp add: ex_host_def)
  then show ?thesis
    by (cases "\<exists>e \<in> set (map fix_leaf (h_cpuid ex_host)). c_function e = 0x40000000";
        cases "\<exists>e \<in> set (map fix_leaf (h_cpuid ex_host)). c_function e = 0x40000001")
      (simp_all add: setup_cpuid_def cpuid_add_def Let_def)
qed

lemma ex_start:
  "\<exists>calls s. main_start ex_host ex_args = Inr (calls, s) \<and> msix_nr (vf (pci s)) = 4 \<and> length (notify_regs (devs s)) = 3"
proof -
  obtain img m where l: "load_bzimage_files (h_file ex_host ''bzImage'') (h_file ex_host ''initrd'') (map of_char (full_cmdline ''console=ttyS0'')) ex_ram = Inr (img, m)"
    using ex_loads by blast
  have sz: "(push_bit 20 64 :: u64) = 0x4000000" by simp
  have r: "ram_of 0x4000000 = ex_ram" by (simp add: ram_of_def)
  have k: "issue (h_kvm ex_host) cs = Inr cs" for cs by (induction cs) (simp_all add: ex_host_def)
  have "bsize m = 0x4000000" using load_bzimage_bsize [OF l] by simp
  then obtain m2 where b: "build_mptable m = Inr m2" using build_mptable_eq [of m] by simp
  have pt: "passthrough_attach ex_host True m = Inr (m2, ex_pt 4)"
    using b ex_setup [of 4] by (simp add: passthrough_attach_def ex_host_def)
  let ?v0 = "devs_off ex_host True ex_img ex_ram"
  obtain va where va: "blk_attach ex_host ''blk.img'' ?v0 = Inr va"
    by (simp add: blk_attach_def ex_host_def blk_open_def Let_def)
  have w: "mem_wf ex_ram" by (simp add: mem_wf_def)
  have a: "vio_ok va" "notify_regs va = []" using blk_attach_ok [OF va] devs_off_ok [OF w, of ex_host True ex_img] by simp_all
  have "nqueues (vdev_console va) = 2" "nqueues (vdev_blk va) = 1" using a(1) by (simp_all add: vio_ok_def mmio_ok_def dev_static_def)
  then obtain vb where vb: "eventfds_attach True va = Inr vb"
    using a(2) by (simp add: eventfds_attach_def virtio_eventfds_setup_def upto_rec1 add_ioeventfd_def)
  have n: "length (notify_regs vb) = 3" using eventfds_attach_ok [OF vb a] by simp
  have m: "machine_setup ex_host ex_options ex_ram = Inr (img, set_ram m2 vb, ex_pt 4)"
    using va vb l pt by (simp add: machine_setup_def ex_options_def) (simp add: ex_host_def)
  have c: "setup_cpuid (h_cpuid ex_host) = Inr es \<Longrightarrow> \<exists>cs. vcpu_setup (h_kvm ex_host) (h_cpuid ex_host) (h_sregs ex_host) img = Inr cs" for es
    by (simp add: vcpu_setup_def k del: issue.simps)
  from ex_cpuid c obtain cs where cs: "vcpu_setup (h_kvm ex_host) (h_cpuid ex_host) (h_sregs ex_host) img = Inr cs" by blast
  have th: "h_threads ex_host" "h_mmap ex_host" by (simp_all add: ex_host_def)
  have mb: "o_mem_mb ex_options = 64" by (simp add: ex_options_def)
  have "main_start ex_host ex_args = Inr ([GetApiVersion, CheckUserMemory, CreateVm, SetIdentityMapAddr 0xfffbc000, SetTssAddr 0xfffbd000,
      CreateIrqchip, CreatePit, SetUserMemoryRegion 0 0 (mem_size ex_ram)] @ cs,
     \<lparr>com1 = serial_init, devs = set_ram m2 vb, pci = ex_pt 4, exit_counts = replicate 64 0, stats_requested = False, stats_out = []\<rparr>)"
    unfolding main_start_def ex_parse rbind_Inr Let_def mb sz r vm_setup_def k
    by (simp add: th m cs)
  then show ?thesis using n ex_geometry(1) by (auto simp: set_ram_def)
qed

definition ex_events :: "event list" where
  "ex_events = [Exited (ExitMmio 0xd0000050 True 4 [1, 0, 0, 0, 0, 0, 0, 0]), Notified 1, HostInput [0x61],
     Exited (ExitIo 0xcf8 True 4 1 [0x00, 0x08, 0x00, 0x80]), Exited (ExitIo 0xcfc False 2 1 [0, 0]), Exited ExitHlt,
     ex_outb 0x64 [0xfe], RunFailed]"


end
