(* ===== verification/GuestCpu.thy ===== *)
theory GuestCpu
  imports Boot
begin

text \<open>
  A guest processor: an interpreter, in real mode and in flat 32-bit mode, of the instructions that the machine code in this
  repository uses, with the lemmas that run code lying at a known address.
\<close>

section \<open>The processor\<close>

text \<open>
  Registers in their encoding order: 0 to 7 are AX, CX, DX, BX, SP, BP, SI and DI.  Of the flags only ZF and IF are kept, since no
  other is read.  Every segment but CS has base 0.  \<open>log\<close> is what leaves the processor, \<open>clock\<close> the values of the
  time stamp counter to come.
\<close>

datatype out = OutB u16 u8 | WrMsr u32 u64

record cpu =
  gpr :: "nat \<Rightarrow> u32"
  ip :: u32
  csb :: u32
  zf :: bool
  intf :: bool
  ram :: "u32 \<Rightarrow> u8"
  log :: "out list"
  clock :: "u64 list"

datatype outcome = Runs cpu | Halted cpu | Stuck

datatype instr =
    Mov8 nat u8 | MovImm nat u32 | AddRR8 nat nat | AddMem8 nat | XorRR nat nat | DecR nat | OutImm u8 | OutDx
  | Jnz u32 | Jmp u32 | Nop | Hlt | Sti | Wrmsr | Rdtsc | Iret

text \<open>
  Decoding of the bytes after an operand-size prefix; \<open>a32\<close> and \<open>op32\<close> say whether addresses and operands have 32 bits.  The
  result is the instruction and its length.
\<close>

definition decode1 :: "bool \<Rightarrow> bool \<Rightarrow> u8 list \<Rightarrow> (instr \<times> nat) option" where
  "decode1 a32 op32 bs =
     (case bs of b # r \<Rightarrow>
        let reg = unat (b AND 7) in
        if b AND 0xf8 = 0xb0 then Some (Mov8 reg (r ! 0), 2)
        else if b AND 0xf8 = 0xb8 then
          (if op32 then Some (MovImm reg (le_val (take 4 r)), 5) else Some (MovImm reg (le_val (take 2 r)), 3))
        else if b = 0x00 \<and> r ! 0 AND 0xc0 = 0xc0 then Some (AddRR8 (unat (r ! 0 AND 7)) (unat (drop_bit 3 (r ! 0) AND 7)), 2)
        else if b = 0x00 \<and> r ! 0 AND 0xc7 = 0x00 \<and> \<not> a32 then Some (AddMem8 (unat (drop_bit 3 (r ! 0) AND 7)), 2)
        else if b = 0x31 \<and> r ! 0 AND 0xc0 = 0xc0 then Some (XorRR (unat (r ! 0 AND 7)) (unat (drop_bit 3 (r ! 0) AND 7)), 2)
        else if b AND 0xf8 = 0x48 then Some (DecR reg, 1)
        else if b = 0xe6 then Some (OutImm (r ! 0), 2)
        else if b = 0xee then Some (OutDx, 1)
        else if b = 0x75 then Some (Jnz (scast (r ! 0)), 2)
        else if b = 0xeb then Some (Jmp (scast (r ! 0)), 2)
        else if b = 0x90 then Some (Nop, 1)
        else if b = 0xf4 then Some (Hlt, 1)
        else if b = 0xfb then Some (Sti, 1)
        else if b = 0x0f \<and> r ! 0 = 0x30 then Some (Wrmsr, 2)
        else if b = 0x0f \<and> r ! 0 = 0x31 then Some (Rdtsc, 2)
        else if b = 0xcf then Some (Iret, 1)
        else None
      | [] \<Rightarrow> None)"

definition decode :: "bool \<Rightarrow> u8 list \<Rightarrow> (bool \<times> instr \<times> nat) option" where
  "decode d32 bs =
     (if hd bs = 0x66 then map_option (\<lambda>(i, n). (\<not> d32, i, n + 1)) (decode1 d32 (\<not> d32) (tl bs))
      else map_option (\<lambda>(i, n). (d32, i, n)) (decode1 d32 d32 bs))"

definition get8 :: "nat \<Rightarrow> cpu \<Rightarrow> u8" where
  "get8 r c = (if r < 4 then ucast (gpr c r) else ucast (drop_bit 8 (gpr c (r - 4))))"

definition put_reg :: "nat \<Rightarrow> u32 \<Rightarrow> cpu \<Rightarrow> cpu" where
  "put_reg r v c = c\<lparr>gpr := (gpr c)(r := v)\<rparr>"

definition set8 :: "nat \<Rightarrow> u8 \<Rightarrow> cpu \<Rightarrow> cpu" where
  "set8 r v c =
     (if r < 4 then put_reg r ((gpr c r AND 0xffffff00) OR ucast v) c
      else put_reg (r - 4) ((gpr c (r - 4) AND 0xffff00ff) OR push_bit 8 (ucast v)) c)"

definition set_op :: "bool \<Rightarrow> nat \<Rightarrow> u32 \<Rightarrow> cpu \<Rightarrow> cpu" where
  "set_op op32 r v c = put_reg r (if op32 then v else (gpr c r AND 0xffff0000) OR (v AND 0xffff)) c"

definition low16 :: "bool \<Rightarrow> u32 \<Rightarrow> u32" where
  "low16 full w = (if full then w else w AND 0xffff)"

text \<open>The stack of real mode, SS at base 0: the offset wraps at 64 KB.\<close>

definition push16 :: "u16 \<Rightarrow> cpu \<Rightarrow> cpu" where
  "push16 w c =
     (let sp = (gpr c 4 - 2) AND 0xffff;
          c1 = set_op False 4 sp c
      in c1\<lparr>ram := (ram c1)(sp := ucast w, (sp + 1) AND 0xffff := ucast (drop_bit 8 w))\<rparr>)"

definition pop16 :: "cpu \<Rightarrow> u16 \<times> cpu" where
  "pop16 c =
     (let sp = gpr c 4 AND 0xffff
      in (ucast (ram c sp) OR push_bit 8 (ucast (ram c ((sp + 1) AND 0xffff))), set_op False 4 (sp + 2) c))"

definition flags16 :: "cpu \<Rightarrow> u16" where
  "flags16 c = (if zf c then 0x40 else 0) OR (if intf c then 0x200 else 0) OR 2"

definition iret16 :: "cpu \<Rightarrow> cpu" where
  "iret16 c =
     (let (i, c1) = pop16 c; (s, c2) = pop16 c1; (f, c3) = pop16 c2
      in c3\<lparr>ip := ucast i, csb := push_bit 4 (ucast s), zf := bit f 6, intf := bit f 9\<rparr>)"

text \<open>An external interrupt in real mode goes through the table at address 0.\<close>

definition interrupt :: "u8 \<Rightarrow> cpu \<Rightarrow> cpu" where
  "interrupt v c =
     (let c1 = push16 (ucast (ip c)) (push16 (ucast (drop_bit 4 (csb c))) (push16 (flags16 c) c));
          a = 4 * ucast v
      in c1\<lparr>ip := ucast (ram c1 a) OR push_bit 8 (ucast (ram c1 (a + 1))),
            csb := push_bit 4 (ucast (ram c1 (a + 2)) OR push_bit 8 (ucast (ram c1 (a + 3)))), intf := False\<rparr>)"

text \<open>One instruction, with \<open>ip\<close> already behind it.\<close>

definition exec :: "bool \<Rightarrow> instr \<Rightarrow> cpu \<Rightarrow> outcome" where
  "exec op32 i c =
     (case i of
        Mov8 r v \<Rightarrow> Runs (set8 r v c)
      | MovImm r v \<Rightarrow> Runs (set_op op32 r v c)
      | AddRR8 d s \<Rightarrow> (let v = get8 d c + get8 s c in Runs ((set8 d v c)\<lparr>zf := (v = 0)\<rparr>))
      | AddMem8 s \<Rightarrow>
          (let a = (gpr c 3 + gpr c 6) AND 0xffff; v = ram c a + get8 s c
           in Runs (c\<lparr>ram := (ram c)(a := v), zf := (v = 0)\<rparr>))
      | XorRR d s \<Rightarrow> (let v = low16 op32 (gpr c d XOR gpr c s) in Runs ((set_op op32 d v c)\<lparr>zf := (v = 0)\<rparr>))
      | DecR r \<Rightarrow> (let v = low16 op32 (gpr c r - 1) in Runs ((set_op op32 r v c)\<lparr>zf := (v = 0)\<rparr>))
      | OutImm p \<Rightarrow> Runs (c\<lparr>log := log c @ [OutB (ucast p) (get8 0 c)]\<rparr>)
      | OutDx \<Rightarrow> Runs (c\<lparr>log := log c @ [OutB (ucast (gpr c 2)) (get8 0 c)]\<rparr>)
      | Jnz d \<Rightarrow> Runs (if zf c then c else c\<lparr>ip := low16 op32 (ip c + d)\<rparr>)
      | Jmp d \<Rightarrow> Runs (c\<lparr>ip := low16 op32 (ip c + d)\<rparr>)
      | Nop \<Rightarrow> Runs c
      | Hlt \<Rightarrow> Halted c
      | Sti \<Rightarrow> Runs (c\<lparr>intf := True\<rparr>)
      | Wrmsr \<Rightarrow> Runs (c\<lparr>log := log c @ [WrMsr (gpr c 1) (push_bit 32 (ucast (gpr c 2)) OR ucast (gpr c 0))]\<rparr>)
      | Rdtsc \<Rightarrow>
          (case clock c of [] \<Rightarrow> Stuck
           | t # ts \<Rightarrow> Runs (put_reg 0 (ucast t) (put_reg 2 (ucast (drop_bit 32 t)) (c\<lparr>clock := ts\<rparr>))))
      | Iret \<Rightarrow> if op32 then Stuck else Runs (iret16 c))"

definition fetch :: "cpu \<Rightarrow> u8 list" where
  "fetch c = map (\<lambda>i. ram c (csb c + ip c + of_nat i)) [0..<8]"

definition step :: "bool \<Rightarrow> cpu \<Rightarrow> outcome" where
  "step d32 c =
     (case decode d32 (fetch c) of None \<Rightarrow> Stuck
      | Some (op32, i, n) \<Rightarrow> exec op32 i (c\<lparr>ip := low16 d32 (ip c + of_nat n)\<rparr>))"

fun steps :: "bool \<Rightarrow> nat \<Rightarrow> cpu \<Rightarrow> outcome" where
  "steps d32 0 c = Runs c"
| "steps d32 (Suc n) c = (case step d32 c of Runs c1 \<Rightarrow> steps d32 n c1 | r \<Rightarrow> r)"

lemma steps_add: "steps d (m + n) c = (case steps d m c of Runs c1 \<Rightarrow> steps d n c1 | r \<Rightarrow> r)"
  by (induction m arbitrary: c) (auto split: outcome.splits)

section \<open>Code in memory\<close>

definition code_at :: "(u32 \<Rightarrow> u8) \<Rightarrow> u32 \<Rightarrow> u8 list \<Rightarrow> bool" where
  "code_at m a bs \<longleftrightarrow> (\<forall>i < length bs. m (a + of_nat i) = bs ! i)"

lemma code_at_Nil [simp]: "code_at m a []"
  by (simp add: code_at_def)

lemma code_at_Cons [simp]: "code_at m a (b # bs) \<longleftrightarrow> m a = b \<and> code_at m (a + 1) bs"
  by (auto simp: code_at_def less_Suc_eq_0_disj nth_Cons' ac_simps)

lemma code_at_append [simp]: "code_at m a (bs @ cs) \<longleftrightarrow> code_at m a bs \<and> code_at m (a + of_nat (length bs)) cs"
proof (induction bs arbitrary: a)
  case (Cons b bs)
  then show ?case by (simp add: ac_simps)
qed simp

text \<open>Bytes that are an instruction, whatever follows them.\<close>

definition decodes :: "bool \<Rightarrow> u8 list \<Rightarrow> bool \<Rightarrow> instr \<Rightarrow> bool" where
  "decodes d32 bs op32 i \<longleftrightarrow> (\<forall>t. decode d32 (bs @ t) = Some (op32, i, length bs)) \<and> length bs \<le> 8"

lemma fetch_code: "code_at (ram c) (csb c + ip c) bs \<Longrightarrow> length bs \<le> 8 \<Longrightarrow> \<exists>t. fetch c = bs @ t"
proof -
  assume c: "code_at (ram c) (csb c + ip c) bs" and l: "length bs \<le> 8"
  have "take (length bs) (fetch c) = bs"
    using c l by (intro nth_equalityI) (auto simp: fetch_def code_at_def)
  then show ?thesis by (metis append_take_drop_id)
qed

lemma step_code:
  assumes "code_at (ram c) (csb c + ip c) bs" "decodes d32 bs op32 i"
  shows "step d32 c = exec op32 i (c\<lparr>ip := low16 d32 (ip c + of_nat (length bs))\<rparr>)"
  using assms fetch_code [OF assms(1)] by (auto simp: step_def decodes_def)

text \<open>The state in which KVM starts a virtual CPU, from what the program set.\<close>

definition cpu_start :: "kvm_sregs \<Rightarrow> (nat \<Rightarrow> u32) \<Rightarrow> u64 \<Rightarrow> u64 \<Rightarrow> (u32 \<Rightarrow> u8) \<Rightarrow> cpu" where
  "cpu_start s g entry flags m =
     \<lparr>gpr = g, ip = ucast entry, csb = ucast (sg_base (r_cs s)), zf = bit flags 6, intf = bit flags 9, ram = m, log = [], clock = []\<rparr>"

lemma decodes_16 [simp]:
  "decodes False [0xb8, i0, i1] False (MovImm 0 (le_val [i0, i1]))"
  "decodes False [0xb9, i0, i1] False (MovImm 1 (le_val [i0, i1]))"
  "decodes False [0xb0, i0] False (Mov8 0 i0)"
  "decodes False [0x66, 0xbb, i0, i1, i2, i3] True (MovImm 3 (le_val [i0, i1, i2, i3]))"
  "decodes False [0xf4] False Hlt" "decodes False [0xfb] False Sti" "decodes False [0xcf] False Iret"
  "decodes False [0xeb, i0] False (Jmp (scast i0))" "decodes False [0xe6, i0] False (OutImm i0)"
  "decodes False [0x00, 0x00] False (AddMem8 0)" "decodes False [0x00, 0xc3] False (AddRR8 3 0)"
  "decodes False [0x31, 0xc0] False (XorRR 0 0)" "decodes False [0x31, 0xd2] False (XorRR 2 2)"
  "decodes False [0x0f, 0x30] False Wrmsr" "decodes False [0x0f, 0x31] False Rdtsc"
  by (simp_all add: decodes_def decode_def decode1_def Let_def)

lemma decodes_32 [simp]:
  "decodes True [0xb0, i0] True (Mov8 0 i0)" "decodes True [0x66, 0xba, i0, i1] False (MovImm 2 (le_val [i0, i1]))"
  "decodes True [0xee] True OutDx" "decodes True [0xb9, i0, i1, i2, i3] True (MovImm 1 (le_val [i0, i1, i2, i3]))"
  "decodes True [0x90] True Nop" "decodes True [0x49] True (DecR 1)" "decodes True [0x75, i0] True (Jnz (scast i0))"
  "decodes True [0xeb, i0] True (Jmp (scast i0))"
  by (simp_all add: decodes_def decode_def decode1_def Let_def)


text \<open>One instruction of a run.\<close>

lemma steps_code:
  assumes "code_at (ram c) (csb c + ip c) bs" "decodes d32 bs op32 i"
    "exec op32 i (c\<lparr>ip := low16 d32 (ip c + of_nat (length bs))\<rparr>) = Runs c1"
  shows "steps d32 (Suc n) c = steps d32 n c1"
  using step_code [OF assms(1,2)] assms(3) by simp

lemma steps_halt:
  assumes "code_at (ram c) (csb c + ip c) bs" "decodes d32 bs op32 Hlt"
  shows "steps d32 (Suc n) c = Halted (c\<lparr>ip := low16 d32 (ip c + of_nat (length bs))\<rparr>)"
  using step_code [OF assms] by (simp add: exec_def)

lemmas exec_simps = exec_def low16_def set_op_def set8_def get8_def put_reg_def Let_def

text \<open>Guest memory as the processor sees it.\<close>

definition ram_fun :: "cbuf \<Rightarrow> u32 \<Rightarrow> u8" where
  "ram_fun b a = bdata b (unat a)"

lemma code_at_ram:
  assumes "off + length xs \<le> 2 ^ 32"
  shows "code_at (ram_fun b) (of_nat off) xs \<longleftrightarrow> (\<forall>i < length xs. bdata b (off + i) = xs ! i)"
proof -
  have "unat (of_nat off + of_nat i :: u32) = off + i" if "i < length xs" for i
    unfolding of_nat_add [symmetric] unat_of_nat using assms that by (simp add: take_bit_eq_mod)
  then show ?thesis by (simp add: code_at_def ram_fun_def)
qed

lemma code_at_write:
  "buf_write b off xs = Inr b' \<Longrightarrow> off + length xs \<le> 2 ^ 32 \<Longrightarrow> code_at (ram_fun b') (of_nat off) xs"
  by (auto simp: code_at_ram buf_simps)

lemma code_at_frame:
  "buf_write b off xs = Inr b' \<Longrightarrow> a + length bs \<le> off \<or> off + length xs \<le> a \<Longrightarrow> a + length bs \<le> 2 ^ 32 \<Longrightarrow>
     code_at (ram_fun b) (of_nat a) bs \<Longrightarrow> code_at (ram_fun b') (of_nat a) bs"
  by (auto simp: code_at_ram buf_simps)

end
