(* ===== verification/GuestCode.thy ===== *)
theory GuestCode
  imports GuestCpu Minivmm
begin

text \<open>
  The machine code the programs of this repository place in guest memory, run on the processor of \<open>GuestCpu\<close>:
  \<open>kvm-demo.c\<close>, \<open>kvm-demo-regs.c\<close> and the self-test of \<open>minivmm -b\<close>.
\<close>

section \<open>The first demo\<close>

text \<open>\<open>kvm-demo.c\<close>: real mode, \<open>mov ax, 0x42\<close>; \<open>hlt\<close>.\<close>

abbreviation (input) GUEST_MEM_SIZE :: nat where "GUEST_MEM_SIZE \<equiv> 0x200000"
abbreviation (input) GUEST_CODE_GPA :: nat where "GUEST_CODE_GPA \<equiv> 0x1000"

definition demo_code :: "u8 list" where
  "demo_code = [0xb8, 0x42, 0x00, 0xf4]"

definition load_demo_code :: "cbuf \<Rightarrow> cbuf res" where
  "load_demo_code m = buf_write m GUEST_CODE_GPA demo_code"

definition demo_data_segment :: "kvm_segment \<Rightarrow> kvm_segment" where
  "demo_data_segment g = g\<lparr>sg_base := 0, sg_selector := 0, sg_limit := 0xffff, sg_type := 3, sg_s := True, sg_dpl := 0, sg_present := True\<rparr>"

definition demo_setup_sregs :: "kvm_sregs \<Rightarrow> kvm_sregs" where
  "demo_setup_sregs s =
     (let ds = demo_data_segment (r_ds s)
      in s\<lparr>r_cs := (r_cs s)\<lparr>sg_base := 0, sg_selector := 0, sg_limit := 0xffff, sg_type := 3, sg_s := True, sg_dpl := 0,
             sg_present := True, sg_db := False, sg_g := False\<rparr>,
           r_ds := ds, r_es := ds, r_fs := ds, r_gs := ds, r_ss := ds, cr0 := 0, efer := 0\<rparr>)"

text \<open>The calls of the demo programs; \<open>DRun\<close> succeeds too if \<open>KVM_RUN\<close> fails with \<open>EAGAIN\<close>.\<close>

datatype demo_call =
    DOpen | DVersion | DExtension nat | DCreateVm | DIdentity u64 | DTss u64 | DMapRam nat | DSetMemory nat u64 u64 | DCreateVcpu | DRunSize
  | DMapRun | DGetSregs | DSetSregs kvm_sregs | DSetRegs u64 u64 | DGetRegs | DRun | DUnmapRun | DUnmapRam | DCloseVcpu | DCloseVm | DCloseKvm

text \<open>The program, step by step; the two queries of extensions and the second query of the size are not checked.\<close>

definition open_kvm :: "(demo_call \<Rightarrow> bool) \<Rightarrow> demo_call list boot" where
  "open_kvm ok = rbind (issue ok [DOpen, DVersion]) (\<lambda>cs. Inr (cs @ [DExtension 3, DExtension 136]))"

definition demo_create_vm :: "(demo_call \<Rightarrow> bool) \<Rightarrow> demo_call list boot" where
  "demo_create_vm ok = issue ok [DCreateVm]"

definition setup_identity_map :: "(demo_call \<Rightarrow> bool) \<Rightarrow> demo_call list boot" where
  "setup_identity_map ok = issue ok [DIdentity 0xfffbe000, DTss 0xfffbd000]"

definition setup_guest_memory :: "(demo_call \<Rightarrow> bool) \<Rightarrow> demo_call list boot" where
  "setup_guest_memory ok = issue ok [DMapRam GUEST_MEM_SIZE, DSetMemory 0 0 (of_nat GUEST_MEM_SIZE)]"

definition demo_create_vcpu :: "(demo_call \<Rightarrow> bool) \<Rightarrow> demo_call list boot" where
  "demo_create_vcpu ok = issue ok [DCreateVcpu]"

definition map_vcpu_run :: "(demo_call \<Rightarrow> bool) \<Rightarrow> demo_call list boot" where
  "map_vcpu_run ok = issue ok [DRunSize, DMapRun]"

definition setup_vcpu_registers :: "(demo_call \<Rightarrow> bool) \<Rightarrow> kvm_sregs \<Rightarrow> demo_call list boot" where
  "setup_vcpu_registers ok s = issue ok [DGetSregs, DSetSregs (demo_setup_sregs s), DSetRegs (of_nat GUEST_CODE_GPA) 2]"

definition run_vcpu :: "(demo_call \<Rightarrow> bool) \<Rightarrow> demo_call list boot" where
  "run_vcpu ok = issue ok [DRun]"

text \<open>What the shared page says after the run, and what the program prints of it.\<close>

record exit_page =
  x_reason :: u32
  x_out :: bool
  x_port :: u16
  x_size :: u8
  x_suberror :: u32
  x_hw :: u64

datatype demo_report = SawHlt | SawIo bool u16 u8 | SawInternal u32 | SawShutdown | SawUnknown u64 | SawOther u32

definition handle_exit :: "exit_page \<Rightarrow> demo_report" where
  "handle_exit x =
     (if x_reason x = 5 then SawHlt
      else if x_reason x = 2 then SawIo (x_out x) (x_port x) (x_size x)
      else if x_reason x = 17 then SawInternal (x_suberror x)
      else if x_reason x = 8 then SawShutdown
      else if x_reason x = 0 then SawUnknown (x_hw x)
      else SawOther (x_reason x))"

text \<open>The arguments say which of the five resources exist.\<close>

definition cleanup :: "bool \<Rightarrow> bool \<Rightarrow> bool \<Rightarrow> bool \<Rightarrow> bool \<Rightarrow> demo_call list" where
  "cleanup kvm_fd vm_fd vcpu_fd guest_mem run =
     (if run then [DUnmapRun] else []) @ (if guest_mem then [DUnmapRam] else []) @ (if vcpu_fd then [DCloseVcpu] else []) @
     (if vm_fd then [DCloseVm] else []) @ (if kvm_fd then [DCloseKvm] else [])"

definition kvm_demo :: "(demo_call \<Rightarrow> bool) \<Rightarrow> kvm_sregs \<Rightarrow> exit_page \<Rightarrow> cbuf \<Rightarrow> (demo_call list \<times> cbuf \<times> demo_report) boot" where
  "kvm_demo ok s x m =
     rbind (open_kvm ok) (\<lambda>c1.
     rbind (demo_create_vm ok) (\<lambda>c2.
     rbind (setup_identity_map ok) (\<lambda>c3.
     rbind (setup_guest_memory ok) (\<lambda>c4.
     rbind (lift (load_demo_code m)) (\<lambda>m1.
     rbind (demo_create_vcpu ok) (\<lambda>c5.
     rbind (map_vcpu_run ok) (\<lambda>c6.
     rbind (setup_vcpu_registers ok s) (\<lambda>c7.
     rbind (run_vcpu ok) (\<lambda>c8.
     Inr (c1 @ c2 @ c3 @ c4 @ c5 @ c6 @ [DRunSize] @ c7 @ c8 @ cleanup True True True True True, m1, handle_exit x))))))))))"

lemmas kvm_demo_defs = kvm_demo_def open_kvm_def demo_create_vm_def setup_identity_map_def setup_guest_memory_def demo_create_vcpu_def
  map_vcpu_run_def setup_vcpu_registers_def run_vcpu_def

text \<open>
  KVM keeps three pages for itself from the TSS address on and one at the identity-map address; they must not overlap.  Those of
  \<open>minivmm\<close> do not, those of both demos do.
\<close>

definition areas_disjoint :: "u64 \<Rightarrow> u64 \<Rightarrow> bool" where
  "areas_disjoint tss ident \<longleftrightarrow> unat ident + 0x1000 \<le> unat tss \<or> unat tss + 0x3000 \<le> unat ident"

lemma demo_areas_overlap:
  "kvm_demo ok s x m = Inr (calls, m', rep) \<Longrightarrow> \<exists>t i. DTss t \<in> set calls \<and> DIdentity i \<in> set calls \<and> \<not> areas_disjoint t i"
  "vm_setup ok' m = Inr cs \<Longrightarrow> \<exists>t i. SetTssAddr t \<in> set cs \<and> SetIdentityMapAddr i \<in> set cs \<and> areas_disjoint t i"
proof -
  show "vm_setup ok' m = Inr cs \<Longrightarrow> \<exists>t i. SetTssAddr t \<in> set cs \<and> SetIdentityMapAddr i \<in> set cs \<and> areas_disjoint t i"
    by (rule exI [of _ "0xfffbd000"], rule exI [of _ "0xfffbc000"]) (auto simp: vm_setup_def rbind_eq_Inr areas_disjoint_def split: if_splits)
  show "kvm_demo ok s x m = Inr (calls, m', rep) \<Longrightarrow> \<exists>t i. DTss t \<in> set calls \<and> DIdentity i \<in> set calls \<and> \<not> areas_disjoint t i"
    by (rule exI [of _ "0xfffbd000"], rule exI [of _ "0xfffbe000"]) (auto simp: kvm_demo_defs rbind_eq_Inr areas_disjoint_def split: if_splits)
qed

text \<open>All general registers are cleared; \<open>rip\<close> is the code, \<open>rflags\<close> 2.\<close>

definition demo_start :: "kvm_sregs \<Rightarrow> cbuf \<Rightarrow> cpu" where
  "demo_start s m = cpu_start s (\<lambda>_. 0) (of_nat GUEST_CODE_GPA) 2 (ram_fun m)"

text \<open>
  C34. The first demo does what it prints: whatever the registers held before, the guest starts in 16-bit real mode at its
  code, loads 0x42 into AX, changes no other register, no memory, and stops at the HLT, four bytes further; with a kernel that
  reports it the program says so.  At the end everything acquired has been given back.
\<close>

theorem demo_halts:
  assumes "kvm_demo ok s x m = Inr (calls, m', rep)"
  shows "DSetSregs (demo_setup_sregs s) \<in> set calls \<and> DSetRegs 0x1000 2 \<in> set calls \<and>
    steps (sg_db (r_cs (demo_setup_sregs s))) 2 (demo_start (demo_setup_sregs s) m') =
    Halted ((demo_start (demo_setup_sregs s) m')\<lparr>gpr := (\<lambda>_. 0)(0 := 0x42), ip := 0x1004\<rparr>) \<and>
    (rep = SawHlt \<longleftrightarrow> x_reason x = 5) \<and>
    drop (length calls - 6) calls = [DRun, DUnmapRun, DUnmapRam, DCloseVcpu, DCloseVm, DCloseKvm]"
proof -
  let ?c = "demo_start (demo_setup_sregs s) m'"
  have m: "code_at (ram_fun m') 0x1000 demo_code"
    using code_at_write [of m "0x1000" demo_code m'] assms by (auto simp: kvm_demo_def rbind_eq_Inr load_demo_code_def demo_code_def)
  have k: "DSetSregs (demo_setup_sregs s) \<in> set calls \<and> DSetRegs 0x1000 2 \<in> set calls \<and> (rep = SawHlt \<longleftrightarrow> x_reason x = 5) \<and>
      drop (length calls - 6) calls = [DRun, DUnmapRun, DUnmapRam, DCloseVcpu, DCloseVm, DCloseKvm]"
    using assms by (auto simp: kvm_demo_defs rbind_eq_Inr cleanup_def handle_exit_def split: if_splits)
  have c: "ram ?c = ram_fun m'" "csb ?c = 0" "ip ?c = 0x1000" "gpr ?c = (\<lambda>_. 0)"
    by (simp_all add: demo_start_def cpu_start_def demo_setup_sregs_def Let_def)
  have d: "\<not> sg_db (r_cs (demo_setup_sregs s))" by (simp add: demo_setup_sregs_def Let_def)
  have "steps False 2 ?c = steps False 1 (?c\<lparr>gpr := (\<lambda>_. 0)(0 := 0x42), ip := 0x1003\<rparr>)"
    unfolding numeral_2_eq_2
    by (subst steps_code [of ?c "[0xb8, 0x42, 0x00]" False False "MovImm 0 0x42"])
      (use m c decodes_16(1) [of "0x42" 0] in \<open>simp_all add: demo_code_def exec_simps\<close>)
  also have "\<dots> = Halted (?c\<lparr>gpr := (\<lambda>_. 0)(0 := 0x42), ip := 0x1004\<rparr>)"
    unfolding One_nat_def
    by (subst steps_halt [of _ "[0xf4]" False False]) (use m c in \<open>simp_all add: demo_code_def low16_def\<close>)
  finally have "steps False 2 ?c = Halted (?c\<lparr>gpr := (\<lambda>_. 0)(0 := 0x42), ip := 0x1004\<rparr>)" .
  then show ?thesis using d k by simp
qed

section \<open>The register demo\<close>

text \<open>
  \<open>kvm-demo-regs.c\<close>.  Its comment reads the third byte as the prefix of a 16-bit operand; in 16-bit code the prefix selects 32
  bits.
\<close>

definition regs_code :: "u8 list" where
  "regs_code = [0xb0, 0x42, 0x66, 0xbb, 0x00, 0x01, 0x00, 0xc3, 0xf4]"

definition load_regs_code :: "cbuf \<Rightarrow> cbuf res" where
  "load_regs_code m = buf_write m GUEST_CODE_GPA regs_code"

definition regs_setup_sregs :: "kvm_sregs \<Rightarrow> kvm_sregs" where
  "regs_setup_sregs s =
     (let cs = no_segment\<lparr>sg_limit := 0xffff, sg_type := 3, sg_s := True, sg_present := True\<rparr>
      in s\<lparr>r_cs := cs, r_ds := cs, r_es := cs, r_fs := cs, r_gs := cs, r_ss := cs, cr0 := 0, efer := 0\<rparr>)"

definition regs_demo :: "(demo_call \<Rightarrow> bool) \<Rightarrow> kvm_sregs \<Rightarrow> cbuf \<Rightarrow> (demo_call list \<times> cbuf) boot" where
  "regs_demo ok s m =
     rbind (issue ok [DOpen, DVersion, DCreateVm, DTss 0xfffbd000, DIdentity 0xfffbe000, DMapRam GUEST_MEM_SIZE,
       DSetMemory 0 0 (of_nat GUEST_MEM_SIZE)]) (\<lambda>c1.
     rbind (lift (load_regs_code m)) (\<lambda>m1.
     rbind (issue ok [DCreateVcpu, DRunSize, DMapRun, DGetSregs, DSetSregs (regs_setup_sregs s), DSetRegs (of_nat GUEST_CODE_GPA) 2,
       DGetRegs, DRun, DGetRegs, DGetSregs]) (\<lambda>c2. Inr (c1 @ c2 @ [DUnmapRun, DUnmapRam, DCloseVcpu, DCloseVm, DCloseKvm], m1))))"

text \<open>The lines of the analysis the program prints at the end.\<close>

definition regs_analysis :: "u32 \<Rightarrow> u32 \<Rightarrow> bool \<times> bool" where
  "regs_analysis rax rbx = (rax = 0x42, rbx AND 0xffff = 0x0142)"

text \<open>
  C35. The register demo does not do what it prints: the operand-size prefix makes the second instruction take four bytes of
  immediate, the ADD among them, so that the guest halts after nine bytes, as announced, with BX = 0x0100 and EBX = 0xc3000100,
  and the check of the program for BX = 0x0142 fails.
\<close>

theorem regs_demo_swallows_add:
  fixes s :: kvm_sregs
  assumes "regs_demo ok s m = Inr (calls, m')"
  defines "c \<equiv> demo_start (regs_setup_sregs s) m'"
  shows "\<exists>h. steps (sg_db (r_cs (regs_setup_sregs s))) 3 c = Halted h \<and> ip h = ip c + 9 \<and> gpr h 0 = 0x42 \<and>
    gpr h 3 = 0xc3000100 \<and> regs_analysis (gpr h 0) (gpr h 3) = (True, False)"
proof -
  have m: "code_at (ram_fun m') 0x1000 regs_code"
    using code_at_write [of m "0x1000" regs_code m'] assms(1) by (auto simp: regs_demo_def rbind_eq_Inr load_regs_code_def regs_code_def)
  have c: "ram c = ram_fun m'" "csb c = 0" "ip c = 0x1000" "gpr c = (\<lambda>_. 0)"
    by (simp_all add: c_def demo_start_def cpu_start_def regs_setup_sregs_def Let_def no_segment_def)
  let ?c1 = "c\<lparr>gpr := (\<lambda>_. 0)(0 := 0x42), ip := 0x1002\<rparr>"
  let ?c2 = "c\<lparr>gpr := (\<lambda>_. 0)(0 := 0x42, 3 := 0xc3000100), ip := 0x1008\<rparr>"
  have "steps False (Suc 2) c = steps False 2 ?c1"
    by (rule steps_code [of c "[0xb0, 0x42]" False False "Mov8 0 0x42"])
      (use m c in \<open>simp_all add: regs_code_def exec_simps\<close>)
  also have "\<dots> = steps False 1 ?c2"
    unfolding Suc_1 [symmetric]
    by (rule steps_code [of ?c1 "[0x66, 0xbb, 0x00, 0x01, 0x00, 0xc3]" False True "MovImm 3 0xc3000100"])
      (use m c decodes_16(4) [of 0 1 0 "0xc3"] in \<open>simp_all add: regs_code_def exec_simps\<close>)
  also have "\<dots> = Halted (?c2\<lparr>ip := 0x1009\<rparr>)"
    unfolding One_nat_def
    by (subst steps_halt [of _ "[0xf4]" False False]) (use m c in \<open>simp_all add: regs_code_def low16_def\<close>)
  finally have "steps False 3 c = Halted (?c2\<lparr>ip := 0x1009\<rparr>)" by (simp add: numeral_3_eq_3 del: steps.simps)
  then show ?thesis using c by (simp add: regs_setup_sregs_def Let_def no_segment_def regs_analysis_def)
qed

section \<open>The self-test of minivmm\<close>

text \<open>
  \<open>minivmm -b\<close>: flat 32-bit code that prints \<open>A\<close> and a newline on the serial port, counts ECX down from 0x100000 and
  starts again.
\<close>

definition blob_start :: "kvm_sregs \<Rightarrow> boot_image \<Rightarrow> (nat \<Rightarrow> u32) \<Rightarrow> cbuf \<Rightarrow> cpu" where
  "blob_start s img g m = cpu_start (setup_sregs s) g (rip (entry_regs img)) (rflags (entry_regs img)) (ram_fun m)"

definition blob_at :: "cpu \<Rightarrow> bool" where
  "blob_at c \<longleftrightarrow> code_at (ram c) 0x100000 selftest_blob \<and> csb c = 0"

lemma delay_loop:
  assumes "blob_at c" "ip c = 0x10000f" "gpr c 1 = of_nat n" "0 < n" "n < 2 ^ 32"
  shows "steps True (3 * n) c = Runs (c\<lparr>gpr := (gpr c)(1 := 0), ip := 0x100013, zf := True\<rparr>)"
  using assms
proof (induction n arbitrary: c)
  case (Suc n)
  have code: "ram c 0x10000f = 0x90" "ram c 0x100010 = 0x49" "ram c 0x100011 = 0x75" "ram c 0x100012 = 0xfc" and b: "csb c = 0"
    using Suc.prems(1) by (simp_all add: blob_at_def selftest_blob_def)
  have e: "3 * Suc n = Suc (Suc (Suc (3 * n)))" by simp
  have g: "gpr c 1 - 1 = of_nat n" using Suc.prems(3) by simp
  have z: "(of_nat n = (0 :: u32)) = (n = 0)" using Suc.prems(5) by (simp add: unsigned_of_nat word_of_nat_eq_0_iff take_bit_eq_mod dvd_imp_le) (auto dest: dvd_imp_le)
  let ?d1 = "c\<lparr>ip := 0x100010\<rparr>"
  let ?d2 = "c\<lparr>gpr := (gpr c)(1 := of_nat n), ip := 0x100011, zf := (n = 0)\<rparr>"
  let ?d3 = "c\<lparr>gpr := (gpr c)(1 := of_nat n), ip := if n = 0 then 0x100013 else 0x10000f, zf := (n = 0)\<rparr>"
  have "steps True (Suc (Suc (Suc (3 * n)))) c = steps True (Suc (Suc (3 * n))) ?d1"
    by (rule steps_code [of c "[0x90]" True True Nop]) (use code b Suc.prems(2) in \<open>simp_all add: exec_simps\<close>)
  also have "\<dots> = steps True (Suc (3 * n)) ?d2"
    by (rule steps_code [of ?d1 "[0x49]" True True "DecR 1"]) (use code b g z decodes_32(6) in \<open>simp_all add: exec_simps\<close>)
  also have "\<dots> = steps True (3 * n) ?d3"
    by (rule steps_code [of ?d2 "[0x75, 0xfc]" True True "Jnz (- 4)"])
      (use code b decodes_32(7) [of "0xfc"] in \<open>simp_all add: exec_simps\<close>)
  also have "\<dots> = Runs (c\<lparr>gpr := (gpr c)(1 := 0), ip := 0x100013, zf := True\<rparr>)"
  proof (cases "n = 0")
    case False
    have "blob_at ?d3" using Suc.prems(1) by (simp add: blob_at_def)
    then have "steps True (3 * n) ?d3 = Runs (?d3\<lparr>gpr := (gpr ?d3)(1 := 0), ip := 0x100013, zf := True\<rparr>)"
      by (rule Suc.IH) (use False Suc.prems(5) in simp_all)
    moreover have "(gpr ?d3)(1 := 0) = (gpr c)(1 := 0)" by (simp add: fun_eq_iff)
    ultimately show ?thesis by (simp only: cpu.simps) simp
  qed simp
  finally show ?case unfolding e .
qed simp

text \<open>From any state at the entry, one round prints two bytes and is back at the entry.\<close>

lemma blob_round:
  assumes "blob_at c" "ip c = 0x100000"
  shows "\<exists>c'. steps True (6 + 3 * 0x100000 + 1) c = Runs c' \<and> blob_at c' \<and> ip c' = 0x100000 \<and>
    log c' = log c @ [OutB 0x3f8 0x41, OutB 0x3f8 0x0a]"
proof -
  note code = assms(1) [unfolded blob_at_def selftest_blob_def, simplified]
  let ?al = "\<lambda>v. (gpr c 0 AND 0xffffff00) OR v" and ?dx = "(gpr c 2 AND 0xffff0000) OR 0x3f8"
  let ?d1 = "c\<lparr>gpr := (gpr c)(0 := ?al 0x41), ip := 0x100002\<rparr>"
  let ?d2 = "c\<lparr>gpr := (gpr c)(0 := ?al 0x41, 2 := ?dx), ip := 0x100006\<rparr>"
  let ?d3 = "?d2\<lparr>ip := 0x100007, log := log c @ [OutB 0x3f8 0x41]\<rparr>"
  let ?d4 = "?d3\<lparr>ip := 0x100009, gpr := (gpr c)(0 := ?al 0x0a, 2 := ?dx)\<rparr>"
  let ?d5 = "?d4\<lparr>ip := 0x10000a, log := log c @ [OutB 0x3f8 0x41, OutB 0x3f8 0x0a]\<rparr>"
  let ?d6 = "?d5\<lparr>ip := 0x10000f, gpr := (gpr c)(0 := ?al 0x0a, 2 := ?dx, 1 := 0x100000)\<rparr>"
  have m: "(0xffffff00 :: u32) = NOT (mask 8)" "(0xffff0000 :: u32) = NOT (mask 16)" "(0x3f8 :: u32) = ucast (0x3f8 :: u16)"
    by (simp_all add: mask_numeral)
  have al: "(ucast (?al (ucast v)) :: u8) = v" for v :: u8 unfolding m by (rule bit_word_eqI) (auto simp: bit_simps)
  have al2: "((?al (ucast v) AND 0xffffff00) OR x) = ?al x" for v :: u8 and x
    unfolding m by (rule bit_word_eqI) (auto simp: bit_simps dest: bit_imp_le_length)
  have dx: "(ucast ?dx :: u16) = 0x3f8" unfolding m by (rule bit_word_eqI) (auto simp: bit_simps)
  note al_simps = al [of "0x41", simplified] al [of "0x0a", simplified] al2 [of "0x41", simplified] dx
  have "steps True (Suc 5) c = steps True 5 ?d1"
    by (rule steps_code [of c "[0xb0, 0x41]" True True "Mov8 0 0x41"]) (use code assms(2) in \<open>simp_all add: exec_simps\<close>)
  also have "steps True 5 ?d1 = steps True (Suc 4) ?d1" by simp
  also have "\<dots> = steps True 4 ?d2"
    by (rule steps_code [of ?d1 "[0x66, 0xba, 0xf8, 0x03]" True False "MovImm 2 0x3f8"])
      (use code decodes_32(2) [of "0xf8" 3] in \<open>simp_all add: exec_simps\<close>)
  also have "steps True 4 ?d2 = steps True (Suc 3) ?d2" by simp
  also have "\<dots> = steps True 3 ?d3"
    by (rule steps_code [of ?d2 "[0xee]" True True OutDx]) (use code al_simps in \<open>simp_all add: exec_simps\<close>)
  also have "steps True 3 ?d3 = steps True (Suc 2) ?d3" by simp
  also have "\<dots> = steps True 2 ?d4"
    by (rule steps_code [of ?d3 "[0xb0, 0x0a]" True True "Mov8 0 0x0a"]) (use code al_simps in \<open>simp_all add: exec_simps fun_upd_twist\<close>)
  also have "steps True 2 ?d4 = steps True (Suc 1) ?d4" by (simp only: Suc_1)
  also have "\<dots> = steps True 1 ?d5"
    by (rule steps_code [of ?d4 "[0xee]" True True OutDx]) (use code al_simps in \<open>simp_all add: exec_simps\<close>)
  also have "steps True 1 ?d5 = Runs ?d6"
    using steps_code [of ?d5 "[0xb9, 0, 0, 0x10, 0]" True True "MovImm 1 0x100000" ?d6 0] code decodes_32(4) [of 0 0 "0x10" 0]
    by (simp add: exec_simps)
  finally have 1: "steps True 6 c = Runs ?d6" by (simp add: numeral_eq_Suc del: steps.simps)
  have "blob_at ?d6" using assms(1) by (simp add: blob_at_def)
  then have 2: "steps True (3 * 0x100000) ?d6 = Runs (?d6\<lparr>gpr := (gpr ?d6)(1 := 0), ip := 0x100013, zf := True\<rparr>)"
    by (rule delay_loop) simp_all
  let ?d7 = "?d6\<lparr>gpr := (gpr ?d6)(1 := 0), ip := 0x100013, zf := True\<rparr>"
  have 3: "steps True 1 ?d7 = Runs (?d7\<lparr>ip := 0x100000\<rparr>)"
    using steps_code [of ?d7 "[0xeb, 0xeb]" True True "Jmp (- 21)" "?d7\<lparr>ip := 0x100000\<rparr>" 0] code decodes_32(8) [of "0xeb"]
    by (simp add: exec_simps)
  have "steps True (6 + 3 * 0x100000 + 1) c = Runs (?d7\<lparr>ip := 0x100000\<rparr>)"
    unfolding steps_add 1 outcome.case 2 by (rule 3)
  moreover have "blob_at (?d7\<lparr>ip := 0x100000\<rparr>)" using assms(1) by (simp add: blob_at_def)
  ultimately show ?thesis by (intro exI conjI) (assumption | simp)+
qed

text \<open>Rounds and the exits they cause.\<close>

fun blob_rounds :: "nat \<Rightarrow> cpu \<Rightarrow> outcome" where
  "blob_rounds 0 c = Runs c"
| "blob_rounds (Suc n) c =
     (case steps True (6 + 3 * 0x100000 + 1) c of Runs c1 \<Rightarrow> blob_rounds n c1 | r \<Rightarrow> r)"

lemma blob_rounds_run:
  "blob_at c \<Longrightarrow> ip c = 0x100000 \<Longrightarrow>
     \<exists>c'. blob_rounds n c = Runs c' \<and> log c' = log c @ concat (replicate n [OutB 0x3f8 0x41, OutB 0x3f8 0x0a])"
proof (induction n arbitrary: c)
  case (Suc n)
  obtain c1 where 1: "steps True (6 + 3 * 0x100000 + 1) c = Runs c1" "blob_at c1" "ip c1 = 0x100000"
      "log c1 = log c @ [OutB 0x3f8 0x41, OutB 0x3f8 0x0a]"
    using blob_round [OF Suc.prems] by blast
  then show ?case using Suc.IH [OF 1(2,3)] by (auto simp del: steps.simps)
qed simp

fun out_event :: "out \<Rightarrow> event list" where
  "out_event (OutB p v) = [Exited (ExitIo p True 1 1 [v])]"
| "out_event (WrMsr i v) = []"

text \<open>Output without the last letter of the marker never ends the loop.\<close>

lemma quiet_output:
  fixes s :: "('f, 'd) vmm"
  assumes "\<forall>e \<in> set es. says e \<noteq> None" "0x59 \<notin> set (said es)" "tx_on (com1 s)" "running (com1 s)"
  shows "\<exists>t. kvm_run D es s = Inr (InKvmRun, t) \<and> running (com1 t) \<and> tty (com1 t) = tty (com1 s) @ said es"
  using assms
proof (induction es arbitrary: s)
  case (Cons e es)
  obtain bs where bs: "says e = Some bs" using Cons.prems(1) by auto
  obtain u :: "('f, 'd) vmm" where u: "tx_on (com1 u)" "con_view (com1 u) = fold con_step bs (con_view (com1 s))"
    "\<And>fs. kvm_run D (e # fs) s = (if running (com1 u) then kvm_run D fs u else Inr (Ended, u))"
    using says_step [OF bs Cons.prems(3,4)] by blast
  have keep: "snd (snd (fold con_step xs st)) = snd (snd st)" if "0x59 \<notin> set xs" for xs st
    using that
  proof (induction xs arbitrary: st)
    case (Cons b xs)
    have "h @ [b] \<noteq> ready_marker" for h using Cons.prems by (auto simp: ready_marker_def append_eq_Cons_conv)
    with Cons show ?case by (cases st) simp
  qed simp
  have "0x59 \<notin> set bs" "0x59 \<notin> set (said es)" using Cons.prems(2) bs by simp_all
  from keep [OF this(1), of "con_view (com1 s)"] have r: "running (com1 u)" using u(2) [symmetric] Cons.prems(4) by (simp add: con_view_def)
  have "tty (com1 u) = tty (com1 s) @ bs" using con_fold_out [of bs "con_view (com1 s)"] u(2) [symmetric] by (simp add: con_view_def)
  then show ?case using Cons.IH [of u] Cons.prems(1) \<open>0x59 \<notin> set (said es)\<close> u(1,3) r bs by auto
qed auto

lemma build_gdt_code:
  assumes "build_gdt m = Inr m'" "code_at (ram_fun m) (of_nat a) bs" "0x9000 \<le> a" "a + length bs \<le> 2 ^ 32"
  shows "code_at (ram_fun m') (of_nat a) bs"
proof -
  have fr: "code_at (ram_fun b) (of_nat a) bs \<Longrightarrow> buf_write b off xs = Inr b' \<Longrightarrow> off + length xs \<le> 0x9000 \<Longrightarrow> code_at (ram_fun b') (of_nat a) bs"
    for b off xs b'
    by (rule code_at_frame [of b off xs b' a bs]) (use assms(3,4) in simp_all)
  show ?thesis
    using assms(1,2) by (auto simp: build_gdt_def st64_def rbind_eq_Inr dest!: fr [rotated])
qed

text \<open>
  C36. The self-test, from the command line to the terminal: if \<open>minivmm -b\<close> comes up, guest RAM holds the code, and the guest that
  KVM starts from the registers the program set runs any number of rounds; the port exits these cause, handled by the main loop, put
  exactly that many lines \<open>A\<close> on the terminal, and the loop goes on.
\<close>

theorem selftest_prints:
  assumes "main_start H [OptBlob] = Inr (calls, s)"
  shows "\<exists>img c'. blob_rounds n (blob_start (h_sregs H) img g (mem (vsys (devs s)))) = Runs c' \<and> kernel_gpa img = 0x100000 \<and>
    sg_db (r_cs (setup_sregs (h_sregs H))) \<and>
    (\<exists>t. run_loop (h_dev H) (concat (map out_event (log c'))) s = Inr (InKvmRun, t) \<and> running (com1 t) \<and>
       tty (com1 t) = concat (replicate n [0x41, 0x0a]))"
proof -
  let ?m = "ram_of (push_bit 20 256)" and ?p = "default_options\<lparr>o_blob := True\<rparr>"
  obtain img v pt where m: "machine_setup H ?p ?m = Inr (img, v, pt)"
    and s: "s = \<lparr>com1 = serial_init, devs = v, pci = pt, exit_counts = replicate 64 0, stats_requested = False, stats_out = []\<rparr>"
    using assms by (auto simp: main_start_def Let_def rbind_eq_Inr default_options_def split: if_split_asm)
  obtain m1 m2 where w: "buf_write ?m 0x100000 selftest_blob = Inr m1" "build_gdt m1 = Inr m2"
    and v: "v = devs_off H False (h_no_disk H) m2" "kernel_gpa img = 0x100000"
    using m by (auto simp: machine_setup_def load_selftest_blob_def rbind_eq_Inr default_options_def)
  let ?c = "blob_start (h_sregs H) img g (mem (vsys (devs s)))"
  have n: "length selftest_blob = 21" by (simp add: selftest_blob_def)
  have "code_at (ram_fun m1) (of_nat 0x100000) selftest_blob" by (rule code_at_write [OF w(1)]) (simp add: n)
  then have "code_at (ram_fun m2) 0x100000 selftest_blob" using build_gdt_code [OF w(2), of "0x100000"] n by simp
  then have b: "blob_at ?c" "ip ?c = 0x100000" "log ?c = []"
    using v by (simp_all add: blob_at_def blob_start_def cpu_start_def setup_sregs_def code_segment_def no_segment_def entry_regs_def s devs_off_def)
  obtain c' where c': "blob_rounds n ?c = Runs c'" "log c' = concat (replicate n [OutB 0x3f8 0x41, OutB 0x3f8 0x0a])"
    using blob_rounds_run [OF b(1,2), of n] b(3) by auto
  let ?es = "concat (map out_event (log c'))"
  have es: "?es = concat (replicate n [Exited (ExitIo 0x3f8 True 1 1 [0x41]), Exited (ExitIo 0x3f8 True 1 1 [0x0a])])"
    unfolding c'(2) by (induction n) simp_all
  have "\<forall>e \<in> set ?es. says e \<noteq> None" unfolding es by (induction n) auto
  moreover have said: "said ?es = concat (replicate n [0x41, 0x0a])" unfolding es by (induction n) simp_all
  moreover have "0x59 \<notin> set (concat (replicate n [0x41, 0x0a :: u8]))" by (induction n) auto
  moreover have "tx_on (com1 s)" "running (com1 s)" "tty (com1 s) = []" by (simp_all add: s serial_init_def tx_on_def)
  ultimately obtain t where "kvm_run (h_dev H) ?es s = Inr (InKvmRun, t)" "running (com1 t)" "tty (com1 t) = concat (replicate n [0x41, 0x0a])"
    using quiet_output [of ?es s "h_dev H"] by auto
  moreover have "sg_db (r_cs (setup_sregs (h_sregs H)))" by (simp add: setup_sregs_def code_segment_def)
  ultimately show ?thesis using c'(1) v(2) \<open>running (com1 s)\<close> unfolding run_loop_def by auto
qed

section \<open>Concrete runs\<close>

abbreviation (input) ex_ram2 :: cbuf where "ex_ram2 \<equiv> \<lparr>bsize = 0x200000, bdata = \<lambda>_. 0\<rparr>"

lemma issue_all: "issue (\<lambda>_. True) cs = Inr cs"
  by (induction cs) simp_all

theorem demo_halts_witness:
  "\<exists>calls m' x. x_reason x = 5 \<and> kvm_demo (\<lambda>_. True) (h_sregs ex_host) x ex_ram2 = Inr (calls, m', SawHlt) \<and>
     steps False 2 (demo_start (demo_setup_sregs (h_sregs ex_host)) m') =
       Halted ((demo_start (demo_setup_sregs (h_sregs ex_host)) m')\<lparr>gpr := (\<lambda>_. 0)(0 := 0x42), ip := 0x1004\<rparr>)"
proof -
  let ?x = "\<lparr>x_reason = 5, x_out = False, x_port = 0, x_size = 0, x_suberror = 0, x_hw = 0\<rparr>"
  obtain m' where "load_demo_code ex_ram2 = Inr m'" by (simp add: load_demo_code_def buf_write_def demo_code_def)
  then obtain calls where k: "kvm_demo (\<lambda>_. True) (h_sregs ex_host) ?x ex_ram2 = Inr (calls, m', SawHlt)"
    unfolding kvm_demo_defs issue_all rbind_Inr by (simp add: handle_exit_def)
  have "sg_db (r_cs (demo_setup_sregs (h_sregs ex_host))) = False" by (simp add: demo_setup_sregs_def Let_def)
  with demo_halts [OF k] k show ?thesis by (intro exI [of _ calls] exI [of _ m'] exI [of _ ?x]) simp
qed

theorem regs_demo_swallows_add_witness:
  "\<exists>calls m' h. regs_demo (\<lambda>_. True) (h_sregs ex_host) ex_ram2 = Inr (calls, m') \<and>
     steps False 3 (demo_start (regs_setup_sregs (h_sregs ex_host)) m') = Halted h \<and> gpr h 3 = 0xc3000100"
proof -
  obtain m' where "load_regs_code ex_ram2 = Inr m'" by (simp add: load_regs_code_def buf_write_def regs_code_def)
  then obtain calls where k: "regs_demo (\<lambda>_. True) (h_sregs ex_host) ex_ram2 = Inr (calls, m')"
    unfolding regs_demo_def issue_all rbind_Inr by simp
  have "sg_db (r_cs (regs_setup_sregs (h_sregs ex_host))) = False" by (simp add: regs_setup_sregs_def Let_def no_segment_def)
  with regs_demo_swallows_add [OF k] k show ?thesis by auto
qed

lemma ex_blob_start: "\<exists>calls s. main_start ex_host [OptBlob] = Inr (calls, s)"
proof -
  have k: "issue (h_kvm ex_host) cs = Inr cs" for cs :: "kvm_call list" by (induction cs) (simp_all add: ex_host_def)
  have sz: "(push_bit 20 256 :: u64) = 0x10000000" by simp
  let ?m = "ram_of 0x10000000"
  have "bsize ?m = 0x10000000" by (simp add: ram_of_def)
  then obtain m1 where m1: "buf_write ?m 0x100000 selftest_blob = Inr m1" "bsize m1 = 0x10000000"
    by (auto simp: buf_write_def selftest_blob_def)
  then obtain m2 where m2: "build_gdt m1 = Inr m2" using build_gdt_descriptors [of m1] by auto
  let ?p = "default_options\<lparr>o_blob := True\<rparr>"
  obtain img v pt where ms: "machine_setup ex_host ?p ?m = Inr (img, v, pt)"
    using m1 m2 by (simp add: machine_setup_def load_selftest_blob_def)
  obtain es where "setup_cpuid (h_cpuid ex_host) = Inr es" using ex_cpuid by blast
  then obtain cs where cs: "vcpu_setup (h_kvm ex_host) (h_cpuid ex_host) (h_sregs ex_host) img = Inr cs"
    by (simp add: vcpu_setup_def k del: issue.simps)
  have p: "parse_opts [OptBlob] default_options = Inr ?p" "o_mem_mb ?p = 256" by (simp_all add: default_options_def)
  have th: "h_threads ex_host" "h_mmap ex_host" by (simp_all add: ex_host_def)
  show ?thesis unfolding main_start_def p rbind_Inr Let_def sz vm_setup_def k by (simp add: th ms cs)
qed

theorem selftest_prints_witness:
  "\<exists>calls s (c' :: cpu) t. main_start ex_host [OptBlob] = Inr (calls, s) \<and>
     run_loop (h_dev ex_host) (concat (map out_event (log c'))) s = Inr (InKvmRun, t) \<and> tty (com1 t) = [0x41, 0x0a, 0x41, 0x0a]"
proof -
  obtain calls s where s: "main_start ex_host [OptBlob] = Inr (calls, s)" using ex_blob_start by blast
  have r: "concat (replicate 2 [0x41, 0x0a]) = [0x41, 0x0a, 0x41, 0x0a :: u8]" by (simp add: numeral_2_eq_2)
  show ?thesis using selftest_prints [OF s, of 2 "\<lambda>_. 0"] unfolding r
  proof (elim exE conjE)
    fix img t and c' :: cpu
    assume "run_loop (h_dev ex_host) (concat (map out_event (log c'))) s = Inr (InKvmRun, t)" "tty (com1 t) = [0x41, 0x0a, 0x41, 0x0a]"
    then show ?thesis by (intro exI [of _ calls] exI [of _ s] exI [of _ c'] exI [of _ t] conjI s)
  qed
qed

end
