(* ===== verification/TimerExp.thy ===== *)
theory TimerExp
  imports GuestCpu
begin

text \<open>
  The timer experiments of phase 8: the library \<open>common.h\<close> and the three programs on top of it, as sequences of calls
  whose answers come from a kernel that may depend on everything called before, and the guest code they load.
\<close>

section \<open>Calls and answers\<close>

text \<open>What \<open>KVM_RUN\<close> can leave in the shared page, as far as the programs look.\<close>

datatype exp_exit = ExpHlt | ExpIo bool u16 | ExpInternal | ExpShutdown | ExpOther

datatype exp_cap = CapTscDeadline | CapTscControl | CapVmTscControl | CapGetTscKhz | CapAdjustClock

datatype exp_call =
    EOpen | EVersion | ECheck exp_cap | ECreateVm | EMapRam nat | ESetMemory nat | ECreateIrqchip | ECreateVcpu | ERunSize | EMapRun
  | ESetCpuid u32 u32 u32 | EGetSregs | ESetSregs kvm_sregs | EGetRegs | ESetRegs u64 u64 | EGetMsr u32 | ESetMsr u32 u64
  | EGetLapic | ESetLapic "u8 list" | EGetTscKhz | ESetTscKhz u64 | EVmSetTscKhz u64 | ERun | EGetClock | ESetClock u64 "u64 option" | ESleep
  | EUnmapRun | ECloseVcpu | EUnmapRam | ECloseVm | ECloseKvm

text \<open>\<open>a_intr\<close> says that a negative result is \<open>EINTR\<close>; a failed \<open>mmap\<close> is a negative result too.\<close>

record exp_ans =
  a_ret :: int
  a_intr :: bool
  a_data :: u64
  a_host_tsc :: u64
  a_rip :: u64
  a_flags :: u64
  a_sregs :: kvm_sregs
  a_lapic :: "u8 list"
  a_exit :: exp_exit

type_synonym kernel = "exp_call list \<Rightarrow> exp_call \<Rightarrow> exp_ans"

record exp_state =
  trace :: "exp_call list"
  gmem :: cbuf

type_synonym 'a exp = "exp_state \<Rightarrow> ('a \<times> exp_state) boot"

definition eret :: "'a \<Rightarrow> 'a exp" where
  "eret x = (\<lambda>s. Inr (x, s))"

definition ebind :: "'a exp \<Rightarrow> ('a \<Rightarrow> 'b exp) \<Rightarrow> 'b exp" where
  "ebind f g = (\<lambda>s. rbind (f s) (\<lambda>(x, s1). g x s1))"

definition edie :: "'a exp" where
  "edie = (\<lambda>s. Inl (Died CallFailed))"

definition ecall :: "kernel \<Rightarrow> exp_call \<Rightarrow> exp_ans exp" where
  "ecall K c = (\<lambda>s. Inr (K (trace s) c, s\<lparr>trace := trace s @ [c]\<rparr>))"

text \<open>\<open>DIE_ON_ERR\<close>.\<close>

definition echeck :: "kernel \<Rightarrow> exp_call \<Rightarrow> exp_ans exp" where
  "echeck K c = ebind (ecall K c) (\<lambda>a. if a_ret a < 0 then edie else eret a)"

fun echecks :: "kernel \<Rightarrow> exp_call list \<Rightarrow> unit exp" where
  "echecks K [] = eret ()"
| "echecks K (c # cs) = ebind (echeck K c) (\<lambda>_. echecks K cs)"

fun ecalls :: "kernel \<Rightarrow> exp_call list \<Rightarrow> unit exp" where
  "ecalls K [] = eret ()"
| "ecalls K (c # cs) = ebind (ecall K c) (\<lambda>_. ecalls K cs)"

definition emem :: "(cbuf \<Rightarrow> cbuf boot) \<Rightarrow> unit exp" where
  "emem f = (\<lambda>s. rbind (f (gmem s)) (\<lambda>m. Inr ((), s\<lparr>gmem := m\<rparr>)))"

section \<open>The library\<close>

definition kvm_init :: "kernel \<Rightarrow> unit exp" where
  "kvm_init K = ebind (echeck K EOpen) (\<lambda>_. ebind (ecall K EVersion) (\<lambda>a. if a_ret a \<noteq> 12 then edie else eret ()))"

definition kvm_cleanup :: "kernel \<Rightarrow> unit exp" where
  "kvm_cleanup K = ecalls K [ECloseKvm]"

definition vm_create :: "kernel \<Rightarrow> nat \<Rightarrow> unit exp" where
  "vm_create K sz =
     ebind (echecks K [ECreateVm, EMapRam sz]) (\<lambda>_.
     ebind (emem (\<lambda>_. Inr \<lparr>bsize = sz, bdata = \<lambda>_. 0\<rparr>)) (\<lambda>_. echecks K [ESetMemory sz]))"

definition vm_create_irqchip :: "kernel \<Rightarrow> unit exp" where
  "vm_create_irqchip K = echecks K [ECreateIrqchip]"

definition vm_destroy :: "kernel \<Rightarrow> unit exp" where
  "vm_destroy K = ecalls K [EUnmapRam, ECloseVm]"

definition vcpu_create :: "kernel \<Rightarrow> unit exp" where
  "vcpu_create K = echecks K [ECreateVcpu, ERunSize, EMapRun]"

definition vcpu_destroy :: "kernel \<Rightarrow> unit exp" where
  "vcpu_destroy K = ecalls K [EUnmapRun, ECloseVcpu]"

text \<open>The sum in the test is one of 64-bit numbers.\<close>

definition exp_place :: "u8 list \<Rightarrow> u64 \<Rightarrow> cbuf \<Rightarrow> cbuf boot" where
  "exp_place code a m =
     (if unat (a + of_nat (length code)) > bsize m then Inl (Died KernelTooBig) else lift (buf_write m (unat a) code))"

definition exp_sregs :: "kvm_sregs \<Rightarrow> kvm_sregs" where
  "exp_sregs s = s\<lparr>r_cs := (r_cs s)\<lparr>sg_base := 0, sg_selector := 0\<rparr>\<rparr>"

definition exp_load_guest_code :: "kernel \<Rightarrow> u8 list \<Rightarrow> u64 \<Rightarrow> unit exp" where
  "exp_load_guest_code K code a =
     ebind (emem (exp_place code a)) (\<lambda>_.
     ebind (echeck K EGetSregs) (\<lambda>r. echecks K [ESetSregs (exp_sregs (a_sregs r)), EGetRegs, ESetRegs a 2]))"

definition vcpu_set_rip :: "kernel \<Rightarrow> u64 \<Rightarrow> unit exp" where
  "vcpu_set_rip K a = ebind (echeck K EGetRegs) (\<lambda>r. echecks K [ESetRegs a (a_flags r)])"

definition vcpu_get_msr :: "kernel \<Rightarrow> u32 \<Rightarrow> u64 exp" where
  "vcpu_get_msr K i = ebind (ecall K (EGetMsr i)) (\<lambda>a. if a_ret a < 0 \<or> a_ret a \<noteq> 1 then edie else eret (a_data a))"

definition vcpu_set_msr :: "kernel \<Rightarrow> u32 \<Rightarrow> u64 \<Rightarrow> unit exp" where
  "vcpu_set_msr K i x = ebind (ecall K (ESetMsr i x)) (\<lambda>a. if a_ret a < 0 \<or> a_ret a \<noteq> 1 then edie else eret ())"

definition vcpu_get_tsc :: "kernel \<Rightarrow> u64 exp" where
  "vcpu_get_tsc K = vcpu_get_msr K 0x10"

definition vm_get_clock :: "kernel \<Rightarrow> u64 exp" where
  "vm_get_clock K = ebind (echeck K EGetClock) (\<lambda>a. eret (a_data a))"

definition vm_set_clock :: "kernel \<Rightarrow> u64 \<Rightarrow> unit exp" where
  "vm_set_clock K c = echecks K [ESetClock c None]"

text \<open>\<open>n\<close> calls are left, \<open>exits\<close> were made.\<close>

fun run_more :: "kernel \<Rightarrow> nat \<Rightarrow> int \<Rightarrow> int exp" where
  "run_more K 0 exits = eret exits"
| "run_more K (Suc n) exits =
     ebind (ecall K ERun) (\<lambda>a.
       if a_ret a < 0 \<and> \<not> a_intr a then edie
       else case a_exit a of
         ExpHlt \<Rightarrow> eret (exits + 1)
       | ExpIo w p \<Rightarrow> run_more K n (exits + 1)
       | _ \<Rightarrow> edie)"

definition run_until_hlt :: "kernel \<Rightarrow> int \<Rightarrow> int exp" where
  "run_until_hlt K max_exits = run_more K (nat max_exits) 0"

section \<open>The TSC experiment\<close>

definition guest_rdtsc :: "u8 list" where
  "guest_rdtsc = [0x0f, 0x31, 0xf4]"

text \<open>C division truncates.\<close>

definition half_khz :: "int \<Rightarrow> int" where
  "half_khz k = (let h = (if k < 0 then - ((- k) div 2) else k div 2) in if h < 1000 then 1000 else h)"

text \<open>The phase with the scaled TSC: the three readings, or nothing if neither call sets the frequency.\<close>

definition exp1_scaled :: "kernel \<Rightarrow> int \<Rightarrow> (u64 \<times> u64) option exp" where
  "exp1_scaled K khz =
     ebind (ecall K (ESetTscKhz (of_int (half_khz khz)))) (\<lambda>a.
     ebind (if a_ret a < 0 then ecall K (EVmSetTscKhz (of_int (half_khz khz))) else eret a) (\<lambda>b.
     if a_ret b \<ge> 0 then
       ebind (ecalls K [EGetTscKhz]) (\<lambda>_.
       ebind (vcpu_set_rip K 0x1000) (\<lambda>_. ebind (ecalls K [ERun]) (\<lambda>_. ebind (vcpu_get_tsc K) (\<lambda>base.
       ebind (vcpu_set_rip K 0x1000) (\<lambda>_. ebind (ecalls K [ERun]) (\<lambda>_. ebind (vcpu_get_tsc K) (\<lambda>tsc3.
       eret (Some (base, tsc3)))))))))
     else eret None))"

definition experiment1 :: "kernel \<Rightarrow> (u64 \<times> u64 \<times> (u64 \<times> u64) option) exp" where
  "experiment1 K =
     ebind (kvm_init K) (\<lambda>_.
     ebind (ecall K (ECheck CapTscControl)) (\<lambda>cap.
     ebind (ecall K (ECheck CapVmTscControl)) (\<lambda>vmcap.
     ebind (ecalls K [ECheck CapGetTscKhz]) (\<lambda>_.
     ebind (vm_create K 0x10000) (\<lambda>_.
     ebind (vcpu_create K) (\<lambda>_.
     ebind (ecall K EGetTscKhz) (\<lambda>khz.
     ebind (exp_load_guest_code K guest_rdtsc 0x1000) (\<lambda>_.
     ebind (ecalls K [ERun]) (\<lambda>_.
     ebind (vcpu_get_tsc K) (\<lambda>tsc1.
     ebind (vcpu_set_rip K 0x1000) (\<lambda>_.
     ebind (ecalls K [ERun]) (\<lambda>_.
     ebind (vcpu_get_tsc K) (\<lambda>tsc2.
     ebind (if a_ret cap \<noteq> 0 \<or> a_ret vmcap \<noteq> 0 then
              ebind (exp1_scaled K (a_ret khz)) (\<lambda>r. ebind (ecalls K [ESetTscKhz (of_int (a_ret khz))]) (\<lambda>_. eret r))
            else eret None) (\<lambda>r.
     ebind (vcpu_destroy K) (\<lambda>_. ebind (vm_destroy K) (\<lambda>_. ebind (kvm_cleanup K) (\<lambda>_.
     eret (tsc1, tsc2, r))))))))))))))))))"

section \<open>The clock experiment\<close>

text \<open>The result: the difference over the sleep, and the jump after setting the clock forward by a second.\<close>

definition experiment2 :: "kernel \<Rightarrow> (u64 \<times> u64 option) exp" where
  "experiment2 K =
     ebind (kvm_init K) (\<lambda>_.
     ebind (ecalls K [ECheck CapAdjustClock]) (\<lambda>_.
     ebind (vm_create K 0x10000) (\<lambda>_.
     ebind (echeck K EGetClock) (\<lambda>c1.
     ebind (ecalls K [ESleep]) (\<lambda>_.
     ebind (echeck K EGetClock) (\<lambda>c2.
     ebind (ecall K (ESetClock (a_data c2 + 1000000000) (Some (a_host_tsc c2)))) (\<lambda>r.
     ebind (if a_ret r < 0 then eret None
            else ebind (echeck K EGetClock) (\<lambda>c4. eret (Some (a_data c4 - a_data c2)))) (\<lambda>jump.
     ebind (vm_destroy K) (\<lambda>_. ebind (kvm_cleanup K) (\<lambda>_.
     eret (a_data c2 - a_data c1, jump)))))))))))"

section \<open>The timer experiment\<close>

text \<open>Registers in the page of \<open>KVM_GET_LAPIC\<close>.\<close>

definition lapic_reg_get :: "u8 list \<Rightarrow> nat \<Rightarrow> u32 res" where
  "lapic_reg_get s off = (if off + 4 \<le> length s then Inr (le_val (take 4 (drop off s))) else Inl OutOfBounds)"

definition lapic_reg_set :: "nat \<Rightarrow> u32 \<Rightarrow> u8 list \<Rightarrow> u8 list res" where
  "lapic_reg_set off v s = (if off + 4 \<le> length s then Inr (take off s @ le_bytes 4 v @ drop (off + 4) s) else Inl OutOfBounds)"

datatype lvtt_mode = OneShot | Periodic | TscDeadline | UnknownMode

definition lvtt_mode_name :: "u32 \<Rightarrow> lvtt_mode" where
  "lvtt_mode_name lvtt =
     (let m = lvtt AND (push_bit 17 1 OR push_bit 17 2) in
      if m = 0 then OneShot else if m = push_bit 17 1 then Periodic else if m = push_bit 17 2 then TscDeadline else UnknownMode)"

abbreviation (input) TIMER_VECTOR :: u8 where "TIMER_VECTOR \<equiv> 0x20"
abbreviation (input) TIMER_PORT :: u8 where "TIMER_PORT \<equiv> 0xe9"
abbreviation (input) APIC_SPIV :: nat where "APIC_SPIV \<equiv> 0xf0"
abbreviation (input) APIC_LVTT :: nat where "APIC_LVTT \<equiv> 0x320"
abbreviation (input) APIC_TMICT :: nat where "APIC_TMICT \<equiv> 0x380"
abbreviation (input) MSR_TSC_DEADLINE :: u32 where "MSR_TSC_DEADLINE \<equiv> 0x6e0"

definition lapic_configure :: "u8 list \<Rightarrow> u8 list res" where
  "lapic_configure s =
     rbind (lapic_reg_get s APIC_SPIV) (\<lambda>spiv0.
     rbind (lapic_reg_set APIC_SPIV (spiv0 OR push_bit 8 1) s) (\<lambda>s1.
     rbind (lapic_reg_set APIC_LVTT (push_bit 17 2 OR ucast TIMER_VECTOR) s1) (\<lambda>s2.
     lapic_reg_set APIC_TMICT 0 s2)))"

definition ivt_entry :: "u8 list" where
  "ivt_entry = [0x00, 0x20, 0x00, 0x00]"

definition timer_handler :: "u8 list" where
  "timer_handler = [0xe6, TIMER_PORT, 0xb9, 0x0b, 0x08, 0x00, 0x00, 0x31, 0xc0, 0x31, 0xd2, 0x0f, 0x30, 0xcf]"

definition timer_main :: "u8 list" where
  "timer_main = [0xfb, 0xeb, 0xfe]"

definition timer_load :: "kernel \<Rightarrow> unit exp" where
  "timer_load K =
     ebind (emem (\<lambda>m. lift (buf_write m 0x80 ivt_entry))) (\<lambda>_.
     ebind (emem (\<lambda>m. lift (buf_write m 0x2000 timer_handler))) (\<lambda>_.
     exp_load_guest_code K timer_main 0x1000))"

definition vcpu_setup_cpuid :: "kernel \<Rightarrow> unit exp" where
  "vcpu_setup_cpuid K = echecks K [ESetCpuid 1 0x000606e3 (push_bit 24 1 OR push_bit 21 1)]"

text \<open>Up to \<open>n\<close> calls of \<open>KVM_RUN\<close>, until one returns with the output of the handler.\<close>

fun wait_irq :: "kernel \<Rightarrow> nat \<Rightarrow> bool exp" where
  "wait_irq K 0 = eret False"
| "wait_irq K (Suc n) =
     ebind (ecall K ERun) (\<lambda>a.
       if a_ret a < 0 \<and> \<not> a_intr a then edie
       else if a_exit a = ExpIo True (ucast TIMER_PORT) then eret True
       else if a_exit a = ExpInternal \<or> a_exit a = ExpShutdown then edie
       else wait_irq K n)"

text \<open>Up to \<open>r\<close> rounds after \<open>tot\<close> interrupts; a round without one is the last.\<close>

fun timer_rounds :: "kernel \<Rightarrow> u64 \<Rightarrow> nat \<Rightarrow> nat \<Rightarrow> nat exp" where
  "timer_rounds K delta 0 tot = eret tot"
| "timer_rounds K delta (Suc r) tot =
     ebind (vcpu_get_tsc K) (\<lambda>now.
     ebind (vcpu_set_msr K MSR_TSC_DEADLINE (now + delta)) (\<lambda>_.
     ebind (vcpu_get_msr K MSR_TSC_DEADLINE) (\<lambda>_.
     ebind (vcpu_get_msr K 0x1b) (\<lambda>_.
     ebind (wait_irq K 1000) (\<lambda>got.
     if got then timer_rounds K delta r (tot + 1) else eret tot)))))"

text \<open>The LAPIC after the configuration, as the kernel shows it, and the number of interrupts.\<close>

definition experiment3 :: "kernel \<Rightarrow> (lvtt_mode \<times> nat) exp" where
  "experiment3 K =
     ebind (kvm_init K) (\<lambda>_.
     ebind (ecalls K [ECheck CapTscDeadline]) (\<lambda>_.
     ebind (vm_create K 0x10000) (\<lambda>_.
     ebind (vm_create_irqchip K) (\<lambda>_.
     ebind (vcpu_create K) (\<lambda>_.
     ebind (vcpu_setup_cpuid K) (\<lambda>_.
     ebind (vcpu_set_msr K 0x1b 0xfee00d00) (\<lambda>_.
     ebind (ecall K EGetTscKhz) (\<lambda>t.
     let khz = (if a_ret t \<le> 0 then 2500000 else a_ret t) in
     ebind (echeck K EGetLapic) (\<lambda>l.
     ebind (\<lambda>s. rbind (lift (lapic_configure (a_lapic l))) (\<lambda>p. Inr (p, s))) (\<lambda>p.
     ebind (echecks K [ESetLapic p]) (\<lambda>_.
     ebind (echeck K EGetLapic) (\<lambda>l2.
     ebind (\<lambda>s. rbind (lift (lapic_reg_get (a_lapic l2) APIC_LVTT)) (\<lambda>v. Inr (v, s))) (\<lambda>lvtt.
     ebind (timer_load K) (\<lambda>_.
     ebind (timer_rounds K (of_int khz * 2) 5 0) (\<lambda>tot.
     ebind (vcpu_destroy K) (\<lambda>_. ebind (vm_destroy K) (\<lambda>_. ebind (kvm_cleanup K) (\<lambda>_.
     eret (lvtt_mode_name lvtt, tot)))))))))))))))))))"

section \<open>What the programs call\<close>

lemma ebind_eq [simp]: "ebind f g s = Inr r \<longleftrightarrow> (\<exists>x s1. f s = Inr (x, s1) \<and> g x s1 = Inr r)"
  by (auto simp: ebind_def rbind_eq_Inr)

lemma eret_eq [simp]: "eret x s = Inr (y, t) \<longleftrightarrow> y = x \<and> t = s"
  by (auto simp: eret_def)

lemma edie_eq [simp]: "edie s \<noteq> Inr r"
  by (simp add: edie_def)

lemma ecall_eq [simp]: "ecall K c s = Inr (a, t) \<longleftrightarrow> a = K (trace s) c \<and> t = s\<lparr>trace := trace s @ [c]\<rparr>"
  by (auto simp: ecall_def)

lemma echeck_eq [simp]:
  "echeck K c s = Inr (a, t) \<longleftrightarrow> a = K (trace s) c \<and> 0 \<le> a_ret a \<and> t = s\<lparr>trace := trace s @ [c]\<rparr>"
  by (auto simp: echeck_def)

lemma emem_eq [simp]: "emem f s = Inr (u, t) \<longleftrightarrow> (\<exists>m. f (gmem s) = Inr m \<and> t = s\<lparr>gmem := m\<rparr>)"
  by (auto simp: emem_def rbind_eq_Inr)

lemmas exp_defs = kvm_init_def kvm_cleanup_def vm_create_def vm_create_irqchip_def vm_destroy_def vcpu_create_def vcpu_destroy_def
  exp_load_guest_code_def vcpu_set_rip_def vcpu_get_msr_def vcpu_set_msr_def vcpu_get_tsc_def vcpu_setup_cpuid_def timer_load_def

definition runs :: "exp_call list \<Rightarrow> nat" where
  "runs tr = length (filter (\<lambda>c. c = ERun) tr)"

lemma runs_simps [simp]: "runs [] = 0" "runs (tr @ tr') = runs tr + runs tr'" "runs (c # tr) = (if c = ERun then 1 else 0) + runs tr"
  by (simp_all add: runs_def)

lemma run_until_hlt_bound:
  assumes "run_until_hlt K m s = Inr (n, t)"
  shows "0 \<le> n \<and> n \<le> max 0 m \<and> gmem t = gmem s \<and> trace t = trace s @ replicate (nat n) ERun"
proof -
  have "run_more K k e u = Inr (n, t) \<Longrightarrow> e \<le> n \<and> n \<le> e + int k \<and> gmem t = gmem u \<and> trace t = trace u @ replicate (nat (n - e)) ERun" for k e u
  proof (induction k arbitrary: e u)
    case (Suc k)
    let ?u = "u\<lparr>trace := trace u @ [ERun]\<rparr>"
    from Suc.prems have "n = e + 1 \<and> t = ?u \<or> run_more K k (e + 1) ?u = Inr (n, t)"
      by (auto split: if_splits exp_exit.splits)
    then show ?case
    proof
      assume "run_more K k (e + 1) ?u = Inr (n, t)"
      from Suc.IH [OF this] have i: "e + 1 \<le> n" "n \<le> e + 1 + int k" "gmem t = gmem u" "trace t = trace u @ ERun # replicate (nat (n - (e + 1))) ERun"
        by simp_all
      then have "nat (n - e) = Suc (nat (n - (e + 1)))" by linarith
      with i show ?thesis by simp
    qed simp
  qed simp
  from this [OF assms [unfolded run_until_hlt_def]]
  have b: "0 \<le> n" "n \<le> int (nat m)" "gmem t = gmem s" "trace t = trace s @ replicate (nat n) ERun" by simp_all
  have "n \<le> max 0 m" using b(2) by (cases "0 \<le> m") simp_all
  with b show ?thesis by blast
qed

definition round_call :: "exp_call \<Rightarrow> bool" where
  "round_call c \<longleftrightarrow> c = ERun \<or> c \<in> {EGetMsr 0x10, EGetMsr MSR_TSC_DEADLINE, EGetMsr 0x1b} \<or> (\<exists>x. c = ESetMsr MSR_TSC_DEADLINE x)"

lemma wait_irq_trace:
  "wait_irq K n s = Inr (b, t) \<Longrightarrow> \<exists>k \<le> n. t = s\<lparr>trace := trace s @ replicate k ERun\<rparr>"
proof (induction n arbitrary: s)
  case (Suc n)
  let ?s = "s\<lparr>trace := trace s @ [ERun]\<rparr>"
  from Suc.prems have "t = ?s \<or> wait_irq K n ?s = Inr (b, t)" by (auto split: if_splits)
  then show ?case
  proof
    assume "wait_irq K n ?s = Inr (b, t)"
    from Suc.IH [OF this] obtain k where "k \<le> n" "t = ?s\<lparr>trace := trace ?s @ replicate k ERun\<rparr>" by blast
    then show ?thesis by (intro exI [of _ "Suc k"]) simp
  qed (intro exI [of _ 1], simp)
qed simp

lemma timer_rounds_trace:
  "timer_rounds K delta r tot s = Inr (n, t) \<Longrightarrow>
     \<exists>mid. t = s\<lparr>trace := trace s @ mid\<rparr> \<and> (\<forall>c \<in> set mid. round_call c) \<and> runs mid \<le> 1000 * r \<and> tot \<le> n \<and> n \<le> tot + r"
proof (induction r arbitrary: tot s)
  case (Suc r)
  let ?d = "a_data (K (trace s) (EGetMsr 0x10)) + delta"
  let ?pre = "[EGetMsr 0x10, ESetMsr MSR_TSC_DEADLINE ?d, EGetMsr MSR_TSC_DEADLINE, EGetMsr 0x1b]"
  obtain b u where w: "wait_irq K 1000 (s\<lparr>trace := trace s @ ?pre\<rparr>) = Inr (b, u)"
    and k: "if b then timer_rounds K delta r (tot + 1) u = Inr (n, t) else n = tot \<and> t = u"
    using Suc.prems by (auto simp: vcpu_get_tsc_def vcpu_get_msr_def vcpu_set_msr_def split: if_splits)
  obtain k where u: "k \<le> 1000" "u = s\<lparr>trace := trace s @ ?pre @ replicate k ERun\<rparr>"
    using wait_irq_trace [OF w] by auto
  have rk: "runs (replicate k ERun) = k" by (simp add: runs_def)
  show ?case
  proof (cases b)
    case True
    then obtain mid where "t = u\<lparr>trace := trace u @ mid\<rparr>" "\<forall>c \<in> set mid. round_call c" "runs mid \<le> 1000 * r" "tot + 1 \<le> n" "n \<le> tot + 1 + r"
      using Suc.IH [of "tot + 1" u] k by auto
    then show ?thesis using u rk
      by (intro exI [of _ "?pre @ replicate k ERun @ mid"]) (auto simp: round_call_def)
  next
    case False
    then show ?thesis using k u rk by (intro exI [of _ "?pre @ replicate k ERun"]) (auto simp: round_call_def)
  qed
qed (intro exI [of _ "[]"], simp)

text \<open>
  Whatever the kernel answers, a timer experiment that ends has made its calls in the order the comments ask for: the interrupt
  controller before the virtual CPU, the CPUID before the x2APIC mode, the LAPIC before any deadline; it ran the guest at most
  5000 times and gave everything back.
\<close>

definition exp3_before :: "u8 list \<Rightarrow> kvm_sregs \<Rightarrow> exp_call list" where
  "exp3_before p q = [EOpen, EVersion, ECheck CapTscDeadline, ECreateVm, EMapRam 0x10000, ESetMemory 0x10000, ECreateIrqchip,
     ECreateVcpu, ERunSize, EMapRun, ESetCpuid 1 0x606e3 0x1200000, ESetMsr 0x1b 0xfee00d00, EGetTscKhz, EGetLapic, ESetLapic p, EGetLapic,
     EGetSregs, ESetSregs q, EGetRegs, ESetRegs 0x1000 2]"

definition exp_after :: "exp_call list" where
  "exp_after = [EUnmapRun, ECloseVcpu, EUnmapRam, ECloseVm, ECloseKvm]"

lemma experiment3_trace:
  assumes "experiment3 K s = Inr ((mode, n), t)"
  shows "\<exists>p q mid. trace t = trace s @ exp3_before p q @ mid @ exp_after \<and> (\<forall>c \<in> set mid. round_call c) \<and> runs mid \<le> 5000 \<and> n \<le> 5"
proof -
  have "\<exists>delta s1 s2 p q. timer_rounds K delta 5 0 s1 = Inr (n, s2) \<and> trace s1 = trace s @ exp3_before p q \<and> trace t = trace s2 @ exp_after"
    using assms
    by (clarsimp simp: experiment3_def exp_defs Let_def exp3_before_def exp_after_def rbind_eq_Inr split: if_split_asm)
      (intro exI conjI, assumption, simp, simp)+
  then obtain p q delta s1 s2 where 1: "trace s1 = trace s @ exp3_before p q" "timer_rounds K delta 5 0 s1 = Inr (n, s2)"
    "trace t = trace s2 @ exp_after" by blast
  from timer_rounds_trace [OF 1(2)] obtain mid where "s2 = s1\<lparr>trace := trace s1 @ mid\<rparr>" "\<forall>c \<in> set mid. round_call c"
      "runs mid \<le> 5000" "n \<le> 5" by auto
  with 1 show ?thesis by (intro exI [of _ p] exI [of _ q] exI [of _ mid]) simp
qed

text \<open>In the TSC experiment the last frequency set is the one read at the start, also when reading it failed.\<close>

lemma exp1_restores:
  assumes "experiment1 K s = Inr ((tsc1, tsc2, Some r), t)"
  shows "\<exists>tr u. trace t = tr @ [ESetTscKhz (of_int (a_ret (K u EGetTscKhz)))] @ exp_after"
  using assms by (auto simp: experiment1_def exp_defs exp_after_def split: if_splits)

lemma rdtsc_guest:
  assumes "code_at (ram c) (csb c + ip c) guest_rdtsc" "clock c = x # xs" "ip c = 0x1000"
  shows "\<exists>h. steps False 2 c = Halted h \<and> gpr h 0 = ucast x \<and> gpr h 2 = ucast (drop_bit 32 x) \<and> ip h = 0x1003"
proof -
  let ?c1 = "(put_reg 0 (ucast x) (put_reg 2 (ucast (drop_bit 32 x)) (c\<lparr>clock := xs\<rparr>)))\<lparr>ip := 0x1002\<rparr>"
  have "steps False (Suc 1) c = steps False 1 ?c1"
    by (rule steps_code [of c "[0x0f, 0x31]" False False Rdtsc]) (use assms in \<open>simp_all add: guest_rdtsc_def exec_simps\<close>)
  also have "\<dots> = Halted (?c1\<lparr>ip := 0x1003\<rparr>)"
    unfolding One_nat_def
    by (subst steps_halt [of _ "[0xf4]" False False]) (use assms in \<open>simp_all add: guest_rdtsc_def low16_def put_reg_def ac_simps\<close>)
  finally show ?thesis by (simp add: put_reg_def numeral_2_eq_2 del: steps.simps)
qed

section \<open>A kernel that serves\<close>

text \<open>Every call succeeds, and \<open>KVM_RUN\<close> returns with the exits of a list, one after the other.\<close>

definition coop :: "kernel \<Rightarrow> kvm_sregs \<Rightarrow> exp_exit list \<Rightarrow> bool" where
  "coop K q xs \<longleftrightarrow> (\<forall>tr. a_ret (K tr EVersion) = 12) \<and> (\<forall>tr i. a_ret (K tr (EGetMsr i)) = 1) \<and> (\<forall>tr i x. a_ret (K tr (ESetMsr i x)) = 1) \<and>
     (\<forall>tr c. 0 \<le> a_ret (K tr c)) \<and> (\<forall>tr. length (a_lapic (K tr EGetLapic)) = 0x400) \<and> (\<forall>tr. a_sregs (K tr EGetSregs) = q) \<and>
     (\<forall>tr. runs tr < length xs \<longrightarrow> a_exit (K tr ERun) = xs ! runs tr)"

lemma ebind_run: "f s = Inr (x, s1) \<Longrightarrow> ebind f g s = g x s1"
  by (simp add: ebind_def)

lemma coop_call: "coop K q xs \<Longrightarrow> echeck K c s = Inr (K (trace s) c, s\<lparr>trace := trace s @ [c]\<rparr>)"
  by (simp add: coop_def)

lemma coop_calls:
  "coop K q xs \<Longrightarrow> echecks K cs s = Inr ((), s\<lparr>trace := trace s @ cs\<rparr>)" "ecalls K cs s = Inr ((), s\<lparr>trace := trace s @ cs\<rparr>)"
  by (induction cs arbitrary: s) (auto simp: coop_def)

lemma coop_wait:
  assumes "coop K q xs" "runs (trace s) < length xs" "xs ! runs (trace s) = ExpIo True 0xe9"
  shows "wait_irq K 1000 s = Inr (True, s\<lparr>trace := trace s @ [ERun]\<rparr>)"
proof -
  have n: "(1000 :: nat) = Suc 999" by simp
  have "a_exit (K (trace s) ERun) = ExpIo True 0xe9" "0 \<le> a_ret (K (trace s) ERun)" using assms by (simp_all add: coop_def)
  then show ?thesis unfolding n wait_irq.simps(2) by (auto simp del: wait_irq.simps)
qed

lemma coop_rounds:
  assumes "coop K q xs" "set xs \<subseteq> {ExpIo True 0xe9}"
  shows "runs (trace s) + r \<le> length xs \<Longrightarrow> \<exists>t. timer_rounds K delta r tot s = Inr (tot + r, t) \<and> gmem t = gmem s \<and> (\<exists>mid. trace t = trace s @ mid)"
proof (induction r arbitrary: s tot)
  case (Suc r)
  let ?d = "a_data (K (trace s) (EGetMsr 0x10)) + delta"
  let ?s = "s\<lparr>trace := trace s @ [EGetMsr 0x10, ESetMsr MSR_TSC_DEADLINE ?d, EGetMsr MSR_TSC_DEADLINE, EGetMsr 0x1b]\<rparr>"
  have a: "a_ret (K tr (EGetMsr i)) = 1" "a_ret (K tr (ESetMsr i x)) = 1" for tr i x using assms(1) by (simp_all add: coop_def)
  have "runs (trace ?s) < length xs" using Suc.prems by simp
  moreover have "xs ! runs (trace ?s) = ExpIo True 0xe9" using assms(2) nth_mem [OF calculation] by blast
  ultimately have w: "wait_irq K 1000 ?s = Inr (True, ?s\<lparr>trace := trace ?s @ [ERun]\<rparr>)" by (rule coop_wait [OF assms(1)])
  obtain t where t: "timer_rounds K delta r (tot + 1) (?s\<lparr>trace := trace ?s @ [ERun]\<rparr>) = Inr (tot + 1 + r, t)" "gmem t = gmem s"
      "\<exists>mid. trace t = trace s @ mid"
    using Suc.IH [of "?s\<lparr>trace := trace ?s @ [ERun]\<rparr>" "tot + 1"] Suc.prems by auto
  have "timer_rounds K delta (Suc r) tot s = Inr (tot + 1 + r, t)"
    using t(1) w by (auto simp: vcpu_get_tsc_def vcpu_get_msr_def vcpu_set_msr_def a)
  then show ?case using t(2,3) by (intro exI [of _ t]) (simp del: timer_rounds.simps ebind_eq)
qed simp

lemma lapic_configure_ok: "length s = 0x400 \<Longrightarrow> \<exists>p. lapic_configure s = Inr p \<and> length p = 0x400"
  by (simp add: lapic_configure_def lapic_reg_get_def lapic_reg_set_def)

section \<open>The guest of the timer experiment\<close>

definition timer_code :: "(u32 \<Rightarrow> u8) \<Rightarrow> bool" where
  "timer_code m \<longleftrightarrow> code_at m 0x80 ivt_entry \<and> code_at m 0x1000 timer_main \<and> code_at m 0x2000 timer_handler"

text \<open>Spinning at the jump with interrupts on; registers as after a reset: high halves, BX, SI and SP zero.\<close>

definition timer_ready :: "cpu \<Rightarrow> bool" where
  "timer_ready c \<longleftrightarrow> timer_code (ram c) \<and> csb c = 0 \<and> ip c = 0x1001 \<and> intf c \<and> gpr c 0 = 0 \<and> gpr c 1 AND 0xffff0000 = 0 \<and>
     gpr c 2 AND 0xffff0000 = 0 \<and> gpr c 3 = 0 \<and> gpr c 4 = 0 \<and> gpr c 6 = 0"

lemma timer_spin: "timer_ready c \<Longrightarrow> steps False k c = Runs c"
proof (induction k)
  case (Suc k)
  have "steps False (Suc k) c = steps False k c"
    by (rule steps_code [of c "[0xeb, 0xfe]" False False "Jmp (- 2)"])
      (use Suc.prems decodes_16(8) [of "0xfe"] in \<open>simp_all add: timer_ready_def timer_code_def timer_main_def exec_simps\<close>)
  then show ?case using Suc by simp
qed simp

text \<open>The six bytes an interrupt pushes when SP is 0.\<close>

definition timer_pushed :: "cpu \<Rightarrow> u32 \<Rightarrow> u8" where
  "timer_pushed c = (ram c)(0xfffe := if zf c then 0x42 else 0x02, 0xffff := 0x02, 0xfffc := 0, 0xfffd := 0, 0xfffa := 0x01, 0xfffb := 0x10)"

lemma timer_entry:
  assumes "timer_ready c"
  shows "interrupt 0x20 c = c\<lparr>gpr := (gpr c)(4 := 0xfffa), ram := timer_pushed c, ip := 0x2000, csb := 0, intf := False\<rparr>"
proof -
  have n: "(578 :: u8) = 0x42" "(514 :: u8) = 2" "(4097 :: u8) = 1" by simp_all
  show ?thesis
    using assms
    by (simp add: timer_ready_def timer_code_def ivt_entry_def interrupt_def push16_def set_op_def put_reg_def flags16_def
        timer_pushed_def Let_def n)
qed

lemma timer_pushed_code: "timer_code (ram c) \<Longrightarrow> timer_code (timer_pushed c)" "timer_pushed c 0 = ram c 0"
  by (simp_all add: timer_code_def timer_pushed_def ivt_entry_def timer_main_def timer_handler_def)

lemma upper_zero: "w AND 0xffff0000 = 0 \<Longrightarrow> (w AND 0xffff0000) OR x = x" for w x :: u32
  by simp

text \<open>The handler: the third instruction is what the last two bytes of the intended 32-bit move are in 16-bit code.\<close>

lemma timer_handler_runs:
  assumes "timer_ready c"
  shows "steps False 7 (interrupt 0x20 c) =
    Runs (c\<lparr>gpr := (gpr c)(1 := 0x80b, 2 := 0), ip := 0x1001, csb := 0, zf := zf c, intf := True, ram := timer_pushed c,
      log := log c @ [OutB 0xe9 0, WrMsr 0x80b 0]\<rparr>)"
proof -
  let ?g = "gpr c" and ?m = "timer_pushed c"
  have h: "code_at ?m 0x2000 timer_handler" "?m 0 = ram c 0" and r: "?g 0 = 0" "?g 1 AND 0xffff0000 = 0" "?g 2 AND 0xffff0000 = 0" "?g 3 = 0" "?g 6 = 0"
    using assms timer_pushed_code [of c] by (simp_all add: timer_ready_def timer_code_def)
  note code = h(1) [unfolded timer_handler_def, simplified]
  let ?c0 = "c\<lparr>gpr := ?g(4 := 0xfffa), ram := ?m, ip := 0x2000, csb := 0, intf := False\<rparr>"
  let ?c1 = "?c0\<lparr>ip := 0x2002, log := log c @ [OutB 0xe9 0]\<rparr>"
  let ?c2 = "?c1\<lparr>ip := 0x2005, gpr := ?g(4 := 0xfffa, 1 := 0x80b)\<rparr>"
  let ?c3 = "?c2\<lparr>ip := 0x2007, zf := (ram c 0 = 0)\<rparr>"
  let ?c4 = "?c2\<lparr>ip := 0x2009, gpr := ?g(4 := 0xfffa, 1 := 0x80b, 0 := 0), zf := True\<rparr>"
  let ?c5 = "?c2\<lparr>ip := 0x200b, gpr := ?g(4 := 0xfffa, 1 := 0x80b, 0 := 0, 2 := 0), zf := True\<rparr>"
  let ?c6 = "?c5\<lparr>ip := 0x200d, log := log c @ [OutB 0xe9 0, WrMsr 0x80b 0]\<rparr>"
  have mm: "?m(0 := ram c 0) = ?m" using h(2) by (simp add: fun_upd_idem)
  have "steps False (Suc 6) ?c0 = steps False 6 ?c1"
    by (rule steps_code [of ?c0 "[0xe6, 0xe9]" False False "OutImm 0xe9"]) (use code r in \<open>simp_all add: exec_simps\<close>)
  also have "steps False 6 ?c1 = steps False (Suc 5) ?c1" by simp
  also have "\<dots> = steps False 5 ?c2"
    by (rule steps_code [of ?c1 "[0xb9, 0x0b, 0x08]" False False "MovImm 1 0x80b"])
      (use code r decodes_16(2) [of "0x0b" 8] in \<open>simp_all add: exec_simps\<close>)
  also have "steps False 5 ?c2 = steps False (Suc 4) ?c2" by simp
  also have "\<dots> = steps False 4 ?c3"
    by (rule steps_code [of ?c2 "[0x00, 0x00]" False False "AddMem8 0"]) (use code r h(2) mm in \<open>simp_all add: exec_simps\<close>)
  also have "steps False 4 ?c3 = steps False (Suc 3) ?c3" by simp
  also have "\<dots> = steps False 3 ?c4"
    by (rule steps_code [of ?c3 "[0x31, 0xc0]" False False "XorRR 0 0"]) (use code r in \<open>simp_all add: exec_simps\<close>)
  also have "steps False 3 ?c4 = steps False (Suc 2) ?c4" by simp
  also have "\<dots> = steps False 2 ?c5"
    by (rule steps_code [of ?c4 "[0x31, 0xd2]" False False "XorRR 2 2"]) (use code r in \<open>simp_all add: exec_simps\<close>)
  also have "steps False 2 ?c5 = steps False (Suc 1) ?c5" by (simp only: Suc_1)
  also have "\<dots> = steps False 1 ?c6"
    by (rule steps_code [of ?c5 "[0x0f, 0x30]" False False Wrmsr]) (use code r in \<open>simp_all add: exec_simps\<close>)
  also have "steps False 1 ?c6 = Runs (iret16 (?c6\<lparr>ip := 0x200e\<rparr>))"
    using steps_code [of ?c6 "[0xcf]" False False Iret "iret16 (?c6\<lparr>ip := 0x200e\<rparr>)" 0] code by (simp add: exec_simps)
  finally have s: "steps False 7 ?c0 = Runs (iret16 (?c6\<lparr>ip := 0x200e\<rparr>))" by (simp add: numeral_eq_Suc del: steps.simps)
  have w: "?m 0xfffa = 0x01" "?m 0xfffb = 0x10" "?m 0xfffc = 0" "?m 0xfffd = 0" "?m 0xfffe = (if zf c then 0x42 else 0x02)" "?m 0xffff = 2"
    by (simp_all add: timer_pushed_def)
  have g: "?g 4 = 0" using assms by (simp add: timer_ready_def)
  have f: "?g(4 := 0, Suc 0 := 0x80b, 0 := 0, 2 := 0) = ?g(Suc 0 := 0x80b, 2 := 0)"
    using g r by (auto simp: fun_eq_iff)
  have b: "bit (0x242 :: u16) 6" "bit (0x242 :: u16) 9" "\<not> bit (0x202 :: u16) 6" "bit (0x202 :: u16) 9" by simp_all
  have "iret16 (?c6\<lparr>ip := 0x200e\<rparr>) = c\<lparr>gpr := ?g(1 := 0x80b, 2 := 0), ip := 0x1001, csb := 0, zf := zf c, intf := True, ram := ?m,
      log := log c @ [OutB 0xe9 0, WrMsr 0x80b 0]\<rparr>"
    using f by (simp add: iret16_def pop16_def set_op_def put_reg_def Let_def w fun_upd_twist b)
  then show ?thesis unfolding timer_entry [OF assms] s by simp
qed

text \<open>
  The guest under interrupts: each number is how many instructions pass before the next interrupt is injected, which KVM does only
  with IF set.
\<close>

fun timer_guest :: "nat list \<Rightarrow> cpu \<Rightarrow> outcome" where
  "timer_guest [] c = Runs c"
| "timer_guest (k # ks) c =
     (case steps False k c of
        Runs c1 \<Rightarrow>
          if \<not> intf c1 then Stuck
          else (case steps False 7 (interrupt TIMER_VECTOR c1) of Runs c2 \<Rightarrow> timer_guest ks c2 | r \<Rightarrow> r)
      | r \<Rightarrow> r)"

definition irq_log :: "out list" where
  "irq_log = [OutB 0xe9 0, WrMsr 0x80b 0]"

definition below_stack :: "(u32 \<Rightarrow> u8) \<Rightarrow> (u32 \<Rightarrow> u8) \<Rightarrow> bool" where
  "below_stack m m' \<longleftrightarrow> (\<forall>a. a < 0xfffa \<longrightarrow> m' a = m a)"

lemma timer_irq:
  assumes "timer_ready c"
  shows "\<exists>c'. steps False 7 (interrupt 0x20 c) = Runs c' \<and> timer_ready c' \<and> log c' = log c @ irq_log \<and> below_stack (ram c) (ram c')"
proof -
  let ?c' = "c\<lparr>gpr := (gpr c)(1 := 0x80b, 2 := 0), ip := 0x1001, csb := 0, zf := zf c, intf := True, ram := timer_pushed c,
      log := log c @ [OutB 0xe9 0, WrMsr 0x80b 0]\<rparr>"
  have "timer_ready ?c'" using assms timer_pushed_code [of c] by (simp add: timer_ready_def)
  moreover have "below_stack (ram c) (timer_pushed c)" by (auto simp: below_stack_def timer_pushed_def)
  ultimately show ?thesis using timer_handler_runs [OF assms] by (simp add: irq_log_def)
qed

lemma timer_guest_runs:
  "timer_ready c \<Longrightarrow> \<exists>c'. timer_guest ks c = Runs c' \<and> timer_ready c' \<and>
     log c' = log c @ concat (replicate (length ks) irq_log) \<and> below_stack (ram c) (ram c')"
proof (induction ks arbitrary: c)
  case (Cons k ks)
  obtain c1 where 1: "steps False 7 (interrupt 0x20 c) = Runs c1" "timer_ready c1" "log c1 = log c @ irq_log" "below_stack (ram c) (ram c1)"
    using timer_irq [OF Cons.prems] by blast
  obtain c' where 2: "timer_guest ks c1 = Runs c'" "timer_ready c'" "log c' = log c1 @ concat (replicate (length ks) irq_log)"
      "below_stack (ram c1) (ram c')"
    using Cons.IH [OF 1(2)] by blast
  have "intf c" using Cons.prems by (simp add: timer_ready_def)
  with 1 2 timer_spin [OF Cons.prems, of k] show ?case by (auto simp: below_stack_def)
qed (simp add: below_stack_def)

section \<open>The experiment as a whole\<close>

definition exp_start :: "kvm_sregs \<Rightarrow> (nat \<Rightarrow> u32) \<Rightarrow> u64 \<Rightarrow> cbuf \<Rightarrow> cpu" where
  "exp_start s g a m = cpu_start (exp_sregs s) g a 2 (ram_fun m)"

text \<open>Of what the guest does only a port access leaves the kernel; the write to the EOI register stays inside.\<close>

fun exit_of :: "out \<Rightarrow> exp_exit list" where
  "exit_of (OutB p v) = [ExpIo True p]"
| "exit_of (WrMsr i v) = []"

definition exp_empty :: exp_state where
  "exp_empty = \<lparr>trace = [], gmem = \<lparr>bsize = 0, bdata = \<lambda>_. 0\<rparr>\<rparr>"

text \<open>Guest memory after loading.\<close>

definition timer_mem :: cbuf where
  "timer_mem = \<lparr>bsize = 0x10000, bdata = bytes_upd (bytes_upd (bytes_upd (\<lambda>_. 0) 0x80 ivt_entry) 0x2000 timer_handler) 0x1000 timer_main\<rparr>"

lemma timer_mem_code: "timer_code (ram_fun timer_mem)"
  by (simp add: timer_code_def timer_mem_def ivt_entry_def timer_handler_def timer_main_def ram_fun_def bytes_upd_def)

lemma ecall_run: "ecall K c s = Inr (K (trace s) c, s\<lparr>trace := trace s @ [c]\<rparr>)"
  by (simp add: ecall_def)

lemma experiment3_runs:
  assumes "coop K q xs" "set xs \<subseteq> {ExpIo True 0xe9}" "5 \<le> length xs"
  shows "\<exists>mode t. experiment3 K exp_empty = Inr ((mode, 5), t) \<and> gmem t = timer_mem \<and>
    ESetSregs (exp_sregs q) \<in> set (trace t) \<and> ESetRegs 0x1000 2 \<in> set (trace t)"
proof -
  note c = coop_call [OF assms(1)] coop_calls(1) [OF assms(1)] coop_calls(2)
  have r: "a_ret (K tr EVersion) = 12" "a_ret (K tr (ESetMsr i x)) = 1" "length (a_lapic (K tr EGetLapic)) = 0x400" "a_sregs (K tr EGetSregs) = q" for tr i x
    using assms(1) by (simp_all add: coop_def)
  have i: "kvm_init K s = Inr ((), s\<lparr>trace := trace s @ [EOpen, EVersion]\<rparr>)" for s
    by (simp add: kvm_init_def ebind_run [OF c(1)] ebind_run [OF ecall_run] r)
  have m: "vcpu_set_msr K j x s = Inr ((), s\<lparr>trace := trace s @ [ESetMsr j x]\<rparr>)" for j x s
    by (simp add: vcpu_set_msr_def ebind_run [OF ecall_run] r)
  have v: "vm_create K n s = Inr ((), s\<lparr>trace := trace s @ [ECreateVm, EMapRam n, ESetMemory n], gmem := \<lparr>bsize = n, bdata = \<lambda>_. 0\<rparr>\<rparr>)" for n s
    by (simp add: vm_create_def emem_def c(2) ebind_def del: echecks.simps)
  have l: "timer_load K \<lparr>trace = tr, gmem = \<lparr>bsize = 0x10000, bdata = \<lambda>_. 0\<rparr>\<rparr> =
      Inr ((), \<lparr>trace = tr @ [EGetSregs, ESetSregs (exp_sregs q), EGetRegs, ESetRegs 0x1000 2], gmem = timer_mem\<rparr>)" for tr
    by (simp add: timer_load_def exp_load_guest_code_def emem_def exp_place_def ebind_def c r buf_write_def ivt_entry_def timer_handler_def timer_main_def timer_mem_def del: echecks.simps)
  have "\<forall>tr. \<exists>p. lapic_configure (a_lapic (K tr EGetLapic)) = Inr p" using lapic_configure_ok r(3) by blast
  then obtain P where P: "\<And>tr. lapic_configure (a_lapic (K tr EGetLapic)) = Inr (P tr)" by metis
  have "\<forall>tr. \<exists>x. lapic_reg_get (a_lapic (K tr EGetLapic)) APIC_LVTT = Inr x" using r(3) by (simp add: lapic_reg_get_def)
  then obtain V where V: "\<And>tr. lapic_reg_get (a_lapic (K tr EGetLapic)) APIC_LVTT = Inr (V tr)" by metis
  have "\<exists>d mode s1 p. experiment3 K exp_empty = rbind (timer_rounds K d 5 0 s1) (\<lambda>p. Inr ((mode, fst p), (snd p)\<lparr>trace := trace (snd p) @ exp_after\<rparr>)) \<and>
      gmem s1 = timer_mem \<and> trace s1 = exp3_before p (exp_sregs q)"
    unfolding experiment3_def Let_def exp_empty_def vm_create_irqchip_def vcpu_create_def vcpu_setup_cpuid_def vcpu_destroy_def vm_destroy_def kvm_cleanup_def
    by (simp add: ebind_def i m v l c P V ecall_run r eret_def case_prod_unfold exp3_before_def exp_after_def
        split del: if_split del: echecks.simps ecalls.simps timer_rounds.simps ebind_eq echeck_eq) (intro exI conjI, rule refl, simp_all)
  then obtain d mode s1 p where e: "gmem s1 = timer_mem" "trace s1 = exp3_before p (exp_sregs q)"
    "experiment3 K exp_empty = rbind (timer_rounds K d 5 0 s1) (\<lambda>p. Inr ((mode, fst p), (snd p)\<lparr>trace := trace (snd p) @ exp_after\<rparr>))" by blast
  have "runs (trace s1) + 5 \<le> length xs" using assms(3) by (simp add: e(2) exp3_before_def)
  then obtain u mid where u: "timer_rounds K d 5 0 s1 = Inr (5, u)" "gmem u = timer_mem" "trace u = trace s1 @ mid"
    using coop_rounds [OF assms(1,2), of s1 5 d 0] e(1) by auto
  have "experiment3 K exp_empty = Inr ((mode, 5), u\<lparr>trace := trace u @ exp_after\<rparr>)" using e(3) u(1) by simp
  then show ?thesis using u(2,3) e(2) by (intro exI [of _ mode] exI [of _ "u\<lparr>trace := trace u @ exp_after\<rparr>"]) (simp add: exp3_before_def)
qed


section \<open>A concrete run\<close>

definition ex_sregs :: kvm_sregs where
  "ex_sregs = \<lparr>r_cs = no_segment, r_ds = no_segment, r_es = no_segment, r_fs = no_segment, r_gs = no_segment, r_ss = no_segment,
     r_tr = no_segment, r_ldt = no_segment, gdt_base = 0, gdt_limit = 0, idt_base = 0, idt_limit = 0, cr0 = 0x60000010, cr3 = 0, cr4 = 0, efer = 0\<rparr>"

definition ex_kernel :: "exp_exit list \<Rightarrow> kernel" where
  "ex_kernel xs tr c = \<lparr>a_ret = (case c of EVersion \<Rightarrow> 12 | EGetMsr _ \<Rightarrow> 1 | ESetMsr _ _ \<Rightarrow> 1 | _ \<Rightarrow> 0), a_intr = False, a_data = 0, a_host_tsc = 0,
     a_rip = 0, a_flags = 2, a_sregs = ex_sregs, a_lapic = replicate 0x400 0, a_exit = (if runs tr < length xs then xs ! runs tr else ExpOther)\<rparr>"

lemma ex_kernel_coop: "coop (ex_kernel xs) ex_sregs xs"
  by (simp add: coop_def ex_kernel_def split: exp_call.split)


end
