(* ===== verification/VmxDemo.thy ===== *)
theory VmxDemo
  imports MiniHw
begin

text \<open>
  The stand-alone module \<open>vmx-demo.c\<close>: from the check of the processor through VMXON, VMCLEAR, VMPTRLD and the
  configuration of a VMCS to VMXOFF, on the machine of \<open>MiniVmx\<close>.  Unlike \<open>mini-kvm\<close> its wrappers have no exception
  table: an instruction the processor rejects is an oops, here \<open>InvalidOpcode\<close>.
\<close>

section \<open>Instruction wrappers\<close>

text \<open>The flag is \<open>setna\<close>.  \<open>flt\<close> are the causes of a fault of VMXON outside the model.\<close>

definition do_vmxon :: "(nat \<Rightarrow> bool) \<Rightarrow> u64 \<Rightarrow> mk_world \<Rightarrow> (bool \<times> mk_world) res" where
  "do_vmxon flt phys w =
     (let c = this_cpu w in
      if cr4 c AND X86_CR4_VMXE = 0 then Inl InvalidOpcode
      else if in_vmx c then Inr (True, w)
      else if mini_rdmsr MSR_FEAT_CTL w AND (1 OR 4) \<noteq> 1 OR 4 \<or> flt (cur_cpu w) then Inl InvalidOpcode
      else if vrev (regions w phys) \<noteq> ucast (mini_rdmsr MSR_VMX_BASIC w AND 0x7fffffff) then Inr (True, w)
      else Inr (False, upd_cpu (cur_cpu w) (\<lambda>s. s\<lparr>in_vmx := True, current_vmcs := None\<rparr>) w))"

definition do_vmxoff :: "mk_world \<Rightarrow> mk_world res" where
  "do_vmxoff w = in_operation w (\<lambda>w. Inr (upd_cpu (cur_cpu w) (\<lambda>s. s\<lparr>in_vmx := False, current_vmcs := None\<rparr>) w))"

definition do_vmclear :: "u64 \<Rightarrow> mk_world \<Rightarrow> (bool \<times> mk_world) res" where
  "do_vmclear p w = rbind (mini_vmclear p w) (\<lambda>(r, w1). Inr (r \<noteq> 0, w1))"

definition do_vmptrld :: "u64 \<Rightarrow> mk_world \<Rightarrow> (bool \<times> mk_world) res" where
  "do_vmptrld p w = rbind (mini_vmptrld p w) (\<lambda>(r, w1). Inr (r \<noteq> 0, w1))"

definition do_vmwrite :: "u32 \<Rightarrow> u64 \<Rightarrow> mk_world \<Rightarrow> mk_world res" where
  "do_vmwrite f x w = rbind (mini_vmwrite f x w) (\<lambda>(_, w1). Inr w1)"

fun do_vmwrites :: "(u32 \<times> u64) list \<Rightarrow> mk_world \<Rightarrow> mk_world res" where
  "do_vmwrites [] w = Inr w"
| "do_vmwrites ((f, x) # fxs) w = rbind (do_vmwrite f x w) (do_vmwrites fxs)"

section \<open>The VMCS of the demo\<close>

text \<open>\<open>d_va\<close> is where the kernel maps a page, \<open>d_resume\<close> the address of \<open>vmx_host_resume\<close>.\<close>

record demo_env =
  d_has_vmx :: bool
  d_va :: "u64 \<Rightarrow> u64"
  d_resume :: u64
  d_faults :: "nat \<Rightarrow> bool"

definition demo_guest_fields :: "(u32 \<times> u64) list" where
  "demo_guest_fields =
     [(0x802, 0), (0x6808, 0), (0x4802, 0xffff), (0x4816, 0x93),
      (0x806, 0), (0x800, 0), (0x808, 0), (0x80a, 0), (0x804, 0),
      (GUEST_RIP, 0x1000), (GUEST_RSP, 0x7c00), (GUEST_RFLAGS, 0x2),
      (GUEST_CR0, 0x30), (GUEST_CR3, 0), (GUEST_CR4, 0)]"

definition setup_guest_state :: "mk_world \<Rightarrow> mk_world res" where
  "setup_guest_state w = do_vmwrites demo_guest_fields w"

definition demo_host_fields :: "u64 \<Rightarrow> u64 \<Rightarrow> mk_world \<Rightarrow> (u32 \<times> u64) list" where
  "demo_host_fields vmxon_region host_rip w =
     [(0x6c00, hv_cr0 (host w) (cur_cpu w)), (HOST_CR4, cr4 (this_cpu w)), (HOST_CR3, 0),
      (0x6c14, vmxon_region + 4096 - 64), (0x6c16, host_rip)]"

definition setup_host_state :: "u64 \<Rightarrow> u64 \<Rightarrow> mk_world \<Rightarrow> mk_world res" where
  "setup_host_state vmxon_region host_rip w = do_vmwrites (demo_host_fields vmxon_region host_rip w) w"

definition demo_exec_fields :: "mk_world \<Rightarrow> (u32 \<times> u64) list" where
  "demo_exec_fields w =
     (let low = (\<lambda>i. ucast (ucast (mini_rdmsr i w) :: u32)) in
      [(PIN_BASED_VM_EXEC_CONTROL, low 0x481), (CPU_BASED_VM_EXEC_CONTROL, low 0x482),
       (VM_ENTRY_CONTROLS, low 0x484), (VM_EXIT_CONTROLS, low 0x483), (EXCEPTION_BITMAP, 0)])"

definition setup_exec_controls :: "mk_world \<Rightarrow> mk_world res" where
  "setup_exec_controls w = do_vmwrites (demo_exec_fields w) w"

section \<open>The module\<close>

text \<open>CR4 is written directly, past the copy the kernel keeps of it; \<open>cr4\<close> is the register here.\<close>

definition demo_set_vmxe :: "mk_world \<Rightarrow> mk_world" where
  "demo_set_vmxe w = (if cr4 (this_cpu w) AND X86_CR4_VMXE = 0 then cr4_set_bits X86_CR4_VMXE w else w)"

definition demo_fix_cr0 :: "mk_world \<Rightarrow> mk_world" where
  "demo_fix_cr0 w =
     (let c = cur_cpu w; v = (hv_cr0 (host w) c OR mini_rdmsr 0x486 w) AND mini_rdmsr 0x487 w
      in w\<lparr>host := (host w)\<lparr>hv_cr0 := (hv_cr0 (host w))(c := v)\<rparr>\<rparr>)"

definition demo_free :: "u64 \<Rightarrow> u64 \<Rightarrow> int \<Rightarrow> mk_world \<Rightarrow> (int \<times> mk_world) res" where
  "demo_free vmxon vmcs r w =
     rbind (free_page vmcs (pmem w)) (\<lambda>m1. rbind (free_page vmxon m1) (\<lambda>m2. Inr (r, w\<lparr>pmem := m2\<rparr>)))"

text \<open>
  The initialisation runs with preemption on: \<open>hop k\<close> is the CPU on which step \<open>k\<close> runs (0 revision and CR4, 1 CR0,
  2 VMXON, 3 VMCLEAR, 4 VMPTRLD, 5 to 7 the three groups of fields, 8 VMXOFF).
\<close>

definition hop_to :: "(nat \<Rightarrow> nat) \<Rightarrow> nat \<Rightarrow> mk_world \<Rightarrow> mk_world" where
  "hop_to hop k w = w\<lparr>cur_cpu := hop k\<rparr>"

definition demo_configure :: "demo_env \<Rightarrow> (nat \<Rightarrow> nat) \<Rightarrow> u64 \<Rightarrow> u64 \<Rightarrow> mk_world \<Rightarrow> (int \<times> mk_world) res" where
  "demo_configure env hop vmxon vmcs w =
     rbind (do_vmclear (page_to_phys vmcs) (hop_to hop 3 w)) (\<lambda>(_, w1).
     rbind (do_vmptrld (page_to_phys vmcs) (hop_to hop 4 w1)) (\<lambda>(err, w2).
       if err then rbind (do_vmxoff (hop_to hop 8 w2)) (demo_free vmxon vmcs (- EIO))
       else
         rbind (setup_host_state (d_va env vmxon) (d_resume env) (hop_to hop 5 w2)) (\<lambda>w3.
         rbind (setup_guest_state (hop_to hop 6 w3)) (\<lambda>w4.
         rbind (setup_exec_controls (hop_to hop 7 w4)) (\<lambda>w5.
         rbind (do_vmxoff (hop_to hop 8 w5)) (demo_free vmxon vmcs 0))))))"

definition vmx_demo_init :: "demo_env \<Rightarrow> (nat \<Rightarrow> nat) \<Rightarrow> mk_world \<Rightarrow> (int \<times> mk_world) res" where
  "vmx_demo_init env hop w =
     (if \<not> d_has_vmx env then Inr (- ENODEV, w)
      else
        (let w0 = hop_to hop 0 w;
             revision = ucast (mini_rdmsr MSR_VMX_BASIC w0 AND 0x7fffffff);
             w1 = demo_fix_cr0 (hop_to hop 1 (demo_set_vmxe w0));
             (a, m1) = alloc_page (pmem w1);
             (b, m2) = alloc_page m1;
             w2 = w1\<lparr>pmem := m2\<rparr>
         in case (a, b) of
              (Some vmxon, Some vmcs) \<Rightarrow>
                (let put = (\<lambda>p. upd_region (page_to_phys p) (\<lambda>r. r\<lparr>vrev := revision\<rparr>))
                 in rbind (do_vmxon (d_faults env) (page_to_phys vmxon) (hop_to hop 2 (put vmcs (put vmxon w2)))) (\<lambda>(err, w3).
                    if err then demo_free vmxon vmcs (- EIO) w3 else demo_configure env hop vmxon vmcs w3))
            | _ \<Rightarrow> Inr (- ENOMEM, w2)))"

section \<open>What it does\<close>

lemma do_vmwrites_eq: "do_vmwrites fxs w = vmwrites fxs w"
  by (induction fxs arbitrary: w) (auto simp: do_vmwrite_def rbind_def split: sum.splits)

lemma do_vmwrites_ready: "vmx_ready w p \<Longrightarrow> do_vmwrites fxs w = Inr (set_fields p fxs w)"
  unfolding do_vmwrites_eq by (rule vmwrites_ready)

lemma hop_ready [simp]: "hop k = cur_cpu w \<Longrightarrow> hop_to hop k w = w"
  by (simp add: hop_to_def)

text \<open>The fields of the demo, in the order of the writes.\<close>

definition demo_fields :: "demo_env \<Rightarrow> u64 \<Rightarrow> mk_world \<Rightarrow> (u32 \<times> u64) list" where
  "demo_fields env vmxon w = demo_host_fields (d_va env vmxon) (d_resume env) w @ demo_guest_fields @ demo_exec_fields w"

lemma demo_fields_cong: "demo_fields env p (set_fields q fxs w) = demo_fields env p w" "demo_exec_fields (set_fields q fxs w) = demo_exec_fields w"
  by (simp_all add: demo_fields_def demo_host_fields_def demo_exec_fields_def)

lemma demo_configure_runs:
  assumes "\<And>k. hop k = cur_cpu w" and "in_vmx (this_cpu w)" and "vrev (regions w (page_to_phys vmcs)) = ucast (mini_rdmsr MSR_VMX_BASIC w AND 0x7fffffff)"
    and "vmcs \<in> set (live (pmem w))" "vmxon \<in> set (live (pmem w))" "vmxon \<noteq> vmcs"
  shows "\<exists>w'. demo_configure env hop vmxon vmcs w = Inr (0, w') \<and>
     cpus w' = (cpus w)(cur_cpu w := (this_cpu w)\<lparr>in_vmx := False, current_vmcs := None\<rparr>) \<and>
     live (pmem w') = remove1 vmxon (remove1 vmcs (live (pmem w))) \<and> host w' = host w \<and>
     vfield (regions w' (page_to_phys vmcs)) = store_fields (demo_fields env vmxon w) (vfield (regions w (page_to_phys vmcs))) \<and>
     active_on (regions w' (page_to_phys vmcs)) = insert (cur_cpu w) (active_on (regions w (page_to_phys vmcs)))"
proof -
  let ?p = "page_to_phys vmcs"
  let ?w1 = "upd_region ?p (\<lambda>r. r\<lparr>vlaunched := False, active_on := active_on r - {cur_cpu w}\<rparr>)
       (upd_cpu (cur_cpu w) (\<lambda>c. c\<lparr>current_vmcs := (if current_vmcs c = Some ?p then None else current_vmcs c)\<rparr>) w)"
  let ?w2 = "upd_region ?p (\<lambda>r. r\<lparr>active_on := insert (cur_cpu w) (active_on r)\<rparr>) (upd_cpu (cur_cpu w) (\<lambda>c. c\<lparr>current_vmcs := Some ?p\<rparr>) ?w1)"
  have c: "do_vmclear ?p w = Inr (False, ?w1)" using assms(2) by (simp add: do_vmclear_def mini_vmclear_def in_operation_def)
  have l: "do_vmptrld ?p ?w1 = Inr (False, ?w2)"
    using assms(2,3) by (simp add: do_vmptrld_def mini_vmptrld_def in_operation_def upd_region_def upd_cpu_def mini_rdmsr_def)
  have rd: "vmx_ready ?w2 ?p" using assms(2) by (simp add: vmx_ready_def upd_region_def upd_cpu_def)
  have e: "demo_fields env vmxon ?w2 = demo_fields env vmxon w"
    by (simp add: demo_fields_def demo_host_fields_def demo_exec_fields_def upd_region_def upd_cpu_def mini_rdmsr_def)
  have ccpu: "cur_cpu ?w1 = cur_cpu w" "cur_cpu ?w2 = cur_cpu w" by (simp_all add: upd_region_def upd_cpu_def)
  have h: "hop_to hop 3 w = w" "hop_to hop 4 ?w1 = ?w1" using assms(1) ccpu by simp_all
  have f: "rbind (setup_host_state (d_va env vmxon) (d_resume env) (hop_to hop 5 ?w2)) (\<lambda>w3.
         rbind (setup_guest_state (hop_to hop 6 w3)) (\<lambda>w4.
         rbind (setup_exec_controls (hop_to hop 7 w4)) (\<lambda>w5. rbind (do_vmxoff (hop_to hop 8 w5)) F))) =
      rbind (do_vmxoff (set_fields ?p (demo_fields env vmxon ?w2) ?w2)) F" for F :: "mk_world \<Rightarrow> (int \<times> mk_world) res"
    using rd assms(1) ccpu
    by (simp add: setup_host_state_def setup_guest_state_def setup_exec_controls_def do_vmwrites_ready demo_fields_cong demo_fields_def)
  let ?w3 = "set_fields ?p (demo_fields env vmxon w) ?w2"
  let ?w4 = "upd_cpu (cur_cpu w) (\<lambda>s. s\<lparr>in_vmx := False, current_vmcs := None\<rparr>) ?w3"
  have o: "do_vmxoff ?w3 = Inr ?w4" using rd ccpu by (simp add: do_vmxoff_def in_operation_def vmx_ready_def)
  have lv: "live (pmem ?w4) = live (pmem w)" by (simp add: upd_cpu_def upd_region_def)
  have "vmxon \<in> set (remove1 vmcs (live (pmem w)))" using assms(5,6) by simp
  then have "\<exists>w'. demo_free vmxon vmcs 0 ?w4 = Inr (0, w') \<and> cpus w' = cpus ?w4 \<and> regions w' = regions ?w4 \<and> host w' = host ?w4 \<and>
      live (pmem w') = remove1 vmxon (remove1 vmcs (live (pmem w)))"
    using assms(4) by (simp add: demo_free_def free_page_def lv)
  then obtain w' where w': "demo_free vmxon vmcs 0 ?w4 = Inr (0, w')" "cpus w' = cpus ?w4" "regions w' = regions ?w4" "host w' = host ?w4"
      "live (pmem w') = remove1 vmxon (remove1 vmcs (live (pmem w)))" by blast
  have "demo_configure env hop vmxon vmcs w = Inr (0, w')"
    unfolding demo_configure_def h(1) c rbind_Inr prod.case h(2) l if_False f e o by (rule w'(1))
  then show ?thesis using w'(2-5)
    by (intro exI [of _ w']) (simp add: upd_cpu_def upd_region_def)
qed

text \<open>The state in which the module is meant to be loaded, with the two pages it gets.\<close>

definition demo_ready :: "demo_env \<Rightarrow> u64 \<Rightarrow> u64 \<Rightarrow> mk_world \<Rightarrow> bool" where
  "demo_ready env vmxon vmcs w \<longleftrightarrow> d_has_vmx env \<and> \<not> d_faults env (cur_cpu w) \<and> \<not> in_vmx (this_cpu w) \<and>
     mini_rdmsr MSR_FEAT_CTL w AND (1 OR 4) = 1 OR 4 \<and> (\<exists>r. avail_pages (pmem w) = Some vmxon # Some vmcs # r) \<and>
     vmxon \<noteq> vmcs \<and> vmxon \<notin> set (live (pmem w)) \<and> vmcs \<notin> set (live (pmem w)) \<and> page_to_phys vmxon \<noteq> page_to_phys vmcs"

lemma bit_vmxe: "bit X86_CR4_VMXE n \<Longrightarrow> n = 13"
proof -
  have "X86_CR4_VMXE = 2 ^ 13" by simp
  then show "bit X86_CR4_VMXE n \<Longrightarrow> n = 13" by (metis bit_exp_iff)
qed

lemma set_vmxe: "demo_set_vmxe w = cr4_set_bits X86_CR4_VMXE w"
proof -
  have "x OR X86_CR4_VMXE = x" if "x AND X86_CR4_VMXE \<noteq> 0" for x :: u64
  proof (rule bit_word_eqI)
    fix n assume "n < LENGTH(64)"
    have "bit x 13" using that and_pow_eq_0 [of x 13] by simp
    then show "bit (x OR X86_CR4_VMXE) n = bit x n" using bit_vmxe [of n] by (auto simp: bit_or_iff)
  qed
  then show ?thesis by (simp add: demo_set_vmxe_def cr4_set_bits_def upd_cpu_idem)
qed


text \<open>The ways in which it goes wrong: another monitor holds the CPU, the second page is missing, or the thread is moved.\<close>

lemma vmx_demo_refused:
  assumes "d_has_vmx env" and "\<And>k. hop k = cur_cpu w" and "in_vmx (this_cpu w)" "cr4 (this_cpu w) AND X86_CR4_VMXE \<noteq> 0"
    and "avail_pages (pmem w) = Some vmxon # Some vmcs # r" "vmxon \<noteq> vmcs"
  shows "\<exists>w'. vmx_demo_init env hop w = Inr (- EIO, w') \<and> cpus w' = cpus w \<and> live (pmem w') = live (pmem w)"
proof -
  have v: "demo_set_vmxe w = w" using assms(4) by (simp add: demo_set_vmxe_def)
  have "x \<noteq> y \<Longrightarrow> remove1 x (y # x # l) = y # l" for x y :: u64 and l by simp
  then show ?thesis
    using assms unfolding vmx_demo_init_def
    by (simp add: v Let_def alloc_page_def demo_fix_cr0_def hop_to_def upd_region_def do_vmxon_def demo_free_def free_page_def)
qed

lemma vmx_demo_leaks:
  assumes "d_has_vmx env" and "\<And>k. hop k = cur_cpu w" and "avail_pages (pmem w) = Some vmxon # None # r"
  shows "\<exists>w'. vmx_demo_init env hop w = Inr (- ENOMEM, w') \<and> live (pmem w') = vmxon # live (pmem w) \<and>
    cr4 (this_cpu w') = cr4 (this_cpu w) OR X86_CR4_VMXE"
proof -
  have h: "hop_to hop 0 w = w" "hop_to hop 1 (demo_set_vmxe w) = demo_set_vmxe w"
    using assms(2) by (simp_all add: set_vmxe cr4_set_bits_def upd_cpu_def)
  have m: "pmem (demo_fix_cr0 (demo_set_vmxe w)) = pmem w" by (simp add: set_vmxe demo_fix_cr0_def cr4_set_bits_def upd_cpu_def Let_def)
  obtain m1 where a: "alloc_page (pmem w) = (Some vmxon, m1)" "live m1 = vmxon # live (pmem w)" "avail_pages m1 = None # r"
    using assms(3) by (simp add: alloc_page_def)
  have b: "alloc_page m1 = (None, m1\<lparr>avail_pages := r\<rparr>)" using a by (simp add: alloc_page_def)
  have "vmx_demo_init env hop w = Inr (- ENOMEM, (demo_fix_cr0 (demo_set_vmxe w))\<lparr>pmem := m1\<lparr>avail_pages := r\<rparr>\<rparr>)"
    unfolding vmx_demo_init_def Let_def h m a(1) b prod.case option.case using assms(1) by simp
  then show ?thesis using a(2)
    by (simp add: set_vmxe demo_fix_cr0_def cr4_set_bits_def upd_cpu_def Let_def)
qed

lemma vmx_demo_moved:
  assumes "\<not> in_vmx (cpus w (hop 3))"
  shows "demo_configure env hop vmxon vmcs w = Inl InvalidOpcode"
  using assms by (simp add: demo_configure_def do_vmclear_def mini_vmclear_def in_operation_def hop_to_def)


end
