(* ===== verification/PiDemo.thy ===== *)
theory PiDemo
  imports VmmPrelude
begin

text \<open>
  The posted-interrupt module \<open>pi-demo.c\<close>: its walk through a descriptor, its three kprobes, its entry under \<open>/proc\<close>
  and what loading and unloading leave behind.
\<close>

section \<open>The descriptor\<close>

text \<open>
  The operations of \<open>asm/posted_intr.h\<close> are the kernel's and a parameter; \<open>'d\<close> is the type of a descriptor.  Its
  documented behaviour is stated over a view: the vectors posted, ON and SN, with the fields NV and NDST beside them.
\<close>

record 'd pi_ops =
  pi_zero :: "u8 \<Rightarrow> u32 \<Rightarrow> 'd"
  pi_nv :: "'d \<Rightarrow> u8"
  pi_ndst :: "'d \<Rightarrow> u32"
  pi_test_and_set_pir :: "nat \<Rightarrow> 'd \<Rightarrow> bool \<times> 'd"
  pi_is_pir_empty :: "'d \<Rightarrow> bool"
  pi_test_on :: "'d \<Rightarrow> bool"
  pi_test_sn :: "'d \<Rightarrow> bool"
  pi_test_and_set_on :: "'d \<Rightarrow> bool \<times> 'd"
  pi_test_and_clear_on :: "'d \<Rightarrow> bool \<times> 'd"
  pi_set_sn :: "'d \<Rightarrow> 'd"

record pi_view =
  vw_nv :: u8
  vw_ndst :: u32
  vw_pir :: "nat set"
  vw_on :: bool
  vw_sn :: bool

definition pi_laws :: "'d pi_ops \<Rightarrow> ('d \<Rightarrow> pi_view) \<Rightarrow> bool" where
  "pi_laws P V \<longleftrightarrow>
     (\<forall>n c. V (pi_zero P n c) = \<lparr>vw_nv = n, vw_ndst = c, vw_pir = {}, vw_on = False, vw_sn = False\<rparr>) \<and>
     (\<forall>d. pi_nv P d = vw_nv (V d) \<and> pi_ndst P d = vw_ndst (V d) \<and> pi_test_on P d = vw_on (V d) \<and> pi_test_sn P d = vw_sn (V d) \<and>
       pi_is_pir_empty P d = (vw_pir (V d) = {})) \<and>
     (\<forall>v d. v < 256 \<longrightarrow> (case pi_test_and_set_pir P v d of (old, d') \<Rightarrow>
       old = (v \<in> vw_pir (V d)) \<and> V d' = (V d)\<lparr>vw_pir := insert v (vw_pir (V d))\<rparr>)) \<and>
     (\<forall>d. case pi_test_and_set_on P d of (old, d') \<Rightarrow> old = vw_on (V d) \<and> V d' = (V d)\<lparr>vw_on := True\<rparr>) \<and>
     (\<forall>d. case pi_test_and_clear_on P d of (old, d') \<Rightarrow> old = vw_on (V d) \<and> V d' = (V d)\<lparr>vw_on := False\<rparr>) \<and>
     (\<forall>d. V (pi_set_sn P d) = (V d)\<lparr>vw_sn := True\<rparr>)"

text \<open>What the log says: values read from the descriptor, and the sentences a test selects.\<close>

datatype pi_line =
    LInit u8 u32 bool bool
  | LPosted nat
  | LPirNonEmpty bool
  | LNotify u8 u32
  | LPiggyback
  | LProcessed
  | LSuppressed
  | LUrgent

text \<open>\<open>nv\<close> is the kernel's \<open>POSTED_INTR_VECTOR\<close>.\<close>

definition demo_post :: "'d pi_ops \<Rightarrow> nat \<Rightarrow> bool \<Rightarrow> 'd \<Rightarrow> pi_line list \<times> 'd" where
  "demo_post P v verbose d =
     (let d1 = snd (pi_test_and_set_pir P v d);
          (old, d2) = pi_test_and_set_on P d1
      in ([LPosted v] @ (if verbose then [LPirNonEmpty (\<not> pi_is_pir_empty P d1)] else []) @
          [if \<not> old then LNotify (pi_nv P d2) (pi_ndst P d2) else LPiggyback], d2))"

definition demo_pi_descriptor :: "u8 \<Rightarrow> 'd pi_ops \<Rightarrow> pi_line list \<times> 'd" where
  "demo_pi_descriptor nv P =
     (let d0 = pi_zero P nv 0;
          l0 = [LInit (pi_nv P d0) (pi_ndst P d0) (pi_test_on P d0) (pi_test_sn P d0)];
          (l1, d1) = demo_post P 32 True d0;
          (l2, d2) = demo_post P 64 False d1;
          (on, d3) = pi_test_and_clear_on P d2;
          l3 = (if on then [LProcessed] else []);
          d4 = snd (pi_test_and_set_pir P 96 (pi_set_sn P d3))
      in (l0 @ l1 @ l2 @ l3 @ [LPosted 96, LSuppressed, LUrgent], d4))"

text \<open>The rule the module prints for sending a notification.\<close>

definition notify_rule :: "bool \<Rightarrow> bool \<Rightarrow> bool \<Rightarrow> bool" where
  "notify_rule on urg sn \<longleftrightarrow> \<not> on \<and> (urg \<or> \<not> sn)"

section \<open>The probes\<close>

text \<open>
  Probe 0 is on \<open>vmx_sync_pir_to_irr\<close>, 1 on \<open>vmx_vcpu_pi_load\<close>, 2 on \<open>vmx_vcpu_pi_put\<close>.  \<open>ok\<close> says which registrations
  succeed.  Unregistering a probe that is not registered does nothing.
\<close>

record pi_module =
  loaded :: bool
  heap :: "u64 list"
  demo_pi_desc :: "u64 option"
  kprobes :: "nat list"
  probes_registered :: nat
  probe_counts :: "u32 list"
  proc_entry :: bool

definition register_kprobe :: "(nat \<Rightarrow> bool) \<Rightarrow> nat \<Rightarrow> pi_module \<Rightarrow> pi_module" where
  "register_kprobe ok i s =
     (if ok i then s\<lparr>kprobes := kprobes s @ [i], probes_registered := probes_registered s + 1\<rparr> else s)"

definition register_probes :: "(nat \<Rightarrow> bool) \<Rightarrow> pi_module \<Rightarrow> pi_module" where
  "register_probes ok s = register_kprobe ok 2 (register_kprobe ok 1 (register_kprobe ok 0 s))"

definition unregister_kprobe :: "nat \<Rightarrow> pi_module \<Rightarrow> pi_module" where
  "unregister_kprobe i s = s\<lparr>kprobes := filter (\<lambda>j. j \<noteq> i) (kprobes s)\<rparr>"

definition unregister_probes :: "pi_module \<Rightarrow> pi_module" where
  "unregister_probes s =
     (let s1 = (if probes_registered s > 0 then unregister_kprobe 0 s else s);
          s2 = (if probes_registered s > 1 then unregister_kprobe 1 s1 else s1)
      in if probes_registered s > 2 then unregister_kprobe 2 s2 else s2)"

text \<open>The kernel reaches a probed function; the handler lies in the text of the module.\<close>

definition probe_hit :: "nat \<Rightarrow> pi_module \<Rightarrow> pi_module res" where
  "probe_hit i s =
     (if i \<notin> set (kprobes s) then Inr s
      else if \<not> loaded s then Inl UseAfterFree
      else Inr (s\<lparr>probe_counts := (probe_counts s)[i := probe_counts s ! i + 1]\<rparr>))"

section \<open>Loading and unloading\<close>

definition kfree :: "u64 \<Rightarrow> pi_module \<Rightarrow> pi_module res" where
  "kfree p s = (if p \<in> set (heap s) then Inr (s\<lparr>heap := remove1 p (heap s)\<rparr>) else Inl BadFree)"

definition ptr_align64 :: "u64 \<Rightarrow> u64" where
  "ptr_align64 p = (p + 63) AND NOT 63"

text \<open>\<open>a1\<close> and \<open>a2\<close> are what the two allocations return.\<close>

definition pi_demo_init :: "u64 option \<Rightarrow> u64 option \<Rightarrow> (nat \<Rightarrow> bool) \<Rightarrow> pi_module \<Rightarrow> (int \<times> pi_module) res" where
  "pi_demo_init a1 a2 ok s =
     (case a1 of
        None \<Rightarrow> Inr (- 12, s\<lparr>demo_pi_desc := None\<rparr>)
      | Some p \<Rightarrow>
          (let fin = (\<lambda>q s. Inr (0, (register_probes ok (s\<lparr>demo_pi_desc := Some q\<rparr>))\<lparr>proc_entry := True, loaded := True\<rparr>));
               s1 = s\<lparr>heap := p # heap s\<rparr>
           in if p mod 64 \<noteq> 0 then
                rbind (kfree p s1) (\<lambda>s2.
                  case a2 of
                    None \<Rightarrow> Inr (- 12, s2\<lparr>demo_pi_desc := None\<rparr>)
                  | Some q \<Rightarrow> fin (ptr_align64 q) (s2\<lparr>heap := q # heap s2\<rparr>))
              else fin p s1))"

definition pi_demo_exit :: "pi_module \<Rightarrow> pi_module res" where
  "pi_demo_exit s =
     (let s1 = unregister_probes (s\<lparr>proc_entry := False\<rparr>)
      in rbind (case demo_pi_desc s1 of None \<Rightarrow> Inr s1 | Some p \<Rightarrow> kfree p s1) (\<lambda>s2. Inr (s2\<lparr>loaded := False\<rparr>)))"

text \<open>What \<open>/proc/pi-demo\<close> shows after the log: the counts if any probe is registered, and the descriptor.\<close>

definition pi_demo_show :: "'d pi_ops \<Rightarrow> 'd \<Rightarrow> pi_module \<Rightarrow> u32 list option \<times> (bool \<times> bool \<times> u8 \<times> u32 \<times> bool) option" where
  "pi_demo_show P d s =
     (if probes_registered s > 0 then Some (probe_counts s) else None,
      map_option (\<lambda>_. (pi_test_on P d, pi_test_sn P d, pi_nv P d, pi_ndst P d, \<not> pi_is_pir_empty P d)) (demo_pi_desc s))"

definition pi_unloaded :: pi_module where
  "pi_unloaded = \<lparr>loaded = False, heap = [], demo_pi_desc = None, kprobes = [], probes_registered = 0, probe_counts = [0, 0, 0], proc_entry = False\<rparr>"

section \<open>Properties\<close>

lemma pi_laws_use:
  assumes "pi_laws P V"
  shows "V (pi_zero P n c) = \<lparr>vw_nv = n, vw_ndst = c, vw_pir = {}, vw_on = False, vw_sn = False\<rparr>"
    and "pi_nv P d = vw_nv (V d)" "pi_ndst P d = vw_ndst (V d)" "pi_test_on P d = vw_on (V d)" "pi_test_sn P d = vw_sn (V d)"
    and "pi_is_pir_empty P d = (vw_pir (V d) = {})" and "V (pi_set_sn P d) = (V d)\<lparr>vw_sn := True\<rparr>"
    and "v < 256 \<Longrightarrow> V (snd (pi_test_and_set_pir P v d)) = (V d)\<lparr>vw_pir := insert v (vw_pir (V d))\<rparr>"
    and "fst (pi_test_and_set_on P d) = vw_on (V d)" "V (snd (pi_test_and_set_on P d)) = (V d)\<lparr>vw_on := True\<rparr>"
    and "fst (pi_test_and_clear_on P d) = vw_on (V d)" "V (snd (pi_test_and_clear_on P d)) = (V d)\<lparr>vw_on := False\<rparr>"
proof -
  note l = assms [unfolded pi_laws_def case_prod_unfold]
  show "V (pi_zero P n c) = \<lparr>vw_nv = n, vw_ndst = c, vw_pir = {}, vw_on = False, vw_sn = False\<rparr>" using l by (elim conjE) blast
  show "pi_nv P d = vw_nv (V d)" "pi_ndst P d = vw_ndst (V d)" "pi_test_on P d = vw_on (V d)" "pi_test_sn P d = vw_sn (V d)"
    "pi_is_pir_empty P d = (vw_pir (V d) = {})" using l by (elim conjE, blast)+
  show "V (pi_set_sn P d) = (V d)\<lparr>vw_sn := True\<rparr>" using l by (elim conjE) blast
  show "v < 256 \<Longrightarrow> V (snd (pi_test_and_set_pir P v d)) = (V d)\<lparr>vw_pir := insert v (vw_pir (V d))\<rparr>" using l by (elim conjE) blast
  show "fst (pi_test_and_set_on P d) = vw_on (V d)" "V (snd (pi_test_and_set_on P d)) = (V d)\<lparr>vw_on := True\<rparr>"
    "fst (pi_test_and_clear_on P d) = vw_on (V d)" "V (snd (pi_test_and_clear_on P d)) = (V d)\<lparr>vw_on := False\<rparr>"
    using l by (elim conjE, blast)+
qed

text \<open>
  The walk through the descriptor, on any implementation of the operations: the first interrupt sends a notification, the second
  rides on it, and in the last two steps the state is the one for which the printed rule gives what is printed.
\<close>

lemma demo_pi_descriptor_log:
  assumes "pi_laws P V"
  shows "fst (demo_pi_descriptor nv P) =
      [LInit nv 0 False False, LPosted 32, LPirNonEmpty True, LNotify nv 0, LPosted 64, LPiggyback, LProcessed, LPosted 96, LSuppressed, LUrgent]"
    and "V (snd (demo_pi_descriptor nv P)) = \<lparr>vw_nv = nv, vw_ndst = 0, vw_pir = {32, 64, 96}, vw_on = False, vw_sn = True\<rparr>"
    and "let v = V (snd (demo_pi_descriptor nv P)) in \<not> notify_rule (vw_on v) False (vw_sn v) \<and> notify_rule (vw_on v) True (vw_sn v)"
  by (auto simp: notify_rule_def demo_pi_descriptor_def demo_post_def Let_def case_prod_unfold pi_laws_use [OF assms])

text \<open>Which probes are in the kernel after loading, and after unloading: the counter says how many, not which.\<close>

lemma register_probes_state:
  "register_probes ok s = s\<lparr>kprobes := kprobes s @ filter ok [0, 1, 2], probes_registered := probes_registered s + length (filter ok [0, 1, 2])\<rparr>"
  by (simp add: register_probes_def register_kprobe_def numeral_2_eq_2)

lemma unregister_probes_state:
  "kprobes (unregister_probes s) = filter (\<lambda>j. \<not> (j < 3 \<and> j < probes_registered s)) (kprobes s)"
proof -
  have f: "filter (\<lambda>j. j \<noteq> 2) (filter (\<lambda>j. j \<noteq> Suc 0) (filter (\<lambda>j. 0 < j) xs)) = filter (\<lambda>j. \<not> j < 3) xs" for xs :: "nat list"
    by (auto intro!: filter_cong)
  show ?thesis
    by (auto simp: unregister_probes_def unregister_kprobe_def Let_def f intro!: filter_cong)
qed

fun probe_hits :: "nat list \<Rightarrow> pi_module \<Rightarrow> pi_module res" where
  "probe_hits [] s = Inr s"
| "probe_hits (i # is) s = rbind (probe_hit i s) (probe_hits is)"

lemma probe_hits_count:
  assumes "loaded s" "length (probe_counts s) = 3" "set is \<subseteq> {..<3}"
  shows "probe_hits is s = Inr (s\<lparr>probe_counts := map (\<lambda>i. probe_counts s ! i +
    (if i \<in> set (kprobes s) then of_nat (length (filter (\<lambda>j. j = i) is)) else 0)) [0, 1, 2]\<rparr>)"
  using assms
proof (induction "is" arbitrary: s)
  case Nil
  then have "probe_counts s = map ((!) (probe_counts s)) [0, 1, 2]"
    by (intro nth_equalityI) (auto simp: less_Suc_eq numeral_3_eq_3 numeral_2_eq_2)
  then show ?case by simp
next
  case (Cons i "is")
  obtain s1 where 1: "probe_hit i s = Inr s1" "loaded s1" "length (probe_counts s1) = 3" "kprobes s1 = kprobes s"
      "s1 = s\<lparr>probe_counts := probe_counts s1\<rparr>"
      "\<forall>j < 3. probe_counts s1 ! j = probe_counts s ! j + (if j = i \<and> i \<in> set (kprobes s) then 1 else 0)"
    using Cons.prems by (cases "i \<in> set (kprobes s)") (auto simp: probe_hit_def nth_list_update)
  have "probe_hits is s1 = Inr (s1\<lparr>probe_counts := map (\<lambda>i. probe_counts s1 ! i +
      (if i \<in> set (kprobes s1) then of_nat (length (filter (\<lambda>j. j = i) is)) else 0)) [0, 1, 2]\<rparr>)"
    using Cons.IH [of s1] 1 Cons.prems by simp
  moreover have "map (\<lambda>j. probe_counts s1 ! j + (if j \<in> set (kprobes s1) then of_nat (length (filter (\<lambda>k. k = j) is)) else 0)) [0, 1, 2] =
      map (\<lambda>j. probe_counts s ! j + (if j \<in> set (kprobes s) then of_nat (length (filter (\<lambda>k. k = j) (i # is))) else 0)) [0, 1, 2]"
    using 1(4,6) by (intro map_cong) auto
  moreover have "s1\<lparr>probe_counts := xs\<rparr> = s\<lparr>probe_counts := xs\<rparr>" for xs by (subst 1(5)) simp
  ultimately show ?case using 1(1) by simp
qed

text \<open>
  C39. What unloading leaves behind: with the aligned page the allocator gives, the module loads whatever probes fail, counts exactly
  the calls of the functions it could probe, and frees its descriptor; but a later call of function \<open>i\<close> jumps into the freed
  text exactly when its probe was registered although at most \<open>i\<close> of the three were.
\<close>

theorem pi_demo_unload:
  assumes "p mod 64 = 0" "set is \<subseteq> {..<3}"
  shows "\<exists>s t u. pi_demo_init (Some p) a2 ok pi_unloaded = Inr (0, s) \<and> probe_hits is s = Inr t \<and> pi_demo_exit t = Inr u \<and>
    probe_counts t = map (\<lambda>i. if ok i then of_nat (length (filter (\<lambda>j. j = i) is)) else 0) [0, 1, 2] \<and>
    heap u = [] \<and> \<not> proc_entry u \<and>
    (\<forall>i < 3. probe_hit i u = Inl UseAfterFree \<longleftrightarrow> ok i \<and> length (filter ok [0, 1, 2]) \<le> i)"
proof -
  let ?n = "length (filter ok [0, 1, 2])"
  let ?s = "\<lparr>loaded = True, heap = [p], demo_pi_desc = Some p, kprobes = filter ok [0, 1, 2], probes_registered = ?n,
    probe_counts = [0, 0, 0], proc_entry = True\<rparr>"
  have i: "pi_demo_init (Some p) a2 ok pi_unloaded = Inr (0, ?s)"
    using assms(1) by (simp add: pi_demo_init_def Let_def register_probes_state pi_unloaded_def)
  let ?cs = "map (\<lambda>i. if ok i then of_nat (length (filter (\<lambda>j. j = i) is)) else 0) [0, 1, 2] :: u32 list"
  let ?t = "?s\<lparr>probe_counts := ?cs\<rparr>"
  have h: "probe_hits is ?s = Inr ?t"
    using probe_hits_count [of ?s "is"] assms(2) by (simp add: numeral_2_eq_2)
  let ?u = "?t\<lparr>heap := [], proc_entry := False, loaded := False, kprobes := filter (\<lambda>j. \<not> (j < 3 \<and> j < ?n)) (filter ok [0, 1, 2])\<rparr>"
  have k: "unregister_probes (?t\<lparr>proc_entry := False\<rparr>) =
      ?t\<lparr>proc_entry := False, kprobes := filter (\<lambda>j. \<not> (j < 3 \<and> j < ?n)) (filter ok [0, 1, 2])\<rparr>"
    using unregister_probes_state [of "?t\<lparr>proc_entry := False\<rparr>"]
    by (intro pi_module.equality) (auto simp: unregister_probes_def unregister_kprobe_def Let_def)
  have x: "pi_demo_exit ?t = Inr ?u"
    unfolding pi_demo_exit_def Let_def k by (simp add: kfree_def)
  have "probe_hit j ?u = Inl UseAfterFree \<longleftrightarrow> ok j \<and> ?n \<le> j" if "j < 3" for j
  proof -
    have "j \<in> set [0, 1, 2]" using that by auto
    then show ?thesis using that by (auto simp: probe_hit_def simp del: filter.simps)
  qed
  then show ?thesis using i h x by (intro exI [of _ ?s] exI [of _ ?t] exI [of _ ?u]) simp
qed

text \<open>The first function is not there, the other two are: the last probe survives the module.\<close>

theorem pi_demo_unload_witness:
  "\<exists>s t u. pi_demo_init (Some 0xffff888000001040) None (\<lambda>i. i \<noteq> 0) pi_unloaded = Inr (0, s) \<and> probe_hits [2, 1, 2] s = Inr t \<and>
     pi_demo_exit t = Inr u \<and> probe_counts t = [0, 1, 2] \<and> probe_hit 2 u = Inl UseAfterFree \<and> probe_hit 1 u \<noteq> Inl UseAfterFree"
proof -
  have "set [2, 1, 2 :: nat] \<subseteq> {..<3}" "(0xffff888000001040 :: u64) mod 64 = 0" by simp_all
  from pi_demo_unload [OF this(2,1), of None "\<lambda>i. i \<noteq> 0"] obtain s t u where
    r: "pi_demo_init (Some 0xffff888000001040) None (\<lambda>i. i \<noteq> 0) pi_unloaded = Inr (0, s)" "probe_hits [2, 1, 2] s = Inr t" "pi_demo_exit t = Inr u"
    "probe_counts t = map (\<lambda>i. if i \<noteq> 0 then of_nat (length (filter (\<lambda>j. j = i) [2, 1, 2 :: nat])) else 0) [0, 1, 2]"
    "\<forall>i < 3. probe_hit i u = Inl UseAfterFree \<longleftrightarrow> i \<noteq> 0 \<and> length (filter (\<lambda>i. i \<noteq> 0) [0, 1, 2 :: nat]) \<le> i" by blast
  have "probe_hit 2 u = Inl UseAfterFree" "probe_hit 1 u \<noteq> Inl UseAfterFree" using r(5) by simp_all
  with r show ?thesis by (intro exI [of _ s] exI [of _ t] exI [of _ u]) (simp del: probe_hits.simps)
qed

text \<open>An allocation that is not aligned is replaced by a larger one, whose address is then rounded up and freed as it is: unloading frees a
  pointer the allocator never returned.\<close>

lemma pi_demo_bad_free:
  assumes "p mod 64 \<noteq> 0" "ptr_align64 q \<noteq> q"
  shows "\<exists>s. pi_demo_init (Some p) (Some q) ok pi_unloaded = Inr (0, s) \<and> pi_demo_exit s = Inl BadFree"
  using assms
  by (simp add: pi_demo_init_def kfree_def Let_def register_probes_state pi_unloaded_def pi_demo_exit_def unregister_probes_def unregister_kprobe_def)

end
