(* ===== verification/MiniGuest.thy ===== *)
theory MiniGuest
  imports MiniVcpu
begin

text \<open>
  The guest of \<open>mini-kvm\<close>: \<open>guest.S\<close> instruction by instruction, on a 64-bit processor with paging and interrupts whose
  guest-physical accesses may miss in the second-stage tables.
\<close>

section \<open>Guest memory\<close>

text \<open>
  An access succeeds, exits with an EPT violation at a guest-physical address, or does something outside the model: a fault of the
  guest.  \<open>mp\<close> says which guest-physical addresses are mapped.
\<close>

datatype 'a acc = Ok 'a | Viol u64 | Bad

definition abind :: "'a acc \<Rightarrow> ('a \<Rightarrow> 'b acc) \<Rightarrow> 'b acc" where
  "abind x f = (case x of Ok v \<Rightarrow> f v | Viol a \<Rightarrow> Viol a | Bad \<Rightarrow> Bad)"

lemma abind_simps [simp]: "abind (Ok v) f = f v" "abind (Viol a) f = Viol a" "abind Bad f = Bad"
  by (simp_all add: abind_def)

text \<open>
  The registers the guest uses.  Of the flags only ZF and IF are kept; DF stays clear, since nothing sets it.  \<open>g_shadow\<close> is
  the blocking of interrupts by STI; SS is the null selector throughout.
\<close>

record g64 =
  g_rax :: u64
  g_rcx :: u64
  g_rdx :: u64
  g_rsi :: u64
  g_rdi :: u64
  g_rsp :: u64
  g_rip :: u64
  g_zf :: bool
  g_if :: bool
  g_shadow :: bool
  g_cs :: u16
  g_cr3 :: u64
  g_gdt :: u64
  g_gdtl :: u16
  g_idt :: u64
  g_idtl :: u16
  g_mem :: cbuf

text \<open>
  The walk of the guest's tables, themselves read through the second stage.  The accessed and dirty bits the processor sets are left
  out: nothing reads them.
\<close>

abbreviation (input) PTE_ADDR :: u64 where "PTE_ADDR \<equiv> 0x000ffffffffff000"

fun page_walk :: "(u64 \<Rightarrow> bool) \<Rightarrow> cbuf \<Rightarrow> bool \<Rightarrow> nat list \<Rightarrow> u64 \<Rightarrow> u64 \<Rightarrow> u64 acc" where
  "page_walk mp m w [] t la = Bad"
| "page_walk mp m w (sh # shs) t la =
     (let a = t + 8 * (drop_bit sh la AND 511) in
      if \<not> mp a then Viol a
      else case ld64 m (unat a) of
        Inl _ \<Rightarrow> Bad
      | Inr e \<Rightarrow>
          if e AND 1 = 0 \<or> w \<and> e AND 2 = 0 \<or> sh = 39 \<and> e AND 0x80 \<noteq> 0 then Bad
          else if sh = 12 \<or> e AND 0x80 \<noteq> 0 then
            (let pa = push_bit sh (drop_bit sh (e AND PTE_ADDR)) OR take_bit sh la in if mp pa then Ok pa else Viol pa)
          else page_walk mp m w shs (e AND PTE_ADDR) la)"

definition xlate :: "(u64 \<Rightarrow> bool) \<Rightarrow> g64 \<Rightarrow> bool \<Rightarrow> u64 \<Rightarrow> u64 acc" where
  "xlate mp g w la =
     (if drop_bit 47 la = 0 \<or> drop_bit 47 la = 0x1ffff
      then page_walk mp (g_mem g) w [39, 30, 21, 12] (g_cr3 g AND PTE_ADDR) la else Bad)"

fun xlates :: "(u64 \<Rightarrow> bool) \<Rightarrow> g64 \<Rightarrow> bool \<Rightarrow> u64 \<Rightarrow> nat \<Rightarrow> u64 list acc" where
  "xlates mp g w la 0 = Ok []"
| "xlates mp g w la (Suc n) =
     abind (xlate mp g w la) (\<lambda>a. abind (xlates mp g w (la + 1) n) (\<lambda>as. Ok (a # as)))"

definition in_ram :: "g64 \<Rightarrow> u64 list \<Rightarrow> bool" where
  "in_ram g as = (\<forall>a \<in> set as. unat a < bsize (g_mem g))"

definition rd_mem :: "(u64 \<Rightarrow> bool) \<Rightarrow> g64 \<Rightarrow> u64 \<Rightarrow> nat \<Rightarrow> u8 list acc" where
  "rd_mem mp g la n =
     abind (xlates mp g False la n) (\<lambda>as. if in_ram g as then Ok (map (\<lambda>a. bdata (g_mem g) (unat a)) as) else Bad)"

definition wr_mem :: "(u64 \<Rightarrow> bool) \<Rightarrow> u64 \<Rightarrow> u8 list \<Rightarrow> g64 \<Rightarrow> g64 acc" where
  "wr_mem mp la bs g =
     abind (xlates mp g True la (length bs)) (\<lambda>as.
       if in_ram g as
       then Ok (g\<lparr>g_mem := (g_mem g)\<lparr>bdata := fold (\<lambda>(a, b) d. d(unat a := b)) (zip as bs) (bdata (g_mem g))\<rparr>\<rparr>)
       else Bad)"

definition push64 :: "(u64 \<Rightarrow> bool) \<Rightarrow> u64 \<Rightarrow> g64 \<Rightarrow> g64 acc" where
  "push64 mp x g = abind (wr_mem mp (g_rsp g - 8) (le_bytes 8 x) g) (\<lambda>g1. Ok (g1\<lparr>g_rsp := g_rsp g - 8\<rparr>))"

definition pop64 :: "(u64 \<Rightarrow> bool) \<Rightarrow> g64 \<Rightarrow> (u64 \<Rightarrow> g64 \<Rightarrow> 'a acc) \<Rightarrow> 'a acc" where
  "pop64 mp g k = abind (rd_mem mp g (g_rsp g) 8) (\<lambda>bs. k (le_val bs) (g\<lparr>g_rsp := g_rsp g + 8\<rparr>))"

section \<open>Interrupts\<close>

definition rflags_of :: "g64 \<Rightarrow> u64" where
  "rflags_of g = 2 OR (if g_zf g then 0x40 else 0) OR (if g_if g then 0x200 else 0)"

text \<open>A code segment for 64-bit mode: code, not a system segment, present, L set and D clear.\<close>

definition load_cs :: "(u64 \<Rightarrow> bool) \<Rightarrow> u16 \<Rightarrow> g64 \<Rightarrow> g64 acc" where
  "load_cs mp sel g =
     (if sel AND 0xfff8 = 0 \<or> sel AND 4 \<noteq> 0 \<or> unat (sel AND 0xfff8) + 7 > unat (g_gdtl g) then Bad
      else abind (rd_mem mp g (g_gdt g + ucast (sel AND 0xfff8)) 8) (\<lambda>bs.
        if bs ! 5 AND 0x98 = 0x98 \<and> bs ! 6 AND 0x60 = 0x20 then Ok (g\<lparr>g_cs := sel\<rparr>) else Bad))"

text \<open>Delivery through an interrupt gate, without a change of privilege or an interrupt stack.\<close>

definition deliver :: "(u64 \<Rightarrow> bool) \<Rightarrow> u8 \<Rightarrow> g64 \<Rightarrow> g64 acc" where
  "deliver mp v g =
     (if 16 * unat v + 15 > unat (g_idtl g) then Bad
      else abind (rd_mem mp g (g_idt g + 16 * ucast v) 16) (\<lambda>gate.
        if gate ! 5 \<noteq> 0x8e \<or> gate ! 4 AND 7 \<noteq> 0 then Bad
        else abind (load_cs mp (le_val (take 2 (drop 2 gate))) g) (\<lambda>g1.
        let sp = (g_rsp g AND NOT 0xf) - 40;
            frame = le_bytes 8 (g_rip g) @ le_bytes 8 (ucast (g_cs g) :: u64) @ le_bytes 8 (rflags_of g) @ le_bytes 8 (g_rsp g) @ le_bytes 8 (0 :: u64)
        in abind (wr_mem mp sp frame g1) (\<lambda>g2.
             Ok (g2\<lparr>g_rsp := sp, g_if := False, g_shadow := False,
                    g_rip := le_val (take 2 gate @ take 2 (drop 6 gate) @ take 4 (drop 8 gate))\<rparr>)))))"

text \<open>Back to the same privilege with the null SS.\<close>

definition iretq :: "(u64 \<Rightarrow> bool) \<Rightarrow> g64 \<Rightarrow> g64 acc" where
  "iretq mp g =
     abind (rd_mem mp g (g_rsp g) 40) (\<lambda>bs.
       let w = (\<lambda>i. le_val (take 8 (drop (8 * i) bs)) :: u64)
       in if (ucast (w 4) :: u16) AND 0xfffc \<noteq> 0 then Bad
          else abind (load_cs mp (ucast (w 1)) g) (\<lambda>g1.
            Ok (g1\<lparr>g_rip := w 0, g_zf := bit (w 2) 6, g_if := bit (w 2) 9, g_rsp := w 3\<rparr>)))"

section \<open>The program\<close>

datatype reg = RAX | RCX | RDX | RSI | RDI

datatype lbl =
    FillIdtEntries | Lfill | Print | LprintLoop | LprintDone | LhaltLoop | IrqHandler | IrqStub | Msg | IrqMsg | IdtPtr | GdtPtr

text \<open>
  Operands in the order of the assembler, source first; \<open>IStore n r d\<close> and \<open>IStoreI n x d\<close> write \<open>n\<close> bytes to \<open>d(%rdi)\<close>.
\<close>

datatype asm =
    ICld | ILgdt lbl | ILidt lbl | ILea lbl reg | IMovI u64 reg | IMov reg reg | IStore nat reg u64 | IStoreI nat u64 u64
  | IShr nat reg | IAddI u64 reg | ILoop lbl | ICall lbl | IRet | IPush reg | IPop reg | ILodsb | ITestAl | IJz lbl | IJmp lbl
  | IOutDx | ISti | IHlt | IIretq

abbreviation (input) IDT_BASE :: u64 where "IDT_BASE \<equiv> 0x2000"
abbreviation (input) TEST_VECTOR :: u8 where "TEST_VECTOR \<equiv> 0x21"

definition guest_text :: "asm list" where
  "guest_text =
     [ICld, ILgdt GdtPtr,
      ILea IrqStub RSI, IMovI IDT_BASE RDI, IMovI 256 RCX, ICall FillIdtEntries,
      ILea IrqHandler RSI, IMovI (IDT_BASE + 0x21 * 16) RDI, IMovI 1 RCX, ICall FillIdtEntries,
      ILidt IdtPtr, ILea Msg RSI, ICall Print,
      ISti, IHlt, IJmp LhaltLoop,
      IMov RSI RAX,
      IStore 2 RAX 0, IStoreI 2 0x8 2, IStoreI 1 0 4, IStoreI 1 0x8e 5, IMov RAX RDX, IShr 16 RDX, IStore 2 RDX 6,
      IStoreI 4 0 8, IStoreI 4 0 12, IAddI 16 RDI, ILoop Lfill, IRet,
      IPush RDX, IMovI 0x3f8 RDX,
      ILodsb, ITestAl, IJz LprintDone, IOutDx, IJmp LprintLoop,
      IPop RDX, IRet,
      ILea IrqMsg RSI, ICall Print, IIretq,
      IIretq]"

text \<open>The instruction behind a label of the text.\<close>

fun text_label :: "lbl \<Rightarrow> nat" where
  "text_label LhaltLoop = 14"
| "text_label FillIdtEntries = 16"
| "text_label Lfill = 17"
| "text_label Print = 29"
| "text_label LprintLoop = 31"
| "text_label LprintDone = 36"
| "text_label IrqHandler = 38"
| "text_label IrqStub = 41"
| "text_label _ = 0"

text \<open>
  What the assembler and the linker add: the bytes \<open>enc k\<close> of the instruction \<open>k\<close>, and the gap between \<open>.text\<close> and \<open>.rodata\<close>.
\<close>

record layout =
  enc :: "nat \<Rightarrow> u8 list"
  ro_gap :: nat

definition text_bytes :: "layout \<Rightarrow> nat \<Rightarrow> u8 list" where
  "text_bytes L k = concat (map (enc L) [0..<k])"

definition text_off :: "layout \<Rightarrow> nat \<Rightarrow> nat" where
  "text_off L k = length (text_bytes L k)"

definition ascii :: "string \<Rightarrow> u8 list" where
  "ascii s = map of_char s"

definition msg_bytes :: "u8 list" where
  "msg_bytes = ascii ''Hello from Mini-KVM Guest!'' @ [10]"

definition irqmsg_bytes :: "u8 list" where
  "irqmsg_bytes = ascii ''[IRQ 0x21 handled]'' @ [10]"

definition ro_off :: "layout \<Rightarrow> nat" where
  "ro_off L = text_off L 42 + ro_gap L"

definition gdt_off :: "layout \<Rightarrow> nat" where
  "gdt_off L = (ro_off L + 58 + 7) div 8 * 8"

fun data_off :: "layout \<Rightarrow> lbl \<Rightarrow> nat" where
  "data_off L Msg = ro_off L"
| "data_off L IrqMsg = ro_off L + 28"
| "data_off L IdtPtr = ro_off L + 48"
| "data_off L GdtPtr = gdt_off L + 24"
| "data_off L l = text_off L (text_label l)"

definition label_addr :: "layout \<Rightarrow> lbl \<Rightarrow> u64" where
  "label_addr L l = 0x1000 + of_nat (data_off L l)"

definition ip_of :: "layout \<Rightarrow> nat \<Rightarrow> u64" where
  "ip_of L k = 0x1000 + of_nat (text_off L k)"

definition guest_rodata :: "layout \<Rightarrow> u8 list" where
  "guest_rodata L =
     msg_bytes @ [0] @ irqmsg_bytes @ [0] @
     le_bytes 2 (256 * 16 - 1 :: u16) @ le_bytes 8 IDT_BASE @
     replicate (gdt_off L - (ro_off L + 58)) 0 @
     le_bytes 8 (0 :: u64) @ le_bytes 8 (0x00af9a000000ffff :: u64) @ le_bytes 8 (0x00cf92000000ffff :: u64) @
     le_bytes 2 (24 - 1 :: u16) @ le_bytes 8 (0x1000 + of_nat (gdt_off L) :: u64)"

definition guest_image :: "layout \<Rightarrow> u8 list" where
  "guest_image L = text_bytes L 42 @ replicate (ro_gap L) 0 @ guest_rodata L"

section \<open>Execution\<close>

fun get_reg :: "reg \<Rightarrow> g64 \<Rightarrow> u64" where
  "get_reg RAX g = g_rax g"
| "get_reg RCX g = g_rcx g"
| "get_reg RDX g = g_rdx g"
| "get_reg RSI g = g_rsi g"
| "get_reg RDI g = g_rdi g"

fun put_r64 :: "reg \<Rightarrow> u64 \<Rightarrow> g64 \<Rightarrow> g64" where
  "put_r64 RAX x g = g\<lparr>g_rax := x\<rparr>"
| "put_r64 RCX x g = g\<lparr>g_rcx := x\<rparr>"
| "put_r64 RDX x g = g\<lparr>g_rdx := x\<rparr>"
| "put_r64 RSI x g = g\<lparr>g_rsi := x\<rparr>"
| "put_r64 RDI x g = g\<lparr>g_rdi := x\<rparr>"

datatype after = Step g64 | OutByte u16 u8 | Halt

text \<open>\<open>g\<close> is the state before the instruction, \<open>h\<close> the one with RIP behind it; an exit leaves RIP where it was.\<close>

definition exec64 :: "layout \<Rightarrow> (u64 \<Rightarrow> bool) \<Rightarrow> asm \<Rightarrow> u64 \<Rightarrow> g64 \<Rightarrow> after acc" where
  "exec64 L mp i nxt g =
     (let h = g\<lparr>g_rip := nxt, g_shadow := False\<rparr>; go = (\<lambda>x. abind x (\<lambda>g1. Ok (Step g1))) in
      case i of
        ICld \<Rightarrow> Ok (Step h)
      | ILgdt l \<Rightarrow>
          abind (rd_mem mp g (label_addr L l) 10) (\<lambda>bs. Ok (Step (h\<lparr>g_gdtl := le_val (take 2 bs), g_gdt := le_val (drop 2 bs)\<rparr>)))
      | ILidt l \<Rightarrow>
          abind (rd_mem mp g (label_addr L l) 10) (\<lambda>bs. Ok (Step (h\<lparr>g_idtl := le_val (take 2 bs), g_idt := le_val (drop 2 bs)\<rparr>)))
      | ILea l r \<Rightarrow> Ok (Step (put_r64 r (label_addr L l) h))
      | IMovI x r \<Rightarrow> Ok (Step (put_r64 r x h))
      | IMov r r' \<Rightarrow> Ok (Step (put_r64 r' (get_reg r g) h))
      | IStore n r d \<Rightarrow> go (wr_mem mp (g_rdi g + d) (le_bytes n (get_reg r g)) h)
      | IStoreI n x d \<Rightarrow> go (wr_mem mp (g_rdi g + d) (le_bytes n x) h)
      | IShr n r \<Rightarrow> (let x = drop_bit n (get_reg r g) in Ok (Step ((put_r64 r x h)\<lparr>g_zf := (x = 0)\<rparr>)))
      | IAddI x r \<Rightarrow> (let y = get_reg r g + x in Ok (Step ((put_r64 r y h)\<lparr>g_zf := (y = 0)\<rparr>)))
      | ILoop l \<Rightarrow>
          (let c = g_rcx g - 1; h1 = h\<lparr>g_rcx := c\<rparr> in Ok (Step (if c \<noteq> 0 then h1\<lparr>g_rip := label_addr L l\<rparr> else h1)))
      | ICall l \<Rightarrow> abind (push64 mp nxt h) (\<lambda>h1. Ok (Step (h1\<lparr>g_rip := label_addr L l\<rparr>)))
      | IRet \<Rightarrow> pop64 mp h (\<lambda>x h1. Ok (Step (h1\<lparr>g_rip := x\<rparr>)))
      | IPush r \<Rightarrow> go (push64 mp (get_reg r g) h)
      | IPop r \<Rightarrow> pop64 mp h (\<lambda>x h1. Ok (Step (put_r64 r x h1)))
      | ILodsb \<Rightarrow>
          abind (rd_mem mp g (g_rsi g) 1) (\<lambda>bs.
            Ok (Step (h\<lparr>g_rax := (g_rax g AND NOT 0xff) OR ucast (bs ! 0), g_rsi := g_rsi g + 1\<rparr>)))
      | ITestAl \<Rightarrow> Ok (Step (h\<lparr>g_zf := (g_rax g AND 0xff = 0)\<rparr>))
      | IJz l \<Rightarrow> Ok (Step (if g_zf g then h\<lparr>g_rip := label_addr L l\<rparr> else h))
      | IJmp l \<Rightarrow> Ok (Step (h\<lparr>g_rip := label_addr L l\<rparr>))
      | IOutDx \<Rightarrow> Ok (OutByte (ucast (g_rdx g)) (ucast (g_rax g)))
      | ISti \<Rightarrow> Ok (Step (h\<lparr>g_if := True, g_shadow := \<not> g_if g\<rparr>))
      | IHlt \<Rightarrow> Ok Halt
      | IIretq \<Rightarrow> go (iretq mp h))"

text \<open>An instruction executes where its bytes still are.\<close>

definition fetch64 :: "layout \<Rightarrow> (u64 \<Rightarrow> bool) \<Rightarrow> g64 \<Rightarrow> nat acc" where
  "fetch64 L mp g =
     (case find (\<lambda>k. ip_of L k = g_rip g) [0..<42] of
        None \<Rightarrow> Bad
      | Some k \<Rightarrow> abind (rd_mem mp g (g_rip g) (length (enc L k))) (\<lambda>bs. if bs = enc L k then Ok k else Bad))"

definition step64 :: "layout \<Rightarrow> (u64 \<Rightarrow> bool) \<Rightarrow> g64 \<Rightarrow> after acc" where
  "step64 L mp g = abind (fetch64 L mp g) (\<lambda>k. exec64 L mp (guest_text ! k) (ip_of L (k + 1)) g)"

datatype stop = StopOut u16 u8 | StopHlt | StopViol u64 | StopBad

text \<open>At most \<open>n\<close> instructions, up to the one that exits, and the state before it.\<close>

fun run64 :: "layout \<Rightarrow> (u64 \<Rightarrow> bool) \<Rightarrow> nat \<Rightarrow> g64 \<Rightarrow> (stop \<times> g64) option" where
  "run64 L mp 0 g = None"
| "run64 L mp (Suc n) g =
     (case step64 L mp g of
        Ok (Step g1) \<Rightarrow> run64 L mp n g1
      | Ok (OutByte p c) \<Rightarrow> Some (StopOut p c, g)
      | Ok Halt \<Rightarrow> Some (StopHlt, g)
      | Viol a \<Rightarrow> Some (StopViol a, g)
      | Bad \<Rightarrow> Some (StopBad, g))"

section \<open>Missing pages only delay\<close>

text \<open>
  Compared with the second stage \<open>mp0\<close>, an access under \<open>mp\<close> has the same result or is a violation at an address that only
  \<open>mp0\<close> maps.
\<close>

definition lags :: "(u64 \<Rightarrow> bool) \<Rightarrow> (u64 \<Rightarrow> bool) \<Rightarrow> 'a acc \<Rightarrow> 'a acc \<Rightarrow> bool" where
  "lags mp0 mp x0 x \<longleftrightarrow> x = x0 \<or> (\<exists>a. x = Viol a \<and> mp0 a \<and> \<not> mp a) \<or> (\<exists>a. x0 = Viol a)"

named_theorems lag \<open>introduction rules for lags\<close>

lemma lags_refl [lag]: "lags mp0 mp x x"
  by (simp add: lags_def)

lemma lags_bind [lag]:
  "lags mp0 mp x0 x \<Longrightarrow> (\<And>v. lags mp0 mp (f0 v) (f v)) \<Longrightarrow> lags mp0 mp (abind x0 f0) (abind x f)"
  by (cases x0; cases x) (auto simp: lags_def)

lemma lags_walk: "lags mp0 mp (page_walk mp0 m w shs t la) (page_walk mp m w shs t la)"
proof (induction shs arbitrary: t)
  case (Cons sh shs)
  then show ?case by (auto simp: lags_def Let_def split: sum.splits)
qed (simp add: lags_def)

lemma lags_xlate [lag]: "lags mp0 mp (xlate mp0 g w la) (xlate mp g w la)"
  by (simp add: xlate_def lags_walk lags_refl del: page_walk.simps)

lemma lags_xlates [lag]: "lags mp0 mp (xlates mp0 g w la n) (xlates mp g w la n)"
  by (induction n arbitrary: la) (simp_all add: lag)

lemma lags_mem [lag]:
  "lags mp0 mp (rd_mem mp0 g la n) (rd_mem mp g la n)" "lags mp0 mp (wr_mem mp0 la bs g) (wr_mem mp la bs g)"
  unfolding rd_mem_def wr_mem_def by (intro lag)+

lemma lags_stack [lag]:
  "lags mp0 mp (push64 mp0 x g) (push64 mp x g)"
  "(\<And>x g. lags mp0 mp (k0 x g) (k x g)) \<Longrightarrow> lags mp0 mp (pop64 mp0 g k0) (pop64 mp g k)"
  unfolding push64_def pop64_def by (intro lag | assumption)+

lemma lags_cs [lag]: "lags mp0 mp (load_cs mp0 s g) (load_cs mp s g)"
  unfolding load_cs_def by (simp add: lag)

lemma lags_interrupts [lag]:
  "lags mp0 mp (iretq mp0 g) (iretq mp g)" "lags mp0 mp (deliver mp0 v g) (deliver mp v g)"
  unfolding iretq_def deliver_def Let_def by (auto intro!: lag)

lemma lags_exec [lag]: "lags mp0 mp (exec64 L mp0 i n g) (exec64 L mp i n g)"
  unfolding exec64_def Let_def by (cases i) (auto intro!: lag)

lemma lags_step: "lags mp0 mp (step64 L mp0 g) (step64 L mp g)"
  unfolding step64_def fetch64_def by (auto intro!: lag split: option.split)

text \<open>
  A run that ends under \<open>mp0\<close> without a violation ends the same way under \<open>mp\<close>, or stops at a violation in a state from
  which the rest of it is still to come.
\<close>

lemma run64_more: "run64 L mp n g = Some r \<Longrightarrow> run64 L mp (n + k) g = Some r"
proof (induction n arbitrary: g)
  case (Suc n)
  then show ?case by (simp split: acc.splits after.splits)
qed simp

lemma run_lags:
  assumes "run64 L mp0 n g = Some (st, g1)" "\<And>a. st \<noteq> StopViol a"
  shows "run64 L mp n g = Some (st, g1) \<or>
    (\<exists>a g2. run64 L mp n g = Some (StopViol a, g2) \<and> mp0 a \<and> \<not> mp a \<and> run64 L mp0 n g2 = Some (st, g1))"
  using assms(1)
proof (induction n arbitrary: g)
  case (Suc n)
  have mono: "run64 L mp0 (Suc n) g' = Some r" if "run64 L mp0 n g' = Some r" for g' r
    using run64_more [OF that, of 1] by (simp only: add_Suc_right One_nat_def add_0_right)
  from lags_step [of mp0 mp L g] consider "step64 L mp g = step64 L mp0 g"
    | a where "step64 L mp g = Viol a" "mp0 a" "\<not> mp a" | a where "step64 L mp0 g = Viol a"
    unfolding lags_def by blast
  then show ?case
  proof cases
    case 1
    show ?thesis
    proof (cases "\<exists>g'. step64 L mp0 g = Ok (Step g')")
      case True
      then obtain g' where g': "step64 L mp0 g = Ok (Step g')" by blast
      with Suc.prems have r: "run64 L mp0 n g' = Some (st, g1)" by simp
      from Suc.IH [OF r] show ?thesis using 1 g' mono by fastforce
    next
      case False
      then show ?thesis using 1 Suc.prems by (auto split: acc.splits after.splits)
    qed
  next
    case 2
    then have "run64 L mp (Suc n) g = Some (StopViol a, g)" by simp
    then show ?thesis using 2(2,3) Suc.prems by blast
  next
    case 3
    then show ?thesis using Suc.prems assms(2) by auto
  qed
qed simp

section \<open>The identity map\<close>

definition tables_ok :: "g64 \<Rightarrow> bool" where
  "tables_ok g \<longleftrightarrow> bsize (g_mem g) = 0x200000 \<and> g_cr3 g = 0x6000 \<and> ld64 (g_mem g) 0x6000 = Inr (0x7003 :: u64) \<and>
     ld64 (g_mem g) 0x7000 = Inr (0x8003 :: u64) \<and> ld64 (g_mem g) 0x8000 = Inr (0x83 :: u64)"

lemma xlate_identity:
  assumes t: "tables_ok g" and la: "unat la < 0x200000" and mp: "mp 0x6000" "mp 0x7000" "mp 0x8000" "mp la"
  shows "xlate mp g w la = Ok la"
proof -
  have d: "drop_bit n la = 0" if "21 \<le> n" for n
  proof (rule bit_word_eqI)
    fix k
    have "take_bit 21 la = la"
      using la by (simp add: word_unat_eq_iff unsigned_take_bit_eq take_bit_nat_eq_self)
    then have "bit la k \<Longrightarrow> k < 21" for k by (metis bit_take_bit_iff)
    then show "bit (drop_bit n la) k = bit 0 k" using that by (force simp: bit_drop_bit_eq)
  qed
  have tb: "take_bit 21 la = la"
    using la by (simp add: word_unat_eq_iff unsigned_take_bit_eq take_bit_nat_eq_self)
  show ?thesis
    using t mp d [of 47] d [of 39] d [of 30] d [of 21]
    by (simp add: xlate_def tables_ok_def Let_def tb)
qed

text \<open>The pages the guest touches: code, IDT, the three tables and the stack.\<close>

definition guest_page :: "nat \<Rightarrow> bool" where
  "guest_page x \<longleftrightarrow> x div 4096 \<in> {1, 2, 6, 7, 8, 255}"

definition touched :: "u64 \<Rightarrow> bool" where
  "touched a \<longleftrightarrow> guest_page (unat a)"

lemma guest_page_less: "guest_page x \<Longrightarrow> x < 0x200000"
  by (auto simp: guest_page_def)

lemma xlate_touched:
  assumes "tables_ok g" "guest_page x"
  shows "xlate touched g w (of_nat x) = Ok (of_nat x)"
proof -
  have u: "unat (of_nat x :: u64) = x"
    using guest_page_less [OF assms(2)] by (simp add: unat_of_nat take_bit_nat_eq_self)
  show ?thesis
    by (rule xlate_identity [OF assms(1)])
      (use assms(2) guest_page_less [OF assms(2)] in \<open>simp_all add: u touched_def guest_page_def\<close>)
qed

lemma xlates_touched:
  assumes "tables_ok g"
  shows "\<forall>x \<in> {A..<A + n}. guest_page x \<Longrightarrow> xlates touched g w (of_nat A) n = Ok (map of_nat [A..<A + n])"
proof (induction n arbitrary: A)
  case (Suc n)
  have "xlates touched g w (of_nat (Suc A)) n = Ok (map of_nat [Suc A..<Suc A + n])"
    using Suc.prems by (intro Suc.IH) auto
  then have "xlates touched g w (of_nat A + 1) n = Ok (map of_nat [Suc A..<Suc A + n])"
    by (simp add: add.commute)
  moreover have "[A..<A + Suc n] = A # [Suc A..<Suc A + n]" by (simp add: upt_conv_Cons del: upt_Suc)
  ultimately show ?case using xlate_touched [OF assms, of A w] Suc.prems by simp
qed simp

lemma unat_page: "guest_page x \<Longrightarrow> unat (of_nat x :: u64) = x"
  using guest_page_less [of x] by (simp add: unat_of_nat take_bit_nat_eq_self)

lemma rd_touched:
  assumes "tables_ok g" "\<forall>x \<in> {A..<A + n}. guest_page x"
  shows "rd_mem touched g (of_nat A) n = Ok (map (bdata (g_mem g)) [A..<A + n])"
proof -
  have "in_ram g (map of_nat [A..<A + n])"
    using assms guest_page_less unat_page by (auto simp: in_ram_def tables_ok_def)
  moreover have "map (\<lambda>a. bdata (g_mem g) (unat a)) (map of_nat [A..<A + n] :: u64 list) = map (bdata (g_mem g)) [A..<A + n]"
    using assms(2) unat_page by auto
  ultimately show ?thesis by (simp add: rd_mem_def xlates_touched [OF assms])
qed

lemma fold_upd_bytes:
  "\<forall>x \<in> {A..<A + length bs}. guest_page x \<Longrightarrow>
   fold (\<lambda>(a, b) d. d(unat (a :: u64) := b)) (zip (map of_nat [A..<A + length bs]) bs) d = bytes_upd d A bs"
proof (induction bs arbitrary: A d)
  case (Cons b bs)
  have u: "unat (of_nat A :: u64) = A" using Cons.prems by (intro unat_page) simp
  have "[A..<A + length (b # bs)] = A # [Suc A..<Suc A + length bs]" by (simp add: upt_conv_Cons del: upt_Suc)
  moreover have "fold (\<lambda>(a, b) d. d(unat (a :: u64) := b)) (zip (map of_nat [Suc A..<Suc A + length bs]) bs) (d(A := b)) =
      bytes_upd (d(A := b)) (Suc A) bs"
    using Cons.prems by (intro Cons.IH) auto
  moreover have "bytes_upd (d(A := b)) (Suc A) bs = bytes_upd d A (b # bs)"
    by (auto simp: bytes_upd_def fun_eq_iff nth_Cons' Suc_diff_Suc)
  ultimately show ?case by (simp add: u del: upt_Suc fun_upd_apply)
qed (auto simp: bytes_upd_def fun_eq_iff)

lemma wr_touched:
  assumes "tables_ok g" "\<forall>x \<in> {A..<A + length bs}. guest_page x"
  shows "wr_mem touched (of_nat A) bs g = Ok (g\<lparr>g_mem := (g_mem g)\<lparr>bdata := bytes_upd (bdata (g_mem g)) A bs\<rparr>\<rparr>)"
proof -
  have "in_ram g (map of_nat [A..<A + length bs])"
    using assms guest_page_less unat_page by (auto simp: in_ram_def tables_ok_def)
  then show ?thesis by (simp add: wr_mem_def xlates_touched [OF assms] fold_upd_bytes [OF assms(2)])
qed

section \<open>Memory as the guest leaves it\<close>

definition mwrite :: "nat \<Rightarrow> u8 list \<Rightarrow> cbuf \<Rightarrow> cbuf" where
  "mwrite A bs m = m\<lparr>bdata := bytes_upd (bdata m) A bs\<rparr>"

definition mbytes :: "cbuf \<Rightarrow> nat \<Rightarrow> nat \<Rightarrow> u8 list" where
  "mbytes m A n = map (bdata m) [A..<A + n]"

lemma length_mbytes [simp]: "length (mbytes m A n) = n"
  by (simp add: mbytes_def)

lemma mbytes_same [simp]: "n = length bs \<Longrightarrow> mbytes (mwrite A bs m) A n = bs"
  by (auto simp: mbytes_def mwrite_def intro: nth_equalityI)

lemma mbytes_other [simp]: "B + n \<le> A \<or> A + length bs \<le> B \<Longrightarrow> mbytes (mwrite A bs m) B n = mbytes m B n"
  by (auto simp: mbytes_def mwrite_def)

lemma mbytes_part: "i + k \<le> n \<Longrightarrow> mbytes m (A + i) k = take k (drop i (mbytes m A n))"
  by (rule nth_equalityI) (auto simp: mbytes_def add.assoc)

lemma mwrite_adjacent: "mwrite (A + length xs) ys (mwrite A xs m) = mwrite A (xs @ ys) m"
  by (simp add: mwrite_def bytes_upd_adjacent)

lemma bsize_mwrite [simp]: "bsize (mwrite A bs m) = bsize m"
  by (simp add: mwrite_def)

definition tables_in :: "cbuf \<Rightarrow> bool" where
  "tables_in m \<longleftrightarrow> bsize m = 0x200000 \<and> mbytes m 0x6000 8 = le_bytes 8 (0x7003 :: u64) \<and>
     mbytes m 0x7000 8 = le_bytes 8 (0x8003 :: u64) \<and> mbytes m 0x8000 8 = le_bytes 8 (0x83 :: u64)"

lemma ld64_mbytes: "A + 8 \<le> bsize m \<Longrightarrow> ld64 m A = Inr (le_val (mbytes m A 8))"
proof -
  have "map (\<lambda>i. bdata m (A + i)) [0..<8] = mbytes m A 8"
    by (rule nth_equalityI) (simp_all add: mbytes_def)
  then show "A + 8 \<le> bsize m \<Longrightarrow> ld64 m A = Inr (le_val (mbytes m A 8))"
    by (simp add: ld64_def buf_read_def)
qed

lemma tables_in_ok: "tables_in (g_mem g) \<Longrightarrow> g_cr3 g = 0x6000 \<Longrightarrow> tables_ok g"
  by (simp add: tables_in_def tables_ok_def ld64_mbytes le_val_le_bytes_full)

lemma rd_page:
  assumes "tables_in (g_mem g)" "g_cr3 g = 0x6000" "\<forall>x \<in> {A..<A + n}. guest_page x"
  shows "rd_mem touched g (of_nat A) n = Ok (mbytes (g_mem g) A n)"
  using rd_touched [OF tables_in_ok [OF assms(1,2)] assms(3)] by (simp add: mbytes_def)

lemma wr_page:
  assumes "tables_in (g_mem g)" "g_cr3 g = 0x6000" "\<forall>x \<in> {A..<A + length bs}. guest_page x"
  shows "wr_mem touched (of_nat A) bs g = Ok (g\<lparr>g_mem := mwrite A bs (g_mem g)\<rparr>)"
  using wr_touched [OF tables_in_ok [OF assms(1,2)] assms(3)] by (simp add: mwrite_def)

text \<open>Areas inside one page.\<close>

lemma guest_page_code: "0x1000 \<le> A \<Longrightarrow> A + n \<le> 0x2000 \<Longrightarrow> \<forall>x \<in> {A..<A + n}. guest_page x"
  by (auto simp: guest_page_def)

lemma guest_page_idt: "0x2000 \<le> A \<Longrightarrow> A + n \<le> 0x3000 \<Longrightarrow> \<forall>x \<in> {A..<A + n}. guest_page x"
  by (auto simp: guest_page_def)

lemma guest_page_stack: "0xff000 \<le> A \<Longrightarrow> A + n \<le> 0x100000 \<Longrightarrow> \<forall>x \<in> {A..<A + n}. guest_page x"
  by (auto simp: guest_page_def)

section \<open>The image in memory\<close>

definition layout_ok :: "layout \<Rightarrow> bool" where
  "layout_ok L \<longleftrightarrow> (\<forall>k < 42. enc L k \<noteq> [] \<and> length (enc L k) \<le> 15) \<and> length (guest_image L) < 0x1000"

definition code_in :: "layout \<Rightarrow> cbuf \<Rightarrow> bool" where
  "code_in L m \<longleftrightarrow> tables_in m \<and> mbytes m 0x1000 (length (guest_image L)) = guest_image L"

definition guest_area :: "nat \<Rightarrow> nat \<Rightarrow> bool" where
  "guest_area A n \<longleftrightarrow> 0x2000 \<le> A \<and> A + n \<le> 0x3000 \<or> 0xff000 \<le> A \<and> A + n \<le> 0x100000"

lemma code_in_write [simp]:
  "layout_ok L \<Longrightarrow> guest_area A (length bs) \<Longrightarrow> code_in L (mwrite A bs m) = code_in L m"
  unfolding code_in_def tables_in_def layout_ok_def guest_area_def by (elim disjE conjE) simp_all

lemma code_part:
  assumes "code_in L m" "i + n \<le> length (guest_image L)"
  shows "mbytes m (0x1000 + i) n = take n (drop i (guest_image L))"
  using assms mbytes_part [of i n "length (guest_image L)" m "0x1000"] by (simp add: code_in_def)

lemma text_bytes_Suc: "text_bytes L (Suc k) = text_bytes L k @ enc L k"
  by (simp add: text_bytes_def)

lemma text_off_Suc [simp]: "text_off L (Suc k) = text_off L k + length (enc L k)"
  by (simp add: text_off_def text_bytes_Suc)

lemma text_prefix: "k \<le> n \<Longrightarrow> \<exists>r. text_bytes L n = text_bytes L k @ r"
  by (induction n rule: dec_induct) (auto simp: text_bytes_Suc)

lemma text_off_mono: "k \<le> n \<Longrightarrow> text_off L k \<le> text_off L n"
  using text_prefix [of k n L] by (auto simp: text_off_def)

lemma text_off_less:
  assumes "layout_ok L" "k < n" "n \<le> 42"
  shows "text_off L k < text_off L n"
proof -
  have "text_off L k < text_off L (Suc k)" using assms by (auto simp: layout_ok_def)
  also have "\<dots> \<le> text_off L n" using assms(2) by (intro text_off_mono) simp
  finally show ?thesis .
qed

lemma image_length: "length (guest_image L) = gdt_off L + 34" "ro_off L + 58 \<le> gdt_off L" "gdt_off L \<le> ro_off L + 65"
  by (simp_all add: guest_image_def guest_rodata_def msg_bytes_def irqmsg_bytes_def ascii_def ro_off_def gdt_off_def text_off_def)

lemma text_inside: "layout_ok L \<Longrightarrow> k \<le> 42 \<Longrightarrow> text_off L k < 0x1000"
  using text_off_mono [of k 42 L] image_length [of L] by (simp add: layout_ok_def ro_off_def)

lemma code_instr:
  assumes "code_in L m" "k < 42"
  shows "mbytes m (0x1000 + text_off L k) (length (enc L k)) = enc L k"
proof -
  obtain r where r: "text_bytes L 42 = text_bytes L (Suc k) @ r" using text_prefix [of "Suc k" 42 L] assms(2) by auto
  then have g: "guest_image L = text_bytes L k @ enc L k @ r @ replicate (ro_gap L) 0 @ guest_rodata L"
    by (simp add: guest_image_def text_bytes_Suc)
  have "text_off L k + length (enc L k) \<le> length (guest_image L)" by (simp add: g text_off_def)
  from code_part [OF assms(1) this] show ?thesis by (simp add: g text_off_def)
qed

lemma code_data:
  assumes "code_in L m" "i + n \<le> length (guest_rodata L)"
  shows "mbytes m (0x1000 + (ro_off L + i)) n = take n (drop i (guest_rodata L))"
proof -
  have l: "length (guest_image L) = ro_off L + length (guest_rodata L)" by (simp add: guest_image_def ro_off_def text_off_def)
  have "drop (ro_off L + i) (guest_image L) = drop i (guest_rodata L)"
    by (simp add: guest_image_def ro_off_def text_off_def)
  then show ?thesis using code_part [OF assms(1), of "ro_off L + i" n] assms(2) l by simp
qed

lemma ip_nat: "ip_of L k = of_nat (0x1000 + text_off L k)"
  by (simp add: ip_of_def)

lemma ip_inj:
  assumes "layout_ok L" "j \<le> 42" "k \<le> 42"
  shows "ip_of L j = ip_of L k \<longleftrightarrow> j = k"
proof -
  have u: "unat (ip_of L i) = 0x1000 + text_off L i" if "i \<le> 42" for i
    using text_inside [OF assms(1) that] by (simp add: ip_nat unat_of_nat take_bit_nat_eq_self del: of_nat_add)
  have "text_off L j = text_off L k \<longleftrightarrow> j = k"
    using text_off_less [OF assms(1)] assms(2,3) by (metis less_irrefl_nat linorder_neqE_nat)
  then show ?thesis using u [OF assms(2)] u [OF assms(3)] by (metis add_left_cancel)
qed

lemma fetch_at:
  assumes "layout_ok L" "code_in L (g_mem g)" "g_cr3 g = 0x6000" "g_rip g = ip_of L k" "k < 42"
  shows "fetch64 L touched g = Ok k"
proof -
  have "find (\<lambda>j. ip_of L j = g_rip g) [0..<42] = Some k"
    using ip_inj [OF assms(1)] assms(4,5) by (auto simp: find_Some_iff intro!: exI [of _ k])
  moreover have "rd_mem touched g (g_rip g) (length (enc L k)) = Ok (enc L k)"
  proof -
    have "0x1000 + text_off L k + length (enc L k) \<le> 0x2000"
      using text_inside [OF assms(1), of "Suc k"] assms(5) by simp
    then have "rd_mem touched g (of_nat (0x1000 + text_off L k)) (length (enc L k)) = Ok (mbytes (g_mem g) (0x1000 + text_off L k) (length (enc L k)))"
      using assms(2,3) by (intro rd_page guest_page_code) (simp_all add: code_in_def)
    then show ?thesis using code_instr [OF assms(2,5)] by (simp only: assms(4) ip_nat)
  qed
  ultimately show ?thesis by (simp add: fetch64_def)
qed

section \<open>Runs without an exit\<close>

definition guest_ok :: "layout \<Rightarrow> g64 \<Rightarrow> bool" where
  "guest_ok L g \<longleftrightarrow> layout_ok L \<and> code_in L (g_mem g) \<and> g_cr3 g = 0x6000"

definition runs_to :: "layout \<Rightarrow> nat \<Rightarrow> g64 \<Rightarrow> g64 \<Rightarrow> bool" where
  "runs_to L k g g' \<longleftrightarrow> (\<forall>n. run64 L touched (k + n) g = run64 L touched n g')"

lemma runs_trans [trans]: "runs_to L a g g' \<Longrightarrow> runs_to L b g' g'' \<Longrightarrow> runs_to L (a + b) g g''"
  by (simp add: runs_to_def add.assoc)

lemma runs_refl: "runs_to L 0 g g"
  by (simp add: runs_to_def)

lemma step_at:
  assumes "guest_ok L g" "g_rip g = ip_of L k" "k < 42"
  shows "step64 L touched g = exec64 L touched (guest_text ! k) (ip_of L (Suc k)) g"
  using assms fetch_at [of L g k] by (simp add: step64_def guest_ok_def)

lemma run_at:
  assumes "guest_ok L g" "g_rip g = ip_of L k" "k < 42"
    and "exec64 L touched (guest_text ! k) (ip_of L (Suc k)) g = Ok (Step g')"
  shows "runs_to L 1 g g'"
  using step_at [OF assms(1-3)] assms(4) by (simp add: runs_to_def)

lemma stop_at:
  assumes "guest_ok L g" "g_rip g = ip_of L k" "k < 42"
  shows "guest_text ! k = IHlt \<Longrightarrow> run64 L touched (Suc n) g = Some (StopHlt, g)"
    "guest_text ! k = IOutDx \<Longrightarrow> run64 L touched (Suc n) g = Some (StopOut (ucast (g_rdx g)) (ucast (g_rax g)), g)"
  using step_at [OF assms] by (simp_all add: exec64_def Let_def)

lemma wr_area:
  assumes "guest_ok L g" "a = of_nat A" "guest_area A (length bs)"
  shows "wr_mem touched a bs g = Ok (g\<lparr>g_mem := mwrite A bs (g_mem g)\<rparr>)"
  using assms guest_page_idt [of A "length bs"] guest_page_stack [of A "length bs"]
  by (auto simp: guest_ok_def code_in_def guest_area_def intro!: wr_page)

lemma rd_area:
  assumes "guest_ok L g" "a = of_nat A" "guest_area A n \<or> 0x1000 \<le> A \<and> A + n \<le> 0x2000"
  shows "rd_mem touched g a n = Ok (mbytes (g_mem g) A n)"
  using assms guest_page_idt [of A n] guest_page_stack [of A n] guest_page_code [of A n]
  by (auto simp: guest_ok_def code_in_def guest_area_def intro!: rd_page)

lemma label_ip [simp]:
  "label_addr L LhaltLoop = ip_of L 14" "label_addr L FillIdtEntries = ip_of L 16" "label_addr L Lfill = ip_of L 17"
  "label_addr L Print = ip_of L 29" "label_addr L LprintLoop = ip_of L 31" "label_addr L LprintDone = ip_of L 36"
  "label_addr L IrqHandler = ip_of L 38" "label_addr L IrqStub = ip_of L 41"
  by (simp_all add: label_addr_def ip_of_def)

lemma guest_ok_sel [simp]:
  "guest_ok L (g\<lparr>g_rax := x\<rparr>) = guest_ok L g" "guest_ok L (g\<lparr>g_rcx := x\<rparr>) = guest_ok L g" "guest_ok L (g\<lparr>g_rdx := x\<rparr>) = guest_ok L g"
  "guest_ok L (g\<lparr>g_rsi := x\<rparr>) = guest_ok L g" "guest_ok L (g\<lparr>g_rdi := x\<rparr>) = guest_ok L g" "guest_ok L (g\<lparr>g_rsp := x\<rparr>) = guest_ok L g"
  "guest_ok L (g\<lparr>g_rip := x\<rparr>) = guest_ok L g" "guest_ok L (g\<lparr>g_zf := b\<rparr>) = guest_ok L g" "guest_ok L (g\<lparr>g_if := b\<rparr>) = guest_ok L g"
  "guest_ok L (g\<lparr>g_shadow := b\<rparr>) = guest_ok L g" "guest_ok L (g\<lparr>g_cs := h\<rparr>) = guest_ok L g" "guest_ok L (g\<lparr>g_gdt := x\<rparr>) = guest_ok L g"
  "guest_ok L (g\<lparr>g_gdtl := h\<rparr>) = guest_ok L g" "guest_ok L (g\<lparr>g_idt := x\<rparr>) = guest_ok L g" "guest_ok L (g\<lparr>g_idtl := h\<rparr>) = guest_ok L g"
  "layout_ok L \<Longrightarrow> guest_area A (length bs) \<Longrightarrow> guest_ok L (g\<lparr>g_mem := mwrite A bs m\<rparr>) = guest_ok L (g\<lparr>g_mem := m\<rparr>)"
  by (simp_all add: guest_ok_def)

lemma run_store:
  assumes "guest_ok L g" "g_rip g = ip_of L k" "k < 42" "guest_area B n" "g_rdi g + d = of_nat B"
  shows "guest_text ! k = IStore n r d \<Longrightarrow>
      runs_to L 1 g (g\<lparr>g_rip := ip_of L (Suc k), g_shadow := False, g_mem := mwrite B (le_bytes n (get_reg r g)) (g_mem g)\<rparr>)"
    "guest_text ! k = IStoreI n x d \<Longrightarrow>
      runs_to L 1 g (g\<lparr>g_rip := ip_of L (Suc k), g_shadow := False, g_mem := mwrite B (le_bytes n x) (g_mem g)\<rparr>)"
proof -
  let ?h = "g\<lparr>g_rip := ip_of L (Suc k), g_shadow := False\<rparr>"
  have w: "length bs = n \<Longrightarrow> wr_mem touched (g_rdi g + d) bs ?h = Ok (?h\<lparr>g_mem := mwrite B bs (g_mem g)\<rparr>)" for bs
    using wr_area [of L ?h "g_rdi g + d" B bs] assms by simp
  show "guest_text ! k = IStore n r d \<Longrightarrow>
      runs_to L 1 g (g\<lparr>g_rip := ip_of L (Suc k), g_shadow := False, g_mem := mwrite B (le_bytes n (get_reg r g)) (g_mem g)\<rparr>)"
    by (rule run_at [OF assms(1-3)]) (simp add: exec64_def Let_def w)
  show "guest_text ! k = IStoreI n x d \<Longrightarrow>
      runs_to L 1 g (g\<lparr>g_rip := ip_of L (Suc k), g_shadow := False, g_mem := mwrite B (le_bytes n x) (g_mem g)\<rparr>)"
    by (rule run_at [OF assms(1-3)]) (simp add: exec64_def Let_def w)
qed

lemma run_push:
  assumes "guest_ok L g" "g_rip g = ip_of L k" "k < 42" "g_rsp g - 8 = of_nat B" "guest_area B 8"
  shows "guest_text ! k = IPush r \<Longrightarrow> runs_to L 1 g (g\<lparr>g_rip := ip_of L (Suc k), g_shadow := False, g_rsp := of_nat B,
      g_mem := mwrite B (le_bytes 8 (get_reg r g)) (g_mem g)\<rparr>)"
    "guest_text ! k = ICall l \<Longrightarrow> runs_to L 1 g (g\<lparr>g_rip := label_addr L l, g_shadow := False, g_rsp := of_nat B,
      g_mem := mwrite B (le_bytes 8 (ip_of L (Suc k))) (g_mem g)\<rparr>)"
proof -
  let ?h = "g\<lparr>g_rip := ip_of L (Suc k), g_shadow := False\<rparr>"
  have w: "push64 touched x ?h = Ok (?h\<lparr>g_rsp := of_nat B, g_mem := mwrite B (le_bytes 8 x) (g_mem g)\<rparr>)" for x
    using wr_area [of L ?h "of_nat B" B "le_bytes 8 x"] assms by (simp add: push64_def)
  show "guest_text ! k = IPush r \<Longrightarrow> runs_to L 1 g (g\<lparr>g_rip := ip_of L (Suc k), g_shadow := False, g_rsp := of_nat B,
      g_mem := mwrite B (le_bytes 8 (get_reg r g)) (g_mem g)\<rparr>)"
    by (rule run_at [OF assms(1-3)]) (simp add: exec64_def Let_def w)
  show "guest_text ! k = ICall l \<Longrightarrow> runs_to L 1 g (g\<lparr>g_rip := label_addr L l, g_shadow := False, g_rsp := of_nat B,
      g_mem := mwrite B (le_bytes 8 (ip_of L (Suc k))) (g_mem g)\<rparr>)"
    by (rule run_at [OF assms(1-3)]) (simp add: exec64_def Let_def w)
qed

lemma run_pop:
  assumes "guest_ok L g" "g_rip g = ip_of L k" "k < 42" "g_rsp g = of_nat B" "guest_area B 8" "mbytes (g_mem g) B 8 = le_bytes 8 x"
  shows "guest_text ! k = IPop r \<Longrightarrow>
      runs_to L 1 g (put_r64 r x (g\<lparr>g_rip := ip_of L (Suc k), g_shadow := False, g_rsp := of_nat (B + 8)\<rparr>))"
    "guest_text ! k = IRet \<Longrightarrow> runs_to L 1 g (g\<lparr>g_rip := x, g_shadow := False, g_rsp := of_nat (B + 8)\<rparr>)"
proof -
  let ?h = "g\<lparr>g_rip := ip_of L (Suc k), g_shadow := False\<rparr>"
  have w: "pop64 touched ?h f = f x (?h\<lparr>g_rsp := of_nat (B + 8)\<rparr>)" for f :: "u64 \<Rightarrow> g64 \<Rightarrow> after acc"
    using rd_area [of L ?h "of_nat B" B 8] assms by (simp add: pop64_def le_val_le_bytes_full add.commute)
  show "guest_text ! k = IPop r \<Longrightarrow>
      runs_to L 1 g (put_r64 r x (g\<lparr>g_rip := ip_of L (Suc k), g_shadow := False, g_rsp := of_nat (B + 8)\<rparr>))"
    by (rule run_at [OF assms(1-3)]) (simp add: exec64_def Let_def w)
  show "guest_text ! k = IRet \<Longrightarrow> runs_to L 1 g (g\<lparr>g_rip := x, g_shadow := False, g_rsp := of_nat (B + 8)\<rparr>)"
    by (rule run_at [OF assms(1-3)]) (simp add: exec64_def Let_def w)
qed

section \<open>Filling the IDT\<close>

lemma runs_eq: "runs_to L a g h \<Longrightarrow> a = b \<Longrightarrow> h = h' \<Longrightarrow> runs_to L b g h'"
  by simp

lemma text_at [simp]:
  "guest_text ! 0 = ICld" "guest_text ! 1 = ILgdt GdtPtr" "guest_text ! 2 = ILea IrqStub RSI" "guest_text ! 3 = IMovI IDT_BASE RDI"
  "guest_text ! 4 = IMovI 256 RCX" "guest_text ! 5 = ICall FillIdtEntries" "guest_text ! 6 = ILea IrqHandler RSI"
  "guest_text ! 7 = IMovI 0x2210 RDI" "guest_text ! 8 = IMovI 1 RCX" "guest_text ! 9 = ICall FillIdtEntries"
  "guest_text ! 10 = ILidt IdtPtr" "guest_text ! 11 = ILea Msg RSI" "guest_text ! 12 = ICall Print" "guest_text ! 13 = ISti"
  "guest_text ! 14 = IHlt" "guest_text ! 16 = IMov RSI RAX" "guest_text ! 17 = IStore 2 RAX 0" "guest_text ! 18 = IStoreI 2 8 2"
  "guest_text ! 19 = IStoreI 1 0 4" "guest_text ! 20 = IStoreI 1 0x8e 5" "guest_text ! 21 = IMov RAX RDX" "guest_text ! 22 = IShr 16 RDX"
  "guest_text ! 23 = IStore 2 RDX 6" "guest_text ! 24 = IStoreI 4 0 8" "guest_text ! 25 = IStoreI 4 0 12" "guest_text ! 26 = IAddI 16 RDI"
  "guest_text ! 27 = ILoop Lfill" "guest_text ! 28 = IRet" "guest_text ! 29 = IPush RDX" "guest_text ! 30 = IMovI 0x3f8 RDX"
  "guest_text ! 31 = ILodsb" "guest_text ! 32 = ITestAl" "guest_text ! 33 = IJz LprintDone" "guest_text ! 34 = IOutDx"
  "guest_text ! 35 = IJmp LprintLoop" "guest_text ! 36 = IPop RDX" "guest_text ! 37 = IRet" "guest_text ! 38 = ILea IrqMsg RSI"
  "guest_text ! 39 = ICall Print" "guest_text ! 40 = IIretq" "guest_text ! 41 = IIretq"
  by (simp_all add: guest_text_def)

text \<open>The gate the code writes for a handler at \<open>t\<close>.\<close>

definition gate :: "u64 \<Rightarrow> u8 list" where
  "gate t = le_bytes 2 t @ le_bytes 2 (8 :: u64) @ le_bytes 1 (0 :: u64) @ le_bytes 1 (0x8e :: u64) @
     le_bytes 2 (drop_bit 16 t) @ le_bytes 4 (0 :: u64) @ le_bytes 4 (0 :: u64)"

lemma length_gate [simp]: "length (gate t) = 16"
  by (simp add: gate_def)

lemma run_reg:
  assumes "guest_ok L g" "g_rip g = ip_of L k" "k < 42"
  shows "guest_text ! k = IMov r r' \<Longrightarrow> runs_to L 1 g (put_r64 r' (get_reg r g) (g\<lparr>g_rip := ip_of L (Suc k), g_shadow := False\<rparr>))"
    "guest_text ! k = IMovI x r \<Longrightarrow> runs_to L 1 g (put_r64 r x (g\<lparr>g_rip := ip_of L (Suc k), g_shadow := False\<rparr>))"
    "guest_text ! k = ILea l r \<Longrightarrow> runs_to L 1 g (put_r64 r (label_addr L l) (g\<lparr>g_rip := ip_of L (Suc k), g_shadow := False\<rparr>))"
    "guest_text ! k = IShr n r \<Longrightarrow> runs_to L 1 g ((put_r64 r (drop_bit n (get_reg r g)) (g\<lparr>g_rip := ip_of L (Suc k), g_shadow := False\<rparr>))
       \<lparr>g_zf := (drop_bit n (get_reg r g) = 0)\<rparr>)"
    "guest_text ! k = IAddI x r \<Longrightarrow> runs_to L 1 g ((put_r64 r (get_reg r g + x) (g\<lparr>g_rip := ip_of L (Suc k), g_shadow := False\<rparr>))
       \<lparr>g_zf := (get_reg r g + x = 0)\<rparr>)"
    "guest_text ! k = ILoop l \<Longrightarrow> runs_to L 1 g (g\<lparr>g_rip := (if g_rcx g = 1 then ip_of L (Suc k) else label_addr L l), g_shadow := False,
       g_rcx := g_rcx g - 1\<rparr>)"
    "guest_text ! k = ICld \<Longrightarrow> runs_to L 1 g (g\<lparr>g_rip := ip_of L (Suc k), g_shadow := False\<rparr>)"
    "guest_text ! k = IJmp l \<Longrightarrow> runs_to L 1 g (g\<lparr>g_rip := label_addr L l, g_shadow := False\<rparr>)"
    "guest_text ! k = IJz l \<Longrightarrow> runs_to L 1 g (g\<lparr>g_rip := (if g_zf g then label_addr L l else ip_of L (Suc k)), g_shadow := False\<rparr>)"
    "guest_text ! k = ITestAl \<Longrightarrow> runs_to L 1 g (g\<lparr>g_rip := ip_of L (Suc k), g_shadow := False, g_zf := (g_rax g AND 0xff = 0)\<rparr>)"
    "guest_text ! k = ISti \<Longrightarrow> runs_to L 1 g (g\<lparr>g_rip := ip_of L (Suc k), g_shadow := \<not> g_if g, g_if := True\<rparr>)"
  by (rule run_at [OF assms], simp add: exec64_def Let_def)+

lemma fill_turn:
  assumes ok: "guest_ok L g" "g_rip g = ip_of L 17" and A: "g_rdi g = of_nat A" "0x2000 \<le> A" "A + 16 \<le> 0x3000"
  shows "runs_to L 11 g (g\<lparr>g_rip := (if g_rcx g = 1 then ip_of L 28 else ip_of L 17), g_shadow := False, g_rdi := of_nat (A + 16),
    g_rcx := g_rcx g - 1, g_rdx := drop_bit 16 (g_rax g), g_zf := False, g_mem := mwrite A (gate (g_rax g)) (g_mem g)\<rparr>)"
proof -
  let ?t = "g_rax g" and ?m = "g_mem g"
  let ?s = "\<lambda>k bs. g\<lparr>g_rip := ip_of L k, g_shadow := False, g_mem := mwrite A bs ?m\<rparr>"
  have L: "layout_ok L" using ok(1) by (simp add: guest_ok_def)
  have area: "d + n \<le> 16 \<Longrightarrow> guest_area (A + d) n" for d n using A by (simp add: guest_area_def)
  have s_ok: "length bs \<le> 16 \<Longrightarrow> guest_ok L (?s k bs)" for k bs
    using ok(1) L area [of 0 "length bs"] by simp
  have put: "mwrite (A + length bs) cs (mwrite A bs ?m) = mwrite A (bs @ cs) ?m" for bs cs by (rule mwrite_adjacent)
  let ?b1 = "le_bytes 2 ?t" and ?b2 = "le_bytes 2 ?t @ le_bytes 2 (8 :: u64)"
  let ?b3 = "?b2 @ le_bytes 1 (0 :: u64)" let ?b4 = "?b3 @ le_bytes 1 (0x8e :: u64)"
  let ?b5 = "?b4 @ le_bytes 2 (drop_bit 16 ?t)" let ?b6 = "?b5 @ le_bytes 4 (0 :: u64)" let ?b7 = "?b6 @ le_bytes 4 (0 :: u64)"
  have "runs_to L 1 g (?s 18 ?b1)"
    using run_store(1) [OF ok, of A 2 0 RAX] area [of 0 2] A by simp
  also have "runs_to L 1 (?s 18 ?b1) (?s 19 ?b2)"
    using run_store(2) [OF s_ok [of ?b1 18], of 18 "A + 2" 2 2 8] area [of 2 2] A put [of ?b1] by simp
  also have "runs_to L 1 (?s 19 ?b2) (?s 20 ?b3)"
    using run_store(2) [OF s_ok [of ?b2 19], of 19 "A + 4" 1 4 0] area [of 4 1] A put [of ?b2] by simp
  also have "runs_to L 1 (?s 20 ?b3) (?s 21 ?b4)"
    using run_store(2) [OF s_ok [of ?b3 20], of 20 "A + 5" 1 5 "0x8e"] area [of 5 1] A put [of ?b3] by simp
  also have "runs_to L 1 (?s 21 ?b4) ((?s 22 ?b4)\<lparr>g_rdx := ?t\<rparr>)"
    using run_reg(1) [OF s_ok [of ?b4 21], of 21 RAX RDX] by (cases g) (simp add: guest_ok_def)
  also have "runs_to L 1 \<dots> ((?s 23 ?b4)\<lparr>g_rdx := drop_bit 16 ?t, g_zf := (drop_bit 16 ?t = 0)\<rparr>)"
    using run_reg(4) [of L "(?s 22 ?b4)\<lparr>g_rdx := ?t\<rparr>" 22 16 RDX] s_ok [of ?b4 22] by (cases g) (simp add: guest_ok_def)
  also have "runs_to L 1 \<dots> ((?s 24 ?b5)\<lparr>g_rdx := drop_bit 16 ?t, g_zf := (drop_bit 16 ?t = 0)\<rparr>)"
    using run_store(1) [of L "(?s 23 ?b4)\<lparr>g_rdx := drop_bit 16 ?t, g_zf := (drop_bit 16 ?t = 0)\<rparr>" 23 "A + 6" 2 6 RDX]
      s_ok [of ?b4 23] area [of 6 2] A put [of ?b4] by (cases g) (simp add: guest_ok_def)
  also have "runs_to L 1 \<dots> ((?s 25 ?b6)\<lparr>g_rdx := drop_bit 16 ?t, g_zf := (drop_bit 16 ?t = 0)\<rparr>)"
    using run_store(2) [of L "(?s 24 ?b5)\<lparr>g_rdx := drop_bit 16 ?t, g_zf := (drop_bit 16 ?t = 0)\<rparr>" 24 "A + 8" 4 8 0]
      s_ok [of ?b5 24] area [of 8 4] A put [of ?b5] by (cases g) (simp add: guest_ok_def)
  also have "runs_to L 1 \<dots> ((?s 26 ?b7)\<lparr>g_rdx := drop_bit 16 ?t, g_zf := (drop_bit 16 ?t = 0)\<rparr>)"
    using run_store(2) [of L "(?s 25 ?b6)\<lparr>g_rdx := drop_bit 16 ?t, g_zf := (drop_bit 16 ?t = 0)\<rparr>" 25 "A + 12" 4 12 0]
      s_ok [of ?b6 25] area [of 12 4] A put [of ?b6] by (cases g) (simp add: guest_ok_def)
  also have "runs_to L 1 \<dots> ((?s 27 ?b7)\<lparr>g_rdx := drop_bit 16 ?t, g_rdi := of_nat (A + 16), g_zf := False\<rparr>)"
  proof -
    have e: "g_rdi g + 16 = of_nat (A + 16)" using A(1) by simp
    have nz: "(of_nat (A + 16) :: u64) \<noteq> 0"
      using A by (simp add: word_unat_eq_iff unat_of_nat take_bit_nat_eq_self del: of_nat_add)
    show ?thesis
      by (rule runs_eq [OF run_reg(5) [of L "(?s 26 ?b7)\<lparr>g_rdx := drop_bit 16 ?t, g_zf := (drop_bit 16 ?t = 0)\<rparr>" 26 16 RDI]])
        (use s_ok [of ?b7 26] in \<open>simp_all add: e nz del: of_nat_add\<close>)
  qed
  also have "runs_to L 1 \<dots> ((?s (if g_rcx g = 1 then 28 else 17) ?b7)\<lparr>g_rdx := drop_bit 16 ?t, g_rdi := of_nat (A + 16), g_zf := False,
      g_rcx := g_rcx g - 1\<rparr>)"
    by (rule runs_eq [OF run_reg(6) [of L "(?s 27 ?b7)\<lparr>g_rdx := drop_bit 16 ?t, g_rdi := of_nat (A + 16), g_zf := False\<rparr>" 27 Lfill]])
      (use s_ok [of ?b7 27] in \<open>simp_all del: of_nat_add\<close>)
  finally show ?thesis
    by (rule runs_eq) (simp, cases g, simp add: gate_def)
qed

lemma fill_loop:
  assumes "guest_ok L g" "g_rip g = ip_of L 17" "g_rdi g = of_nat A" "0x2000 \<le> A" "A + 16 * Suc n \<le> 0x3000" "g_rcx g = of_nat (Suc n)"
  shows "runs_to L (11 * Suc n) g (g\<lparr>g_rip := ip_of L 28, g_shadow := False, g_rdi := of_nat (A + 16 * Suc n), g_rcx := 0,
    g_rdx := drop_bit 16 (g_rax g), g_zf := False, g_mem := mwrite A (concat (replicate (Suc n) (gate (g_rax g)))) (g_mem g)\<rparr>)"
  using assms
proof (induction n arbitrary: g A)
  case 0
  then show ?case using fill_turn [of L g A] by simp
next
  case (Suc n)
  let ?g = "g\<lparr>g_rip := ip_of L 17, g_shadow := False, g_rdi := of_nat (A + 16), g_rcx := of_nat (Suc n),
    g_rdx := drop_bit 16 (g_rax g), g_zf := False, g_mem := mwrite A (gate (g_rax g)) (g_mem g)\<rparr>"
  have L: "layout_ok L" using Suc.prems(1) by (simp add: guest_ok_def)
  have c: "g_rcx g - 1 = of_nat (Suc n)" using Suc.prems(6) by simp
  have "unat (g_rcx g) = Suc (Suc n)"
    using Suc.prems(5) unfolding Suc.prems(6) unat_of_nat by (subst mod_less) simp_all
  then have "g_rcx g \<noteq> 1" by auto
  then have a: "runs_to L 11 g ?g"
    by (intro runs_eq [OF fill_turn [of L g A]]) (use Suc.prems c in \<open>simp_all del: of_nat_add of_nat_Suc\<close>)
  have "guest_ok L ?g" using Suc.prems L by (simp add: guest_area_def)
  then have b: "runs_to L (11 * Suc n) ?g (?g\<lparr>g_rip := ip_of L 28, g_shadow := False,
      g_rdi := of_nat (A + 16 + 16 * Suc n), g_rcx := 0, g_rdx := drop_bit 16 (g_rax g), g_zf := False,
      g_mem := mwrite (A + 16) (concat (replicate (Suc n) (gate (g_rax g)))) (mwrite A (gate (g_rax g)) (g_mem g))\<rparr>)"
    by (intro runs_eq [OF Suc.IH [of ?g "A + 16"]]) (use Suc.prems in \<open>simp_all del: of_nat_add of_nat_Suc replicate.simps\<close>)
  have m: "mwrite (A + 16) bs (mwrite A (gate t) m) = mwrite A (gate t @ bs) m" for bs t m
    using mwrite_adjacent [of A "gate t" bs m] by simp
  show ?case
    by (rule runs_eq [OF runs_trans [OF a b]]) (simp_all add: m algebra_simps)
qed

lemma fill_call:
  assumes ok: "guest_ok L g" "g_rip g = ip_of L k" "k < 42" "guest_text ! k = ICall FillIdtEntries" "g_rsp g = 0x100000"
    and A: "g_rdi g = of_nat A" "0x2000 \<le> A" "A + 16 * Suc n \<le> 0x3000" "g_rcx g = of_nat (Suc n)"
  shows "runs_to L (11 * Suc n + 3) g (g\<lparr>g_rip := ip_of L (Suc k), g_shadow := False, g_rax := g_rsi g, g_rdx := drop_bit 16 (g_rsi g),
    g_rdi := of_nat (A + 16 * Suc n), g_rcx := 0, g_zf := False,
    g_mem := mwrite A (concat (replicate (Suc n) (gate (g_rsi g)))) (mwrite 0xffff8 (le_bytes 8 (ip_of L (Suc k))) (g_mem g))\<rparr>)"
proof -
  let ?m1 = "mwrite 0xffff8 (le_bytes 8 (ip_of L (Suc k))) (g_mem g)"
  let ?m2 = "mwrite A (concat (replicate (Suc n) (gate (g_rsi g)))) ?m1"
  let ?g1 = "g\<lparr>g_rip := ip_of L 16, g_shadow := False, g_rsp := of_nat 0xffff8, g_mem := ?m1\<rparr>"
  let ?g2 = "?g1\<lparr>g_rip := ip_of L 17, g_rax := g_rsi g\<rparr>"
  let ?g3 = "?g2\<lparr>g_rip := ip_of L 28, g_rdi := of_nat (A + 16 * Suc n), g_rcx := 0, g_rdx := drop_bit 16 (g_rsi g), g_zf := False,
    g_mem := ?m2\<rparr>"
  have L: "layout_ok L" using ok(1) by (simp add: guest_ok_def)
  have area: "guest_area 0xffff8 8" by (simp add: guest_area_def)
  have ok1: "guest_ok L ?g1" using ok(1) L area by simp
  have len: "length (concat (replicate i (gate t))) = 16 * i" for i t by (induction i) simp_all
  have ok3: "guest_ok L ?g3"
  proof -
    have "guest_area A (16 * Suc n)" using A by (simp add: guest_area_def)
    then show ?thesis using ok(1) area L len [of "Suc n"] by (simp add: guest_ok_def del: replicate.simps)
  qed
  have "runs_to L 1 g ?g1"
    by (rule runs_eq [OF run_push(2) [OF ok(1-3), of "0xffff8" FillIdtEntries]]) (use ok area in simp_all)
  also have "runs_to L 1 ?g1 ?g2"
    by (rule runs_eq [OF run_reg(1) [OF ok1, of 16 RSI RAX]]) simp_all
  also have "runs_to L (11 * Suc n) ?g2 ?g3"
    by (rule runs_eq [OF fill_loop [of L ?g2 A n]]) (use ok1 A in \<open>simp_all add: guest_ok_def del: replicate.simps of_nat_add of_nat_Suc\<close>)
  also have "runs_to L 1 ?g3 (?g3\<lparr>g_rip := ip_of L (Suc k), g_rsp := 0x100000\<rparr>)"
  proof (rule runs_eq [OF run_pop(2) [OF ok3, of 28 "0xffff8" "ip_of L (Suc k)"]])
    show "mbytes (g_mem ?g3) 0xffff8 8 = le_bytes 8 (ip_of L (Suc k))"
      using A len [of "Suc n" "g_rsi g"] by (simp del: replicate.simps)
  qed (simp_all add: area)
  finally show ?thesis
    by (rule runs_eq) (use ok in \<open>simp_all del: replicate.simps of_nat_add\<close>)
qed

section \<open>Strings and tables of the image\<close>

fun text_of :: "lbl \<Rightarrow> u8 list" where
  "text_of Msg = msg_bytes"
| "text_of IrqMsg = irqmsg_bytes"
| "text_of _ = []"

lemma text_lengths [simp]: "length msg_bytes = 27" "length irqmsg_bytes = 19"
  by (simp_all add: msg_bytes_def irqmsg_bytes_def ascii_def)

lemma text_nonzero: "c \<in> set (text_of l) \<Longrightarrow> c \<noteq> 0"
  by (cases l) (auto simp: msg_bytes_def irqmsg_bytes_def ascii_def)

lemma rodata_split: "guest_rodata L = msg_bytes @ [0] @ irqmsg_bytes @ [0] @ (le_bytes 2 (4095 :: u16) @ le_bytes 8 IDT_BASE) @
    replicate (gdt_off L - (ro_off L + 58)) 0 @ le_bytes 8 (0 :: u64) @ le_bytes 8 (0x00af9a000000ffff :: u64) @
    le_bytes 8 (0x00cf92000000ffff :: u64) @ (le_bytes 2 (23 :: u16) @ le_bytes 8 (0x1000 + of_nat (gdt_off L) :: u64))"
  by (simp add: guest_rodata_def)

lemma data_string:
  assumes "code_in L m" "l \<in> {Msg, IrqMsg}" "i \<le> length (text_of l)"
  shows "mbytes m (0x1000 + (data_off L l + i)) 1 = [(text_of l @ [0]) ! i]"
proof -
  have one: "j < length xs \<Longrightarrow> take (Suc 0) (drop j xs) = [xs ! j]" for j and xs :: "u8 list"
    by (simp add: take_Suc_conv_app_nth [of 0] flip: Cons_nth_drop_Suc)
  from assms(2) consider "l = Msg" | "l = IrqMsg" by blast
  then show ?thesis
  proof cases
    case 1
    then show ?thesis using code_data [OF assms(1), of i 1] assms(3)
      by (simp add: rodata_split one nth_append)
  next
    case 2
    then show ?thesis using code_data [OF assms(1), of "28 + i" 1] assms(3)
      by (simp add: rodata_split one nth_append add.assoc)
  qed
qed

lemma data_tables:
  assumes "code_in L m"
  shows "mbytes m (0x1000 + data_off L IdtPtr) 10 = le_bytes 2 (4095 :: u16) @ le_bytes 8 IDT_BASE"
    "mbytes m (0x1000 + data_off L GdtPtr) 10 = le_bytes 2 (23 :: u16) @ le_bytes 8 (0x1000 + of_nat (gdt_off L) :: u64)"
    "mbytes m (0x1000 + (gdt_off L + 8)) 8 = le_bytes 8 (0x00af9a000000ffff :: u64)"
proof -
  let ?p = "gdt_off L - (ro_off L + 58)"
  have g: "gdt_off L = ro_off L + (58 + ?p)" using image_length(2) [of L] by simp
  show "mbytes m (0x1000 + data_off L IdtPtr) 10 = le_bytes 2 (4095 :: u16) @ le_bytes 8 IDT_BASE"
    using code_data [OF assms, of 48 10] by (simp add: rodata_split)
  let ?idt = "le_bytes 2 (4095 :: u16) @ le_bytes 8 IDT_BASE" and ?z = "replicate ?p 0 @ le_bytes 8 (0 :: u64)"
  let ?c = "le_bytes 8 (0x00af9a000000ffff :: u64)" and ?d = "le_bytes 8 (0x00cf92000000ffff :: u64)"
  let ?q = "le_bytes 2 (23 :: u16) @ le_bytes 8 (0x1000 + of_nat (gdt_off L) :: u64)"
  let ?h = "msg_bytes @ [0] @ irqmsg_bytes @ [0] @ ?idt @ ?z"
  have r: "guest_rodata L = ?h @ ?c @ ?d @ ?q" by (simp add: rodata_split)
  have lh: "length ?h = 58 + ?p + 8" by simp
  have d: "drop (58 + ?p + 24) (guest_rodata L) = ?q" "drop (58 + ?p + 8) (guest_rodata L) = ?c @ ?d @ ?q"
    unfolding r drop_append lh by simp_all
  have lr: "length (guest_rodata L) = 58 + ?p + 34" unfolding r length_append lh by simp
  have "mbytes m (0x1000 + (ro_off L + (58 + ?p + 24))) 10 = ?q"
    using code_data [OF assms, of "58 + ?p + 24" 10] unfolding d lr by simp
  moreover have "0x1000 + data_off L GdtPtr = 0x1000 + (ro_off L + (58 + ?p + 24))" using g by simp
  ultimately show "mbytes m (0x1000 + data_off L GdtPtr) 10 = ?q" by (simp only:)
  have "mbytes m (0x1000 + (ro_off L + (58 + ?p + 8))) 8 = ?c"
    using code_data [OF assms, of "58 + ?p + 8" 8] unfolding d lr by simp
  moreover have "0x1000 + (gdt_off L + 8) = 0x1000 + (ro_off L + (58 + ?p + 8))" using g by simp
  ultimately show "mbytes m (0x1000 + (gdt_off L + 8)) 8 = ?c" by (simp only:)
qed

lemma data_inside: "layout_ok L \<Longrightarrow> gdt_off L + 34 < 0x1000" "ro_off L + 58 \<le> gdt_off L"
  using image_length [of L] by (simp_all add: layout_ok_def)

lemma label_nat: "label_addr L l = of_nat (0x1000 + data_off L l)"
  by (simp add: label_addr_def)

section \<open>Printing\<close>

lemma ucast_zero: "(ucast (c :: u8) :: u64) = 0 \<longleftrightarrow> c = 0"
proof
  assume z: "(ucast c :: u64) = 0"
  show "c = 0"
    by (rule bit_word_eqI) (use arg_cong [OF z, of "\<lambda>x. bit x _"] in \<open>simp add: bit_simps\<close>)
qed simp

lemma low_byte:
  fixes c :: u8 and r :: u64
  shows "((r AND NOT 0xff) OR ucast c) AND 0xff = ucast c" "ucast ((r AND NOT 0xff) OR ucast c) = c"
proof -
  have m: "(0xff :: u64) = mask 8" by (simp add: mask_eq_exp_minus_1)
  show "((r AND NOT 0xff) OR ucast c) AND 0xff = ucast c"
    unfolding m by (rule bit_word_eqI) (auto simp: bit_simps dest: bit_imp_le_length)
  show "ucast ((r AND NOT 0xff) OR ucast c) = c"
    unfolding m by (rule bit_word_eqI) (auto simp: bit_simps dest: bit_imp_le_length)
qed

text \<open>The head of the loop at the character \<open>i\<close>: it is in AL, and the next instruction is OUT or the end.\<close>

lemma print_load:
  assumes ok: "guest_ok L g" "g_rip g = ip_of L 31" and l: "l \<in> {Msg, IrqMsg}" "i \<le> length (text_of l)"
    and s: "g_rsi g = of_nat (0x1000 + (data_off L l + i))"
  shows "runs_to L 3 g (g\<lparr>g_rip := ip_of L (if i < length (text_of l) then 34 else 36), g_shadow := False,
    g_rax := (g_rax g AND NOT 0xff) OR ucast ((text_of l @ [0]) ! i), g_rsi := of_nat (0x1000 + (data_off L l + Suc i)),
    g_zf := (i = length (text_of l))\<rparr>)"
proof -
  let ?c = "(text_of l @ [0]) ! i"
  let ?a = "(g_rax g AND NOT 0xff) OR ucast ?c"
  let ?g1 = "g\<lparr>g_rip := ip_of L 32, g_shadow := False, g_rax := ?a, g_rsi := of_nat (0x1000 + (data_off L l + Suc i))\<rparr>"
  let ?g2 = "?g1\<lparr>g_rip := ip_of L 33, g_zf := (i = length (text_of l))\<rparr>"
  have b: "0x1000 + (data_off L l + i) + 1 \<le> 0x2000"
    using data_inside [of L] ok(1) l by (auto simp: guest_ok_def)
  have m: "mbytes (g_mem g) (0x1000 + (data_off L l + i)) 1 = [?c]"
    using data_string [OF _ l] ok(1) by (simp add: guest_ok_def)
  have r: "rd_mem touched g (g_rsi g) 1 = Ok [?c]"
    using rd_area [OF ok(1) s, of 1] b m by simp
  have "runs_to L 1 g ?g1"
    by (rule run_at [OF ok]) (use r in \<open>simp_all add: exec64_def Let_def s\<close>)
  also have "runs_to L 1 ?g1 ?g2"
  proof (rule runs_eq [OF run_reg(10) [of L ?g1 32]])
    have "(?a AND 0xff = 0) \<longleftrightarrow> i = length (text_of l)"
    proof (cases "i = length (text_of l)")
      case False
      then have "?c \<in> set (text_of l)" using l(2) by (simp add: nth_append)
      then have "?c \<noteq> 0" by (rule text_nonzero)
      moreover have "(ucast ?c :: u64) = 0 \<longleftrightarrow> ?c = 0" by (rule ucast_zero)
      ultimately show ?thesis using False unfolding low_byte by simp
    next
      case True
      then show ?thesis unfolding low_byte by (simp add: nth_append)
    qed
    then show "?g1\<lparr>g_rip := ip_of L (Suc 32), g_shadow := False, g_zf := (g_rax ?g1 AND 0xff = 0)\<rparr> = ?g2" by simp
  qed (use ok in simp_all)
  also have "runs_to L 1 ?g2 (?g2\<lparr>g_rip := ip_of L (if i < length (text_of l) then 34 else 36)\<rparr>)"
    by (rule runs_eq [OF run_reg(9) [of L ?g2 33 LprintDone]]) (use ok l(2) in simp_all)
  finally show ?thesis by (rule runs_eq) simp_all
qed

abbreviation (input) new_al :: "u64 \<Rightarrow> u8 \<Rightarrow> u64" where "new_al r c \<equiv> (r AND NOT 0xff) OR ucast c"

lemma print_call:
  assumes ok: "guest_ok L g" "g_rip g = ip_of L k" "k < 42" "guest_text ! k = ICall Print" and l: "l \<in> {Msg, IrqMsg}"
    and s: "g_rsi g = label_addr L l" "g_rsp g = of_nat (S + 16)" "guest_area S 16"
  shows "runs_to L 6 g (g\<lparr>g_rip := ip_of L 34, g_shadow := False, g_rdx := 0x3f8, g_rax := new_al (g_rax g) (text_of l ! 0),
    g_rsi := of_nat (0x1000 + (data_off L l + 1)), g_zf := False, g_rsp := of_nat S,
    g_mem := mwrite S (le_bytes 8 (g_rdx g)) (mwrite (S + 8) (le_bytes 8 (ip_of L (Suc k))) (g_mem g))\<rparr>)"
proof -
  have L: "layout_ok L" using ok(1) by (simp add: guest_ok_def)
  have area: "guest_area S 8" "guest_area (S + 8) 8" using s(3) by (auto simp: guest_area_def)
  have pos: "text_of l \<noteq> []" using l by (auto simp: msg_bytes_def irqmsg_bytes_def)
  let ?m1 = "mwrite (S + 8) (le_bytes 8 (ip_of L (Suc k))) (g_mem g)"
  let ?m2 = "mwrite S (le_bytes 8 (g_rdx g)) ?m1"
  let ?g1 = "g\<lparr>g_rip := ip_of L 29, g_shadow := False, g_rsp := of_nat (S + 8), g_mem := ?m1\<rparr>"
  let ?g2 = "?g1\<lparr>g_rip := ip_of L 30, g_rsp := of_nat S, g_mem := ?m2\<rparr>"
  let ?g3 = "?g2\<lparr>g_rip := ip_of L 31, g_rdx := 0x3f8\<rparr>"
  have "runs_to L 1 g ?g1"
    by (rule runs_eq [OF run_push(2) [OF ok(1-3), of "S + 8" Print]]) (use ok s area in simp_all)
  also have "runs_to L 1 ?g1 ?g2"
    by (rule runs_eq [OF run_push(1) [of L ?g1 29 S RDX]]) (use ok s area L in \<open>simp_all add: guest_ok_def\<close>)
  also have "runs_to L 1 ?g2 ?g3"
    by (rule runs_eq [OF run_reg(2) [of L ?g2 30 "0x3f8" RDX]]) (use ok area L in \<open>simp_all add: guest_ok_def\<close>)
  also have "runs_to L 3 ?g3 (?g3\<lparr>g_rip := ip_of L 34, g_rax := new_al (g_rax g) (text_of l ! 0),
      g_rsi := of_nat (0x1000 + (data_off L l + 1)), g_zf := False\<rparr>)"
    by (rule runs_eq [OF print_load [of L ?g3 l 0]])
      (use ok area L l s pos in \<open>simp_all add: guest_ok_def label_nat nth_append del: of_nat_add\<close>)
  finally show ?thesis by (rule runs_eq) (simp_all del: of_nat_add)
qed

text \<open>At the OUT of the character \<open>i\<close>; \<open>S\<close> is the stack pointer inside \<open>print\<close>.\<close>

definition in_print :: "layout \<Rightarrow> lbl \<Rightarrow> nat \<Rightarrow> nat \<Rightarrow> g64 \<Rightarrow> bool" where
  "in_print L l i S g \<longleftrightarrow> guest_ok L g \<and> l \<in> {Msg, IrqMsg} \<and> i < length (text_of l) \<and> g_rip g = ip_of L 34 \<and> g_rdx g = 0x3f8 \<and>
     (ucast (g_rax g) :: u8) = text_of l ! i \<and> g_rsi g = of_nat (0x1000 + (data_off L l + Suc i)) \<and> g_rsp g = of_nat S"

lemma print_more:
  assumes p: "in_print L l i S g" and i: "Suc i < length (text_of l)"
  shows "runs_to L 4 (g\<lparr>g_rip := ip_of L 35\<rparr>) (g\<lparr>g_rip := ip_of L 34, g_shadow := False,
    g_rax := new_al (g_rax g) (text_of l ! Suc i), g_rsi := of_nat (0x1000 + (data_off L l + Suc (Suc i))), g_zf := False\<rparr>)"
proof -
  let ?g1 = "g\<lparr>g_rip := ip_of L 31, g_shadow := False\<rparr>"
  have ok: "guest_ok L g" "l \<in> {Msg, IrqMsg}" using p by (simp_all add: in_print_def)
  have "runs_to L 1 (g\<lparr>g_rip := ip_of L 35\<rparr>) ?g1"
    by (rule runs_eq [OF run_reg(8) [of L "g\<lparr>g_rip := ip_of L 35\<rparr>" 35 LprintLoop]]) (use ok in simp_all)
  also have "runs_to L 3 ?g1 (?g1\<lparr>g_rip := ip_of L 34, g_rax := new_al (g_rax g) (text_of l ! Suc i),
      g_rsi := of_nat (0x1000 + (data_off L l + Suc (Suc i))), g_zf := False\<rparr>)"
    by (rule runs_eq [OF print_load [of L ?g1 l "Suc i"]])
      (use p i in \<open>simp_all add: in_print_def nth_append del: of_nat_add of_nat_Suc\<close>)
  finally show ?thesis by (rule runs_eq) (simp_all del: of_nat_add of_nat_Suc)
qed

lemma print_done:
  assumes p: "in_print L l i S g" and i: "Suc i = length (text_of l)"
    and s: "guest_area S 16" "mbytes (g_mem g) S 8 = le_bytes 8 sv" "mbytes (g_mem g) (S + 8) 8 = le_bytes 8 ret"
  shows "runs_to L 6 (g\<lparr>g_rip := ip_of L 35\<rparr>) (g\<lparr>g_rip := ret, g_shadow := False,
    g_rax := new_al (g_rax g) 0, g_rsi := of_nat (0x1000 + (data_off L l + Suc (Suc i))), g_zf := True, g_rdx := sv,
    g_rsp := of_nat (S + 16)\<rparr>)"
proof -
  let ?g1 = "g\<lparr>g_rip := ip_of L 31, g_shadow := False\<rparr>"
  let ?g2 = "?g1\<lparr>g_rip := ip_of L 36, g_rax := new_al (g_rax g) 0, g_rsi := of_nat (0x1000 + (data_off L l + Suc (Suc i))), g_zf := True\<rparr>"
  let ?g3 = "?g2\<lparr>g_rip := ip_of L 37, g_rdx := sv, g_rsp := of_nat (S + 8)\<rparr>"
  have ok: "guest_ok L g" "l \<in> {Msg, IrqMsg}" "g_rsp g = of_nat S" using p by (simp_all add: in_print_def)
  have area: "guest_area S 8" "guest_area (S + 8) 8" using s(1) by (auto simp: guest_area_def)
  have "runs_to L 1 (g\<lparr>g_rip := ip_of L 35\<rparr>) ?g1"
    by (rule runs_eq [OF run_reg(8) [of L "g\<lparr>g_rip := ip_of L 35\<rparr>" 35 LprintLoop]]) (use ok in simp_all)
  also have "runs_to L 3 ?g1 ?g2"
    by (rule runs_eq [OF print_load [of L ?g1 l "Suc i"]])
      (use p i in \<open>simp_all add: in_print_def nth_append del: of_nat_add of_nat_Suc\<close>)
  also have "runs_to L 1 ?g2 ?g3"
    by (rule runs_eq [OF run_pop(1) [of L ?g2 36 S sv RDX]]) (use ok area s in \<open>simp_all del: of_nat_add of_nat_Suc\<close>)
  also have "runs_to L 1 ?g3 (?g3\<lparr>g_rip := ret, g_rsp := of_nat (S + 16)\<rparr>)"
    by (rule runs_eq [OF run_pop(2) [of L ?g3 37 "S + 8" ret]]) (use ok area s in \<open>simp_all add: add.commute [of 16] del: of_nat_add of_nat_Suc\<close>)
  finally show ?thesis by (rule runs_eq) (simp_all del: of_nat_add of_nat_Suc)
qed

section \<open>From the entry to the first character\<close>

definition gates :: "nat \<Rightarrow> u64 \<Rightarrow> u8 list" where
  "gates n t = concat (replicate n (gate t))"

lemma length_gates [simp]: "length (gates n t) = 16 * n"
  by (induction n) (simp_all add: gates_def)

lemma gates_nth: "v < n \<Longrightarrow> take 16 (drop (16 * v) (gates n t)) = gate t"
proof (induction n arbitrary: v)
  case (Suc n)
  then show ?case by (cases v) (simp_all add: gates_def)
qed simp

lemma mbytes_inside: "i + n \<le> length bs \<Longrightarrow> mbytes (mwrite A bs m) (A + i) n = take n (drop i bs)"
  using mbytes_part [of i n "length bs" "mwrite A bs m" A] by simp

definition idt_in :: "layout \<Rightarrow> cbuf \<Rightarrow> bool" where
  "idt_in L m \<longleftrightarrow> (\<forall>v < 256. mbytes m (0x2000 + 16 * v) 16 = gate (ip_of L (if v = 0x21 then 38 else 41)))"

text \<open>The tables are set up: what the interrupt will need.\<close>

definition settled :: "layout \<Rightarrow> g64 \<Rightarrow> bool" where
  "settled L g \<longleftrightarrow> guest_ok L g \<and> g_gdtl g = 23 \<and> g_gdt g = of_nat (0x1000 + gdt_off L) \<and> g_idtl g = 4095 \<and> g_idt g = 0x2000 \<and>
     g_cs g = 8 \<and> idt_in L (g_mem g)"

lemma idt_in_stack: "0xff000 \<le> A \<Longrightarrow> idt_in L (mwrite A bs m) = idt_in L m"
  by (simp add: idt_in_def)

lemma idt_in_filled:
  "idt_in L (mwrite 0x2210 (gates 1 (ip_of L 38)) (mwrite 0xffff8 bs (mwrite 0x2000 (gates 256 (ip_of L 41)) m)))"
proof -
  have "mbytes (mwrite 0x2000 (gates 256 (ip_of L 41)) m) (0x2000 + 16 * v) 16 = gate (ip_of L 41)" if "v < 256" for v
    using that mbytes_inside [of "16 * v" 16 "gates 256 (ip_of L 41)" "0x2000" m] gates_nth [of v 256] by simp
  moreover have "gates 1 t = gate t" for t by (simp add: gates_def)
  moreover have "v < 256 \<Longrightarrow> v \<noteq> 0x21 \<Longrightarrow> 0x2000 + 16 * v + 16 \<le> 0x2210 \<or> 0x2210 + 16 \<le> 0x2000 + 16 * v" for v :: nat by linarith
  ultimately show ?thesis by (simp add: idt_in_def)
qed

lemma fill_gates:
  assumes "guest_ok L g" "g_rip g = ip_of L k" "k < 42" "guest_text ! k = ICall FillIdtEntries" "g_rsp g = 0x100000"
    and "g_rdi g = of_nat A" "0x2000 \<le> A" "A + 16 * n \<le> 0x3000" "g_rcx g = of_nat n" "0 < n"
  shows "runs_to L (11 * n + 3) g (g\<lparr>g_rip := ip_of L (Suc k), g_shadow := False, g_rax := g_rsi g, g_rdx := drop_bit 16 (g_rsi g),
    g_rdi := of_nat (A + 16 * n), g_rcx := 0, g_zf := False,
    g_mem := mwrite A (gates n (g_rsi g)) (mwrite 0xffff8 (le_bytes 8 (ip_of L (Suc k))) (g_mem g))\<rparr>)"
  using fill_call [OF assms(1-7), of "n - 1"] assms(8-10) by (simp add: gates_def)

lemma load_table:
  assumes ok: "guest_ok L g" "g_rip g = ip_of L k" "k < 42" and A: "label_addr L l = of_nat A" "0x1000 \<le> A" "A + 10 \<le> 0x2000"
    and m: "mbytes (g_mem g) A 10 = le_bytes 2 (x :: u16) @ le_bytes 8 (y :: u64)"
  shows "guest_text ! k = ILgdt l \<Longrightarrow> runs_to L 1 g (g\<lparr>g_rip := ip_of L (Suc k), g_shadow := False, g_gdtl := x, g_gdt := y\<rparr>)"
    "guest_text ! k = ILidt l \<Longrightarrow> runs_to L 1 g (g\<lparr>g_rip := ip_of L (Suc k), g_shadow := False, g_idtl := x, g_idt := y\<rparr>)"
proof -
  have r: "rd_mem touched g (label_addr L l) 10 = Ok (le_bytes 2 x @ le_bytes 8 y)"
    using rd_area [OF ok(1) A(1), of 10] A m by simp
  show "guest_text ! k = ILgdt l \<Longrightarrow> runs_to L 1 g (g\<lparr>g_rip := ip_of L (Suc k), g_shadow := False, g_gdtl := x, g_gdt := y\<rparr>)"
    by (rule run_at [OF ok]) (simp add: exec64_def Let_def r le_val_le_bytes_full)
  show "guest_text ! k = ILidt l \<Longrightarrow> runs_to L 1 g (g\<lparr>g_rip := ip_of L (Suc k), g_shadow := False, g_idtl := x, g_idt := y\<rparr>)"
    by (rule run_at [OF ok]) (simp add: exec64_def Let_def r le_val_le_bytes_full)
qed

lemma boot_runs:
  assumes ok: "guest_ok L g" "g_rip g = ip_of L 0" "g_rsp g = 0x100000" "g_cs g = 8"
  shows "\<exists>g'. runs_to L 2849 g g' \<and> in_print L Msg 0 0xffff0 g' \<and> settled L g' \<and>
    mbytes (g_mem g') 0xffff8 8 = le_bytes 8 (ip_of L 13) \<and> (\<exists>sv :: u64. mbytes (g_mem g') 0xffff0 8 = le_bytes 8 sv)"
proof -
  let ?gd = "\<lambda>g. g\<lparr>g_shadow := False, g_gdtl := 23, g_gdt := of_nat (0x1000 + gdt_off L)\<rparr>"
  have two: "Suc (Suc 0) = 2" by simp
  have L: "layout_ok L" and ci: "code_in L (g_mem g)" using ok(1) by (simp_all add: guest_ok_def)
  note di = data_inside(1) [OF L] data_inside(2) [of L]
  have area: "guest_area 0xffff0 16" by (simp add: guest_area_def)
  let ?stub = "ip_of L 41" and ?hnd = "ip_of L 38"
  let ?m1 = "mwrite 0x2000 (gates 256 ?stub) (mwrite 0xffff8 (le_bytes 8 (ip_of L 6)) (g_mem g))"
  let ?m2 = "mwrite 0x2210 (gates 1 ?hnd) (mwrite 0xffff8 (le_bytes 8 (ip_of L 10)) ?m1)"
  have ci1: "code_in L ?m1" using ci L by (simp add: guest_area_def)
  have ci2: "code_in L ?m2" using ci1 L by (simp add: guest_area_def)
  let ?g2 = "(?gd g)\<lparr>g_rip := ip_of L 2\<rparr>"
  let ?g5 = "?g2\<lparr>g_rip := ip_of L 5, g_rsi := ?stub, g_rdi := 0x2000, g_rcx := 256\<rparr>"
  let ?g6 = "?g5\<lparr>g_rip := ip_of L 6, g_rax := ?stub, g_rdx := drop_bit 16 ?stub, g_rdi := 0x3000, g_rcx := 0, g_zf := False, g_mem := ?m1\<rparr>"
  let ?g9 = "?g6\<lparr>g_rip := ip_of L 9, g_rsi := ?hnd, g_rdi := 0x2210, g_rcx := 1\<rparr>"
  let ?g10 = "?g9\<lparr>g_rip := ip_of L 10, g_rax := ?hnd, g_rdx := drop_bit 16 ?hnd, g_rdi := 0x2220, g_rcx := 0, g_mem := ?m2\<rparr>"
  let ?g12 = "?g10\<lparr>g_rip := ip_of L 12, g_idtl := 4095, g_idt := 0x2000, g_rsi := label_addr L Msg\<rparr>"
  have "runs_to L 1 g (g\<lparr>g_rip := ip_of L 1, g_shadow := False\<rparr>)"
    by (rule runs_eq [OF run_reg(7) [OF ok(1,2)]]) simp_all
  also have "runs_to L 1 \<dots> ?g2"
    by (rule runs_eq [OF load_table(1) [of L _ 1 GdtPtr "0x1000 + data_off L GdtPtr" 23 "of_nat (0x1000 + gdt_off L)"]])
      (use ok di data_tables(2) [OF ci] in \<open>simp_all add: label_nat text_at(2) [unfolded One_nat_def] two\<close>)
  also have "runs_to L 1 ?g2 (?g2\<lparr>g_rip := ip_of L 3, g_rsi := ?stub\<rparr>)"
    by (rule runs_eq [OF run_reg(3) [of L ?g2 2 IrqStub RSI]]) (use ok in simp_all)
  also have "runs_to L 1 \<dots> (?g2\<lparr>g_rip := ip_of L 4, g_rsi := ?stub, g_rdi := 0x2000\<rparr>)"
    by (rule runs_eq [OF run_reg(2) [of L _ 3 IDT_BASE RDI]]) (use ok in simp_all)
  also have "runs_to L 1 \<dots> ?g5"
    by (rule runs_eq [OF run_reg(2) [of L _ 4 256 RCX]]) (use ok in simp_all)
  also have "runs_to L 2819 ?g5 ?g6"
    by (rule runs_eq [OF fill_gates [of L ?g5 5 "0x2000" 256]]) (use ok in simp_all)
  also have "runs_to L 1 ?g6 (?g6\<lparr>g_rip := ip_of L 7, g_rsi := ?hnd\<rparr>)"
    by (rule runs_eq [OF run_reg(3) [of L ?g6 6 IrqHandler RSI]]) (use ok L ci1 in \<open>simp_all add: guest_ok_def\<close>)
  also have "runs_to L 1 \<dots> (?g6\<lparr>g_rip := ip_of L 8, g_rsi := ?hnd, g_rdi := 0x2210\<rparr>)"
    by (rule runs_eq [OF run_reg(2) [of L _ 7 "0x2210" RDI]]) (use ok L ci1 in \<open>simp_all add: guest_ok_def\<close>)
  also have "runs_to L 1 \<dots> ?g9"
    by (rule runs_eq [OF run_reg(2) [of L _ 8 1 RCX]]) (use ok L ci1 in \<open>simp_all add: guest_ok_def\<close>)
  also have "runs_to L 14 ?g9 ?g10"
    by (rule runs_eq [OF fill_gates [of L ?g9 9 "0x2210" 1]]) (use ok L ci1 in \<open>simp_all add: guest_ok_def\<close>)
  also have "runs_to L 1 ?g10 (?g10\<lparr>g_rip := ip_of L 11, g_idtl := 4095, g_idt := 0x2000\<rparr>)"
    by (rule runs_eq [OF load_table(2) [of L _ 10 IdtPtr "0x1000 + data_off L IdtPtr" 4095 "0x2000"]])
      (use ok L ci2 di data_tables(1) [OF ci2] in \<open>simp_all add: label_nat guest_ok_def\<close>)
  also have "runs_to L 1 \<dots> ?g12"
    by (rule runs_eq [OF run_reg(3) [of L _ 11 Msg RSI]]) (use ok L ci2 in \<open>simp_all add: guest_ok_def\<close>)
  also have "runs_to L 6 ?g12 (?g12\<lparr>g_rip := ip_of L 34, g_shadow := False, g_rdx := 0x3f8, g_rax := new_al ?hnd (msg_bytes ! 0),
      g_rsi := of_nat (0x1000 + (data_off L Msg + 1)), g_zf := False, g_rsp := 0xffff0,
      g_mem := mwrite 0xffff0 (le_bytes 8 (drop_bit 16 ?hnd)) (mwrite 0xffff8 (le_bytes 8 (ip_of L 13)) ?m2)\<rparr>)" (is "runs_to L 6 ?g12 ?g13")
    by (rule runs_eq [OF print_call [of L ?g12 12 Msg "0xffff0"]]) (use ok L ci2 area in \<open>simp_all add: guest_ok_def\<close>)
  finally have run: "runs_to L 2849 g ?g13" by (rule runs_eq) simp_all
  have "idt_in L (g_mem ?g13)" using idt_in_filled [of L] by (simp add: idt_in_stack)
  moreover have "code_in L (g_mem ?g13)" using ci2 L by (simp add: guest_area_def)
  ultimately show ?thesis using ok L low_byte(2)
    by (intro exI [of _ ?g13] conjI run exI [of _ "drop_bit 16 ?hnd"]) (simp_all add: in_print_def settled_def guest_ok_def)
qed

section \<open>Halting and the interrupt\<close>

lemma settled_sel [simp]:
  "settled L (g\<lparr>g_rax := x\<rparr>) = settled L g" "settled L (g\<lparr>g_rdx := x\<rparr>) = settled L g" "settled L (g\<lparr>g_rsi := x\<rparr>) = settled L g"
  "settled L (g\<lparr>g_rsp := x\<rparr>) = settled L g" "settled L (g\<lparr>g_rip := x\<rparr>) = settled L g" "settled L (g\<lparr>g_zf := b\<rparr>) = settled L g"
  "settled L (g\<lparr>g_if := b\<rparr>) = settled L g" "settled L (g\<lparr>g_shadow := b\<rparr>) = settled L g"
  by (simp_all add: settled_def)

lemma settled_stack:
  "settled L g \<Longrightarrow> 0xff000 \<le> A \<Longrightarrow> A + length bs \<le> 0x100000 \<Longrightarrow> settled L (g\<lparr>g_mem := mwrite A bs (g_mem g)\<rparr>)"
  by (simp add: settled_def idt_in_stack guest_area_def guest_ok_def)

definition halted :: "layout \<Rightarrow> g64 \<Rightarrow> bool" where
  "halted L g \<longleftrightarrow> settled L g \<and> g_rip g = ip_of L 14 \<and> g_rsp g = 0x100000 \<and> g_if g"

lemma halted_stops: "halted L g \<Longrightarrow> run64 L touched (Suc n) g = Some (StopHlt, g)"
  by (rule stop_at(1)) (auto simp: halted_def settled_def)

lemma hello_ends:
  assumes p: "in_print L Msg 26 0xffff0 g" and s: "settled L g" and m: "mbytes (g_mem g) 0xffff8 8 = le_bytes 8 (ip_of L 13)"
    and sv: "mbytes (g_mem g) 0xffff0 8 = le_bytes 8 (sv :: u64)"
  shows "\<exists>g'. runs_to L 7 (g\<lparr>g_rip := ip_of L 35\<rparr>) g' \<and> halted L g'"
proof -
  let ?g1 = "g\<lparr>g_rip := ip_of L 13, g_shadow := False, g_rax := new_al (g_rax g) 0, g_rsi := of_nat (0x1000 + (data_off L Msg + 28)),
    g_zf := True, g_rdx := sv, g_rsp := 0x100000\<rparr>"
  have "runs_to L 6 (g\<lparr>g_rip := ip_of L 35\<rparr>) ?g1"
    by (rule runs_eq [OF print_done [OF p _ _ sv, of "ip_of L 13"]]) (use m in \<open>simp_all add: guest_area_def\<close>)
  also have "runs_to L 1 ?g1 (?g1\<lparr>g_rip := ip_of L 14, g_shadow := \<not> g_if g, g_if := True\<rparr>)"
    by (rule runs_eq [OF run_reg(11) [of L ?g1 13]]) (use s in \<open>simp_all add: settled_def\<close>)
  finally have "runs_to L 7 (g\<lparr>g_rip := ip_of L 35\<rparr>) (?g1\<lparr>g_rip := ip_of L 14, g_shadow := \<not> g_if g, g_if := True\<rparr>)" by simp
  moreover have "halted L (?g1\<lparr>g_rip := ip_of L 14, g_shadow := \<not> g_if g, g_if := True\<rparr>)"
    using s by (simp add: halted_def)
  ultimately show ?thesis by blast
qed

lemma le_bytes_add: "le_bytes (m + n) w = le_bytes m w @ le_bytes n (drop_bit (8 * m) w)"
  by (induction m arbitrary: w) (simp_all add: ac_simps)

lemma gate_fields:
  assumes "t < 0x100000000"
  shows "gate t ! 5 = 0x8e" "gate t ! 4 AND 7 = 0" "le_val (take 2 (drop 2 (gate t))) = (8 :: u16)"
    "le_val (take 2 (gate t) @ take 2 (drop 6 (gate t)) @ take 4 (drop 8 (gate t))) = t"
proof -
  show "gate t ! 5 = 0x8e" "gate t ! 4 AND 7 = 0" by (simp_all add: gate_def nth_append)
  have "le_bytes 2 (8 :: u64) = [8, 0]" by code_simp
  then show "le_val (take 2 (drop 2 (gate t))) = (8 :: u16)" by (simp add: gate_def)
  have "drop_bit 32 t = 0"
    using assms by (intro word_unat_eq_iff [THEN iffD2]) (simp add: unsigned_drop_bit_eq drop_bit_eq_div word_less_nat_alt unat_div_distrib div_eq_0_iff)
  then have "le_bytes 2 t @ le_bytes 2 (drop_bit 16 t) @ le_bytes 4 (0 :: u64) = le_bytes 8 t"
    using le_bytes_add [of 2 6 t] le_bytes_add [of 2 4 "drop_bit 16 t"] by (simp add: drop_bit_drop_bit)
  then show "le_val (take 2 (gate t) @ take 2 (drop 6 (gate t)) @ take 4 (drop 8 (gate t))) = t"
    by (simp add: gate_def le_val_le_bytes_full)
qed

lemma cs_loads:
  assumes "settled L g"
  shows "load_cs touched 8 g = Ok g"
proof -
  have g: "guest_ok L g" "g_gdt g + 8 = of_nat (0x1000 + (gdt_off L + 8))" using assms by (simp_all add: settled_def)
  have "gdt_off L + 34 < 0x1000" using data_inside(1) [of L] g(1) by (simp add: guest_ok_def)
  then have "rd_mem touched g (g_gdt g + 8) 8 = Ok (le_bytes 8 (0x00af9a000000ffff :: u64))"
    using rd_area [OF g, of 8] data_tables(3) [of L "g_mem g"] g(1) by (simp add: guest_ok_def)
  moreover have "le_bytes 8 (0x00af9a000000ffff :: u64) = [0xff, 0xff, 0, 0, 0, 0x9a, 0xaf, 0]" by code_simp
  ultimately show ?thesis using assms by (cases g) (simp add: load_cs_def settled_def)
qed

definition irq_frame :: "layout \<Rightarrow> bool \<Rightarrow> u8 list" where
  "irq_frame L z = le_bytes 8 (ip_of L 14) @ le_bytes 8 (8 :: u64) @ le_bytes 8 (0x202 OR (if z then 0x40 else 0) :: u64) @
     le_bytes 8 (0x100000 :: u64) @ le_bytes 8 (0 :: u64)"

lemma irq_delivered:
  assumes h: "halted L g"
  shows "deliver touched 0x21 g = Ok (g\<lparr>g_rip := ip_of L 38, g_shadow := False, g_if := False, g_rsp := 0xfffd8,
    g_mem := mwrite 0xfffd8 (irq_frame L (g_zf g)) (g_mem g)\<rparr>)"
proof -
  have s: "settled L g" and ok: "guest_ok L g" using h by (simp_all add: halted_def settled_def)
  have gt: "mbytes (g_mem g) 0x2210 16 = gate (ip_of L 38)"
    using s by (auto simp: settled_def idt_in_def dest!: spec [of _ 33])
  have "rd_mem touched g (of_nat 0x2210) 16 = Ok (gate (ip_of L 38))"
    using rd_area [OF ok refl, of "0x2210" 16] gt by (simp add: guest_area_def)
  then have r: "rd_mem touched g 0x2210 16 = Ok (gate (ip_of L 38))" by simp
  have ip: "ip_of L 38 < 0x100000000"
    using text_inside [of L 38] ok
    by (simp add: guest_ok_def ip_nat word_less_nat_alt unat_of_nat take_bit_nat_eq_self del: of_nat_add)
  note gf = gate_fields [OF ip]
  have fl: "rflags_of g = (0x202 OR (if g_zf g then 0x40 else 0) :: u64)" using h by (simp add: rflags_of_def halted_def)
  have "wr_mem touched (of_nat 0xfffd8) (irq_frame L (g_zf g)) g = Ok (g\<lparr>g_mem := mwrite 0xfffd8 (irq_frame L (g_zf g)) (g_mem g)\<rparr>)"
    by (rule wr_area [OF ok refl]) (simp add: guest_area_def irq_frame_def)
  then have w: "wr_mem touched 0xfffd8 (irq_frame L (g_zf g)) g = Ok (g\<lparr>g_mem := mwrite 0xfffd8 (irq_frame L (g_zf g)) (g_mem g)\<rparr>)" by simp
  have fr: "le_bytes 8 (ip_of L 14) @ le_bytes 8 (8 :: u64) @ le_bytes 8 (rflags_of g) @ le_bytes 8 (0x100000 :: u64) @ le_bytes 8 (0 :: u64) =
      irq_frame L (g_zf g)" by (simp add: irq_frame_def fl)
  have regs: "g_idt g = 0x2000" "g_idtl g = 4095" "g_rsp g = 0x100000" "g_cs g = 8" "g_rip g = ip_of L 14"
    using h by (simp_all add: halted_def settled_def)
  show ?thesis
    by (simp add: deliver_def regs r gf cs_loads [OF s] Let_def fr w)
qed

text \<open>Inside the handler: the frame of the interrupt lies above the one of \<open>print\<close>.\<close>

definition handling :: "layout \<Rightarrow> g64 \<Rightarrow> bool" where
  "handling L g \<longleftrightarrow> settled L g \<and> mbytes (g_mem g) 0xfffd0 8 = le_bytes 8 (ip_of L 40) \<and>
     (\<exists>sv :: u64. mbytes (g_mem g) 0xfffc8 8 = le_bytes 8 sv) \<and> (\<exists>z. mbytes (g_mem g) 0xfffd8 40 = irq_frame L z)"

lemma length_irq_frame [simp]: "length (irq_frame L z) = 40"
  by (simp add: irq_frame_def)

lemma handler_starts:
  assumes h: "halted L g" and d: "deliver touched 0x21 g = Ok g1"
  shows "\<exists>g'. runs_to L 7 g1 g' \<and> in_print L IrqMsg 0 0xfffc8 g' \<and> handling L g'"
proof -
  let ?m1 = "mwrite 0xfffd8 (irq_frame L (g_zf g)) (g_mem g)"
  have g1: "g1 = g\<lparr>g_rip := ip_of L 38, g_shadow := False, g_if := False, g_rsp := 0xfffd8, g_mem := ?m1\<rparr>"
    using d irq_delivered [OF h] by simp
  have s1: "settled L g1" unfolding g1 using h settled_stack [of L _ "0xfffd8"] by (simp add: halted_def settled_def idt_in_stack guest_area_def guest_ok_def)
  then have ok1: "guest_ok L g1" by (simp add: settled_def)
  let ?g2 = "g1\<lparr>g_rip := ip_of L 39, g_rsi := label_addr L IrqMsg\<rparr>"
  let ?m3 = "mwrite 0xfffc8 (le_bytes 8 (g_rdx g)) (mwrite 0xfffd0 (le_bytes 8 (ip_of L 40)) ?m1)"
  let ?g3 = "?g2\<lparr>g_rip := ip_of L 34, g_rdx := 0x3f8, g_rax := new_al (g_rax g) (irqmsg_bytes ! 0),
    g_rsi := of_nat (0x1000 + (data_off L IrqMsg + 1)), g_zf := False, g_rsp := 0xfffc8, g_mem := ?m3\<rparr>"
  have "runs_to L 1 g1 ?g2"
    by (rule runs_eq [OF run_reg(3) [OF ok1, of 38 IrqMsg RSI]]) (simp_all add: g1)
  also have "runs_to L 6 ?g2 ?g3"
    by (rule runs_eq [OF print_call [of L ?g2 39 IrqMsg "0xfffc8"]]) (use ok1 in \<open>simp_all add: guest_area_def\<close>, simp_all add: g1)
  finally have run: "runs_to L 7 g1 ?g3" by simp
  have "settled L ?g3"
    using s1 by (simp add: g1 settled_def idt_in_stack guest_area_def guest_ok_def)
  then show ?thesis using low_byte(2)
    by (intro exI [of _ ?g3] conjI run) (auto simp: in_print_def handling_def settled_def)
qed

lemma handler_ends:
  assumes p: "in_print L IrqMsg 18 0xfffc8 g" and h: "handling L g"
  shows "\<exists>g'. runs_to L 7 (g\<lparr>g_rip := ip_of L 35\<rparr>) g' \<and> halted L g'"
proof -
  obtain sv :: u64 and z where sv: "mbytes (g_mem g) 0xfffc8 8 = le_bytes 8 sv" and z: "mbytes (g_mem g) 0xfffd8 40 = irq_frame L z"
    and ret: "mbytes (g_mem g) 0xfffd0 8 = le_bytes 8 (ip_of L 40)" and s: "settled L g"
    using h by (auto simp: handling_def)
  let ?g1 = "g\<lparr>g_rip := ip_of L 40, g_shadow := False, g_rax := new_al (g_rax g) 0, g_rsi := of_nat (0x1000 + (data_off L IrqMsg + 20)),
    g_zf := True, g_rdx := sv, g_rsp := 0xfffd8\<rparr>"
  let ?g2 = "?g1\<lparr>g_rip := ip_of L 14, g_zf := z, g_if := True, g_rsp := 0x100000\<rparr>"
  have "runs_to L 6 (g\<lparr>g_rip := ip_of L 35\<rparr>) ?g1"
    by (rule runs_eq [OF print_done [OF p _ _ sv, of "ip_of L 40"]]) (use ret in \<open>simp_all add: guest_area_def\<close>)
  also have "runs_to L 1 ?g1 ?g2"
  proof (rule run_at [of L _ 40])
    let ?h = "?g1\<lparr>g_rip := ip_of L (Suc 40), g_shadow := False\<rparr>"
    have ok: "guest_ok L ?h" "settled L ?h" using s by (simp_all add: settled_def)
    have r: "rd_mem touched ?h 0xfffd8 40 = Ok (irq_frame L z)"
      using rd_area [OF ok(1), of "0xfffd8" "0xfffd8" 40] z by (simp add: guest_area_def)
    have w: "take 8 (irq_frame L z) = le_bytes 8 (ip_of L 14)" "take 8 (drop 8 (irq_frame L z)) = le_bytes 8 (8 :: u64)"
      "take 8 (drop 16 (irq_frame L z)) = le_bytes 8 (0x202 OR (if z then 0x40 else 0) :: u64)"
      "take 8 (drop 24 (irq_frame L z)) = le_bytes 8 (0x100000 :: u64)" "take 8 (drop 32 (irq_frame L z)) = le_bytes 8 (0 :: u64)"
      by (simp_all add: irq_frame_def)
    have fl: "bit (0x202 OR (if z then 0x40 else 0) :: u64) 6 = z" "bit (0x202 OR (if z then 0x40 else 0) :: u64) 9"
      by (simp_all add: bit_simps)
    show "exec64 L touched (guest_text ! 40) (ip_of L (Suc 40)) ?g1 = Ok (Step ?g2)"
      using r w fl cs_loads [OF ok(2)] by (simp add: exec64_def Let_def iretq_def le_val_le_bytes_full)
  qed (use s in \<open>simp_all add: settled_def\<close>)
  finally have "runs_to L 7 (g\<lparr>g_rip := ip_of L 35\<rparr>) ?g2" by simp
  moreover have "halted L ?g2" using s by (simp add: halted_def)
  ultimately show ?thesis by blast
qed

end
