(* ===== verification/MiniEntry.thy ===== *)
theory MiniEntry
  imports MiniGuest
begin

text \<open>
  The guest of \<open>MiniGuest\<close> behind the run loop of \<open>MiniRun\<close>: what an entry loads and an exit stores, the exits a run of the
  loop meets when the guest answers each entry from the state the loop left, and how many of them there are.
\<close>

section \<open>The guest behind an entry\<close>

text \<open>The guest's state is in the VMCS, in the registers the entry loads, and in its memory.\<close>

definition guest_of :: "(u32 \<Rightarrow> u64) \<Rightarrow> u64 list \<Rightarrow> cbuf \<Rightarrow> g64" where
  "guest_of f r m = \<lparr>g_rax = r ! 0, g_rcx = r ! 1, g_rdx = r ! 2, g_rsi = r ! 6, g_rdi = r ! 7, g_rsp = f GUEST_RSP,
     g_rip = f GUEST_RIP, g_zf = bit (f GUEST_RFLAGS) 6, g_if = bit (f GUEST_RFLAGS) 9,
     g_shadow = bit (f GUEST_INTERRUPTIBILITY_INFO) 0, g_cs = ucast (f 0x802), g_cr3 = f GUEST_CR3,
     g_gdt = f 0x6816, g_gdtl = ucast (f 0x4810), g_idt = f 0x6818, g_idtl = ucast (f 0x4812), g_mem = m\<rparr>"

text \<open>What an exit stores; it also clears the valid bit of the injected event.\<close>

definition saved_fields :: "(u32 \<Rightarrow> u64) \<Rightarrow> g64 \<Rightarrow> (u32 \<times> u64) list" where
  "saved_fields f g =
     [(GUEST_RSP, g_rsp g), (GUEST_RIP, g_rip g), (GUEST_RFLAGS, rflags_of g),
      (GUEST_INTERRUPTIBILITY_INFO, if g_shadow g then 1 else 0), (0x802, ucast (g_cs g)), (GUEST_CR3, g_cr3 g),
      (0x6816, g_gdt g), (0x4810, ucast (g_gdtl g)), (0x6818, g_idt g), (0x4812, ucast (g_idtl g)),
      (VM_ENTRY_INTR_INFO_FIELD, f VM_ENTRY_INTR_INFO_FIELD AND 0x7fffffff)]"

definition saved_regs :: "g64 \<Rightarrow> u64 list \<Rightarrow> u64 list" where
  "saved_regs g r = r[0 := g_rax g, 1 := g_rcx g, 2 := g_rdx g, 6 := g_rsi g, 7 := g_rdi g]"

text \<open>
  The VMCS runs a 64-bit guest with paging under the tables of the VM, exits on HLT, on every I/O instruction and on external
  interrupts, and is not in another activity state.
\<close>

definition runs_guest :: "(u32 \<Rightarrow> u64) \<Rightarrow> mini_ept \<Rightarrow> bool" where
  "runs_guest f e \<longleftrightarrow>
     f GUEST_CR0 AND 0x80000001 = 0x80000001 \<and> bit (f GUEST_CR4) 5 \<and> bit (f GUEST_IA32_EFER) 10 \<and> bit (f 0x4816) 13 \<and>
     f GUEST_ACTIVITY_STATE = 0 \<and> f EPT_POINTER = eptp e \<and> bit (f PIN_BASED_VM_EXEC_CONTROL) 0 \<and>
     f CPU_BASED_VM_EXEC_CONTROL AND 0x81000080 = 0x81000080 \<and> bit (f SECONDARY_VM_EXEC_CONTROL) 1"

text \<open>An event is delivered to a guest that can take it; only external interrupts are.\<close>

definition start64 :: "(u64 \<Rightarrow> bool) \<Rightarrow> u64 \<Rightarrow> g64 \<Rightarrow> g64 acc" where
  "start64 mp i g =
     (if \<not> bit i 31 then Ok g
      else if g_if g \<and> \<not> g_shadow g \<and> i AND 0x700 = 0 then deliver mp (ucast i) g else Bad)"

text \<open>The state after at most \<open>j\<close> instructions without an exit.\<close>

fun go64 :: "layout \<Rightarrow> (u64 \<Rightarrow> bool) \<Rightarrow> nat \<Rightarrow> g64 \<Rightarrow> g64" where
  "go64 L mp 0 g = g"
| "go64 L mp (Suc j) g = (case step64 L mp g of Ok (Step g1) \<Rightarrow> go64 L mp j g1 | _ \<Rightarrow> g)"

text \<open>
  The guest runs until it exits, at most \<open>n\<close> instructions, or until an interrupt of the host arrives after \<open>j\<close> instructions, the
  result \<open>None\<close>.
\<close>

definition guest_run :: "layout \<Rightarrow> (u64 \<Rightarrow> bool) \<Rightarrow> nat \<Rightarrow> nat option \<Rightarrow> g64 \<Rightarrow> (stop option \<times> g64) option" where
  "guest_run L mp n c g =
     (case c of
        None \<Rightarrow> map_option (\<lambda>(st, g1). (Some st, g1)) (run64 L mp n g)
      | Some j \<Rightarrow> (case run64 L mp j g of Some (st, g1) \<Rightarrow> Some (Some st, g1) | None \<Rightarrow> Some (None, go64 L mp j g)))"

definition instr_len :: "layout \<Rightarrow> u64 \<Rightarrow> nat" where
  "instr_len L ip = (case find (\<lambda>k. ip_of L k = ip) [0..<42] of Some k \<Rightarrow> length (enc L k) | None \<Rightarrow> 0)"

text \<open>
  The fields about the exit that the module reads; \<open>v\<close> is the event whose delivery the exit interrupted.
\<close>

definition exit_info :: "layout \<Rightarrow> u64 \<Rightarrow> g64 \<Rightarrow> stop option \<Rightarrow> (u32 \<times> u64) list option" where
  "exit_info L v g st =
     (let fs = (\<lambda>reason. [(VM_EXIT_REASON, reason), (IDT_VECTORING_INFO_FIELD, v),
                          (VM_EXIT_INSTRUCTION_LEN, of_nat (instr_len L (g_rip g)))])
      in case st of
           None \<Rightarrow> Some (fs 1)
         | Some (StopOut p c) \<Rightarrow> Some (fs 30 @ [(EXIT_QUALIFICATION, push_bit 16 (ucast p))])
         | Some StopHlt \<Rightarrow> Some (fs 12)
         | Some (StopViol a) \<Rightarrow> Some (fs 48 @ [(GUEST_PHYSICAL_ADDRESS, a)])
         | Some StopBad \<Rightarrow> None)"

abbreviation (input) mapped :: "rs \<Rightarrow> u64 \<Rightarrow> bool" where
  "mapped s a \<equiv> ept_translate (kept (rk s)) (pmem (rw s)) a \<noteq> None"

text \<open>
  The exit that follows when the loop enters from \<open>s\<close> with guest memory \<open>m\<close>, and the memory then; \<open>None\<close> when the guest
  does not exit within the bounds or does something the model leaves out.
\<close>

definition next_exit :: "layout \<Rightarrow> nat \<Rightarrow> nat option \<Rightarrow> rs \<Rightarrow> cbuf \<Rightarrow> (exit_event \<times> cbuf) option" where
  "next_exit L n c s m =
     (case rbind (mini_vmx_refresh_host_state (rw s)) (\<lambda>w. inject_pending (s\<lparr>rw := w\<rparr>)) of
        Inl _ \<Rightarrow> None
      | Inr t \<Rightarrow>
          (let f = vfield (regions (rw t) (vmcs_phys (rv t)));
               g = guest_of f (regs (rv t)) m; i = f VM_ENTRY_INTR_INFO_FIELD;
               out = (\<lambda>v g1 st. map_option (\<lambda>fs.
                 (\<lparr>ev_fail = False, ev_fields = saved_fields f g1 @ fs, ev_regs = saved_regs g1 (regs (rv t)),
                   ev_kgs = mini_rdmsr MSR_KERNEL_GS_BASE (rw t)\<rparr>, g_mem g1)) (exit_info L v g1 st))
           in if \<not> runs_guest f (kept (rk t)) then None
              else case start64 (mapped t) i g of
                Bad \<Rightarrow> None
              | Viol a \<Rightarrow> out i g (Some (StopViol a))
              | Ok g1 \<Rightarrow> Option.bind (guest_run L (mapped t) n c g1) (\<lambda>(st, g2). out 0 g2 st)))"

text \<open>The exits of one \<open>KVM_RUN\<close>: \<open>cs\<close> says for each turn whether and when an interrupt of the host arrives.\<close>

fun guest_exits :: "layout \<Rightarrow> nat \<Rightarrow> nat option list \<Rightarrow> rs \<Rightarrow> cbuf \<Rightarrow> exit_event list \<times> cbuf" where
  "guest_exits L n [] s m = ([], m)"
| "guest_exits L n (c # cs) s m =
     (case next_exit L n c s m of
        None \<Rightarrow> ([], m)
      | Some (e, m1) \<Rightarrow>
          (case run_turn e s of
             Inr (Again s1) \<Rightarrow> (case guest_exits L n cs s1 m1 of (es, m2) \<Rightarrow> (e # es, m2))
           | _ \<Rightarrow> ([e], m1)))"

section \<open>Saving and loading\<close>

lemma guest_of_saved:
  assumes "length r = 16" "fst ` set fs \<inter> fst ` set (saved_fields f g) = {}"
  shows "guest_of (store_fields (saved_fields f g @ fs) h) ((saved_regs g r)[4 := x]) (g_mem g) = g"
proof -
  have o: "store_fields (saved_fields f g @ fs) h a = store_fields (saved_fields f g) h a" if "a \<in> fst ` set (saved_fields f g)" for a
    unfolding store_fields_append by (rule store_other) (use assms(2) that in auto)
  have u: "(ucast (ucast x :: u64) :: u16) = x" "(ucast (take_bit 16 (ucast x :: u64)) :: u16) = x"
    "(ucast (take_bit 32 (ucast x :: u64)) :: u16) = x" for x :: u16
    by (rule bit_word_eqI, simp add: bit_simps)+
  let ?F = "store_fields (saved_fields f g @ fs) h"
  have v: "?F GUEST_RSP = g_rsp g" "?F GUEST_RIP = g_rip g" "?F GUEST_RFLAGS = rflags_of g"
    "?F GUEST_INTERRUPTIBILITY_INFO = (if g_shadow g then 1 else 0)" "?F 0x802 = take_bit 16 (ucast (g_cs g))" "?F GUEST_CR3 = g_cr3 g"
    "?F 0x6816 = g_gdt g" "?F 0x4810 = take_bit 32 (ucast (g_gdtl g))" "?F 0x6818 = g_idt g" "?F 0x4812 = take_bit 32 (ucast (g_idtl g))"
    by (subst o, simp add: saved_fields_def, simp add: saved_fields_def field_trunc_def)+
  have r: "bit (rflags_of g) 6 = g_zf g" "bit (rflags_of g) 9 = g_if g" by (simp_all add: rflags_of_def bit_simps)
  show ?thesis
    using assms(1) by (simp only: guest_of_def v r u saved_regs_def) (cases g, simp)
qed

lemma instr_len_at: "layout_ok L \<Longrightarrow> k < 42 \<Longrightarrow> instr_len L (ip_of L k) = length (enc L k)"
proof -
  assume a: "layout_ok L" "k < 42"
  then have "find (\<lambda>j. ip_of L j = ip_of L k) [0..<42] = Some k"
    using ip_inj [OF a(1)] by (auto simp: find_Some_iff intro!: exI [of _ k])
  then show ?thesis by (simp add: instr_len_def)
qed

lemma ip_next: "ip_of L k + of_nat (length (enc L k)) = ip_of L (Suc k)"
  by (simp add: ip_of_def)

lemma run64_cut:
  assumes "run64 L mp0 n g = Some (st, g1)" "\<And>a. st \<noteq> StopViol a" "run64 L mp j g = None"
  shows "run64 L mp0 n (go64 L mp j g) = Some (st, g1)"
  using assms(1,3)
proof (induction j arbitrary: n g)
  case (Suc j)
  then obtain k where n: "n = Suc k" by (cases n) auto
  from Suc.prems(2) obtain g' where g': "step64 L mp g = Ok (Step g')" "run64 L mp j g' = None"
    by (auto split: acc.splits after.splits)
  have "step64 L mp0 g = Ok (Step g')"
  proof (cases "\<exists>a. step64 L mp0 g = Viol a")
    case True
    then obtain a where "step64 L mp0 g = Viol a" by blast
    then have "st = StopViol a" using Suc.prems(1) by (simp add: n)
    with assms(2) show ?thesis by blast
  next
    case False
    then show ?thesis using lags_step [of mp0 mp L g] g'(1) by (auto simp: lags_def)
  qed
  then have "run64 L mp0 k g' = Some (st, g1)" using Suc.prems(1) by (simp add: n)
  then show ?case using Suc.IH [OF _ g'(2)] run64_more [of L mp0 k _ _ 1] g'(1) by (simp add: n del: run64.simps)
qed simp

section \<open>A turn in detail\<close>

definition refresh_fields :: "mk_world \<Rightarrow> (u32 \<times> u64) list" where
  "refresh_fields w = [(HOST_CR3, hv_cr3 (host w) (cur_cpu w)), (HOST_CR4, mini_host_cr4 w),
     (HOST_GS_BASE, hv_gs_base (host w) (cur_cpu w)), (HOST_FS_BASE, mini_rdmsr MSR_FS_BASE w)]"

definition entry_fields :: "u64 \<Rightarrow> rs \<Rightarrow> (u32 \<times> u64) list" where
  "entry_fields p s = refresh_fields (rw s) @
     inject_fields (pending_intr_info (rv s)) (store_fields (refresh_fields (rw s)) (vfield (regions (rw s) p)))"

definition entered :: "u64 \<Rightarrow> rs \<Rightarrow> rs" where
  "entered p s = put_fields p (entry_fields p s) (upd_v took s)"

lemma entered_run:
  assumes "vmx_ready (rw s) p"
  shows "rbind (mini_vmx_refresh_host_state (rw s)) (\<lambda>w. inject_pending (s\<lparr>rw := w\<rparr>)) = Inr (entered p s)"
proof -
  have r: "mini_vmx_refresh_host_state (rw s) = Inr (set_fields p (refresh_fields (rw s)) (rw s))"
    unfolding mini_vmx_refresh_host_state_def refresh_fields_def by (rule vmwrites_ready [OF assms])
  let ?t = "put_fields p (refresh_fields (rw s)) s"
  have t: "s\<lparr>rw := set_fields p (refresh_fields (rw s)) (rw s)\<rparr> = ?t" by (simp add: put_fields_def)
  have "vmx_ready (rw ?t) p" using assms by simp
  from inject_run [OF this] show ?thesis
    by (simp add: r t entered_def entry_fields_def) (simp add: put_fields_def upd_v_def)
qed

lemma entered_sel [simp]:
  "rk (entered p s) = rk s" "regs (rv (entered p s)) = regs (rv s)" "pmem (rw (entered p s)) = pmem (rw s)"
  "launched (rv (entered p s)) = launched (rv s)" "vmcs_phys (rv (entered p s)) = vmcs_phys (rv s)"
  "vfield (regions (rw (entered p s)) p) = store_fields (entry_fields p s) (vfield (regions (rw s) p))"
  "vlaunched (regions (rw (entered p s)) p) = vlaunched (regions (rw s) p)"
  "vmx_ready (rw (entered p s)) q = vmx_ready (rw s) q"
  "kept_by p w0 oth v0 b (entered p s) = kept_by p w0 oth v0 b s"
  by (simp_all add: entered_def)

definition vectored :: "u64 \<Rightarrow> u32" where
  "vectored x = (if x AND 0x80000000 \<noteq> 0 \<and> drop_bit 8 x AND 7 = 0 then 0x80000000 OR ucast (x AND 0xff) else 0)"

lemma turn_after:
  assumes k: "kept_by p w0 oth v0 True s" and e: "\<not> ev_fail e" "length (ev_regs e) = 16"
  defines "f \<equiv> store_fields (ev_fields e) (store_fields (entry_fields p s) (vfield (regions (rw s) p)))"
  assumes b: "\<not> bit (f VM_EXIT_REASON) 31"
  obtains s7 where "run_turn e s = dispatch ((ucast (f VM_EXIT_REASON) :: u32) AND 0xffff) s7"
    "kept_by p w0 oth v0 True s7" "\<not> irqs_on (rw s7)" "vfield (regions (rw s7) p) = f"
    "regs (rv s7) = (ev_regs e)[4 := regs (rv s) ! 4]" "rk s7 = rk s" "pmem (rw s7) = pmem (rw s)"
    "pending_intr_info (rv s7) = vectored (f IDT_VECTORING_INFO_FIELD)" "loaded_cpu (rv s7) = loaded_cpu (rv s)"
proof -
  note rdy = kept_ready [OF k]
  let ?t2 = "entered p s" let ?t4 = "local_irq False ?t2"
  define w5 where "w5 = upd_region p (\<lambda>r. r\<lparr>vfield := f, vlaunched := True\<rparr>) (rw ?t4)"
  define t5 where "t5 = ?t4\<lparr>rw := w5, rv := (rv ?t4)\<lparr>regs := (ev_regs e)[4 := regs (rv s) ! 4]\<rparr>\<rparr>"
  have k4: "kept_by p w0 oth v0 True ?t4" using k by simp
  have cur: "in_vmx (this_cpu (rw ?t4))" "current_vmcs (this_cpu (rw ?t4)) = Some p"
    using kept_ready [OF k4] by (simp_all add: vmx_ready_def)
  have l: "launched (rv ?t4) = vlaunched (regions (rw ?t4) p)"
    using k4 by (simp add: kept_by_def launch_ok_def run_ok_def)
  have en: "mini_vmx_enter e ?t4 = Inr (0, t5\<lparr>rw := mini_wrmsr MSR_KERNEL_GS_BASE (ev_kgs e) w5\<rparr>)"
    using e(1) cur l b by (simp add: mini_vmx_enter_def in_operation_def Let_def t5_def w5_def f_def)
  have g: "mini_rdmsr MSR_KERNEL_GS_BASE (rw ?t2) = mini_rdmsr MSR_KERNEL_GS_BASE w5"
    by (simp add: mini_rdmsr_def w5_def upd_region_def local_irq_def)
  have bk: "t5\<lparr>rw := mini_wrmsr MSR_KERNEL_GS_BASE (mini_rdmsr MSR_KERNEL_GS_BASE w5) (mini_wrmsr MSR_KERNEL_GS_BASE (ev_kgs e) w5)\<rparr> = t5"
    unfolding wrmsr_restores by (simp add: t5_def)
  have turn: "run_turn e s = after_enter 0 t5"
  proof -
    have "rbind (mini_vmx_refresh_host_state (rw s)) (\<lambda>w. rbind (inject_pending (s\<lparr>rw := w\<rparr>)) K) = K ?t2" for K :: "rs \<Rightarrow> turn res"
      using entered_run [OF rdy] by (auto simp: rbind_def split: sum.splits)
    then show ?thesis unfolding run_turn_def Let_def by (simp add: en g bk)
  qed
  define t6 where "t6 = upd_v (\<lambda>v. v\<lparr>launched := True, n_exits := n_exits v + 1\<rparr>) t5"
  have "same_world p w0 w5"
    unfolding w5_def by (rule same_world_launch) (use k4 in \<open>simp add: kept_by_def run_ok_def\<close>)
  then have k6: "kept_by p w0 oth v0 True t6"
    using k4 e(2) by (simp add: t6_def t5_def kept_by_def run_ok_def upd_v_def launch_ok_def w5_def upd_region_def)
  have s6: "\<not> irqs_on (rw t6)" "vfield (regions (rw t6) p) = f" "regs (rv t6) = (ev_regs e)[4 := regs (rv s) ! 4]" "rk t6 = rk s"
    "pmem (rw t6) = pmem (rw s)" "loaded_cpu (rv t6) = loaded_cpu (rv s)"
    by (simp_all add: t6_def t5_def upd_v_def w5_def upd_region_def local_irq_def entered_def took_def)
  obtain i where i: "mini_vcpu_complete_intr_info t6 = Inr (upd_v (\<lambda>v. v\<lparr>pending_intr_info := i\<rparr>) t6)"
    "i = vectored (f IDT_VECTORING_INFO_FIELD)"
    using complete_ok [OF k6] s6(2) by (auto simp: Let_def vectored_def)
  have b31: "f VM_EXIT_REASON AND 0x80000000 = 0" using b and_exp_eq_0_iff_not_bit [of "f VM_EXIT_REASON" 31] by simp
  have "run_turn e s = dispatch ((ucast (f VM_EXIT_REASON) :: u32) AND 0xffff) (upd_v (\<lambda>v. v\<lparr>pending_intr_info := i\<rparr>) t6)"
    unfolding turn after_enter_def using kept_ready [OF k6] s6(2) b31 i(1)
    by (simp add: t6_def [symmetric] rd0_ready Let_def)
  then show thesis
    by (rule that) (use k6 s6 i in simp_all)
qed

section \<open>Violations the tables can take\<close>

text \<open>The next \<open>j\<close> table pages can be had.\<close>

definition room :: "nat \<Rightarrow> mini_ept \<Rightarrow> mk_mem \<Rightarrow> bool" where
  "room j e m \<longleftrightarrow> length (tracked e) + j \<le> EPT_TRACK_MAX \<and> j \<le> length (avail_pages m) \<and> None \<notin> set (take j (avail_pages m))"

lemma room_less: "room j e m \<Longrightarrow> k \<le> j \<Longrightarrow> room k e m"
  using set_take_subset_set_take [of k j "avail_pages m"] by (auto simp: room_def)

lemma room_alloc: "room (Suc j) e m \<Longrightarrow> \<exists>p m1. alloc_page m = (Some p, m1) \<and> (\<forall>t i x. room j (e\<lparr>tracked := tracked e @ [p]\<rparr>) (set_entry t i x m1))"
  by (cases "avail_pages m"; cases "hd (avail_pages m)") (auto simp: room_def alloc_page_def set_entry_def)

lemma walk_room:
  "shs \<noteq> [] \<Longrightarrow> room (length shs - 1 + k) e m \<Longrightarrow>
     \<exists>ti e1 m1. ept_walk_from shs t g True e m = (Some ti, e1, m1) \<and> room k e1 m1"
proof (induction shs arbitrary: t e m)
  case (Cons sh shs)
  show ?case
  proof (cases shs)
    case Nil
    then show ?thesis using Cons.prems by simp
  next
    case (Cons sh' shs')
    have r: "room (Suc (length shs - 1 + k)) e m" using Cons.prems(2) Cons by simp
    have IH: "\<exists>ti e1 m1. ept_walk_from shs t g True e m = (Some ti, e1, m1) \<and> room k e1 m1" if "room (length shs - 1 + k) e m" for t e m
      using Cons.IH that Cons by simp
    show ?thesis
    proof (cases "tables m t (ept_idx g sh) AND EPT_PTE_READ = 0")
      case True
      let ?i = "ept_idx g sh"
      obtain p m1 where p: "alloc_page m = (Some p, m1)"
        "room (length shs - 1 + k) (e\<lparr>tracked := tracked e @ [p]\<rparr>) (set_entry t ?i (page_to_phys p OR EPT_ENTRY_RWX) m1)"
        using room_alloc [OF r] by metis
      have "length (tracked e) < 1024" using r by (simp add: room_def)
      then show ?thesis using True p(1) IH [OF p(2)] by (simp add: Cons Let_def not_le)
    next
      case False
      then show ?thesis using IH [OF room_less [OF r]] by (simp add: Cons Let_def)
    qed
  qed
qed simp

lemma violation_room:
  assumes "mini_ept_handle_violation a sl e m n = Inr (r, e', m', n')" "room (3 + k) e m" "pml4 e \<noteq> None" "in_slot sl (page_base a)"
  shows "r = 0 \<and> room k e' m'"
proof -
  obtain root where root: "pml4 e = Some root" using assms(3) by blast
  have sh: "ept_shifts \<noteq> []" "room (length ept_shifts - 1 + k) e m" using assms(2) by (simp_all add: ept_shifts_def eval_nat_numeral)
  from walk_room [OF this, of root "page_base a"] obtain t i e1 m1
    where w: "ept_walk_from ept_shifts root (page_base a) True e m = (Some (t, i), e1, m1)" "room k e1 m1" by auto
  have "room k e1 (set_entry t i x m1)" for x using w(2) by (simp add: room_def set_entry_def)
  then show ?thesis using assms(1,4) w(1) root
    by (auto simp: mini_ept_handle_violation_def Let_def mini_ept_walk_def split: if_splits)
qed

text \<open>The guest's pages that the tables do not map yet.\<close>

definition lacking :: "rs \<Rightarrow> nat set" where
  "lacking s = (\<lambda>a. unat a div 4096) ` {a. touched a \<and> \<not> mapped s a}"

lemma lacking_finite: "finite (lacking s)" "card (lacking s) \<le> 6"
proof -
  have s: "lacking s \<subseteq> {1, 2, 6, 7, 8, 255}" by (auto simp: lacking_def touched_def guest_page_def)
  show "finite (lacking s)" using s by (rule finite_subset) simp
  have "card (lacking s) \<le> card {1, 2, 6, 7, 8, 255 :: nat}" using s by (intro card_mono) simp_all
  then show "card (lacking s) \<le> 6" by simp
qed

lemma touched_small: "touched a \<Longrightarrow> unat a < 0x100000"
  by (auto simp: touched_def guest_page_def)

lemma touched_page:
  assumes "touched a" "touched b"
  shows "same_page a b \<longleftrightarrow> unat a div 4096 = unat b div 4096"
proof -
  have d: "unat (drop_bit 12 x) = unat x div 4096" for x :: u64 by (simp add: drop_bit_eq_div unat_div_distrib)
  have "take_bit 48 x = x" if "touched x" for x
    using touched_small [OF that] by (simp add: word_unat_eq_iff unsigned_take_bit_eq take_bit_nat_eq_self)
  then have "same_page a b \<longleftrightarrow> drop_bit 12 a = drop_bit 12 b" using assms by (simp add: same_page_def)
  then show ?thesis using d [of a] d [of b] by (simp add: word_unat_eq_iff)
qed

section \<open>Configurations\<close>

lemma walk_eptp: "eptp (fst (snd (ept_walk_from shs t g al e m))) = eptp e"
  by (induction shs t g al e m rule: ept_walk_from.induct) (auto simp: Let_def split: prod.splits option.splits)

lemma violation_eptp:
  assumes "mini_ept_handle_violation a sl e m n = Inr (r, e', m', n')"
  shows "eptp e' = eptp e"
proof -
  have "eptp (fst (snd (mini_ept_walk x True e m))) = eptp e" for x
    by (simp add: mini_ept_walk_def walk_eptp split: option.split)
  then show ?thesis using assms
    by (auto simp: mini_ept_handle_violation_def Let_def split: if_splits prod.splits option.splits dest: arg_cong [of _ _ eptp])
      (metis fst_conv snd_conv)+
qed

definition slot2M :: "mini_slot \<Rightarrow> bool" where
  "slot2M sl \<longleftrightarrow> svalid sl \<and> base_gpa sl = 0 \<and> npages sl = 512"

lemma slot2M_in: "slot2M sl \<Longrightarrow> touched a \<Longrightarrow> in_slot sl (page_base a)"
proof -
  assume a: "slot2M sl" "touched a"
  have "page_base a \<le> a" by (simp add: page_base_def word_and_le2)
  then have "unat (page_base a) < 0x200000" using touched_small [OF a(2)] by (simp add: word_le_nat_alt)
  then show ?thesis using a(1) by (simp add: slot2M_def in_slot_def not_le word_less_nat_alt)
qed

text \<open>The guest \<open>g\<close> is what the next entry enters, and the tables have room for what it may still miss.\<close>

definition cfg :: "u64 \<Rightarrow> mk_world \<Rightarrow> u64 multiset \<Rightarrow> mini_vcpu \<Rightarrow> rs \<Rightarrow> cbuf \<Rightarrow> g64 \<Rightarrow> bool" where
  "cfg p w0 oth v0 s m g \<longleftrightarrow> kept_by p w0 oth v0 True s \<and> runs_guest (vfield (regions (rw s) p)) (kept (rk s)) \<and>
     slot2M (kslot (rk s)) \<and> room (3 * card (lacking s)) (kept (rk s)) (pmem (rw s)) \<and>
     guest_of (vfield (regions (rw s) p)) (regs (rv s)) m = g"

definition takes :: "u32 \<Rightarrow> g64 \<Rightarrow> g64" where
  "takes i g = (if i \<noteq> 0 then g\<lparr>g_if := True, g_shadow := False\<rparr> else g)"

lemma takes_twice [simp]: "takes i (takes i g) = takes i g" "takes 0 g = g" "g_mem (takes i g) = g_mem g"
  by (simp_all add: takes_def)

lemma word_small: "unat x < 2 ^ n \<Longrightarrow> take_bit n x = (x :: 'a::len word)"
  by (simp add: word_unat_eq_iff unsigned_take_bit_eq take_bit_nat_eq_self)

lemma entry_guest:
  fixes p :: u64 and s :: rs
  defines "h \<equiv> store_fields (entry_fields p s) (vfield (regions (rw s) p))"
  shows "guest_of h r m = takes (pending_intr_info (rv s)) (guest_of (vfield (regions (rw s) p)) r m)"
    "runs_guest h e = runs_guest (vfield (regions (rw s) p)) e"
    "h VM_ENTRY_INTR_INFO_FIELD = ucast (pending_intr_info (rv s))"
proof -
  have b: "\<not> bit (take_bit 32 (x AND NOT 3)) 0" for x :: u64
    by (simp add: bit_take_bit_iff bit_and_iff bit_not_iff)
  have b9: "bit (x OR 0x200) 9" "bit (x OR 0x200) 6 = bit x 6" for x :: u64 by (simp_all add: bit_simps)
  show "guest_of h r m = takes (pending_intr_info (rv s)) (guest_of (vfield (regions (rw s) p)) r m)"
    using b b9 by (simp add: h_def guest_of_def takes_def entry_fields_def refresh_fields_def inject_fields_def store_fields_append
        field_trunc_def)
  show "runs_guest h e = runs_guest (vfield (regions (rw s) p)) e"
    by (simp add: h_def runs_guest_def entry_fields_def refresh_fields_def inject_fields_def store_fields_append)
  show "h VM_ENTRY_INTR_INFO_FIELD = ucast (pending_intr_info (rv s))"
    by (simp add: h_def entry_fields_def store_fields_append inject_value)
qed

definition turn_event :: "u64 \<Rightarrow> rs \<Rightarrow> g64 \<Rightarrow> (u32 \<times> u64) list \<Rightarrow> exit_event" where
  "turn_event p s g fs = \<lparr>ev_fail = False, ev_fields = saved_fields (vfield (regions (rw (entered p s)) p)) g @ fs,
     ev_regs = saved_regs g (regs (rv s)), ev_kgs = mini_rdmsr MSR_KERNEL_GS_BASE (rw (entered p s))\<rparr>"

text \<open>The exit in terms of the configuration.\<close>

lemma next_exit_eq:
  assumes "cfg p w0 oth v0 s m g"
  defines "i \<equiv> pending_intr_info (rv s)"
  shows "next_exit L n c s m =
    (let out = (\<lambda>v g1 st. map_option (\<lambda>fs. (turn_event p s g1 fs, g_mem g1)) (exit_info L v g1 st)) in
     case start64 (mapped s) (ucast i) (takes i g) of
       Bad \<Rightarrow> None
     | Viol a \<Rightarrow> out (ucast i) (takes i g) (Some (StopViol a))
     | Ok g1 \<Rightarrow> Option.bind (guest_run L (mapped s) n c g1) (\<lambda>(st, g2). out 0 g2 st))"
proof -
  have k: "kept_by p w0 oth v0 True s" using assms(1) by (simp add: cfg_def)
  have p: "vmcs_phys (rv s) = p" using k by (simp add: kept_by_def run_ok_def)
  show ?thesis
    unfolding next_exit_def entered_run [OF kept_ready [OF k]] sum.case Let_def turn_event_def
    using assms(1) entry_guest [of p s] by (simp add: p cfg_def i_def cong: acc.case_cong)
qed

lemma event_turn:
  assumes c: "cfg p w0 oth v0 s m g"
    and fs: "fs = [(VM_EXIT_REASON, reason), (IDT_VECTORING_INFO_FIELD, v), (VM_EXIT_INSTRUCTION_LEN, of_nat l)] @ xs"
      "fst ` set xs \<subseteq> {EXIT_QUALIFICATION, GUEST_PHYSICAL_ADDRESS}" "reason < 100" "l < 100"
  obtains s7 where "run_turn (turn_event p s g1 fs) s = dispatch (ucast reason) s7"
    "kept_by p w0 oth v0 True s7" "\<not> irqs_on (rw s7)" "runs_guest (vfield (regions (rw s7) p)) (kept (rk s7))"
    "guest_of (vfield (regions (rw s7) p)) (regs (rv s7)) (g_mem g1) = g1"
    "rk s7 = rk s" "pmem (rw s7) = pmem (rw s)" "pending_intr_info (rv s7) = vectored (take_bit 32 v)"
    "vfield (regions (rw s7) p) VM_EXIT_INSTRUCTION_LEN = of_nat l"
    "\<And>a x. xs = [(a, x)] \<Longrightarrow> vfield (regions (rw s7) p) a = x" "length (regs (rv s7)) = 16"
proof -
  let ?e = "turn_event p s g1 fs"
  have k: "kept_by p w0 oth v0 True s" using c by (simp add: cfg_def)
  have r16: "length (regs (rv s)) = 16" using k by (simp add: kept_by_def run_ok_def)
  define f0 where "f0 = store_fields (entry_fields p s) (vfield (regions (rw s) p))"
  define f where "f = store_fields (ev_fields ?e) f0"
  have xs: "fst x \<in> {EXIT_QUALIFICATION, GUEST_PHYSICAL_ADDRESS}" if "x \<in> set xs" for x using fs(2) that by blast
  have f_saved: "f = store_fields xs (store_fields [(VM_EXIT_REASON, reason), (IDT_VECTORING_INFO_FIELD, v),
      (VM_EXIT_INSTRUCTION_LEN, of_nat l)] (store_fields (saved_fields f0 g1) f0))"
    by (simp add: f_def turn_event_def fs(1) f0_def store_fields_append)
  have other: "store_fields xs h a = h a" if "a \<notin> {EXIT_QUALIFICATION, GUEST_PHYSICAL_ADDRESS}" for h a
    by (rule store_other) (use xs that in auto)
  have u: "unat reason < 100" "unat (of_nat l :: u64) = l"
    using fs(3,4) by (simp_all add: word_less_nat_alt unat_of_nat take_bit_nat_eq_self)
  have small: "take_bit 32 reason = reason" "take_bit 32 (of_nat l :: u64) = of_nat l" "\<not> bit reason 31" "(ucast reason :: u32) AND 0xffff = ucast reason"
  proof -
    show "take_bit 32 reason = reason" "take_bit 32 (of_nat l :: u64) = of_nat l"
      using u fs(4) by (simp_all add: word_small)
    have "take_bit 31 reason = reason" using u by (simp add: word_small)
    then show "\<not> bit reason 31" by (metis bit_take_bit_iff less_irrefl)
    have "unat (ucast reason :: u32) = unat reason" using u by (simp add: unsigned_ucast_eq take_bit_nat_eq_self)
    then have "take_bit 16 (ucast reason :: u32) = ucast reason" using u by (intro word_small) simp
    then show "(ucast reason :: u32) AND 0xffff = ucast reason" by (simp add: take_bit_eq_mask mask_eq_exp_minus_1)
  qed
  have vals: "f VM_EXIT_REASON = reason" "f IDT_VECTORING_INFO_FIELD = take_bit 32 v" "f VM_EXIT_INSTRUCTION_LEN = of_nat l"
    by (simp_all add: f_saved other field_trunc_def small)
  have one: "f a = x" if "xs = [(a, x)]" for a x
    using fs(2) that by (auto simp: f_saved field_trunc_def)
  have rg: "runs_guest f (kept (rk s))"
  proof -
    have "runs_guest f0 (kept (rk s))" using c entry_guest(2) by (simp add: f0_def cfg_def)
    then show ?thesis by (simp add: runs_guest_def f_saved other saved_fields_def)
  qed
  have go: "guest_of f ((saved_regs g1 (regs (rv s)))[4 := x]) (g_mem g1) = g1" for x
  proof -
    have "f = store_fields (saved_fields f0 g1 @ fs) f0" by (simp add: f_def turn_event_def f0_def)
    moreover have "fst ` set fs \<inter> fst ` set (saved_fields f0 g1) = {}"
    proof -
      have "fst ` set fs \<subseteq> {VM_EXIT_REASON, IDT_VECTORING_INFO_FIELD, VM_EXIT_INSTRUCTION_LEN, EXIT_QUALIFICATION, GUEST_PHYSICAL_ADDRESS}"
        unfolding fs(1) using fs(2) by auto
      moreover have "fst ` set (saved_fields f0 g1) \<inter>
          {VM_EXIT_REASON, IDT_VECTORING_INFO_FIELD, VM_EXIT_INSTRUCTION_LEN, EXIT_QUALIFICATION, GUEST_PHYSICAL_ADDRESS} = {}"
        by (simp add: saved_fields_def)
      ultimately show ?thesis by blast
    qed
    ultimately show ?thesis using guest_of_saved [OF r16] by simp
  qed
  obtain s7 where s7: "run_turn ?e s = dispatch ((ucast (f VM_EXIT_REASON) :: u32) AND 0xffff) s7"
    "kept_by p w0 oth v0 True s7" "\<not> irqs_on (rw s7)" "vfield (regions (rw s7) p) = f"
    "regs (rv s7) = (ev_regs ?e)[4 := regs (rv s) ! 4]" "rk s7 = rk s" "pmem (rw s7) = pmem (rw s)"
    "pending_intr_info (rv s7) = vectored (f IDT_VECTORING_INFO_FIELD)"
    by (rule turn_after [OF k, of ?e]) (use r16 vals small(3) in \<open>simp_all add: turn_event_def saved_regs_def f_def f0_def\<close>)
  show thesis
    by (rule that [of s7]) (use s7 vals small one rg go r16 in \<open>simp_all add: turn_event_def saved_regs_def\<close>)
qed

section \<open>The four exits of this guest\<close>

definition info :: "layout \<Rightarrow> u64 \<Rightarrow> g64 \<Rightarrow> u64 \<Rightarrow> (u32 \<times> u64) list \<Rightarrow> (u32 \<times> u64) list" where
  "info L v g r xs = [(VM_EXIT_REASON, r), (IDT_VECTORING_INFO_FIELD, v),
     (VM_EXIT_INSTRUCTION_LEN, of_nat (instr_len L (g_rip g)))] @ xs"

lemma exit_info_simps [simp]:
  "exit_info L v g None = Some (info L v g 1 [])" "exit_info L v g (Some StopHlt) = Some (info L v g 12 [])"
  "exit_info L v g (Some (StopViol a)) = Some (info L v g 48 [(GUEST_PHYSICAL_ADDRESS, a)])"
  "exit_info L v g (Some (StopOut q c)) = Some (info L v g 30 [(EXIT_QUALIFICATION, push_bit 16 (ucast q))])"
  by (simp_all add: exit_info_def info_def Let_def)

lemma instr_len_less: "layout_ok L \<Longrightarrow> instr_len L ip < 100"
  by (auto simp: instr_len_def layout_ok_def find_Some_iff split: option.split dest!: spec)

lemma info_turn:
  assumes c: "cfg p w0 oth v0 s m g" "layout_ok L" "reason < 100" "fst ` set xs \<subseteq> {EXIT_QUALIFICATION, GUEST_PHYSICAL_ADDRESS}"
  obtains s7 where "run_turn (turn_event p s g1 (info L v g1 reason xs)) s = dispatch (ucast reason) s7"
    "kept_by p w0 oth v0 True s7" "runs_guest (vfield (regions (rw s7) p)) (kept (rk s7))"
    "guest_of (vfield (regions (rw s7) p)) (regs (rv s7)) (g_mem g1) = g1"
    "rk s7 = rk s" "pmem (rw s7) = pmem (rw s)" "pending_intr_info (rv s7) = vectored (take_bit 32 v)"
    "vfield (regions (rw s7) p) VM_EXIT_INSTRUCTION_LEN = of_nat (instr_len L (g_rip g1))"
    "\<And>a x. xs = [(a, x)] \<Longrightarrow> vfield (regions (rw s7) p) a = x"
  by (rule event_turn [OF c(1) info_def c(4,3) instr_len_less [OF c(2)]]) (use that in blast)

lemma lacking_cong: "rk t = rk s \<Longrightarrow> pmem (rw t) = pmem (rw s) \<Longrightarrow> lacking t = lacking s"
  by (simp add: lacking_def)

lemma lacking_sel [simp]: "lacking (local_irq b s) = lacking s" "lacking (upd_v f s) = lacking s"
  by (auto intro!: lacking_cong simp: local_irq_def)

lemma cfg_sel [simp]:
  "cfg p w0 oth v0 (local_irq b s) m g = cfg p w0 oth v0 s m g"
  "(\<And>v. regs (f v) = regs v) \<Longrightarrow> counters_only f \<Longrightarrow> cfg p w0 oth v0 (upd_v f s) m g = cfg p w0 oth v0 s m g"
  by (simp_all add: cfg_def) (simp add: local_irq_def)

lemma int_turn:
  assumes c: "cfg p w0 oth v0 s m g" and L: "layout_ok L"
  shows "\<exists>s1. run_turn (turn_event p s g1 (info L 0 g1 1 [])) s = Inr (Again s1) \<and> cfg p w0 oth v0 s1 (g_mem g1) g1 \<and>
    lacking s1 = lacking s \<and> rk s1 = rk s \<and> pending_intr_info (rv s1) = 0"
proof -
  obtain s7 where s7: "run_turn (turn_event p s g1 (info L 0 g1 1 [])) s = dispatch (ucast (1 :: u64)) s7"
    "kept_by p w0 oth v0 True s7" "runs_guest (vfield (regions (rw s7) p)) (kept (rk s7))"
    "guest_of (vfield (regions (rw s7) p)) (regs (rv s7)) (g_mem g1) = g1"
    "rk s7 = rk s" "pmem (rw s7) = pmem (rw s)" "pending_intr_info (rv s7) = vectored (take_bit 32 0)"
    by (rule info_turn [OF c L, of "1" "[]" g1 "0"]) simp_all
  have l: "lacking s7 = lacking s" using s7 by (intro lacking_cong)
  then have "cfg p w0 oth v0 s7 (g_mem g1) g1" using s7 c by (simp add: cfg_def)
  then show ?thesis using s7 l by (auto simp: dispatch_def vectored_def)
qed

lemma hlt_exit:
  assumes c: "cfg p w0 oth v0 s m g" and L: "layout_ok L"
  shows "\<exists>s1. run_turn (turn_event p s g1 (info L 0 g1 12 [])) s = Inr (Leave 0 s1) \<and> cfg p w0 oth v0 s1 (g_mem g1) g1 \<and>
    lacking s1 = lacking s \<and> rk s1 = rk s \<and> pending_intr_info (rv s1) = 0 \<and> run_exit_reason (rv s1) = KVM_EXIT_HLT"
proof -
  obtain s7 where s7: "run_turn (turn_event p s g1 (info L 0 g1 12 [])) s = dispatch (ucast (12 :: u64)) s7"
    "kept_by p w0 oth v0 True s7" "runs_guest (vfield (regions (rw s7) p)) (kept (rk s7))"
    "guest_of (vfield (regions (rw s7) p)) (regs (rv s7)) (g_mem g1) = g1"
    "rk s7 = rk s" "pmem (rw s7) = pmem (rw s)" "pending_intr_info (rv s7) = vectored (take_bit 32 0)"
    by (rule info_turn [OF c L, of "12" "[]" g1 "0"]) simp_all
  have l: "lacking s7 = lacking s" using s7 by (intro lacking_cong)
  then have "cfg p w0 oth v0 s7 (g_mem g1) g1" using s7 c by (simp add: cfg_def)
  then show ?thesis using s7 l by (auto simp: dispatch_def vectored_def leave_def)
qed

lemma viol_turn:
  assumes c: "cfg p w0 oth v0 s m g" and L: "layout_ok L" and a: "touched a" "\<not> mapped s a"
  shows "\<exists>s1. run_turn (turn_event p s g1 (info L v g1 48 [(GUEST_PHYSICAL_ADDRESS, a)])) s = Inr (Again s1) \<and>
    cfg p w0 oth v0 s1 (g_mem g1) g1 \<and> card (lacking s1) < card (lacking s) \<and> captured (rk s1) = captured (rk s) \<and>
    pending_intr_info (rv s1) = vectored (take_bit 32 v)"
proof -
  let ?e = "turn_event p s g1 (info L v g1 48 [(GUEST_PHYSICAL_ADDRESS, a)])"
  obtain s7 where s7: "run_turn ?e s = dispatch (ucast (48 :: u64)) s7"
    "kept_by p w0 oth v0 True s7" "runs_guest (vfield (regions (rw s7) p)) (kept (rk s7))"
    "guest_of (vfield (regions (rw s7) p)) (regs (rv s7)) (g_mem g1) = g1"
    "rk s7 = rk s" "pmem (rw s7) = pmem (rw s)" "pending_intr_info (rv s7) = vectored (take_bit 32 v)"
    "vfield (regions (rw s7) p) GUEST_PHYSICAL_ADDRESS = a"
    by (rule info_turn [OF c L, of "48" "[(GUEST_PHYSICAL_ADDRESS, a)]" g1 "v"]) simp_all
  have ok: "ept_ok oth (kept (rk s)) (pmem (rw s))" "slot_ok (kslot (rk s))"
    using c by (simp_all add: cfg_def kept_by_def run_ok_def)
  have root: "pml4 (kept (rk s)) \<noteq> None" using ok(1) by (auto simp: ept_ok_def ept_inv_def)
  obtain r e n x where h: "mini_ept_handle_violation a (kslot (rk s)) (kept (rk s)) (pmem (rw s)) (n_ept_violations (rv s7)) = Inr (r, e, n, x)"
    "ept_ok oth e n" and tr: "r = 0 \<and> (\<forall>b. ept_translate e n b = (if same_page b a then Some (page_to_phys (pages (kslot (rk s)) ! slot_index (kslot (rk s)) a) OR (b AND 0xfff))
           else ept_translate (kept (rk s)) (pmem (rw s)) b)) \<or> r \<in> {- EFAULT, - ENOMEM}"
    using violation_maps [OF ok, of a "n_ept_violations (rv s7)"] by blast
  let ?s8 = "s7\<lparr>rk := (rk s)\<lparr>kept := e\<rparr>, rw := (rw s7)\<lparr>pmem := n\<rparr>, rv := (rv s7)\<lparr>n_ept_violations := x\<rparr>\<rparr>"
  have inl: "unat a div 4096 \<in> lacking s" using a by (auto simp: lacking_def)
  then have pos: "0 < card (lacking s)" using lacking_finite(1) card_gt_0_iff by blast
  have r3: "room (3 + 3 * (card (lacking s) - 1)) (kept (rk s)) (pmem (rw s))"
  proof -
    have "3 + 3 * (card (lacking s) - 1) = 3 * card (lacking s)" using pos by simp
    then show ?thesis using c by (simp only: cfg_def)
  qed
  have sl: "in_slot (kslot (rk s)) (page_base a)" using c slot2M_in a(1) by (simp add: cfg_def)
  have r0: "r = 0" "room (3 * (card (lacking s) - 1)) e n" using violation_room [OF h(1) r3 root sl] by simp_all
  then have tr0: "ept_translate e n b = None \<longleftrightarrow> \<not> same_page b a \<and> ept_translate (kept (rk s)) (pmem (rw s)) b = None" for b using tr by auto
  have lk: "lacking ?s8 = lacking s - {unat a div 4096}"
    unfolding lacking_def using touched_page [OF _ a(1)] by (auto simp: tr0)
  then have card: "card (lacking ?s8) = card (lacking s) - 1" using inl lacking_finite(1) by simp
  have "kept_by p w0 oth v0 True ?s8"
    using s7(2,5) h(2) by (simp add: kept_by_def run_ok_def launch_ok_def serial_ok_def)
  moreover have "runs_guest (vfield (regions (rw s7) p)) e"
    using s7(3,5) violation_eptp [OF h(1)] by (simp add: runs_guest_def)
  ultimately have "cfg p w0 oth v0 ?s8 (g_mem g1) g1"
    using s7 c r0(2) by (simp add: cfg_def card)
  moreover have "dispatch 48 s7 = Inr (Again ?s8)"
    using h(1) r0(1) s7 by (simp add: dispatch_def exit_ept_def handle_ept_violation_def rd_ready [OF kept_ready [OF s7(2)]])
  ultimately show ?thesis using s7 pos card by (auto simp: captured_def)
qed

lemma low_8: "(ucast ((ucast (x :: u64) :: u32) AND 0xff) :: u8) = ucast x"
proof -
  have m: "(0xff :: u32) = mask 8" by (simp add: mask_eq_exp_minus_1)
  show ?thesis unfolding m by (rule bit_word_eqI) (simp add: bit_simps)
qed

lemma out_turn:
  assumes c: "cfg p w0 oth v0 s m g" and L: "layout_ok L" and ch: "ucast (g_rax g1) = ch"
  shows "\<exists>s1. run_turn (turn_event p s g1 (info L 0 g1 30 [(EXIT_QUALIFICATION, push_bit 16 (ucast (0x3f8 :: u16)))])) s = Inr (Again s1) \<and>
    cfg p w0 oth v0 s1 (g_mem g1) (g1\<lparr>g_rip := g_rip g1 + of_nat (instr_len L (g_rip g1))\<rparr>) \<and>
    lacking s1 = lacking s \<and> captured (rk s1) = take (SERIAL_SIZE - 1) (captured (rk s) @ [ch]) \<and> pending_intr_info (rv s1) = 0"
proof -
  let ?e = "turn_event p s g1 (info L 0 g1 30 [(EXIT_QUALIFICATION, push_bit 16 (ucast (0x3f8 :: u16)))])"
  let ?len = "of_nat (instr_len L (g_rip g1))"
  obtain s7 where s7: "run_turn ?e s = dispatch (ucast (30 :: u64)) s7"
    "kept_by p w0 oth v0 True s7" "runs_guest (vfield (regions (rw s7) p)) (kept (rk s7))"
    "guest_of (vfield (regions (rw s7) p)) (regs (rv s7)) (g_mem g1) = g1"
    "rk s7 = rk s" "pmem (rw s7) = pmem (rw s)" "pending_intr_info (rv s7) = vectored (take_bit 32 0)"
    "vfield (regions (rw s7) p) EXIT_QUALIFICATION = 0x3f80000" "vfield (regions (rw s7) p) VM_EXIT_INSTRUCTION_LEN = ?len"
    by (rule info_turn [OF c L, of "30" "[(EXIT_QUALIFICATION, 0x3f80000)]" g1 "0"]) simp_all
  let ?t = "local_irq True s7"
  have rdy: "vmx_ready (rw ?t) p" using kept_ready [OF s7(2)] by simp
  have "serial_ok (rk ?t)" using s7(2) by (simp add: kept_by_def run_ok_def)
  from serial_out_ok [OF this, of ch] obtain k l where o: "mini_serial_out ch ?t = Inr (?t\<lparr>rk := k, klog := l\<rparr>)" "serial_ok k"
    "kept k = kept (rk s)" "kslot k = kslot (rk s)" "captured k = take (SERIAL_SIZE - 1) (captured (rk s) @ [ch])"
    using s7(5) by auto
  let ?t1 = "?t\<lparr>rk := k, klog := l\<rparr>"
  have rdy1: "vmx_ready (rw ?t1) p" using rdy by simp
  have rax: "regs (rv s7) ! 0 = g_rax g1" and rip: "vfield (regions (rw s7) p) GUEST_RIP = g_rip g1"
    using arg_cong [OF s7(4), of g_rax] arg_cong [OF s7(4), of g_rip] by (simp_all add: guest_of_def)
  let ?t2 = "upd_v (\<lambda>v. v\<lparr>n_io_exits := n_io_exits v + 1\<rparr>) (put_fields p [(GUEST_RIP, g_rip g1 + ?len)] ?t1)"
  have adv: "io_advance ?t1 = Inr (0, ?t2)"
    using s7(9) rip by (simp add: io_advance_def rd_ready [OF rdy1] wr_ready [OF rdy1])
  have "mini_handle_io_exit ?t = Inr (0, ?t2)"
    using s7(8) rax o(1) adv by (simp add: mini_handle_io_exit_def rd_ready [OF rdy] low_8 ch)
  then have d: "dispatch 30 s7 = Inr (Again (local_irq False ?t2))"
    by (simp add: dispatch_def exit_io_def)
  have lk: "lacking ?t2 = lacking s" using o s7 by (simp add: lacking_def) (simp add: local_irq_def)
  have "kept_by p w0 oth v0 True ?t1"
    using s7(2,5) o by (simp add: kept_by_def run_ok_def launch_ok_def) (simp add: local_irq_def)
  then have "kept_by p w0 oth v0 True ?t2" by simp
  moreover have "guest_of (store_fields [(GUEST_RIP, x)] f) r n = (guest_of f r n)\<lparr>g_rip := x\<rparr>" for x f r n
    by (simp add: guest_of_def field_trunc_def)
  moreover have "runs_guest (store_fields [(GUEST_RIP, x)] f) e = runs_guest f e" for x f e by (simp add: runs_guest_def)
  ultimately have "cfg p w0 oth v0 ?t2 (g_mem g1) (g1\<lparr>g_rip := g_rip g1 + ?len\<rparr>)"
    using s7 c o lk by (simp add: cfg_def del: store_fields.simps) (simp add: local_irq_def)
  moreover have "pending_intr_info (rv ?t2) = 0" using s7(7) by (simp add: vectored_def)
  ultimately show ?thesis using s7(1) d lk o(5) by simp
qed

section \<open>Until the guest stops\<close>

text \<open>With every page mapped, the guest would stop with \<open>st\<close> in the state \<open>g1\<close>, after taking the interrupt \<open>i\<close> if there is one.\<close>

definition will :: "layout \<Rightarrow> nat \<Rightarrow> u32 \<Rightarrow> g64 \<Rightarrow> stop \<Rightarrow> g64 \<Rightarrow> bool" where
  "will L n i g st g1 \<longleftrightarrow> i \<in> {0, 0x80000021} \<and>
     (\<exists>gd. start64 touched (ucast i) (takes i g) = Ok gd \<and> run64 L touched n gd = Some (st, g1))"

lemma run64_det: "run64 L mp j g = Some r \<Longrightarrow> run64 L mp n g = Some r' \<Longrightarrow> r = r'"
  using run64_more [of L mp j g r n] run64_more [of L mp n g r' j] by (simp add: add.commute)

lemma lags_start: "lags mp0 mp (start64 mp0 i g) (start64 mp i g)"
  by (simp add: start64_def lag)

definition stop_info :: "layout \<Rightarrow> stop \<Rightarrow> g64 \<Rightarrow> (u32 \<times> u64) list" where
  "stop_info L st g = the (exit_info L 0 g (Some st))"

lemma will_now: "run64 L touched n g = Some (st, g1) \<Longrightarrow> will L n 0 g st g1"
  by (simp add: will_def start64_def)

text \<open>
  A turn either brings that stop to the loop, or the loop goes on: after a violation, with fewer pages to miss, or after an
  interrupt of the host.
\<close>

lemma turn_next:
  assumes c: "cfg p w0 oth v0 s m g" and L: "layout_ok L" and w: "will L n (pending_intr_info (rv s)) g st g1"
    and st: "\<And>a. st \<noteq> StopViol a" "st \<noteq> StopBad"
  shows "\<exists>e m1. next_exit L n ci s m = Some (e, m1) \<and>
    (e = turn_event p s g1 (stop_info L st g1) \<and> m1 = g_mem g1 \<or>
     (\<exists>s1 g2. run_turn e s = Inr (Again s1) \<and> cfg p w0 oth v0 s1 m1 g2 \<and> will L n (pending_intr_info (rv s1)) g2 st g1 \<and>
        captured (rk s1) = captured (rk s) \<and>
        (card (lacking s1) < card (lacking s) \<or> ci \<noteq> None \<and> lacking s1 = lacking s)))"
proof -
  let ?i = "pending_intr_info (rv s)" and ?mp = "mapped s"
  obtain gd where gd: "start64 touched (ucast ?i) (takes ?i g) = Ok gd" "run64 L touched n gd = Some (st, g1)"
    and i: "?i \<in> {0, 0x80000021}"
    using w by (auto simp: will_def)
  have v0: "vectored 0 = 0" by (simp add: vectored_def)
  have stop: "exit_info L 0 g1 (Some st) = Some (stop_info L st g1)"
    using st by (cases st) (simp_all add: stop_info_def)
  have viol: "\<exists>s1. run_turn (turn_event p s h (info L v h 48 [(GUEST_PHYSICAL_ADDRESS, a)])) s = Inr (Again s1) \<and>
      cfg p w0 oth v0 s1 (g_mem h) h \<and> will L n (pending_intr_info (rv s1)) h st g1 \<and> captured (rk s1) = captured (rk s) \<and>
      card (lacking s1) < card (lacking s)"
    if "touched a" "\<not> ?mp a" "will L n (vectored (take_bit 32 v)) h st g1" for a v h
    using viol_turn [OF c L that(1,2), of h v] that(3) by metis
  from lags_start [of touched ?mp "ucast ?i" "takes ?i g"] gd(1)
  consider (go) "start64 ?mp (ucast ?i) (takes ?i g) = Ok gd"
    | (miss) a where "start64 ?mp (ucast ?i) (takes ?i g) = Viol a" "touched a" "\<not> ?mp a"
    unfolding lags_def by auto
  then show ?thesis
  proof cases
    case miss
    then have "?i = 0x80000021" using i by (auto simp: start64_def)
    then have "will L n (vectored (take_bit 32 (ucast ?i))) (takes ?i g) st g1"
      using w by (simp add: will_def vectored_def)
    from viol [OF miss(2,3) this] show ?thesis
      using miss(1) by (simp add: next_exit_eq [OF c] Let_def) blast
  next
    case go
    have out: "next_exit L n ci s m = Option.bind (guest_run L ?mp n ci gd)
        (\<lambda>(st, g2). map_option (\<lambda>fs. (turn_event p s g2 fs, g_mem g2)) (exit_info L 0 g2 st))"
      using go by (simp add: next_exit_eq [OF c] Let_def)
    have final: ?thesis if "guest_run L ?mp n ci gd = Some (Some st, g1)"
      using that stop by (simp add: out)
    have miss: ?thesis if "guest_run L ?mp n ci gd = Some (Some (StopViol a), g2)" "touched a" "\<not> ?mp a"
        "run64 L touched n g2 = Some (st, g1)" for a g2
    proof -
      have "will L n (vectored (take_bit 32 0)) g2 st g1" using will_now [OF that(4)] by (simp add: v0)
      from viol [OF that(2,3) this] that(1) show ?thesis by (simp add: out) blast
    qed
    from run_lags [OF gd(2) st(1), of ?mp]
    consider (same) "run64 L ?mp n gd = Some (st, g1)"
      | (page) a g2 where "run64 L ?mp n gd = Some (StopViol a, g2)" "touched a" "\<not> ?mp a" "run64 L touched n g2 = Some (st, g1)"
      by blast
    note cases = this
    show ?thesis
    proof (cases ci)
      case None
      from cases show ?thesis
      proof cases
        case same
        then show ?thesis by (intro final) (simp add: None guest_run_def)
      next
        case page
        then show ?thesis using miss [of a g2] by (simp add: None guest_run_def)
      qed
    next
      case (Some j)
      show ?thesis
      proof (cases "run64 L ?mp j gd")
        case no: None
        let ?h = "go64 L ?mp j gd"
        have "next_exit L n ci s m = Some (turn_event p s ?h (info L 0 ?h 1 []), g_mem ?h)"
          unfolding out using no by (simp add: Some guest_run_def)
        moreover have "will L n 0 ?h st g1" by (rule will_now [OF run64_cut [OF gd(2) st(1) no]])
        ultimately show ?thesis using int_turn [OF c L, of ?h] Some by fastforce
      next
        case r: (Some r)
        from cases show ?thesis
        proof cases
          case same
          then show ?thesis using run64_det [OF r same] r by (intro final) (simp add: Some guest_run_def)
        next
          case page
          then show ?thesis using run64_det [OF r page(1)] r miss [of a g2] by (simp add: Some guest_run_def)
        qed
      qed
    qed
  qed
qed

section \<open>A whole run\<close>

text \<open>
  Whatever interrupts of the host arrive, once the loop has made \<open>N\<close> turns without one, it has returned and \<open>Q\<close> holds.
\<close>

definition ends :: "layout \<Rightarrow> nat \<Rightarrow> nat \<Rightarrow> rs \<Rightarrow> cbuf \<Rightarrow> (int \<Rightarrow> rs \<Rightarrow> cbuf \<Rightarrow> bool) \<Rightarrow> bool" where
  "ends L n N s m Q \<longleftrightarrow> (\<forall>cs. N \<le> count_list cs None \<longrightarrow>
     (\<exists>es m1 r s1. guest_exits L n cs s m = (es, m1) \<and> run_turns es s = Inr (Some r, s1) \<and> Q r s1 m1))"

lemma ends_turns:
  assumes "cfg p w0 oth v0 s m g" "layout_ok L" "will L n (pending_intr_info (rv s)) g st g1" "\<And>a. st \<noteq> StopViol a" "st \<noteq> StopBad"
    and stop: "\<And>s1 m1 g0. cfg p w0 oth v0 s1 m1 g0 \<Longrightarrow> card (lacking s1) \<le> card (lacking s) \<Longrightarrow> captured (rk s1) = captured (rk s) \<Longrightarrow>
      (\<exists>s2. run_turn (turn_event p s1 g1 (stop_info L st g1)) s1 = Inr (Again s2) \<and> ends L n (K + card (lacking s1)) s2 (g_mem g1) Q) \<or>
      (\<exists>r s2. run_turn (turn_event p s1 g1 (stop_info L st g1)) s1 = Inr (Leave r s2) \<and> Q r s2 (g_mem g1))"
  shows "ends L n (Suc (K + card (lacking s))) s m Q"
proof -
  have "\<exists>es m1 r s1. guest_exits L n cs t h = (es, m1) \<and> run_turns es t = Inr (Some r, s1) \<and> Q r s1 m1"
    if "Suc (K + card (lacking t)) \<le> count_list cs None" "cfg p w0 oth v0 t h g" "will L n (pending_intr_info (rv t)) g st g1"
      "captured (rk t) = captured (rk s)" "card (lacking t) \<le> card (lacking s)" for cs t h g
    using that
  proof (induction cs arbitrary: t h g)
    case (Cons ci cs)
    obtain e m1 where e: "next_exit L n ci t h = Some (e, m1)"
      and t: "e = turn_event p t g1 (stop_info L st g1) \<and> m1 = g_mem g1 \<or>
        (\<exists>s1 g2. run_turn e t = Inr (Again s1) \<and> cfg p w0 oth v0 s1 m1 g2 \<and> will L n (pending_intr_info (rv s1)) g2 st g1 \<and>
        captured (rk s1) = captured (rk t) \<and>
        (card (lacking s1) < card (lacking t) \<or> ci \<noteq> None \<and> lacking s1 = lacking t))"
      using turn_next [OF Cons.prems(2) assms(2) Cons.prems(3) assms(4,5), of ci] by blast
    from t show ?case
    proof (elim disjE exE conjE)
      fix s1 g2
      assume s1: "run_turn e t = Inr (Again s1)" "cfg p w0 oth v0 s1 m1 g2" "will L n (pending_intr_info (rv s1)) g2 st g1"
        "captured (rk s1) = captured (rk t)"
      assume "card (lacking s1) < card (lacking t)"
      then have "Suc (K + card (lacking s1)) \<le> count_list cs None" "card (lacking s1) \<le> card (lacking s)"
        using Cons.prems(1,5) by (auto split: if_splits)
      from Cons.IH [OF this(1) s1(2,3) _ this(2)] s1(1,4) Cons.prems(4) e show ?thesis by (auto split: prod.splits)
    next
      fix s1 g2
      assume s1: "run_turn e t = Inr (Again s1)" "cfg p w0 oth v0 s1 m1 g2" "will L n (pending_intr_info (rv s1)) g2 st g1"
        "captured (rk s1) = captured (rk t)"
      assume "ci \<noteq> None" "lacking s1 = lacking t"
      then have "Suc (K + card (lacking s1)) \<le> count_list cs None" "card (lacking s1) \<le> card (lacking s)"
        using Cons.prems(1,5) by auto
      from Cons.IH [OF this(1) s1(2,3) _ this(2)] s1(1,4) Cons.prems(4) e show ?thesis by (auto split: prod.splits)
    next
      assume ev: "e = turn_event p t g1 (stop_info L st g1)" "m1 = g_mem g1"
      have "K + card (lacking t) \<le> count_list cs None" using Cons.prems(1) by (simp split: if_splits)
      with stop [OF Cons.prems(2,5,4)] ev e show ?thesis by (auto simp: ends_def split: prod.splits)
    qed
  qed simp
  with assms(1,3) show ?thesis by (auto simp: ends_def)
qed

section \<open>What the guest does in a run\<close>

text \<open>At the OUT of the character \<open>i\<close> of a message, with the stack that leads back to HLT.\<close>

definition printing :: "layout \<Rightarrow> lbl \<Rightarrow> nat \<Rightarrow> g64 \<Rightarrow> bool" where
  "printing L l i g \<longleftrightarrow> in_print L l i (if l = Msg then 0xffff0 else 0xfffc8) g \<and>
     (if l = Msg then settled L g \<and> mbytes (g_mem g) 0xffff8 8 = le_bytes 8 (ip_of L 13) \<and>
        (\<exists>sv :: u64. mbytes (g_mem g) 0xffff0 8 = le_bytes 8 sv)
      else handling L g)"

lemma printing_stops:
  "printing L l i g \<Longrightarrow> run64 L touched (Suc n) g = Some (StopOut 0x3f8 (text_of l ! i), g)"
  by (subst stop_at(2) [of L g 34]) (auto simp: printing_def in_print_def)

lemma printing_more:
  assumes p: "printing L l i g" and i: "Suc i < length (text_of l)"
  shows "\<exists>g'. runs_to L 4 (g\<lparr>g_rip := ip_of L 35\<rparr>) g' \<and> printing L l (Suc i) g'"
proof -
  let ?g = "g\<lparr>g_rip := ip_of L 34, g_shadow := False, g_rax := new_al (g_rax g) (text_of l ! Suc i),
    g_rsi := of_nat (0x1000 + (data_off L l + Suc (Suc i))), g_zf := False\<rparr>"
  have "in_print L l i (if l = Msg then 0xffff0 else 0xfffc8) g" using p by (simp add: printing_def)
  note r = print_more [OF this i]
  have "printing L l (Suc i) ?g"
    using p i by (cases "l = Msg") (simp_all add: printing_def in_print_def handling_def low_byte(2) [simplified] del: of_nat_add of_nat_Suc)
  with r show ?thesis by blast
qed

lemma printing_done:
  assumes p: "printing L l i g" and i: "Suc i = length (text_of l)"
  shows "\<exists>g'. runs_to L 7 (g\<lparr>g_rip := ip_of L 35\<rparr>) g' \<and> halted L g'"
proof (cases "l = Msg")
  case True
  then show ?thesis using p i hello_ends [of L g] by (auto simp: printing_def)
next
  case False
  then have l: "l = IrqMsg" using p by (simp add: printing_def in_print_def)
  then show ?thesis using p i handler_ends [of L g] by (auto simp: printing_def)
qed

text \<open>The run has returned with HLT, and the guest waits in its loop.\<close>

definition at_halt :: "layout \<Rightarrow> u64 \<Rightarrow> mk_world \<Rightarrow> u64 multiset \<Rightarrow> mini_vcpu \<Rightarrow> u8 list \<Rightarrow> int \<Rightarrow> rs \<Rightarrow> cbuf \<Rightarrow> bool" where
  "at_halt L p w0 oth v0 out r s m \<longleftrightarrow> r = 0 \<and> run_exit_reason (rv s) = KVM_EXIT_HLT \<and> captured (rk s) = out \<and>
     pending_intr_info (rv s) = 0 \<and> (\<exists>g. cfg p w0 oth v0 s m g \<and> halted L g)"

lemma runs_will:
  "runs_to L k g g' \<Longrightarrow> (\<And>x. run64 L touched (Suc x) g' = Some (st, g1)) \<Longrightarrow> k < n \<Longrightarrow> will L n 0 g st g1"
proof -
  assume a: "runs_to L k g g'" "\<And>x. run64 L touched (Suc x) g' = Some (st, g1)" "k < n"
  then have "run64 L touched (k + Suc (n - Suc k)) g = Some (st, g1)" by (simp only: runs_to_def)
  then show ?thesis using a(3) by (intro will_now) simp
qed

lemma halted_ends:
  assumes c: "cfg p w0 oth v0 s m g0" and w: "will L n (pending_intr_info (rv s)) g0 StopHlt g" and h: "halted L g"
  shows "ends L n (Suc (card (lacking s))) s m (at_halt L p w0 oth v0 (captured (rk s)))"
proof -
  have L: "layout_ok L" using h by (simp add: halted_def settled_def guest_ok_def)
  have i: "stop_info L StopHlt g = info L 0 g 12 []" by (simp add: stop_info_def)
  have "ends L n (Suc (0 + card (lacking s))) s m (at_halt L p w0 oth v0 (captured (rk s)))"
  proof (rule ends_turns [OF c L w])
    fix s1 m1 g1
    assume "cfg p w0 oth v0 s1 m1 g1" "captured (rk s1) = captured (rk s)"
    with hlt_exit [OF _ L, of p w0 oth v0 s1 m1 g1 g] h
    show "(\<exists>s2. run_turn (turn_event p s1 g (stop_info L StopHlt g)) s1 = Inr (Again s2) \<and>
          ends L n (0 + card (lacking s1)) s2 (g_mem g) (at_halt L p w0 oth v0 (captured (rk s)))) \<or>
        (\<exists>r s2. run_turn (turn_event p s1 g (stop_info L StopHlt g)) s1 = Inr (Leave r s2) \<and>
          at_halt L p w0 oth v0 (captured (rk s)) r s2 (g_mem g))"
      unfolding i at_halt_def by fastforce
  qed simp_all
  then show ?thesis by simp
qed

lemma print_ends:
  assumes "cfg p w0 oth v0 s m g0" "will L n (pending_intr_info (rv s)) g0 (StopOut 0x3f8 (text_of l ! i)) g" "printing L l i g"
    and n: "2850 \<le> n" and "length (captured (rk s)) + (length (text_of l) - i) < SERIAL_SIZE"
  shows "ends L n (Suc (length (text_of l) - i + card (lacking s))) s m
    (at_halt L p w0 oth v0 (captured (rk s) @ drop i (text_of l)))"
  using assms(1-3,5)
proof (induction "length (text_of l) - Suc i" arbitrary: i s m g0 g rule: less_induct)
  case less
  let ?out = "captured (rk s)" and ?K = "length (text_of l) - i"
  have g: "guest_ok L g" "l \<in> {Msg, IrqMsg}" "i < length (text_of l)" "g_rip g = ip_of L 34" "(ucast (g_rax g) :: u8) = text_of l ! i"
    using less.prems(3) by (auto simp: printing_def in_print_def)
  then have L: "layout_ok L" by (simp add: guest_ok_def)
  have inf: "stop_info L (StopOut 0x3f8 (text_of l ! i)) g = info L 0 g 30 [(EXIT_QUALIFICATION, push_bit 16 (ucast (0x3f8 :: u16)))]"
    by (simp add: stop_info_def)
  have rip: "g_rip g + of_nat (instr_len L (g_rip g)) = ip_of L 35"
    using instr_len_at [OF L, of 34] ip_next [of L 34] by (simp add: g(4))
  let ?g = "g\<lparr>g_rip := ip_of L 35\<rparr>" and ?Q = "at_halt L p w0 oth v0 (?out @ drop i (text_of l))"
  show ?case
  proof (rule ends_turns [OF less.prems(1) L less.prems(2)])
    fix s1 m1 g1
    assume c1: "cfg p w0 oth v0 s1 m1 g1" and o1: "captured (rk s1) = ?out"
    from out_turn [OF c1 L g(5)] rip obtain s2 where s2:
      "run_turn (turn_event p s1 g (info L 0 g 30 [(EXIT_QUALIFICATION, push_bit 16 (ucast (0x3f8 :: u16)))])) s1 = Inr (Again s2)"
      "cfg p w0 oth v0 s2 (g_mem g) ?g" "lacking s2 = lacking s1" "pending_intr_info (rv s2) = 0"
      "captured (rk s2) = take (SERIAL_SIZE - 1) (?out @ [text_of l ! i])"
      by (auto simp: o1)
    have o2: "captured (rk s2) = ?out @ [text_of l ! i]" using s2(5) less.prems(4) g(3) by simp
    have "ends L n (?K + card (lacking s1)) s2 (g_mem g) ?Q"
    proof (cases "Suc i < length (text_of l)")
      case True
      from printing_more [OF less.prems(3) True] obtain g' where g': "runs_to L 4 ?g g'" "printing L l (Suc i) g'" by blast
      have w: "will L n (pending_intr_info (rv s2)) ?g (StopOut 0x3f8 (text_of l ! Suc i)) g'"
        using runs_will [OF g'(1) printing_stops [OF g'(2)], of n] n by (simp add: s2(4))
      have "ends L n (Suc (length (text_of l) - Suc i + card (lacking s2))) s2 (g_mem g)
          (at_halt L p w0 oth v0 (captured (rk s2) @ drop (Suc i) (text_of l)))"
        by (rule less.hyps [OF _ s2(2) w g'(2)]) (use True less.prems(4) in \<open>simp_all add: o2\<close>)
      moreover have "?K = Suc (length (text_of l) - Suc i)" "?out @ drop i (text_of l) = captured (rk s2) @ drop (Suc i) (text_of l)"
        using g(3) by (simp_all add: o2 Cons_nth_drop_Suc)
      ultimately show ?thesis by (simp add: s2(3))
    next
      case False
      then have last: "Suc i = length (text_of l)" using g(3) by simp
      from printing_done [OF less.prems(3) last] obtain g' where g': "runs_to L 7 ?g g'" "halted L g'" by blast
      have w: "will L n (pending_intr_info (rv s2)) ?g StopHlt g'"
        using runs_will [OF g'(1) halted_stops [OF g'(2)], of n] n by (simp add: s2(4))
      have "?out @ drop i (text_of l) = captured (rk s2)" "?K = 1"
        using last Cons_nth_drop_Suc [OF g(3)] by (simp_all add: o2)
      then show ?thesis using halted_ends [OF s2(2) w g'(2)] by (simp add: s2(3))
    qed
    with s2(1) show "(\<exists>s2. run_turn (turn_event p s1 g (stop_info L (StopOut 0x3f8 (text_of l ! i)) g)) s1 = Inr (Again s2) \<and>
          ends L n (?K + card (lacking s1)) s2 (g_mem g) ?Q) \<or>
        (\<exists>r s2. run_turn (turn_event p s1 g (stop_info L (StopOut 0x3f8 (text_of l ! i)) g)) s1 = Inr (Leave r s2) \<and> ?Q r s2 (g_mem g))"
      unfolding inf by blast
  qed simp_all
qed

text \<open>The first run, from the entry point, and a run that starts with the interrupt pending.\<close>

lemma first_ends:
  assumes c: "cfg p w0 oth v0 s m g" and p0: "pending_intr_info (rv s) = 0" and o: "captured (rk s) = []"
    and g: "guest_ok L g" "g_rip g = ip_of L 0" "g_rsp g = 0x100000" "g_cs g = 8" and n: "2850 \<le> n"
  shows "ends L n 34 s m (at_halt L p w0 oth v0 msg_bytes)"
proof -
  obtain g' sv where g': "runs_to L 2849 g g'" "in_print L Msg 0 0xffff0 g'" "settled L g'"
    "mbytes (g_mem g') 0xffff8 8 = le_bytes 8 (ip_of L 13)" "mbytes (g_mem g') 0xffff0 8 = le_bytes 8 (sv :: u64)"
    using boot_runs [OF g] by blast
  then have pr: "printing L Msg 0 g'" by (auto simp: printing_def)
  have w: "will L n (pending_intr_info (rv s)) g (StopOut 0x3f8 (text_of Msg ! 0)) g'"
    using runs_will [OF g'(1) printing_stops [OF pr], of n] n by (simp add: p0)
  have "ends L n (Suc (27 + card (lacking s))) s m (at_halt L p w0 oth v0 msg_bytes)"
    using print_ends [OF c w pr n] by (simp add: o)
  then show ?thesis using lacking_finite(2) [of s] by (auto simp: ends_def)
qed

lemma irq_ends:
  assumes c: "cfg p w0 oth v0 s m g" and i: "pending_intr_info (rv s) = 0x80000021" and o: "length (captured (rk s)) < 400"
    and h: "halted L g" and n: "2850 \<le> n"
  shows "ends L n 26 s m (at_halt L p w0 oth v0 (captured (rk s) @ irqmsg_bytes))"
proof -
  let ?g = "takes 0x80000021 g"
  have hg: "halted L ?g" using h by (simp add: halted_def takes_def)
  obtain gd where gd: "deliver touched 0x21 ?g = Ok gd" using irq_delivered [OF hg] by blast
  obtain g' where g': "runs_to L 7 gd g'" "in_print L IrqMsg 0 0xfffc8 g'" "handling L g'" using handler_starts [OF hg gd] by blast
  then have pr: "printing L IrqMsg 0 g'" by (auto simp: printing_def)
  have st: "start64 touched (ucast (0x80000021 :: u32)) ?g = Ok gd"
  proof -
    have "(0x80000021 :: u8) = 0x21" by simp
    then have "deliver touched 0x80000021 ?g = Ok gd" using gd by metis
    then show ?thesis by (simp add: start64_def takes_def)
  qed
  have "run64 L touched n gd = Some (StopOut 0x3f8 (text_of IrqMsg ! 0), g')"
    using runs_will [OF g'(1) printing_stops [OF pr], of n] n by (simp add: will_def start64_def)
  then have w: "will L n (pending_intr_info (rv s)) g (StopOut 0x3f8 (text_of IrqMsg ! 0)) g'"
    using st by (simp add: will_def i del: text_of.simps)
  have "ends L n (Suc (19 + card (lacking s))) s m (at_halt L p w0 oth v0 (captured (rk s) @ irqmsg_bytes))"
    using print_ends [OF c w pr n] o by simp
  then show ?thesis using lacking_finite(2) [of s] by (auto simp: ends_def)
qed

section \<open>The guest under \<open>KVM_RUN\<close>\<close>

abbreviation run_start :: "rs \<Rightarrow> rs" where
  "run_start s \<equiv> (upd_v (\<lambda>v. v\<lparr>run_exit_reason := 0\<rparr>) s)\<lparr>rw := preempt_disable (rw s)\<rparr>"

definition kvm_run_exits :: "layout \<Rightarrow> nat \<Rightarrow> nat option list \<Rightarrow> rs \<Rightarrow> cbuf \<Rightarrow> exit_event list \<times> cbuf" where
  "kvm_run_exits L n cs s m =
     (case load_vmcs (run_start s) of
        Inl _ \<Rightarrow> ([], m)
      | Inr (r, t) \<Rightarrow> if r = 0 then guest_exits L n cs t m else ([], m))"

definition guest_at :: "rs \<Rightarrow> cbuf \<Rightarrow> g64 \<Rightarrow> bool" where
  "guest_at s m g \<longleftrightarrow> (let f = vfield (regions (rw s) (vmcs_phys (rv s))) in
     runs_guest f (kept (rk s)) \<and> slot2M (kslot (rk s)) \<and> room (3 * card (lacking s)) (kept (rk s)) (pmem (rw s)) \<and>
     guest_of f (regs (rv s)) m = g)"

lemma cfg_at: "cfg p w0 oth v0 s m g \<longleftrightarrow> kept_by p w0 oth v0 True s \<and> guest_at s m g"
  by (auto simp: cfg_def guest_at_def Let_def kept_by_def run_ok_def)

text \<open>Loading the VMCS leaves the guest alone.\<close>

lemma clear_frame:
  assumes "mini_vmcs_clear v w = Inr (v1, w1)"
  shows "pmem w1 = pmem w \<and> vfield (regions w1 p) = vfield (regions w p) \<and> vmcs_phys v1 = vmcs_phys v \<and> regs v1 = regs v \<and>
    pending_intr_info v1 = pending_intr_info v"
  using assms
  by (auto simp: mini_vmcs_clear_def Let_def smp_call_function_single_def mini_vmclear_ipi_def mini_vmclear_def in_operation_def
      rbind_eq_Inr preempt_disable_def preempt_enable_def upd_region_def upd_cpu_def split: option.splits if_splits)

lemma load_frame:
  assumes "load_vmcs s = Inr (0, t)" "vmx_ready (rw t) (vmcs_phys (rv s))"
  shows "rk t = rk s \<and> pmem (rw t) = pmem (rw s) \<and> vmcs_phys (rv t) = vmcs_phys (rv s) \<and> regs (rv t) = regs (rv s) \<and>
    pending_intr_info (rv t) = pending_intr_info (rv s) \<and>
    (\<exists>fxs. fst ` set fxs \<subseteq> {HOST_TR_BASE, HOST_GDTR_BASE, HOST_IA32_SYSENTER_ESP} \<and>
       vfield (regions (rw t) (vmcs_phys (rv s))) = store_fields fxs (vfield (regions (rw s) (vmcs_phys (rv s)))))"
proof (cases "loaded_cpu (rv s) = Some (cur_cpu (rw s))")
  case True
  then show ?thesis using assms(1) by (auto simp: load_vmcs_def intro: exI [of _ "[]"])
next
  case False
  let ?p = "vmcs_phys (rv s)"
  obtain v1 w1 r w2 i s3 w5 where c: "mini_vmcs_clear (rv s) (rw s) = Inr (v1, w1)" and l: "mini_vmptrld (vmcs_phys v1) w1 = Inr (r, w2)" "r = 0"
    and i: "mini_ept_invept_global (s\<lparr>rw := w2, rv := v1\<rparr>) = Inr (i, s3)"
    and x: "mini_vmx_fixup_host_for_cpu (rw s3) = Inr w5" and t: "t = (upd_v (\<lambda>v. v\<lparr>loaded_cpu := Some (cur_cpu (rw s3))\<rparr>) s3)\<lparr>rw := w5\<rparr>"
    using assms(1) False by (auto simp: load_vmcs_def Let_def rbind_eq_Inr split: if_splits)
  have w2: "pmem w2 = pmem w1" "vfield (regions w2 ?p) = vfield (regions w1 ?p)"
    using l by (auto simp: mini_vmptrld_def in_operation_def upd_region_def upd_cpu_def split: if_splits)
  have s3: "rw s3 = w2" "rv s3 = v1" "rk s3 = rk s"
    using i by (auto simp: mini_ept_invept_global_def mini_invept_def in_operation_def split: if_splits)
  note f = clear_frame [OF c, of ?p]
  have rdy: "vmx_ready w2 ?p"
    using l f by (auto simp: mini_vmptrld_def in_operation_def vmx_ready_def upd_region_def upd_cpu_def split: if_splits)
  have w5: "w5 = set_fields ?p (fixup_fields w2) w2" using x fixup_ready [OF rdy] s3 by simp
  show ?thesis using f w2 s3
    by (auto simp: t w5 upd_v_def fixup_fields_def intro!: exI [of _ "fixup_fields w2"])
qed

lemma next_exit_regs:
  assumes "kept_by p w0 oth v0 True s" "next_exit L n c s m = Some (e, m1)"
  shows "length (ev_regs e) = 16"
proof -
  have r: "length (regs (rv s)) = 16" using assms(1) by (simp add: kept_by_def run_ok_def)
  show ?thesis using assms(2) r
    unfolding next_exit_def entered_run [OF kept_ready [OF assms(1)]] sum.case Let_def
    by (auto simp: saved_regs_def bind_eq_Some_conv split: acc.splits if_splits)
qed

lemma guest_exits_regs:
  "kept_by p w0 oth v0 True s \<Longrightarrow> e \<in> set (fst (guest_exits L n cs s m)) \<Longrightarrow> length (ev_regs e) = 16"
proof (induction cs arbitrary: s m)
  case (Cons c cs)
  show ?case
  proof (cases "next_exit L n c s m")
    case None
    then show ?thesis using Cons.prems by simp
  next
    case (Some x)
    obtain e1 m1 where x: "x = (e1, m1)" by (cases x)
    have r: "length (ev_regs e1) = 16" using next_exit_regs [OF Cons.prems(1)] Some x by blast
    from turn_ok_all [OF Cons.prems(1) r] obtain t where t: "run_turn e1 s = Inr t" "turn_ok p w0 oth v0 t"
      by (auto simp: turn_spec_def)
    show ?thesis
    proof (cases t)
      case (Again s1)
      then have "kept_by p w0 oth v0 True s1" using t(2) by simp
      from Cons.IH [OF this, of m1] show ?thesis using Cons.prems(2) Some x t(1) Again r by (auto split: prod.splits)
    next
      case (Leave q s1)
      then show ?thesis using Cons.prems(2) Some x t(1) r by simp
    qed
  qed
qed simp

definition machine_ok :: "u64 multiset \<Rightarrow> rs \<Rightarrow> bool" where
  "machine_ok oth s \<longleftrightarrow> vcpu_ok oth s \<and> launch_ok s \<and> vmxon_done (this_cpu (rw s)) \<and> online (rw s) (cur_cpu (rw s))"

lemma run_ends:
  assumes ok: "machine_ok oth s" and g: "guest_at s m g"
    and E: "\<And>p w0 v0 t. cfg p w0 oth v0 t m g \<Longrightarrow> pending_intr_info (rv t) = pending_intr_info (rv s) \<Longrightarrow>
      captured (rk t) = captured (rk s) \<Longrightarrow> ends L n N t m (at_halt L p w0 oth v0 out)"
    and cs: "N \<le> count_list cs None"
  shows "\<exists>es m' s' g'. kvm_run_exits L n cs s m = (es, m') \<and> mini_vcpu_run_loop es s = Inr (Some 0, s') \<and>
    run_exit_reason (rv s') = KVM_EXIT_HLT \<and> captured (rk s') = out \<and> pending_intr_info (rv s') = 0 \<and>
    machine_ok oth s' \<and> guest_at s' m' g' \<and> halted L g'"
proof -
  have vc: "vcpu_ok oth s" and la: "launch_ok s" and on: "vmxon_done (this_cpu (rw s))" and onl: "online (rw s) (cur_cpu (rw s))"
    using ok by (simp_all add: machine_ok_def)
  let ?s2 = "run_start s" and ?p = "vmcs_phys (rv s)"
  have on2: "vmxon_done (this_cpu (rw ?s2))" using on by (simp add: preempt_disable_def)
  note ok2 = run_prologue [OF vc la]
  have sel: "vmcs_phys (rv ?s2) = ?p" "rk ?s2 = rk s" "pmem (rw ?s2) = pmem (rw s)" "regs (rv ?s2) = regs (rv s)"
    "pending_intr_info (rv ?s2) = pending_intr_info (rv s)" "regions (rw ?s2) = regions (rw s)"
    by (simp_all add: upd_v_def preempt_disable_def)
  obtain t where t: "load_vmcs ?s2 = Inr (0, t)" "kept_by ?p (rw t) oth (rv ?s2) True t"
    using load_ok [OF ok2 on2] unfolding sel by auto
  from load_frame [OF t(1)] kept_ready [OF t(2)] obtain fxs where f: "rk t = rk s" "pmem (rw t) = pmem (rw s)"
    "vmcs_phys (rv t) = ?p" "regs (rv t) = regs (rv s)" "pending_intr_info (rv t) = pending_intr_info (rv s)"
    and fx: "fst ` set fxs \<subseteq> {HOST_TR_BASE, HOST_GDTR_BASE, HOST_IA32_SYSENTER_ESP}"
      "vfield (regions (rw t) ?p) = store_fields fxs (vfield (regions (rw s) ?p))"
    unfolding sel by blast
  have o: "vfield (regions (rw t) ?p) a = vfield (regions (rw s) ?p) a" if "a \<notin> {HOST_TR_BASE, HOST_GDTR_BASE, HOST_IA32_SYSENTER_ESP}" for a
    unfolding fx(2) by (rule store_other) (use fx(1) that in blast)
  have "lacking t = lacking s" using f by (intro lacking_cong)
  then have gt: "guest_at t m g"
    using g f by (simp add: guest_at_def Let_def o runs_guest_def guest_of_def)
  then have ct: "cfg ?p (rw t) oth (rv ?s2) t m g" using t(2) by (simp add: cfg_at)
  have "ends L n N t m (at_halt L ?p (rw t) oth (rv ?s2) out)" by (rule E [OF ct]) (simp_all add: f)
  then obtain es m' r s4 where r: "guest_exits L n cs t m = (es, m')" "run_turns es t = Inr (Some r, s4)"
    "at_halt L ?p (rw t) oth (rv ?s2) out r s4 m'"
    using cs unfolding ends_def by blast
  have k: "kvm_run_exits L n cs s m = (es, m')" using t(1) r(1) by (simp add: kvm_run_exits_def)
  let ?out = "s4\<lparr>rw := preempt_enable (rw s4)\<rparr>"
  have r0: "r = 0" using r(3) by (simp add: at_halt_def)
  have run: "mini_vcpu_run_loop es s = Inr (Some 0, ?out)"
    using on2 t(1) r(2) r0 by (simp add: mini_vcpu_run_loop_def Let_def mini_cpu_in_vmx_operation_def run_out_def)
  have "\<forall>e \<in> set es. length (ev_regs e) = 16" using guest_exits_regs [OF t(2), of _ L n cs m] r(1) by simp
  from run_loop_ok [OF vc la on onl this] run
  have fin: "vcpu_ok oth ?out" "launch_ok ?out" "cur_cpu (rw ?out) = cur_cpu (rw s)" "online (rw ?out) = online (rw s)"
    "\<forall>c. vmxon_done (cpus (rw ?out) c) = vmxon_done (cpus (rw s) c)" "vmcs_phys (rv ?out) = ?p"
    by auto
  obtain g' where g': "cfg ?p (rw t) oth (rv ?s2) s4 m' g'" "halted L g'" using r(3) by (auto simp: at_halt_def)
  have "lacking ?out = lacking s4" by (rule lacking_cong) (simp_all add: preempt_enable_def)
  then have "guest_at ?out m' g'" using g'(1) by (simp add: cfg_at guest_at_def Let_def preempt_enable_def)
  then show ?thesis
    using k run r(3) g'(2) fin on onl by (auto simp: at_halt_def machine_ok_def)
qed

end
