(* ===== verification/MiniTest.thy ===== *)
theory MiniTest
  imports MiniEntry
begin

text \<open>
  \<open>test-mini-kvm.c\<close>: the program that loads the guest into a VM of the module, runs it, injects an interrupt and runs it again;
  with the guest and the module behind it, the program passes.
\<close>

section \<open>The test program\<close>

text \<open>\<open>test-mini-kvm.c\<close>: the program goes on, has called \<open>exit\<close>, or still waits in \<open>KVM_RUN\<close>.\<close>

datatype 'a prog = Go 'a | Exited int | Waiting

definition pbind :: "'a prog res \<Rightarrow> ('a \<Rightarrow> 'b prog res) \<Rightarrow> 'b prog res" where
  "pbind x f = rbind x (\<lambda>p. case p of Go v \<Rightarrow> f v | Exited c \<Rightarrow> Inr (Exited c) | Waiting \<Rightarrow> Inr Waiting)"

definition CHECK :: "bool \<Rightarrow> 'a prog res \<Rightarrow> 'a prog res" where
  "CHECK b k = (if b then k else Inr (Exited 1))"

text \<open>
  What the world answers: the descriptor of the device, the mappings, the image file, the answers to the \<open>k\<close>-th ioctl, and for each
  \<open>KVM_RUN\<close> when interrupts of the host arrive.
\<close>

record test_env =
  te_open :: int
  te_mmap :: bool
  te_addr :: u64
  te_image :: "u8 list option"
  te_remap :: int
  te_ans :: "nat \<Rightarrow> answers"
  te_cuts :: "nat option list list"

definition build_guest_pagetables :: "cbuf \<Rightarrow> cbuf" where
  "build_guest_pagetables m =
     mwrite 0x8000 (le_bytes 8 (0 OR 0x83 :: u64))
       (mwrite 0x7000 (le_bytes 8 (0x8000 OR 0x3 :: u64)) (mwrite 0x6000 (le_bytes 8 (0x7000 OR 0x3 :: u64)) m))"

definition load_guest_image :: "u8 list option \<Rightarrow> cbuf \<Rightarrow> (nat \<times> cbuf) prog res" where
  "load_guest_image file m =
     (case file of
        None \<Rightarrow> Inr (Exited 1)
      | Some bs \<Rightarrow>
          (let n = length (take 0x1000 bs); m1 = mwrite 0x1000 (take 0x1000 bs) m
           in CHECK (n > 0 \<and> n < 0x1000) (Inr (Go (n, m1)))))"

text \<open>\<open>ioctl(vcpu_fd, KVM_RUN)\<close>, with the guest whose memory is \<open>m\<close> behind it.\<close>

definition run_ioctl :: "layout \<Rightarrow> nat \<Rightarrow> answers \<Rightarrow> nat \<Rightarrow> nat option list \<Rightarrow> sys \<Rightarrow> cbuf \<Rightarrow> (int option \<times> sys \<times> cbuf) res" where
  "run_ioctl L n A c cs s m =
     with_vc c s (\<lambda>v a. with_vm a s (\<lambda>k.
       case kvm_run_exits L n cs \<lparr>rw = sw s, rk = k, rv = v, klog = slog s, invepts = sinvepts s\<rparr> m of (es, m1) \<Rightarrow>
         rbind (mini_vcpu_ioctl (A\<lparr>a_exits := es\<rparr>) c KVM_RUN 0 s) (\<lambda>(r, s1). Inr (r, s1, if a_killed A then m else m1))))"

definition exit_reason_of :: "nat \<Rightarrow> sys \<Rightarrow> u32" where
  "exit_reason_of c s = (case vch s c of Some (v, a) \<Rightarrow> run_exit_reason v | None \<Rightarrow> 0)"

fun run_until_exit ::
  "layout \<Rightarrow> nat \<Rightarrow> answers \<Rightarrow> nat \<Rightarrow> nat option list list \<Rightarrow> sys \<Rightarrow> cbuf \<Rightarrow> (nat option list list \<times> sys \<times> cbuf) prog res" where
  "run_until_exit L n A c [] s m = Inr Waiting"
| "run_until_exit L n A c (cs # css) s m =
     rbind (run_ioctl L n A c cs s m) (\<lambda>(r, s1, m1).
       case r of
         None \<Rightarrow> Inr Waiting
       | Some r \<Rightarrow>
           if r \<noteq> 0 then Inr (Exited 1)
           else if exit_reason_of c s1 \<noteq> 0 then Inr (Go (css, s1, m1))
           else run_until_exit L n A c css s1 m1)"

fun strstr :: "u8 list \<Rightarrow> u8 list \<Rightarrow> bool" where
  "strstr [] e = (e = [])"
| "strstr (x # xs) e = (take (length e) (x # xs) = e \<or> strstr xs e)"

text \<open>The buffer is read as a C string; it is also what the program prints.\<close>

definition check_serial :: "answers \<Rightarrow> nat \<Rightarrow> u8 list \<Rightarrow> sys \<Rightarrow> u8 list prog res" where
  "check_serial A a expect s =
     rbind (mini_vm_ioctl A a MINI_KVM_VM_GET_SERIAL 0 s) (\<lambda>(r, buf, s1).
       CHECK (r = 0) (let str = takeWhile (\<lambda>b. b \<noteq> 0) buf in CHECK (strstr str expect) (Inr (Go str))))"

text \<open>From the open descriptor to the mapped \<open>kvm_run\<close>: the VM, its memory with the image and the tables, the virtual CPU.\<close>

definition test_setup :: "test_env \<Rightarrow> sys \<Rightarrow> (sys \<times> cbuf) prog res" where
  "test_setup E s =
     CHECK (te_open E \<ge> 0) (
     rbind (mini_kvm_dev_ioctl (te_ans E 0) KVM_GET_API_VERSION 0 s) (\<lambda>(r, s).
     CHECK (r = 12) (
     rbind (mini_kvm_dev_ioctl (te_ans E 1) KVM_CHECK_EXTENSION 3 s) (\<lambda>(r, s).
     CHECK (r = 1) (
     let a = vm_next s in
     rbind (mini_kvm_dev_ioctl (te_ans E 2) KVM_CREATE_VM 0 s) (\<lambda>(r, s).
     CHECK (r \<ge> 0) (
     CHECK (te_mmap E) (
     let m = \<lparr>bsize = 0x200000, bdata = \<lambda>_. 0\<rparr>;
         rg = \<lparr>rg_slot = 0, rg_flags = 0, rg_gpa = 0, rg_size = 0x200000, rg_uaddr = te_addr E\<rparr> in
     rbind (mini_vm_ioctl ((te_ans E 3)\<lparr>a_region := rg\<rparr>) a KVM_SET_USER_MEMORY_REGION 0 s) (\<lambda>(r, _, s).
     CHECK (r = 0) (
     pbind (load_guest_image (te_image E) m) (\<lambda>(_, m).
     let m = build_guest_pagetables m; c = vc_next s in
     rbind (mini_vm_ioctl (te_ans E 4) a KVM_CREATE_VCPU 0 s) (\<lambda>(r, _, s).
     CHECK (r \<ge> 0) (
     rbind (mini_kvm_dev_ioctl (te_ans E 5) KVM_GET_VCPU_MMAP_SIZE 0 s) (\<lambda>(size, s).
     CHECK (size > 0) (
     rbind (mini_vcpu_mmap c 0 (word_of_int size) (te_remap E) s) (\<lambda>(r, _).
     CHECK (r = 0) (Inr (Go (s, m)))))))))))))))))))"

definition test_runs :: "layout \<Rightarrow> nat \<Rightarrow> test_env \<Rightarrow> nat \<Rightarrow> nat \<Rightarrow> sys \<Rightarrow> cbuf \<Rightarrow> (u8 list list \<times> sys) prog res" where
  "test_runs L n E a c s m =
     pbind (run_until_exit L n (te_ans E 6) c (te_cuts E) s m) (\<lambda>(css, s, m).
     CHECK (exit_reason_of c s = KVM_EXIT_HLT) (
     pbind (check_serial (te_ans E 7) a (ascii ''Hello from Mini-KVM Guest!'') s) (\<lambda>out1.
     rbind (mini_vcpu_ioctl ((te_ans E 8)\<lparr>a_vector := 0x21\<rparr>) c MINI_KVM_VCPU_INJECT_IRQ 0 s) (\<lambda>(r, s).
     CHECK (r = Some 0) (
     pbind (run_until_exit L n (te_ans E 9) c css s m) (\<lambda>(_, s, m).
     CHECK (exit_reason_of c s = KVM_EXIT_HLT) (
     pbind (check_serial (te_ans E 10) a (ascii ''[IRQ 0x21 handled]'') s) (\<lambda>out2.
     Inr (Go ([out1, out2], s))))))))))"

text \<open>At the end the files are closed, the virtual CPU before the VM.\<close>

definition test_main :: "layout \<Rightarrow> nat \<Rightarrow> test_env \<Rightarrow> sys \<Rightarrow> (u8 list list \<times> sys) prog res" where
  "test_main L n E s =
     (let a = vm_next s; c = vc_next s in
      pbind (test_setup E s) (\<lambda>(s, m).
      pbind (test_runs L n E a c s m) (\<lambda>(out, s).
      rbind (sys_call (te_ans E 11) (Release (VcpuFile c)) s) (\<lambda>s.
      rbind (sys_call (te_ans E 12) (Release (VmFile a)) s) (\<lambda>s.
      Inr (Go (out, s)))))))"

section \<open>The two runs of the test\<close>

abbreviation vrs :: "sys \<Rightarrow> mini_kvm \<Rightarrow> mini_vcpu \<Rightarrow> rs" where
  "vrs s k v \<equiv> \<lparr>rw = sw s, rk = k, rv = v, klog = slog s, invepts = sinvepts s\<rparr>"

text \<open>Every call is served.\<close>

definition served :: "answers \<Rightarrow> bool" where
  "served A \<longleftrightarrow> a_kzalloc A \<and> a_kvcalloc A \<and> a_copy A \<and> \<not> a_killed A \<and> 0 \<le> a_fd A \<and> 0 \<le> a_pin_err A \<and>
     length (a_pins A) = 512 \<and> (\<forall>p \<in> set (a_pins A). pfn_ok p)"

definition after_run :: "nat \<Rightarrow> nat \<Rightarrow> rs \<Rightarrow> sys \<Rightarrow> sys" where
  "after_run c a t s = set_vm a (rk t) (set_vc c (rv t) a (s\<lparr>sw := rw t, slog := klog t, sinvepts := invepts t\<rparr>))"

lemma after_run_sel [simp]:
  "vch (after_run c a t s) = (vch s)(c \<mapsto> (rv t, a))" "vmh (after_run c a t s) = (vmh s)(a \<mapsto> rk t)"
  "vrs (after_run c a t s) (rk t) (rv t) = t" "ofiles (after_run c a t s) = ofiles s" "sw (after_run c a t s) = rw t"
  by (simp_all add: after_run_def set_vm_def set_vc_def)

lemma run_until:
  assumes "vch s c = Some (v, a)" "vmh s a = Some k" "\<not> a_killed A"
    and "kvm_run_exits L n cs (vrs s k v) m = (es, m')" "mini_vcpu_run_loop es (vrs s k v) = Inr (Some 0, t)"
    and "run_exit_reason (rv t) = KVM_EXIT_HLT"
  shows "run_until_exit L n A c (cs # css) s m = Inr (Go (css, after_run c a t s, m'))"
    "exit_reason_of c (after_run c a t s) = KVM_EXIT_HLT"
    "sys_ok B P s \<Longrightarrow> VcpuFile c \<in> set (ofiles s) \<Longrightarrow> sys_ok B P (after_run c a t s)"
proof -
  have i: "mini_vcpu_ioctl (A\<lparr>a_exits := es\<rparr>) c KVM_RUN 0 s = Inr (Some 0, after_run c a t s)"
    using assms(1-3,5) by (simp add: with_vc_def with_vm_def mini_vcpu_ioctl_def vcpu_run_def after_run_def)
  then have "run_ioctl L n A c cs s m = Inr (Some 0, after_run c a t s, m')"
    using assms(1-5) by (simp add: run_ioctl_def with_vc_def with_vm_def)
  moreover show "sys_ok B P s \<Longrightarrow> VcpuFile c \<in> set (ofiles s) \<Longrightarrow> sys_ok B P (after_run c a t s)"
    using vcpu_ioctl_ok [of B P s c "A\<lparr>a_exits := es\<rparr>" KVM_RUN 0] i by simp
  moreover show "exit_reason_of c (after_run c a t s) = KVM_EXIT_HLT" using assms(6) by (simp add: exit_reason_of_def)
  ultimately show "run_until_exit L n A c (cs # css) s m = Inr (Go (css, after_run c a t s, m'))" by simp
qed

lemma takeWhile_zeros: "0 \<notin> set out \<Longrightarrow> takeWhile (\<lambda>b. b \<noteq> 0) (out @ replicate j 0) = out"
  by (induction out) (auto simp: takeWhile_replicate)

lemma serial_checked:
  assumes "vmh s a = Some k" "a_copy A" "serial_ok k" "captured k = out" "length out < 256" "0 \<notin> set out" "strstr out e"
  shows "check_serial A a e s = Inr (Go out)"
proof -
  have len: "serial_len k = length out" "take (length out) (kserial k) = out"
    using assms(3,4) by (auto simp: serial_ok_def captured_def)
  have "get_serial k = out @ replicate (256 - length out) 0"
    using len assms(5) by (simp add: get_serial_def Let_def)
  then show ?thesis
    using assms by (simp add: check_serial_def mini_vm_ioctl_def with_vm_def CHECK_def takeWhile_zeros Let_def)
qed

lemma texts_found:
  "strstr msg_bytes (ascii ''Hello from Mini-KVM Guest!'')" "strstr (msg_bytes @ irqmsg_bytes) (ascii ''[IRQ 0x21 handled]'')"
  "0 \<notin> set msg_bytes" "0 \<notin> set (msg_bytes @ irqmsg_bytes)"
proof -
  show "strstr msg_bytes (ascii ''Hello from Mini-KVM Guest!'')" "strstr (msg_bytes @ irqmsg_bytes) (ascii ''[IRQ 0x21 handled]'')"
    by code_simp+
  show "0 \<notin> set msg_bytes" "0 \<notin> set (msg_bytes @ irqmsg_bytes)"
    using text_nonzero [of 0 Msg] text_nonzero [of 0 IrqMsg] by auto
qed

lemma pending_at:
  fixes i :: u32
  assumes "machine_ok oth t" "guest_at t m g"
  defines "t' \<equiv> upd_v (\<lambda>v. v\<lparr>pending_intr_info := i\<rparr>) t"
  shows "machine_ok oth t'" "guest_at t' m g" "captured (rk t') = captured (rk t)" "pending_intr_info (rv t') = i"
  using assms(1,2) by (simp_all add: t'_def machine_ok_def vcpu_ok_def guest_at_def)

lemma runs_pass:
  assumes c: "vch s c = Some (v, a)" "vmh s a = Some k" and ans: "\<And>i. served (te_ans E i)"
    and ok: "machine_ok oth (vrs s k v)" and g: "guest_at (vrs s k v) m g" and new: "pending_intr_info v = 0" "captured k = []"
    and boot: "guest_ok L g" "g_rip g = ip_of L 0" "g_rsp g = 0x100000" "g_cs g = 8" and n: "2850 \<le> n"
    and files: "sys_ok B P s" "VcpuFile c \<in> set (ofiles s)"
    and cuts: "te_cuts E = cs1 # cs2 # css" "34 \<le> count_list cs1 None" "26 \<le> count_list cs2 None"
  shows "\<exists>t k v. test_runs L n E a c s m = Inr (Go ([msg_bytes, msg_bytes @ irqmsg_bytes], t)) \<and> vch t c = Some (v, a) \<and> vmh t a = Some k \<and>
    machine_ok oth (vrs t k v) \<and> ofiles t = ofiles s \<and> sys_ok B P t"
proof -
  have A: "\<not> a_killed (te_ans E i)" "a_copy (te_ans E i)" for i using ans [of i] by (simp_all add: served_def)
  have "ends L n 34 t m (at_halt L p w0 oth v0 msg_bytes)"
    if "cfg p w0 oth v0 t m g" "pending_intr_info (rv t) = pending_intr_info v" "captured (rk t) = captured k" for p w0 v0 t
    using first_ends [OF that(1) _ _ boot n] that new by simp
  from run_ends [OF ok g _ cuts(2), of L n msg_bytes] this obtain es1 m1 t1 g1 where
    r1: "kvm_run_exits L n cs1 (vrs s k v) m = (es1, m1)" "mini_vcpu_run_loop es1 (vrs s k v) = Inr (Some 0, t1)"
      "run_exit_reason (rv t1) = KVM_EXIT_HLT" "captured (rk t1) = msg_bytes" "pending_intr_info (rv t1) = 0"
      "machine_ok oth t1" "guest_at t1 m1 g1" "halted L g1" by auto
  let ?s1 = "after_run c a t1 s"
  note u1 = run_until [OF c A(1) r1(1-3)]
  have ser1: "serial_ok (rk t1)" using r1(6) by (simp add: machine_ok_def vcpu_ok_def)
  have c1: "check_serial (te_ans E 7) a (ascii ''Hello from Mini-KVM Guest!'') ?s1 = Inr (Go msg_bytes)"
    by (rule serial_checked [OF _ A(2) ser1 r1(4)]) (use texts_found in simp_all)
  let ?v = "(rv t1)\<lparr>pending_intr_info := 0x80000021\<rparr>" let ?t1 = "upd_v (\<lambda>v. v\<lparr>pending_intr_info := 0x80000021\<rparr>) t1"
  let ?s2 = "set_vc c ?v a ?s1"
  have inj: "mini_vcpu_ioctl ((te_ans E 8)\<lparr>a_vector := 0x21\<rparr>) c MINI_KVM_VCPU_INJECT_IRQ 0 ?s1 = Inr (Some 0, ?s2)"
    using A [of 8] r1(5) by (simp add: mini_vcpu_ioctl_def with_vc_def mini_vcpu_inject_irq_def)
  have s2: "vch ?s2 c = Some (?v, a)" "vmh ?s2 a = Some (rk t1)" "vrs ?s2 (rk t1) ?v = ?t1" "ofiles ?s2 = ofiles s"
    by (simp_all add: set_vc_def upd_v_def) (simp_all add: after_run_def set_vm_def set_vc_def)
  have ok1: "sys_ok B P ?s1" by (rule u1(3) [OF files])
  have "VcpuFile c \<in> set (ofiles ?s1)" using files(2) by simp
  from vcpu_ioctl_ok [OF ok1 this, of "(te_ans E 8)\<lparr>a_vector := 0x21\<rparr>" MINI_KVM_VCPU_INJECT_IRQ 0] inj
  have ok2: "sys_ok B P ?s2" by simp
  note p1 = pending_at [OF r1(6,7), of "0x80000021"]
  have "ends L n 26 t m1 (at_halt L p w0 oth v0 (msg_bytes @ irqmsg_bytes))"
    if "cfg p w0 oth v0 t m1 g1" "pending_intr_info (rv t) = pending_intr_info (rv ?t1)" "captured (rk t) = captured (rk ?t1)" for p w0 v0 t
    using irq_ends [OF that(1) _ _ r1(8) n] that r1(4) by simp
  from run_ends [OF p1(1,2) _ cuts(3), of L n "msg_bytes @ irqmsg_bytes"] this obtain es2 m2 t2 g2 where
    r2: "kvm_run_exits L n cs2 ?t1 m1 = (es2, m2)" "mini_vcpu_run_loop es2 ?t1 = Inr (Some 0, t2)"
      "run_exit_reason (rv t2) = KVM_EXIT_HLT" "captured (rk t2) = msg_bytes @ irqmsg_bytes" "machine_ok oth t2" by auto
  let ?s3 = "after_run c a t2 ?s2"
  note u2 = run_until [OF s2(1,2) A(1), unfolded s2(3), OF r2(1-3)]
  have ser2: "serial_ok (rk t2)" using r2(5) by (simp add: machine_ok_def vcpu_ok_def)
  have c2: "check_serial (te_ans E 10) a (ascii ''[IRQ 0x21 handled]'') ?s3 = Inr (Go (msg_bytes @ irqmsg_bytes))"
    by (rule serial_checked [OF _ A(2) ser2 r2(4)]) (use texts_found in simp_all)
  have "test_runs L n E a c s m = Inr (Go ([msg_bytes, msg_bytes @ irqmsg_bytes], ?s3))"
    unfolding test_runs_def cuts(1) u1(1) pbind_def rbind_Inr prog.case prod.case u1(2) c1 inj u2 c2 CHECK_def by simp
  moreover have "machine_ok oth (vrs ?s3 (rk t2) (rv t2))" unfolding after_run_sel(3) by (rule r2(5))
  moreover have "sys_ok B P ?s3" by (rule u2(3) [OF ok2]) (use files(2) s2(4) in simp)
  moreover have "vch ?s3 c = Some (rv t2, a)" "vmh ?s3 a = Some (rk t2)" "ofiles ?s3 = ofiles s" using s2(4) by simp_all
  ultimately show ?thesis by blast
qed

section \<open>The setup of the test\<close>

definition avails :: "nat \<Rightarrow> mk_mem \<Rightarrow> bool" where
  "avails j m \<longleftrightarrow> j \<le> length (avail_pages m) \<and> None \<notin> set (take j (avail_pages m))"

lemma avails_alloc:
  assumes "avails (Suc j) m"
  obtains p m1 where "alloc_page m = (Some p, m1)" "avails j m1" "set (avail_pages m1) \<subseteq> set (avail_pages m)" "Some p \<in> set (avail_pages m)"
  using assms by (cases "avail_pages m"; cases "hd (avail_pages m)") (auto simp: avails_def alloc_page_def)

lemma ept_ok_alloc:
  assumes e: "ept_ok others e m" and al: "alloc_page m = (Some p, m')"
  shows "ept_ok (add_mset p others) e m'"
proof -
  obtain own where i: "ept_inv own others e m" and fr: "fresh_pages m" using e by (auto simp: ept_ok_def)
  note a = alloc_fresh [OF fr al]
  have "own t = Some q \<Longrightarrow> t \<noteq> p" for t q using inv_dom_live [OF i] a(1) by blast
  then have "ept_inv own (add_mset p others) e m'"
    using i by (auto simp: ept_inv_def a(4,5))
  then show ?thesis using a(3) by (auto simp: ept_ok_def)
qed

text \<open>The machine: the module is loaded, the processor allows what it asks for, and there are pages.\<close>

definition test_machine :: "sys \<Rightarrow> bool" where
  "test_machine s \<longleftrightarrow> (let w = sw s in
     vmx_usable w \<and> irqs_on w \<and> vmxon_done (this_cpu w) \<and> online w (cur_cpu w) \<and>
     (\<forall>c. vmxon_done (cpus w c) \<longrightarrow> in_vmx (cpus w c)) \<and>
     (\<forall>c. vmcs_revision_id (glob w) = ucast (msr (cpus w c) MSR_VMX_BASIC AND 0x7fffffff)) \<and>
     (case mini_compute_controls w of (r, c) \<Rightarrow> r = 0 \<and> bit (pin_based c) 0 \<and> cpu_based c AND 0x81000080 = 0x81000080) \<and>
     fresh_pages (pmem w) \<and> avails 21 (pmem w) \<and>
     (\<forall>p. Some p \<in> set (avail_pages (pmem w)) \<longrightarrow> active_on (regions w (page_to_phys p)) = {}))"

lemma vm_created:
  assumes "served A" "alloc_page (pmem (sw s)) = (Some r, m)"
  obtains s1 k where "mini_kvm_dev_ioctl A KVM_CREATE_VM 0 s = Inr (a_fd A, s1)" "sw s1 = (sw s)\<lparr>pmem := m\<rparr>"
    "vmh s1 (vm_next s) = Some k" "kept k = \<lparr>pml4 = Some r, eptp = page_to_phys r OR 6 OR 0x18, tracked = []\<rparr>" "\<not> svalid (kslot k)"
    "serial_ok k" "captured k = []" "kvcpu k = None" "vc_next s1 = vc_next s" "ofiles s1 = VmFile (vm_next s) # ofiles s"
  using assms
  by (simp add: mini_kvm_dev_ioctl_def mini_kvm_create_vm_def served_def Let_def mini_ept_init_def set_mem_def set_vm_def
      anon_inode_getfd_def zero_kvm_def serial_ok_def captured_def)

lemma region_set:
  assumes "served A" "vmh s a = Some k" "\<not> svalid (kslot k)" "page_aligned u"
  obtains s1 sl where "mini_vm_ioctl (A\<lparr>a_region := \<lparr>rg_slot = 0, rg_flags = 0, rg_gpa = 0, rg_size = 0x200000, rg_uaddr = u\<rparr>\<rparr>) a
      KVM_SET_USER_MEMORY_REGION 0 s = Inr (0, [], s1)"
    "sw s1 = sw s" "vmh s1 a = Some (k\<lparr>kslot := sl\<rparr>)" "slot2M sl" "slot_ok sl" "vc_next s1 = vc_next s" "ofiles s1 = ofiles s"
proof -
  let ?A = "A\<lparr>a_region := \<lparr>rg_slot = 0, rg_flags = 0, rg_gpa = 0, rg_size = 0x200000, rg_uaddr = u\<rparr>\<rparr>"
  let ?sl = "\<lparr>svalid = True, base_gpa = 0, npages = 512, userspace_addr = u, pages = a_pins A\<rparr>"
  have al: "page_aligned 0" "page_aligned 0x200000" "(drop_bit 12 0x200000 :: u64) = 512" by (simp_all add: page_aligned_def)
  have "memregion_pin ?A a s = Inr (0, a_pins A, s\<lparr>pins := a_pins A @ pins s\<rparr>)"
    using assms al by (simp add: memregion_pin_def served_def with_vm_def)
  then have "mini_vm_ioctl ?A a KVM_SET_USER_MEMORY_REGION 0 s = Inr (0, [], set_vm a (k\<lparr>kslot := ?sl\<rparr>) (s\<lparr>pins := a_pins A @ pins s\<rparr>))"
    using assms(2) al by (simp add: mini_vm_ioctl_def mini_kvm_set_memregion_def memregion_store_def with_vm_def)
  moreover have "slot2M ?sl" "slot_ok ?sl" using assms(1) by (simp_all add: slot2M_def slot_ok_def served_def)
  ultimately show thesis using that by (simp add: set_vm_def)
qed

lemma vcpu_created:
  assumes A: "served A" "a_mig A = cur_cpu (sw s)" and k: "vmh s a = Some k" "svalid (kslot k)" "kvcpu k = None"
    and al: "alloc_page (pmem (sw s)) = (Some r1, m1)" "alloc_page m1 = (Some r2, m2)"
    and u: "vmx_usable (sw s)" "mini_compute_controls (sw s) = (0, c)"
  obtains s1 v x gg where "mini_vm_ioctl A a KVM_CREATE_VCPU 0 s = Inr (a_fd A, [], s1)"
    "vmh s1 a = Some (k\<lparr>refcount := refcount k + 1, kvcpu := Some (vc_next s)\<rparr>)" "vch s1 (vc_next s) = Some (v, a)"
    "pending_intr_info v = 0" "length (regs v) = 16" "loaded_cpu v = None" "\<not> launched v" "vmcs_phys v = page_to_phys r2"
    "vfield (regions (sw s1) (page_to_phys r2)) = store_fields (vmcs_image c (eptp (kept k)) x) gg"
    "\<not> vlaunched (regions (sw s1) (page_to_phys r2))" "vrev (regions (sw s1) (page_to_phys r2)) = vmcs_revision_id (glob (sw s))"
    "active_on (regions (sw s1) (page_to_phys r2)) = active_on (regions (sw s) (page_to_phys r2)) - {cur_cpu (sw s)}"
    "pmem (sw s1) = m2" "cur_cpu (sw s1) = cur_cpu (sw s)" "irqs_on (sw s1) = irqs_on (sw s)" "online (sw s1) = online (sw s)"
    "glob (sw s1) = glob (sw s)" "ofiles s1 = VcpuFile (vc_next s) # ofiles s"
    "\<forall>d. in_vmx (cpus (sw s1) d) = in_vmx (cpus (sw s) d) \<and> vmxon_done (cpus (sw s1) d) = vmxon_done (cpus (sw s) d) \<and>
       msr (cpus (sw s1) d) = msr (cpus (sw s) d)"
proof -
  let ?w = "(sw s)\<lparr>pmem := m1\<rparr>" and ?v = "zero_vcpu\<lparr>run_page := Some r1\<rparr>"
  have u1: "vmx_usable ?w" "mini_compute_controls ?w = (0, c)"
    using u controls_world [of ?w "sw s"] by (simp_all add: vmx_usable_def mini_rdmsr_def)
  have al2: "alloc_page (pmem ?w) = (Some r2, m2)" using al(2) by simp
  from setup_run [OF u1(1) al2 u1(2), of "eptp (kept k)" ?v] obtain w1 where
    r: "mini_vcpu_vmx_setup (cur_cpu (sw s)) (eptp (kept k)) ?v ?w =
      Inr (0, ?v\<lparr>vmcs_page := Some r2, vmcs_phys := page_to_phys r2, launched := False, loaded_cpu := None\<rparr>, w1)"
    and w1: "pmem w1 = m2" "cur_cpu w1 = cur_cpu (sw s)" "irqs_on w1 = irqs_on (sw s)" "online w1 = online (sw s)" "glob w1 = glob (sw s)"
      "\<not> vlaunched (regions w1 (page_to_phys r2))" "vrev (regions w1 (page_to_phys r2)) = vmcs_revision_id (glob (sw s))"
      "active_on (regions w1 (page_to_phys r2)) = active_on (regions (sw s) (page_to_phys r2)) - {cur_cpu (sw s)}"
      "\<forall>d. in_vmx (cpus w1 d) = in_vmx (cpus (sw s) d) \<and> vmxon_done (cpus w1 d) = vmxon_done (cpus (sw s) d) \<and>
         msr (cpus w1 d) = msr (cpus (sw s) d)"
      "\<exists>g x. vfield (regions w1 (page_to_phys r2)) = store_fields (vmcs_image c (eptp (kept k)) x) g"
    by auto
  from w1(10) obtain gg x where img: "vfield (regions w1 (page_to_phys r2)) = store_fields (vmcs_image c (eptp (kept k)) x) gg" by blast
  let ?v1 = "?v\<lparr>vmcs_page := Some r2, vmcs_phys := page_to_phys r2, launched := False, loaded_cpu := None\<rparr>" let ?c = "vc_next s"
  let ?k = "k\<lparr>refcount := refcount k + 1, kvcpu := Some ?c\<rparr>"
  let ?s1 = "set_vm a ?k (set_vm a (k\<lparr>refcount := refcount k + 1\<rparr>) (set_vc ?c ?v1 a
     (((set_mem m1 s)\<lparr>vc_next := ?c + 1\<rparr>)\<lparr>sw := w1\<rparr>)))"
  have "mini_kvm_create_vcpu A a 0 s = Inr (a_fd A, ?s1\<lparr>ofiles := VcpuFile ?c # ofiles s\<rparr>)"
    using A k al(1) r
    by (simp add: mini_kvm_create_vcpu_def with_vm_def Let_def served_def publish_vcpu_def mini_kvm_get_def anon_inode_getfd_def
        set_mem_def set_vc_def set_vm_def)
  then have "mini_vm_ioctl A a KVM_CREATE_VCPU 0 s = Inr (a_fd A, [], ?s1\<lparr>ofiles := VcpuFile ?c # ofiles s\<rparr>)"
    by (simp add: mini_vm_ioctl_def)
  then show thesis
    by (rule that [of _ ?v1 x gg]) (use w1 img in \<open>simp_all add: set_vm_def set_vc_def zero_vcpu_def\<close>)
qed

lemma image_guest:
  fixes gg :: "u32 \<Rightarrow> u64" and x :: mk_world and k :: mini_ept
  assumes "bit (pin_based c) 0" "cpu_based c AND 0x81000080 = 0x81000080" "secondary c AND 2 \<noteq> 0"
  defines "f \<equiv> store_fields (vmcs_image c (eptp k) x) gg"
  shows "runs_guest f k" "f GUEST_RIP = 0x1000" "f GUEST_RSP = 0x100000" "f GUEST_CR3 = 0x6000" "f 0x802 = 8"
proof -
  note other = image_not_host [of _ c "eptp k" x gg]
  have g: "store_fields guest_fields h GUEST_RIP = 0x1000" "store_fields guest_fields h GUEST_RSP = 0x100000"
    "store_fields guest_fields h GUEST_CR3 = 0x6000"
    "store_fields guest_fields h PIN_BASED_VM_EXEC_CONTROL = h PIN_BASED_VM_EXEC_CONTROL" for h
    by (simp_all only: store_fields_map_of) (simp_all add: guest_fields_def field_trunc_def)
  have c: "store_fields (control_fields c (eptp k)) gg EPT_POINTER = eptp k"
    "store_fields (control_fields c (eptp k)) gg PIN_BASED_VM_EXEC_CONTROL = ucast (pin_based c)"
    "store_fields (control_fields c (eptp k)) gg CPU_BASED_VM_EXEC_CONTROL = ucast (cpu_based c)"
    "store_fields (control_fields c (eptp k)) gg SECONDARY_VM_EXEC_CONTROL = ucast (secondary c)"
    by (simp_all add: control_fields_def field_trunc_def)
  have b: "bit (secondary c) 1" using assms(3) and_exp_eq_0_iff_not_bit [of "secondary c" 1] by simp
  have cb: "(ucast (cpu_based c) :: u64) AND 0x81000080 = 0x81000080"
  proof -
    have "(ucast (cpu_based c) :: u64) AND ucast (0x81000080 :: u32) = ucast (cpu_based c AND 0x81000080)"
      by (rule bit_word_eqI) (auto simp: bit_simps dest: bit_imp_le_length)
    then show ?thesis by (simp add: assms(2))
  qed
  show "runs_guest f k" using assms(1) b cb
    by (simp add: runs_guest_def f_def other guest_image g c bit_simps)
  show "f GUEST_RIP = 0x1000" "f GUEST_RSP = 0x100000" "f GUEST_CR3 = 0x6000" "f 0x802 = 8"
    by (simp_all add: f_def other guest_image g)
qed

lemma memory_built:
  assumes "layout_ok L"
  defines "m0 \<equiv> \<lparr>bsize = 0x200000, bdata = \<lambda>_. 0\<rparr>"
  shows "load_guest_image (Some (guest_image L)) m0 = Inr (Go (length (guest_image L), mwrite 0x1000 (guest_image L) m0))"
    "code_in L (build_guest_pagetables (mwrite 0x1000 (guest_image L) m0))"
proof -
  have l: "length (guest_image L) < 0x1000" "0 < length (guest_image L)"
    using assms(1) image_length(1) [of L] by (simp_all add: layout_ok_def)
  then show "load_guest_image (Some (guest_image L)) m0 = Inr (Go (length (guest_image L), mwrite 0x1000 (guest_image L) m0))"
    by (simp add: load_guest_image_def CHECK_def Let_def)
  show "code_in L (build_guest_pagetables (mwrite 0x1000 (guest_image L) m0))"
    using l by (simp add: code_in_def tables_in_def build_guest_pagetables_def m0_def)
qed

lemma setup_passes:
  assumes mc: "test_machine s" and A: "\<And>i. served (te_ans E i)" "a_mig (te_ans E 4) = cur_cpu (sw s)" and L: "layout_ok L" "te_image E = Some (guest_image L)"
    and ok: "sys_ok B P s"
    and E: "0 \<le> te_open E" "te_mmap E" "page_aligned (te_addr E)" "te_remap E = 0"
  shows "\<exists>t m v k g. test_setup E s = Inr (Go (t, m)) \<and> vch t (vc_next s) = Some (v, vm_next s) \<and> vmh t (vm_next s) = Some k \<and>
    machine_ok (mset (live (pmem (sw t))) - {#the (pml4 (kept k))#}) (vrs t k v) \<and> guest_at (vrs t k v) m g \<and>
    pending_intr_info v = 0 \<and> captured k = [] \<and> guest_ok L g \<and> g_rip g = ip_of L 0 \<and> g_rsp g = 0x100000 \<and> g_cs g = 8 \<and>
    sys_ok B P t \<and> ofiles t = VcpuFile (vc_next s) # VmFile (vm_next s) # ofiles s"
proof -
  let ?a = "vm_next s" and ?c = "vc_next s" and ?w = "sw s"
  obtain c where c: "mini_compute_controls ?w = (0, c)" and cc: "bit (pin_based c) 0" "cpu_based c AND 0x81000080 = 0x81000080"
    using mc by (auto simp: test_machine_def Let_def)
  have w: "vmx_usable ?w" "irqs_on ?w" "vmxon_done (this_cpu ?w)" "online ?w (cur_cpu ?w)"
    "\<forall>c. vmxon_done (cpus ?w c) \<longrightarrow> in_vmx (cpus ?w c)"
    "\<forall>c. vmcs_revision_id (glob ?w) = ucast (msr (cpus ?w c) MSR_VMX_BASIC AND 0x7fffffff)"
    "fresh_pages (pmem ?w)" "avails (Suc (Suc (Suc 18))) (pmem ?w)"
    "\<forall>p. Some p \<in> set (avail_pages (pmem ?w)) \<longrightarrow> active_on (regions ?w (page_to_phys p)) = {}"
    using mc by (simp_all add: test_machine_def Let_def eval_nat_numeral)
  obtain r0 m0 where p0: "alloc_page (pmem ?w) = (Some r0, m0)" "avails (Suc (Suc 18)) m0" "set (avail_pages m0) \<subseteq> set (avail_pages (pmem ?w))"
    by (rule avails_alloc [OF w(8)])
  obtain r1 m1 where p1: "alloc_page m0 = (Some r1, m1)" "avails (Suc 18) m1" "set (avail_pages m1) \<subseteq> set (avail_pages m0)"
    by (rule avails_alloc [OF p0(2)])
  obtain r2 m2 where p2: "alloc_page m1 = (Some r2, m2)" "avails 18 m2" "Some r2 \<in> set (avail_pages m1)"
    by (rule avails_alloc [OF p1(2)])
  have act: "active_on (regions ?w (page_to_phys r2)) = {}" using w(9) p0(3) p1(3) p2(3) by blast
  obtain s1 k1 where s1: "mini_kvm_dev_ioctl (te_ans E 2) KVM_CREATE_VM 0 s = Inr (a_fd (te_ans E 2), s1)" "sw s1 = ?w\<lparr>pmem := m0\<rparr>"
    "vmh s1 ?a = Some k1" "kept k1 = \<lparr>pml4 = Some r0, eptp = page_to_phys r0 OR 6 OR 0x18, tracked = []\<rparr>" "\<not> svalid (kslot k1)"
    "serial_ok k1" "captured k1 = []" "kvcpu k1 = None" "vc_next s1 = ?c" "ofiles s1 = VmFile ?a # ofiles s"
    by (rule vm_created [OF A(1) p0(1)])
  obtain s2 sl where s2: "mini_vm_ioctl ((te_ans E 3)\<lparr>a_region := \<lparr>rg_slot = 0, rg_flags = 0, rg_gpa = 0, rg_size = 0x200000,
      rg_uaddr = te_addr E\<rparr>\<rparr>) ?a KVM_SET_USER_MEMORY_REGION 0 s1 = Inr (0, [], s2)"
    "sw s2 = sw s1" "vmh s2 ?a = Some (k1\<lparr>kslot := sl\<rparr>)" "slot2M sl" "slot_ok sl" "vc_next s2 = vc_next s1" "ofiles s2 = ofiles s1"
    by (rule region_set [OF A(1) s1(3,5) E(3)])
  let ?w2 = "sw s2" let ?k2 = "k1\<lparr>kslot := sl\<rparr>"
  have mig: "a_mig (te_ans E 4) = cur_cpu ?w2" using A(2) by (simp add: s2(2) s1(2))
  have k2: "svalid (kslot ?k2)" "kvcpu ?k2 = None" using s2(4) s1(8) by (simp_all add: slot2M_def)
  have w2: "?w2 = ?w\<lparr>pmem := m0\<rparr>" by (simp add: s2(2) s1(2))
  have al: "alloc_page (pmem ?w2) = (Some r1, m1)" using p1(1) by (simp add: w2)
  have u2: "vmx_usable ?w2" "mini_compute_controls ?w2 = (0, c)"
    using w(1) c controls_world [of ?w2 ?w] by (simp_all add: w2 vmx_usable_def mini_rdmsr_def)
  obtain s3 v x gg where s3: "mini_vm_ioctl (te_ans E 4) ?a KVM_CREATE_VCPU 0 s2 = Inr (a_fd (te_ans E 4), [], s3)"
    "vmh s3 ?a = Some (?k2\<lparr>refcount := refcount ?k2 + 1, kvcpu := Some (vc_next s2)\<rparr>)" "vch s3 (vc_next s2) = Some (v, ?a)"
    "pending_intr_info v = 0" "length (regs v) = 16" "loaded_cpu v = None" "\<not> launched v" "vmcs_phys v = page_to_phys r2"
    "vfield (regions (sw s3) (page_to_phys r2)) = store_fields (vmcs_image c (eptp (kept ?k2)) x) gg"
    "\<not> vlaunched (regions (sw s3) (page_to_phys r2))" "vrev (regions (sw s3) (page_to_phys r2)) = vmcs_revision_id (glob ?w2)"
    "active_on (regions (sw s3) (page_to_phys r2)) = active_on (regions ?w2 (page_to_phys r2)) - {cur_cpu ?w2}"
    "pmem (sw s3) = m2" "cur_cpu (sw s3) = cur_cpu ?w2" "irqs_on (sw s3) = irqs_on ?w2" "online (sw s3) = online ?w2"
    "glob (sw s3) = glob ?w2" "ofiles s3 = VcpuFile (vc_next s2) # ofiles s2"
    "\<forall>d. in_vmx (cpus (sw s3) d) = in_vmx (cpus ?w2 d) \<and> vmxon_done (cpus (sw s3) d) = vmxon_done (cpus ?w2 d) \<and>
       msr (cpus (sw s3) d) = msr (cpus ?w2 d)"
    by (rule vcpu_created [OF A(1) mig s2(3) k2 al p2(1) u2]) blast
  let ?k = "?k2\<lparr>refcount := refcount ?k2 + 1, kvcpu := Some ?c\<rparr>"
  let ?m = "build_guest_pagetables (mwrite 0x1000 (guest_image L) \<lparr>bsize = 0x200000, bdata = \<lambda>_. 0\<rparr>)"
  have cn: "vc_next s1 = ?c" "vc_next s2 = ?c" using s1(9) s2(6) by simp_all
  have fds: "0 \<le> a_fd (te_ans E 2)" "0 \<le> a_fd (te_ans E 4)" using A by (simp_all add: served_def)
  have su: "test_setup E s = Inr (Go (s3, ?m))"
    unfolding test_setup_def CHECK_def Let_def pbind_def
    using E L(2) s1(1) s2(1) s3(1) memory_built(1) [OF L(1)] fds s3(3)
    by (simp add: mini_kvm_dev_ioctl_def [of _ KVM_GET_API_VERSION] mini_kvm_dev_ioctl_def [of _ KVM_CHECK_EXTENSION]
        mini_kvm_dev_ioctl_def [of _ KVM_GET_VCPU_MMAP_SIZE] mini_vcpu_mmap_def with_vc_def cn)
  have ok1: "sys_ok B P s1" using create_vm_ok [OF ok, of "te_ans E 2"] s1(1) by (simp add: mini_kvm_dev_ioctl_def)
  have f: "VmFile ?a \<in> set (ofiles s1)" "VmFile ?a \<in> set (ofiles s2)" using s1(10) s2(7) by simp_all
  have ok2: "sys_ok B P s2"
    using vm_ioctl_ok [OF ok1 f(1), of "(te_ans E 3)\<lparr>a_region := \<lparr>rg_slot = 0, rg_flags = 0, rg_gpa = 0, rg_size = 0x200000,
      rg_uaddr = te_addr E\<rparr>\<rparr>" KVM_SET_USER_MEMORY_REGION 0] s2(1) by simp
  have ok3: "sys_ok B P s3" using vm_ioctl_ok [OF ok2 f(2), of "te_ans E 4" KVM_CREATE_VCPU 0] s3(1) by simp
  let ?r = "vrs s3 ?k v" let ?oth = "mset (live m2) - {#r0#}"
  have ept: "ept_ok ?oth (kept k1) m2"
  proof -
    have "mini_ept_init \<lparr>pml4 = None, eptp = 0, tracked = []\<rparr> (pmem ?w) = (0, kept k1, m0)"
      using p0(1) by (simp add: mini_ept_init_def s1(4))
    from ept_init_ok(1) [OF w(7) this] have "ept_ok (mset (live (pmem ?w))) (kept k1) m0" .
    from ept_ok_alloc [OF ept_ok_alloc [OF this p1(1)] p2(1)]
    have e: "ept_ok (add_mset r2 (add_mset r1 (mset (live (pmem ?w))))) (kept k1) m2" .
    have "mset (live m2) = add_mset r2 (add_mset r1 (add_mset r0 (mset (live (pmem ?w)))))"
      using p0(1) p1(1) p2(1) by (auto simp: alloc_page_def split: list.splits option.splits)
    then show ?thesis using e by (simp add: add_mset_commute)
  qed
  have vc: "vcpu_ok ?oth ?r"
  proof -
    have "active_on (regions (sw s3) (page_to_phys r2)) = {}" using s3(12) act by (simp add: w2)
    moreover have "\<forall>d. vmxon_done (cpus (sw s3) d) \<longrightarrow> in_vmx (cpus (sw s3) d)" using s3(19) w(5) by (simp add: w2)
    moreover have "\<forall>d. vrev (regions (sw s3) (page_to_phys r2)) = ucast (msr (cpus (sw s3) d) MSR_VMX_BASIC AND 0x7fffffff)"
      using s3(11,19) w(6) by (simp add: w2)
    ultimately show ?thesis
      unfolding vcpu_ok_def using s3(5-8,10,13,15) w(2) s2(4,5) s1(6) ept by (simp add: w2 serial_ok_def)
  qed
  then have mok: "machine_ok ?oth ?r"
    using w s3 by (simp add: machine_ok_def launch_ok_def w2)
  have sec: "secondary c AND 2 \<noteq> 0" using controls_cases [OF c] by simp
  note img = image_guest [OF cc sec, of "kept ?k" x gg]
  have rm: "room (3 * card (lacking ?r)) (kept k1) m2"
    by (rule room_less [of 18]) (use p2(2) lacking_finite(2) [of ?r] in \<open>simp_all add: room_def avails_def s1(4)\<close>)
  let ?g = "guest_of (vfield (regions (sw s3) (page_to_phys r2))) (regs v) ?m"
  have ga: "guest_at ?r ?m ?g"
    using img(1) rm s2(4) s3(8,13) by (simp add: guest_at_def Let_def s3(9))
  have g: "guest_ok L ?g" "g_rip ?g = ip_of L 0" "g_rsp ?g = 0x100000" "g_cs ?g = 8"
    using img(2-5) L(1) memory_built(2) [OF L(1)]
    by (simp_all add: guest_ok_def guest_of_def s3(9) ip_of_def text_off_def text_bytes_def)
  show ?thesis
    by (rule exI [of _ s3], rule exI [of _ ?m], rule exI [of _ v], rule exI [of _ ?k], rule exI [of _ ?g])
      (use su s3 mok ga g s1(4,7,10) s2(7) ok3 in \<open>simp add: cn captured_def\<close>)
qed

lemma no_files:
  assumes ok: "sys_ok B P s" and f: "ofiles s = []"
  shows "vmh s = (\<lambda>_. None) \<and> vch s = (\<lambda>_. None) \<and> mset (live (pmem (sw s))) = B \<and> mset (pins s) = P"
proof -
  have r: "refs {} None s" using ok by (simp add: sys_ok_def)
  have vm: "vmh s v = None" for v
    using refs_vm [OF r, of v] refs_files [OF r, of v] f
    by (cases "vmh s v") (auto split: option.splits if_splits)
  have vc: "vch s c = None" for c
    using refs_vc [OF r, of c] f by (cases "vch s c") auto
  show ?thesis using ok vm vc by (auto simp: sys_ok_def acct_def heap_sum_empty)
qed

section \<open>Closing the files\<close>

text \<open>The only faults closing can have are those the reference counts exclude.\<close>

definition mem_fault :: "'a res \<Rightarrow> bool" where
  "mem_fault r \<longleftrightarrow> (\<forall>f. r = Inl f \<longrightarrow> f = UseAfterFree \<or> f = BadFree)"

lemma mem_fault_simps [simp]: "mem_fault (Inr x)" "mem_fault (Inl UseAfterFree)" "mem_fault (Inl BadFree)"
  by (simp_all add: mem_fault_def)

lemma mem_fault_bind: "mem_fault x \<Longrightarrow> (\<And>y. x = Inr y \<Longrightarrow> mem_fault (f y)) \<Longrightarrow> mem_fault (rbind x f)"
  by (cases x) (auto simp: mem_fault_def)

lemma mem_fault_with:
  "(\<And>k. vmh s a = Some k \<Longrightarrow> mem_fault (f k)) \<Longrightarrow> mem_fault (with_vm a s f)"
  "(\<And>v a. vch s c = Some (v, a) \<Longrightarrow> mem_fault (h v a)) \<Longrightarrow> mem_fault (with_vc c s h)"
  by (auto simp: with_vm_def with_vc_def split: option.split)

lemma mem_fault_free: "mem_fault (free_page p m)" "mem_fault (free_all ps m)" "mem_fault (unpin_user_pages ps qs)"
proof -
  show free: "mem_fault (free_page p m)" for p m by (simp add: free_page_def)
  show "mem_fault (free_all ps m)" by (induction ps arbitrary: m) (auto intro!: mem_fault_bind free)
  show "mem_fault (unpin_user_pages ps qs)" by (induction ps arbitrary: qs) simp_all
qed

lemma mem_fault_put: "mem_fault (mini_kvm_put a s)"
  by (auto simp: mini_kvm_put_def mini_kvm_destroy_def mini_kvm_unpin_memslot_def mini_ept_destroy_def
      intro!: mem_fault_with mem_fault_bind mem_fault_free split: option.split)

lemma ensures_mem: "ensures r Q \<Longrightarrow> mem_fault r \<Longrightarrow> \<exists>y. r = Inr y \<and> Q y"
  by (cases r) (auto simp: mem_fault_def)

lemma put_files: "mini_kvm_put a s = Inr t \<Longrightarrow> ofiles t = ofiles s"
  by (auto simp: mini_kvm_put_def mini_kvm_destroy_def mini_kvm_unpin_memslot_def with_vm_def rbind_eq_Inr set_vm_def set_mem_def
      kfree_vm_def split: option.splits if_splits)

lemma teardown_files: "teardown_vc c s = Inr t \<Longrightarrow> ofiles t = ofiles s" "free_run_page c s = Inr t \<Longrightarrow> ofiles t = ofiles s"
  by (auto simp: teardown_vc_def free_run_page_def with_vc_def rbind_eq_Inr set_vc_def set_mem_def split: option.splits)

lemma release_files:
  assumes "mini_vcpu_release c s = Inr t"
  shows "ofiles t = ofiles s"
proof -
  obtain v a k where va: "vch s c = Some (v, a)" "vmh s a = Some k"
    using assms by (auto simp: mini_vcpu_release_def with_vm_def with_vc_def split: option.splits)
  define u where "u = (if kvcpu k = Some c then set_vm a (k\<lparr>kvcpu := None\<rparr>) s else s)"
  have "ofiles u = ofiles s" by (simp add: u_def set_vm_def)
  moreover obtain u1 u2 where "teardown_vc c u = Inr u1" "free_run_page c u1 = Inr u2" "mini_kvm_put a (kfree_vc c u2) = Inr t"
    using assms unfolding mini_vcpu_release_def with_vm_def with_vc_def va option.case prod.case Let_def u_def [symmetric]
    by (auto simp: rbind_eq_Inr)
  ultimately show ?thesis using teardown_files put_files by (fastforce simp: kfree_vc_def)
qed

lemma clear_runs:
  assumes "machine_ok oth s"
  shows "\<exists>r. mini_vmcs_clear (rv s) (rw s) = Inr r"
proof -
  have ok: "vcpu_ok oth s" using assms by (simp add: machine_ok_def)
  show ?thesis
  proof (cases "loaded_cpu (rv s)")
    case None
    then show ?thesis by (simp add: vmcs_clear_unloaded)
  next
    case (Some d)
    then have d: "online (rw s) d" "vmxon_done (cpus (rw s) d)" "in_vmx (cpus (rw s) d)" "irqs_on (rw s)" using ok by (auto simp: vcpu_ok_def)
    then show ?thesis using Some vmcs_clear_local [of "rw s" "rv s"] vmcs_clear_remote [of "rv s" d "rw s"]
      by (cases "d = cur_cpu (rw s)") auto
  qed
qed

lemma mem_fault_release:
  assumes "vch s c = Some (v, a)" "mini_vmcs_clear v (sw s) = Inr r"
  shows "mem_fault (mini_vcpu_release c s)"
proof -
  have td: "mem_fault (teardown_vc c u)" if "vch u c = Some (v, a)" "sw u = sw s" for u
    unfolding teardown_vc_def mini_vcpu_vmx_teardown_def
    using that assms(2) by (auto intro!: mem_fault_with mem_fault_bind mem_fault_free split: option.split prod.split)
  have fr: "mem_fault (free_run_page c u)" for u
    unfolding free_run_page_def by (auto intro!: mem_fault_with mem_fault_bind mem_fault_free split: option.split)
  show ?thesis
    unfolding mini_vcpu_release_def Let_def
    by (intro mem_fault_with mem_fault_bind mem_fault_put td fr) (use assms(1) in \<open>auto simp: set_vm_def\<close>)
qed

lemma closes:
  assumes ok: "sys_ok B P s" and f: "ofiles s = [VcpuFile c, VmFile a]" and v: "vch s c = Some (v, a)" and m: "machine_ok oth (vrs s k v)"
  shows "\<exists>t u. sys_call A1 (Release (VcpuFile c)) s = Inr t \<and> sys_call A2 (Release (VmFile a)) t = Inr u \<and>
    ofiles u = [] \<and> sys_ok B P u"
proof -
  let ?s = "s\<lparr>ofiles := [VmFile a]\<rparr>"
  obtain r where "mini_vmcs_clear v (sw s) = Inr r" using clear_runs [OF m] by auto
  then have "mem_fault (mini_vcpu_release c ?s)" using v by (intro mem_fault_release [of _ _ v a]) simp_all
  moreover have "ensures (mini_vcpu_release c ?s) (sys_ok B P)" using vcpu_release_ok [OF ok, of c] f by simp
  ultimately obtain t where t: "mini_vcpu_release c ?s = Inr t" "sys_ok B P t" using ensures_mem by blast
  have ft: "ofiles t = [VmFile a]" using release_files [OF t(1)] by simp
  let ?t = "t\<lparr>ofiles := []\<rparr>"
  have "ensures (mini_vm_release a ?t) (sys_ok B P)" using vm_release_ok [OF t(2), of a] ft by simp
  then obtain u where u: "mini_vm_release a ?t = Inr u" "sys_ok B P u"
    using ensures_mem mem_fault_put unfolding mini_vm_release_def by blast
  have "ofiles u = []" using put_files u(1) by (fastforce simp: mini_vm_release_def)
  then show ?thesis using t u f ft by simp
qed

section \<open>The test passes\<close>

text \<open>
  C3. The whole chain works.  On a processor that supports what the module asks for, with the pages and file descriptors it takes,
  the test program runs to its end: the module sets up a virtual CPU; its guest builds its tables, prints its greeting, waits;
  the injected interrupt reaches the handler in \<open>guest.S\<close>, which prints its message and returns to the wait.  This holds for any
  encoding of the instructions, for any host interrupts that interrupt the runs, and although every page of the guest is only
  mapped on its first EPT violation, also one during the delivery of the interrupt.  After the program nothing is left of the VM.
\<close>

theorem test_passes:
  assumes "test_machine s" "sys_fresh s" "\<And>i. served (te_ans E i)" "a_mig (te_ans E 4) = cur_cpu (sw s)" "layout_ok L" "te_image E = Some (guest_image L)"
    and "0 \<le> te_open E" "te_mmap E" "page_aligned (te_addr E)" "te_remap E = 0" "2850 \<le> n"
    and "te_cuts E = cs1 # cs2 # css" "34 \<le> count_list cs1 None" "26 \<le> count_list cs2 None"
  shows "\<exists>t. test_main L n E s = Inr (Go ([msg_bytes, msg_bytes @ irqmsg_bytes], t)) \<and> vmh t = (\<lambda>_. None) \<and> vch t = (\<lambda>_. None) \<and>
    ofiles t = [] \<and> mset (live (pmem (sw t))) = mset (live (pmem (sw s))) \<and> mset (pins t) = mset (pins s)"
proof -
  let ?B = "mset (live (pmem (sw s)))" and ?P = "mset (pins s)" and ?a = "vm_next s" and ?c = "vc_next s"
  obtain s1 m v k g where s1: "test_setup E s = Inr (Go (s1, m))" "vch s1 ?c = Some (v, ?a)" "vmh s1 ?a = Some k"
    "machine_ok (mset (live (pmem (sw s1))) - {#the (pml4 (kept k))#}) (vrs s1 k v)" "guest_at (vrs s1 k v) m g"
    "pending_intr_info v = 0" "captured k = []" "guest_ok L g" "g_rip g = ip_of L 0" "g_rsp g = 0x100000" "g_cs g = 8"
    "sys_ok ?B ?P s1" "ofiles s1 = VcpuFile ?c # VmFile ?a # ofiles s"
    using setup_passes [OF assms(1,3,4,5,6) sys_fresh_ok [OF assms(2)] assms(7-10)] by blast
  have "VcpuFile ?c \<in> set (ofiles s1)" using s1(13) by simp
  from runs_pass [OF s1(2,3) assms(3) s1(4-11) assms(11) s1(12) this assms(12-14)]
  obtain s2 k' v' where s2: "test_runs L n E ?a ?c s1 m = Inr (Go ([msg_bytes, msg_bytes @ irqmsg_bytes], s2))"
    "vch s2 ?c = Some (v', ?a)" "machine_ok (mset (live (pmem (sw s1))) - {#the (pml4 (kept k))#}) (vrs s2 k' v')"
    "ofiles s2 = ofiles s1" "sys_ok ?B ?P s2" by blast
  have "ofiles s2 = [VcpuFile ?c, VmFile ?a]" using s2(4) s1(13) assms(2) by (simp add: sys_fresh_def)
  from closes [OF s2(5) this s2(2,3), of "te_ans E 11" "te_ans E 12"] obtain t u where t:
    "sys_call (te_ans E 11) (Release (VcpuFile ?c)) s2 = Inr t" "sys_call (te_ans E 12) (Release (VmFile ?a)) t = Inr u"
    "ofiles u = []" "sys_ok ?B ?P u" by blast
  have "test_main L n E s = Inr (Go ([msg_bytes, msg_bytes @ irqmsg_bytes], u))"
    by (simp add: test_main_def pbind_def s1(1) s2(1) t(1,2) del: sys_call.simps)
  then show ?thesis using t(3) no_files [OF t(4,3)] by blast
qed

section \<open>Witnesses\<close>

text \<open>The instructions as they are in \<open>guest.bin\<close>.\<close>

definition guest_bin :: layout where
  "guest_bin = \<lparr>enc = (\<lambda>k. [[0xfc], [0x0f, 0x01, 0x15, 0xf8, 0, 0, 0], [0x48, 0x8d, 0x35, 0x92, 0, 0, 0],
     [0x48, 0xc7, 0xc7, 0, 0x20, 0, 0], [0xb9, 0, 1, 0, 0], [0xe8, 0x2f, 0, 0, 0], [0x48, 0x8d, 0x35, 0x6c, 0, 0, 0],
     [0x48, 0xc7, 0xc7, 0x10, 0x22, 0, 0], [0xb9, 1, 0, 0, 0], [0xe8, 0x17, 0, 0, 0], [0x0f, 1, 0x1d, 0x99, 0, 0, 0],
     [0x48, 0x8d, 0x35, 0x62, 0, 0, 0], [0xe8, 0x38, 0, 0, 0], [0xfb], [0xf4], [0xeb, 0xfd],
     [0x48, 0x89, 0xf0], [0x66, 0x89, 0x07], [0x66, 0xc7, 0x47, 2, 8, 0], [0xc6, 0x47, 4, 0], [0xc6, 0x47, 5, 0x8e],
     [0x48, 0x89, 0xc2], [0x48, 0xc1, 0xea, 0x10], [0x66, 0x89, 0x57, 6], [0xc7, 0x47, 8, 0, 0, 0, 0], [0xc7, 0x47, 0x0c, 0, 0, 0, 0],
     [0x48, 0x83, 0xc7, 0x10], [0xe2, 0xd0], [0xc3],
     [0x52], [0xba, 0xf8, 3, 0, 0], [0xac], [0x84, 0xc0], [0x74, 3], [0xee], [0xeb, 0xf8], [0x5a], [0xc3],
     [0x48, 0x8d, 0x35, 0x2a, 0, 0, 0], [0xe8, 0xe4, 0xff, 0xff, 0xff], [0x48, 0xcf], [0x48, 0xcf]] ! k), ro_gap = 5\<rparr>"

text \<open>The operand an instruction encodes as a distance from the next instruction, and the number of its bytes.\<close>

fun rel_operand :: "asm \<Rightarrow> (lbl \<times> nat) option" where
  "rel_operand (ILgdt l) = Some (l, 4)"
| "rel_operand (ILidt l) = Some (l, 4)"
| "rel_operand (ILea l r) = Some (l, 4)"
| "rel_operand (ICall l) = Some (l, 4)"
| "rel_operand (ILoop l) = Some (l, 1)"
| "rel_operand (IJz l) = Some (l, 1)"
| "rel_operand (IJmp l) = Some (l, 1)"
| "rel_operand _ = None"

definition rel_ok :: "layout \<Rightarrow> nat \<Rightarrow> bool" where
  "rel_ok L k = (case rel_operand (guest_text ! k) of
     None \<Rightarrow> True
   | Some (l, n) \<Rightarrow> drop (length (enc L k) - n) (enc L k) = le_bytes n (label_addr L l - ip_of L (k + 1)))"

lemma guest_bin_ok: "layout_ok guest_bin"
proof -
  have "list_all (\<lambda>k. enc guest_bin k \<noteq> [] \<and> length (enc guest_bin k) \<le> 15) [0..<42]" by code_simp
  moreover have "length (guest_image guest_bin) < 0x1000" by code_simp
  ultimately show ?thesis by (simp add: layout_ok_def list_all_iff)
qed


definition ex_test_answers :: answers where
  "ex_test_answers = (ex_answers 20)\<lparr>a_pins := map of_nat [1000..<1512]\<rparr>"

definition ex_test_env :: test_env where
  "ex_test_env = \<lparr>te_open = 3, te_mmap = True, te_addr = 0x7f0000000000, te_image = Some (guest_image guest_bin), te_remap = 0,
     te_ans = (\<lambda>_. ex_test_answers), te_cuts = [Some 100 # Some 7 # replicate 34 None, replicate 3 (Some 2) @ replicate 26 None]\<rparr>"

definition ex_test_sys :: sys where
  "ex_test_sys = ex_sys\<lparr>sw := ex_world\<lparr>pmem := \<lparr>tables = (\<lambda>_ _. 0), avail_pages = map (Some \<circ> of_nat) [100..<130], live = [20, 21]\<rparr>\<rparr>\<rparr>"

lemma ex_pfns: "x < 5000 \<Longrightarrow> pfn_ok (of_nat x)"
  by (simp add: pfn_ok_def word_less_nat_alt unat_of_nat take_bit_nat_eq_self)

lemma ex_test_served: "served ex_test_answers"
  using ex_pfns by (simp add: served_def ex_test_answers_def ex_answers_def del: upt_rec_numeral upt_Suc)

lemma ex_test_machine: "test_machine ex_test_sys"
proof -
  have w: "sw ex_test_sys = ex_world\<lparr>pmem := \<lparr>tables = (\<lambda>_ _. 0), avail_pages = map (Some \<circ> of_nat) [100..<130], live = [20, 21]\<rparr>\<rparr>"
    by (simp add: ex_test_sys_def ex_sys_def)
  have "fresh_pages \<lparr>tables = (\<lambda>_ _. 0), avail_pages = map (Some \<circ> of_nat) [100..<130], live = [20, 21]\<rparr>" by code_simp
  then have "fresh_pages (pmem (sw ex_test_sys))" by (simp add: w)
  moreover have "avails 21 (pmem (sw ex_test_sys))" by (simp add: w avails_def take_map)
  moreover have "vmx_usable (sw ex_test_sys)" using ex_world_facts(1) by (simp add: w vmx_usable_def mini_rdmsr_def)
  ultimately show ?thesis
    unfolding test_machine_def Let_def
    by (simp add: w ex_world_def ex_cpu_def mini_rdmsr_def ex_msrs_def bit_simps mini_compute_controls_def mini_vmx_adjust_control_def Let_def)
qed

theorem test_passes_witness:
  "\<exists>t. test_main guest_bin 2850 ex_test_env ex_test_sys =
     Inr (Go ([ascii ''Hello from Mini-KVM Guest!'' @ [10], ascii ''Hello from Mini-KVM Guest!'' @ [10] @ ascii ''[IRQ 0x21 handled]'' @ [10]], t)) \<and>
     mset (live (pmem (sw t))) = {#20, 21#}"
proof -
  have "sys_fresh ex_test_sys" using ex_fresh by (simp add: ex_test_sys_def sys_fresh_def)
  moreover have "a_mig (te_ans ex_test_env 4) = cur_cpu (sw ex_test_sys)"
    by (simp add: ex_test_env_def ex_test_answers_def ex_answers_def ex_test_sys_def ex_sys_def ex_world_def)
  moreover have "34 \<le> count_list (Some 100 # Some 7 # replicate 34 None) (None :: nat option)"
    "26 \<le> count_list (replicate 3 (Some 2) @ replicate 26 None) (None :: nat option)" by code_simp+
  ultimately have "\<exists>t. test_main guest_bin 2850 ex_test_env ex_test_sys = Inr (Go ([msg_bytes, msg_bytes @ irqmsg_bytes], t)) \<and>
      vmh t = (\<lambda>_. None) \<and> vch t = (\<lambda>_. None) \<and> ofiles t = [] \<and>
      mset (live (pmem (sw t))) = mset (live (pmem (sw ex_test_sys))) \<and> mset (pins t) = mset (pins ex_test_sys)"
    by (intro test_passes [OF ex_test_machine, where css = "[]" and ?cs1.0 = "Some 100 # Some 7 # replicate 34 None"
        and ?cs2.0 = "replicate 3 (Some 2) @ replicate 26 None"])
      (simp_all add: ex_test_env_def ex_test_served guest_bin_ok page_aligned_def del: replicate.simps)
  then show ?thesis by (auto simp: msg_bytes_def irqmsg_bytes_def ex_test_sys_def)
qed

end
