(* ===== verification/Spec2Isabelle.thy ===== *)
theory Spec2Isabelle
  imports Serial VirtioMmio MiniHw MiniVcpu PciPass MpTable Boot RunLoop Minivmm GuestCpu GuestCode TimerExp VmxDemo PiDemo MiniTest
begin

text \<open>
  A verification library for the programs of this repository, a study of hardware virtualization on x86.  Its two large
  programs are modelled completely as far as they compute: \<open>minivmm.c\<close>, a virtual machine monitor on top of KVM that boots
  Linux with a serial port, virtio devices and a passed-through PCI device, and \<open>mini-kvm\<close>, a kernel module that drives
  VMX itself and offers a small part of the KVM interface.  With them come the demos, experiments and modules that have a
  behaviour of their own.  All sources are under \<open>src/\<close>; paths below leave that out.

  \<^bold>\<open>Conventions\<close> (\<open>VmmPrelude\<close>).  Machine integers keep their width and wrap.  A computation that may break is of type
  \<open>'a res\<close>: \<open>Inl\<close> carries the fault (an access outside its buffer, a division by zero, a loop that does not end, a use
  after a free, a bad free, a VMX instruction outside VMX operation, a variable read before it is set), \<open>Inr\<close> the result;
  \<open>rbind\<close> sequences.  Guest RAM and other byte buffers are \<open>cbuf\<close>, a size and the bytes.  What the kernel, a file, a
  device or a processor answers is a parameter: a record of answers, a list of events, or a function.  Errors the code
  reports are values: negative error numbers, or \<open>Died\<close> with a reason for \<open>DIE\<close>.  The prelude also holds the little-endian
  lemmas, interrupt lines as sequences of levels, and the locales \<open>fifo\<close> (ring buffers) and \<open>demand_map\<close> (tables filled
  on faults).

  \<^bold>\<open>The monitor\<close>, \<open>phase9-capstone/practice/minivmm.c\<close>, in the order of its parts:
  \<^item> \<open>Serial\<close>: \<open>struct serial_state\<close> and the 16550A registers, the receive ring, GSI 4, the input thread, the reset ports.
    The state machine \<open>serial_step\<close> interleaves guest accesses and input; its invariant says that the line is high exactly
    when the port has a reason to interrupt.  \<open>fifo\<close> is interpreted on the ring.
  \<^item> \<open>Virtqueue\<close>: \<open>gpa2hva\<close>, descriptors, \<open>gather_chain\<close>, the used ring, the echo queue of the console.  \<open>desc_chain\<close> is
    the specification of a chain as an inductive predicate.  \<open>gather_loop\<close> has one unit of fuel per descriptor and
    queue size plus two of them, which is enough unless the size is \<open>0xffffffff\<close>, where the C loop does not end either.
    \<open>fifo\<close> is interpreted on the echo queue.
  \<^item> \<open>VirtioDev\<close>: \<open>service_vq\<close> with the console and block handlers.  The locale \<open>queue_handler\<close> is the contract that makes
    the service loop end and keep its accesses inside guest RAM; it is interpreted on all three handlers, for the block device
    with the one fault it can cause.  The locale \<open>disk_image\<close> states what pread and pwrite do inside a file and is
    interpreted on a regular file.  The fuel of the service loop is the number of available entries.
  \<^item> \<open>VirtioMmio\<close>: the registers, reset, the two devices in their windows, the eventfd path and its worker, and the state
    machine \<open>vio_step\<close> of both devices under any accesses.
  \<^item> \<open>PciPass\<close>: VFIO regions, configuration mechanism 1, the shadows of the BARs and of MSI-X, the interrupt routing, BAR accesses.
    The device behind VFIO is the record \<open>dev_ops\<close>.
  \<^item> \<open>MpTable\<close>: \<open>build_mptable\<close> and a reader of the format.
  \<^item> \<open>Boot\<close>: \<open>read_file\<close>, \<open>load_bzimage\<close>, the GDT, CPUID, the registers of the first entry, the order of the ioctls.
  \<^item> \<open>RunLoop\<close>: \<open>handle_io\<close>, MMIO dispatch, \<open>kvm_run\<close> and the exit counters.  It composes the three device parts; signals, input
    and notifications are events between the exits, since each of their handlers runs under a lock or sets one flag.
  \<^item> \<open>Minivmm\<close>: options, the kernel command line, \<open>main\<close> from start to end.

  \<^bold>\<open>The kernel module\<close>, \<open>phase9-capstone/practice/mini-kvm/\<close>:
  \<^item> \<open>MiniEpt\<close> (\<open>ept.c\<close>): the second-stage tables on a store of pages, the walk that allocates, violations, teardown.  The abstract
    specification is the slot as a partial map; \<open>demand_map\<close> is interpreted on the tables.
  \<^item> \<open>MiniVmx\<close> (\<open>vmx.c\<close>): instruction wrappers over a model of CPUs and VMCS regions (current VMCS, launch state, the CPUs it is
    active on), control negotiation, the VMCS image, setup and teardown, and the checks of VM entry as a predicate.
  \<^item> \<open>MiniHw\<close> (\<open>main.c\<close>): capability checks, VMXON and VMXOFF on all CPUs with rollback, loading and unloading.
  \<^item> \<open>MiniRun\<close> (\<open>interrupt.c\<close>, \<open>device.c\<close>, \<open>vcpu.c\<close>, \<open>vmx_entry.S\<close>): the loop of \<open>KVM_RUN\<close> with injection and every exit; what the
    guest does is a list of exits, and \<open>None\<close> as a result says that the guest has not come back yet.
  \<^item> \<open>MiniVcpu\<close> (\<open>vcpu.c\<close>): the three files, ioctl, mmap, release, the memory slot and the reference counts, on heaps of objects.
    \<open>sys_reach\<close> is the state machine of all calls in any order; \<open>ensures\<close> is the Hoare-style judgement its proofs use.
  \<^item> \<open>MiniGuest\<close> (\<open>guest/guest.S\<close>): the program instruction by instruction on a 64-bit processor with paging and interrupts, for
    any encoding of the instructions.  An access may miss in the second-stage tables; the instruction then starts over, and
    \<open>lags\<close> states that missing pages only delay a run.  The code from the start to the first character takes 2849 instructions.
  \<^item> \<open>MiniEntry\<close>: this guest behind the run loop.  \<open>next_exit\<close> is what an entry loads, the guest does, and an exit stores;
    \<open>guest_exits\<close> answers every entry of a run from the state the loop left, with interrupts of the host after any number of
    instructions.  2850 instructions per entry are enough, and so are 34 and 26 turns that no host interrupt cuts: a violation for each page
    the guest touches, an exit for each character, one for the HLT.
  \<^item> \<open>MiniTest\<close> (\<open>test-mini-kvm.c\<close>): the test program, its calls answered by \<open>MiniVcpu\<close> and its runs by \<open>MiniEntry\<close>.

  \<^bold>\<open>Demos, experiments and modules\<close>:
  \<^item> \<open>GuestCpu\<close>: an interpreter of the instructions the guest code of the programs below uses, from bytes, in real and flat 32-bit mode.
  \<^item> \<open>GuestCode\<close>: \<open>examples/kvm-api-demo\<close> (\<open>kvm-demo.c\<close>, \<open>kvm-demo-regs.c\<close>) and the self-test of \<open>minivmm -b\<close>, whose guest
    meets the models of \<open>Boot\<close> and \<open>Minivmm\<close>.  The self-test spends \<open>0x100000\<close> turns of a delay loop per round.
  \<^item> \<open>TimerExp\<close>: \<open>phase8-timer-virt/practice\<close>, the library \<open>common.h\<close> and the three experiments as sequences of calls on a kernel
    whose answers may depend on every call before; the bounds 1000 (\<open>wait_irq\<close>) and 5 (rounds) are those of the code.
  \<^item> \<open>VmxDemo\<close>: \<open>examples/minimal-vmx/vmx-demo.c\<close> on the machine of \<open>MiniVmx\<close>, with migration between its steps.
  \<^item> \<open>PiDemo\<close>: \<open>phase5-interrupts/practice/pi-demo-module/pi-demo.c\<close>, its descriptor walk, kprobes and \<open>/proc\<close> entry.

  \<^bold>\<open>What is shown\<close>.  Safety of each program as a whole: a run of \<open>minivmm\<close> from its command line on accesses nothing outside guest
  RAM but in the cases the theorem of \<open>Minivmm\<close> names; \<open>mini-kvm\<close> is safe for every guest and every order of calls and gives everything
  back; loading and unloading it restores every CPU.  State invariants: every interrupt line follows its source in every reachable
  state.  Refinement and isolation of the second stage: a guest reaches only the pages of its slot, and no table is leaked.
  Functional behaviour of the devices, the loader, CPUID, the MP tables, MSI-X and the command line, with round trips where one
  side writes what the other reads; the eventfd path is equivalent to the MMIO path. Guest code runs from its first instruction to
  its last and prints what its program expects; the test of \<open>mini-kvm\<close> passes, from opening the device to closing it.
  Errors of the code have theorems or lemmas that show them where they are, so that a repair will show, too. Each property follows
  its natural-language statement; a witness applies it at concrete values.

  \<^bold>\<open>Not modelled\<close>: text printed for a human and its formatting; the terminal mode; the VFIO container set-up and DMA mapping (they only
  succeed or end the program); the decoders that only print (\<open>mini_vmx_dump\<close> and the error names); time stamps and latencies; what the
  kernel closes for a program that has ended by \<open>exit\<close> or \<open>DIE\<close>.
  The locks of the code appear as the atomicity of the operations they protect; where the code takes none the interleaving is in the
  model.  Guest RAM does not change during one service of a queue.  The remaining programs of the repository print values of CPUID,
  MSRs or kernel tables, are copies of one another, or are measured workloads without results to state: \<open>phase1-cpu-virt\<close>, \<open>shared\<close>,
  \<open>phase2-mem-virt\<close>, \<open>phase7-vfio\<close>, \<open>phase10-performance\<close>, the BPF program, \<open>cpuid-faulting-demo\<close>, \<open>vmx-info.c\<close>,
  \<open>check-ept-ad.c\<close> and \<open>read-ept-ad-msr.c\<close>.
\<close>

end
